(* ===== verification/Prelude.thy ===== *)
theory Prelude
  imports Main "HOL-Library.Word" "HOL-Library.Monad_Syntax"
begin

unbundle bit_operations_syntax

text \<open>
  The vocabulary the components share: machine words, Go slices with their bounds checks, the
  view of a byte slice as a little-endian bit sequence, and the parts of \<^verbatim>\<open>encoding/binary\<close>
  and \<^verbatim>\<open>math/bits\<close> the modelled code calls.

  A Go run-time panic (an index or a slice bound out of range) is the value \<open>None\<close> of an
  option; an \<^verbatim>\<open>error\<close> that Go code returns is a value of \<open>goerr\<close>, next to the
  other results. A slice has its capacity equal to its length, so the model panics wherever Go
  does and sometimes earlier. Lengths and offsets that Go keeps in \<^verbatim>\<open>int\<close> or
  \<^verbatim>\<open>int64\<close> and that are never negative are natural numbers.
\<close>

section \<open>Machine words and errors\<close>

type_synonym byte = "8 word"
type_synonym u16 = "16 word"
type_synonym u32 = "32 word"
type_synonym u64 = "64 word"

datatype goerr =
    EOF
  | ErrUnexpectedEOF
  | ErrNoProgress
  | Errorf string

named_theorems slice_simps \<open>bounds-checked slice operations inside their bounds\<close>
named_theorems bm_simps \<open>bits of a byte sequence after a list operation\<close>
named_theorems mask_simps \<open>mask tables and shifts as bit predicates\<close>

lemma word_eq_bits_iff:
  "(v = w) \<longleftrightarrow> (\<forall>n < LENGTH('a). bit v n = bit w n)" for v w :: "'a::len word"
  by (auto intro: bit_word_eqI)

section \<open>Slices\<close>

definition idx :: "'a list \<Rightarrow> nat \<Rightarrow> 'a option" where
  "idx xs i = (if i < length xs then Some (xs ! i) else None)"

definition upd :: "'a list \<Rightarrow> nat \<Rightarrow> 'a \<Rightarrow> 'a list option" where
  "upd xs i v = (if i < length xs then Some (xs[i := v]) else None)"

definition slice :: "'a list \<Rightarrow> nat \<Rightarrow> nat \<Rightarrow> 'a list option" where
  "slice xs lo hi =
     (if lo \<le> hi \<and> hi \<le> length xs then Some (take (hi - lo) (drop lo xs)) else None)"

definition slice_from :: "'a list \<Rightarrow> nat \<Rightarrow> 'a list option" where
  "slice_from xs lo = (if lo \<le> length xs then Some (drop lo xs) else None)"

text \<open>\<open>blit dst off src\<close> is \<^verbatim>\<open>dst\<close> after \<^verbatim>\<open>copy(dst[off:], src)\<close>: Go copies
  as many elements as fit.\<close>

definition blit :: "'a list \<Rightarrow> nat \<Rightarrow> 'a list \<Rightarrow> 'a list" where
  "blit dst off src =
     take off dst @ take (length dst - off) src @ drop (off + length src) dst"

lemma idx_Some [simp, slice_simps]: "i < length xs \<Longrightarrow> idx xs i = Some (xs ! i)"
  by (simp add: idx_def)

lemma upd_Some [simp, slice_simps]: "i < length xs \<Longrightarrow> upd xs i v = Some (xs[i := v])"
  by (simp add: upd_def)

lemma slice_Some [simp, slice_simps]:
  "lo \<le> hi \<Longrightarrow> hi \<le> length xs \<Longrightarrow> slice xs lo hi = Some (take (hi - lo) (drop lo xs))"
  by (simp add: slice_def)

lemma slice_from_Some [simp, slice_simps]:
  "lo \<le> length xs \<Longrightarrow> slice_from xs lo = Some (drop lo xs)"
  by (simp add: slice_from_def)

lemma length_blit [simp]: "off \<le> length dst \<Longrightarrow> length (blit dst off src) = length dst"
  by (simp add: blit_def)

lemma nth_blit:
  assumes "off + length src \<le> length dst" and "i < length dst"
  shows "blit dst off src ! i =
    (if off \<le> i \<and> i < off + length src then src ! (i - off) else dst ! i)"
  using assms by (auto simp: blit_def nth_append)

lemma take_blit: "n \<le> off \<Longrightarrow> off \<le> length dst \<Longrightarrow> take n (blit dst off src) = take n dst"
  by (simp add: blit_def min_def)

lemma blit_Nil [simp]: "blit dst off [] = dst"
  by (simp add: blit_def)

section \<open>A byte sequence as a bit sequence\<close>

text \<open>Bit \<open>i\<close> of a byte slice is bit \<open>i mod 8\<close> of byte \<open>i div 8\<close>: the layout of
  every Arrow bitmap and of every bit-packed Parquet run.\<close>

definition bm_bit :: "byte list \<Rightarrow> nat \<Rightarrow> bool" where
  "bm_bit bs i \<longleftrightarrow> i div 8 < length bs \<and> bit (bs ! (i div 8)) (i mod 8)"

lemma div8_less_iff: "i div 8 < k \<longleftrightarrow> i < 8 * k" for i k :: nat
  by (simp add: div_less_iff_less_mult mult.commute)

lemma less_div8_iff: "k < i div 8 \<longleftrightarrow> 8 * k + 8 \<le> i" for i k :: nat
  using less_eq_div_iff_mult_less_eq [of 8 "Suc k" i] by (simp add: Suc_le_eq ac_simps)

lemma le_div8_iff: "k \<le> i div 8 \<longleftrightarrow> 8 * k \<le> i" for i k :: nat
  using less_eq_div_iff_mult_less_eq [of 8 k i] by (simp add: mult.commute)

lemma mod8_diff: "8 * k \<le> i \<Longrightarrow> (i - 8 * k) mod 8 = i mod 8" for i k :: nat
  using mod_mult_self4 [of 8 k "i - 8 * k"] by simp

lemma bm_bit_Nil [simp]: "\<not> bm_bit [] i"
  by (simp add: bm_bit_def)

lemma bm_bit_beyond: "8 * length bs \<le> i \<Longrightarrow> \<not> bm_bit bs i"
  by (auto simp: bm_bit_def)

lemma bm_bit_update [bm_simps]:
  "bm_bit (bs[k := b]) i =
     (if i div 8 = k \<and> k < length bs then bit b (i mod 8) else bm_bit bs i)"
  by (auto simp: bm_bit_def)

lemma bm_bit_drop [bm_simps]: "bm_bit (drop k bs) i = bm_bit bs (8 * k + i)"
  by (auto simp: bm_bit_def less_diff_conv ac_simps)

lemma bm_bit_take [bm_simps]: "bm_bit (take k bs) i \<longleftrightarrow> i < 8 * k \<and> bm_bit bs i"
proof -
  have "i div 8 < k \<longleftrightarrow> i < 8 * k" by linarith
  then show ?thesis by (auto simp: bm_bit_def)
qed

lemma bm_bit_append [bm_simps]:
  "bm_bit (xs @ ys) i =
     (if i < 8 * length xs then bm_bit xs i else bm_bit ys (i - 8 * length xs))"
proof (cases "i < 8 * length xs")
  case True
  then have "i div 8 < length xs" by linarith
  with True show ?thesis by (simp add: bm_bit_def nth_append)
next
  case False
  then obtain j where j: "i = 8 * length xs + j" using le_Suc_ex not_less by blast
  then have "i div 8 = length xs + j div 8" "i mod 8 = j mod 8" by simp_all
  with False j show ?thesis by (simp add: bm_bit_def nth_append)
qed

lemma bm_bit_Cons:
  "bm_bit (b # bs) i = (if i < 8 then bit b i else bm_bit bs (i - 8))"
  using bm_bit_append [of "[b]" bs i] by (simp add: bm_bit_def)

lemma bm_bit_replicate [bm_simps]:
  "bm_bit (replicate n b) i \<longleftrightarrow> i < 8 * n \<and> bit b (i mod 8)"
  by (auto simp: bm_bit_def)

lemma bm_bit_map2 [bm_simps]:
  assumes "length xs = length ys"
    and "\<And>a b k. k < 8 \<Longrightarrow> bit (f a b) k = g (bit a k) (bit b k)"
  shows "bm_bit (map2 f xs ys) i \<longleftrightarrow> i < 8 * length xs \<and> g (bm_bit xs i) (bm_bit ys i)"
proof -
  have "i div 8 < length xs \<longleftrightarrow> i < 8 * length xs" by linarith
  with assms show ?thesis by (auto simp: bm_bit_def)
qed

lemma bm_bit_map [bm_simps]:
  assumes "\<And>a k. k < 8 \<Longrightarrow> bit (f a) k = g (bit a k)"
  shows "bm_bit (map f xs) i \<longleftrightarrow> i < 8 * length xs \<and> g (bm_bit xs i)"
proof -
  have "i div 8 < length xs \<longleftrightarrow> i < 8 * length xs" by linarith
  with assms show ?thesis by (auto simp: bm_bit_def)
qed

lemma bm_bit_blit [bm_simps]:
  assumes "off + length src \<le> length dst"
  shows "bm_bit (blit dst off src) i =
    (if 8 * off \<le> i \<and> i < 8 * (off + length src) then bm_bit src (i - 8 * off)
     else bm_bit dst i)"
  using assms by (auto simp: blit_def bm_simps)

lemma in_byte_iff: "8 * q \<le> i \<and> i < 8 * q + 8 \<longleftrightarrow> i div 8 = q" for q i :: nat
  by linarith

lemma in_byte_mod: "i div 8 = q \<Longrightarrow> i mod 8 = i - 8 * q" for q i :: nat
  by (auto simp: minus_mult_div_eq_mod)

lemma bm_bit_in_byte:
  assumes "8 * q \<le> i" "i < 8 * q + 8" "q < length bs"
  shows "bit (bs ! q) (i - 8 * q) = bm_bit bs i"
  using assms in_byte_iff [of q i] in_byte_mod [of i q] by (simp add: bm_bit_def)

lemma bm_bit_update_range:
  "bm_bit (bs[q := b]) i =
     (if 8 * q \<le> i \<and> i < 8 * q + 8 \<and> q < length bs then bit b (i - 8 * q) else bm_bit bs i)"
  using in_byte_iff [of q i] in_byte_mod [of i q]
  by (cases "i div 8 = q") (auto simp: bm_bit_update)

text \<open>\<open>bm_writes buf pos n f buf'\<close>: \<open>buf'\<close> is \<open>buf\<close> with the \<open>n\<close> bits from \<open>pos\<close> on
  replaced by \<open>f 0, f 1, \<dots>\<close> and every other bit as it was.\<close>

definition bm_writes :: "byte list \<Rightarrow> nat \<Rightarrow> nat \<Rightarrow> (nat \<Rightarrow> bool) \<Rightarrow> byte list \<Rightarrow> bool" where
  "bm_writes buf pos n f buf' \<longleftrightarrow> length buf' = length buf \<and>
     (\<forall>i. bm_bit buf' i = (if pos \<le> i \<and> i < pos + n then f (i - pos) else bm_bit buf i))"

lemma bm_writes_length: "bm_writes buf pos n f buf' \<Longrightarrow> length buf' = length buf"
  by (simp add: bm_writes_def)

lemma bm_writes_bit:
  "bm_writes buf pos n f buf' \<Longrightarrow>
   bm_bit buf' i = (if pos \<le> i \<and> i < pos + n then f (i - pos) else bm_bit buf i)"
  by (simp add: bm_writes_def)

lemma bm_writes_0 [simp]: "bm_writes buf pos 0 f buf"
  by (auto simp: bm_writes_def)

lemma bm_writes_cong:
  "bm_writes buf pos n f buf' \<Longrightarrow> (\<And>i. i < n \<Longrightarrow> f i = g i) \<Longrightarrow> bm_writes buf pos n g buf'"
  by (auto simp: bm_writes_def)

lemma bm_writes_trans:
  assumes "bm_writes b pos m f b'" "bm_writes b' (pos + m) n (\<lambda>i. f (m + i)) b''"
  shows "bm_writes b pos (m + n) f b''"
  using assms by (auto simp: bm_writes_def)

lemma bm_writes_blit:
  assumes "bm_writes (drop p buf) pos n f bs" "8 * p + pos + n \<le> 8 * length buf"
  shows "bm_writes buf (8 * p + pos) n f (blit buf p bs)"
proof -
  have "p + length bs = length buf" using assms by (simp add: bm_writes_def)
  then show ?thesis
    using assms by (auto simp: bm_writes_def bm_bit_blit bm_bit_drop bm_bit_beyond)
qed

lemma bm_eqI:
  assumes len: "length xs = length ys"
    and eq: "\<And>i. i < 8 * length xs \<Longrightarrow> bm_bit xs i = bm_bit ys i"
  shows "xs = ys"
proof (rule nth_equalityI [OF len])
  fix k assume k: "k < length xs"
  show "xs ! k = ys ! k"
  proof (rule bit_word_eqI)
    fix n assume "n < LENGTH(8)"
    then have n: "n < 8" by simp
    with k have "bm_bit xs (8 * k + n) = bm_bit ys (8 * k + n)" by (intro eq) linarith
    with k n len show "bit (xs ! k) n = bit (ys ! k) n" by (simp add: bm_bit_def)
  qed
qed

section \<open>Little-endian words (\<^verbatim>\<open>encoding/binary\<close>)\<close>

definition word_of_bytes :: "byte list \<Rightarrow> 'a::len word" where
  "word_of_bytes bs = foldr (\<lambda>b w. ucast b OR push_bit 8 w) bs 0"

definition bytes_of_word :: "nat \<Rightarrow> 'a::len word \<Rightarrow> byte list" where
  "bytes_of_word n w = map (\<lambda>k. ucast (drop_bit (8 * k) w)) [0..<n]"

lemma length_bytes_of_word [simp]: "length (bytes_of_word n w) = n"
  by (simp add: bytes_of_word_def)

lemma bit_word_of_bytes:
  "bit (word_of_bytes bs :: 'a::len word) i \<longleftrightarrow> i < LENGTH('a) \<and> bm_bit bs i"
proof (induction bs arbitrary: i)
  case Nil
  then show ?case by (simp add: word_of_bytes_def)
next
  case (Cons b bs)
  have step: "word_of_bytes (b # bs) = (ucast b OR push_bit 8 (word_of_bytes bs) :: 'a word)"
    by (simp add: word_of_bytes_def)
  show ?case
    unfolding step
    by (auto simp: bit_simps Cons.IH bm_bit_Cons dest: bit_imp_le_length)
qed

lemma bm_bit_bytes_of_word [bm_simps]:
  "bm_bit (bytes_of_word n w) i \<longleftrightarrow> i < 8 * n \<and> bit w i"
proof (cases "i < 8 * n")
  case True
  then have "i div 8 < n" by linarith
  then show ?thesis using True by (simp add: bm_bit_def bytes_of_word_def bit_simps)
next
  case False
  then show ?thesis using bm_bit_beyond [of "bytes_of_word n w" i] by simp
qed

lemma bytes_of_word_word_of_bytes:
  "length bs = n \<Longrightarrow> 8 * n \<le> LENGTH('a::len) \<Longrightarrow>
     bytes_of_word n (word_of_bytes bs :: 'a word) = bs"
  by (intro bm_eqI) (auto simp: bm_simps bit_word_of_bytes)

definition le_uint64 :: "byte list \<Rightarrow> u64 option" where
  "le_uint64 b = (if 8 \<le> length b then Some (word_of_bytes (take 8 b)) else None)"

lemma le_uint64_Some [simp, slice_simps]:
  "8 \<le> length b \<Longrightarrow> le_uint64 b = Some (word_of_bytes (take 8 b))"
  by (simp add: le_uint64_def)

lemma bit_le_uint64:
  "bit (word_of_bytes (take 8 b) :: u64) i \<longleftrightarrow> i < 64 \<and> bm_bit b i"
  by (auto simp: bit_word_of_bytes bm_simps)

section \<open>\<^verbatim>\<open>math/bits\<close>\<close>

definition ones_count :: "'a::len word \<Rightarrow> nat" where
  "ones_count w = length (filter (bit w) [0..<LENGTH('a)])"

definition trailing_zeros :: "'a::len word \<Rightarrow> nat" where
  "trailing_zeros w = length (takeWhile (\<lambda>i. \<not> bit w i) [0..<LENGTH('a)])"

definition leading_zeros :: "'a::len word \<Rightarrow> nat" where
  "leading_zeros w = length (takeWhile (\<lambda>i. \<not> bit w i) (rev [0..<LENGTH('a)]))"

definition bits_len :: "'a::len word \<Rightarrow> nat" where
  "bits_len w = LENGTH('a) - leading_zeros w"

lemma takeWhile_upt_stop:
  assumes "n \<le> m" and "\<And>i. i < n \<Longrightarrow> P i" and "n < m \<Longrightarrow> \<not> P n"
  shows "length (takeWhile P [0..<m]) = n"
proof (cases "n < m")
  case True
  then have "[0..<m] = [0..<n] @ n # [Suc n..<m]"
    by (metis less_imp_le_nat upt_add_eq_append upt_conv_Cons le_add_diff_inverse zero_le)
  with assms True show ?thesis by (simp add: takeWhile_append)
next
  case False
  with assms(1) have "n = m" by simp
  moreover from this assms(2) have "takeWhile P [0..<m] = [0..<m]"
    by (simp add: takeWhile_eq_all_conv)
  ultimately show ?thesis by (metis diff_zero length_upt)
qed

lemma trailing_zeros_eqI:
  fixes w :: "'a::len word"
  assumes "n \<le> LENGTH('a)" and "\<And>i. i < n \<Longrightarrow> \<not> bit w i" and "n < LENGTH('a) \<Longrightarrow> bit w n"
  shows "trailing_zeros w = n"
  unfolding trailing_zeros_def using assms by (intro takeWhile_upt_stop) auto

lemma trailing_zeros_le: "trailing_zeros (w :: 'a::len word) \<le> LENGTH('a)"
  using length_takeWhile_le [of _ "[0..<LENGTH('a)]"] by (simp add: trailing_zeros_def)

lemma trailing_zeros_less_imp_bit:
  "trailing_zeros (w :: 'a::len word) < LENGTH('a) \<Longrightarrow> bit w (trailing_zeros w)"
  unfolding trailing_zeros_def
  using nth_length_takeWhile [of "\<lambda>i. \<not> bit w i" "[0..<LENGTH('a)]"] by simp

lemma not_bit_below_trailing_zeros:
  "i < trailing_zeros (w :: 'a::len word) \<Longrightarrow> \<not> bit w i"
  unfolding trailing_zeros_def
  using set_takeWhileD [of i "\<lambda>i. \<not> bit w i" "[0..<LENGTH('a)]"]
    takeWhile_nth [of i "\<lambda>i. \<not> bit w i" "[0..<LENGTH('a)]"]
    length_takeWhile_le [of "\<lambda>i. \<not> bit w i" "[0..<LENGTH('a)]"]
  by (metis (no_types, lifting) add_0 diff_zero length_upt nth_mem nth_upt order_less_le_trans)

lemma leading_zeros_le: "leading_zeros (w :: 'a::len word) \<le> LENGTH('a)"
  using length_takeWhile_le [of _ "rev [0..<LENGTH('a)]"] by (simp add: leading_zeros_def)

lemma not_bit_from_bits_len: "bits_len w \<le> i \<Longrightarrow> \<not> bit (w :: 'a::len word) i"
proof
  assume le: "bits_len w \<le> i" and bit: "bit w i"
  let ?xs = "rev [0..<LENGTH('a)]" and ?P = "\<lambda>i. \<not> bit w i"
  from bit have i: "i < LENGTH('a)" by (rule bit_imp_le_length)
  define k where "k = LENGTH('a) - Suc i"
  have k: "k < leading_zeros w" using le i by (simp add: bits_len_def k_def)
  then have "takeWhile ?P ?xs ! k = ?xs ! k"
    unfolding leading_zeros_def by (rule takeWhile_nth)
  also have "?xs ! k = i" using i by (simp add: k_def rev_nth)
  finally have "i \<in> set (takeWhile ?P ?xs)"
    using k unfolding leading_zeros_def by (metis nth_mem)
  with bit show False by (auto dest: set_takeWhileD)
qed

lemma bit_pred_bits_len: "w \<noteq> 0 \<Longrightarrow> 0 < bits_len w \<and> bit w (bits_len w - 1)" for w :: "'a::len word"
proof -
  assume nz: "w \<noteq> 0"
  let ?xs = "rev [0..<LENGTH('a)]" and ?P = "\<lambda>i. \<not> bit w i"
  from nz obtain i where i: "i < LENGTH('a)" "bit w i"
    by (auto simp: word_eq_bits_iff)
  then have "takeWhile ?P ?xs \<noteq> ?xs"
    by (auto simp: takeWhile_eq_all_conv)
  then have less: "leading_zeros w < length ?xs"
    unfolding leading_zeros_def
    by (metis append_eq_conv_conj linorder_not_le takeWhile_dropWhile_id take_all)
  then have "bit w (?xs ! leading_zeros w)"
    unfolding leading_zeros_def using nth_length_takeWhile by blast
  with less show ?thesis by (simp add: bits_len_def rev_nth)
qed

lemma take_bit_bits_len: "take_bit (bits_len w) w = w" for w :: "'a::len word"
  by (rule bit_word_eqI) (use not_bit_from_bits_len [of w] in \<open>auto simp: bit_simps not_le [symmetric]\<close>)

lemma bits_len_le: "bits_len (w :: 'a::len word) \<le> LENGTH('a)"
  by (simp add: bits_len_def)

lemma unat_less_exp_bits_len: "unat w < 2 ^ bits_len w" for w :: "'a::len word"
proof -
  have "unat w = take_bit (bits_len w) (unat w)"
    by (metis take_bit_bits_len unsigned_take_bit_eq)
  also have "\<dots> < 2 ^ bits_len w" by (rule take_bit_nat_less_exp)
  finally show ?thesis .
qed

lemma exp_pred_bits_len_le_unat: "w \<noteq> 0 \<Longrightarrow> 2 ^ (bits_len w - 1) \<le> unat w" for w :: "'a::len word"
proof (rule ccontr)
  assume nz: "w \<noteq> 0" and "\<not> 2 ^ (bits_len w - 1) \<le> unat w"
  then have "\<not> bit (unat w) (bits_len w - 1)" by (simp add: bit_iff_odd)
  with bit_pred_bits_len [OF nz] show False
    by (simp add: bit_unsigned_iff)
qed

lemma bits_len_0 [simp]: "bits_len (0 :: 'a::len word) = 0"
proof -
  have "takeWhile (\<lambda>i. \<not> bit (0 :: 'a word) i) (rev [0..<LENGTH('a)]) = rev [0..<LENGTH('a)]"
    by (simp add: takeWhile_eq_all_conv)
  then show ?thesis by (simp only: bits_len_def leading_zeros_def) simp
qed

lemma bits_len_le_iff: "bits_len w \<le> n \<longleftrightarrow> unat w < 2 ^ n" for w :: "'a::len word"
proof
  assume "bits_len w \<le> n"
  then have "(2::nat) ^ bits_len w \<le> 2 ^ n" by (rule power_increasing) simp
  with unat_less_exp_bits_len [of w] show "unat w < 2 ^ n" by linarith
next
  assume less: "unat w < 2 ^ n"
  show "bits_len w \<le> n"
  proof (rule ccontr)
    assume "\<not> bits_len w \<le> n"
    then have n: "n \<le> bits_len w - 1" and "w \<noteq> 0"
      by (auto simp: bits_len_0)
    then have "(2::nat) ^ n \<le> 2 ^ (bits_len w - 1)" by (intro power_increasing) simp_all
    with exp_pred_bits_len_le_unat [OF \<open>w \<noteq> 0\<close>] less show False by linarith
  qed
qed

section \<open>Population counts\<close>

text \<open>The number of set bits among the \<open>n\<close> bits from bit \<open>off\<close>.\<close>

definition popcount :: "byte list \<Rightarrow> nat \<Rightarrow> nat \<Rightarrow> nat" where
  "popcount bs off n = length (filter (\<lambda>i. bm_bit bs (off + i)) [0..<n])"

lemma popcount_0 [simp]: "popcount bs off 0 = 0"
  by (simp add: popcount_def)

lemma popcount_Suc: "popcount bs off (Suc n) = popcount bs off n + of_bool (bm_bit bs (off + n))"
  by (simp add: popcount_def)

lemma popcount_add: "popcount bs off (m + n) = popcount bs off m + popcount bs (off + m) n"
  by (induction n) (simp_all add: popcount_Suc ac_simps)

lemma popcount_Suc_left:
  "popcount bs off (Suc n) = of_bool (bm_bit bs off) + popcount bs (Suc off) n"
  using popcount_add [of bs off 1 n] by (simp add: popcount_def)

lemma popcount_le: "popcount bs off n \<le> n"
  by (induction n) (simp_all add: popcount_Suc)

lemma popcount_cong:
  "(\<And>i. i < n \<Longrightarrow> bm_bit bs (off + i) = bm_bit cs (off' + i)) \<Longrightarrow> popcount bs off n = popcount cs off' n"
  by (induction n) (simp_all add: popcount_Suc)

lemma popcount_drop: "popcount (drop k bs) off n = popcount bs (8 * k + off) n"
  by (rule popcount_cong) (simp add: bm_simps ac_simps)

lemma popcount_take: "off + n \<le> 8 * k \<Longrightarrow> popcount (take k bs) off n = popcount bs off n"
  by (rule popcount_cong) (simp add: bm_simps)

lemma popcount_eq_n_iff: "popcount bs off n = n \<longleftrightarrow> (\<forall>i<n. bm_bit bs (off + i))"
proof (induction n)
  case (Suc n)
  then show ?case using popcount_le [of bs off n] by (auto simp: popcount_Suc less_Suc_eq)
qed simp

lemma popcount_eq_0_iff: "popcount bs off n = 0 \<longleftrightarrow> (\<forall>i<n. \<not> bm_bit bs (off + i))"
  by (induction n) (auto simp: popcount_Suc less_Suc_eq)

lemma ones_count_popcount:
  fixes w :: "'a::len word"
  assumes "\<And>i. i < LENGTH('a) \<Longrightarrow> bit w i = bm_bit bs (off + i)"
  shows "ones_count w = popcount bs off LENGTH('a)"
proof -
  have "filter (bit w) [0..<LENGTH('a)] = filter (\<lambda>i. bm_bit bs (off + i)) [0..<LENGTH('a)]"
    using assms by (intro filter_cong) auto
  then show ?thesis by (simp add: ones_count_def popcount_def)
qed

end
