(* ===== verification/Bitutil.thy ===== *)
theory Bitutil
  imports Prelude
begin

unbundle bit_operations_syntax

text \<open>
  \<^verbatim>\<open>arrow/bitutil/bitutil.go\<close>: single-bit access to a bitmap, the rounding helpers,
  \<^verbatim>\<open>CountSetBits\<close> with its word-wise fast path, and \<^verbatim>\<open>SetBitsTo\<close>. The
  lemmas state each operation as its effect on the bit sequence \<open>bm_bit\<close> of the buffer.
\<close>

section \<open>Definitions\<close>

definition BitMask :: "byte list" where
  "BitMask = [1, 2, 4, 8, 16, 32, 64, 128]"

definition FlippedBitMask :: "byte list" where
  "FlippedBitMask = [254, 253, 251, 247, 239, 223, 191, 127]"

definition PrecedingBitmask :: "byte list" where
  "PrecedingBitmask = [0, 1, 3, 7, 15, 31, 63, 127]"

definition TrailingBitmask :: "byte list" where
  "TrailingBitmask = [255, 254, 252, 248, 240, 224, 192, 128]"

definition uint64SizeBytes :: nat where
  "uint64SizeBytes = 8"

definition uint64SizeBits :: nat where
  "uint64SizeBits = uint64SizeBytes * 8"

definition IsMultipleOf8 :: "u64 \<Rightarrow> bool" where
  "IsMultipleOf8 v \<longleftrightarrow> v AND 7 = 0"

definition IsMultipleOf64 :: "u64 \<Rightarrow> bool" where
  "IsMultipleOf64 v \<longleftrightarrow> v AND 63 = 0"

definition BytesForBits :: "nat \<Rightarrow> nat" where
  "BytesForBits bits = drop_bit 3 (bits + 7)"

definition NextPowerOf2 :: "u64 \<Rightarrow> u64" where
  "NextPowerOf2 x = push_bit (bits_len x) 1"

definition CeilByte :: "u64 \<Rightarrow> u64" where
  "CeilByte sz = (sz + 7) AND NOT 7"

text \<open>\<^verbatim>\<open>BitMask[byte(i)%8]\<close>: the conversion to \<^verbatim>\<open>byte\<close> keeps \<open>i mod 256\<close>.\<close>

definition BitIsSet :: "byte list \<Rightarrow> nat \<Rightarrow> bool option" where
  "BitIsSet buf i =
     do { b \<leftarrow> idx buf (i div 8); m \<leftarrow> idx BitMask (i mod 256 mod 8); Some (b AND m \<noteq> 0) }"

definition BitIsNotSet :: "byte list \<Rightarrow> nat \<Rightarrow> bool option" where
  "BitIsNotSet buf i =
     do { b \<leftarrow> idx buf (i div 8); m \<leftarrow> idx BitMask (i mod 256 mod 8); Some (b AND m = 0) }"

definition SetBit :: "byte list \<Rightarrow> nat \<Rightarrow> byte list option" where
  "SetBit buf i =
     do { b \<leftarrow> idx buf (i div 8); m \<leftarrow> idx BitMask (i mod 256 mod 8); upd buf (i div 8) (b OR m) }"

definition ClearBit :: "byte list \<Rightarrow> nat \<Rightarrow> byte list option" where
  "ClearBit buf i =
     do { b \<leftarrow> idx buf (i div 8); m \<leftarrow> idx FlippedBitMask (i mod 256 mod 8);
          upd buf (i div 8) (b AND m) }"

definition SetBitSwap :: "byte list \<Rightarrow> nat \<Rightarrow> (byte list \<times> bool) option" where
  "SetBitSwap buf i =
     do { p \<leftarrow> idx buf (i div 8); mask \<leftarrow> idx BitMask (i mod 256 mod 8);
          buf' \<leftarrow> upd buf (i div 8) (p OR mask); Some (buf', p AND mask \<noteq> 0) }"

definition ClearBitSwap :: "byte list \<Rightarrow> nat \<Rightarrow> (byte list \<times> bool) option" where
  "ClearBitSwap buf i =
     do { p \<leftarrow> idx buf (i div 8); mask \<leftarrow> idx BitMask (i mod 256 mod 8);
          buf' \<leftarrow> upd buf (i div 8) (p AND NOT mask); Some (buf', p AND mask \<noteq> 0) }"

definition SetBitTo :: "byte list \<Rightarrow> nat \<Rightarrow> bool \<Rightarrow> byte list option" where
  "SetBitTo buf i val = (if val then SetBit buf i else ClearBit buf i)"

definition roundUp :: "nat \<Rightarrow> nat \<Rightarrow> nat" where
  "roundUp v f = (v + (f - 1)) div f * f"

text \<open>\<^verbatim>\<open>bytesToUint64\<close> reinterprets the whole words of a slice; the little-endian build.\<close>

function bytesToUint64 :: "byte list \<Rightarrow> u64 list" where
  "bytesToUint64 b =
     (if length b < uint64SizeBytes then []
      else word_of_bytes (take 8 b) # bytesToUint64 (drop 8 b))"
  by pat_completeness auto
termination
  by (relation "measure length") (auto simp: uint64SizeBytes_def)

declare bytesToUint64.simps [simp del]

text \<open>The loop over the tail bits of \<^verbatim>\<open>CountSetBits\<close> and the head bits of
  \<^verbatim>\<open>countSetBitsWithOffset\<close>: \<open>k\<close> iterations from bit \<open>i\<close>.\<close>

fun count_bits_loop :: "byte list \<Rightarrow> nat \<Rightarrow> nat \<Rightarrow> nat \<Rightarrow> nat option" where
  "count_bits_loop buf i 0 count = Some count"
| "count_bits_loop buf i (Suc k) count =
     do { s \<leftarrow> BitIsSet buf i;
          count_bits_loop buf (Suc i) k (if s then count + 1 else count) }"

definition CountSetBits0 :: "byte list \<Rightarrow> nat \<Rightarrow> nat option" where
  "CountSetBits0 buf n =
     (let uint64Bytes = n div uint64SizeBits * 8
      in do { ws \<leftarrow> slice buf 0 uint64Bytes;
              bs \<leftarrow> slice buf uint64Bytes (n div 8);
              let count = sum_list (map ones_count (bytesToUint64 ws))
                          + sum_list (map ones_count bs);
              count_bits_loop buf (n - n mod 8) (n mod 8) count })"

definition countSetBitsWithOffset :: "byte list \<Rightarrow> nat \<Rightarrow> nat \<Rightarrow> nat option" where
  "countSetBitsWithOffset buf offset n =
     (let beg = offset; begU8 = roundUp beg uint64SizeBits; init = min n (begU8 - beg)
      in do { count \<leftarrow> count_bits_loop buf offset init 0;
              let begU64 = BytesForBits (beg + init);
              buf' \<leftarrow> slice_from buf begU64;
              rest \<leftarrow> CountSetBits0 buf' (n - init);
              Some (count + rest) })"

definition CountSetBits :: "byte list \<Rightarrow> nat \<Rightarrow> nat \<Rightarrow> nat option" where
  "CountSetBits buf offset n =
     (if offset > 0 then countSetBitsWithOffset buf offset n else CountSetBits0 buf n)"

text \<open>\<^verbatim>\<open>x &= m; x |= fill &^ m\<close>: keep the bits of \<open>m\<close>, take the others from \<open>fill\<close>.\<close>

definition merge_byte :: "byte \<Rightarrow> byte \<Rightarrow> byte \<Rightarrow> byte" where
  "merge_byte old fill m = (old AND m) OR (fill AND NOT m)"

definition SetBitsTo :: "byte list \<Rightarrow> nat \<Rightarrow> nat \<Rightarrow> bool \<Rightarrow> byte list option" where
  "SetBitsTo bits startOffset len areSet =
     (if len = 0 then Some bits
      else
        let beg = startOffset; end = startOffset + len;
            fill = (if areSet then 255 else 0);
            byteBeg = beg div 8; byteEnd = end div 8 + 1
        in do {
          firstByteMask \<leftarrow> idx PrecedingBitmask (beg mod 8);
          lastByteMask \<leftarrow> idx TrailingBitmask (end mod 8);
          if byteEnd = byteBeg + 1 then do {
            let onlyByteMask =
              (if end mod 8 \<noteq> 0 then firstByteMask OR lastByteMask else firstByteMask);
            b \<leftarrow> idx bits byteBeg;
            upd bits byteBeg (merge_byte b fill onlyByteMask) }
          else do {
            b \<leftarrow> idx bits byteBeg;
            bits1 \<leftarrow> upd bits byteBeg (merge_byte b fill firstByteMask);
            bits2 \<leftarrow>
              (if byteEnd - byteBeg > 2
               then do { mid \<leftarrow> slice bits1 (byteBeg + 1) (byteEnd - 1);
                         Some (blit bits1 (byteBeg + 1) (replicate (length mid) fill)) }
               else Some bits1);
            if end mod 8 = 0 then Some bits2
            else do {
              c \<leftarrow> idx bits2 (byteEnd - 1);
              upd bits2 (byteEnd - 1) (merge_byte c fill lastByteMask) } } })"

section \<open>The mask tables\<close>

lemma less_8_cases:
  "k < (8::nat) \<longleftrightarrow> k = 0 \<or> k = 1 \<or> k = 2 \<or> k = 3 \<or> k = 4 \<or> k = 5 \<or> k = 6 \<or> k = 7"
  by linarith

lemma BitMask_nth: "k < 8 \<Longrightarrow> BitMask ! k = 2 ^ k"
  by (auto simp: less_8_cases BitMask_def)

lemma FlippedBitMask_nth: "k < 8 \<Longrightarrow> FlippedBitMask ! k = NOT (2 ^ k)"
  by (auto simp: less_8_cases FlippedBitMask_def)

lemma PrecedingBitmask_nth: "k < 8 \<Longrightarrow> PrecedingBitmask ! k = mask k"
  by (auto simp: less_8_cases PrecedingBitmask_def mask_eq_exp_minus_1)

lemma TrailingBitmask_nth: "k < 8 \<Longrightarrow> TrailingBitmask ! k = NOT (mask k)"
  by (auto simp: less_8_cases TrailingBitmask_def mask_eq_exp_minus_1)

lemma length_masks [simp]:
  "length BitMask = 8" "length FlippedBitMask = 8"
  "length PrecedingBitmask = 8" "length TrailingBitmask = 8"
  by (simp_all add: BitMask_def FlippedBitMask_def PrecedingBitmask_def TrailingBitmask_def)

lemmas mask_nth = BitMask_nth FlippedBitMask_nth PrecedingBitmask_nth TrailingBitmask_nth

lemma mod_256_8 [simp]: "i mod 256 mod 8 = i mod (8::nat)"
  by (simp add: mod_mod_cancel)

lemma and_exp_eq_0:
  "k < LENGTH('a::len) \<Longrightarrow> (b AND 2 ^ k = (0::'a word)) \<longleftrightarrow> \<not> bit b k"
  by (auto simp: word_eq_bits_iff bit_simps)

section \<open>Rounding\<close>

lemma BytesForBits_eq: "BytesForBits n = (n + 7) div 8"
  by (simp add: BytesForBits_def drop_bit_eq_div)

lemma BytesForBits_le_iff: "BytesForBits n \<le> m \<longleftrightarrow> n \<le> 8 * m"
  unfolding BytesForBits_eq by linarith

lemma BytesForBits_mult8 [simp]: "BytesForBits (8 * n) = n"
  unfolding BytesForBits_eq by linarith

lemma CeilByte_eq:
  assumes "unat n + 7 < 2 ^ 64"
  shows "unat (CeilByte n) = (unat n + 7) div 8 * 8"
proof -
  have n: "unat (n + 7) = unat n + 7" using assms by (subst unat_plus_simple [THEN iffD1]) (simp_all add: word_le_nat_alt unat_word_ariths)
  have "(n + 7) AND NOT (mask 3) = push_bit 3 (drop_bit 3 (n + 7))" by (rule bit_word_eqI) (auto simp: bit_simps)
  then have eq: "CeilByte n = push_bit 3 (drop_bit 3 (n + 7))" by (simp add: CeilByte_def mask_eq_exp_minus_1)
  have t: "take_bit 64 (unat n + 7) = unat n + 7" by (rule take_bit_nat_eq_self [OF assms])
  have "unat (CeilByte n) = take_bit 64 ((unat n + 7) div 8 * 8)"
    unfolding eq by (simp only: unsigned_push_bit_eq unsigned_drop_bit_eq n) (simp add: push_bit_eq_mult drop_bit_eq_div t)
  moreover have "(unat n + 7) div 8 * 8 < 2 ^ 64" using assms by (rule le_less_trans [rotated]) simp
  ultimately show ?thesis by (simp add: take_bit_nat_eq_self)
qed

lemma IsMultipleOf8_iff: "IsMultipleOf8 v \<longleftrightarrow> 8 dvd unat v"
proof -
  have "v AND mask 3 = take_bit 3 v" by (simp add: take_bit_eq_mask)
  then have "IsMultipleOf8 v \<longleftrightarrow> unat (take_bit 3 v) = 0" by (simp add: IsMultipleOf8_def mask_eq_exp_minus_1 unat_eq_0)
  then show ?thesis by (simp add: take_bit_eq_mod unat_mod_distrib dvd_eq_mod_eq_0)
qed

lemma IsMultipleOf64_iff: "IsMultipleOf64 v \<longleftrightarrow> 64 dvd unat v"
proof -
  have "v AND mask 6 = take_bit 6 v" by (simp add: take_bit_eq_mask)
  then have "IsMultipleOf64 v \<longleftrightarrow> unat (take_bit 6 v) = 0" by (simp add: IsMultipleOf64_def mask_eq_exp_minus_1 unat_eq_0)
  then show ?thesis by (simp add: take_bit_eq_mod unat_mod_distrib dvd_eq_mod_eq_0)
qed

section \<open>Single bits\<close>

lemma BitIsSet_eq: "i < 8 * length buf \<Longrightarrow> BitIsSet buf i = Some (bm_bit buf i)"
  by (simp add: BitIsSet_def mask_nth and_exp_eq_0 bm_bit_def less_mult_imp_div_less ac_simps)

lemma BitIsNotSet_eq: "i < 8 * length buf \<Longrightarrow> BitIsNotSet buf i = Some (\<not> bm_bit buf i)"
  by (simp add: BitIsNotSet_def mask_nth and_exp_eq_0 bm_bit_def less_mult_imp_div_less ac_simps)

lemma bm_bit_set_byte:
  assumes "i < 8 * length buf"
    and "\<And>k. k < 8 \<Longrightarrow> bit b k = (if k = i mod 8 then v else bit (buf ! (i div 8)) k)"
  shows "bm_bit (buf[i div 8 := b]) j = (if j = i then v else bm_bit buf j)"
proof (cases "j div 8 = i div 8")
  case True
  moreover have "j = i \<longleftrightarrow> j mod 8 = i mod 8"
    using True by (metis div_mod_decomp)
  moreover have "i div 8 < length buf" using assms(1) by linarith
  ultimately show ?thesis using assms(2) [of "j mod 8"] by (simp add: bm_bit_def)
next
  case False
  then show ?thesis by (auto simp: bm_simps)
qed

lemma SetBitTo_eq:
  assumes "i < 8 * length buf"
  shows "\<exists>buf'. SetBitTo buf i v = Some buf' \<and> length buf' = length buf \<and>
    (\<forall>j. bm_bit buf' j = (if j = i then v else bm_bit buf j))"
proof -
  have "i div 8 < length buf" using assms by linarith
  then show ?thesis
    by (cases v) (auto simp: SetBitTo_def SetBit_def ClearBit_def mask_nth
        bm_bit_set_byte [OF assms, where v = v] bit_simps)
qed

lemma SetBitSwap_eq:
  assumes "i < 8 * length buf"
  shows "SetBitSwap buf i = map_option (\<lambda>buf'. (buf', bm_bit buf i)) (SetBitTo buf i True)"
  using assms less_mult_imp_div_less [of i "length buf" 8]
  by (simp add: SetBitSwap_def SetBitTo_def SetBit_def mask_nth and_exp_eq_0 bm_bit_def ac_simps)

lemma ClearBitSwap_eq:
  assumes "i < 8 * length buf"
  shows "ClearBitSwap buf i = map_option (\<lambda>buf'. (buf', bm_bit buf i)) (SetBitTo buf i False)"
  using assms less_mult_imp_div_less [of i "length buf" 8]
  by (simp add: ClearBitSwap_def SetBitTo_def ClearBit_def mask_nth and_exp_eq_0 bm_bit_def ac_simps)

section \<open>Counting\<close>

lemma sum_ones_count_bytes:
  "sum_list (map ones_count bs) = popcount bs 0 (8 * length bs)"
proof (induction bs)
  case (Cons b bs)
  have "ones_count b = popcount (b # bs) 0 8"
    using ones_count_popcount [of b "b # bs" 0] by (simp add: bm_bit_Cons)
  moreover have "popcount bs 0 (8 * length bs) = popcount (b # bs) 8 (8 * length bs)"
    using popcount_drop [of 1 "b # bs" 0] by simp
  ultimately show ?case
    using Cons popcount_add [of "b # bs" 0 8 "8 * length bs"] by simp
qed simp

lemma sum_ones_count_words:
  "sum_list (map ones_count (bytesToUint64 b)) = popcount b 0 (64 * (length b div 8))"
proof (induction b rule: bytesToUint64.induct)
  case (1 b)
  show ?case
  proof (cases "length b < 8")
    case True
    then show ?thesis by (simp add: bytesToUint64.simps [of b] uint64SizeBytes_def)
  next
    case False
    then have len: "length b div 8 = Suc (length (drop 8 b) div 8)" by simp
    have "ones_count (word_of_bytes (take 8 b) :: u64) = popcount b 0 64"
      using ones_count_popcount [of "word_of_bytes (take 8 b) :: u64" b 0]
      by (simp add: bit_le_uint64)
    moreover have "popcount b 64 n = popcount (drop 8 b) 0 n" for n
      by (simp add: popcount_drop)
    ultimately show ?thesis
      using False "1" popcount_add [of b 0 64 "64 * (length (drop 8 b) div 8)"]
      by (simp add: bytesToUint64.simps [of b] uint64SizeBytes_def len del: length_drop)
  qed
qed

lemma count_bits_loop_eq:
  "i + k \<le> 8 * length buf \<Longrightarrow> count_bits_loop buf i k c = Some (c + popcount buf i k)"
  by (induction buf i k c rule: count_bits_loop.induct)
    (simp_all add: BitIsSet_eq popcount_Suc_left)

lemma CountSetBits0_eq:
  assumes "n \<le> 8 * length buf"
  shows "CountSetBits0 buf n = Some (popcount buf 0 n)"
proof -
  define w where "w = n div 64 * 8"
  have w: "w \<le> n div 8" "n div 8 \<le> length buf" using assms by (auto simp: w_def)
  have n: "n = 8 * w + 8 * (n div 8 - w) + n mod 8"
    using w(1) mult_div_mod_eq [of 8 n] by arith
  have whole: "sum_list (map ones_count (bytesToUint64 (take w buf))) = popcount buf 0 (8 * w)"
    using w by (simp add: sum_ones_count_words popcount_take min_absorb2 w_def)
  have bytes: "sum_list (map ones_count (take (n div 8 - w) (drop w buf)))
      = popcount buf (8 * w) (8 * (n div 8 - w))"
    using w by (simp add: sum_ones_count_bytes popcount_take popcount_drop min_absorb2)
  have "popcount buf 0 n = popcount buf 0 (8 * w) + popcount buf (8 * w) (8 * (n div 8 - w))
      + popcount buf (8 * w + 8 * (n div 8 - w)) (n mod 8)"
    using n popcount_add [of buf 0 "8 * w + 8 * (n div 8 - w)" "n mod 8"]
      popcount_add [of buf 0 "8 * w" "8 * (n div 8 - w)"]
    by simp
  moreover have "8 * w + 8 * (n div 8 - w) = n - n mod 8" using n by linarith
  ultimately show ?thesis
    using w assms whole bytes
    by (simp add: CountSetBits0_def uint64SizeBits_def uint64SizeBytes_def
        count_bits_loop_eq flip: w_def)
qed

lemma CountSetBits_eq:
  assumes "offset + n \<le> 8 * length buf"
  shows "CountSetBits buf offset n = Some (popcount buf offset n)"
proof (cases "offset = 0")
  case True
  with assms show ?thesis by (simp add: CountSetBits_def CountSetBits0_eq)
next
  case False
  define init where "init = min n (roundUp offset 64 - offset)"
  have init: "init \<le> n" by (simp add: init_def)
  define k where "k = BytesForBits (offset + init)"
  have k: "k \<le> length buf" using assms init by (simp add: k_def BytesForBits_le_iff)
  have rest: "init = n \<or> 8 * k = offset + init"
  proof (cases "init = n")
    case False
    then have "offset + init = roundUp offset 64" by (simp add: init_def roundUp_def)
    then have "offset + init = 8 * (8 * ((offset + 63) div 64))" by (simp add: roundUp_def)
    then show ?thesis unfolding k_def by (metis BytesForBits_mult8)
  qed simp
  then have fits: "n - init \<le> 8 * length (drop k buf)" using assms by auto
  have "popcount buf offset n = popcount buf offset init + popcount buf (offset + init) (n - init)"
    using init popcount_add [of buf offset init "n - init"] by simp
  also have "popcount buf (offset + init) (n - init) = popcount (drop k buf) 0 (n - init)"
    using rest by (auto simp: popcount_drop)
  finally show ?thesis
    using False assms init k fits
    by (simp add: CountSetBits_def countSetBitsWithOffset_def uint64SizeBits_def
        uint64SizeBytes_def count_bits_loop_eq CountSetBits0_eq flip: init_def k_def)
qed

section \<open>Filling a range\<close>

lemma bit_merge_byte: "bit (merge_byte old fill m) k = (if bit m k then bit old k else bit fill k)"
  by (auto simp: merge_byte_def bit_simps dest: bit_imp_le_length)

lemma bit_255 [simp]: "bit (255 :: int) k \<longleftrightarrow> k < 8"
proof -
  have "(255 :: int) = mask 8" by (simp add: mask_eq_exp_minus_1)
  then show ?thesis by (simp only: bit_mask_iff) simp
qed

lemma bit_128 [simp]: "bit (128 :: int) k \<longleftrightarrow> k = 7"
proof -
  have "(128 :: int) = 2 ^ 7" by simp
  then show ?thesis by (simp only: bit_exp_iff) auto
qed

lemma bm_bit_merge_byte:
  "k < length bits \<Longrightarrow>
   bm_bit (bits[k := merge_byte (bits ! k) fill m]) i =
     (if i div 8 = k \<and> \<not> bit m (i mod 8) then bit fill (i mod 8) else bm_bit bits i)"
  by (auto simp: bm_bit_update bit_merge_byte) (auto simp: bm_bit_def)

lemma block_range_iff:
  fixes p q a b r :: nat
  assumes "r < 8" "b \<le> 8"
  shows "q = p \<and> a \<le> r \<and> r < b \<longleftrightarrow> 8 * p + a \<le> 8 * q + r \<and> 8 * q + r < 8 * p + b"
proof
  assume "8 * p + a \<le> 8 * q + r \<and> 8 * q + r < 8 * p + b"
  moreover from this assms have "q \<le> p" "p \<le> q" by linarith+
  ultimately show "q = p \<and> a \<le> r \<and> r < b" by auto
qed auto

lemma byte_range_iff:
  fixes i s e :: nat
  assumes "e div 8 = s div 8"
  shows "i div 8 = s div 8 \<and> s mod 8 \<le> i mod 8 \<and> i mod 8 < e mod 8 \<longleftrightarrow> s \<le> i \<and> i < e"
proof -
  have "8 * (s div 8) + e mod 8 = e" unfolding assms [symmetric] by simp
  then show ?thesis
    using block_range_iff [of "i mod 8" "e mod 8" "i div 8" "s div 8" "s mod 8"] by simp
qed

lemma block_range3_iff:
  fixes i s e :: nat
  assumes "s div 8 < e div 8"
  shows "s \<le> i \<and> i < e \<longleftrightarrow> (i div 8 = s div 8 \<and> s mod 8 \<le> i mod 8) \<or>
    (s div 8 < i div 8 \<and> i div 8 < e div 8) \<or> (i div 8 = e div 8 \<and> i mod 8 < e mod 8)"
proof -
  have lex: "8 * p + a \<le> 8 * q + b \<longleftrightarrow> p < q \<or> p = q \<and> a \<le> b" if "a < 8" "b < 8" for p q a b :: nat
    using that by (cases p q rule: linorder_cases) auto
  have order: "x \<le> y \<longleftrightarrow> x div 8 < y div 8 \<or> x div 8 = y div 8 \<and> x mod 8 \<le> y mod 8" for x y :: nat
    using lex [of "x mod 8" "y mod 8" "x div 8" "y div 8"] by simp
  have abstract: "p < r \<Longrightarrow> sl = (p < q \<or> p = q \<and> a \<le> b) \<Longrightarrow> (\<not> lt) = (r < q \<or> r = q \<and> c \<le> b) \<Longrightarrow>
    sl \<and> lt \<longleftrightarrow> (q = p \<and> a \<le> b) \<or> (p < q \<and> q < r) \<or> (q = r \<and> b < c)"
    for p q r a b c :: nat and sl lt by auto
  show ?thesis
    by (rule abstract [OF assms order]) (simp only: not_less order [of e i])
qed

lemma SetBitsTo_single_byte:
  assumes "0 < len" "e = start + len" "e div 8 = start div 8" "e \<le> 8 * length bits"
  shows "\<exists>bits'. SetBitsTo bits start len areSet = Some bits' \<and> length bits' = length bits \<and>
    (\<forall>i. bm_bit bits' i = (if start \<le> i \<and> i < e then areSet else bm_bit bits i))"
proof -
  let ?k = "start div 8" and ?fill = "if areSet then 255 else 0 :: byte"
  let ?m = "mask (start mod 8) OR NOT (mask (e mod 8)) :: byte"
  let ?b = "bits[?k := merge_byte (bits ! ?k) ?fill ?m]"
  have k: "?k < length bits" using assms by linarith
  have e: "e mod 8 \<noteq> 0"
  proof
    assume "e mod 8 = 0"
    then have "e = 8 * ?k" using assms(3) by (metis add.right_neutral mult_div_mod_eq)
    also have "\<dots> \<le> start" by simp
    finally show False using assms(1,2) by simp
  qed
  have "SetBitsTo bits start len areSet = Some ?b"
    using assms(1,2,3) e k by (simp add: SetBitsTo_def mask_nth Let_def)
  moreover have "bm_bit ?b i = (if start \<le> i \<and> i < e then areSet else bm_bit bits i)" for i
  proof -
    have "i div 8 = ?k \<and> \<not> bit ?m (i mod 8) \<longleftrightarrow> start \<le> i \<and> i < e"
      unfolding byte_range_iff [OF assms(3), symmetric] by (auto simp: bit_simps)
    moreover have "bit ?fill (i mod 8) = areSet" by simp
    ultimately show ?thesis using k by (simp only: bm_bit_merge_byte)
  qed
  ultimately show ?thesis by auto
qed

lemma SetBitsTo_many_bytes:
  assumes "e = start + len" "start div 8 < e div 8" "e \<le> 8 * length bits"
  shows "\<exists>bits'. SetBitsTo bits start len areSet = Some bits' \<and> length bits' = length bits \<and>
    (\<forall>i. bm_bit bits' i = (if start \<le> i \<and> i < e then areSet else bm_bit bits i))"
proof -
  let ?k = "start div 8" and ?l = "e div 8"
  define fill where "fill = (if areSet then 255 else 0 :: byte)"
  define b1 where "b1 = bits[?k := merge_byte (bits ! ?k) fill (mask (start mod 8))]"
  define b2 where "b2 = blit b1 (?k + 1) (replicate (?l - (?k + 1)) fill)"
  define b3 where "b3 = (if e mod 8 = 0 then b2
    else b2[?l := merge_byte (b2 ! ?l) fill (NOT (mask (e mod 8)))])"
  have "8 * ?l + e mod 8 = e" by simp
  then have k: "?k < length bits" "?l \<le> length bits" "e mod 8 \<noteq> 0 \<Longrightarrow> ?l < length bits"
    using assms(2,3) by linarith+
  have len: "length b1 = length bits" "length b2 = length bits"
    using assms(2) k by (simp_all add: b1_def b2_def)
  have fill: "bit fill (i mod 8) = areSet" for i by (simp add: fill_def)
  have "SetBitsTo bits start len areSet = Some b3"
  proof -
    have mid: "(if ?l + 1 - ?k > 2
        then slice b1 (?k + 1) ?l \<bind> (\<lambda>mid. Some (blit b1 (?k + 1) (replicate (length mid) fill)))
        else Some b1) = Some b2"
      using assms(2) k len by (auto simp: b2_def min_absorb2 diff_le_mono)
    have last: "(if e mod 8 = 0 then Some b2
        else idx b2 ?l \<bind> (\<lambda>c. upd b2 ?l (merge_byte c fill (NOT (mask (e mod 8)))))) = Some b3"
      using k len by (simp add: b3_def)
    have "len \<noteq> 0" "?l + 1 \<noteq> ?k + 1" using assms by auto
    then show ?thesis
      unfolding SetBitsTo_def Let_def assms(1) [symmetric] fill_def [symmetric]
      using k by (simp only: mid last mask_nth idx_Some upd_Some length_masks mod_less_divisor
          bind.bind_lunit if_False add_diff_cancel_right' zero_less_numeral flip: b1_def)
  qed
  moreover have "length b3 = length bits" by (simp add: b3_def len)
  moreover have "bm_bit b3 i = (if start \<le> i \<and> i < e then areSet else bm_bit bits i)" for i
  proof -
    have 1: "bm_bit b1 i = (if i div 8 = ?k \<and> start mod 8 \<le> i mod 8 then areSet else bm_bit bits i)"
      using k fill by (simp only: b1_def bm_bit_merge_byte) (auto simp: bit_simps)
    have 2: "bm_bit b2 i = (if ?k < i div 8 \<and> i div 8 < ?l then areSet else bm_bit b1 i)"
    proof -
      have "b2 ! q = (if ?k < q \<and> q < ?l then fill else b1 ! q)" if "q < length bits" for q
        using that assms(2) k(2) len by (auto simp: b2_def nth_blit Suc_le_eq)
      then show ?thesis using k(2) len fill by (auto simp: bm_bit_def)
    qed
    have 3: "bm_bit b3 i = (if i div 8 = ?l \<and> i mod 8 < e mod 8 then areSet else bm_bit b2 i)"
    proof (cases "e mod 8 = 0")
      case False
      then show ?thesis
        using k(3) len(2) fill by (auto simp: b3_def bm_bit_merge_byte bit_not_iff bit_mask_iff)
    qed (simp add: b3_def)
    have chain: "(if c then x else if b then x else if a then x else y) = (if a \<or> b \<or> c then x else y)"
      for a b c x y :: bool by simp
    show ?thesis unfolding block_range3_iff [OF assms(2), of i] 3 2 1 chain by (rule refl)
  qed
  ultimately show ?thesis by blast
qed

lemma SetBitsTo_eq:
  assumes "start + len \<le> 8 * length bits"
  shows "\<exists>bits'. SetBitsTo bits start len areSet = Some bits' \<and> length bits' = length bits \<and>
    (\<forall>i. bm_bit bits' i = (if start \<le> i \<and> i < start + len then areSet else bm_bit bits i))"
proof -
  consider "len = 0" | "0 < len" "(start + len) div 8 = start div 8"
    | "start div 8 < (start + len) div 8"
    by (metis div_le_mono le_add1 le_neq_implies_less neq0_conv)
  then show ?thesis
  proof cases
    case 1
    then show ?thesis by (auto simp: SetBitsTo_def)
  next
    case 2
    then show ?thesis using SetBitsTo_single_byte [OF 2(1) refl 2(2) assms] by blast
  next
    case 3
    then show ?thesis using SetBitsTo_many_bytes [OF refl 3 assms] by blast
  qed
qed

section \<open>Properties\<close>

text \<open>C18: \<^verbatim>\<open>CountSetBits\<close> returns, for every offset and length inside the buffer, the number
  of one bits in the range: the leading single bits, the whole words, the whole bytes and the
  trailing bits it counts separately cover the range exactly once.\<close>

theorem CountSetBits_counts:
  assumes "offset + n \<le> 8 * length buf"
  shows "CountSetBits buf offset n =
    Some (length (filter (\<lambda>i. bm_bit buf (offset + i)) [0..<n]))"
  using CountSetBits_eq [OF assms] by (simp add: popcount_def)

theorem CountSetBits_counts_witness:
  "CountSetBits (replicate 10 255) 3 70 =
     Some (length (filter (\<lambda>i. bm_bit (replicate 10 255) (3 + i)) [0..<70]))"
  using CountSetBits_counts [of 3 70 "replicate 10 255"] by simp

text \<open>C19: \<^verbatim>\<open>SetBitsTo\<close> sets exactly the bits of the range to the value and leaves every other
  bit of the buffer as it was, whether the range lies in one byte or spans several.\<close>

theorem SetBitsTo_range:
  assumes "start + len \<le> 8 * length bits"
  shows "\<exists>bits'. SetBitsTo bits start len areSet = Some bits' \<and>
    bm_writes bits start len (\<lambda>_. areSet) bits'"
  using SetBitsTo_eq [OF assms, of areSet] by (simp add: bm_writes_def)

theorem SetBitsTo_range_witness:
  "\<exists>bits'. SetBitsTo [0, 0, 255] 5 13 True = Some bits' \<and> bm_writes [0, 0, 255] 5 13 (\<lambda>_. True) bits'"
  using SetBitsTo_range [of 5 13 "[0, 0, 255]" True] by simp

end
