(* ===== verification/Bitmaps.thy ===== *)
theory Bitmaps
  imports Bitutil
begin

unbundle bit_operations_syntax

text \<open>
  \<^verbatim>\<open>arrow/bitutil/bitmaps.go\<close>, the sequential readers and writers: \<^verbatim>\<open>BitmapReader\<close>
  and \<^verbatim>\<open>BitmapWriter\<close> bit by bit, \<^verbatim>\<open>BitmapWordReader\<close> and
  \<^verbatim>\<open>BitmapWordWriter\<close> by 64-bit words with trailing bytes. A reader keeps the slice it
  reads (\<open>None\<close> for a nil slice where the code tests for nil). A writer that re-slices its buffer
  keeps the whole buffer and the start of the slice.
\<close>

section \<open>BitmapReader\<close>

record BitmapReader =
  br_bitmap :: "byte list option"
  br_pos :: nat
  br_len :: nat
  br_current :: byte
  br_byteOffset :: nat
  br_bitOffset :: nat

definition NewBitmapReader :: "byte list option \<Rightarrow> nat \<Rightarrow> nat \<Rightarrow> BitmapReader option" where
  "NewBitmapReader bitmap offset len =
     do { curbyte \<leftarrow> (case bitmap of
              Some bs \<Rightarrow> if len > 0 then idx bs (offset div 8) else Some 0
            | None \<Rightarrow> Some 0);
          Some \<lparr>br_bitmap = bitmap, br_pos = 0, br_len = len, br_current = curbyte,
                br_byteOffset = offset div 8, br_bitOffset = offset mod 8\<rparr> }"

definition BitmapReader_Set :: "BitmapReader \<Rightarrow> bool" where
  "BitmapReader_Set b \<longleftrightarrow> br_current b AND push_bit (br_bitOffset b) 1 \<noteq> 0"

definition BitmapReader_NotSet :: "BitmapReader \<Rightarrow> bool" where
  "BitmapReader_NotSet b \<longleftrightarrow> br_current b AND push_bit (br_bitOffset b) 1 = 0"

definition BitmapReader_Next :: "BitmapReader \<Rightarrow> BitmapReader option" where
  "BitmapReader_Next b =
     (let b = b\<lparr>br_bitOffset := br_bitOffset b + 1, br_pos := br_pos b + 1\<rparr>
      in if br_bitOffset b = 8 then
           let b = b\<lparr>br_bitOffset := 0, br_byteOffset := br_byteOffset b + 1\<rparr>
           in if br_pos b < br_len b
              then do { bs \<leftarrow> br_bitmap b; c \<leftarrow> idx bs (br_byteOffset b);
                        Some (b\<lparr>br_current := c\<rparr>) }
              else Some b
         else Some b)"

section \<open>BitmapWriter\<close>

record BitmapWriter =
  bw_buf :: "byte list"
  bw_pos :: nat
  bw_length :: nat
  bw_curByte :: byte
  bw_bitMask :: byte
  bw_byteOffset :: nat

definition NewBitmapWriter :: "byte list \<Rightarrow> nat \<Rightarrow> nat \<Rightarrow> BitmapWriter option" where
  "NewBitmapWriter bitmap start len =
     do { m \<leftarrow> idx BitMask (start mod 8);
          cur \<leftarrow> (if len > 0 then idx bitmap (start div 8) else Some 0);
          Some \<lparr>bw_buf = bitmap, bw_pos = 0, bw_length = len, bw_curByte = cur,
                bw_bitMask = m, bw_byteOffset = start div 8\<rparr> }"

definition BitmapWriter_Reset :: "BitmapWriter \<Rightarrow> nat \<Rightarrow> nat \<Rightarrow> BitmapWriter option" where
  "BitmapWriter_Reset b start len =
     do { m \<leftarrow> idx BitMask (start mod 8);
          let b = b\<lparr>bw_pos := 0, bw_byteOffset := start div 8, bw_bitMask := m, bw_length := len\<rparr>;
          if len > 0 then do { c \<leftarrow> idx (bw_buf b) (bw_byteOffset b); Some (b\<lparr>bw_curByte := c\<rparr>) }
          else Some b }"

definition BitmapWriter_Set :: "BitmapWriter \<Rightarrow> BitmapWriter" where
  "BitmapWriter_Set b = b\<lparr>bw_curByte := bw_curByte b OR bw_bitMask b\<rparr>"

definition BitmapWriter_Clear :: "BitmapWriter \<Rightarrow> BitmapWriter" where
  "BitmapWriter_Clear b = b\<lparr>bw_curByte := bw_curByte b AND NOT (bw_bitMask b)\<rparr>"

definition BitmapWriter_Next :: "BitmapWriter \<Rightarrow> BitmapWriter option" where
  "BitmapWriter_Next b =
     (let b = b\<lparr>bw_bitMask := push_bit 1 (bw_bitMask b), bw_pos := bw_pos b + 1\<rparr>
      in if bw_bitMask b = 0 then
           do { buf \<leftarrow> upd (bw_buf b) (bw_byteOffset b) (bw_curByte b);
                let b = b\<lparr>bw_bitMask := 1, bw_buf := buf, bw_byteOffset := bw_byteOffset b + 1\<rparr>;
                if bw_pos b < bw_length b
                then do { c \<leftarrow> idx (bw_buf b) (bw_byteOffset b); Some (b\<lparr>bw_curByte := c\<rparr>) }
                else Some b }
         else Some b)"

definition BitmapWriter_Finish :: "BitmapWriter \<Rightarrow> BitmapWriter option" where
  "BitmapWriter_Finish b =
     (if bw_length b > 0 \<and> (bw_bitMask b \<noteq> 1 \<or> bw_pos b < bw_length b)
      then do { buf \<leftarrow> upd (bw_buf b) (bw_byteOffset b) (bw_curByte b); Some (b\<lparr>bw_buf := buf\<rparr>) }
      else Some b)"

text \<open>The loop of \<^verbatim>\<open>AppendBools\<close> over \<^verbatim>\<open>in[:space]\<close>.\<close>

fun append_bools_loop :: "byte list \<Rightarrow> nat \<Rightarrow> bool list \<Rightarrow> byte list option" where
  "append_bools_loop app i [] = Some app"
| "append_bools_loop app i (v # vs) =
     do { app' \<leftarrow> (if v then SetBit app i else ClearBit app i); append_bools_loop app' (i + 1) vs }"

text \<open>\<^verbatim>\<open>appslice\<close> aliases the buffer, so the buffer takes its contents back.\<close>

definition BitmapWriter_AppendBools ::
  "BitmapWriter \<Rightarrow> bool list \<Rightarrow> (BitmapWriter \<times> nat) option" where
  "BitmapWriter_AppendBools b vs =
     (let space = min (bw_length b - bw_pos b) (length vs)
      in if space = 0 then Some (b, 0)
         else let bitOffset = trailing_zeros (ucast (bw_bitMask b) :: u32)
         in do {
           appslice \<leftarrow> slice (bw_buf b) (bw_byteOffset b)
                         (bw_byteOffset b + BytesForBits (bitOffset + space));
           appslice \<leftarrow> upd appslice 0 (bw_curByte b);
           appslice \<leftarrow> append_bools_loop appslice bitOffset (take space vs);
           m \<leftarrow> idx BitMask ((bitOffset + space) mod 8);
           c \<leftarrow> idx appslice (length appslice - 1);
           Some (b\<lparr>bw_buf := blit (bw_buf b) (bw_byteOffset b) appslice,
                    bw_pos := bw_pos b + space, bw_bitMask := m,
                    bw_byteOffset := bw_byteOffset b + (bitOffset + space) div 8,
                    bw_curByte := c\<rparr>, space) })"

section \<open>BitmapWordReader\<close>

definition getLSB :: "u64 \<Rightarrow> byte" where
  "getLSB v = ucast v"

definition setLSB :: "u64 \<Rightarrow> byte \<Rightarrow> u64" where
  "setLSB v b = (v AND NOT 255) OR ucast b"

record BitmapWordReader =
  wr_bitmap :: "byte list"
  wr_offset :: nat
  wr_nwords :: nat
  wr_trailingBits :: nat
  wr_trailingBytes :: nat
  wr_curword :: u64

definition NewBitmapWordReader :: "byte list \<Rightarrow> nat \<Rightarrow> nat \<Rightarrow> BitmapWordReader option" where
  "NewBitmapWordReader bitmap offset len =
     (let bitoffset = offset mod 8; byteOffset = offset div 8
      in do {
        bm \<leftarrow> slice bitmap byteOffset (byteOffset + BytesForBits (bitoffset + len));
        let n = int (len div 64) - 1;
        let nwords = (if n < 0 then 0 else nat n);
        let trailingBits = len - nwords * 64;
        let trailingBytes = BytesForBits trailingBits;
        curword \<leftarrow> (if nwords > 0 then le_uint64 bm
                    else if len > 0 then do { b \<leftarrow> idx bm 0; Some (setLSB 0 b) }
                    else Some 0);
        Some \<lparr>wr_bitmap = bm, wr_offset = bitoffset, wr_nwords = nwords,
              wr_trailingBits = trailingBits, wr_trailingBytes = trailingBytes,
              wr_curword = curword\<rparr> })"

definition BitmapWordReader_NextWord :: "BitmapWordReader \<Rightarrow> (BitmapWordReader \<times> u64) option" where
  "BitmapWordReader_NextWord bm =
     do { bitmap \<leftarrow> slice_from (wr_bitmap bm) 8;
          let word = wr_curword bm;
          nextWord \<leftarrow> le_uint64 bitmap;
          let word = (if wr_offset bm \<noteq> 0
                      then drop_bit (wr_offset bm) word OR push_bit (64 - wr_offset bm) nextWord
                      else word);
          Some (bm\<lparr>wr_bitmap := bitmap, wr_curword := nextWord\<rparr>, word) }"

text \<open>The loop that assembles the last byte: \<^verbatim>\<open>val >>= 1; if rdr.Set() { val |= 0x80 }; rdr.Next()\<close>.\<close>

fun trailing_byte_loop :: "nat \<Rightarrow> BitmapReader \<Rightarrow> byte \<Rightarrow> byte option" where
  "trailing_byte_loop 0 rdr val = Some val"
| "trailing_byte_loop (Suc k) rdr val =
     (let val = drop_bit 1 val; val = (if BitmapReader_Set rdr then val OR 128 else val)
      in do { rdr' \<leftarrow> BitmapReader_Next rdr; trailing_byte_loop k rdr' val })"

definition BitmapWordReader_NextTrailingByte ::
  "BitmapWordReader \<Rightarrow> (BitmapWordReader \<times> byte \<times> nat) option" where
  "BitmapWordReader_NextTrailingByte bm =
     (if wr_trailingBits bm \<le> 8 then
        let validBits = wr_trailingBits bm; bm' = bm\<lparr>wr_trailingBits := 0\<rparr>
        in do { rdr \<leftarrow> NewBitmapReader (Some (wr_bitmap bm')) (wr_offset bm') validBits;
                val \<leftarrow> trailing_byte_loop validBits rdr 0;
                Some (bm', drop_bit (8 - validBits) val, validBits) }
      else do {
        bitmap \<leftarrow> slice_from (wr_bitmap bm) 1;
        nextByte \<leftarrow> idx bitmap 0;
        let val = getLSB (wr_curword bm);
        let val = (if wr_offset bm \<noteq> 0
                   then drop_bit (wr_offset bm) val OR push_bit (8 - wr_offset bm) nextByte
                   else val);
        Some (bm\<lparr>wr_bitmap := bitmap, wr_curword := setLSB (wr_curword bm) nextByte,
                  wr_trailingBits := wr_trailingBits bm - 8,
                  wr_trailingBytes := wr_trailingBytes bm - 1\<rparr>, val, 8) })"

section \<open>BitmapWordWriter\<close>

text \<open>\<open>ww_bitmap\<close> is the underlying buffer, \<open>ww_base\<close> the start of the slice
  \<^verbatim>\<open>bm.bitmap\<close> in it.\<close>

record BitmapWordWriter =
  ww_bitmap :: "byte list"
  ww_base :: nat
  ww_offset :: nat
  ww_len :: nat
  ww_bitMask :: u64
  ww_currentWord :: u64

definition NewBitmapWordWriter :: "byte list \<Rightarrow> nat \<Rightarrow> nat \<Rightarrow> BitmapWordWriter option" where
  "NewBitmapWordWriter bitmap start len =
     do { bm \<leftarrow> slice_from bitmap (start div 8);
          cur \<leftarrow> (if start mod 8 \<noteq> 0 then
                    if len \<ge> 64 then le_uint64 bm
                    else if len > 0 then do { b \<leftarrow> idx bm 0; Some (setLSB 0 b) } else Some 0
                  else Some 0);
          Some \<lparr>ww_bitmap = bitmap, ww_base = start div 8, ww_offset = start mod 8, ww_len = len,
                ww_bitMask = push_bit (start mod 8) 1 - 1, ww_currentWord = cur\<rparr> }"

text \<open>\<^verbatim>\<open>endian.Native.PutUint64\<close> at a position of the buffer: a panic unless eight bytes fit.\<close>

definition put_uint64 :: "byte list \<Rightarrow> nat \<Rightarrow> u64 \<Rightarrow> byte list option" where
  "put_uint64 buf at w =
     (if at + 8 \<le> length buf then Some (blit buf at (bytes_of_word 8 w)) else None)"

definition BitmapWordWriter_PutNextWord :: "BitmapWordWriter \<Rightarrow> u64 \<Rightarrow> BitmapWordWriter option" where
  "BitmapWordWriter_PutNextWord bm word =
     (let sz = 8 in
      if ww_offset bm \<noteq> 0 then
        do { let word = push_bit (ww_offset bm) word OR drop_bit (sz * 8 - ww_offset bm) word;
             rest \<leftarrow> slice_from (ww_bitmap bm) (ww_base bm + sz);
             nxt \<leftarrow> le_uint64 rest;
             let currentWord = (ww_currentWord bm AND ww_bitMask bm) OR (word AND NOT (ww_bitMask bm));
             let nxt = (nxt AND NOT (ww_bitMask bm)) OR (word AND ww_bitMask bm);
             buf \<leftarrow> put_uint64 (ww_bitmap bm) (ww_base bm) currentWord;
             buf \<leftarrow> put_uint64 buf (ww_base bm + sz) nxt;
             Some (bm\<lparr>ww_bitmap := buf, ww_base := ww_base bm + sz, ww_currentWord := nxt\<rparr>) }
      else
        do { buf \<leftarrow> put_uint64 (ww_bitmap bm) (ww_base bm) word;
             Some (bm\<lparr>ww_bitmap := buf, ww_base := ww_base bm + sz\<rparr>) })"

text \<open>The loop that writes the last \<^verbatim>\<open>validBits\<close> bits through a \<^verbatim>\<open>BitmapWriter\<close>.\<close>

fun put_trailing_loop :: "nat \<Rightarrow> BitmapWriter \<Rightarrow> byte \<Rightarrow> BitmapWriter option" where
  "put_trailing_loop 0 wr b = Some wr"
| "put_trailing_loop (Suc k) wr b =
     do { wr' \<leftarrow> BitmapWriter_Next (if b AND 1 \<noteq> 0 then BitmapWriter_Set wr else BitmapWriter_Clear wr);
          put_trailing_loop k wr' (drop_bit 1 b) }"

definition BitmapWordWriter_PutNextTrailingByte ::
  "BitmapWordWriter \<Rightarrow> byte \<Rightarrow> nat \<Rightarrow> BitmapWordWriter option" where
  "BitmapWordWriter_PutNextTrailingByte bm b validBits =
     (let curbyte = getLSB (ww_currentWord bm); m = ucast (ww_bitMask bm) :: byte
      in if validBits = 8 then
           if ww_offset bm \<noteq> 0 then
             do { let b = push_bit (ww_offset bm) b OR drop_bit (8 - ww_offset bm) b;
                  nxt \<leftarrow> idx (ww_bitmap bm) (ww_base bm + 1);
                  let curbyte = (curbyte AND m) OR (b AND NOT m);
                  let nxt = (nxt AND NOT m) OR (b AND m);
                  buf \<leftarrow> upd (ww_bitmap bm) (ww_base bm) curbyte;
                  buf \<leftarrow> upd buf (ww_base bm + 1) nxt;
                  Some (bm\<lparr>ww_bitmap := buf, ww_base := ww_base bm + 1,
                            ww_currentWord := ucast nxt\<rparr>) }
           else
             do { buf \<leftarrow> upd (ww_bitmap bm) (ww_base bm) b;
                  Some (bm\<lparr>ww_bitmap := buf, ww_base := ww_base bm + 1\<rparr>) }
         else
           do { bs \<leftarrow> slice_from (ww_bitmap bm) (ww_base bm);
                wr \<leftarrow> NewBitmapWriter bs (ww_offset bm) validBits;
                wr \<leftarrow> put_trailing_loop validBits wr b;
                wr \<leftarrow> BitmapWriter_Finish wr;
                Some (bm\<lparr>ww_bitmap := blit (ww_bitmap bm) (ww_base bm) (bw_buf wr)\<rparr>) })"

section \<open>BitmapReader reads the bits in order\<close>

definition br_inv :: "byte list \<Rightarrow> nat \<Rightarrow> BitmapReader \<Rightarrow> bool" where
  "br_inv bs off r \<longleftrightarrow>
     br_bitmap r = Some bs \<and> br_pos r \<le> br_len r \<and> off + br_len r \<le> 8 * length bs \<and>
     br_byteOffset r = (off + br_pos r) div 8 \<and> br_bitOffset r = (off + br_pos r) mod 8 \<and>
     (br_pos r < br_len r \<longrightarrow> br_current r = bs ! br_byteOffset r)"

lemma NewBitmapReader_inv:
  assumes "off + len \<le> 8 * length bs"
  shows "\<exists>r. NewBitmapReader (Some bs) off len = Some r \<and> br_inv bs off r \<and>
    br_pos r = 0 \<and> br_len r = len"
proof -
  have "0 < len \<Longrightarrow> off div 8 < length bs" using assms by (simp add: div8_less_iff)
  then show ?thesis using assms by (auto simp: NewBitmapReader_def br_inv_def)
qed

lemma BitmapReader_Set_eq:
  assumes "br_inv bs off r" "br_pos r < br_len r"
  shows "BitmapReader_Set r = bm_bit bs (off + br_pos r)"
proof -
  have "(off + br_pos r) div 8 < length bs" using assms by (simp add: br_inv_def div8_less_iff)
  then show ?thesis
    using assms by (simp add: BitmapReader_Set_def br_inv_def bm_bit_def and_exp_eq_0)
qed

lemma Suc_div_mod_8:
  "Suc m div 8 = (if m mod 8 = 7 then Suc (m div 8) else m div 8)"
  "Suc m mod 8 = (if m mod 8 = 7 then 0 else Suc (m mod 8))" for m :: nat
  by (simp_all add: div_Suc mod_Suc)

lemma BitmapReader_Next_inv:
  assumes "br_inv bs off r" "br_pos r < br_len r"
  shows "\<exists>r'. BitmapReader_Next r = Some r' \<and> br_inv bs off r' \<and>
    br_pos r' = Suc (br_pos r) \<and> br_len r' = br_len r"
proof -
  have "Suc (br_pos r) < br_len r \<Longrightarrow> (off + Suc (br_pos r)) div 8 < length bs"
    using assms by (simp add: br_inv_def div8_less_iff)
  then show ?thesis
    using assms by (auto simp: BitmapReader_Next_def br_inv_def Let_def Suc_div_mod_8)
qed

lemma trailing_byte_loop_eq:
  assumes "br_inv bs off r" "br_pos r + k \<le> br_len r" "k \<le> 8"
  shows "\<exists>v. trailing_byte_loop k r val = Some v \<and>
    (\<forall>i<8. bit v i = (if i < 8 - k then bit val (i + k)
                       else bm_bit bs (off + br_pos r + (i - (8 - k)))))"
  using assms
proof (induction k arbitrary: r val)
  case 0
  then show ?case by simp
next
  case (Suc k)
  define val1 where
    "val1 = (if BitmapReader_Set r then drop_bit 1 val OR 128 else drop_bit 1 val)"
  from Suc.prems obtain r' where r': "BitmapReader_Next r = Some r'" "br_inv bs off r'"
      "br_pos r' = Suc (br_pos r)" "br_len r' = br_len r"
    using BitmapReader_Next_inv [of bs off r] by auto
  have val1: "bit val1 i = (if i = 7 then bm_bit bs (off + br_pos r) else bit val (Suc i))"
    if "i < 8" for i
    using that Suc.prems BitmapReader_Set_eq [of bs off r]
    by (auto simp: val1_def bit_simps dest: bit_imp_le_length)
  from Suc.prems r' obtain v where v: "trailing_byte_loop k r' val1 = Some v"
    and bits: "\<forall>i<8. bit v i = (if i < 8 - k then bit val1 (i + k)
                       else bm_bit bs (off + br_pos r' + (i - (8 - k))))"
    using Suc.IH [of r' val1] by auto
  have "bit v i = (if i < 8 - Suc k then bit val (i + Suc k)
      else bm_bit bs (off + br_pos r + (i - (8 - Suc k))))" if i: "i < 8" for i
  proof (cases "i < 8 - k")
    case True
    then show ?thesis using bits i Suc.prems(3) by (auto simp: val1)
  next
    case False
    moreover have "off + br_pos r' + (i - (8 - k)) = off + br_pos r + (i - (8 - Suc k))"
      "\<not> i < 8 - Suc k"
      using False Suc.prems(3) r'(3) by arith+
    ultimately show ?thesis using bits i by (simp only: if_False)
  qed
  then show ?case using v r'(1) by (auto simp: Let_def val1_def)
qed

section \<open>BitmapWriter writes the bits in order\<close>

text \<open>The buffer as it is after \<^verbatim>\<open>Finish\<close>.\<close>

definition bw_view :: "BitmapWriter \<Rightarrow> byte list" where
  "bw_view w = (if bw_length w > 0 \<and> (bw_bitMask w \<noteq> 1 \<or> bw_pos w < bw_length w)
     then (bw_buf w)[bw_byteOffset w := bw_curByte w] else bw_buf w)"

definition bw_inv :: "nat \<Rightarrow> BitmapWriter \<Rightarrow> bool" where
  "bw_inv start w \<longleftrightarrow> bw_pos w \<le> bw_length w \<and> start + bw_length w \<le> 8 * length (bw_buf w) \<and>
     bw_byteOffset w = (start + bw_pos w) div 8 \<and> bw_bitMask w = 2 ^ ((start + bw_pos w) mod 8)"

definition bw_put :: "BitmapWriter \<Rightarrow> bool \<Rightarrow> BitmapWriter option" where
  "bw_put w v = BitmapWriter_Next (if v then BitmapWriter_Set w else BitmapWriter_Clear w)"

lemma NewBitmapWriter_inv:
  assumes "start + len \<le> 8 * length buf"
  shows "\<exists>w. NewBitmapWriter buf start len = Some w \<and> bw_inv start w \<and>
    bw_pos w = 0 \<and> bw_length w = len \<and> bw_buf w = buf \<and> bw_view w = buf"
proof -
  have "0 < len \<Longrightarrow> start div 8 < length buf" using assms by (simp add: div8_less_iff)
  then show ?thesis using assms by (auto simp: NewBitmapWriter_def bw_inv_def bw_view_def mask_nth)
qed

lemma exp_byte_eq_1_iff: "k < 8 \<Longrightarrow> (2 ^ k = (1 :: byte)) \<longleftrightarrow> k = 0"
  by (auto simp: less_8_cases)

lemma exp_byte_7: "(2 ^ k * 2 = (0 :: byte)) \<longleftrightarrow> k = 7" "k \<noteq> 7 \<Longrightarrow> 2 ^ k * 2 \<noteq> (1 :: byte)" if "k < 8"
  using that by (auto simp: less_8_cases)

lemma bw_put_inv:
  assumes inv: "bw_inv start w" and pos: "bw_pos w < bw_length w"
  shows "\<exists>w'. bw_put w v = Some w' \<and> bw_inv start w' \<and> bw_pos w' = Suc (bw_pos w) \<and>
    bw_length w' = bw_length w \<and> length (bw_buf w') = length (bw_buf w) \<and>
    (\<forall>i. bm_bit (bw_view w') i = (if i = start + bw_pos w then v else bm_bit (bw_view w) i))"
proof -
  let ?m = "start + bw_pos w"
  define b where "b = (if v then bw_curByte w OR 2 ^ (?m mod 8) else bw_curByte w AND NOT (2 ^ (?m mod 8)))"
  define w1 where "w1 = w\<lparr>bw_curByte := b\<rparr>"
  have w1: "(if v then BitmapWriter_Set w else BitmapWriter_Clear w) = w1"
    using inv by (simp add: BitmapWriter_Set_def BitmapWriter_Clear_def w1_def b_def bw_inv_def)
  have m: "?m < 8 * length (bw_buf w)" using inv pos by (simp add: bw_inv_def)
  then have k: "?m div 8 < length (bw_buf w)" by (simp add: div8_less_iff)
  have next_k: "Suc (bw_pos w) < bw_length w \<Longrightarrow> Suc ?m div 8 < length (bw_buf w)"
    using inv by (simp add: bw_inv_def div8_less_iff)
  have view: "bw_view w = (bw_buf w)[?m div 8 := bw_curByte w]"
    using inv pos by (simp add: bw_view_def bw_inv_def)
  have bits: "bm_bit ((bw_buf w)[?m div 8 := b]) i = (if i = ?m then v else bm_bit (bw_view w) i)" for i
  proof -
    have "bit b j = (if j = ?m mod 8 then v else bit (bw_view w ! (?m div 8)) j)" if "j < 8" for j
      using that k by (auto simp: view b_def bit_simps)
    then have "bm_bit ((bw_view w)[?m div 8 := b]) i = (if i = ?m then v else bm_bit (bw_view w) i)"
      using m by (intro bm_bit_set_byte) (auto simp: view)
    then show ?thesis by (simp add: view)
  qed
  have "\<exists>w'. BitmapWriter_Next w1 = Some w' \<and> bw_inv start w' \<and> bw_pos w' = Suc (bw_pos w) \<and>
    bw_length w' = bw_length w \<and> length (bw_buf w') = length (bw_buf w) \<and>
    bw_view w' = (bw_buf w)[?m div 8 := b]"
    using inv pos k next_k exp_byte_7 [of "?m mod 8"]
    by (cases "?m mod 8 = 7")
      (auto simp: BitmapWriter_Next_def w1_def bw_inv_def bw_view_def
          Suc_div_mod_8 Let_def list_update_same_conv mult.commute)
  then show ?thesis using bits by (auto simp: bw_put_def w1)
qed

lemma BitmapWriter_Finish_view:
  assumes "bw_inv start w"
  shows "\<exists>w'. BitmapWriter_Finish w = Some w' \<and> bw_buf w' = bw_view w"
proof -
  have "bw_byteOffset w < length (bw_buf w)"
    if "0 < bw_length w" "bw_bitMask w \<noteq> 1 \<or> bw_pos w < bw_length w"
  proof -
    have "start + bw_pos w < 8 * length (bw_buf w)"
    proof (rule ccontr)
      assume "\<not> ?thesis"
      then have "start + bw_pos w = 8 * length (bw_buf w)" "bw_pos w = bw_length w"
        using assms by (auto simp: bw_inv_def)
      then show False using assms that by (simp add: bw_inv_def)
    qed
    then show ?thesis using assms by (simp add: bw_inv_def div8_less_iff)
  qed
  then show ?thesis by (simp add: BitmapWriter_Finish_def bw_view_def)
qed

text \<open>The sequence \<^verbatim>\<open>Set\<close>/\<^verbatim>\<open>Clear\<close>, \<^verbatim>\<open>Next\<close> for each bit, then
  \<^verbatim>\<open>Finish\<close>: how every caller drives a \<^verbatim>\<open>BitmapWriter\<close>.\<close>

fun bw_put_all :: "BitmapWriter \<Rightarrow> bool list \<Rightarrow> BitmapWriter option" where
  "bw_put_all w [] = Some w"
| "bw_put_all w (v # vs) = do { w' \<leftarrow> bw_put w v; bw_put_all w' vs }"

definition write_bits :: "byte list \<Rightarrow> nat \<Rightarrow> nat \<Rightarrow> bool list \<Rightarrow> byte list option" where
  "write_bits buf start len vs =
     do { w \<leftarrow> NewBitmapWriter buf start len; w \<leftarrow> bw_put_all w vs;
          w \<leftarrow> BitmapWriter_Finish w; Some (bw_buf w) }"

lemma bw_put_all_inv:
  assumes "bw_inv start w" "bw_pos w + length vs \<le> bw_length w"
  shows "\<exists>w'. bw_put_all w vs = Some w' \<and> bw_inv start w' \<and>
    length (bw_buf w') = length (bw_buf w) \<and>
    (\<forall>i. bm_bit (bw_view w') i =
      (if start + bw_pos w \<le> i \<and> i < start + bw_pos w + length vs
       then vs ! (i - (start + bw_pos w)) else bm_bit (bw_view w) i))"
  using assms
proof (induction vs arbitrary: w)
  case Nil
  then show ?case by auto
next
  case (Cons v vs)
  let ?m = "start + bw_pos w"
  from Cons.prems obtain w1 where w1: "bw_put w v = Some w1" "bw_inv start w1"
      "bw_pos w1 = Suc (bw_pos w)" "bw_length w1 = bw_length w"
      "length (bw_buf w1) = length (bw_buf w)"
      "\<And>i. bm_bit (bw_view w1) i = (if i = ?m then v else bm_bit (bw_view w) i)"
    using bw_put_inv [of start w v] by auto
  with Cons.prems obtain w2 where w2: "bw_put_all w1 vs = Some w2" "bw_inv start w2"
      "length (bw_buf w2) = length (bw_buf w1)"
      "\<And>i. bm_bit (bw_view w2) i = (if Suc ?m \<le> i \<and> i < Suc ?m + length vs
         then vs ! (i - Suc ?m) else bm_bit (bw_view w1) i)"
    using Cons.IH [of w1] by auto
  have "bm_bit (bw_view w2) i = (if ?m \<le> i \<and> i < ?m + length (v # vs)
      then (v # vs) ! (i - ?m) else bm_bit (bw_view w) i)" for i
    unfolding w2(4) w1(6) by (cases "i = ?m") (auto simp: nth_Cons' less_Suc_eq)
  then show ?case using w1 w2 by auto
qed

lemma write_bits_eq:
  assumes "start + len \<le> 8 * length buf" "length vs \<le> len"
  shows "\<exists>buf'. write_bits buf start len vs = Some buf' \<and> length buf' = length buf \<and>
    (\<forall>i. bm_bit buf' i =
      (if start \<le> i \<and> i < start + length vs then vs ! (i - start) else bm_bit buf i))"
proof -
  from assms obtain w where w: "NewBitmapWriter buf start len = Some w" "bw_inv start w"
      "bw_pos w = 0" "bw_length w = len" "bw_buf w = buf" "bw_view w = buf"
    using NewBitmapWriter_inv by blast
  with assms obtain w' where w': "bw_put_all w vs = Some w'" "bw_inv start w'"
      "length (bw_buf w') = length buf"
      "\<And>i. bm_bit (bw_view w') i = (if start \<le> i \<and> i < start + length vs
         then vs ! (i - start) else bm_bit buf i)"
    using bw_put_all_inv [of start w vs] by auto
  moreover from w' obtain w'' where "BitmapWriter_Finish w' = Some w''" "bw_buf w'' = bw_view w'"
    using BitmapWriter_Finish_view by blast
  moreover have "length (bw_view w') = length (bw_buf w')" by (simp add: bw_view_def)
  ultimately show ?thesis using w by (simp add: write_bits_def)
qed

lemma put_trailing_loop_put_all:
  "put_trailing_loop k wr b = bw_put_all wr (map (bit b) [0..<k])"
proof (induction k arbitrary: wr b)
  case (Suc k)
  have "map (bit b) [0..<Suc k] = bit b 0 # map (bit (drop_bit 1 b)) [0..<k]"
    by (simp add: upt_conv_Cons map_Suc_upt [symmetric] comp_def bit_drop_bit_eq del: upt_Suc)
  moreover have "b AND 1 \<noteq> 0 \<longleftrightarrow> bit b 0"
    using and_exp_eq_0 [of 0 b] by simp
  ultimately show ?case by (simp only: put_trailing_loop.simps bw_put_all.simps bw_put_def Suc.IH)
qed simp

section \<open>BitmapWordReader\<close>

text \<open>\<open>wr_rel src off n w r\<close>: the reader \<open>r\<close> stands at bit \<open>off\<close> of \<open>src\<close> with \<open>n\<close>
  bits left, of which \<open>w\<close> whole words are still to be read by \<^verbatim>\<open>NextWord\<close>.\<close>

definition wr_rel :: "byte list \<Rightarrow> nat \<Rightarrow> nat \<Rightarrow> nat \<Rightarrow> BitmapWordReader \<Rightarrow> bool" where
  "wr_rel src off n w r \<longleftrightarrow>
     off + n \<le> 8 * length src \<and> wr_offset r = off mod 8 \<and>
     wr_bitmap r = take (BytesForBits (off mod 8 + n)) (drop (off div 8) src) \<and>
     wr_trailingBits r + 64 * w = n \<and>
     (0 < w \<longrightarrow> 64 * w + 64 \<le> n \<and> wr_curword r = word_of_bytes (take 8 (wr_bitmap r))) \<and>
     (0 < n \<longrightarrow> getLSB (wr_curword r) = wr_bitmap r ! 0)"

lemma off_div_mod_8: "8 * (off div 8) + (off mod 8 + i) = off + i" for off i :: nat
  by simp

lemma wr_rel_length:
  assumes "wr_rel src off n w r"
  shows "length (wr_bitmap r) = BytesForBits (off mod 8 + n)"
proof -
  have "BytesForBits (off mod 8 + n) \<le> length src - off div 8"
    using assms off_div_mod_8 [of off n] unfolding wr_rel_def BytesForBits_le_iff by linarith
  then show ?thesis using assms by (simp add: wr_rel_def min_absorb2)
qed

lemma wr_rel_bit:
  assumes "wr_rel src off n w r" "i < off mod 8 + n"
  shows "bm_bit (wr_bitmap r) i = bm_bit src (8 * (off div 8) + i)"
proof -
  have "i < 8 * BytesForBits (off mod 8 + n)"
    using assms(2) BytesForBits_le_iff [of "off mod 8 + n" "BytesForBits (off mod 8 + n)"] by linarith
  then show ?thesis using assms(1) by (simp add: wr_rel_def bm_simps)
qed

lemma getLSB_setLSB [simp]: "getLSB (setLSB v b) = b"
proof -
  have "(255 :: u64) = mask 8" by (simp add: mask_eq_exp_minus_1)
  then show ?thesis
    unfolding getLSB_def setLSB_def
    by (simp only:) (auto simp: word_eq_bits_iff bit_simps)
qed

lemma getLSB_word_of_bytes: "0 < length bs \<Longrightarrow> getLSB (word_of_bytes (take 8 bs)) = bs ! 0"
  by (auto simp: getLSB_def word_eq_bits_iff bit_simps bit_le_uint64 bm_bit_def)

lemma NewBitmapWordReader_rel:
  assumes "off + n \<le> 8 * length src"
  shows "\<exists>r. NewBitmapWordReader src off n = Some r \<and> wr_rel src off n (wr_nwords r) r \<and>
    wr_nwords r = n div 64 - 1 \<and> wr_trailingBytes r = BytesForBits (n - 64 * wr_nwords r)"
proof -
  define bm where "bm = take (BytesForBits (off mod 8 + n)) (drop (off div 8) src)"
  have le: "off div 8 + BytesForBits (off mod 8 + n) \<le> length src"
    using assms off_div_mod_8 [of off n] BytesForBits_le_iff [of "off mod 8 + n" "length src - off div 8"]
    by linarith
  then have len: "length bm = BytesForBits (off mod 8 + n)" by (simp add: bm_def)
  have nwords: "(if int (n div 64) - 1 < 0 then 0 else nat (int (n div 64) - 1)) = n div 64 - 1"
    by (cases "n div 64") auto
  have words: "8 \<le> length bm" "64 * (n div 64 - 1) + 64 \<le> n" if "0 < n div 64 - 1"
    using that unfolding len BytesForBits_eq by linarith+
  have ne: "0 < length bm" if "0 < n" using that unfolding len BytesForBits_eq by linarith
  define cur where "cur = (if 0 < n div 64 - 1 then word_of_bytes (take 8 bm)
    else if 0 < n then setLSB 0 (bm ! 0) else 0)"
  define r where "r = \<lparr>wr_bitmap = bm, wr_offset = off mod 8, wr_nwords = n div 64 - 1,
    wr_trailingBits = n - (n div 64 - 1) * 64,
    wr_trailingBytes = BytesForBits (n - (n div 64 - 1) * 64), wr_curword = cur\<rparr>"
  have "NewBitmapWordReader src off n = Some r"
  proof -
    have cur: "(if 0 < n div 64 - 1 then le_uint64 bm
        else if 0 < n then idx bm 0 \<bind> (\<lambda>b. Some (setLSB 0 b)) else Some 0) = Some cur"
      using words(1) ne by (auto simp: cur_def)
    show ?thesis
      using le by (simp only: NewBitmapWordReader_def Let_def nwords cur slice_Some le_add1
          add_diff_cancel_left' bind.bind_lunit r_def flip: bm_def)
  qed
  moreover have "getLSB cur = bm ! 0" if "0 < n"
    using that ne by (simp add: cur_def getLSB_word_of_bytes)
  then have "wr_rel src off n (n div 64 - 1) r"
    using assms words(2)
    by (simp add: wr_rel_def r_def cur_def flip: bm_def)
  ultimately show ?thesis by (auto simp: r_def mult.commute)
qed

lemma NextWord_rel:
  assumes rel: "wr_rel src off n (Suc w) r"
  shows "\<exists>r' word. BitmapWordReader_NextWord r = Some (r', word) \<and>
    wr_rel src (off + 64) (n - 64) w r' \<and> wr_trailingBytes r' = wr_trailingBytes r \<and>
    (\<forall>i<64. bit word i = bm_bit src (off + i))"
proof -
  let ?b = "wr_bitmap r" and ?o = "off mod 8"
  have n: "64 * w + 128 \<le> n" using rel by (simp add: wr_rel_def)
  have len: "16 \<le> length ?b" using n unfolding wr_rel_length [OF rel] BytesForBits_eq by linarith
  define nxt where "nxt = (word_of_bytes (take 8 (drop 8 ?b)) :: u64)"
  define word where "word =
    (if ?o \<noteq> 0 then drop_bit ?o (wr_curword r) OR push_bit (64 - ?o) nxt else wr_curword r)"
  let ?r' = "r\<lparr>wr_bitmap := drop 8 ?b, wr_curword := nxt\<rparr>"
  have "wr_curword r = word_of_bytes (take 8 ?b)" using rel by (simp add: wr_rel_def)
  then have cur: "bit (wr_curword r) i \<longleftrightarrow> i < 64 \<and> bm_bit ?b i" for i
    by (simp only: bit_le_uint64)
  have nxtb: "bit nxt i \<longleftrightarrow> i < 64 \<and> bm_bit ?b (64 + i)" for i
    by (simp add: nxt_def bit_le_uint64 bm_simps)
  have "bit word i = bm_bit src (off + i)" if "i < 64" for i
  proof -
    have "bit word i = bm_bit ?b (?o + i)"
      using that by (auto simp: word_def bit_simps cur nxtb ac_simps)
    also have "\<dots> = bm_bit src (off + i)"
      using wr_rel_bit [OF rel, of "?o + i"] n that off_div_mod_8 [of off i] by simp
    finally show ?thesis .
  qed
  moreover have "BitmapWordReader_NextWord r = Some (?r', word)"
  proof -
    have "wr_offset r = ?o" using rel by (simp add: wr_rel_def)
    then show ?thesis using len by (simp add: BitmapWordReader_NextWord_def nxt_def word_def)
  qed
  moreover have "wr_rel src (off + 64) (n - 64) w ?r'"
  proof -
    have "BytesForBits (?o + n) - 8 = BytesForBits (?o + (n - 64))"
      using n unfolding BytesForBits_eq by linarith
    moreover have "(off + 64) div 8 = off div 8 + 8" "(off + 64) mod 8 = ?o"
      using mod_mult_self2 [of off 8 8] by simp_all
    moreover have "getLSB nxt = drop 8 ?b ! 0"
      using len by (simp add: nxt_def getLSB_word_of_bytes)
    ultimately show ?thesis
      using rel n by (auto simp: wr_rel_def nxt_def drop_take ac_simps)
  qed
  ultimately show ?thesis by auto
qed

section \<open>Properties\<close>

text \<open>C20: driving a \<^verbatim>\<open>BitmapWriter\<close> with \<^verbatim>\<open>Set\<close> or \<^verbatim>\<open>Clear\<close> and
  \<^verbatim>\<open>Next\<close> for each bit and \<^verbatim>\<open>Finish\<close> at the end writes the bits in order from
  the start position and preserves every surrounding bit.\<close>

theorem BitmapWriter_writes_bits:
  assumes "start + len \<le> 8 * length buf" "length vs \<le> len"
  shows "\<exists>buf'. write_bits buf start len vs = Some buf' \<and>
    bm_writes buf start (length vs) (\<lambda>i. vs ! i) buf'"
  using write_bits_eq [OF assms] by (simp add: bm_writes_def)

theorem BitmapWriter_writes_bits_witness:
  "\<exists>buf'. write_bits [255, 255] 6 4 [False, True, False] = Some buf' \<and>
     bm_writes [255, 255] 6 3 (\<lambda>i. [False, True, False] ! i) buf'"
  using BitmapWriter_writes_bits [of 6 4 "[255, 255]" "[False, True, False]"]
  by (simp add: eval_nat_numeral)

end
