(* ===== verification/Bitmap_Words.thy ===== *)
theory Bitmap_Words
  imports Bitmaps
begin

unbundle bit_operations_syntax

text \<open>
  Correctness of the word reader and the word writer of \<^verbatim>\<open>arrow/bitutil/bitmaps.go\<close>: the
  trailing bytes of \<^verbatim>\<open>BitmapWordReader\<close> and the whole of \<^verbatim>\<open>BitmapWordWriter\<close>, each as a
  step of a relation between the object and the bit range that is left.
\<close>

section \<open>Trailing bytes of the reader\<close>

lemma NextTrailingByte_last:
  assumes rel: "wr_rel src off n 0 r" and n: "0 < n" "n \<le> 8"
  shows "\<exists>r' val. BitmapWordReader_NextTrailingByte r = Some (r', val, n) \<and>
    (\<forall>i<8. bit val i \<longleftrightarrow> i < n \<and> bm_bit src (off + i))"
proof -
  let ?b = "wr_bitmap r" and ?o = "off mod 8"
  have r: "wr_offset r = ?o" "wr_trailingBits r = n" using rel by (simp_all add: wr_rel_def)
  have "?o + n \<le> 8 * length ?b"
    using BytesForBits_le_iff [of "?o + n" "length ?b"] by (simp add: wr_rel_length [OF rel])
  then obtain rdr where rdr: "NewBitmapReader (Some ?b) ?o n = Some rdr" "br_inv ?b ?o rdr"
      "br_pos rdr = 0" "br_len rdr = n"
    using NewBitmapReader_inv by blast
  with n obtain v where v: "trailing_byte_loop n rdr 0 = Some v"
    and bits: "\<forall>i<8. bit v i = (if i < 8 - n then bit (0::byte) (i + n)
      else bm_bit ?b (?o + br_pos rdr + (i - (8 - n))))"
    using trailing_byte_loop_eq [of ?b ?o rdr n 0] by auto
  have "bit (drop_bit (8 - n) v) i \<longleftrightarrow> i < n \<and> bm_bit src (off + i)" if "i < 8" for i
  proof (cases "i < n")
    case True
    with n have "\<not> 8 + i - n < 8 - n" "8 + i - n < 8" by linarith+
    then have "bit (drop_bit (8 - n) v) i = bm_bit ?b (?o + i)"
      using n bits [rule_format, of "8 - n + i"] rdr(3) by (simp add: bit_drop_bit_eq)
    also have "\<dots> = bm_bit src (off + i)"
      using wr_rel_bit [OF rel, of "?o + i"] True off_div_mod_8 [of off i] by simp
    finally show ?thesis using True by simp
  next
    case False
    then show ?thesis using n by (auto simp: bit_drop_bit_eq dest: bit_imp_le_length)
  qed
  moreover have "BitmapWordReader_NextTrailingByte r =
      Some (r\<lparr>wr_trailingBits := 0\<rparr>, drop_bit (8 - n) v, n)"
    using rdr v r n by (simp add: BitmapWordReader_NextTrailingByte_def)
  ultimately show ?thesis by blast
qed

lemma NextTrailingByte_more:
  assumes rel: "wr_rel src off n 0 r" and n: "8 < n"
  shows "\<exists>r' val. BitmapWordReader_NextTrailingByte r = Some (r', val, 8) \<and>
    wr_rel src (off + 8) (n - 8) 0 r' \<and> (\<forall>i<8. bit val i = bm_bit src (off + i))"
proof -
  let ?b = "wr_bitmap r" and ?o = "off mod 8"
  have r: "wr_offset r = ?o" "wr_trailingBits r = n" using rel by (simp_all add: wr_rel_def)
  have len: "1 < length ?b" using n unfolding wr_rel_length [OF rel] BytesForBits_eq by linarith
  define val where "val = (if ?o \<noteq> 0 then drop_bit ?o (?b ! 0) OR push_bit (8 - ?o) (?b ! 1) else ?b ! 0)"
  let ?r' = "r\<lparr>wr_bitmap := drop 1 ?b, wr_curword := setLSB (wr_curword r) (?b ! 1),
    wr_trailingBits := n - 8, wr_trailingBytes := wr_trailingBytes r - 1\<rparr>"
  have cur: "getLSB (wr_curword r) = ?b ! 0" using rel n unfolding wr_rel_def by simp
  have "bit val i = bm_bit src (off + i)" if "i < 8" for i
  proof -
    have "?b = (?b ! 0) # (?b ! 1) # drop 2 ?b"
      using len by (cases ?b; cases "tl ?b") auto
    then have "bm_bit ?b (?o + i) = bm_bit ((?b ! 0) # (?b ! 1) # drop 2 ?b) (?o + i)" by simp
    also have "\<dots> = (if ?o + i < 8 then bit (?b ! 0) (?o + i) else bit (?b ! 1) (?o + i - 8))"
      using that add_strict_mono [of ?o 8 i 8] by (simp add: bm_bit_Cons)
    also have "\<dots> = bit val i"
      using that by (auto simp: val_def bit_simps add.commute dest: bit_imp_le_length)
    finally show ?thesis
      using wr_rel_bit [OF rel, of "?o + i"] n that off_div_mod_8 [of off i] by simp
  qed
  moreover have "BitmapWordReader_NextTrailingByte r = Some (?r', val, 8)"
    using len n r cur by (simp add: BitmapWordReader_NextTrailingByte_def val_def)
  moreover have "wr_rel src (off + 8) (n - 8) 0 ?r'"
  proof -
    have "BytesForBits (?o + n) - 1 = BytesForBits (?o + (n - 8))"
      using n unfolding BytesForBits_eq by linarith
    moreover have "drop 1 ?b ! 0 = ?b ! 1" using len by simp
    moreover have "(off + 8) div 8 = Suc (off div 8)" by simp
    ultimately show ?thesis
      using rel n by (simp add: wr_rel_def drop_take add.commute)
  qed
  ultimately show ?thesis by blast
qed

section \<open>The word writer\<close>

text \<open>\<open>ww_rel buf pos n w\<close>: the writer \<open>w\<close> stands at bit \<open>pos\<close> of \<open>buf\<close> with \<open>n\<close> bits left to
  write; its current word holds the bits before \<open>pos\<close> in the byte it starts in.\<close>

definition ww_rel :: "byte list \<Rightarrow> nat \<Rightarrow> nat \<Rightarrow> BitmapWordWriter \<Rightarrow> bool" where
  "ww_rel buf pos n w \<longleftrightarrow>
     pos + n \<le> 8 * length buf \<and> ww_bitmap w = buf \<and> ww_offset w < 8 \<and>
     pos = 8 * ww_base w + ww_offset w \<and> ww_bitMask w = mask (ww_offset w) \<and>
     (0 < n \<longrightarrow> (\<forall>i<ww_offset w. bit (ww_currentWord w) i = bm_bit buf (8 * ww_base w + i)))"

lemma NewBitmapWordWriter_rel:
  assumes "pos + n \<le> 8 * length buf"
  shows "\<exists>w. NewBitmapWordWriter buf pos n = Some w \<and> ww_rel buf pos n w"
proof -
  let ?bm = "drop (pos div 8) buf"
  have le: "pos div 8 \<le> length buf" using assms by linarith
  have len: "8 \<le> length ?bm" if "64 \<le> n" using assms that unfolding length_drop by linarith
  have ne: "0 < length ?bm" if "0 < n" using assms that unfolding length_drop by linarith
  have lsb: "bit (setLSB 0 (?bm ! 0)) i = bm_bit ?bm i" if "0 < n" "i < 8" for i
    using that ne by (auto simp: setLSB_def bit_simps bm_bit_def)
  have msk: "2 ^ k - 1 = (mask k :: u64)" for k
    by (simp add: mask_eq_exp_minus_1)
  define cur where "cur = (if pos mod 8 \<noteq> 0 then if 64 \<le> n then word_of_bytes (take 8 ?bm)
      else if 0 < n then setLSB 0 (?bm ! 0) else 0 else (0::u64))"
  have "bit cur i = bm_bit buf (8 * (pos div 8) + i)" if "0 < n" "i < pos mod 8" for i
  proof -
    have "i < 8" using that(2) by (rule less_trans) simp
    then show ?thesis
      using that lsb [OF that(1), of i] by (simp add: cur_def bit_le_uint64 bm_simps del: drop_drop)
  qed
  then show ?thesis
    using assms le len ne by (auto simp: NewBitmapWordWriter_def ww_rel_def cur_def msk)
qed

lemma PutNextWord_rel:
  assumes rel: "ww_rel buf pos n w" and n: "128 \<le> n"
  shows "\<exists>w'. BitmapWordWriter_PutNextWord w word = Some w' \<and>
    length (ww_bitmap w') = length buf \<and> ww_rel (ww_bitmap w') (pos + 64) (n - 64) w' \<and>
    (\<forall>i. bm_bit (ww_bitmap w') i =
      (if pos \<le> i \<and> i < pos + 64 then bit word (i - pos) else bm_bit buf i))"
proof -
  define p where "p = ww_base w"
  define ob where "ob = ww_offset w"
  have w: "ob < 8" "pos = 8 * p + ob" "ww_bitMask w = mask ob" "ww_bitmap w = buf"
    and cur: "\<And>i. i < ob \<Longrightarrow> bit (ww_currentWord w) i = bm_bit buf (8 * p + i)"
    and len: "p + 16 \<le> length buf"
    using rel n by (auto simp: ww_rel_def p_def ob_def)
  define nxt where "nxt = (word_of_bytes (take 8 (drop (p + 8) buf)) :: u64)"
  define rot where "rot = push_bit ob word OR drop_bit (64 - ob) word"
  define c where "c = (ww_currentWord w AND mask ob) OR (rot AND NOT (mask ob))"
  define d where "d = (nxt AND NOT (mask ob)) OR (rot AND mask ob)"
  have rot: "bit rot i = (if i < ob then bit word (64 - ob + i) else bit word (i - ob))" if "i < 64" for i
    using that w(1) by (auto simp: rot_def bit_simps ac_simps dest: bit_imp_le_length)
  have c: "bit c i = (if i < ob then bm_bit buf (8 * p + i) else bit word (i - ob))" if "i < 64" for i
    using that cur rot [OF that] by (auto simp: c_def bit_simps)
  have d: "bit d i = (if i < ob then bit word (64 - ob + i) else bm_bit buf (8 * (p + 8) + i))" if "i < 64" for i
    using that rot [OF that] by (auto simp: d_def nxt_def bit_simps bit_le_uint64 bm_simps)
  show ?thesis
  proof (cases "ob = 0")
    case True
    define buf' where "buf' = blit buf p (bytes_of_word 8 word)"
    have "BitmapWordWriter_PutNextWord w word = Some (w\<lparr>ww_bitmap := buf', ww_base := p + 8\<rparr>)"
      using True w len unfolding ob_def
      by (simp add: BitmapWordWriter_PutNextWord_def put_uint64_def buf'_def p_def)
    moreover have "length buf' = length buf" using len by (simp add: buf'_def)
    moreover have "bm_bit buf' i = (if pos \<le> i \<and> i < pos + 64 then bit word (i - pos) else bm_bit buf i)" for i
      using len w(2) True by (auto simp: buf'_def bm_simps)
    ultimately show ?thesis using rel n True by (auto simp: ww_rel_def ob_def p_def)
  next
    case False
    define buf' where "buf' = blit (blit buf p (bytes_of_word 8 c)) (p + 8) (bytes_of_word 8 d)"
    let ?w' = "w\<lparr>ww_bitmap := buf', ww_base := p + 8, ww_currentWord := d\<rparr>"
    have "BitmapWordWriter_PutNextWord w word = Some ?w'"
      using False w len unfolding ob_def
      by (simp add: BitmapWordWriter_PutNextWord_def put_uint64_def buf'_def p_def c_def d_def
          rot_def nxt_def ob_def Let_def)
    moreover have len': "length buf' = length buf" using len by (simp add: buf'_def)
    moreover have bits: "bm_bit buf' i =
        (if pos \<le> i \<and> i < pos + 64 then bit word (i - pos) else bm_bit buf i)" for i
      using len w(1) by (auto simp: buf'_def w(2) bm_simps c d add.commute)
    moreover have "ww_rel buf' (pos + 64) (n - 64) ?w'"
      using rel n len' d by (auto simp: ww_rel_def ob_def p_def bits)
    ultimately show ?thesis by auto
  qed
qed

lemma PutNextTrailingByte_full:
  assumes rel: "ww_rel buf pos n w" and n: "8 \<le> n"
  shows "\<exists>w'. BitmapWordWriter_PutNextTrailingByte w b 8 = Some w' \<and>
    length (ww_bitmap w') = length buf \<and> ww_rel (ww_bitmap w') (pos + 8) (n - 8) w' \<and>
    (\<forall>i. bm_bit (ww_bitmap w') i =
      (if pos \<le> i \<and> i < pos + 8 then bit b (i - pos) else bm_bit buf i))"
proof -
  define p where "p = ww_base w"
  define ob where "ob = ww_offset w"
  have w: "ob < 8" "pos = 8 * p + ob" "ww_bitMask w = mask ob" "ww_bitmap w = buf"
    and cur: "\<And>i. i < ob \<Longrightarrow> bit (ww_currentWord w) i = bm_bit buf (8 * p + i)"
    and len: "p < length buf" "ob \<noteq> 0 \<Longrightarrow> p + 1 < length buf"
    using rel n by (auto simp: ww_rel_def p_def ob_def)
  define m where "m = (mask ob :: byte)"
  have m: "ucast (mask ob :: u64) = m"
    by (rule bit_word_eqI) (auto simp: m_def bit_simps)
  have in_byte: "8 * q \<le> i \<and> i < 8 * q + 8 \<longleftrightarrow> i div 8 = q" for q i :: nat by linarith
  have in_mod: "i - 8 * q = i mod 8" if "i div 8 = q" for q i :: nat
    using that by (auto simp: minus_mult_div_eq_mod)
  show ?thesis
  proof (cases "ob = 0")
    case True
    have "BitmapWordWriter_PutNextTrailingByte w b 8 = Some (w\<lparr>ww_bitmap := buf[p := b], ww_base := p + 1\<rparr>)"
      using True w len(1) unfolding ob_def
      by (simp add: BitmapWordWriter_PutNextTrailingByte_def p_def)
    moreover have "bm_bit (buf[p := b]) i = (if pos \<le> i \<and> i < pos + 8 then bit b (i - pos) else bm_bit buf i)" for i
      using len(1) True in_byte [of p i] unfolding w(2) by (auto simp: bm_bit_update minus_mult_div_eq_mod)
    ultimately show ?thesis using rel n True by (auto simp: ww_rel_def ob_def p_def)
  next
    case False
    define rot where "rot = push_bit ob b OR drop_bit (8 - ob) b"
    define c where "c = (getLSB (ww_currentWord w) AND m) OR (rot AND NOT m)"
    define d where "d = (buf ! (p + 1) AND NOT m) OR (rot AND m)"
    have rot: "bit rot i = (if i < ob then bit b (8 - ob + i) else bit b (i - ob))" if "i < 8" for i
      using that w(1) by (auto simp: rot_def bit_simps ac_simps dest: bit_imp_le_length)
    have c: "bit c i = (if i < ob then bm_bit buf (8 * p + i) else bit b (i - ob))" if "i < 8" for i
      using that cur rot [OF that] by (auto simp: c_def m_def getLSB_def bit_simps)
    have d: "bit d i = (if i < ob then bit b (8 - ob + i) else bm_bit buf (8 * p + 8 + i))" if "i < 8" for i
    proof -
      have "(8 * p + 8 + i) div 8 = p + 1" "(8 * p + 8 + i) mod 8 = i"
        using that mod_mult_self4 [of 8 "p + 1" i] by (simp_all add: div_add1_eq add.commute)
      then show ?thesis
        using that len(2) [OF False] rot [OF that] by (auto simp: d_def m_def bit_simps bm_bit_def)
    qed
    define buf' where "buf' = buf[p := c, p + 1 := d]"
    let ?w' = "w\<lparr>ww_bitmap := buf', ww_base := p + 1, ww_currentWord := ucast d\<rparr>"
    have "BitmapWordWriter_PutNextTrailingByte w b 8 = Some ?w'"
      using False w len(2) m unfolding ob_def
      by (simp add: BitmapWordWriter_PutNextTrailingByte_def buf'_def p_def c_def d_def rot_def
          ob_def Let_def)
    moreover have len': "length buf' = length buf" by (simp add: buf'_def)
    moreover have bits: "bm_bit buf' i =
        (if pos \<le> i \<and> i < pos + 8 then bit b (i - pos) else bm_bit buf i)" for i
    proof -
      have "bm_bit buf' i = (if 8 * (p + 1) \<le> i \<and> i < 8 * (p + 1) + 8 then bit d (i - 8 * (p + 1))
        else if 8 * p \<le> i \<and> i < 8 * p + 8 then bit c (i - 8 * p) else bm_bit buf i)"
        using len(2) [OF False]
        by (auto simp only: buf'_def bm_bit_update in_byte length_list_update
            in_mod split: if_splits)
      then show ?thesis using w(1) by (auto simp: w(2) c d add.commute)
    qed
    moreover have "ww_rel buf' (pos + 8) (n - 8) ?w'"
      using rel n len' d by (auto simp: ww_rel_def ob_def p_def bits bit_simps)
    ultimately show ?thesis by auto
  qed
qed

lemma PutNextTrailingByte_partial:
  assumes rel: "ww_rel buf pos n w" and n: "n < 8"
  shows "\<exists>w'. BitmapWordWriter_PutNextTrailingByte w b n = Some w' \<and>
    length (ww_bitmap w') = length buf \<and>
    (\<forall>i. bm_bit (ww_bitmap w') i =
      (if pos \<le> i \<and> i < pos + n then bit b (i - pos) else bm_bit buf i))"
proof -
  let ?p = "ww_base w" and ?ob = "ww_offset w"
  have w: "pos = 8 * ?p + ?ob" "ww_bitmap w = buf" and len: "pos + n \<le> 8 * length buf"
    using rel by (simp_all add: ww_rel_def)
  have p: "?p \<le> length buf" using len unfolding w(1) by linarith
  from len have "?ob + n \<le> 8 * length (drop ?p buf)" unfolding w(1) length_drop by linarith
  then obtain bs where bs: "write_bits (drop ?p buf) ?ob n (map (bit b) [0..<n]) = Some bs"
    and len_bs: "length bs = length (drop ?p buf)"
    and bits': "\<And>i. bm_bit bs i = (if ?ob \<le> i \<and> i < ?ob + n
      then map (bit b) [0..<n] ! (i - ?ob) else bm_bit (drop ?p buf) i)"
    using write_bits_eq [of ?ob n "drop ?p buf" "map (bit b) [0..<n]"] by auto
  then have bits: "bm_bit bs i = (if ?ob \<le> i \<and> i < ?ob + n then bit b (i - ?ob)
      else bm_bit (drop ?p buf) i)" for i by auto
  let ?w' = "w\<lparr>ww_bitmap := blit buf ?p bs\<rparr>"
  have "BitmapWordWriter_PutNextTrailingByte w b n = Some ?w'"
    using n bs p w(2)
    by (auto simp: BitmapWordWriter_PutNextTrailingByte_def write_bits_def put_trailing_loop_put_all
        Option.bind_eq_Some_conv)
  moreover have "bm_bit (blit buf ?p bs) i =
      (if pos \<le> i \<and> i < pos + n then bit b (i - pos) else bm_bit buf i)" for i
    using p len len_bs by (auto simp: bm_bit_blit bits bm_bit_drop w(1) bm_bit_beyond)
  ultimately show ?thesis using p by auto
qed

section \<open>The writer's steps as writes of a bit range\<close>

lemma PutNextWord_writes:
  assumes "ww_rel buf pos n w" "128 \<le> n"
  shows "\<exists>w'. BitmapWordWriter_PutNextWord w word = Some w' \<and>
    ww_rel (ww_bitmap w') (pos + 64) (n - 64) w' \<and> bm_writes buf pos 64 (bit word) (ww_bitmap w')"
  using PutNextWord_rel [OF assms, of word] unfolding bm_writes_def by blast

lemma PutNextTrailingByte_writes:
  assumes "ww_rel buf pos n w" "8 < n"
  shows "\<exists>w'. BitmapWordWriter_PutNextTrailingByte w b 8 = Some w' \<and>
    ww_rel (ww_bitmap w') (pos + 8) (n - 8) w' \<and> bm_writes buf pos 8 (bit b) (ww_bitmap w')"
  using PutNextTrailingByte_full [OF assms(1) less_imp_le, OF assms(2), of b]
  unfolding bm_writes_def by blast

lemma PutNextTrailingByte_last_writes:
  assumes "ww_rel buf pos n w" "n \<le> 8"
  shows "\<exists>w'. BitmapWordWriter_PutNextTrailingByte w b n = Some w' \<and>
    bm_writes buf pos n (bit b) (ww_bitmap w')"
proof (cases "n = 8")
  case True
  then show ?thesis
    using PutNextTrailingByte_full [OF assms(1), of b] unfolding bm_writes_def by auto
next
  case False
  with assms have "n < 8" by simp
  then show ?thesis
    using PutNextTrailingByte_partial [OF assms(1), of b] unfolding bm_writes_def by auto
qed

end
