(* ===== verification/Bitmap_Transfer.thy ===== *)
theory Bitmap_Transfer
  imports Bitmap_Words
begin

unbundle bit_operations_syntax

text \<open>
  Copying and inverting a bit range between bitmaps (\<^verbatim>\<open>transferBitmap\<close>, \<^verbatim>\<open>CopyBitmap\<close>,
  \<^verbatim>\<open>InvertBitmap\<close> of \<^verbatim>\<open>arrow/bitutil/bitmaps.go\<close>) and the bulk operation
  \<^verbatim>\<open>BitmapWriter.AppendBitmap\<close> on top of it. Source and destination are distinct slices.
\<close>

section \<open>Definitions\<close>

datatype transferMode = transferCopy | transferInvert

fun transfer_words_loop ::
  "transferMode \<Rightarrow> nat \<Rightarrow> BitmapWordReader \<Rightarrow> BitmapWordWriter \<Rightarrow> (BitmapWordReader \<times> BitmapWordWriter) option" where
  "transfer_words_loop mode 0 rdr wr = Some (rdr, wr)"
| "transfer_words_loop mode (Suc nwords) rdr wr =
     do { (rdr, word) \<leftarrow> BitmapWordReader_NextWord rdr;
          wr \<leftarrow> BitmapWordWriter_PutNextWord wr (if mode = transferInvert then NOT word else word);
          transfer_words_loop mode nwords rdr wr }"

fun transfer_bytes_loop ::
  "transferMode \<Rightarrow> nat \<Rightarrow> BitmapWordReader \<Rightarrow> BitmapWordWriter \<Rightarrow> (BitmapWordReader \<times> BitmapWordWriter) option" where
  "transfer_bytes_loop mode 0 rdr wr = Some (rdr, wr)"
| "transfer_bytes_loop mode (Suc nbytes) rdr wr =
     do { (rdr, bt, validBits) \<leftarrow> BitmapWordReader_NextTrailingByte rdr;
          wr \<leftarrow> BitmapWordWriter_PutNextTrailingByte wr
                  (if mode = transferInvert then NOT bt else bt) validBits;
          transfer_bytes_loop mode nbytes rdr wr }"

text \<open>The loop \<^verbatim>\<open>dst[i] = ^b\<close> over the source bytes.\<close>

fun invert_bytes_loop :: "byte list \<Rightarrow> nat \<Rightarrow> byte list \<Rightarrow> byte list option" where
  "invert_bytes_loop dst i [] = Some dst"
| "invert_bytes_loop dst i (b # bs) =
     do { dst \<leftarrow> upd dst i (NOT b); invert_bytes_loop dst (i + 1) bs }"

definition transferBitmap ::
  "transferMode \<Rightarrow> byte list \<Rightarrow> nat \<Rightarrow> nat \<Rightarrow> byte list \<Rightarrow> nat \<Rightarrow> byte list option" where
  "transferBitmap mode src srcOffset len dst dstOffset =
     (if len = 0 then Some dst
      else if srcOffset mod 8 \<noteq> 0 \<or> dstOffset mod 8 \<noteq> 0 then
        do { rdr \<leftarrow> NewBitmapWordReader src srcOffset len;
             wr \<leftarrow> NewBitmapWordWriter dst dstOffset len;
             (rdr, wr) \<leftarrow> transfer_words_loop mode (wr_nwords rdr) rdr wr;
             (rdr, wr) \<leftarrow> transfer_bytes_loop mode (wr_trailingBytes rdr) rdr wr;
             Some (ww_bitmap wr) }
      else
        do { let nbytes = BytesForBits len;
             src \<leftarrow> slice_from src (srcOffset div 8);
             dst1 \<leftarrow> slice_from dst (dstOffset div 8);
             let trailingBits = nbytes * 8 - len;
             let trailMask = (ucast (push_bit (8 - trailingBits) 1 :: u64) - 1 :: byte);
             body \<leftarrow> slice src 0 (nbytes - 1);
             dst2 \<leftarrow> (if mode = transferInvert then invert_bytes_loop dst1 0 body
                      else Some (blit dst1 0 body));
             lastb \<leftarrow> idx src (nbytes - 1);
             let lastData = (if mode = transferInvert then NOT lastb else lastb);
             d \<leftarrow> idx dst2 (nbytes - 1);
             dst3 \<leftarrow> upd dst2 (nbytes - 1) ((d AND NOT trailMask) OR (lastData AND trailMask));
             Some (blit dst (dstOffset div 8) dst3) })"

definition CopyBitmap :: "byte list \<Rightarrow> nat \<Rightarrow> nat \<Rightarrow> byte list \<Rightarrow> nat \<Rightarrow> byte list option" where
  "CopyBitmap src srcOffset len dst dstOffset =
     transferBitmap transferCopy src srcOffset len dst dstOffset"

definition InvertBitmap :: "byte list \<Rightarrow> nat \<Rightarrow> nat \<Rightarrow> byte list \<Rightarrow> nat \<Rightarrow> byte list option" where
  "InvertBitmap src srcOffset len dst dstOffset =
     transferBitmap transferInvert src srcOffset len dst dstOffset"

definition BitmapWriter_AppendBitmap ::
  "BitmapWriter \<Rightarrow> byte list \<Rightarrow> nat \<Rightarrow> nat \<Rightarrow> (BitmapWriter \<times> nat) option" where
  "BitmapWriter_AppendBitmap b srcBitmap srcOffset len =
     (let space = min (bw_length b - bw_pos b) len
      in if space = 0 then Some (b, 0)
         else do {
           let bitOffset = trailing_zeros (ucast (bw_bitMask b) :: u32);
           let dstOffset = bw_byteOffset b * 8 + bitOffset;
           buf \<leftarrow> upd (bw_buf b) (bw_byteOffset b) (bw_curByte b);
           buf \<leftarrow> CopyBitmap srcBitmap srcOffset space buf dstOffset;
           m \<leftarrow> idx BitMask ((bitOffset + space) mod 8);
           let b = b\<lparr>bw_buf := buf, bw_pos := bw_pos b + space, bw_bitMask := m,
                     bw_byteOffset := bw_byteOffset b + (bitOffset + space) div 8\<rparr>;
           let b = (if bw_byteOffset b < length (bw_buf b)
                    then b\<lparr>bw_curByte := bw_buf b ! bw_byteOffset b\<rparr> else b);
           Some (b, space) })"

section \<open>Transfer of a bit range\<close>

text \<open>What a transfer makes of one bit.\<close>

definition transfer_bit :: "transferMode \<Rightarrow> bool \<Rightarrow> bool" where
  "transfer_bit mode b = (if mode = transferInvert then \<not> b else b)"

lemma transfer_words_loop_writes:
  assumes "wr_rel src so n k r" "ww_rel buf pos n w"
  shows "\<exists>r' w'. transfer_words_loop mode k r w = Some (r', w') \<and>
    wr_rel src (so + 64 * k) (n - 64 * k) 0 r' \<and> wr_trailingBytes r' = wr_trailingBytes r \<and>
    ww_rel (ww_bitmap w') (pos + 64 * k) (n - 64 * k) w' \<and>
    bm_writes buf pos (64 * k) (\<lambda>i. transfer_bit mode (bm_bit src (so + i))) (ww_bitmap w')"
  using assms
proof (induction k arbitrary: so n r buf pos w)
  case 0
  then show ?case by (auto simp: ww_rel_def)
next
  case (Suc k)
  let ?f = "\<lambda>i. transfer_bit mode (bm_bit src (so + i))"
  have n: "128 \<le> n" using Suc.prems(1) by (simp add: wr_rel_def)
  from NextWord_rel [OF Suc.prems(1)] obtain r1 word where
    r1: "BitmapWordReader_NextWord r = Some (r1, word)" "wr_rel src (so + 64) (n - 64) k r1"
      "wr_trailingBytes r1 = wr_trailingBytes r"
    and word: "\<forall>i<64. bit word i = bm_bit src (so + i)" by auto
  define word' where "word' = (if mode = transferInvert then NOT word else word)"
  from PutNextWord_writes [OF Suc.prems(2) n, of word'] obtain w1 where
    w1: "BitmapWordWriter_PutNextWord w word' = Some w1"
      "ww_rel (ww_bitmap w1) (pos + 64) (n - 64) w1"
    and wr1: "bm_writes buf pos 64 (bit word') (ww_bitmap w1)" by auto
  have wr1: "bm_writes buf pos 64 ?f (ww_bitmap w1)"
    by (rule bm_writes_cong [OF wr1]) (use word in \<open>auto simp: word'_def transfer_bit_def bit_simps\<close>)
  from Suc.IH [OF r1(2) w1(2)] obtain r2 w2 where
    step: "transfer_words_loop mode k r1 w1 = Some (r2, w2)"
    and r2: "wr_rel src (so + 64 + 64 * k) (n - 64 - 64 * k) 0 r2" "wr_trailingBytes r2 = wr_trailingBytes r1"
    and w2: "ww_rel (ww_bitmap w2) (pos + 64 + 64 * k) (n - 64 - 64 * k) w2"
      "bm_writes (ww_bitmap w1) (pos + 64) (64 * k)
         (\<lambda>i. transfer_bit mode (bm_bit src (so + 64 + i))) (ww_bitmap w2)" by blast
  have "bm_writes buf pos (64 + 64 * k) ?f (ww_bitmap w2)"
    by (rule bm_writes_trans [OF wr1]) (use w2(2) in \<open>simp add: ac_simps\<close>)
  then show ?case
    using step r1 r2 w1 w2(1) by (auto simp: word'_def ac_simps)
qed

lemma transfer_bytes_loop_writes:
  assumes "wr_rel src so n 0 r" "ww_rel buf pos n w" "k = BytesForBits n"
  shows "\<exists>r' w'. transfer_bytes_loop mode k r w = Some (r', w') \<and>
    bm_writes buf pos n (\<lambda>i. transfer_bit mode (bm_bit src (so + i))) (ww_bitmap w')"
  using assms
proof (induction k arbitrary: so n r buf pos w)
  case 0
  then have "n = 0" unfolding BytesForBits_eq by linarith
  with 0 show ?case by (auto simp: ww_rel_def)
next
  case (Suc k)
  let ?f = "\<lambda>i. transfer_bit mode (bm_bit src (so + i))"
  show ?case
  proof (cases "n \<le> 8")
    case True
    have n: "0 < n" "k = 0" using Suc.prems(3) True unfolding BytesForBits_eq by linarith+
    from NextTrailingByte_last [OF Suc.prems(1) n(1) True] obtain r1 val where
      r1: "BitmapWordReader_NextTrailingByte r = Some (r1, val, n)"
      and val: "\<forall>i<8. bit val i \<longleftrightarrow> i < n \<and> bm_bit src (so + i)" by auto
    define val' where "val' = (if mode = transferInvert then NOT val else val)"
    from PutNextTrailingByte_last_writes [OF Suc.prems(2) True, of val'] obtain w1 where
      w1: "BitmapWordWriter_PutNextTrailingByte w val' n = Some w1"
      and wr1: "bm_writes buf pos n (bit val') (ww_bitmap w1)" by auto
    have "bm_writes buf pos n ?f (ww_bitmap w1)"
      by (rule bm_writes_cong [OF wr1])
        (use val True in \<open>auto simp: val'_def transfer_bit_def bit_simps\<close>)
    then show ?thesis using r1 w1 n by (auto simp: val'_def)
  next
    case False
    then have n: "8 < n" "k = BytesForBits (n - 8)"
      using Suc.prems(3) unfolding BytesForBits_eq by linarith+
    from NextTrailingByte_more [OF Suc.prems(1) n(1)] obtain r1 val where
      r1: "BitmapWordReader_NextTrailingByte r = Some (r1, val, 8)" "wr_rel src (so + 8) (n - 8) 0 r1"
      and val: "\<forall>i<8. bit val i = bm_bit src (so + i)" by auto
    define val' where "val' = (if mode = transferInvert then NOT val else val)"
    from PutNextTrailingByte_writes [OF Suc.prems(2) n(1), of val'] obtain w1 where
      w1: "BitmapWordWriter_PutNextTrailingByte w val' 8 = Some w1"
        "ww_rel (ww_bitmap w1) (pos + 8) (n - 8) w1"
      and wr1: "bm_writes buf pos 8 (bit val') (ww_bitmap w1)" by auto
    have wr1: "bm_writes buf pos 8 ?f (ww_bitmap w1)"
      by (rule bm_writes_cong [OF wr1]) (use val in \<open>auto simp: val'_def transfer_bit_def bit_simps\<close>)
    from Suc.IH [OF r1(2) w1(2) n(2)] obtain r2 w2 where
      step: "transfer_bytes_loop mode k r1 w1 = Some (r2, w2)"
      and w2: "bm_writes (ww_bitmap w1) (pos + 8) (n - 8)
         (\<lambda>i. transfer_bit mode (bm_bit src (so + 8 + i))) (ww_bitmap w2)" by blast
    have "bm_writes buf pos (8 + (n - 8)) ?f (ww_bitmap w2)"
      by (rule bm_writes_trans [OF wr1]) (use w2 in \<open>simp add: ac_simps\<close>)
    then show ?thesis using step r1 w1 n(1) by (auto simp: val'_def)
  qed
qed

lemma transferBitmap_unaligned:
  assumes "so + n \<le> 8 * length src" "pos + n \<le> 8 * length dst" "0 < n"
    and "so mod 8 \<noteq> 0 \<or> pos mod 8 \<noteq> 0"
  shows "\<exists>dst'. transferBitmap mode src so n dst pos = Some dst' \<and>
    bm_writes dst pos n (\<lambda>i. transfer_bit mode (bm_bit src (so + i))) dst'"
proof -
  let ?f = "\<lambda>i. transfer_bit mode (bm_bit src (so + i))"
  from NewBitmapWordReader_rel [OF assms(1)] obtain r where
    r: "NewBitmapWordReader src so n = Some r" "wr_rel src so n (wr_nwords r) r"
    and tb: "wr_trailingBytes r = BytesForBits (n - 64 * wr_nwords r)" by blast
  from NewBitmapWordWriter_rel [OF assms(2)] obtain w where
    w: "NewBitmapWordWriter dst pos n = Some w" "ww_rel dst pos n w" by blast
  let ?k = "64 * wr_nwords r"
  from transfer_words_loop_writes [OF r(2) w(2), of mode] obtain r1 w1 where
    s1: "transfer_words_loop mode (wr_nwords r) r w = Some (r1, w1)"
    and r1: "wr_rel src (so + ?k) (n - ?k) 0 r1" "wr_trailingBytes r1 = wr_trailingBytes r"
    and w1: "ww_rel (ww_bitmap w1) (pos + ?k) (n - ?k) w1" "bm_writes dst pos ?k ?f (ww_bitmap w1)"
    by blast
  from transfer_bytes_loop_writes [OF r1(1) w1(1) refl, of mode] obtain r2 w2 where
    s2: "transfer_bytes_loop mode (BytesForBits (n - ?k)) r1 w1 = Some (r2, w2)"
    and w2: "bm_writes (ww_bitmap w1) (pos + ?k) (n - ?k)
      (\<lambda>i. transfer_bit mode (bm_bit src (so + ?k + i))) (ww_bitmap w2)" by blast
  have "?k \<le> n" using r(2) by (simp add: wr_rel_def)
  then have "bm_writes dst pos n ?f (ww_bitmap w2)"
    using bm_writes_trans [OF w1(2), of "n - ?k" "ww_bitmap w2"] w2 by (simp add: ac_simps)
  moreover have "transferBitmap mode src so n dst pos = Some (ww_bitmap w2)"
    using assms(3,4) r(1) w(1) s1 s2 r1(2) tb by (auto simp: transferBitmap_def)
  ultimately show ?thesis by blast
qed

lemma invert_bytes_loop_eq:
  "i + length bs \<le> length dst \<Longrightarrow> invert_bytes_loop dst i bs = Some (blit dst i (map (\<lambda>b. NOT b) bs))"
proof (induction bs arbitrary: dst i)
  case (Cons b bs)
  then have "invert_bytes_loop dst i (b # bs) = Some (blit (dst[i := NOT b]) (i + 1) (map (\<lambda>b. NOT b) bs))"
    by simp
  also have "blit (dst[i := NOT b]) (i + 1) (map (\<lambda>b. NOT b) bs) = blit dst i (map (\<lambda>b. NOT b) (b # bs))"
    using Cons.prems by (intro nth_equalityI) (auto simp: nth_blit nth_Cons' nth_list_update)
  finally show ?case .
qed simp

lemma trailMask_eq:
  assumes "n \<le> 8"
  shows "ucast (push_bit n 1 :: u64) - 1 = (mask n :: byte)"
proof -
  have "ucast (2 ^ n :: u64) = (2 ^ n :: byte)"
    using assms by (auto simp: word_eq_bits_iff bit_simps)
  then show ?thesis by (simp add: mask_eq_exp_minus_1)
qed

lemma transferBitmap_aligned:
  assumes so: "8 * p + n \<le> 8 * length src" and pos: "8 * q + n \<le> 8 * length dst" and n: "0 < n"
  shows "\<exists>dst'. transferBitmap mode src (8 * p) n dst (8 * q) = Some dst' \<and>
    bm_writes dst (8 * q) n (\<lambda>i. transfer_bit mode (bm_bit src (8 * p + i))) dst'"
proof -
  define k where "k = BytesForBits n - 1"
  define s where "s = drop p src"
  define d where "d = drop q dst"
  define flip where "flip = (\<lambda>b :: byte. if mode = transferInvert then NOT b else b)"
  have flip: "bit (flip b) i = transfer_bit mode (bit b i)" if "i < 8" for b i
    using that by (simp add: flip_def transfer_bit_def bit_simps)
  have k: "BytesForBits n = k + 1" "8 * k < n" "n \<le> 8 * k + 8"
    using n unfolding k_def BytesForBits_eq by linarith+
  have len: "k < length s" "k < length d" using so pos k unfolding s_def d_def length_drop by linarith+
  define d1 where "d1 = blit d 0 (map flip (take k s))"
  define d2 where "d2 = d1[k := (d1 ! k AND NOT (mask (n - 8 * k))) OR (flip (s ! k) AND mask (n - 8 * k))]"
  have len1: "length d1 = length d" using len by (simp add: d1_def)
  have bit1: "bm_bit d1 i = (if i < 8 * k then transfer_bit mode (bm_bit s i) else bm_bit d i)" for i
    using len by (auto simp: d1_def bm_bit_blit min_absorb2 bm_bit_take
        bm_bit_map [where g = "transfer_bit mode", OF flip])
  have "bm_writes d 0 n (\<lambda>i. transfer_bit mode (bm_bit s i)) d2"
  proof -
    have "bm_bit d2 i = (if i < n then transfer_bit mode (bm_bit s i) else bm_bit d i)" for i
    proof (cases "8 * k \<le> i \<and> i < 8 * k + 8")
      case True
      then show ?thesis
        using len len1 k
        by (auto simp: d2_def bm_bit_update_range bit_simps flip bm_bit_in_byte bit1)
    next
      case False
      then show ?thesis using k by (auto simp: d2_def bm_bit_update_range bit1)
    qed
    then show ?thesis by (simp add: bm_writes_def d2_def len1)
  qed
  then have "bm_writes dst (8 * q + 0) n (\<lambda>i. transfer_bit mode (bm_bit s i)) (blit dst q d2)"
    using pos unfolding d_def by (intro bm_writes_blit) auto
  moreover have "transferBitmap mode src (8 * p) n dst (8 * q) = Some (blit dst q d2)"
  proof -
    have m: "8 - (8 + k * 8 - n) = n - 8 * k" "n - 8 * k \<le> 8" using k by auto
    have body: "(if mode = transferInvert then invert_bytes_loop d 0 (take k s)
        else Some (blit d 0 (take k s))) = Some d1"
      using len by (simp add: d1_def flip_def invert_bytes_loop_eq)
    have "p \<le> length src" "q \<le> length dst" "k \<le> length s" using so pos len by linarith+
    then show ?thesis
      using n len len1
      by (simp add: transferBitmap_def k(1) Let_def m trailMask_eq body flip_def d2_def del: push_bit_of_1
          flip: s_def d_def)
  qed
  ultimately show ?thesis by (auto simp: s_def bm_bit_drop)
qed

theorem transferBitmap_writes:
  assumes "so + n \<le> 8 * length src" "pos + n \<le> 8 * length dst"
  shows "\<exists>dst'. transferBitmap mode src so n dst pos = Some dst' \<and>
    bm_writes dst pos n (\<lambda>i. transfer_bit mode (bm_bit src (so + i))) dst'"
proof (cases "n = 0")
  case True
  then show ?thesis by (simp add: transferBitmap_def)
next
  case False
  show ?thesis
  proof (cases "so mod 8 \<noteq> 0 \<or> pos mod 8 \<noteq> 0")
    case True
    then show ?thesis using transferBitmap_unaligned [OF assms] False by blast
  next
    case aligned: False
    then obtain p q where "so = 8 * p" "pos = 8 * q" by (auto simp: mod_eq_0_iff_dvd dvd_def)
    then show ?thesis using transferBitmap_aligned [of p n src q dst mode] assms False by simp
  qed
qed

lemma CopyBitmap_writes:
  assumes "so + n \<le> 8 * length src" "pos + n \<le> 8 * length dst"
  shows "\<exists>dst'. CopyBitmap src so n dst pos = Some dst' \<and>
    bm_writes dst pos n (\<lambda>i. bm_bit src (so + i)) dst'"
  using transferBitmap_writes [OF assms, of transferCopy] by (simp add: CopyBitmap_def transfer_bit_def)

lemma InvertBitmap_writes:
  assumes "so + n \<le> 8 * length src" "pos + n \<le> 8 * length dst"
  shows "\<exists>dst'. InvertBitmap src so n dst pos = Some dst' \<and>
    bm_writes dst pos n (\<lambda>i. \<not> bm_bit src (so + i)) dst'"
  using transferBitmap_writes [OF assms, of transferInvert] by (simp add: InvertBitmap_def transfer_bit_def)

section \<open>Appending to a BitmapWriter\<close>

lemma trailing_zeros_bitMask: "k < 8 \<Longrightarrow> trailing_zeros (ucast (2 ^ k :: byte) :: u32) = k"
  by (rule trailing_zeros_eqI) (auto simp: bit_simps)

lemma bw_view_pending:
  assumes "bw_inv start w" "bw_pos w < bw_length w"
  shows "bw_view w = (bw_buf w)[(start + bw_pos w) div 8 := bw_curByte w]"
    "(start + bw_pos w) div 8 < length (bw_buf w)"
  using assms by (simp_all add: bw_view_def bw_inv_def div8_less_iff)

lemma append_offset: "(m div 8) + (m mod 8 + k) div 8 = (m + k) div 8" "(m mod 8 + k) mod 8 = (m + k) mod 8"
  for m k :: nat
proof -
  have "m + k = 8 * (m div 8) + (m mod 8 + k)" by simp
  then have "(m + k) div 8 = (8 * (m div 8) + (m mod 8 + k)) div 8" by simp
  then show "(m div 8) + (m mod 8 + k) div 8 = (m + k) div 8" by (simp only: div_mult_self4 numeral_eq_iff)
  show "(m mod 8 + k) mod 8 = (m + k) mod 8" by (simp add: mod_simps)
qed

lemma BytesForBits_partial: "n mod 8 \<noteq> 0 \<Longrightarrow> BytesForBits n = n div 8 + 1"
proof -
  assume "n mod 8 \<noteq> 0"
  moreover have "n mod 8 < 8" "n = 8 * (n div 8) + n mod 8" by simp_all
  ultimately show ?thesis unfolding BytesForBits_eq by linarith
qed

lemma AppendBitmap_writes:
  assumes inv: "bw_inv start w" and space: "space = min (bw_length w - bw_pos w) n"
    and src: "so + space \<le> 8 * length src"
  shows "\<exists>w'. BitmapWriter_AppendBitmap w src so n = Some (w', space) \<and> bw_inv start w' \<and>
    bw_pos w' = bw_pos w + space \<and> bw_length w' = bw_length w \<and>
    bm_writes (bw_view w) (start + bw_pos w) space (\<lambda>i. bm_bit src (so + i)) (bw_view w')"
proof (cases "space = 0")
  case True
  then show ?thesis using inv space by (auto simp: BitmapWriter_AppendBitmap_def)
next
  case False
  let ?m = "start + bw_pos w"
  have pos: "bw_pos w < bw_length w" using False space by auto
  note pend = bw_view_pending [OF inv pos]
  have w: "bw_byteOffset w = ?m div 8" "bw_bitMask w = 2 ^ (?m mod 8)" using inv by (simp_all add: bw_inv_def)
  have len: "?m + space \<le> 8 * length (bw_view w)"
    using inv pos space by (auto simp: pend(1) bw_inv_def)
  from CopyBitmap_writes [OF src len] obtain buf' where
    buf': "CopyBitmap src so space (bw_view w) ?m = Some buf'"
    and wr: "bm_writes (bw_view w) ?m space (\<lambda>i. bm_bit src (so + i)) buf'" by blast
  have len': "length buf' = length (bw_buf w)" using bm_writes_length [OF wr] by (simp add: pend(1))
  have off: "?m div 8 * 8 + ?m mod 8 = ?m" by simp
  define w1 where "w1 = w\<lparr>bw_buf := buf', bw_pos := bw_pos w + space,
    bw_bitMask := 2 ^ ((?m + space) mod 8), bw_byteOffset := (?m + space) div 8\<rparr>"
  define w2 where "w2 = (if bw_byteOffset w1 < length (bw_buf w1)
    then w1\<lparr>bw_curByte := bw_buf w1 ! bw_byteOffset w1\<rparr> else w1)"
  have "BitmapWriter_AppendBitmap w src so n = Some (w2, space)"
    using False buf' pend(2)
    by (simp add: BitmapWriter_AppendBitmap_def trailing_zeros_bitMask w off append_offset
        mask_nth Let_def pend(1) w1_def w2_def flip: space)
  moreover have "bw_inv start w2"
    using inv space len' by (auto simp: w2_def w1_def bw_inv_def add.assoc)
  moreover have "bw_view w2 = buf'"
    by (auto simp: bw_view_def w2_def w1_def list_update_beyond)
  ultimately show ?thesis using wr by (auto simp: w2_def w1_def)
qed

lemma append_bools_loop_writes:
  "i + length vs \<le> 8 * length app \<Longrightarrow>
   \<exists>app'. append_bools_loop app i vs = Some app' \<and> bm_writes app i (length vs) (\<lambda>j. vs ! j) app'"
proof (induction vs arbitrary: app i)
  case (Cons v vs)
  from Cons.prems obtain app1 where app1: "SetBitTo app i v = Some app1" "length app1 = length app"
      "\<And>j. bm_bit app1 j = (if j = i then v else bm_bit app j)"
    using SetBitTo_eq [of i app v] by auto
  with Cons.prems obtain app2 where app2: "append_bools_loop app1 (i + 1) vs = Some app2"
      "bm_writes app1 (i + 1) (length vs) (\<lambda>j. vs ! j) app2"
    using Cons.IH [of "i + 1" app1] by auto
  have "bm_writes app i 1 (\<lambda>j. (v # vs) ! j) app1"
    using app1 by (auto simp: bm_writes_def)
  then have "bm_writes app i (1 + length vs) (\<lambda>j. (v # vs) ! j) app2"
    by (rule bm_writes_trans) (use app2(2) in simp)
  then show ?case using app1(1) app2(1) by (auto simp: SetBitTo_def)
qed simp

text \<open>\<^verbatim>\<open>AppendBools\<close> agrees with writing the bits one by one as long as the append does not end
  on a byte boundary before the end of the range.\<close>

lemma AppendBools_writes:
  assumes inv: "bw_inv start w" and space: "space = min (bw_length w - bw_pos w) (length vs)"
    and boundary: "(start + bw_pos w + space) mod 8 \<noteq> 0 \<or> bw_pos w + space = bw_length w"
  shows "\<exists>w'. BitmapWriter_AppendBools w vs = Some (w', space) \<and> bw_inv start w' \<and>
    bw_pos w' = bw_pos w + space \<and> bw_length w' = bw_length w \<and>
    bm_writes (bw_view w) (start + bw_pos w) space (\<lambda>i. vs ! i) (bw_view w')"
proof (cases "space = 0")
  case True
  then show ?thesis using inv space by (auto simp: BitmapWriter_AppendBools_def)
next
  case False
  let ?m = "start + bw_pos w" and ?e = "start + bw_pos w + space"
  define q where "q = ?m div 8"
  define r where "r = ?m mod 8"
  have pos: "bw_pos w < bw_length w" using False space by auto
  note pend = bw_view_pending [OF inv pos, folded q_def]
  have w: "bw_byteOffset w = q" "bw_bitMask w = 2 ^ r" using inv by (simp_all add: bw_inv_def q_def r_def)
  have m: "?m = 8 * q + r" "r < 8" by (simp_all add: q_def r_def)
  have len: "?e \<le> 8 * length (bw_buf w)" using inv space by (auto simp: bw_inv_def)
  define nb where "nb = BytesForBits (r + space)"
  have nb: "0 < nb" "r + space \<le> 8 * nb" "q + nb \<le> length (bw_buf w)"
    using False len m(1) unfolding nb_def BytesForBits_eq by linarith+
  define app where "app = (take nb (drop q (bw_buf w)))[0 := bw_curByte w]"
  have app: "app = take nb (drop q (bw_view w))" "length app = nb"
    using pend nb by (auto simp: app_def drop_update_swap take_update_swap)
  have "r + length (take space vs) \<le> 8 * length app" using nb(2) app(2) space by simp
  from append_bools_loop_writes [OF this] obtain app' where
    app': "append_bools_loop app r (take space vs) = Some app'"
    and wr: "bm_writes app r (length (take space vs)) (\<lambda>j. take space vs ! j) app'" by blast
  have wr: "bm_writes app r space (\<lambda>j. vs ! j) app'"
    using bm_writes_cong [OF wr, of "\<lambda>j. vs ! j"] space by simp
  have len': "length app' = nb" using bm_writes_length [OF wr] app(2) by simp
  define w' where "w' = w\<lparr>bw_buf := blit (bw_buf w) q app', bw_pos := bw_pos w + space,
    bw_bitMask := 2 ^ (?e mod 8), bw_byteOffset := ?e div 8, bw_curByte := app' ! (nb - 1)\<rparr>"
  have "BitmapWriter_AppendBools w vs = Some (w', space)"
    using False nb app' len'
    by (simp add: BitmapWriter_AppendBools_def trailing_zeros_bitMask w m(2) Let_def mask_nth w'_def
        append_offset [of ?m, folded q_def r_def] flip: space nb_def app_def)
  moreover have "bw_inv start w'"
    using inv space nb len' by (auto simp: w'_def bw_inv_def add.assoc)
  moreover have "bw_view w' = blit (bw_buf w) q app'"
  proof (cases "?e mod 8 = 0")
    case True
    then show ?thesis using boundary by (auto simp: bw_view_def w'_def)
  next
    case False
    then have "(r + space) mod 8 \<noteq> 0" using append_offset(2) [of ?m space] by (simp add: r_def)
    then have "BytesForBits (r + space) = (r + space) div 8 + 1" by (rule BytesForBits_partial)
    then have e: "?e div 8 = q + (nb - 1)"
      using append_offset(1) [of ?m space] by (simp add: nb_def q_def r_def)
    have lt: "q + (nb - 1) < length (bw_buf w)" "q + length app' \<le> length (bw_buf w)" "nb - 1 < length app'"
      using nb len' by linarith+
    then have "blit (bw_buf w) q app' ! (?e div 8) = app' ! (nb - 1)" "?e div 8 < length (bw_buf w)"
      unfolding e nth_blit [OF lt(2,1)] by (simp_all only: add_diff_cancel_left' le_add1 nat_add_left_cancel_less simp_thms if_True)
    then show ?thesis using nb by (auto simp: bw_view_def w'_def list_update_same_conv)
  qed
  moreover have "bm_writes (bw_view w) ?m space (\<lambda>i. vs ! i) (blit (bw_buf w) q app')"
    using nb m pend wr
    by (auto simp: bm_writes_def bm_bit_blit app(1) bm_bit_take bm_bit_drop bm_bit_update_range len')
  ultimately show ?thesis by (auto simp: w'_def)
qed

section \<open>Properties\<close>

text \<open>C10: \<^verbatim>\<open>CopyBitmap\<close> copies a bit range from any source offset to any destination offset,
  through the byte-aligned fast path or the word reader and writer, and preserves every other bit of
  the destination.\<close>

theorem CopyBitmap_copies:
  assumes "srcOffset + n \<le> 8 * length src" "dstOffset + n \<le> 8 * length dst"
  shows "\<exists>dst'. CopyBitmap src srcOffset n dst dstOffset = Some dst' \<and>
    bm_writes dst dstOffset n (\<lambda>i. bm_bit src (srcOffset + i)) dst'"
  using CopyBitmap_writes [OF assms] .

theorem CopyBitmap_copies_witness:
  "\<exists>dst'. CopyBitmap (replicate 20 170) 3 150 (replicate 20 255) 5 = Some dst' \<and>
     bm_writes (replicate 20 255) 5 150 (\<lambda>i. bm_bit (replicate 20 170) (3 + i)) dst'"
  using CopyBitmap_copies [of 3 150 "replicate 20 170" 5 "replicate 20 255"] by simp

text \<open>C21: \<^verbatim>\<open>InvertBitmap\<close> writes the complement of the source range and preserves every other
  bit of the destination.\<close>

theorem InvertBitmap_inverts:
  assumes "srcOffset + n \<le> 8 * length src" "dstOffset + n \<le> 8 * length dst"
  shows "\<exists>dst'. InvertBitmap src srcOffset n dst dstOffset = Some dst' \<and>
    bm_writes dst dstOffset n (\<lambda>i. \<not> bm_bit src (srcOffset + i)) dst'"
  using InvertBitmap_writes [OF assms] .

theorem InvertBitmap_inverts_witness:
  "\<exists>dst'. InvertBitmap [170, 85] 8 5 [255, 255] 0 = Some dst' \<and>
     bm_writes [255, 255] 0 5 (\<lambda>i. \<not> bm_bit [170, 85] (8 + i)) dst'"
  using InvertBitmap_inverts [of 8 5 "[170, 85]" 0 "[255, 255]"] by simp

text \<open>C22: \<^verbatim>\<open>AppendBitmap\<close> on a writer in the middle of its range appends as many source bits
  as there is room for, keeps the writer's invariant, and what \<^verbatim>\<open>Finish\<close> would store is the
  buffer with exactly those bits written.\<close>

theorem AppendBitmap_appends:
  assumes "bw_inv start w" "srcOffset + min (bw_length w - bw_pos w) n \<le> 8 * length src"
  shows "\<exists>w' space. BitmapWriter_AppendBitmap w src srcOffset n = Some (w', space) \<and>
    space = min (bw_length w - bw_pos w) n \<and> bw_inv start w' \<and> bw_pos w' = bw_pos w + space \<and>
    bm_writes (bw_view w) (start + bw_pos w) space (\<lambda>i. bm_bit src (srcOffset + i)) (bw_view w')"
  using AppendBitmap_writes [OF assms(1) refl assms(2)] by blast

theorem AppendBitmap_appends_witness:
  "\<exists>w' space. BitmapWriter_AppendBitmap
       \<lparr>bw_buf = [0, 0], bw_pos = 2, bw_length = 9, bw_curByte = 3, bw_bitMask = 4, bw_byteOffset = 0\<rparr>
       [255, 1] 4 5 = Some (w', space) \<and> space = 5"
  using AppendBitmap_appends [of 0 "\<lparr>bw_buf = [0, 0], bw_pos = 2, bw_length = 9, bw_curByte = 3,
      bw_bitMask = 4, bw_byteOffset = 0\<rparr>" 4 5 "[255, 1]"]
  by (auto simp: bw_inv_def)

text \<open>An append of \<^verbatim>\<open>AppendBools\<close> that ends on a byte boundary inside the range leaves the previous byte in \<^verbatim>\<open>curByte\<close>, and
  \<^verbatim>\<open>Finish\<close> stores it over the next byte of the buffer. An instance, eight bits into a range of twelve, beside what writing the bits
  one by one gives.\<close>

theorem AppendBools_boundary_clobbers:
  "do { w \<leftarrow> NewBitmapWriter [0, 0] 0 12;
        (w, n) \<leftarrow> BitmapWriter_AppendBools w (replicate 8 True);
        w \<leftarrow> BitmapWriter_Finish w; Some (bw_buf w, n) } = Some ([255, 255], 8) \<and>
   write_bits [0, 0] 0 12 (replicate 8 True) = Some [255, 0]"
  by code_simp

end
