(* ===== verification/Bitmap_Ops.thy ===== *)
theory Bitmap_Ops
  imports Bitmap_Transfer
begin

unbundle bit_operations_syntax

text \<open>
  The binary bitmap operations of \<^verbatim>\<open>arrow/bitutil/bitmaps.go\<close> with their word loops in
  \<^verbatim>\<open>arrow/bitutil/bitmap_ops.go\<close>, and bitmap equality. The output is a slice of its own. An operation
  is a \<^verbatim>\<open>bitOp\<close>, a triple of a word function, a byte function and a slice function; what
  \<^verbatim>\<open>BitmapOp\<close> needs of it is the locale \<open>bit_op\<close>, which the five operations of the code satisfy.
\<close>

section \<open>The word loops of bitmap\_ops.go\<close>

text \<open>\<^verbatim>\<open>for ; i < n; i++ { out[i] = left[i] op right[i] }\<close>\<close>

fun op_loop :: "('a \<Rightarrow> 'a \<Rightarrow> 'a) \<Rightarrow> 'a list \<Rightarrow> 'a list \<Rightarrow> nat \<Rightarrow> nat \<Rightarrow> 'a list \<Rightarrow> 'a list option" where
  "op_loop op left right i 0 out = Some out"
| "op_loop op left right i (Suc k) out =
     do { a \<leftarrow> idx left i; b \<leftarrow> idx right i; out \<leftarrow> upd out i (op a b);
          op_loop op left right (i + 1) k out }"

definition uint64ToBytes :: "u64 list \<Rightarrow> byte list" where
  "uint64ToBytes ws = concat (map (bytes_of_word 8) ws)"

text \<open>The body that the five \<^verbatim>\<open>alignedBit...Go\<close> functions share, with the operator on words
  and on bytes as arguments. \<^verbatim>\<open>outWords\<close> aliases \<^verbatim>\<open>out\<close>.\<close>

definition alignedBitGo ::
  "(u64 \<Rightarrow> u64 \<Rightarrow> u64) \<Rightarrow> (byte \<Rightarrow> byte \<Rightarrow> byte) \<Rightarrow>
   byte list \<Rightarrow> byte list \<Rightarrow> byte list \<Rightarrow> byte list option" where
  "alignedBitGo opw opb left right out =
     (let nbytes = length out
      in do { (out, i) \<leftarrow>
                (if nbytes > uint64SizeBytes then
                   do { outWords \<leftarrow> op_loop opw (bytesToUint64 left) (bytesToUint64 right) 0
                                      (length (bytesToUint64 out)) (bytesToUint64 out);
                        Some (blit out 0 (uint64ToBytes outWords), length outWords * uint64SizeBytes) }
                 else Some (out, 0));
              op_loop opb left right i (nbytes - i) out })"

definition alignedBitAndGo :: "byte list \<Rightarrow> byte list \<Rightarrow> byte list \<Rightarrow> byte list option" where
  "alignedBitAndGo = alignedBitGo (\<lambda>l r. l AND r) (\<lambda>l r. l AND r)"

definition alignedBitAndNotGo :: "byte list \<Rightarrow> byte list \<Rightarrow> byte list \<Rightarrow> byte list option" where
  "alignedBitAndNotGo = alignedBitGo (\<lambda>l r. l AND NOT r) (\<lambda>l r. l AND NOT r)"

definition alignedBitOrGo :: "byte list \<Rightarrow> byte list \<Rightarrow> byte list \<Rightarrow> byte list option" where
  "alignedBitOrGo = alignedBitGo (\<lambda>l r. l OR r) (\<lambda>l r. l OR r)"

definition alignedBitXorGo :: "byte list \<Rightarrow> byte list \<Rightarrow> byte list \<Rightarrow> byte list option" where
  "alignedBitXorGo = alignedBitGo (\<lambda>l r. l XOR r) (\<lambda>l r. l XOR r)"

definition alignedBitXnorGo :: "byte list \<Rightarrow> byte list \<Rightarrow> byte list \<Rightarrow> byte list option" where
  "alignedBitXnorGo = alignedBitGo (\<lambda>l r. NOT (l XOR r)) (\<lambda>l r. NOT (l XOR r))"

section \<open>bitOp and BitmapOp\<close>

record bitOp =
  opWord :: "u64 \<Rightarrow> u64 \<Rightarrow> u64"
  opByte :: "byte \<Rightarrow> byte \<Rightarrow> byte"
  opAligned :: "byte list \<Rightarrow> byte list \<Rightarrow> byte list \<Rightarrow> byte list option"

definition bitAndOp :: bitOp where
  "bitAndOp = \<lparr>opWord = \<lambda>l r. l AND r, opByte = \<lambda>l r. l AND r, opAligned = alignedBitAndGo\<rparr>"

definition bitOrOp :: bitOp where
  "bitOrOp = \<lparr>opWord = \<lambda>l r. l OR r, opByte = \<lambda>l r. l OR r, opAligned = alignedBitOrGo\<rparr>"

definition bitAndNotOp :: bitOp where
  "bitAndNotOp = \<lparr>opWord = \<lambda>l r. l AND NOT r, opByte = \<lambda>l r. l AND NOT r, opAligned = alignedBitAndNotGo\<rparr>"

definition bitXorOp :: bitOp where
  "bitXorOp = \<lparr>opWord = \<lambda>l r. l XOR r, opByte = \<lambda>l r. l XOR r, opAligned = alignedBitXorGo\<rparr>"

definition bitXnorOp :: bitOp where
  "bitXnorOp = \<lparr>opWord = \<lambda>l r. NOT (l XOR r), opByte = \<lambda>l r. NOT (l XOR r),
     opAligned = alignedBitXnorGo\<rparr>"

text \<open>\<^verbatim>\<open>out[k] = (out[k] & mask) | (op.opByte(left[k], right[k]) &^ mask)\<close>\<close>

definition merge_op_byte ::
  "bitOp \<Rightarrow> byte list \<Rightarrow> byte list \<Rightarrow> nat \<Rightarrow> byte \<Rightarrow> byte list \<Rightarrow> byte list option" where
  "merge_op_byte op left right k m out =
     do { o1 \<leftarrow> idx out k; l \<leftarrow> idx left k; r \<leftarrow> idx right k;
          upd out k (merge_byte o1 (opByte op l r) m) }"

definition alignedBitmapOp ::
  "bitOp \<Rightarrow> byte list \<Rightarrow> byte list \<Rightarrow> nat \<Rightarrow> nat \<Rightarrow> byte list \<Rightarrow> nat \<Rightarrow> nat \<Rightarrow> byte list option" where
  "alignedBitmapOp op left right lOffset rOffset out outOffset len =
     do { let nbytes = BytesForBits (len + lOffset mod 8);
          left \<leftarrow> slice_from left (lOffset div 8);
          right \<leftarrow> slice_from right (rOffset div 8);
          out1 \<leftarrow> slice_from out (outOffset div 8);
          let endMask = (lOffset + len) mod 8;
          out2 \<leftarrow>
            (if nbytes = 0 then Some out1
             else if nbytes = 1 then
               do { m \<leftarrow> idx PrecedingBitmask (lOffset mod 8);
                    m \<leftarrow> (if endMask \<noteq> 0
                          then do { t \<leftarrow> idx TrailingBitmask ((lOffset + len) mod 8); Some (m OR t) }
                          else Some m);
                    merge_op_byte op left right 0 m out1 }
             else if nbytes = 2 then
               do { firstByteMask \<leftarrow> idx PrecedingBitmask (lOffset mod 8);
                    out1 \<leftarrow> merge_op_byte op left right 0 firstByteMask out1;
                    lastByteMask \<leftarrow> (if endMask \<noteq> 0 then idx TrailingBitmask ((lOffset + len) mod 8)
                                     else Some 0);
                    merge_op_byte op left right 1 lastByteMask out1 }
             else
               do { firstByteMask \<leftarrow> idx PrecedingBitmask (lOffset mod 8);
                    out1 \<leftarrow> merge_op_byte op left right 0 firstByteMask out1;
                    l \<leftarrow> slice left 1 (nbytes - 1);
                    r \<leftarrow> slice right 1 (nbytes - 1);
                    o1 \<leftarrow> slice out1 1 (nbytes - 1);
                    o2 \<leftarrow> opAligned op l r o1;
                    let out1 = blit out1 1 o2;
                    lastByteMask \<leftarrow> (if endMask \<noteq> 0 then idx TrailingBitmask ((lOffset + len) mod 8)
                                     else Some 0);
                    merge_op_byte op left right (nbytes - 1) lastByteMask out1 });
          Some (blit out (outOffset div 8) out2) }"

fun op_words_loop ::
  "bitOp \<Rightarrow> nat \<Rightarrow> BitmapWordReader \<Rightarrow> BitmapWordReader \<Rightarrow> BitmapWordWriter \<Rightarrow>
   (BitmapWordReader \<times> BitmapWordReader \<times> BitmapWordWriter) option" where
  "op_words_loop op 0 leftRdr rightRdr writer = Some (leftRdr, rightRdr, writer)"
| "op_words_loop op (Suc nwords) leftRdr rightRdr writer =
     do { (leftRdr, lw) \<leftarrow> BitmapWordReader_NextWord leftRdr;
          (rightRdr, rw) \<leftarrow> BitmapWordReader_NextWord rightRdr;
          writer \<leftarrow> BitmapWordWriter_PutNextWord writer (opWord op lw rw);
          op_words_loop op nwords leftRdr rightRdr writer }"

fun op_bytes_loop ::
  "bitOp \<Rightarrow> nat \<Rightarrow> BitmapWordReader \<Rightarrow> BitmapWordReader \<Rightarrow> BitmapWordWriter \<Rightarrow> BitmapWordWriter option" where
  "op_bytes_loop op 0 leftRdr rightRdr writer = Some writer"
| "op_bytes_loop op (Suc nbytes) leftRdr rightRdr writer =
     do { (leftRdr, leftByte, leftValid) \<leftarrow> BitmapWordReader_NextTrailingByte leftRdr;
          (rightRdr, rightByte, rightValid) \<leftarrow> BitmapWordReader_NextTrailingByte rightRdr;
          writer \<leftarrow> BitmapWordWriter_PutNextTrailingByte writer (opByte op leftByte rightByte) leftValid;
          op_bytes_loop op nbytes leftRdr rightRdr writer }"

definition unalignedBitmapOp ::
  "bitOp \<Rightarrow> byte list \<Rightarrow> byte list \<Rightarrow> nat \<Rightarrow> nat \<Rightarrow> byte list \<Rightarrow> nat \<Rightarrow> nat \<Rightarrow> byte list option" where
  "unalignedBitmapOp op left right lOffset rOffset out outOffset len =
     do { leftRdr \<leftarrow> NewBitmapWordReader left lOffset len;
          rightRdr \<leftarrow> NewBitmapWordReader right rOffset len;
          writer \<leftarrow> NewBitmapWordWriter out outOffset len;
          (leftRdr, rightRdr, writer) \<leftarrow> op_words_loop op (wr_nwords leftRdr) leftRdr rightRdr writer;
          writer \<leftarrow> op_bytes_loop op (wr_trailingBytes leftRdr) leftRdr rightRdr writer;
          Some (ww_bitmap writer) }"

definition BitmapOp ::
  "bitOp \<Rightarrow> byte list \<Rightarrow> byte list \<Rightarrow> nat \<Rightarrow> nat \<Rightarrow> byte list \<Rightarrow> nat \<Rightarrow> nat \<Rightarrow> byte list option" where
  "BitmapOp op left right lOffset rOffset out outOffset len =
     (if outOffset mod 8 = lOffset mod 8 \<and> outOffset mod 8 = rOffset mod 8
      then alignedBitmapOp op left right lOffset rOffset out outOffset len
      else unalignedBitmapOp op left right lOffset rOffset out outOffset len)"

text \<open>\<^verbatim>\<open>BitmapOpAlloc\<close>: \<open>mem n\<close> are the \<open>n\<close> bytes the allocator gives a new buffer of that
  size.\<close>

definition BitmapOpAlloc ::
  "(nat \<Rightarrow> byte list) \<Rightarrow> bitOp \<Rightarrow> byte list \<Rightarrow> byte list \<Rightarrow> nat \<Rightarrow> nat \<Rightarrow> nat \<Rightarrow> nat \<Rightarrow> byte list option" where
  "BitmapOpAlloc mem op left right lOffset rOffset len outOffset =
     BitmapOp op left right lOffset rOffset (mem (BytesForBits (len + outOffset))) outOffset len"

definition BitmapAnd ::
  "byte list \<Rightarrow> byte list \<Rightarrow> nat \<Rightarrow> nat \<Rightarrow> byte list \<Rightarrow> nat \<Rightarrow> nat \<Rightarrow> byte list option" where
  "BitmapAnd = BitmapOp bitAndOp"

definition BitmapOr ::
  "byte list \<Rightarrow> byte list \<Rightarrow> nat \<Rightarrow> nat \<Rightarrow> byte list \<Rightarrow> nat \<Rightarrow> nat \<Rightarrow> byte list option" where
  "BitmapOr = BitmapOp bitOrOp"

definition BitmapAndNot ::
  "byte list \<Rightarrow> byte list \<Rightarrow> nat \<Rightarrow> nat \<Rightarrow> byte list \<Rightarrow> nat \<Rightarrow> nat \<Rightarrow> byte list option" where
  "BitmapAndNot = BitmapOp bitAndNotOp"

definition BitmapXor ::
  "byte list \<Rightarrow> byte list \<Rightarrow> nat \<Rightarrow> nat \<Rightarrow> byte list \<Rightarrow> nat \<Rightarrow> nat \<Rightarrow> byte list option" where
  "BitmapXor = BitmapOp bitXorOp"

definition BitmapXnor ::
  "byte list \<Rightarrow> byte list \<Rightarrow> nat \<Rightarrow> nat \<Rightarrow> byte list \<Rightarrow> nat \<Rightarrow> nat \<Rightarrow> byte list option" where
  "BitmapXnor = BitmapOp bitXnorOp"

definition BitmapAndAlloc ::
  "(nat \<Rightarrow> byte list) \<Rightarrow> byte list \<Rightarrow> byte list \<Rightarrow> nat \<Rightarrow> nat \<Rightarrow> nat \<Rightarrow> nat \<Rightarrow> byte list option" where
  "BitmapAndAlloc mem = BitmapOpAlloc mem bitAndOp"

definition BitmapOrAlloc ::
  "(nat \<Rightarrow> byte list) \<Rightarrow> byte list \<Rightarrow> byte list \<Rightarrow> nat \<Rightarrow> nat \<Rightarrow> nat \<Rightarrow> nat \<Rightarrow> byte list option" where
  "BitmapOrAlloc mem = BitmapOpAlloc mem bitOrOp"

definition BitmapAndNotAlloc ::
  "(nat \<Rightarrow> byte list) \<Rightarrow> byte list \<Rightarrow> byte list \<Rightarrow> nat \<Rightarrow> nat \<Rightarrow> nat \<Rightarrow> nat \<Rightarrow> byte list option" where
  "BitmapAndNotAlloc mem = BitmapOpAlloc mem bitAndNotOp"

definition BitmapXorAlloc ::
  "(nat \<Rightarrow> byte list) \<Rightarrow> byte list \<Rightarrow> byte list \<Rightarrow> nat \<Rightarrow> nat \<Rightarrow> nat \<Rightarrow> nat \<Rightarrow> byte list option" where
  "BitmapXorAlloc mem = BitmapOpAlloc mem bitXorOp"

definition BitmapXnorAlloc ::
  "(nat \<Rightarrow> byte list) \<Rightarrow> byte list \<Rightarrow> byte list \<Rightarrow> nat \<Rightarrow> nat \<Rightarrow> nat \<Rightarrow> nat \<Rightarrow> byte list option" where
  "BitmapXnorAlloc mem = BitmapOpAlloc mem bitXnorOp"

section \<open>BitmapEquals\<close>

fun equal_bits_loop :: "byte list \<Rightarrow> byte list \<Rightarrow> nat \<Rightarrow> nat \<Rightarrow> nat \<Rightarrow> bool option" where
  "equal_bits_loop left right l r 0 = Some True"
| "equal_bits_loop left right l r (Suc k) =
     do { a \<leftarrow> BitIsSet left l; b \<leftarrow> BitIsSet right r;
          if a \<noteq> b then Some False else equal_bits_loop left right (l + 1) (r + 1) k }"

text \<open>The word loop gives the readers back when every word was equal.\<close>

fun equal_words_loop ::
  "nat \<Rightarrow> BitmapWordReader \<Rightarrow> BitmapWordReader \<Rightarrow> (BitmapWordReader \<times> BitmapWordReader) option option" where
  "equal_words_loop 0 lrdr rrdr = Some (Some (lrdr, rrdr))"
| "equal_words_loop (Suc nwords) lrdr rrdr =
     do { (lrdr, lw) \<leftarrow> BitmapWordReader_NextWord lrdr;
          (rrdr, rw) \<leftarrow> BitmapWordReader_NextWord rrdr;
          if lw \<noteq> rw then Some None else equal_words_loop nwords lrdr rrdr }"

fun equal_bytes_loop :: "nat \<Rightarrow> BitmapWordReader \<Rightarrow> BitmapWordReader \<Rightarrow> bool option" where
  "equal_bytes_loop 0 lrdr rrdr = Some True"
| "equal_bytes_loop (Suc nbytes) lrdr rrdr =
     do { (lrdr, lbt, _) \<leftarrow> BitmapWordReader_NextTrailingByte lrdr;
          (rrdr, rbt, _) \<leftarrow> BitmapWordReader_NextTrailingByte rrdr;
          if lbt \<noteq> rbt then Some False else equal_bytes_loop nbytes lrdr rrdr }"

definition BitmapEquals :: "byte list \<Rightarrow> byte list \<Rightarrow> nat \<Rightarrow> nat \<Rightarrow> nat \<Rightarrow> bool option" where
  "BitmapEquals left right lOffset rOffset len =
     (if lOffset mod 8 = 0 \<and> rOffset mod 8 = 0 then
        let byteLen = len div 8; lStart = lOffset div 8; rStart = rOffset div 8
        in do { l \<leftarrow> slice left lStart (lStart + byteLen);
                r \<leftarrow> slice right rStart (rStart + byteLen);
                if l \<noteq> r then Some False
                else equal_bits_loop left right (lOffset + len div 8 * 8) (rOffset + len div 8 * 8)
                       (len - len div 8 * 8) }
      else
        do { lrdr \<leftarrow> NewBitmapWordReader left lOffset len;
             rrdr \<leftarrow> NewBitmapWordReader right rOffset len;
             res \<leftarrow> equal_words_loop (wr_nwords lrdr) lrdr rrdr;
             case res of None \<Rightarrow> Some False
             | Some (lrdr, rrdr) \<Rightarrow> equal_bytes_loop (wr_trailingBytes lrdr) lrdr rrdr })"

section \<open>OptionalBitIndexer\<close>

record OptionalBitIndexer =
  obi_Bitmap :: "byte list option"
  obi_Offset :: nat

definition OptionalBitIndexer_GetBit :: "OptionalBitIndexer \<Rightarrow> nat \<Rightarrow> bool option" where
  "OptionalBitIndexer_GetBit b i =
     (case obi_Bitmap b of None \<Rightarrow> Some True | Some bm \<Rightarrow> BitIsSet bm (obi_Offset b + i))"

section \<open>Contracts\<close>

lemma op_loop_eq:
  assumes "i + k \<le> length left" "i + k \<le> length right" "i + k \<le> length out"
  shows "\<exists>out'. op_loop op left right i k out = Some out' \<and> length out' = length out \<and>
    (\<forall>j<length out. out' ! j = (if i \<le> j \<and> j < i + k then op (left ! j) (right ! j) else out ! j))"
  using assms
proof (induction k arbitrary: i out)
  case (Suc k)
  let ?out = "out[i := op (left ! i) (right ! i)]"
  from Suc.prems obtain out' where out': "op_loop op left right (i + 1) k ?out = Some out'"
      "length out' = length out"
      "\<forall>j<length out. out' ! j = (if i + 1 \<le> j \<and> j < i + 1 + k then op (left ! j) (right ! j) else ?out ! j)"
    using Suc.IH [of "i + 1" ?out] by auto
  then show ?case using Suc.prems by (auto simp: nth_list_update Suc_le_eq le_less)
qed auto

lemma length_bytesToUint64 [simp]: "length (bytesToUint64 b) = length b div 8"
proof (induction b rule: bytesToUint64.induct)
  case (1 b)
  then show ?case
    by (subst bytesToUint64.simps) (auto simp: uint64SizeBytes_def le_div_geq not_less)
qed

lemma bit_bytesToUint64:
  "w < length b div 8 \<Longrightarrow> bit (bytesToUint64 b ! w) j \<longleftrightarrow> j < 64 \<and> bm_bit b (64 * w + j)"
proof (induction b arbitrary: w rule: bytesToUint64.induct)
  case (1 b)
  then have le: "8 \<le> length b" by (cases "length b < 8") auto
  show ?case
  proof (cases w)
    case 0
    then show ?thesis using le
      by (subst bytesToUint64.simps) (simp add: uint64SizeBytes_def bit_le_uint64)
  next
    case (Suc v)
    have "v < length (drop 8 b) div 8" using 1(2) Suc le by (simp add: le_div_geq)
    then have "bit (bytesToUint64 (drop 8 b) ! v) j \<longleftrightarrow> j < 64 \<and> bm_bit (drop 8 b) (64 * v + j)"
      using 1(1) le by (simp add: uint64SizeBytes_def)
    then show ?thesis using le Suc
      by (subst bytesToUint64.simps) (simp add: uint64SizeBytes_def bm_bit_drop add.assoc)
  qed
qed

lemma length_uint64ToBytes [simp]: "length (uint64ToBytes ws) = 8 * length ws"
  by (induction ws) (simp_all add: uint64ToBytes_def)

lemma bm_bit_uint64ToBytes:
  "bm_bit (uint64ToBytes ws) i \<longleftrightarrow> i < 64 * length ws \<and> bit (ws ! (i div 64)) (i mod 64)"
proof (induction ws arbitrary: i)
  case (Cons w ws)
  have "bm_bit (uint64ToBytes (w # ws)) i =
      (if i < 64 then bit w i else bm_bit (uint64ToBytes ws) (i - 64))"
    by (auto simp: uint64ToBytes_def bm_bit_append bm_bit_bytes_of_word)
  also have "\<dots> \<longleftrightarrow> i < 64 * length (w # ws) \<and> bit ((w # ws) ! (i div 64)) (i mod 64)"
    by (cases "i < 64") (auto simp: Cons.IH le_div_geq le_mod_geq not_less)
  finally show ?case .
qed (simp add: uint64ToBytes_def)

lemma alignedBitGo_writes:
  assumes opw: "\<And>a b i. i < 64 \<Longrightarrow> bit (opw a b) i = f (bit a i) (bit b i)"
    and opb: "\<And>a b i. i < 8 \<Longrightarrow> bit (opb a b) i = f (bit a i) (bit b i)"
    and len: "length out \<le> length left" "length out \<le> length right"
  shows "\<exists>out'. alignedBitGo opw opb left right out = Some out' \<and>
    bm_writes out 0 (8 * length out) (\<lambda>i. f (bm_bit left i) (bm_bit right i)) out'"
proof -
  let ?f = "\<lambda>i. f (bm_bit left i) (bm_bit right i)"
  define n where "n = (if length out > 8 then length out div 8 else 0)"
  have n: "8 * n \<le> length out" by (auto simp: n_def)
  have "\<exists>out1. (if length out > uint64SizeBytes then
        do { outWords \<leftarrow> op_loop opw (bytesToUint64 left) (bytesToUint64 right) 0
               (length (bytesToUint64 out)) (bytesToUint64 out);
             Some (blit out 0 (uint64ToBytes outWords), length outWords * uint64SizeBytes) }
      else Some (out, 0)) = Some (out1, 8 * n) \<and> bm_writes out 0 (64 * n) ?f out1"
  proof (cases "length out > 8")
    case True
    then have n': "n = length out div 8" by (simp add: n_def)
    have le: "n \<le> length left div 8" "n \<le> length right div 8"
      using len by (auto simp: n' div_le_mono)
    from le obtain ws where ws: "op_loop opw (bytesToUint64 left) (bytesToUint64 right) 0 n (bytesToUint64 out) = Some ws"
        "length ws = n" "\<forall>j<n. ws ! j = opw (bytesToUint64 left ! j) (bytesToUint64 right ! j)"
      using op_loop_eq [of 0 n "bytesToUint64 left" "bytesToUint64 right" "bytesToUint64 out" opw]
      by (auto simp: n')
    have "bm_bit (uint64ToBytes ws) i = ?f i" if "i < 64 * n" for i
    proof -
      have "i div 64 < n" "64 * (i div 64) + i mod 64 = i" using that by (simp_all add: less_mult_imp_div_less)
      then show ?thesis using that ws le by (simp add: bm_bit_uint64ToBytes opw bit_bytesToUint64)
    qed
    then have "bm_writes out 0 (64 * n) ?f (blit out 0 (uint64ToBytes ws))"
      using n ws(2) by (auto simp: bm_writes_def bm_bit_blit)
    then show ?thesis using True ws by (auto simp: uint64SizeBytes_def n')
  next
    case False
    then show ?thesis by (simp add: uint64SizeBytes_def n_def)
  qed
  then obtain out1 where out1: "(if length out > uint64SizeBytes then
        do { outWords \<leftarrow> op_loop opw (bytesToUint64 left) (bytesToUint64 right) 0
               (length (bytesToUint64 out)) (bytesToUint64 out);
             Some (blit out 0 (uint64ToBytes outWords), length outWords * uint64SizeBytes) }
      else Some (out, 0)) = Some (out1, 8 * n)" and wr: "bm_writes out 0 (64 * n) ?f out1" by blast
  have len1: "length out1 = length out" using bm_writes_length [OF wr] .
  with len n obtain out2 where out2: "op_loop opb left right (8 * n) (length out - 8 * n) out1 = Some out2"
      "length out2 = length out"
      "\<forall>j<length out. out2 ! j = (if 8 * n \<le> j then opb (left ! j) (right ! j) else out1 ! j)"
    using op_loop_eq [of "8 * n" "length out - 8 * n" left right out1 opb] by auto
  have "bm_bit out2 i = ?f i" if i: "i < 8 * length out" for i
  proof -
    from i have q: "i div 8 < length out" by (simp add: div8_less_iff)
    have "8 * n \<le> i div 8 \<longleftrightarrow> \<not> i < 64 * n" by linarith
    then show ?thesis
      using q out2 len len1 opb bm_writes_bit [OF wr, of i] by (auto simp: bm_bit_def)
  qed
  then have "bm_writes out 0 (8 * length out) ?f out2"
    using out2(2) by (auto simp: bm_writes_def bm_bit_beyond)
  then show ?thesis using out1 out2(1) unfolding alignedBitGo_def by (auto simp: Let_def)
qed

text \<open>What \<^verbatim>\<open>BitmapOp\<close> relies on: the three functions of an operation compute the same
  boolean function \<open>f\<close> on every bit.\<close>

locale bit_op =
  fixes op :: bitOp and f :: "bool \<Rightarrow> bool \<Rightarrow> bool"
  assumes bit_opWord: "i < 64 \<Longrightarrow> bit (opWord op a b) i = f (bit a i) (bit b i)"
    and bit_opByte: "i < 8 \<Longrightarrow> bit (opByte op c d) i = f (bit c i) (bit d i)"
    and opAligned_writes: "length out \<le> length left \<Longrightarrow> length out \<le> length right \<Longrightarrow>
      \<exists>out'. opAligned op left right out = Some out' \<and>
        bm_writes out 0 (8 * length out) (\<lambda>i. f (bm_bit left i) (bm_bit right i)) out'"
begin

lemma op_words_loop_writes:
  assumes "wr_rel left lo n k l" "wr_rel right ro n k r" "ww_rel buf pos n w"
  shows "\<exists>l' r' w'. op_words_loop op k l r w = Some (l', r', w') \<and>
    wr_rel left (lo + 64 * k) (n - 64 * k) 0 l' \<and> wr_rel right (ro + 64 * k) (n - 64 * k) 0 r' \<and>
    wr_trailingBytes l' = wr_trailingBytes l \<and> ww_rel (ww_bitmap w') (pos + 64 * k) (n - 64 * k) w' \<and>
    bm_writes buf pos (64 * k) (\<lambda>i. f (bm_bit left (lo + i)) (bm_bit right (ro + i))) (ww_bitmap w')"
  using assms
proof (induction k arbitrary: lo ro n l r buf pos w)
  case 0
  then show ?case by (auto simp: ww_rel_def)
next
  case (Suc k)
  let ?f = "\<lambda>i. f (bm_bit left (lo + i)) (bm_bit right (ro + i))"
  have n: "128 \<le> n" using Suc.prems(1) by (simp add: wr_rel_def)
  from NextWord_rel [OF Suc.prems(1)] obtain l1 lw where
    l1: "BitmapWordReader_NextWord l = Some (l1, lw)" "wr_rel left (lo + 64) (n - 64) k l1"
      "wr_trailingBytes l1 = wr_trailingBytes l"
    and lw: "\<forall>i<64. bit lw i = bm_bit left (lo + i)" by auto
  from NextWord_rel [OF Suc.prems(2)] obtain r1 rw where
    r1: "BitmapWordReader_NextWord r = Some (r1, rw)" "wr_rel right (ro + 64) (n - 64) k r1"
    and rw: "\<forall>i<64. bit rw i = bm_bit right (ro + i)" by auto
  from PutNextWord_writes [OF Suc.prems(3) n, of "opWord op lw rw"] obtain w1 where
    w1: "BitmapWordWriter_PutNextWord w (opWord op lw rw) = Some w1"
      "ww_rel (ww_bitmap w1) (pos + 64) (n - 64) w1"
    and wr1: "bm_writes buf pos 64 (bit (opWord op lw rw)) (ww_bitmap w1)" by auto
  have wr1: "bm_writes buf pos 64 ?f (ww_bitmap w1)"
    by (rule bm_writes_cong [OF wr1]) (use lw rw in \<open>auto simp: bit_opWord\<close>)
  from Suc.IH [OF l1(2) r1(2) w1(2)] obtain l2 r2 w2 where
    step: "op_words_loop op k l1 r1 w1 = Some (l2, r2, w2)"
    and l2: "wr_rel left (lo + 64 + 64 * k) (n - 64 - 64 * k) 0 l2" "wr_trailingBytes l2 = wr_trailingBytes l1"
    and r2: "wr_rel right (ro + 64 + 64 * k) (n - 64 - 64 * k) 0 r2"
    and w2: "ww_rel (ww_bitmap w2) (pos + 64 + 64 * k) (n - 64 - 64 * k) w2"
      "bm_writes (ww_bitmap w1) (pos + 64) (64 * k)
         (\<lambda>i. f (bm_bit left (lo + 64 + i)) (bm_bit right (ro + 64 + i))) (ww_bitmap w2)" by blast
  have "bm_writes buf pos (64 + 64 * k) ?f (ww_bitmap w2)"
    by (rule bm_writes_trans [OF wr1]) (use w2(2) in \<open>simp add: ac_simps\<close>)
  then show ?case using step l1 r1 l2 r2 w1 w2(1) by (auto simp: ac_simps)
qed

lemma op_bytes_loop_writes:
  assumes "wr_rel left lo n 0 l" "wr_rel right ro n 0 r" "ww_rel buf pos n w" "k = BytesForBits n"
  shows "\<exists>w'. op_bytes_loop op k l r w = Some w' \<and>
    bm_writes buf pos n (\<lambda>i. f (bm_bit left (lo + i)) (bm_bit right (ro + i))) (ww_bitmap w')"
  using assms
proof (induction k arbitrary: lo ro n l r buf pos w)
  case 0
  then have "n = 0" unfolding BytesForBits_eq by linarith
  with 0 show ?case by (auto simp: ww_rel_def)
next
  case (Suc k)
  let ?f = "\<lambda>i. f (bm_bit left (lo + i)) (bm_bit right (ro + i))"
  show ?case
  proof (cases "n \<le> 8")
    case True
    have n: "0 < n" "k = 0" using Suc.prems(4) True unfolding BytesForBits_eq by linarith+
    from NextTrailingByte_last [OF Suc.prems(1) n(1) True] obtain l1 lb where
      l1: "BitmapWordReader_NextTrailingByte l = Some (l1, lb, n)"
      and lb: "\<forall>i<8. bit lb i \<longleftrightarrow> i < n \<and> bm_bit left (lo + i)" by auto
    from NextTrailingByte_last [OF Suc.prems(2) n(1) True] obtain r1 rb where
      r1: "BitmapWordReader_NextTrailingByte r = Some (r1, rb, n)"
      and rb: "\<forall>i<8. bit rb i \<longleftrightarrow> i < n \<and> bm_bit right (ro + i)" by auto
    from PutNextTrailingByte_last_writes [OF Suc.prems(3) True, of "opByte op lb rb"] obtain w1 where
      w1: "BitmapWordWriter_PutNextTrailingByte w (opByte op lb rb) n = Some w1"
      and wr1: "bm_writes buf pos n (bit (opByte op lb rb)) (ww_bitmap w1)" by auto
    have "bm_writes buf pos n ?f (ww_bitmap w1)"
      by (rule bm_writes_cong [OF wr1]) (use lb rb True in \<open>auto simp: bit_opByte\<close>)
    then show ?thesis using l1 r1 w1 n by auto
  next
    case False
    then have n: "8 < n" "k = BytesForBits (n - 8)"
      using Suc.prems(4) unfolding BytesForBits_eq by linarith+
    from NextTrailingByte_more [OF Suc.prems(1) n(1)] obtain l1 lb where
      l1: "BitmapWordReader_NextTrailingByte l = Some (l1, lb, 8)" "wr_rel left (lo + 8) (n - 8) 0 l1"
      and lb: "\<forall>i<8. bit lb i = bm_bit left (lo + i)" by auto
    from NextTrailingByte_more [OF Suc.prems(2) n(1)] obtain r1 rb where
      r1: "BitmapWordReader_NextTrailingByte r = Some (r1, rb, 8)" "wr_rel right (ro + 8) (n - 8) 0 r1"
      and rb: "\<forall>i<8. bit rb i = bm_bit right (ro + i)" by auto
    from PutNextTrailingByte_writes [OF Suc.prems(3) n(1), of "opByte op lb rb"] obtain w1 where
      w1: "BitmapWordWriter_PutNextTrailingByte w (opByte op lb rb) 8 = Some w1"
        "ww_rel (ww_bitmap w1) (pos + 8) (n - 8) w1"
      and wr1: "bm_writes buf pos 8 (bit (opByte op lb rb)) (ww_bitmap w1)" by auto
    have wr1: "bm_writes buf pos 8 ?f (ww_bitmap w1)"
      by (rule bm_writes_cong [OF wr1]) (use lb rb in \<open>auto simp: bit_opByte\<close>)
    from Suc.IH [OF l1(2) r1(2) w1(2) n(2)] obtain w2 where
      step: "op_bytes_loop op k l1 r1 w1 = Some w2"
      and w2: "bm_writes (ww_bitmap w1) (pos + 8) (n - 8)
         (\<lambda>i. f (bm_bit left (lo + 8 + i)) (bm_bit right (ro + 8 + i))) (ww_bitmap w2)" by blast
    have "bm_writes buf pos (8 + (n - 8)) ?f (ww_bitmap w2)"
      by (rule bm_writes_trans [OF wr1]) (use w2 in \<open>simp add: ac_simps\<close>)
    then show ?thesis using step l1 r1 w1 n(1) by auto
  qed
qed

lemma unalignedBitmapOp_writes:
  assumes "lo + n \<le> 8 * length left" "ro + n \<le> 8 * length right" "pos + n \<le> 8 * length out"
  shows "\<exists>out'. unalignedBitmapOp op left right lo ro out pos n = Some out' \<and>
    bm_writes out pos n (\<lambda>i. f (bm_bit left (lo + i)) (bm_bit right (ro + i))) out'"
proof -
  let ?f = "\<lambda>i. f (bm_bit left (lo + i)) (bm_bit right (ro + i))" and ?w = "n div 64 - 1"
  from NewBitmapWordReader_rel [OF assms(1)] obtain l where
    l: "NewBitmapWordReader left lo n = Some l" "wr_rel left lo n ?w l" "wr_nwords l = ?w"
    and tb: "wr_trailingBytes l = BytesForBits (n - 64 * ?w)" by auto
  from NewBitmapWordReader_rel [OF assms(2)] obtain r where
    r: "NewBitmapWordReader right ro n = Some r" "wr_rel right ro n ?w r" by auto
  from NewBitmapWordWriter_rel [OF assms(3)] obtain w where
    w: "NewBitmapWordWriter out pos n = Some w" "ww_rel out pos n w" by blast
  let ?k = "64 * ?w"
  from op_words_loop_writes [OF l(2) r(2) w(2)] obtain l1 r1 w1 where
    s1: "op_words_loop op ?w l r w = Some (l1, r1, w1)"
    and l1: "wr_rel left (lo + ?k) (n - ?k) 0 l1" "wr_trailingBytes l1 = wr_trailingBytes l"
    and r1: "wr_rel right (ro + ?k) (n - ?k) 0 r1"
    and w1: "ww_rel (ww_bitmap w1) (pos + ?k) (n - ?k) w1" "bm_writes out pos ?k ?f (ww_bitmap w1)"
    by blast
  from op_bytes_loop_writes [OF l1(1) r1 w1(1) refl] obtain w2 where
    s2: "op_bytes_loop op (BytesForBits (n - ?k)) l1 r1 w1 = Some w2"
    and w2: "bm_writes (ww_bitmap w1) (pos + ?k) (n - ?k)
      (\<lambda>i. f (bm_bit left (lo + ?k + i)) (bm_bit right (ro + ?k + i))) (ww_bitmap w2)" by blast
  have "?k \<le> n" using l(2) by (simp add: wr_rel_def)
  then have "bm_writes out pos n ?f (ww_bitmap w2)"
    using bm_writes_trans [OF w1(2), of "n - ?k" "ww_bitmap w2"] w2 by (simp add: add.assoc)
  moreover have "unalignedBitmapOp op left right lo ro out pos n = Some (ww_bitmap w2)"
    using l r(1) w(1) s1 s2 l1(2) tb by (simp add: unalignedBitmapOp_def)
  ultimately show ?thesis by blast
qed

lemma merge_op_byte_eq:
  assumes "k < length left" "k < length right" "k < length out"
  shows "\<exists>out'. merge_op_byte op left right k m out = Some out' \<and> length out' = length out \<and>
    (\<forall>i. bm_bit out' i = (if 8 * k \<le> i \<and> i < 8 * k + 8 \<and> \<not> bit m (i - 8 * k)
       then f (bm_bit left i) (bm_bit right i) else bm_bit out i))"
proof -
  let ?b = "merge_byte (out ! k) (opByte op (left ! k) (right ! k)) m"
  have "bm_bit (out[k := ?b]) i = (if 8 * k \<le> i \<and> i < 8 * k + 8 \<and> \<not> bit m (i - 8 * k)
      then f (bm_bit left i) (bm_bit right i) else bm_bit out i)" for i
    using assms by (auto simp: bm_bit_update_range bit_merge_byte bit_opByte bm_bit_in_byte)
  then show ?thesis using assms by (simp add: merge_op_byte_def)
qed

lemma alignedBitmapOp_many:
  assumes nb: "2 \<le> nb" "8 * nb < s + n + 8" "s + n \<le> 8 * nb" and s: "s < 8"
    and len: "nb \<le> length left" "nb \<le> length right" "nb \<le> length out"
    and first: "\<And>j. j < 8 \<Longrightarrow> bit fm j \<longleftrightarrow> j < s"
    and lst: "\<And>j. j < 8 \<Longrightarrow> bit lm j \<longleftrightarrow> s + n \<le> 8 * (nb - 1) + j"
  shows "\<exists>out'. do {
      out1 \<leftarrow> merge_op_byte op left right 0 fm out;
      out1 \<leftarrow> (if nb = 2 then Some out1 else do {
        l \<leftarrow> slice left 1 (nb - 1); r \<leftarrow> slice right 1 (nb - 1); o1 \<leftarrow> slice out1 1 (nb - 1);
        o2 \<leftarrow> opAligned op l r o1; Some (blit out1 1 o2) });
      merge_op_byte op left right (nb - 1) lm out1 } = Some out' \<and>
    bm_writes out s n (\<lambda>i. f (bm_bit left (s + i)) (bm_bit right (s + i))) out'"
proof -
  let ?f = "\<lambda>i. f (bm_bit left i) (bm_bit right i)"
  have "0 < length left" "0 < length right" "0 < length out" using nb len by linarith+
  from merge_op_byte_eq [OF this, of fm] obtain out1 where
    out1: "merge_op_byte op left right 0 fm out = Some out1" "length out1 = length out"
    and bits1: "\<forall>i. bm_bit out1 i = (if i < 8 \<and> \<not> bit fm i then ?f i else bm_bit out i)" by auto
  have "\<exists>out2. (if nb = 2 then Some out1 else do {
        l \<leftarrow> slice left 1 (nb - 1); r \<leftarrow> slice right 1 (nb - 1); o1 \<leftarrow> slice out1 1 (nb - 1);
        o2 \<leftarrow> opAligned op l r o1; Some (blit out1 1 o2) }) = Some out2 \<and> length out2 = length out \<and>
      (\<forall>i. bm_bit out2 i = (if 8 \<le> i \<and> i < 8 * (nb - 1) then ?f i else bm_bit out1 i))"
  proof (cases "nb = 2")
    case True
    then show ?thesis using out1(2) by auto
  next
    case False
    define m where "m = nb - 2"
    have m: "nb - 1 = m + 1" "nb = m + 2" using nb(1) by (simp_all add: m_def)
    define sl where "sl = (\<lambda>xs :: byte list. take m (drop 1 xs))"
    have sl: "slice xs 1 (nb - 1) = Some (sl xs)" "length (sl xs) = m" if "nb \<le> length xs" for xs
      using that by (simp_all add: sl_def m)
    have bits_sl: "bm_bit (sl xs) i \<longleftrightarrow> i < 8 * m \<and> bm_bit xs (8 + i)" for xs i
      by (simp add: sl_def bm_bit_take bm_bit_drop)
    from opAligned_writes [of "sl out1" "sl left" "sl right"] sl(2) len out1(2) obtain o2 where
      o2: "opAligned op (sl left) (sl right) (sl out1) = Some o2"
      and wr: "bm_writes (sl out1) 0 (8 * m) (\<lambda>i. f (bm_bit (sl left) i) (bm_bit (sl right) i)) o2"
      by auto
    have len2: "length o2 = m" using bm_writes_length [OF wr] sl(2) len out1(2) by simp
    have "bm_bit (blit out1 1 o2) i = (if 8 \<le> i \<and> i < 8 * (nb - 1) then ?f i else bm_bit out1 i)" for i
      using len out1(2) by (auto simp: bm_bit_blit bm_writes_bit [OF wr] bits_sl len2 m)
    moreover have "length (blit out1 1 o2) = length out" using len out1(2) m by simp
    moreover have "slice left 1 (nb - 1) = Some (sl left)" "slice right 1 (nb - 1) = Some (sl right)"
        "slice out1 1 (nb - 1) = Some (sl out1)"
      using sl(1) len out1(2) by metis+
    ultimately show ?thesis using False by (simp only: o2 bind.bind_lunit if_False) blast
  qed
  then obtain out2 where out2: "(if nb = 2 then Some out1 else do {
        l \<leftarrow> slice left 1 (nb - 1); r \<leftarrow> slice right 1 (nb - 1); o1 \<leftarrow> slice out1 1 (nb - 1);
        o2 \<leftarrow> opAligned op l r o1; Some (blit out1 1 o2) }) = Some out2" "length out2 = length out"
    and bits2: "\<forall>i. bm_bit out2 i = (if 8 \<le> i \<and> i < 8 * (nb - 1) then ?f i else bm_bit out1 i)" by blast
  have "nb - 1 < length left" "nb - 1 < length right" "nb - 1 < length out2"
    using nb len out2(2) by linarith+
  from merge_op_byte_eq [OF this, of lm] out2(2) obtain out3 where
    out3: "merge_op_byte op left right (nb - 1) lm out2 = Some out3" "length out3 = length out"
    and bits3: "\<forall>i. bm_bit out3 i = (if 8 * (nb - 1) \<le> i \<and> i < 8 * (nb - 1) + 8 \<and>
      \<not> bit lm (i - 8 * (nb - 1)) then ?f i else bm_bit out2 i)" by auto
  have "bm_bit out3 i = (if s \<le> i \<and> i < s + n then ?f i else bm_bit out i)" for i
    using bits1 bits2 bits3 nb s first [of i] lst [of "i - 8 * (nb - 1)"]
    by (cases "i < 8"; cases "i < 8 * (nb - 1)"; cases "i < 8 * (nb - 1) + 8") auto
  then have "bm_writes out s n (\<lambda>i. ?f (s + i)) out3" using out3(2) by (auto simp: bm_writes_def)
  then show ?thesis using out1 out2 out3 by auto
qed

lemma alignedBitmapOp_writes:
  assumes "lo + n \<le> 8 * length left" "ro + n \<le> 8 * length right" "pos + n \<le> 8 * length out"
    and al: "pos mod 8 = lo mod 8" "pos mod 8 = ro mod 8"
  shows "\<exists>out'. alignedBitmapOp op left right lo ro out pos n = Some out' \<and>
    bm_writes out pos n (\<lambda>i. f (bm_bit left (lo + i)) (bm_bit right (ro + i))) out'"
proof -
  define s where "s = lo mod 8"
  define nb where "nb = BytesForBits (n + s)"
  define L where "L = drop (lo div 8) left"
  define R where "R = drop (ro div 8) right"
  define U where "U = drop (pos div 8) out"
  have s8: "s < 8" by (simp add: s_def)
  have off: "lo = 8 * (lo div 8) + s" "ro = 8 * (ro div 8) + s" "pos = 8 * (pos div 8) + s"
    using al div_mult_mod_eq [of lo 8] div_mult_mod_eq [of ro 8] div_mult_mod_eq [of pos 8]
    unfolding s_def by linarith+
  have base: "lo div 8 \<le> length left" "ro div 8 \<le> length right" "pos div 8 \<le> length out"
    using assms(1-3) by linarith+
  have len: "nb \<le> length L" "nb \<le> length R" "nb \<le> length U"
    using assms(1-3) off unfolding nb_def BytesForBits_le_iff L_def R_def U_def length_drop
    by linarith+
  have e: "(lo + n) mod 8 = (s + n) mod 8" by (simp add: s_def mod_simps)
  have nb: "s + n \<le> 8 * nb" "8 * nb < s + n + 8" unfolding nb_def BytesForBits_eq by linarith+
  define lm :: byte where "lm = (if (s + n) mod 8 \<noteq> 0 then NOT (mask ((s + n) mod 8)) else 0)"
  have lm: "bit lm j \<longleftrightarrow> s + n \<le> 8 * (nb - 1) + j" if "j < 8" "0 < nb" for j
  proof -
    have "(s + n) mod 8 \<noteq> 0 \<and> s + n = 8 * (nb - 1) + (s + n) mod 8 \<or>
        (s + n) mod 8 = 0 \<and> s + n = 8 * nb"
      using nb that(2) by (cases "(s + n) mod 8 = 0") (auto simp: nb_def BytesForBits_partial add.commute)
    then show ?thesis using that by (auto simp: lm_def bit_simps)
  qed
  have fm: "bit (mask s :: byte) j \<longleftrightarrow> j < s" if "j < 8" for j using that by (simp add: bit_simps)
  let ?f = "\<lambda>i. f (bm_bit L (s + i)) (bm_bit R (s + i))"
  have "\<exists>U'. alignedBitmapOp op left right lo ro out pos n = Some (blit out (pos div 8) U') \<and>
      bm_writes U s n ?f U'"
  proof -
    consider "nb = 0" | "nb = 1" | "2 \<le> nb" by linarith
    then show ?thesis
    proof cases
      case 1
      then have "s = 0" "n = 0" using nb by auto
      then show ?thesis using 1 base
        by (auto simp: alignedBitmapOp_def Let_def U_def BytesForBits_eq simp flip: s_def)
    next
      case 2
      have "0 < length L" "0 < length R" "0 < length U" using 2 len by linarith+
      from merge_op_byte_eq [OF this, of "mask s OR lm"] obtain U' where
        U': "merge_op_byte op L R 0 (mask s OR lm) U = Some U'" "length U' = length U"
        and bits: "\<forall>i. bm_bit U' i = (if i < 8 \<and> \<not> bit (mask s OR lm) i
          then f (bm_bit L i) (bm_bit R i) else bm_bit U i)" by auto
      have "bm_writes U s n ?f U'"
        using bits lm 2 nb fm U'(2) by (auto simp: bm_writes_def bit_or_iff)
      moreover have "alignedBitmapOp op left right lo ro out pos n = Some (blit out (pos div 8) U')"
        using 2 base U' s8 by (cases "(s + n) mod 8 = 0")
          (simp_all add: alignedBitmapOp_def Let_def e mask_nth lm_def flip: s_def nb_def L_def R_def U_def)
      ultimately show ?thesis by blast
    next
      case 3
      from alignedBitmapOp_many [OF 3 nb(2,1) s8 len fm lm] 3 obtain U' where
        U': "do { out1 \<leftarrow> merge_op_byte op L R 0 (mask s) U;
          out1 \<leftarrow> (if nb = 2 then Some out1 else do {
            l \<leftarrow> slice L 1 (nb - 1); r \<leftarrow> slice R 1 (nb - 1); o1 \<leftarrow> slice out1 1 (nb - 1);
            o2 \<leftarrow> opAligned op l r o1; Some (blit out1 1 o2) });
          merge_op_byte op L R (nb - 1) lm out1 } = Some U'" "bm_writes U s n ?f U'" by auto
      have "alignedBitmapOp op left right lo ro out pos n = Some (blit out (pos div 8) U')"
        using 3 base U'(1) s8 by (cases "nb = 2"; cases "(s + n) mod 8 = 0")
          (auto simp: alignedBitmapOp_def Let_def e mask_nth lm_def Option.bind_eq_Some_conv
            simp flip: s_def nb_def L_def R_def U_def)
      then show ?thesis using U'(2) by blast
    qed
  qed
  then obtain U' where U': "alignedBitmapOp op left right lo ro out pos n = Some (blit out (pos div 8) U')"
      "bm_writes U s n ?f U'" by blast
  have "bm_writes out (8 * (pos div 8) + s) n ?f (blit out (pos div 8) U')"
    using U'(2) assms(3) off(3) unfolding U_def by (intro bm_writes_blit) auto
  then show ?thesis using U'(1) off by (simp add: L_def R_def bm_bit_drop flip: add.assoc)
qed

lemma BitmapOp_writes:
  assumes "lo + n \<le> 8 * length left" "ro + n \<le> 8 * length right" "pos + n \<le> 8 * length out"
  shows "\<exists>out'. BitmapOp op left right lo ro out pos n = Some out' \<and>
    bm_writes out pos n (\<lambda>i. f (bm_bit left (lo + i)) (bm_bit right (ro + i))) out'"
  using alignedBitmapOp_writes [OF assms] unalignedBitmapOp_writes [OF assms]
  by (simp add: BitmapOp_def)

lemma BitmapOpAlloc_writes:
  assumes "lo + n \<le> 8 * length left" "ro + n \<le> 8 * length right"
    and "\<And>k. length (mem k) = k"
  shows "\<exists>out'. BitmapOpAlloc mem op left right lo ro n pos = Some out' \<and>
    length out' = BytesForBits (n + pos) \<and>
    (\<forall>i<n. bm_bit out' (pos + i) = f (bm_bit left (lo + i)) (bm_bit right (ro + i)))"
proof -
  have "pos + n \<le> 8 * length (mem (BytesForBits (n + pos)))"
    using assms(3) BytesForBits_le_iff [of "n + pos" "BytesForBits (n + pos)"] by simp
  from BitmapOp_writes [OF assms(1,2) this] show ?thesis
    using assms(3) by (auto simp: BitmapOpAlloc_def bm_writes_def)
qed

end

interpretation and_op: bit_op bitAndOp "(\<and>)"
  by unfold_locales
    (auto simp: bitAndOp_def alignedBitAndGo_def bit_simps intro!: alignedBitGo_writes)

interpretation or_op: bit_op bitOrOp "(\<or>)"
  by unfold_locales
    (auto simp: bitOrOp_def alignedBitOrGo_def bit_simps intro!: alignedBitGo_writes)

interpretation and_not_op: bit_op bitAndNotOp "\<lambda>a b. a \<and> \<not> b"
  by unfold_locales
    (auto simp: bitAndNotOp_def alignedBitAndNotGo_def bit_simps intro!: alignedBitGo_writes)

interpretation xor_op: bit_op bitXorOp "(\<noteq>)"
  by unfold_locales
    (auto simp: bitXorOp_def alignedBitXorGo_def bit_simps intro!: alignedBitGo_writes)

interpretation xnor_op: bit_op bitXnorOp "(=)"
  by unfold_locales
    (auto simp: bitXnorOp_def alignedBitXnorGo_def bit_simps intro!: alignedBitGo_writes)

section \<open>Equality of bit ranges\<close>

definition bits_equal :: "byte list \<Rightarrow> nat \<Rightarrow> byte list \<Rightarrow> nat \<Rightarrow> nat \<Rightarrow> bool" where
  "bits_equal left lo right ro n \<longleftrightarrow> (\<forall>i<n. bm_bit left (lo + i) = bm_bit right (ro + i))"

lemma bits_equal_0 [simp]: "bits_equal left lo right ro 0"
  by (simp add: bits_equal_def)

lemma bits_equal_add:
  "bits_equal left lo right ro (m + n) \<longleftrightarrow>
     bits_equal left lo right ro m \<and> bits_equal left (lo + m) right (ro + m) n"
proof -
  have "(\<forall>i<m + n. P i) \<longleftrightarrow> (\<forall>i<m. P i) \<and> (\<forall>i<n. P (m + i))" for P
    by (metis add_diff_inverse_nat nat_add_left_cancel_less trans_less_add1)
  then show ?thesis unfolding bits_equal_def by (simp add: add.assoc)
qed

lemma equal_bits_loop_eq:
  "l + k \<le> 8 * length left \<Longrightarrow> r + k \<le> 8 * length right \<Longrightarrow>
   equal_bits_loop left right l r k = Some (bits_equal left l right r k)"
proof (induction k arbitrary: l r)
  case (Suc k)
  have "bits_equal left l right r (1 + k) \<longleftrightarrow>
      bm_bit left l = bm_bit right r \<and> bits_equal left (l + 1) right (r + 1) k"
    unfolding bits_equal_add by (simp add: bits_equal_def)
  then show ?case using Suc by (simp add: BitIsSet_eq)
qed simp

lemma equal_words_loop_eq:
  assumes "wr_rel left lo n k l" "wr_rel right ro n k r"
  shows "\<exists>res. equal_words_loop k l r = Some res \<and>
    (case res of None \<Rightarrow> \<not> bits_equal left lo right ro (64 * k)
     | Some (l', r') \<Rightarrow> bits_equal left lo right ro (64 * k) \<and> wr_trailingBytes l' = wr_trailingBytes l \<and>
         wr_rel left (lo + 64 * k) (n - 64 * k) 0 l' \<and> wr_rel right (ro + 64 * k) (n - 64 * k) 0 r')"
  using assms
proof (induction k arbitrary: lo ro n l r)
  case (Suc k)
  from NextWord_rel [OF Suc.prems(1)] obtain l1 lw where
    l1: "BitmapWordReader_NextWord l = Some (l1, lw)" "wr_rel left (lo + 64) (n - 64) k l1"
      "wr_trailingBytes l1 = wr_trailingBytes l"
    and lw: "\<forall>i<64. bit lw i = bm_bit left (lo + i)" by auto
  from NextWord_rel [OF Suc.prems(2)] obtain r1 rw where
    r1: "BitmapWordReader_NextWord r = Some (r1, rw)" "wr_rel right (ro + 64) (n - 64) k r1"
    and rw: "\<forall>i<64. bit rw i = bm_bit right (ro + i)" by auto
  have eq: "lw = rw \<longleftrightarrow> bits_equal left lo right ro 64"
    using lw rw by (simp add: word_eq_bits_iff bits_equal_def)
  from Suc.IH [OF l1(2) r1(2)] obtain res where res: "equal_words_loop k l1 r1 = Some res"
    "case res of None \<Rightarrow> \<not> bits_equal left (lo + 64) right (ro + 64) (64 * k)
     | Some (l', r') \<Rightarrow> bits_equal left (lo + 64) right (ro + 64) (64 * k) \<and>
         wr_trailingBytes l' = wr_trailingBytes l1 \<and>
         wr_rel left (lo + 64 + 64 * k) (n - 64 - 64 * k) 0 l' \<and>
         wr_rel right (ro + 64 + 64 * k) (n - 64 - 64 * k) 0 r'" by blast
  have split: "bits_equal left lo right ro (64 + 64 * k) \<longleftrightarrow>
      lw = rw \<and> bits_equal left (lo + 64) right (ro + 64) (64 * k)"
    using bits_equal_add [of left lo right ro 64 "64 * k"] eq by simp
  show ?case
    using l1 r1 res by (cases res) (auto simp: split add.assoc)
qed simp

lemma equal_bytes_loop_eq:
  assumes "wr_rel left lo n 0 l" "wr_rel right ro n 0 r" "k = BytesForBits n"
  shows "equal_bytes_loop k l r = Some (bits_equal left lo right ro n)"
  using assms
proof (induction k arbitrary: lo ro n l r)
  case 0
  then have "n = 0" unfolding BytesForBits_eq by linarith
  then show ?case by simp
next
  case (Suc k)
  show ?case
  proof (cases "n \<le> 8")
    case True
    have n: "0 < n" "k = 0" using Suc.prems(3) True unfolding BytesForBits_eq by linarith+
    from NextTrailingByte_last [OF Suc.prems(1) n(1) True] obtain l1 lb where
      l1: "BitmapWordReader_NextTrailingByte l = Some (l1, lb, n)"
      and lb: "\<forall>i<8. bit lb i \<longleftrightarrow> i < n \<and> bm_bit left (lo + i)" by auto
    from NextTrailingByte_last [OF Suc.prems(2) n(1) True] obtain r1 rb where
      r1: "BitmapWordReader_NextTrailingByte r = Some (r1, rb, n)"
      and rb: "\<forall>i<8. bit rb i \<longleftrightarrow> i < n \<and> bm_bit right (ro + i)" by auto
    have "lb = rb \<longleftrightarrow> (\<forall>i<8. (i < n \<and> bm_bit left (lo + i)) = (i < n \<and> bm_bit right (ro + i)))"
      using lb rb by (simp add: word_eq_bits_iff)
    also have "\<dots> \<longleftrightarrow> bits_equal left lo right ro n"
      using True unfolding bits_equal_def by (meson order_less_le_trans)
    finally show ?thesis using n l1 r1 by auto
  next
    case False
    then have n: "8 < n" "k = BytesForBits (n - 8)"
      using Suc.prems(3) unfolding BytesForBits_eq by linarith+
    from NextTrailingByte_more [OF Suc.prems(1) n(1)] obtain l1 lb where
      l1: "BitmapWordReader_NextTrailingByte l = Some (l1, lb, 8)" "wr_rel left (lo + 8) (n - 8) 0 l1"
      and lb: "\<forall>i<8. bit lb i = bm_bit left (lo + i)" by auto
    from NextTrailingByte_more [OF Suc.prems(2) n(1)] obtain r1 rb where
      r1: "BitmapWordReader_NextTrailingByte r = Some (r1, rb, 8)" "wr_rel right (ro + 8) (n - 8) 0 r1"
      and rb: "\<forall>i<8. bit rb i = bm_bit right (ro + i)" by auto
    have "lb = rb \<longleftrightarrow> bits_equal left lo right ro 8"
      using lb rb by (simp add: word_eq_bits_iff bits_equal_def)
    then have "bits_equal left lo right ro n \<longleftrightarrow> lb = rb \<and> bits_equal left (lo + 8) right (ro + 8) (n - 8)"
      using bits_equal_add [of left lo right ro 8 "n - 8"] n(1) by simp
    then show ?thesis using Suc.IH [OF l1(2) r1(2) n(2)] l1 r1 by auto
  qed
qed

lemma BitmapEquals_eq:
  assumes "lo + n \<le> 8 * length left" "ro + n \<le> 8 * length right"
  shows "BitmapEquals left right lo ro n = Some (bits_equal left lo right ro n)"
proof (cases "lo mod 8 = 0 \<and> ro mod 8 = 0")
  case True
  then obtain p q where pq: "lo = 8 * p" "ro = 8 * q" by (auto simp: mod_eq_0_iff_dvd dvd_def)
  define k where "k = n div 8"
  have k: "8 * k \<le> n" by (simp add: k_def)
  have le: "p + k \<le> length left" "q + k \<le> length right" using assms pq k by linarith+
  define L where "L = take k (drop p left)"
  define R where "R = take k (drop q right)"
  have len: "length L = k" "length R = k" using le by (simp_all add: L_def R_def)
  have bits: "bm_bit L i \<longleftrightarrow> i < 8 * k \<and> bm_bit left (lo + i)"
    "bm_bit R i \<longleftrightarrow> i < 8 * k \<and> bm_bit right (ro + i)" for i
    by (simp_all add: L_def R_def bm_bit_take bm_bit_drop pq)
  have eq: "L = R \<longleftrightarrow> bits_equal left lo right ro (8 * k)"
  proof
    show "L = R \<Longrightarrow> bits_equal left lo right ro (8 * k)"
      using bits unfolding bits_equal_def by metis
    show "bits_equal left lo right ro (8 * k) \<Longrightarrow> L = R"
      by (intro bm_eqI) (simp_all add: len bits bits_equal_def)
  qed
  have "equal_bits_loop left right (lo + 8 * k) (ro + 8 * k) (n - 8 * k) =
      Some (bits_equal left (lo + 8 * k) right (ro + 8 * k) (n - 8 * k))"
    using assms k by (intro equal_bits_loop_eq) auto
  then show ?thesis
    using True le eq bits_equal_add [of left lo right ro "8 * k" "n - 8 * k"] k
    by (simp add: BitmapEquals_def pq Let_def mult.commute flip: k_def L_def R_def)
next
  case False
  let ?w = "n div 64 - 1"
  from NewBitmapWordReader_rel [OF assms(1)] obtain l where
    l: "NewBitmapWordReader left lo n = Some l" "wr_rel left lo n ?w l" "wr_nwords l = ?w"
    and tb: "wr_trailingBytes l = BytesForBits (n - 64 * ?w)" by auto
  from NewBitmapWordReader_rel [OF assms(2)] obtain r where
    r: "NewBitmapWordReader right ro n = Some r" "wr_rel right ro n ?w r" by auto
  have split: "bits_equal left lo right ro n \<longleftrightarrow> bits_equal left lo right ro (64 * ?w) \<and>
      bits_equal left (lo + 64 * ?w) right (ro + 64 * ?w) (n - 64 * ?w)"
    using bits_equal_add [of left lo right ro "64 * ?w" "n - 64 * ?w"] l(2) by (simp add: wr_rel_def)
  from equal_words_loop_eq [OF l(2) r(2)] obtain res where
    res: "equal_words_loop ?w l r = Some res"
    "case res of None \<Rightarrow> \<not> bits_equal left lo right ro (64 * ?w)
     | Some (l', r') \<Rightarrow> bits_equal left lo right ro (64 * ?w) \<and> wr_trailingBytes l' = wr_trailingBytes l \<and>
         wr_rel left (lo + 64 * ?w) (n - 64 * ?w) 0 l' \<and> wr_rel right (ro + 64 * ?w) (n - 64 * ?w) 0 r'"
    by blast
  show ?thesis
    using False l r(1) res tb equal_bytes_loop_eq
    by (cases res) (auto simp: BitmapEquals_def split)
qed

lemma OptionalBitIndexer_GetBit_eq:
  "(\<And>bm. obi_Bitmap b = Some bm \<Longrightarrow> obi_Offset b + i < 8 * length bm) \<Longrightarrow>
   OptionalBitIndexer_GetBit b i =
     Some (case obi_Bitmap b of None \<Rightarrow> True | Some bm \<Rightarrow> bm_bit bm (obi_Offset b + i))"
  by (simp add: OptionalBitIndexer_GetBit_def BitIsSet_eq split: option.splits)

section \<open>Properties\<close>

text \<open>C5: each of the five bitmap operations writes the boolean operation of the two input ranges to
  the output range, for every combination of bit offsets (equal offsets modulo eight take the
  byte-wise path, others the word readers), and preserves every other bit of the output.\<close>

theorem BitmapOp_correct:
  assumes "(op, f) \<in> {(bitAndOp, (\<and>)), (bitOrOp, (\<or>)), (bitAndNotOp, \<lambda>a b. a \<and> \<not> b),
      (bitXorOp, (\<noteq>)), (bitXnorOp, (=))}"
    and "lOffset + n \<le> 8 * length left" "rOffset + n \<le> 8 * length right" "outOffset + n \<le> 8 * length out"
  shows "\<exists>out'. BitmapOp op left right lOffset rOffset out outOffset n = Some out' \<and>
    bm_writes out outOffset n (\<lambda>i. f (bm_bit left (lOffset + i)) (bm_bit right (rOffset + i))) out'"
  using assms(1) and_op.BitmapOp_writes [OF assms(2-4)] or_op.BitmapOp_writes [OF assms(2-4)]
    and_not_op.BitmapOp_writes [OF assms(2-4)] xor_op.BitmapOp_writes [OF assms(2-4)]
    xnor_op.BitmapOp_writes [OF assms(2-4)]
  by auto

theorem BitmapOp_correct_witness:
  "\<exists>out'. BitmapOp bitXorOp (replicate 20 170) (replicate 20 15) 3 7 (replicate 20 0) 1 150 = Some out' \<and>
     bm_writes (replicate 20 0) 1 150
       (\<lambda>i. bm_bit (replicate 20 170) (3 + i) \<noteq> bm_bit (replicate 20 15) (7 + i)) out'"
  using BitmapOp_correct [of bitXorOp "(\<noteq>)" 3 150 "replicate 20 170" 7 "replicate 20 15" 1 "replicate 20 0"]
  by simp

text \<open>C23: \<^verbatim>\<open>BitmapEquals\<close> decides equality of two bit ranges at arbitrary offsets.\<close>

theorem BitmapEquals_decides:
  assumes "lOffset + n \<le> 8 * length left" "rOffset + n \<le> 8 * length right"
  shows "BitmapEquals left right lOffset rOffset n =
    Some (\<forall>i<n. bm_bit left (lOffset + i) = bm_bit right (rOffset + i))"
  using BitmapEquals_eq [OF assms] by (simp add: bits_equal_def)

theorem BitmapEquals_decides_witness:
  "BitmapEquals [170, 170] [85, 85] 0 1 10 =
     Some (\<forall>i<10. bm_bit [170, 170] (0 + i) = bm_bit [85, 85] (1 + i))"
  using BitmapEquals_decides [of 0 10 "[170, 170]" 1 "[85, 85]"] by simp

end
