(* ===== verification/Bit_Writer.thy ===== *)
theory Bit_Writer
  imports Bitutil
begin

unbundle bit_operations_syntax

text \<open>
  \<^verbatim>\<open>parquet/internal/utils/bit_writer.go\<close>: the bit-packing writer over an
  \<^verbatim>\<open>io.WriterAt\<close>. The interface \<^verbatim>\<open>WriterAtWithLen\<close> is a record of operations that
  every method takes; what the writer needs of it is the locale \<open>writer_at\<close>, which
  \<^verbatim>\<open>WriterAtBuffer\<close> satisfies. The arrays \<^verbatim>\<open>raw\<close> and \<^verbatim>\<open>buf\<close> are scratch space
  that each method overwrites before it uses it, so they are no part of the state. A
  \<^verbatim>\<open>log.Println\<close> is dropped.
\<close>

section \<open>The writer interface\<close>

record 'w WriterAtWithLen =
  WriteAt :: "'w \<Rightarrow> byte list \<Rightarrow> nat \<Rightarrow> ('w \<times> nat \<times> goerr option) option"
  Len :: "'w \<Rightarrow> nat"
  Reserve :: "'w \<Rightarrow> nat \<Rightarrow> 'w"

text \<open>\<^verbatim>\<open>WriterAtBuffer\<close> is its slice.\<close>

definition WriterAtBuffer_WriteAt :: "byte list \<Rightarrow> byte list \<Rightarrow> nat \<Rightarrow> (byte list \<times> nat \<times> goerr option) option" where
  "WriterAtBuffer_WriteAt buf p off =
     (if off > length buf then Some (buf, 0, Some ErrUnexpectedEOF)
      else let n = min (length p) (length buf - off)
        in Some (blit buf off p, n, if n < length p then Some ErrUnexpectedEOF else None))"

definition WriterAtBuffer_Len :: "byte list \<Rightarrow> nat" where
  "WriterAtBuffer_Len buf = length buf"

definition WriterAtBuffer_Reserve :: "byte list \<Rightarrow> nat \<Rightarrow> byte list" where
  "WriterAtBuffer_Reserve buf nbytes = buf"

definition WriterAtBuffer :: "byte list WriterAtWithLen" where
  "WriterAtBuffer =
     \<lparr>WriteAt = WriterAtBuffer_WriteAt, Len = WriterAtBuffer_Len, Reserve = WriterAtBuffer_Reserve\<rparr>"

section \<open>BitWriter\<close>

record 'w BitWriter =
  bwr_wr :: 'w
  bwr_buffer :: u64
  bwr_byteoffset :: nat
  bwr_bitoffset :: nat

definition NewBitWriter :: "'w \<Rightarrow> 'w BitWriter" where
  "NewBitWriter w = \<lparr>bwr_wr = w, bwr_buffer = 0, bwr_byteoffset = 0, bwr_bitoffset = 0\<rparr>"

definition BitWriter_Flush :: "'w WriterAtWithLen \<Rightarrow> 'w BitWriter \<Rightarrow> bool \<Rightarrow> 'w BitWriter option" where
  "BitWriter_Flush ops b align =
     do { (w, nbytes) \<leftarrow>
            (if bwr_bitoffset b > 0 then do {
               let nbytes = BytesForBits (bwr_bitoffset b);
               p \<leftarrow> slice (bytes_of_word 8 (bwr_buffer b)) 0 nbytes;
               (w, n, err) \<leftarrow> WriteAt ops (bwr_wr b) p (bwr_byteoffset b);
               Some (w, nbytes) }
             else Some (bwr_wr b, 0));
          let b = b\<lparr>bwr_wr := w\<rparr>;
          Some (if align then b\<lparr>bwr_buffer := 0, bwr_byteoffset := bwr_byteoffset b + nbytes, bwr_bitoffset := 0\<rparr>
                else b) }"

definition BitWriter_SkipBytes ::
  "'w WriterAtWithLen \<Rightarrow> 'w BitWriter \<Rightarrow> nat \<Rightarrow> ('w BitWriter \<times> nat \<times> goerr option) option" where
  "BitWriter_SkipBytes ops b nbytes =
     do { b \<leftarrow> BitWriter_Flush ops b True;
          let ret = bwr_byteoffset b;
          let b = b\<lparr>bwr_byteoffset := bwr_byteoffset b + nbytes\<rparr>;
          Some (b\<lparr>bwr_wr := Reserve ops (bwr_wr b) (bwr_byteoffset b)\<rparr>, ret, None) }"

definition BitWriter_WriteAt ::
  "'w WriterAtWithLen \<Rightarrow> 'w BitWriter \<Rightarrow> byte list \<Rightarrow> nat \<Rightarrow> ('w BitWriter \<times> nat \<times> goerr option) option" where
  "BitWriter_WriteAt ops b val off =
     do { (w, n, err) \<leftarrow> WriteAt ops (bwr_wr b) val off; Some (b\<lparr>bwr_wr := w\<rparr>, n, err) }"

definition BitWriter_Written :: "'w BitWriter \<Rightarrow> nat" where
  "BitWriter_Written b = bwr_byteoffset b + BytesForBits (bwr_bitoffset b)"

definition BitWriter_WriteValue ::
  "'w WriterAtWithLen \<Rightarrow> 'w BitWriter \<Rightarrow> u64 \<Rightarrow> nat \<Rightarrow> ('w BitWriter \<times> goerr option) option" where
  "BitWriter_WriteValue ops b v nbits =
     (let b = b\<lparr>bwr_buffer := bwr_buffer b OR push_bit (bwr_bitoffset b) v,
                bwr_bitoffset := bwr_bitoffset b + nbits\<rparr>
      in if bwr_bitoffset b \<ge> 64 then
           do { (w, n, err) \<leftarrow> WriteAt ops (bwr_wr b) (bytes_of_word 8 (bwr_buffer b)) (bwr_byteoffset b);
                let b = b\<lparr>bwr_wr := w\<rparr>;
                if err \<noteq> None then Some (b, err)
                else let b = b\<lparr>bwr_byteoffset := bwr_byteoffset b + 8, bwr_bitoffset := bwr_bitoffset b - 64\<rparr>
                  in Some (b\<lparr>bwr_buffer := drop_bit (nbits - bwr_bitoffset b) v\<rparr>, None) }
         else Some (b, None))"

text \<open>\<^verbatim>\<open>WriteValues\<close> keeps the three fields in local variables and stores them back at the end
  and on an error.\<close>

fun write_values_loop ::
  "'w WriterAtWithLen \<Rightarrow> nat \<Rightarrow> 'w \<Rightarrow> u64 \<Rightarrow> nat \<Rightarrow> nat \<Rightarrow> u64 list \<Rightarrow>
   ('w \<times> u64 \<times> nat \<times> nat \<times> goerr option) option" where
  "write_values_loop ops nbits w buffer bitoffset byteoffset [] =
     Some (w, buffer, bitoffset, byteoffset, None)"
| "write_values_loop ops nbits w buffer bitoffset byteoffset (v # vs) =
     (let buffer = buffer OR push_bit bitoffset v; bitoffset = bitoffset + nbits
      in if bitoffset \<ge> 64 then
           do { (w, n, err) \<leftarrow> WriteAt ops w (bytes_of_word 8 buffer) byteoffset;
                if err \<noteq> None then Some (w, buffer, bitoffset, byteoffset, err)
                else let bitoffset = bitoffset - 64
                  in write_values_loop ops nbits w (drop_bit (nbits - bitoffset) v) bitoffset (byteoffset + 8) vs }
         else write_values_loop ops nbits w buffer bitoffset byteoffset vs)"

definition BitWriter_WriteValues ::
  "'w WriterAtWithLen \<Rightarrow> 'w BitWriter \<Rightarrow> u64 list \<Rightarrow> nat \<Rightarrow> ('w BitWriter \<times> goerr option) option" where
  "BitWriter_WriteValues ops b values nbits =
     do { (w, buffer, bitoffset, byteoffset, err) \<leftarrow>
            write_values_loop ops nbits (bwr_wr b) (bwr_buffer b) (bwr_bitoffset b) (bwr_byteoffset b) values;
          Some (\<lparr>bwr_wr = w, bwr_buffer = buffer, bwr_byteoffset = byteoffset, bwr_bitoffset = bitoffset\<rparr>, err) }"

definition BitWriter_WriteAligned ::
  "'w WriterAtWithLen \<Rightarrow> 'w BitWriter \<Rightarrow> u64 \<Rightarrow> nat \<Rightarrow> ('w BitWriter \<times> bool) option" where
  "BitWriter_WriteAligned ops b val nbytes =
     do { b \<leftarrow> BitWriter_Flush ops b True;
          p \<leftarrow> slice (bytes_of_word 8 val) 0 nbytes;
          (w, n, err) \<leftarrow> WriteAt ops (bwr_wr b) p (bwr_byteoffset b);
          let b = b\<lparr>bwr_wr := w\<rparr>;
          if err \<noteq> None then Some (b, False)
          else Some (b\<lparr>bwr_byteoffset := bwr_byteoffset b + nbytes\<rparr>, True) }"

text \<open>\<^verbatim>\<open>binary.PutUvarint\<close>: seven bits a byte, the high bit set on all but the last.\<close>

function PutUvarint :: "u64 \<Rightarrow> byte list" where
  "PutUvarint x = (if x \<ge> 128 then (ucast x OR 128) # PutUvarint (drop_bit 7 x) else [ucast x])"
  by pat_completeness auto
termination
proof (relation "measure unat")
  fix x :: u64 assume "x \<ge> 128"
  then have "128 \<le> unat x" by (simp add: word_le_nat_alt)
  then have "unat x div 128 < unat x" by simp
  moreover have "unat (drop_bit 7 x) = unat x div 128"
    by (simp only: unat_drop_bit_eq) (simp add: drop_bit_eq_div)
  ultimately show "(drop_bit 7 x, x) \<in> measure unat" by simp
qed simp

declare PutUvarint.simps [simp del]

definition BitWriter_WriteVlqInt :: "'w WriterAtWithLen \<Rightarrow> 'w BitWriter \<Rightarrow> u64 \<Rightarrow> ('w BitWriter \<times> bool) option" where
  "BitWriter_WriteVlqInt ops b v =
     do { b \<leftarrow> BitWriter_Flush ops b True;
          let p = PutUvarint v;
          (w, n, err) \<leftarrow> WriteAt ops (bwr_wr b) p (bwr_byteoffset b);
          let b = b\<lparr>bwr_wr := w\<rparr>;
          if err \<noteq> None then Some (b, False)
          else Some (b\<lparr>bwr_byteoffset := bwr_byteoffset b + length p\<rparr>, True) }"

text \<open>\<^verbatim>\<open>uint64((v << 1) ^ (v >> 63))\<close> on the bits of the \<^verbatim>\<open>int64\<close>; the right shift is
  arithmetic.\<close>

definition zigzag_encode :: "u64 \<Rightarrow> u64" where
  "zigzag_encode v = push_bit 1 v XOR (if bit v 63 then NOT 0 else 0)"

definition BitWriter_WriteZigZagVlqInt ::
  "'w WriterAtWithLen \<Rightarrow> 'w BitWriter \<Rightarrow> u64 \<Rightarrow> ('w BitWriter \<times> bool) option" where
  "BitWriter_WriteZigZagVlqInt ops b v = BitWriter_WriteVlqInt ops b (zigzag_encode v)"

definition BitWriter_Clear :: "'w BitWriter \<Rightarrow> 'w BitWriter" where
  "BitWriter_Clear b = b\<lparr>bwr_byteoffset := 0, bwr_bitoffset := 0, bwr_buffer := 0\<rparr>"

section \<open>The contract of a writer\<close>

text \<open>What a \<^verbatim>\<open>BitWriter\<close> relies on: within the size the writer has room for, a write replaces
  exactly its bytes and succeeds.\<close>

definition byte_bits :: "byte list \<Rightarrow> bool list" where
  "byte_bits bs = map (bm_bit bs) [0..<8 * length bs]"

definition packed_bits :: "nat \<Rightarrow> 'a::len word list \<Rightarrow> bool list" where
  "packed_bits nbits vs = concat (map (\<lambda>v. map (bit v) [0..<nbits]) vs)"

definition pad8 :: "bool list \<Rightarrow> bool list" where
  "pad8 xs = xs @ replicate (8 * BytesForBits (length xs) - length xs) False"

lemma length_packed_bits [simp]: "length (packed_bits n vs) = n * length vs"
  by (induction vs) (simp_all add: packed_bits_def)

lemma packed_bits_append: "packed_bits n (vs @ ws) = packed_bits n vs @ packed_bits n ws"
  by (simp add: packed_bits_def)

lemma length_byte_bits [simp]: "length (byte_bits bs) = 8 * length bs"
  by (simp add: byte_bits_def)

lemma byte_bits_append: "byte_bits (xs @ ys) = byte_bits xs @ byte_bits ys"
  by (rule nth_equalityI) (auto simp: byte_bits_def nth_append bm_bit_append)

definition fits_width :: "nat \<Rightarrow> 'a::len word \<Rightarrow> bool" where
  "fits_width w v \<longleftrightarrow> take_bit w v = v"

lemma fits_width_bit: "fits_width w v \<Longrightarrow> w \<le> i \<Longrightarrow> \<not> bit v i"
  by (metis fits_width_def bit_take_bit_iff not_le)

lemma fits_width_0 [simp]: "fits_width w 0"
  by (simp add: fits_width_def)

lemma length_PutUvarint:
  "unat v < 2 ^ (7 * Suc n) \<Longrightarrow> length (PutUvarint v) \<le> Suc n"
proof (induction n arbitrary: v)
  case 0
  then have "v < 128" by (simp add: word_less_nat_alt)
  then show ?case by (simp add: PutUvarint.simps [of v] flip: not_less)
next
  case (Suc n)
  have d: "unat (drop_bit 7 v) = unat v div 128" by (simp only: unat_drop_bit_eq) (simp add: drop_bit_eq_div)
  have "unat v < 2 ^ (7 * Suc n) * 128" using Suc.prems by (simp add: power_add)
  then have "unat (drop_bit 7 v) < 2 ^ (7 * Suc n)" unfolding d by (simp add: div_less_iff_less_mult)
  from Suc.IH [OF this] show ?case by (simp add: PutUvarint.simps [of v])
qed

lemma length_PutUvarint_le: "length (PutUvarint v) \<le> 10"
  using length_PutUvarint [of v 9] unsigned_less [of v, where 'a = nat] by (simp add: less_le_trans)

lemma length_pad8: "length (pad8 xs) = 8 * BytesForBits (length xs)"
proof -
  have "length xs \<le> 8 * BytesForBits (length xs)" unfolding BytesForBits_eq by linarith
  then show ?thesis by (simp add: pad8_def)
qed

lemma nth_pad8: "i < length (pad8 xs) \<Longrightarrow> pad8 xs ! i \<longleftrightarrow> i < length xs \<and> xs ! i"
  by (auto simp: pad8_def nth_append)

lemma pad8_aligned: "length xs = 8 * n \<Longrightarrow> pad8 xs = xs"
  by (simp add: pad8_def)

locale writer_at =
  fixes ops :: "'w WriterAtWithLen" and byte_at :: "'w \<Rightarrow> nat \<Rightarrow> byte" and fits :: "'w \<Rightarrow> nat \<Rightarrow> bool"
  assumes WriteAt_ok: "fits w (off + length p) \<Longrightarrow>
      \<exists>w'. WriteAt ops w p off = Some (w', length p, None) \<and> fits w' = fits w \<and>
        (\<forall>i. byte_at w' i = (if off \<le> i \<and> i < off + length p then p ! (i - off) else byte_at w i))"
    and byte_at_Reserve: "fits w m \<Longrightarrow> byte_at (Reserve ops w n) = byte_at w"
    and fits_Reserve: "fits w m \<Longrightarrow> fits (Reserve ops w n) = fits w"
    and fits_mono: "fits w n \<Longrightarrow> m \<le> n \<Longrightarrow> fits w m"
begin

definition wbit :: "'w \<Rightarrow> nat \<Rightarrow> bool" where
  "wbit w i = bit (byte_at w (i div 8)) (i mod 8)"

lemma WriteAt_bits:
  assumes "fits w (off + length p)"
  shows "\<exists>w'. WriteAt ops w p off = Some (w', length p, None) \<and> fits w' = fits w \<and>
    (\<forall>i. wbit w' i = (if 8 * off \<le> i \<and> i < 8 * (off + length p) then bm_bit p (i - 8 * off) else wbit w i))"
proof -
  from WriteAt_ok [OF assms] obtain w' where w': "WriteAt ops w p off = Some (w', length p, None)"
      "fits w' = fits w"
      "\<forall>i. byte_at w' i = (if off \<le> i \<and> i < off + length p then p ! (i - off) else byte_at w i)"
    by blast
  have "wbit w' i = (if 8 * off \<le> i \<and> i < 8 * (off + length p) then bm_bit p (i - 8 * off) else wbit w i)" for i
  proof (cases "8 * off \<le> i \<and> i < 8 * (off + length p)")
    case le: True
    then have True: "off \<le> i div 8 \<and> i div 8 < off + length p" by (simp add: le_div8_iff div8_less_iff)
    have "(i - 8 * off) div 8 = i div 8 - off" "(i - 8 * off) mod 8 = i mod 8"
      using le by (simp_all add: mod8_diff)
    moreover have "i div 8 - off < length p" using True by linarith
    ultimately show ?thesis using True w'(3) le by (simp add: wbit_def bm_bit_def)
  next
    case False
    then have "\<not> (off \<le> i div 8 \<and> i div 8 < off + length p)" by (simp add: le_div8_iff div8_less_iff)
    then show ?thesis using False w'(3) by (auto simp: wbit_def)
  qed
  then show ?thesis using w' by blast
qed

text \<open>\<open>bits b\<close>: the bits written so far, those in the buffer included; the invariant keeps
  the buffer clear above the bit offset.\<close>

definition bits_at :: "'w BitWriter \<Rightarrow> nat \<Rightarrow> bool" where
  "bits_at b i = (if i < 8 * bwr_byteoffset b then wbit (bwr_wr b) i
     else bit (bwr_buffer b) (i - 8 * bwr_byteoffset b))"

definition bit_count :: "'w BitWriter \<Rightarrow> nat" where
  "bit_count b = 8 * bwr_byteoffset b + bwr_bitoffset b"

definition bits :: "'w BitWriter \<Rightarrow> bool list" where
  "bits b = map (bits_at b) [0..<bit_count b]"

definition inv :: "'w BitWriter \<Rightarrow> bool" where
  "inv b \<longleftrightarrow> bwr_bitoffset b < 64 \<and> (\<forall>i\<ge>bwr_bitoffset b. \<not> bit (bwr_buffer b) i)"

lemma length_bits [simp]: "length (bits b) = bit_count b"
  by (simp add: bits_def)

lemma bits_eqI:
  assumes "bit_count b = length xs" "\<And>i. i < length xs \<Longrightarrow> bits_at b i = xs ! i"
  shows "bits b = xs"
  using assms by (auto intro!: nth_equalityI simp: bits_def)

lemma bits_nth: "i < bit_count b \<Longrightarrow> bits b ! i = bits_at b i"
  by (simp add: bits_def)

lemma WriteValue_bits:
  assumes inv: "inv b" and v: "\<And>i. nbits \<le> i \<Longrightarrow> \<not> bit v i" and nbits: "nbits \<le> 64"
    and fits: "fits (bwr_wr b) ((bit_count b + nbits) div 8)"
  shows "\<exists>b'. BitWriter_WriteValue ops b v nbits = Some (b', None) \<and> inv b' \<and>
    fits (bwr_wr b') = fits (bwr_wr b) \<and> bits b' = bits b @ map (bit v) [0..<nbits]"
proof -
  let ?o = "bwr_bitoffset b" and ?B = "8 * bwr_byteoffset b"
  define buf where "buf = bwr_buffer b OR push_bit ?o v"
  have o: "?o < 64" and clear: "\<And>i. ?o \<le> i \<Longrightarrow> \<not> bit (bwr_buffer b) i" using inv by (auto simp: inv_def)
  have buf: "bit buf i = (if i < ?o then bit (bwr_buffer b) i else bit v (i - ?o))" if "i < 64" for i
    using that clear by (auto simp: buf_def bit_simps)
  have old: "bits b ! i = bits_at b i" if "i < ?B + ?o" for i using that by (simp add: bits_nth bit_count_def)
  show ?thesis
  proof (cases "?o + nbits < 64")
    case True
    let ?b = "b\<lparr>bwr_buffer := buf, bwr_bitoffset := ?o + nbits\<rparr>"
    have "inv ?b" using True v clear
      by (auto simp: inv_def buf_def bit_simps dest: bit_imp_le_length)
    moreover have "bits ?b = bits b @ map (bit v) [0..<nbits]"
    proof (rule bits_eqI)
      fix i assume "i < length (bits b @ map (bit v) [0..<nbits])"
      then show "bits_at ?b i = (bits b @ map (bit v) [0..<nbits]) ! i"
        using True by (auto simp: bits_at_def bit_count_def nth_append buf bits_nth)
    qed (simp add: bit_count_def)
    ultimately show ?thesis using True by (auto simp: BitWriter_WriteValue_def buf_def)
  next
    case False
    have "8 * (bwr_byteoffset b + 8) \<le> bit_count b + nbits" using False by (simp add: bit_count_def)
    then have "bwr_byteoffset b + 8 \<le> (bit_count b + nbits) div 8" by (simp only: le_div8_iff)
    then have "fits (bwr_wr b) (bwr_byteoffset b + length (bytes_of_word 8 buf))"
      using fits_mono [OF fits] by simp
    from WriteAt_bits [OF this] obtain w' where
      w': "WriteAt ops (bwr_wr b) (bytes_of_word 8 buf) (bwr_byteoffset b) = Some (w', 8, None)"
        "fits w' = fits (bwr_wr b)"
      and bits0: "\<forall>i. wbit w' i = (if ?B \<le> i \<and> i < ?B + 64 then bm_bit (bytes_of_word 8 buf) (i - ?B)
        else wbit (bwr_wr b) i)"
      by auto
    then have bits': "wbit w' i = (if ?B \<le> i \<and> i < ?B + 64 then bit buf (i - ?B) else wbit (bwr_wr b) i)" for i
      by (auto simp: bm_bit_bytes_of_word)
    let ?r = "?o + nbits - 64"
    let ?b = "b\<lparr>bwr_wr := w', bwr_byteoffset := bwr_byteoffset b + 8, bwr_bitoffset := ?r,
      bwr_buffer := drop_bit (nbits - ?r) v\<rparr>"
    have nr: "nbits - ?r = 64 - ?o" "?r < 64" using False o nbits by auto
    have "inv ?b" using nr v False by (auto simp: inv_def bit_drop_bit_eq)
    moreover have "bits ?b = bits b @ map (bit v) [0..<nbits]"
    proof (rule bits_eqI)
      fix i assume i: "i < length (bits b @ map (bit v) [0..<nbits])"
      consider "i < ?B" | "?B \<le> i" "i < ?B + ?o" | "?B + ?o \<le> i" "i < ?B + 64" | "?B + 64 \<le> i" by linarith
      then show "bits_at ?b i = (bits b @ map (bit v) [0..<nbits]) ! i"
      proof cases
        case 3
        then have "(bits b @ map (bit v) [0..<nbits]) ! i = bit v (i - (?B + ?o))"
          using i by (auto simp: nth_append bit_count_def)
        moreover have "bits_at ?b i = bit v (i - ?B - ?o)"
          using 3 bits' buf [of "i - ?B"] by (auto simp: bits_at_def)
        ultimately show ?thesis by simp
      next
        case 4
        then have "(bits b @ map (bit v) [0..<nbits]) ! i = bit v (i - (?B + ?o))"
          using i o by (auto simp: nth_append bit_count_def)
        moreover have "bits_at ?b i = bit v (64 - ?o + (i - (?B + 64)))"
          using 4 nr by (simp add: bits_at_def bit_drop_bit_eq)
        moreover have "64 - ?o + (i - (?B + 64)) = i - (?B + ?o)" using 4(1) o by linarith
        ultimately show ?thesis by simp
      qed (use old bits' buf o in \<open>auto simp: bits_at_def nth_append bit_count_def\<close>)
    qed (use False in \<open>simp add: bit_count_def\<close>)
    ultimately show ?thesis using False w' by (auto simp: BitWriter_WriteValue_def buf_def)
  qed
qed

lemma write_values_loop_bits:
  assumes "inv b" "nbits \<le> 64" "\<And>v i. v \<in> set vs \<Longrightarrow> nbits \<le> i \<Longrightarrow> \<not> bit v i"
    and "fits (bwr_wr b) ((bit_count b + nbits * length vs) div 8)"
  shows "\<exists>b'. write_values_loop ops nbits (bwr_wr b) (bwr_buffer b) (bwr_bitoffset b) (bwr_byteoffset b) vs =
      Some (bwr_wr b', bwr_buffer b', bwr_bitoffset b', bwr_byteoffset b', None) \<and> inv b' \<and>
    fits (bwr_wr b') = fits (bwr_wr b) \<and> bits b' = bits b @ packed_bits nbits vs"
  using assms
proof (induction vs arbitrary: b)
  case Nil
  then show ?case by (auto simp: packed_bits_def)
next
  case (Cons v vs)
  have "fits (bwr_wr b) ((bit_count b + nbits) div 8)"
    by (rule fits_mono [OF Cons.prems(4)]) (simp add: div_le_mono)
  with Cons.prems obtain b1 where b1: "BitWriter_WriteValue ops b v nbits = Some (b1, None)" "inv b1"
      "fits (bwr_wr b1) = fits (bwr_wr b)" "bits b1 = bits b @ map (bit v) [0..<nbits]"
    using WriteValue_bits [of b nbits v] by auto
  have count: "bit_count b1 = bit_count b + nbits"
    using arg_cong [OF b1(4), of length] by simp
  with Cons.prems b1 obtain b2 where b2:
    "write_values_loop ops nbits (bwr_wr b1) (bwr_buffer b1) (bwr_bitoffset b1) (bwr_byteoffset b1) vs =
      Some (bwr_wr b2, bwr_buffer b2, bwr_bitoffset b2, bwr_byteoffset b2, None)" "inv b2"
      "fits (bwr_wr b2) = fits (bwr_wr b1)" "bits b2 = bits b1 @ packed_bits nbits vs"
    using Cons.IH [of b1] by (auto simp: add.assoc)
  have "write_values_loop ops nbits (bwr_wr b) (bwr_buffer b) (bwr_bitoffset b) (bwr_byteoffset b) (v # vs) =
    write_values_loop ops nbits (bwr_wr b1) (bwr_buffer b1) (bwr_bitoffset b1) (bwr_byteoffset b1) vs"
    using b1(1)
    by (cases "WriteAt ops (bwr_wr b) (bytes_of_word 8 (bwr_buffer b OR push_bit (bwr_bitoffset b) v)) (bwr_byteoffset b)";
        cases "bwr_bitoffset b + nbits < 64")
      (auto simp: BitWriter_WriteValue_def Let_def split: if_splits)
  then show ?case using b1 b2 by (auto simp: packed_bits_def)
qed

lemma WriteValues_bits:
  assumes "inv b" "nbits \<le> 64" "\<And>v i. v \<in> set vs \<Longrightarrow> nbits \<le> i \<Longrightarrow> \<not> bit v i"
    and "fits (bwr_wr b) ((bit_count b + nbits * length vs) div 8)"
  shows "\<exists>b'. BitWriter_WriteValues ops b vs nbits = Some (b', None) \<and> inv b' \<and>
    fits (bwr_wr b') = fits (bwr_wr b) \<and> bits b' = bits b @ packed_bits nbits vs"
proof -
  from write_values_loop_bits [OF assms] obtain b' where b':
    "write_values_loop ops nbits (bwr_wr b) (bwr_buffer b) (bwr_bitoffset b) (bwr_byteoffset b) vs =
      Some (bwr_wr b', bwr_buffer b', bwr_bitoffset b', bwr_byteoffset b', None)" "inv b'"
    "fits (bwr_wr b') = fits (bwr_wr b)" "bits b' = bits b @ packed_bits nbits vs" by blast
  let ?b = "\<lparr>bwr_wr = bwr_wr b', bwr_buffer = bwr_buffer b', bwr_byteoffset = bwr_byteoffset b',
    bwr_bitoffset = bwr_bitoffset b'\<rparr>"
  have "bits ?b = bits b'" "inv ?b = inv b'"
    by (auto simp: bits_def bits_at_def bit_count_def inv_def)
  then show ?thesis using b' by (auto simp: BitWriter_WriteValues_def)
qed

text \<open>\<open>flushed b\<close>: every bit written is in the underlying writer.\<close>

definition flushed :: "'w BitWriter \<Rightarrow> bool" where
  "flushed b \<longleftrightarrow> (\<forall>i<bit_count b. wbit (bwr_wr b) i = bits b ! i)"

lemma flushed_aligned: "bwr_bitoffset b = 0 \<Longrightarrow> flushed b"
  by (simp add: flushed_def bits_nth bits_at_def bit_count_def)

lemma Flush_bits:
  assumes inv: "inv b" and fits: "fits (bwr_wr b) (BytesForBits (bit_count b))"
  shows "\<exists>b'. BitWriter_Flush ops b align = Some b' \<and> inv b' \<and> flushed b' \<and>
    fits (bwr_wr b') = fits (bwr_wr b) \<and> bits b' = (if align then pad8 (bits b) else bits b) \<and>
    (align \<longrightarrow> bwr_bitoffset b' = 0)"
proof (cases "bwr_bitoffset b = 0")
  case True
  have "pad8 (bits b) = bits b" using True by (simp add: pad8_def bit_count_def)
  moreover have "b\<lparr>bwr_buffer := 0, bwr_bitoffset := 0\<rparr> = b"
  proof -
    have "bwr_buffer b = 0" using inv True by (simp add: inv_def word_eq_bits_iff)
    then show ?thesis using True by (cases b) simp
  qed
  ultimately show ?thesis
    using True inv flushed_aligned [OF True] by (auto simp: BitWriter_Flush_def)
next
  case False
  let ?o = "bwr_bitoffset b" and ?B = "8 * bwr_byteoffset b"
  define n where "n = BytesForBits ?o"
  have o: "0 < ?o" "?o < 64" and clear: "\<And>i. ?o \<le> i \<Longrightarrow> \<not> bit (bwr_buffer b) i"
    using inv False by (auto simp: inv_def)
  have n: "n \<le> 8" "?o \<le> 8 * n" "8 * n < ?o + 8" using o unfolding n_def BytesForBits_eq by linarith+
  define p where "p = take n (bytes_of_word 8 (bwr_buffer b))"
  have p: "slice (bytes_of_word 8 (bwr_buffer b)) 0 n = Some p" "length p = n" using n by (simp_all add: p_def)
  have bp: "bm_bit p i \<longleftrightarrow> i < 8 * n \<and> bit (bwr_buffer b) i" for i
    using n by (auto simp: p_def bm_bit_take bm_bit_bytes_of_word)
  have cnt: "BytesForBits (bit_count b) = bwr_byteoffset b + n"
    unfolding bit_count_def n_def BytesForBits_eq by linarith
  from WriteAt_bits [of "bwr_wr b" "bwr_byteoffset b" p] fits p(2) obtain w' where
    w': "WriteAt ops (bwr_wr b) p (bwr_byteoffset b) = Some (w', n, None)" "fits w' = fits (bwr_wr b)"
    and bits': "\<forall>i. wbit w' i = (if ?B \<le> i \<and> i < 8 * (bwr_byteoffset b + n) then bm_bit p (i - ?B)
      else wbit (bwr_wr b) i)"
    by (auto simp: cnt)
  let ?b = "b\<lparr>bwr_wr := w'\<rparr>"
  let ?a = "?b\<lparr>bwr_buffer := 0, bwr_byteoffset := bwr_byteoffset b + n, bwr_bitoffset := 0\<rparr>"
  have same: "bits ?b = bits b"
    by (rule bits_eqI) (auto simp: bit_count_def bits_nth bits_at_def bits')
  have "flushed ?b"
    unfolding flushed_def same using n by (auto simp: bits_nth bits_at_def bit_count_def bits' bp)
  moreover have "inv ?b" "inv ?a" using inv by (auto simp: inv_def)
  moreover have "bits ?a = pad8 (bits b)"
  proof (rule bits_eqI)
    have len: "length (pad8 (bits b)) = 8 * (bwr_byteoffset b + n)" using cnt by (simp add: length_pad8)
    then show "bit_count ?a = length (pad8 (bits b))" by (simp add: bit_count_def)
    fix i assume i: "i < length (pad8 (bits b))"
    have "bits_at ?a i = wbit w' i" using i len by (simp add: bits_at_def)
    also have "\<dots> = pad8 (bits b) ! i"
    proof (cases "i < ?B + ?o")
      case True
      then show ?thesis
        using i len n by (auto simp: bits' bp nth_pad8 bits_nth bit_count_def bits_at_def)
    next
      case False
      then have "\<not> bit (bwr_buffer b) (i - ?B)" by (intro clear) simp
      then show ?thesis using False i len by (auto simp: bits' bp nth_pad8 bit_count_def)
    qed
    finally show "bits_at ?a i = pad8 (bits b) ! i" .
  qed
  moreover have "BitWriter_Flush ops b align = Some (if align then ?a else ?b)"
    using o p(1) w'(1) by (simp add: BitWriter_Flush_def Let_def flip: n_def)
  ultimately show ?thesis using w'(2) same flushed_aligned [of ?a] by auto
qed


lemma append_bytes:
  assumes inv: "inv b" and aligned: "bwr_bitoffset b = 0" and fits: "fits (bwr_wr b) (bwr_byteoffset b + length p)"
  shows "\<exists>w'. WriteAt ops (bwr_wr b) p (bwr_byteoffset b) = Some (w', length p, None) \<and> fits w' = fits (bwr_wr b) \<and>
    inv (b\<lparr>bwr_wr := w', bwr_byteoffset := bwr_byteoffset b + length p\<rparr>) \<and>
    bits (b\<lparr>bwr_wr := w', bwr_byteoffset := bwr_byteoffset b + length p\<rparr>) = bits b @ byte_bits p"
proof -
  from WriteAt_bits [OF fits] obtain w' where w': "WriteAt ops (bwr_wr b) p (bwr_byteoffset b) = Some (w', length p, None)"
      "fits w' = fits (bwr_wr b)"
    and bits': "\<forall>i. wbit w' i = (if 8 * bwr_byteoffset b \<le> i \<and> i < 8 * (bwr_byteoffset b + length p)
      then bm_bit p (i - 8 * bwr_byteoffset b) else wbit (bwr_wr b) i)" by blast
  let ?b = "b\<lparr>bwr_wr := w', bwr_byteoffset := bwr_byteoffset b + length p\<rparr>"
  have "bits ?b = bits b @ byte_bits p"
    by (rule bits_eqI)
      (use aligned in \<open>auto simp: bit_count_def bits_at_def bits' nth_append bits_nth byte_bits_def\<close>)
  then show ?thesis using w' inv by (auto simp: inv_def)
qed

lemma WriteAligned_bits:
  assumes inv: "inv b" and n: "nbytes \<le> 8" and fits: "fits (bwr_wr b) (BytesForBits (bit_count b) + nbytes)"
  shows "\<exists>b'. BitWriter_WriteAligned ops b val nbytes = Some (b', True) \<and> inv b' \<and> bwr_bitoffset b' = 0 \<and>
    fits (bwr_wr b') = fits (bwr_wr b) \<and> bits b' = pad8 (bits b) @ byte_bits (take nbytes (bytes_of_word 8 val))"
proof -
  have "fits (bwr_wr b) (BytesForBits (bit_count b))" by (rule fits_mono [OF fits]) simp
  from Flush_bits [OF inv this, of True] obtain b1 where b1: "BitWriter_Flush ops b True = Some b1" "inv b1"
      "fits (bwr_wr b1) = fits (bwr_wr b)" "bits b1 = pad8 (bits b)" "bwr_bitoffset b1 = 0" by auto
  have "8 * bwr_byteoffset b1 = 8 * BytesForBits (bit_count b)"
    using arg_cong [OF b1(4), of length] b1(5) by (simp add: length_pad8 bit_count_def)
  then have off: "bwr_byteoffset b1 = BytesForBits (bit_count b)" by simp
  let ?p = "take nbytes (bytes_of_word 8 val)"
  have p: "length ?p = nbytes" using n by simp
  from append_bytes [OF b1(2,5), of ?p] fits off b1(3) p obtain w' where
    w': "WriteAt ops (bwr_wr b1) ?p (bwr_byteoffset b1) = Some (w', nbytes, None)" "fits w' = fits (bwr_wr b)"
      "inv (b1\<lparr>bwr_wr := w', bwr_byteoffset := bwr_byteoffset b1 + nbytes\<rparr>)"
      "bits (b1\<lparr>bwr_wr := w', bwr_byteoffset := bwr_byteoffset b1 + nbytes\<rparr>) = bits b1 @ byte_bits ?p" by auto
  show ?thesis using b1 w' n by (simp add: BitWriter_WriteAligned_def)
qed

lemma WriteVlqInt_bits:
  assumes inv: "inv b" and fits: "fits (bwr_wr b) (BytesForBits (bit_count b) + length (PutUvarint v))"
  shows "\<exists>b'. BitWriter_WriteVlqInt ops b v = Some (b', True) \<and> inv b' \<and> bwr_bitoffset b' = 0 \<and>
    fits (bwr_wr b') = fits (bwr_wr b) \<and> bits b' = pad8 (bits b) @ byte_bits (PutUvarint v)"
proof -
  have "fits (bwr_wr b) (BytesForBits (bit_count b))" by (rule fits_mono [OF fits]) simp
  from Flush_bits [OF inv this, of True] obtain b1 where b1: "BitWriter_Flush ops b True = Some b1" "inv b1"
      "fits (bwr_wr b1) = fits (bwr_wr b)" "bits b1 = pad8 (bits b)" "bwr_bitoffset b1 = 0" by auto
  have "8 * bwr_byteoffset b1 = 8 * BytesForBits (bit_count b)"
    using arg_cong [OF b1(4), of length] b1(5) by (simp add: length_pad8 bit_count_def)
  then have off: "bwr_byteoffset b1 = BytesForBits (bit_count b)" by simp
  from append_bytes [OF b1(2,5), of "PutUvarint v"] fits off b1(3) obtain w' where
    w': "WriteAt ops (bwr_wr b1) (PutUvarint v) (bwr_byteoffset b1) = Some (w', length (PutUvarint v), None)"
      "fits w' = fits (bwr_wr b)"
      "inv (b1\<lparr>bwr_wr := w', bwr_byteoffset := bwr_byteoffset b1 + length (PutUvarint v)\<rparr>)"
      "bits (b1\<lparr>bwr_wr := w', bwr_byteoffset := bwr_byteoffset b1 + length (PutUvarint v)\<rparr>) =
        bits b1 @ byte_bits (PutUvarint v)" by auto
  show ?thesis using b1 w' by (simp add: BitWriter_WriteVlqInt_def)
qed

lemma SkipBytes_bits:
  assumes inv: "inv b" and fits: "fits (bwr_wr b) (BytesForBits (bit_count b))"
  shows "\<exists>b' hole. BitWriter_SkipBytes ops b n = Some (b', BytesForBits (bit_count b), None) \<and> inv b' \<and>
    bwr_bitoffset b' = 0 \<and> fits (bwr_wr b') = fits (bwr_wr b) \<and> length hole = 8 * n \<and>
    bits b' = pad8 (bits b) @ hole"
proof -
  from Flush_bits [OF inv fits, of True] obtain b1 where b1: "BitWriter_Flush ops b True = Some b1" "inv b1"
      "fits (bwr_wr b1) = fits (bwr_wr b)" "bits b1 = pad8 (bits b)" "bwr_bitoffset b1 = 0" by auto
  have "8 * bwr_byteoffset b1 = 8 * BytesForBits (bit_count b)"
    using arg_cong [OF b1(4), of length] b1(5) by (simp add: length_pad8 bit_count_def)
  then have off: "bwr_byteoffset b1 = BytesForBits (bit_count b)" by simp
  let ?w = "Reserve ops (bwr_wr b1) (bwr_byteoffset b1 + n)"
  let ?b = "b1\<lparr>bwr_byteoffset := bwr_byteoffset b1 + n, bwr_wr := ?w\<rparr>"
  have wbit: "wbit ?w = wbit (bwr_wr b1)" using byte_at_Reserve [OF fits [folded b1(3)]] by (simp add: fun_eq_iff wbit_def)
  have "bits ?b = bits b1 @ map (wbit ?w) [8 * bwr_byteoffset b1..<8 * (bwr_byteoffset b1 + n)]"
    by (rule bits_eqI) (use b1(5) in \<open>auto simp: bit_count_def bits_at_def wbit nth_append bits_nth\<close>)
  moreover have "inv ?b" using b1(2) by (simp add: inv_def)
  moreover have "BitWriter_SkipBytes ops b n = Some (?b, BytesForBits (bit_count b), None)"
    using b1(1) off by (simp add: BitWriter_SkipBytes_def)
  ultimately show ?thesis using b1 fits_Reserve [OF fits [folded b1(3)]] by auto
qed

lemma WriteAt_past_bits:
  assumes inv: "inv b" and off: "off + length p \<le> bwr_byteoffset b" and fits: "fits (bwr_wr b) (off + length p)"
  shows "\<exists>b'. BitWriter_WriteAt ops b p off = Some (b', length p, None) \<and> inv b' \<and>
    fits (bwr_wr b') = fits (bwr_wr b) \<and>
    bits b' = take (8 * off) (bits b) @ byte_bits p @ drop (8 * (off + length p)) (bits b)"
proof -
  from WriteAt_bits [OF fits] obtain w' where w': "WriteAt ops (bwr_wr b) p off = Some (w', length p, None)"
      "fits w' = fits (bwr_wr b)"
    and bits': "\<forall>i. wbit w' i = (if 8 * off \<le> i \<and> i < 8 * (off + length p)
      then bm_bit p (i - 8 * off) else wbit (bwr_wr b) i)" by blast
  let ?b = "b\<lparr>bwr_wr := w'\<rparr>"
  have le: "8 * (off + length p) \<le> bit_count b" using off by (simp add: bit_count_def)
  have "bits ?b = take (8 * off) (bits b) @ byte_bits p @ drop (8 * (off + length p)) (bits b)"
  proof (rule bits_eqI)
    show "bit_count ?b = length (take (8 * off) (bits b) @ byte_bits p @ drop (8 * (off + length p)) (bits b))"
      using le by (simp add: bit_count_def)
    fix i assume "i < length (take (8 * off) (bits b) @ byte_bits p @ drop (8 * (off + length p)) (bits b))"
    then have i: "i < bit_count b" using le by simp
    consider "i < 8 * off" | "8 * off \<le> i" "i < 8 * (off + length p)" | "8 * (off + length p) \<le> i" by linarith
    then show "bits_at ?b i = (take (8 * off) (bits b) @ byte_bits p @ drop (8 * (off + length p)) (bits b)) ! i"
      using i le off by cases (auto simp: nth_append min_def bits_nth bits_at_def bits' byte_bits_def)
  qed
  then show ?thesis using w' inv by (auto simp: BitWriter_WriteAt_def inv_def)
qed


end

interpretation buffer_writer: writer_at WriterAtBuffer "\<lambda>buf i. if i < length buf then buf ! i else 0"
    "\<lambda>buf n. n \<le> length buf"
  by unfold_locales
    (auto simp: WriterAtBuffer_def WriterAtBuffer_WriteAt_def WriterAtBuffer_Reserve_def Let_def
      min_def nth_blit fun_eq_iff)

end
