(* ===== verification/Rle_Encoder.thy ===== *)
theory Rle_Encoder
  imports Bit_Writer "HOL-Library.Signed_Division"
begin

unbundle bit_operations_syntax

text \<open>
  \<^verbatim>\<open>parquet/internal/utils/rle.go\<close>: the encoder of Parquet's hybrid of run-length encoding and
  bit packing, over any \<^verbatim>\<open>WriterAtWithLen\<close>. The counters are \<^verbatim>\<open>int32\<close> in the source; here
  they are integers that every increment wraps by \<open>int32\<close>. \<^verbatim>\<open>indicatorBuffer\<close> is scratch
  space. The batch methods are in \<open>Rle_Encoder_Batch\<close>.
\<close>

section \<open>Definitions\<close>

definition int32 :: "int \<Rightarrow> int" where
  "int32 x = signed_take_bit 31 x"

abbreviation "MaxInt32 \<equiv> (2147483647 :: int)"
abbreviation "MaxValuesPerLiteralRun \<equiv> (512 :: nat)"

definition MinRLEBufferSize :: "nat \<Rightarrow> nat" where
  "MinRLEBufferSize bitWidth =
     (let maxLiteralRunSize = 1 + BytesForBits (MaxValuesPerLiteralRun * bitWidth);
          maxRepeatedRunSize = 5 + BytesForBits bitWidth
      in max maxLiteralRunSize maxRepeatedRunSize)"

definition MaxRLEBufferSize :: "nat \<Rightarrow> nat \<Rightarrow> nat" where
  "MaxRLEBufferSize width numValues =
     (let bytesPerRun = width; numRuns = BytesForBits numValues;
          literalMaxSize = numRuns + numRuns * bytesPerRun;
          minRepeatedRunSize = 1 + BytesForBits width;
          repeatedMaxSize = BytesForBits numValues * minRepeatedRunSize
      in max literalMaxSize repeatedMaxSize)"

record 'w RleEncoder =
  enc_w :: "'w BitWriter"
  enc_buffer :: "u64 list"
  enc_BitWidth :: nat
  enc_curVal :: u64
  enc_repCount :: int
  enc_litCount :: int
  enc_literalIndicatorOffset :: int

definition NewRleEncoder :: "'w \<Rightarrow> nat \<Rightarrow> 'w RleEncoder" where
  "NewRleEncoder w width = \<lparr>enc_w = NewBitWriter w, enc_buffer = [], enc_BitWidth = width, enc_curVal = 0,
     enc_repCount = 0, enc_litCount = 0, enc_literalIndicatorOffset = - 1\<rparr>"

text \<open>The start of \<^verbatim>\<open>flushLiteral\<close>: reserve the indicator byte of a new literal run.\<close>

definition open_literal :: "'w WriterAtWithLen \<Rightarrow> 'w RleEncoder \<Rightarrow> ('w RleEncoder \<times> goerr option) option" where
  "open_literal ops r =
     (if enc_literalIndicatorOffset r = - 1 then do {
        (w, off, err) \<leftarrow> BitWriter_SkipBytes ops (enc_w r) 1;
        Some (r\<lparr>enc_w := w, enc_literalIndicatorOffset := int off\<rparr>, err) }
      else Some (r, None))"

definition flushLiteral ::
  "'w WriterAtWithLen \<Rightarrow> 'w RleEncoder \<Rightarrow> bool \<Rightarrow> ('w RleEncoder \<times> goerr option) option" where
  "flushLiteral ops r updateIndicator =
     do { (r, err) \<leftarrow> open_literal ops r;
          if err \<noteq> None then Some (r, err)
          else do {
            (w, err) \<leftarrow> BitWriter_WriteValues ops (enc_w r) (enc_buffer r) (enc_BitWidth r);
            let r = r\<lparr>enc_w := w\<rparr>;
            if err \<noteq> None then Some (r, err)
            else let r = r\<lparr>enc_buffer := []\<rparr>
              in if updateIndicator then do {
                   let ngroups = enc_litCount r sdiv 8;
                   (w, n, err) \<leftarrow> BitWriter_WriteAt ops (enc_w r) [word_of_int (push_bit 1 ngroups OR 1)]
                     (nat (enc_literalIndicatorOffset r));
                   Some (r\<lparr>enc_w := w, enc_literalIndicatorOffset := - 1, enc_litCount := 0\<rparr>, err) }
                 else Some (r, None) } }"

definition flushRepeated :: "'w WriterAtWithLen \<Rightarrow> 'w RleEncoder \<Rightarrow> ('w RleEncoder \<times> bool) option" where
  "flushRepeated ops r =
     do { let indicator = push_bit 1 (word_of_int (enc_repCount r));
          (w, ret) \<leftarrow> BitWriter_WriteVlqInt ops (enc_w r) indicator;
          (w, ret) \<leftarrow> (if ret then BitWriter_WriteAligned ops w (enc_curVal r) (BytesForBits (enc_BitWidth r))
                        else Some (w, False));
          Some (r\<lparr>enc_w := w, enc_repCount := 0, enc_buffer := []\<rparr>, ret) }"

definition flushBuffered ::
  "'w WriterAtWithLen \<Rightarrow> 'w RleEncoder \<Rightarrow> bool \<Rightarrow> ('w RleEncoder \<times> goerr option) option" where
  "flushBuffered ops r done =
     (if enc_repCount r \<ge> 8 then
        let r = r\<lparr>enc_buffer := []\<rparr>
        in if enc_litCount r \<noteq> 0 then flushLiteral ops r True else Some (r, None)
      else do {
        let r = r\<lparr>enc_litCount := int32 (enc_litCount r + int (length (enc_buffer r)))\<rparr>;
        let ngroups = enc_litCount r sdiv 8;
        (r, err) \<leftarrow> (if int32 (ngroups + 1) \<ge> 64 then flushLiteral ops r True else flushLiteral ops r done);
        Some (r\<lparr>enc_repCount := 0\<rparr>, err) })"

text \<open>The loop of \<^verbatim>\<open>Flush\<close> that fills the last group with zeros.\<close>

definition pad_buffer :: "'w RleEncoder \<Rightarrow> 'w RleEncoder" where
  "pad_buffer r =
     (if enc_buffer r \<noteq> [] then r\<lparr>enc_buffer := enc_buffer r @ replicate (8 - length (enc_buffer r)) 0\<rparr> else r)"

definition RleEncoder_Flush :: "'w WriterAtWithLen \<Rightarrow> 'w RleEncoder \<Rightarrow> ('w RleEncoder \<times> nat) option" where
  "RleEncoder_Flush ops r =
     do { r \<leftarrow>
            (if enc_litCount r > 0 \<or> enc_repCount r > 0 \<or> enc_buffer r \<noteq> [] then
               let allRep = (enc_litCount r = 0 \<and>
                     (enc_repCount r = int (length (enc_buffer r)) \<or> enc_buffer r = []))
               in if enc_repCount r > 0 \<and> allRep then do { (r, ok) \<leftarrow> flushRepeated ops r; Some r }
                  else do {
                    let r = pad_buffer r;
                    let r = r\<lparr>enc_litCount := int32 (enc_litCount r + int (length (enc_buffer r)))\<rparr>;
                    (r, err) \<leftarrow> flushLiteral ops r True;
                    Some (r\<lparr>enc_repCount := 0\<rparr>) }
             else Some r);
          w \<leftarrow> BitWriter_Flush ops (enc_w r) False;
          Some (r\<lparr>enc_w := w\<rparr>, BitWriter_Written w) }"

definition RleEncoder_Put ::
  "'w WriterAtWithLen \<Rightarrow> 'w RleEncoder \<Rightarrow> u64 \<Rightarrow> ('w RleEncoder \<times> goerr option) option" where
  "RleEncoder_Put ops r value =
     do { (r, ret) \<leftarrow>
            (if enc_curVal r = value then
               let r = r\<lparr>enc_repCount := int32 (enc_repCount r + 1)\<rparr>
               in Some (r, if enc_repCount r > 8 then Some None else None)
             else do {
               (r, ok) \<leftarrow> (if enc_repCount r \<ge> 8 then flushRepeated ops r else Some (r, True));
               if \<not> ok then Some (r, Some (Some (Errorf ''failed to flush repeated value'')))
               else Some (r\<lparr>enc_repCount := 1, enc_curVal := value\<rparr>, None) });
          case ret of
            Some err \<Rightarrow> Some (r, err)
          | None \<Rightarrow>
              let r = r\<lparr>enc_buffer := enc_buffer r @ [value]\<rparr>
              in if length (enc_buffer r) = 8 then flushBuffered ops r False else Some (r, None) }"

text \<open>The loop of a batch that calls \<^verbatim>\<open>Put\<close> for each value: the number put, and the error.\<close>

fun put_loop :: "'w WriterAtWithLen \<Rightarrow> 'w RleEncoder \<Rightarrow> u64 list \<Rightarrow> nat \<Rightarrow> ('w RleEncoder \<times> nat \<times> goerr option) option" where
  "put_loop ops r [] encoded = Some (r, encoded, None)"
| "put_loop ops r (v # vs) encoded =
     do { (r, err) \<leftarrow> RleEncoder_Put ops r v;
          if err \<noteq> None then Some (r, encoded, err) else put_loop ops r vs (encoded + 1) }"

definition RleEncoder_Clear :: "'w RleEncoder \<Rightarrow> 'w RleEncoder" where
  "RleEncoder_Clear r = r\<lparr>enc_curVal := 0, enc_repCount := 0, enc_buffer := [], enc_litCount := 0,
     enc_literalIndicatorOffset := - 1, enc_w := BitWriter_Clear (enc_w r)\<rparr>"

section \<open>The format\<close>

text \<open>A run and its encoding, as the comment at the head of \<^verbatim>\<open>rle.go\<close> gives it: the indicator, a varint, and
  the repeated value padded to whole bytes or the packed literals. The lengths are those the decoder accepts,
  up to the maximum of its \<^verbatim>\<open>int32\<close> counters; the encoder writes no literal run of more than 63 groups.\<close>

datatype run = Rep nat u64 | Lit "u64 list"

fun run_values :: "run \<Rightarrow> u64 list" where
  "run_values (Rep n v) = replicate n v"
| "run_values (Lit vs) = vs"

fun run_bits :: "nat \<Rightarrow> run \<Rightarrow> bool list" where
  "run_bits w (Rep n v) = byte_bits (PutUvarint (of_nat (2 * n))) @ byte_bits (take (BytesForBits w) (bytes_of_word 8 v))"
| "run_bits w (Lit vs) = byte_bits (PutUvarint (of_nat (2 * (length vs div 8) + 1))) @ packed_bits w vs"

fun run_ok :: "nat \<Rightarrow> run \<Rightarrow> bool" where
  "run_ok w (Rep n v) \<longleftrightarrow> 0 < n \<and> n < 2 ^ 31 \<and> fits_width w v"
| "run_ok w (Lit vs) \<longleftrightarrow> length vs mod 8 = 0 \<and> 8 \<le> length vs \<and> length vs < 2 ^ 31 \<and> list_all (fits_width w) vs"

definition runs_bits :: "nat \<Rightarrow> run list \<Rightarrow> bool list" where
  "runs_bits w runs = concat (map (run_bits w) runs)"

definition runs_values :: "run list \<Rightarrow> u64 list" where
  "runs_values runs = concat (map run_values runs)"

lemma runs_bits_append [simp]: "runs_bits w (xs @ ys) = runs_bits w xs @ runs_bits w ys"
  by (simp add: runs_bits_def)

lemma runs_values_append [simp]: "runs_values (xs @ ys) = runs_values xs @ runs_values ys"
  by (simp add: runs_values_def)

lemma runs_singleton [simp]: "runs_bits w [x] = run_bits w x" "runs_values [x] = run_values x"
  "runs_bits w [] = []" "runs_values [] = []"
  by (simp_all add: runs_bits_def runs_values_def)

lemma run_bits_aligned: "run_ok w r \<Longrightarrow> length (run_bits w r) mod 8 = 0"
  by (cases r) (auto simp: algebra_simps elim!: dvdE intro!: dvd_add simp flip: dvd_eq_mod_eq_0)

lemma runs_bits_aligned: "list_all (run_ok w) runs \<Longrightarrow> length (runs_bits w runs) mod 8 = 0"
  by (induction runs) (auto simp: runs_bits_def run_bits_aligned mod_add_eq [symmetric])

text \<open>The size of an encoding: a run of at least eight values, with an indicator of one byte if it is a literal
  one, costs no more than one byte and \<open>w\<close> bytes for every whole group of eight.\<close>

lemma literal_indicator:
  assumes "g \<le> 63"
  shows "PutUvarint (of_nat (2 * g + 1)) = [of_nat (2 * g + 1)]"
proof -
  define i :: u64 where "i = of_nat (2 * g + 1)"
  have "i < 128" unfolding i_def using assms by (simp only: word_less_nat_alt unsigned_of_nat) (simp add: take_bit_nat_eq_self)
  then have "PutUvarint i = [ucast i]" by (simp add: PutUvarint.simps [of i] flip: not_less)
  moreover have "ucast i = (of_nat (2 * g + 1) :: byte)"
    unfolding i_def by (rule bit_word_eqI) (simp only: bit_unsigned_iff, simp add: bit_of_nat_iff del: of_nat_add of_nat_mult of_nat_Suc)
  ultimately show ?thesis by (simp add: i_def)
qed

fun full_run :: "run \<Rightarrow> bool" where
  "full_run (Rep n v) \<longleftrightarrow> 8 \<le> n"
| "full_run (Lit vs) \<longleftrightarrow> length vs \<le> 8 * 63"

lemma length_indicator:
  assumes "8 \<le> n" "n < 2 ^ 31"
  shows "length (PutUvarint (of_nat (2 * n))) \<le> n div 8"
proof -
  have u: "unat (of_nat (2 * n) :: u64) = 2 * n" using assms(2)
    by (simp only: unsigned_of_nat) (simp add: take_bit_nat_eq_self)
  consider "n < 2 ^ 6" | "2 ^ 6 \<le> n" "n < 2 ^ 13" | "2 ^ 13 \<le> n" by linarith
  then show ?thesis
  proof cases
    case 1
    then have "length (PutUvarint (of_nat (2 * n))) \<le> Suc 0" by (intro length_PutUvarint, unfold u) simp
    moreover have "1 \<le> n div 8" using assms(1) by linarith
    ultimately show ?thesis by linarith
  next
    case 2
    then have "length (PutUvarint (of_nat (2 * n))) \<le> Suc 1" by (intro length_PutUvarint, unfold u) simp
    moreover have "8 \<le> n div 8" using 2 by (simp add: le_div8_iff)
    ultimately show ?thesis by linarith
  next
    case 3
    then have "length (PutUvarint (of_nat (2 * n))) \<le> Suc 4" using assms(2) by (intro length_PutUvarint, unfold u) simp
    moreover have "8 \<le> n div 8" using 3 by (simp add: le_div8_iff)
    ultimately show ?thesis by linarith
  qed
qed

lemma run_bits_size:
  assumes "run_ok w r" "full_run r" "w \<le> 64"
  shows "length (run_bits w r) \<le> 8 * ((1 + w) * (length (run_values r) div 8))"
proof (cases r)
  case (Rep n v)
  have n: "8 \<le> n" "n < 2 ^ 31" using assms Rep by auto
  have "BytesForBits w \<le> w" unfolding BytesForBits_eq by linarith
  moreover have "w * 1 \<le> w * (n div 8)" using n(1) by (intro mult_le_mono2) linarith
  moreover have "(1 + w) * (n div 8) = n div 8 + w * (n div 8)" by simp
  ultimately have "length (PutUvarint (of_nat (2 * n))) + BytesForBits w \<le> (1 + w) * (n div 8)"
    using length_indicator [OF n] by linarith
  moreover have "length (take (BytesForBits w) (bytes_of_word 8 v)) \<le> BytesForBits w" by simp
  ultimately show ?thesis using Rep by simp
next
  case (Lit vs)
  then obtain k where k: "length vs = 8 * k" "1 \<le> k" "k \<le> 63" using assms by auto
  then have "length (PutUvarint (of_nat (2 * (length vs div 8) + 1))) = 1" using literal_indicator [of k] by simp
  then show ?thesis using Lit k(1,2) by (simp only: run_bits.simps length_append length_byte_bits length_packed_bits run_values.simps) (simp add: algebra_simps)
qed

lemma runs_bits_size:
  assumes "list_all (run_ok w) runs" "list_all full_run runs" "w \<le> 64"
  shows "length (runs_bits w runs) \<le> 8 * ((1 + w) * (length (runs_values runs) div 8))"
  using assms
proof (induction runs)
  case (Cons r runs)
  let ?a = "length (run_values r)" and ?b = "length (runs_values runs)"
  have "?a div 8 + ?b div 8 \<le> (?a + ?b) div 8" by linarith
  then have "(1 + w) * (?a div 8 + ?b div 8) \<le> (1 + w) * ((?a + ?b) div 8)" by (rule mult_le_mono2)
  then show ?case
    using Cons run_bits_size [of w r] by (simp add: runs_bits_def runs_values_def distrib_left)
qed simp

section \<open>The encoder keeps the encoding of what was put\<close>

lemma WriteValues_byteoffset:
  "BitWriter_WriteValues ops b vs n = Some (b', err) \<Longrightarrow> bwr_byteoffset b \<le> bwr_byteoffset b'"
proof -
  have "byo \<le> byo'" if "write_values_loop ops n w buf bo byo vs = Some (w', buf', bo', byo', e)"
    for w buf bo byo w' buf' bo' byo' e
    using that
    by (induction vs arbitrary: w buf bo byo)
      (fastforce simp: Let_def split: if_splits Option.bind_splits)+
  then show "BitWriter_WriteValues ops b vs n = Some (b', err) \<Longrightarrow> bwr_byteoffset b \<le> bwr_byteoffset b'"
    by (fastforce simp: BitWriter_WriteValues_def split: Option.bind_splits)
qed

lemma int32_id: "- (2 ^ 31) \<le> x \<Longrightarrow> x < 2 ^ 31 \<Longrightarrow> int32 x = x"
  unfolding int32_def by (rule signed_take_bit_int_eq_self) simp_all

context writer_at
begin

text \<open>\<open>written r runs lits\<close>: the writer holds the encoding of \<open>runs\<close>, then, if a literal run is
  open, a byte reserved for its indicator and the packed literals \<open>lits\<close>.\<close>

definition written :: "'w RleEncoder \<Rightarrow> run list \<Rightarrow> u64 list \<Rightarrow> bool" where
  "written r runs lits \<longleftrightarrow> inv (enc_w r) \<and> enc_BitWidth r \<le> 64 \<and>
     list_all (run_ok (enc_BitWidth r)) runs \<and> list_all (fits_width (enc_BitWidth r)) lits \<and>
     (if enc_literalIndicatorOffset r = - 1 then lits = [] \<and> bits (enc_w r) = runs_bits (enc_BitWidth r) runs
      else \<exists>off hole. enc_literalIndicatorOffset r = int off \<and> off < bwr_byteoffset (enc_w r) \<and>
        8 * off = length (runs_bits (enc_BitWidth r) runs) \<and> length hole = 8 \<and>
        bits (enc_w r) = runs_bits (enc_BitWidth r) runs @ hole @ packed_bits (enc_BitWidth r) lits)"

definition room :: "'w RleEncoder \<Rightarrow> nat \<Rightarrow> bool" where
  "room r n \<longleftrightarrow> fits (bwr_wr (enc_w r)) n"

lemma written_update [simp]:
  "written (r\<lparr>enc_buffer := x\<rparr>) = written r" "written (r\<lparr>enc_litCount := y\<rparr>) = written r"
  "written (r\<lparr>enc_repCount := y\<rparr>) = written r" "written (r\<lparr>enc_curVal := z\<rparr>) = written r"
  by (simp_all add: written_def fun_eq_iff)

lemma room_update [simp]:
  "room (r\<lparr>enc_buffer := x\<rparr>) = room r" "room (r\<lparr>enc_litCount := y\<rparr>) = room r"
  "room (r\<lparr>enc_repCount := y\<rparr>) = room r" "room (r\<lparr>enc_curVal := z\<rparr>) = room r"
  by (simp_all add: room_def fun_eq_iff)

lemma written_open:
  assumes wr: "written r runs lits" and room: "room r n" "length (runs_bits (enc_BitWidth r) runs) \<le> 8 * n"
  shows "\<exists>w off hole. open_literal ops r = Some (r\<lparr>enc_w := w, enc_literalIndicatorOffset := int off\<rparr>, None) \<and>
    inv w \<and> fits (bwr_wr w) = fits (bwr_wr (enc_w r)) \<and> off < bwr_byteoffset w \<and>
    8 * off = length (runs_bits (enc_BitWidth r) runs) \<and> length hole = 8 \<and>
    bits w = runs_bits (enc_BitWidth r) runs @ hole @ packed_bits (enc_BitWidth r) lits"
proof (cases "enc_literalIndicatorOffset r = - 1")
  case False
  then obtain off hole where o: "enc_literalIndicatorOffset r = int off" "off < bwr_byteoffset (enc_w r)"
      "8 * off = length (runs_bits (enc_BitWidth r) runs)" "length hole = 8"
      "bits (enc_w r) = runs_bits (enc_BitWidth r) runs @ hole @ packed_bits (enc_BitWidth r) lits" "inv (enc_w r)"
    using wr by (auto simp: written_def)
  moreover have "r\<lparr>enc_w := enc_w r, enc_literalIndicatorOffset := int off\<rparr> = r" using o(1) by (cases r) simp
  ultimately show ?thesis using False by (intro exI [of _ "enc_w r"] exI [of _ off]) (auto simp: open_literal_def)
next
  case True
  let ?R = "runs_bits (enc_BitWidth r) runs"
  have bits: "bits (enc_w r) = ?R" and lits: "lits = []" and inv: "inv (enc_w r)" using wr True by (auto simp: written_def)
  obtain k where k: "length ?R = 8 * k" using runs_bits_aligned [of "enc_BitWidth r" runs] wr by (auto simp: written_def)
  then have count: "bit_count (enc_w r) = 8 * k" using arg_cong [OF bits, of length] by simp
  then have bc: "BytesForBits (bit_count (enc_w r)) = k" by (simp add: BytesForBits_eq)
  have "k \<le> n" using room(2) k by simp
  then have "fits (bwr_wr (enc_w r)) k" using room(1) fits_mono by (simp add: room_def)
  with SkipBytes_bits [OF inv, of 1] bc obtain w hole where w: "BitWriter_SkipBytes ops (enc_w r) 1 = Some (w, k, None)"
      "inv w" "bwr_bitoffset w = 0" "fits (bwr_wr w) = fits (bwr_wr (enc_w r))" "length hole = 8"
      "bits w = pad8 (bits (enc_w r)) @ hole" by auto
  have pad: "pad8 ?R = ?R" using pad8_aligned [OF k] .
  have "8 * bwr_byteoffset w = 8 * k + 8"
    using arg_cong [OF w(6), of length] w(3,5) bits pad k by (simp add: bit_count_def)
  then have "k < bwr_byteoffset w" by simp
  then show ?thesis using w True bits pad lits k by (auto simp: open_literal_def packed_bits_def)
qed

lemma flush_values:
  assumes wr: "written r runs lits" and vs: "list_all (fits_width (enc_BitWidth r)) (enc_buffer r)"
    and all: "all = lits @ enc_buffer r"
    and room: "room r n" "length (runs_bits (enc_BitWidth r) runs) + 8 + enc_BitWidth r * length all \<le> 8 * n"
  shows "\<exists>w1 w off hole. open_literal ops r = Some (r\<lparr>enc_w := w1, enc_literalIndicatorOffset := int off\<rparr>, None) \<and>
    BitWriter_WriteValues ops w1 (enc_buffer r) (enc_BitWidth r) = Some (w, None) \<and> inv w \<and>
    fits (bwr_wr w) = fits (bwr_wr (enc_w r)) \<and> off < bwr_byteoffset w \<and>
    8 * off = length (runs_bits (enc_BitWidth r) runs) \<and> length hole = 8 \<and>
    bits w = runs_bits (enc_BitWidth r) runs @ hole @ packed_bits (enc_BitWidth r) all"
proof -
  let ?n = "enc_BitWidth r"
  let ?R = "runs_bits ?n runs"
  have wd: "?n \<le> 64" using wr by (auto simp: written_def)
  from written_open [OF wr room(1)] room(2) obtain w1 off hole where 1:
    "open_literal ops r = Some (r\<lparr>enc_w := w1, enc_literalIndicatorOffset := int off\<rparr>, None)" "inv w1"
    "fits (bwr_wr w1) = fits (bwr_wr (enc_w r))" "off < bwr_byteoffset w1" "8 * off = length ?R" "length hole = 8"
    "bits w1 = ?R @ hole @ packed_bits ?n lits" by auto
  have "bit_count w1 + ?n * length (enc_buffer r) \<le> 8 * n"
    using arg_cong [OF 1(7), of length] room(2) all 1(6) by (simp add: algebra_simps)
  then have "(bit_count w1 + ?n * length (enc_buffer r)) div 8 \<le> n" by linarith
  then have "fits (bwr_wr w1) ((bit_count w1 + ?n * length (enc_buffer r)) div 8)"
    using room(1) 1(3) fits_mono by (simp add: room_def)
  moreover have "\<not> bit v i" if "v \<in> set (enc_buffer r)" "?n \<le> i" for v i
    using vs that fits_width_bit by (auto simp: list_all_iff)
  ultimately obtain w2 where 2: "BitWriter_WriteValues ops w1 (enc_buffer r) ?n = Some (w2, None)" "inv w2"
    "fits (bwr_wr w2) = fits (bwr_wr w1)" "bits w2 = bits w1 @ packed_bits ?n (enc_buffer r)"
    using WriteValues_bits [OF 1(2) wd, of "enc_buffer r"] by blast
  have "bits w2 = ?R @ hole @ packed_bits ?n all" using 2(4) 1(7) all by (simp add: packed_bits_append)
  moreover have "off < bwr_byteoffset w2" using 1(4) WriteValues_byteoffset [OF 2(1)] by linarith
  ultimately show ?thesis using 1 2 by auto
qed

lemma flushLiteral_keep:
  assumes wr: "written r runs lits" and vs: "list_all (fits_width (enc_BitWidth r)) (enc_buffer r)"
    and all: "all = lits @ enc_buffer r"
    and room: "room r n" "length (runs_bits (enc_BitWidth r) runs) + 8 + enc_BitWidth r * length all \<le> 8 * n"
  shows "\<exists>w off. flushLiteral ops r False =
      Some (r\<lparr>enc_w := w, enc_literalIndicatorOffset := int off, enc_buffer := []\<rparr>, None) \<and>
    room (r\<lparr>enc_w := w, enc_literalIndicatorOffset := int off, enc_buffer := []\<rparr>) = room r \<and>
    written (r\<lparr>enc_w := w, enc_literalIndicatorOffset := int off, enc_buffer := []\<rparr>) runs all"
proof -
  from flush_values [OF assms] obtain w1 w off hole where *:
    "open_literal ops r = Some (r\<lparr>enc_w := w1, enc_literalIndicatorOffset := int off\<rparr>, None)"
    "BitWriter_WriteValues ops w1 (enc_buffer r) (enc_BitWidth r) = Some (w, None)" "inv w"
    "fits (bwr_wr w) = fits (bwr_wr (enc_w r))" "off < bwr_byteoffset w"
    "8 * off = length (runs_bits (enc_BitWidth r) runs)" "length hole = 8"
    "bits w = runs_bits (enc_BitWidth r) runs @ hole @ packed_bits (enc_BitWidth r) all" by blast
  have "written (r\<lparr>enc_w := w, enc_literalIndicatorOffset := int off, enc_buffer := []\<rparr>) runs all"
    using * wr vs all by (auto simp: written_def)
  then show ?thesis using * by (intro exI [of _ w] exI [of _ off]) (auto simp: flushLiteral_def room_def fun_eq_iff)
qed

lemma flushLiteral_close:
  assumes wr: "written r runs lits" and vs: "list_all (fits_width (enc_BitWidth r)) (enc_buffer r)"
    and all: "all = lits @ enc_buffer r" and k: "length all = 8 * k" "1 \<le> k" "k \<le> 63" "enc_litCount r = int (8 * k)"
    and room: "room r n" "length (runs_bits (enc_BitWidth r) runs) + 8 + enc_BitWidth r * length all \<le> 8 * n"
  shows "\<exists>w. flushLiteral ops r True =
      Some (r\<lparr>enc_w := w, enc_literalIndicatorOffset := - 1, enc_buffer := [], enc_litCount := 0\<rparr>, None) \<and>
    room (r\<lparr>enc_w := w, enc_literalIndicatorOffset := - 1, enc_buffer := [], enc_litCount := 0\<rparr>) = room r \<and>
    written (r\<lparr>enc_w := w, enc_literalIndicatorOffset := - 1, enc_buffer := [], enc_litCount := 0\<rparr>) (runs @ [Lit all]) []"
proof -
  let ?n = "enc_BitWidth r"
  from flush_values [OF wr vs all room] obtain w1 w2 off hole where 2:
    "open_literal ops r = Some (r\<lparr>enc_w := w1, enc_literalIndicatorOffset := int off\<rparr>, None)"
    "BitWriter_WriteValues ops w1 (enc_buffer r) ?n = Some (w2, None)" "inv w2"
    "fits (bwr_wr w2) = fits (bwr_wr (enc_w r))" "off < bwr_byteoffset w2"
    "8 * off = length (runs_bits ?n runs)" "length hole = 8"
    "bits w2 = runs_bits ?n runs @ hole @ packed_bits ?n all" by blast
  let ?p = "[word_of_int (push_bit 1 (enc_litCount r sdiv 8) OR 1)] :: byte list"
  have "int (8 * k) sdiv 8 = int k" using k(2) by (simp add: signed_divide_int_def sgn_if)
  moreover have "push_bit 1 (int k) OR 1 = int (2 * k + 1)" by (simp add: or_one_eq)
  ultimately have p: "?p = PutUvarint (of_nat (2 * (length all div 8) + 1))" using k(1,3,4) literal_indicator [of k] by simp
  have "off + 1 \<le> n" using room(2) 2(6) by simp
  then have "fits (bwr_wr w2) (off + length ?p)" using room(1) 2(4) fits_mono by (simp add: room_def)
  then obtain w3 where 3: "BitWriter_WriteAt ops w2 ?p off = Some (w3, 1, None)" "inv w3"
    "fits (bwr_wr w3) = fits (bwr_wr w2)"
    "bits w3 = take (8 * off) (bits w2) @ byte_bits ?p @ drop (8 * (off + 1)) (bits w2)"
    using WriteAt_past_bits [OF 2(3), of off ?p] 2(5) by auto
  have b3: "bits w3 = runs_bits ?n (runs @ [Lit all])" using 3(4) 2(6-8) unfolding p by simp
  let ?r = "r\<lparr>enc_w := w3, enc_literalIndicatorOffset := - 1, enc_buffer := [], enc_litCount := 0\<rparr>"
  have "flushLiteral ops r True = Some (?r, None)" using 2(1,2) 3(1) by (simp add: flushLiteral_def Let_def)
  moreover have "run_ok ?n (Lit all)" using wr vs all k by (simp add: written_def)
  then have "written ?r (runs @ [Lit all]) []" using 3(2) wr b3 by (auto simp: written_def)
  ultimately show ?thesis using 3(3) 2(4) by (auto simp: room_def fun_eq_iff)
qed

lemma flushRepeated_ok:
  assumes wr: "written r runs []" "enc_literalIndicatorOffset r = - 1"
    and n: "enc_repCount r = int n" "0 < n" "n < 2 ^ 31" "fits_width (enc_BitWidth r) (enc_curVal r)"
    and room: "room r m" "length (runs_bits (enc_BitWidth r) (runs @ [Rep n (enc_curVal r)])) \<le> 8 * m"
  shows "\<exists>w. flushRepeated ops r = Some (r\<lparr>enc_w := w, enc_repCount := 0, enc_buffer := []\<rparr>, True) \<and>
    room (r\<lparr>enc_w := w, enc_repCount := 0, enc_buffer := []\<rparr>) = room r \<and>
    written (r\<lparr>enc_w := w, enc_repCount := 0, enc_buffer := []\<rparr>) (runs @ [Rep n (enc_curVal r)]) []"
proof -
  let ?n = "enc_BitWidth r"
  let ?R = "runs_bits ?n runs" and ?u = "PutUvarint (of_nat (2 * n))" and ?B = "BytesForBits ?n"
  let ?v = "take ?B (bytes_of_word 8 (enc_curVal r))"
  have inv: "inv (enc_w r)" and bits: "bits (enc_w r) = ?R" and wd: "?n \<le> 64" using wr by (auto simp: written_def)
  have B: "?B \<le> 8" using wd unfolding BytesForBits_eq by linarith
  obtain k where k: "length ?R = 8 * k" using runs_bits_aligned [of ?n runs] wr by (auto simp: written_def)
  have bc: "BytesForBits (bit_count (enc_w r)) = k" using arg_cong [OF bits, of length] k by (simp add: BytesForBits_eq)
  have le: "k + length ?u + ?B \<le> m" using room(2) k B by simp
  have ind: "push_bit 1 (word_of_int (enc_repCount r)) = (of_nat (2 * n) :: u64)" using n(1) by (simp add: push_bit_eq_mult)
  have "fits (bwr_wr (enc_w r)) (k + length ?u)" using room(1) le fits_mono by (simp add: room_def)
  with WriteVlqInt_bits [OF inv, of "of_nat (2 * n)"] bc obtain w1 where 1:
    "BitWriter_WriteVlqInt ops (enc_w r) (of_nat (2 * n)) = Some (w1, True)" "inv w1"
    "fits (bwr_wr w1) = fits (bwr_wr (enc_w r))" "bits w1 = ?R @ byte_bits ?u"
    using bits pad8_aligned [OF k] by auto
  have l1: "length (bits w1) = 8 * (k + length ?u)" using 1(4) k by (simp add: algebra_simps)
  then have bc1: "BytesForBits (bit_count w1) = k + length ?u" by (simp add: BytesForBits_eq)
  have "fits (bwr_wr w1) (k + length ?u + ?B)" using room(1) le 1(3) fits_mono by (simp add: room_def)
  with WriteAligned_bits [OF 1(2) B, of "enc_curVal r"] bc1 obtain w2 where 2:
    "BitWriter_WriteAligned ops w1 (enc_curVal r) ?B = Some (w2, True)" "inv w2"
    "fits (bwr_wr w2) = fits (bwr_wr w1)" "bits w2 = bits w1 @ byte_bits ?v"
    using pad8_aligned [OF l1] by auto
  have "bits w2 = runs_bits ?n (runs @ [Rep n (enc_curVal r)])" using 2(4) 1(4) by simp
  then have "written (r\<lparr>enc_w := w2, enc_repCount := 0, enc_buffer := []\<rparr>) (runs @ [Rep n (enc_curVal r)]) []"
    using wr 2(2) n by (auto simp: written_def)
  moreover have "flushRepeated ops r = Some (r\<lparr>enc_w := w2, enc_repCount := 0, enc_buffer := []\<rparr>, True)"
    using 1(1) 2(1) ind by (simp add: flushRepeated_def)
  ultimately show ?thesis using 1(3) 2(3) by (auto simp: room_def fun_eq_iff)
qed

text \<open>\<open>pending r runs lits\<close>: whole runs and whole literal groups are written, no repeated run is
  pending. \<open>enc_inv n w r vs\<close>: the encoder of width \<open>w\<close> with room for \<open>n\<close> bytes has taken the
  values \<open>vs\<close>; they are those of the runs written, then either a pending repetition or the open
  literals and the buffer, whose last \<open>repCount\<close> values are the current one.\<close>

definition pending :: "'w RleEncoder \<Rightarrow> run list \<Rightarrow> u64 list \<Rightarrow> bool" where
  "pending r runs lits \<longleftrightarrow> written r runs lits \<and> list_all full_run runs \<and>
     (enc_literalIndicatorOffset r = - 1 \<longleftrightarrow> lits = []) \<and> enc_litCount r = int (length lits) \<and>
     length lits mod 8 = 0 \<and> length lits \<le> 8 * 62 \<and> list_all (fits_width (enc_BitWidth r)) (enc_buffer r) \<and>
     fits_width (enc_BitWidth r) (enc_curVal r)"

definition enc_inv :: "nat \<Rightarrow> nat \<Rightarrow> 'w RleEncoder \<Rightarrow> u64 list \<Rightarrow> bool" where
  "enc_inv n w r vs \<longleftrightarrow> enc_BitWidth r = w \<and> room r n \<and> 0 \<le> enc_repCount r \<and> enc_repCount r \<le> MaxInt32 \<and>
     (\<exists>runs lits. pending r runs lits \<and>
       (if enc_repCount r \<ge> 8
        then lits = [] \<and> enc_buffer r = [] \<and> vs = runs_values runs @ replicate (nat (enc_repCount r)) (enc_curVal r)
        else length (enc_buffer r) < 8 \<and> vs = runs_values runs @ lits @ enc_buffer r \<and>
          (\<exists>front. enc_buffer r = front @ replicate (nat (enc_repCount r)) (enc_curVal r))))"

lemma enc_inv_bufferI:
  assumes "pending r runs lits" "enc_BitWidth r = w" "room r n" "0 \<le> enc_repCount r" "enc_repCount r < 8"
    "length (enc_buffer r) < 8" "enc_buffer r = front @ replicate (nat (enc_repCount r)) (enc_curVal r)"
    "vs = runs_values runs @ lits @ enc_buffer r"
  shows "enc_inv n w r vs"
  unfolding enc_inv_def using assms by (intro conjI exI [of _ runs] exI [of _ lits]) auto

lemma enc_inv_repI:
  assumes "pending r runs []" "enc_BitWidth r = w" "room r n" "8 \<le> enc_repCount r" "enc_repCount r \<le> MaxInt32"
    "enc_buffer r = []" "vs = runs_values runs @ replicate (nat (enc_repCount r)) (enc_curVal r)"
  shows "enc_inv n w r vs"
  unfolding enc_inv_def using assms by (intro conjI exI [of _ runs] exI [of _ "[]"]) auto

lemma pending_size:
  assumes "pending r runs lits" "enc_BitWidth r = w"
  shows "length (runs_bits w runs) \<le> 8 * ((1 + w) * (length (runs_values runs) div 8))"
  by (rule runs_bits_size) (use assms in \<open>simp_all add: pending_def written_def\<close>)

lemma group_size:
  assumes size: "length (runs_bits w runs) \<le> 8 * ((1 + w) * (length (runs_values runs) div 8))"
    and all: "length all = 8 * k" "1 \<le> k" and n: "(1 + w) * ((length (runs_values runs) + length all) div 8) \<le> n"
  shows "length (runs_bits w runs) + 8 + w * length all \<le> 8 * n"
proof -
  let ?a = "length (runs_values runs) div 8"
  have "(length (runs_values runs) + length all) div 8 = ?a + k" using all(1) by simp
  then have "(1 + w) * ?a + (1 + w) * k \<le> n" using n by (simp add: distrib_left)
  moreover have "8 + w * length all \<le> 8 * ((1 + w) * k)" using all by (simp add: algebra_simps)
  ultimately show ?thesis using size by linarith
qed

lemma flushBuffered_ok:
  assumes p: "pending r runs lits" and w: "enc_BitWidth r = w" and room: "room r n"
    and buf: "length (enc_buffer r) = 8" and rep: "0 \<le> enc_repCount r" "enc_repCount r \<le> 8"
      "enc_repCount r = 8 \<Longrightarrow> enc_buffer r = replicate 8 (enc_curVal r)"
    and vs: "vs = runs_values runs @ lits @ enc_buffer r" "(1 + w) * (length vs div 8) \<le> n"
  shows "\<exists>r'. flushBuffered ops r False = Some (r', None) \<and> enc_inv n w r' vs \<and> enc_repCount r' \<le> enc_repCount r"
proof (cases "enc_repCount r = 8")
  case True
  let ?r = "r\<lparr>enc_buffer := []\<rparr>"
  have wr: "written ?r runs lits" using p by (simp add: pending_def)
  show ?thesis
  proof (cases "lits = []")
    case lits: True
    have "pending ?r runs []" using p lits wr by (simp add: pending_def)
    then have "enc_inv n w ?r vs"
      by (rule enc_inv_repI) (use True w room rep(3) vs(1) lits in simp_all)
    moreover have "flushBuffered ops r False = Some (?r, None)" using True p lits by (simp add: flushBuffered_def pending_def)
    ultimately show ?thesis by auto
  next
    case False
    obtain k where k: "length lits = 8 * k" "k \<le> 62" using p by (auto simp: pending_def)
    have k1: "1 \<le> k" using k False by (cases k) auto
    have "(1 + w) * ((length (runs_values runs) + length lits) div 8) \<le> (1 + w) * (length vs div 8)"
      using vs(1) by (intro mult_le_mono2 div_le_mono) simp
    then have sz: "length (runs_bits w runs) + 8 + w * length lits \<le> 8 * n"
      using group_size [OF pending_size [OF p w] k(1) k1] vs(2) by (blast intro: le_trans)
    have room': "room ?r n" using room by (simp add: room_def)
    from flushLiteral_close [OF wr _ _ k(1) k1 _ _ room'] sz w p k obtain w' where
      cl: "flushLiteral ops ?r True = Some (?r\<lparr>enc_w := w', enc_literalIndicatorOffset := - 1, enc_buffer := [], enc_litCount := 0\<rparr>, None)"
        "room (?r\<lparr>enc_w := w', enc_literalIndicatorOffset := - 1, enc_buffer := [], enc_litCount := 0\<rparr>) = room ?r"
        "written (?r\<lparr>enc_w := w', enc_literalIndicatorOffset := - 1, enc_buffer := [], enc_litCount := 0\<rparr>) (runs @ [Lit lits]) []"
      by (auto simp: pending_def)
    let ?r2 = "?r\<lparr>enc_w := w', enc_literalIndicatorOffset := - 1, enc_buffer := [], enc_litCount := 0\<rparr>"
    have "pending ?r2 (runs @ [Lit lits]) []" using cl(3) p by (simp add: pending_def)
    then have "enc_inv n w ?r2 vs"
      by (rule enc_inv_repI) (use True w room' rep(3) vs(1) cl(2) in simp_all)
    moreover have "flushBuffered ops r False = Some (?r2, None)"
      using True p False cl(1) by (simp add: flushBuffered_def pending_def)
    ultimately show ?thesis by auto
  qed
next
  case False
  obtain k where k: "length lits = 8 * k" "k \<le> 62" using p by (auto simp: pending_def)
  let ?all = "lits @ enc_buffer r" and ?r = "r\<lparr>enc_litCount := int (8 * (k + 1))\<rparr>"
  have all: "length ?all = 8 * (k + 1)" using k buf by simp
  have lit: "int32 (enc_litCount r + int (length (enc_buffer r))) = int (8 * (k + 1))"
    using p k buf by (simp add: pending_def int32_id)
  have grp: "int (8 * (k + 1)) sdiv 8 = int (k + 1)" "int32 (int (k + 1) + 1) = int k + 2"
    using k(2) by (simp_all add: signed_divide_int_def sgn_if int32_id)
  have wr: "written ?r runs lits" using p by (simp add: pending_def)
  have sz: "length (runs_bits w runs) + 8 + w * length ?all \<le> 8 * n"
    using group_size [OF pending_size [OF p w] all] vs by simp
  have room': "room ?r n" using room by (simp add: room_def)
  have fit: "list_all (fits_width (enc_BitWidth ?r)) (enc_buffer ?r)" using p by (simp add: pending_def)
  show ?thesis
  proof (cases "k = 62")
    case True
    from flushLiteral_close [OF wr fit refl _ _ _ _ room'] all True sz w obtain w' where
      cl: "flushLiteral ops ?r True = Some (?r\<lparr>enc_w := w', enc_literalIndicatorOffset := - 1, enc_buffer := [], enc_litCount := 0\<rparr>, None)"
        "room (?r\<lparr>enc_w := w', enc_literalIndicatorOffset := - 1, enc_buffer := [], enc_litCount := 0\<rparr>) = room ?r"
        "written (?r\<lparr>enc_w := w', enc_literalIndicatorOffset := - 1, enc_buffer := [], enc_litCount := 0\<rparr>) (runs @ [Lit ?all]) []"
      by auto
    let ?r2 = "?r\<lparr>enc_w := w', enc_literalIndicatorOffset := - 1, enc_buffer := [], enc_litCount := 0, enc_repCount := 0\<rparr>"
    have "pending ?r2 (runs @ [Lit ?all]) []" using cl(3) p all True by (simp add: pending_def written_def)
    then have "enc_inv n w ?r2 vs" by (rule enc_inv_bufferI) (use w room' vs(1) cl(2) in simp_all)
    moreover have "flushBuffered ops r False = Some (?r2, None)"
      using False rep True cl(1) lit grp by (simp add: flushBuffered_def Let_def)
    ultimately show ?thesis using rep(1) by auto
  next
    case small: False
    from flushLiteral_keep [OF wr fit refl room'] sz w obtain w' off where
      kp: "flushLiteral ops ?r False = Some (?r\<lparr>enc_w := w', enc_literalIndicatorOffset := int off, enc_buffer := []\<rparr>, None)"
        "room (?r\<lparr>enc_w := w', enc_literalIndicatorOffset := int off, enc_buffer := []\<rparr>) = room ?r"
        "written (?r\<lparr>enc_w := w', enc_literalIndicatorOffset := int off, enc_buffer := []\<rparr>) runs ?all"
      by auto
    let ?r2 = "?r\<lparr>enc_w := w', enc_literalIndicatorOffset := int off, enc_buffer := [], enc_repCount := 0\<rparr>"
    have "pending ?r2 runs ?all" using kp(3) p all k small buf by (auto simp: pending_def written_def)
    then have "enc_inv n w ?r2 vs" by (rule enc_inv_bufferI) (use w room' vs(1) kp(2) in simp_all)
    moreover have "flushBuffered ops r False = Some (?r2, None)"
      using False rep small k(2) kp(1) lit grp by (simp add: flushBuffered_def Let_def)
    ultimately show ?thesis using rep(1) by auto
  qed
qed

lemma flushRepeated_inv:
  assumes inv: "enc_inv n w r vs" and rep: "8 \<le> enc_repCount r" and n: "(1 + w) * (length vs div 8) \<le> n"
  shows "\<exists>r'. flushRepeated ops r = Some (r', True) \<and> enc_inv n w r' vs \<and> enc_repCount r' = 0 \<and> enc_buffer r' = [] \<and>
    enc_curVal r' = enc_curVal r"
proof -
  from inv rep obtain runs where p: "pending r runs []" and w: "enc_BitWidth r = w" and room: "room r n"
    and vs: "vs = runs_values runs @ replicate (nat (enc_repCount r)) (enc_curVal r)" and max: "enc_repCount r \<le> MaxInt32"
    by (auto simp: enc_inv_def)
  define k where "k = nat (enc_repCount r)"
  have k: "enc_repCount r = int k" "8 \<le> k" "k < 2 ^ 31" using rep max by (simp_all add: k_def)
  have wr: "written r runs []" "enc_literalIndicatorOffset r = - 1" using p by (auto simp: pending_def)
  let ?x = "Rep k (enc_curVal r)"
  have ok: "run_ok w ?x" using p w k by (simp add: pending_def)
  have "length (runs_bits w (runs @ [?x])) \<le> 8 * ((1 + w) * (length (runs_values (runs @ [?x])) div 8))"
    by (rule runs_bits_size) (use p w ok k in \<open>simp_all add: pending_def written_def\<close>)
  then have sz: "length (runs_bits w (runs @ [?x])) \<le> 8 * n" using n vs by (simp add: k_def)
  from flushRepeated_ok [OF wr k(1) _ k(3) _ room] sz w p k obtain w' where
    f: "flushRepeated ops r = Some (r\<lparr>enc_w := w', enc_repCount := 0, enc_buffer := []\<rparr>, True)"
      "room (r\<lparr>enc_w := w', enc_repCount := 0, enc_buffer := []\<rparr>) = room r"
      "written (r\<lparr>enc_w := w', enc_repCount := 0, enc_buffer := []\<rparr>) (runs @ [?x]) []"
    by (auto simp: pending_def)
  have "pending (r\<lparr>enc_w := w', enc_repCount := 0, enc_buffer := []\<rparr>) (runs @ [?x]) []"
    using f(3) p k(2) by (simp add: pending_def)
  then have "enc_inv n w (r\<lparr>enc_w := w', enc_repCount := 0, enc_buffer := []\<rparr>) vs"
    by (rule enc_inv_bufferI) (use w room f(2) vs in \<open>simp_all add: k_def\<close>)
  then show ?thesis using f(1) by auto
qed

lemma put_buffered:
  assumes p: "pending r runs lits" and w: "enc_BitWidth r = w" and room: "room r n" and v: "fits_width w v" "enc_curVal r = v"
    and rep: "0 < enc_repCount r" "enc_repCount r \<le> 8" and buf: "length (enc_buffer r) < 8"
      "enc_buffer r = front @ replicate (nat (enc_repCount r) - 1) v"
    and vs: "vs = runs_values runs @ lits @ enc_buffer r" "(1 + w) * (length (vs @ [v]) div 8) \<le> n"
  shows "\<exists>r'. (let r = r\<lparr>enc_buffer := enc_buffer r @ [v]\<rparr>
      in if length (enc_buffer r) = 8 then flushBuffered ops r False else Some (r, None)) = Some (r', None) \<and>
    enc_inv n w r' (vs @ [v]) \<and> enc_repCount r' \<le> enc_repCount r"
proof -
  let ?r = "r\<lparr>enc_buffer := enc_buffer r @ [v]\<rparr>"
  have p': "pending ?r runs lits" using p v w by (simp add: pending_def)
  have "Suc (nat (enc_repCount r) - 1) = nat (enc_repCount r)" using rep by simp
  then have buf': "enc_buffer ?r = front @ replicate (nat (enc_repCount r)) v"
    using buf(2) replicate_append_same [of "nat (enc_repCount r) - 1" v] replicate_Suc [of "nat (enc_repCount r) - 1" v] by simp
  show ?thesis
  proof (cases "length (enc_buffer ?r) = 8")
    case True
    have all8: "enc_buffer ?r = replicate 8 (enc_curVal ?r)" if "enc_repCount ?r = 8"
    proof -
      have "length front = 0" using arg_cong [OF buf', of length] True that by simp
      then show ?thesis using buf' that v(2) by simp
    qed
    have "\<exists>r'. flushBuffered ops ?r False = Some (r', None) \<and> enc_inv n w r' (vs @ [v]) \<and> enc_repCount r' \<le> enc_repCount ?r"
      by (rule flushBuffered_ok [OF p' _ _ True _ _ all8]) (use w room rep vs in simp_all)
    then show ?thesis using True by simp
  next
    case False
    have "enc_repCount r < 8"
    proof -
      have "nat (enc_repCount r) \<le> length (enc_buffer ?r)" using arg_cong [OF buf', of length] by simp
      then show ?thesis using False buf(1) by auto
    qed
    then have "enc_inv n w ?r (vs @ [v])"
      by (intro enc_inv_bufferI [OF p', where front = front]) (use w room rep buf buf' False vs v in simp_all)
    then show ?thesis using False by simp
  qed
qed

lemma Put_ok:
  assumes inv: "enc_inv n w r vs" and v: "fits_width w v" and max: "enc_curVal r = v \<Longrightarrow> enc_repCount r < MaxInt32"
    and n: "(1 + w) * (length (vs @ [v]) div 8) \<le> n"
  shows "\<exists>r'. RleEncoder_Put ops r v = Some (r', None) \<and> enc_inv n w r' (vs @ [v]) \<and>
    enc_repCount r' \<le> (if enc_curVal r = v then enc_repCount r + 1 else 1)"
proof -
  have w: "enc_BitWidth r = w" and room: "room r n" and rep0: "0 \<le> enc_repCount r" using inv by (auto simp: enc_inv_def)
  have n': "(1 + w) * (length vs div 8) \<le> n"
    using n by (rule le_trans [rotated]) (intro mult_le_mono2 div_le_mono, simp)
  consider (long) "enc_curVal r = v" "8 \<le> enc_repCount r" | (short) "enc_curVal r = v" "enc_repCount r < 8"
    | (new) "enc_curVal r \<noteq> v" by linarith
  then show ?thesis
  proof cases
    case long
    from inv long obtain runs where p: "pending r runs []" "enc_buffer r = []"
      and vs: "vs = runs_values runs @ replicate (nat (enc_repCount r)) v" by (auto simp: enc_inv_def)
    have i: "int32 (enc_repCount r + 1) = enc_repCount r + 1" using long max by (intro int32_id) auto
    let ?r = "r\<lparr>enc_repCount := enc_repCount r + 1\<rparr>"
    have "pending ?r runs []" using p by (simp add: pending_def)
    then have "enc_inv n w ?r (vs @ [v])"
      by (rule enc_inv_repI) (use w room long p max vs in \<open>simp_all add: nat_add_distrib replicate_append_same\<close>)
    then show ?thesis using i long by (simp add: RleEncoder_Put_def)
  next
    case short
    from inv short obtain runs lits front where p: "pending r runs lits" "length (enc_buffer r) < 8"
      and vs: "vs = runs_values runs @ lits @ enc_buffer r"
      and front: "enc_buffer r = front @ replicate (nat (enc_repCount r)) v" by (auto simp: enc_inv_def)
    have i: "int32 (enc_repCount r + 1) = enc_repCount r + 1" using short rep0 by (intro int32_id) auto
    let ?r = "r\<lparr>enc_repCount := enc_repCount r + 1\<rparr>"
    have p': "pending ?r runs lits" using p by (simp add: pending_def)
    have "nat (enc_repCount r + 1) - 1 = nat (enc_repCount r)" using rep0 by simp
    then have "\<exists>r'. (let r = ?r\<lparr>enc_buffer := enc_buffer ?r @ [v]\<rparr>
        in if length (enc_buffer r) = 8 then flushBuffered ops r False else Some (r, None)) = Some (r', None) \<and>
      enc_inv n w r' (vs @ [v]) \<and> enc_repCount r' \<le> enc_repCount ?r"
      by (intro put_buffered [OF p']) (use w room v short rep0 p front vs n in simp_all)
    then show ?thesis using i short by (simp add: RleEncoder_Put_def Let_def)
  next
    case new
    have "\<exists>r1. (if enc_repCount r \<ge> 8 then flushRepeated ops r else Some (r, True)) = Some (r1, True) \<and>
        enc_inv n w r1 vs \<and> enc_repCount r1 < 8"
      using flushRepeated_inv [OF inv _ n'] inv by (cases "8 \<le> enc_repCount r") auto
    then obtain r1 where r1: "(if enc_repCount r \<ge> 8 then flushRepeated ops r else Some (r, True)) = Some (r1, True)"
      "enc_inv n w r1 vs" "enc_repCount r1 < 8" by blast
    then obtain runs lits where p: "pending r1 runs lits" "length (enc_buffer r1) < 8" "enc_BitWidth r1 = w" "room r1 n"
      and vs: "vs = runs_values runs @ lits @ enc_buffer r1" by (auto simp: enc_inv_def)
    let ?r = "r1\<lparr>enc_repCount := 1, enc_curVal := v\<rparr>"
    have p': "pending ?r runs lits" using p v by (simp add: pending_def)
    have "\<exists>r'. (let r = ?r\<lparr>enc_buffer := enc_buffer ?r @ [v]\<rparr>
        in if length (enc_buffer r) = 8 then flushBuffered ops r False else Some (r, None)) = Some (r', None) \<and>
      enc_inv n w r' (vs @ [v]) \<and> enc_repCount r' \<le> enc_repCount ?r"
      by (intro put_buffered [OF p', where front = "enc_buffer r1"]) (use v p vs n in simp_all)
    then show ?thesis using r1(1) new by (simp add: RleEncoder_Put_def Let_def)
  qed
qed

lemma put_loop_ok:
  assumes "enc_inv n w r vs" "list_all (fits_width w) xs"
    "xs \<noteq> [] \<Longrightarrow> enc_curVal r = hd xs \<Longrightarrow> enc_repCount r + int (length xs) \<le> MaxInt32" "length xs < 2 ^ 31"
    "(1 + w) * (length (vs @ xs) div 8) \<le> n"
  shows "\<exists>r'. put_loop ops r xs i = Some (r', i + length xs, None) \<and> enc_inv n w r' (vs @ xs)"
  using assms
proof (induction xs arbitrary: r vs i)
  case (Cons x xs)
  have n1: "(1 + w) * (length (vs @ [x]) div 8) \<le> n"
    using Cons.prems(5) by (rule le_trans [rotated]) (intro mult_le_mono2 div_le_mono, simp)
  have "enc_curVal r = x \<Longrightarrow> enc_repCount r < MaxInt32" using Cons.prems(3) by simp
  moreover have "fits_width w x" using Cons.prems(2) by simp
  ultimately obtain r1 where
    r1: "RleEncoder_Put ops r x = Some (r1, None)" "enc_inv n w r1 (vs @ [x])"
      "enc_repCount r1 \<le> (if enc_curVal r = x then enc_repCount r + 1 else 1)" using Put_ok [OF Cons.prems(1) _ _ n1] by blast
  have max1: "enc_repCount r1 + int (length xs) \<le> MaxInt32"
    using r1(3) Cons.prems(3,4) by (auto split: if_splits)
  from Cons.IH [OF r1(2) _ max1, of "i + 1"] Cons.prems(2,4,5) obtain r2 where
    "put_loop ops r1 xs (i + 1) = Some (r2, i + 1 + length xs, None)" "enc_inv n w r2 (vs @ x # xs)" by auto
  then show ?case using r1(1) by auto
qed simp

lemma New_inv: "w \<le> 64 \<Longrightarrow> fits b n \<Longrightarrow> enc_inv n w (NewRleEncoder b w) []"
  by (rule enc_inv_bufferI [where runs = "[]" and lits = "[]" and front = "[]"])
    (auto simp: NewRleEncoder_def pending_def written_def room_def inv_def NewBitWriter_def bits_def bit_count_def)

lemma Clear_inv:
  assumes "enc_inv n w r vs"
  shows "enc_inv n w (RleEncoder_Clear r) []"
  by (rule enc_inv_bufferI [where runs = "[]" and lits = "[]" and front = "[]"])
    (use assms in \<open>auto simp: enc_inv_def RleEncoder_Clear_def pending_def written_def room_def inv_def
      BitWriter_Clear_def bits_def bit_count_def\<close>)

text \<open>\<open>closed w r runs\<close>: everything is written, as the encoding of \<open>runs\<close>.\<close>

definition closed :: "nat \<Rightarrow> 'w RleEncoder \<Rightarrow> run list \<Rightarrow> bool" where
  "closed w r runs \<longleftrightarrow> enc_BitWidth r = w \<and> written r runs [] \<and> enc_literalIndicatorOffset r = - 1 \<and>
     enc_repCount r = 0 \<and> enc_litCount r = 0 \<and> enc_buffer r = []"

lemma finish_flush:
  assumes cl: "closed w r runs" and room: "room r n" "length (runs_bits w runs) \<le> 8 * n"
  shows "\<exists>w' len. BitWriter_Flush ops (enc_w r) False = Some w' \<and> BitWriter_Written w' = len \<and>
    length (runs_bits w runs) = 8 * len \<and> flushed w' \<and> bits w' = runs_bits w runs \<and>
    closed w (r\<lparr>enc_w := w'\<rparr>) runs \<and> room (r\<lparr>enc_w := w'\<rparr>) = room r"
proof -
  have inv: "inv (enc_w r)" and bits: "bits (enc_w r) = runs_bits w runs" and ok: "list_all (run_ok w) runs"
    using cl by (auto simp: closed_def written_def)
  obtain k where k: "length (runs_bits w runs) = 8 * k" using runs_bits_aligned [OF ok] by auto
  have bc: "BytesForBits (bit_count (enc_w r)) = k" using arg_cong [OF bits, of length] k by (simp add: BytesForBits_eq)
  have "fits (bwr_wr (enc_w r)) k" using room k fits_mono by (simp add: room_def)
  with Flush_bits [OF inv, of False] bc obtain w' where w': "BitWriter_Flush ops (enc_w r) False = Some w'" "inv w'"
    "flushed w'" "fits (bwr_wr w') = fits (bwr_wr (enc_w r))" "bits w' = runs_bits w runs" using bits by auto
  have "bit_count w' = 8 * k" using arg_cong [OF w'(5), of length] k by simp
  then have "BitWriter_Written w' = k"
    using BytesForBits_eq [of "bit_count w'"] by (simp add: BitWriter_Written_def bit_count_def BytesForBits_eq)
  then show ?thesis using w' k cl by (auto simp: closed_def written_def room_def fun_eq_iff)
qed

lemma short_rep_size:
  assumes size: "length (runs_bits w runs) \<le> 8 * ((1 + w) * (length (runs_values runs) div 8))" and k: "0 < k" "k < 8"
  shows "length (runs_bits w (runs @ [Rep k v])) \<le> 8 * ((1 + w) * BytesForBits (length (runs_values runs) + k))"
proof -
  let ?a = "length (runs_values runs)"
  have "unat (of_nat (2 * k) :: u64) = 2 * k" using k(2)
    by (simp only: unsigned_of_nat) (simp add: take_bit_nat_eq_self)
  then have "length (PutUvarint (of_nat (2 * k))) \<le> Suc 0" using k(2) by (intro length_PutUvarint) simp
  moreover have "BytesForBits w \<le> w" unfolding BytesForBits_eq by linarith
  ultimately have "length (run_bits w (Rep k v)) \<le> 8 * (1 + w)" by simp
  moreover have "?a div 8 + 1 \<le> BytesForBits (?a + k)" unfolding BytesForBits_eq using k by linarith
  then have "(1 + w) * (?a div 8 + 1) \<le> (1 + w) * BytesForBits (?a + k)" by (rule mult_le_mono2)
  ultimately show ?thesis using size by (simp add: distrib_left)
qed

lemma Flush_repeated:
  assumes inv: "enc_inv n w r vs" and rep: "0 < enc_repCount r" and lit: "enc_litCount r = 0"
    and all: "enc_repCount r = int (length (enc_buffer r)) \<or> enc_buffer r = []"
    and n: "(1 + w) * BytesForBits (length vs) \<le> n"
  shows "\<exists>r' runs. flushRepeated ops r = Some (r', True) \<and> closed w r' runs \<and> runs_values runs = vs \<and> room r' n \<and>
    length (runs_bits w runs) \<le> 8 * n"
proof -
  define k where "k = nat (enc_repCount r)"
  from inv lit obtain runs where p: "pending r runs []" and w: "enc_BitWidth r = w" and room: "room r n"
    and max: "enc_repCount r \<le> MaxInt32" and vs: "vs = runs_values runs @ replicate k (enc_curVal r)"
  proof (cases "8 \<le> enc_repCount r")
    case True
    then show ?thesis using inv that by (auto simp: enc_inv_def k_def)
  next
    case False
    then obtain runs lits front where *: "pending r runs lits" "vs = runs_values runs @ lits @ enc_buffer r"
      "enc_buffer r = front @ replicate k (enc_curVal r)" "enc_BitWidth r = w" "room r n"
      using inv by (auto simp: enc_inv_def k_def)
    have "lits = []" using *(1) lit by (simp add: pending_def)
    moreover have "front = []" using all *(3) rep by (auto simp: k_def)
    ultimately show ?thesis using * that False by auto
  qed
  have k: "enc_repCount r = int k" "0 < k" "k < 2 ^ 31" using rep max by (simp_all add: k_def)
  have wr: "written r runs []" "enc_literalIndicatorOffset r = - 1" and cur: "fits_width w (enc_curVal r)"
    using p w by (auto simp: pending_def)
  have "length (runs_bits w (runs @ [Rep k (enc_curVal r)])) \<le> 8 * ((1 + w) * BytesForBits (length vs))"
  proof (cases "k < 8")
    case True
    then show ?thesis using short_rep_size [OF pending_size [OF p w] k(2) True] vs by simp
  next
    case False
    have "length (runs_bits w (runs @ [Rep k (enc_curVal r)])) \<le>
        8 * ((1 + w) * (length (runs_values (runs @ [Rep k (enc_curVal r)])) div 8))"
      by (rule runs_bits_size) (use p w k False cur in \<open>simp_all add: pending_def written_def\<close>)
    also have "length (runs_values (runs @ [Rep k (enc_curVal r)])) div 8 \<le> BytesForBits (length vs)"
      using vs unfolding BytesForBits_eq by (simp add: div_le_mono)
    finally show ?thesis by (meson le_trans mult_le_mono2)
  qed
  then have sz: "length (runs_bits w (runs @ [Rep k (enc_curVal r)])) \<le> 8 * n" using n by linarith
  from flushRepeated_ok [OF wr k _ room] sz w cur obtain w' where
    f: "flushRepeated ops r = Some (r\<lparr>enc_w := w', enc_repCount := 0, enc_buffer := []\<rparr>, True)"
      "room (r\<lparr>enc_w := w', enc_repCount := 0, enc_buffer := []\<rparr>) = room r"
      "written (r\<lparr>enc_w := w', enc_repCount := 0, enc_buffer := []\<rparr>) (runs @ [Rep k (enc_curVal r)]) []" by auto
  have "closed w (r\<lparr>enc_w := w', enc_repCount := 0, enc_buffer := []\<rparr>) (runs @ [Rep k (enc_curVal r)])"
    using f(3) w wr(2) lit by (simp add: closed_def)
  then show ?thesis using f(1,2) room sz vs
    by (intro exI [of _ "r\<lparr>enc_w := w', enc_repCount := 0, enc_buffer := []\<rparr>"] exI [of _ "runs @ [Rep k (enc_curVal r)]"]) simp
qed

lemma Flush_literal:
  assumes inv: "enc_inv n w r vs" and some: "0 < enc_litCount r \<or> 0 < enc_repCount r \<or> enc_buffer r \<noteq> []"
    and not_rep: "\<not> (0 < enc_repCount r \<and> enc_litCount r = 0 \<and>
      (enc_repCount r = int (length (enc_buffer r)) \<or> enc_buffer r = []))"
    and n: "(1 + w) * BytesForBits (length vs) \<le> n"
  defines "r1 \<equiv> pad_buffer r"
  shows "\<exists>r' runs k. flushLiteral ops (r1\<lparr>enc_litCount := int32 (enc_litCount r1 + int (length (enc_buffer r1)))\<rparr>) True =
      Some (r', None) \<and> closed w (r'\<lparr>enc_repCount := 0\<rparr>) runs \<and> runs_values runs = vs @ replicate k 0 \<and> k < 8 \<and>
    room r' n \<and> length (runs_bits w runs) \<le> 8 * n"
proof -
  have "\<not> 8 \<le> enc_repCount r" using inv not_rep by (auto simp: enc_inv_def pending_def)
  then obtain runs lits front where p: "pending r runs lits" and w: "enc_BitWidth r = w" and room: "room r n"
    and buf: "length (enc_buffer r) < 8" "enc_buffer r = front @ replicate (nat (enc_repCount r)) (enc_curVal r)"
    and vs: "vs = runs_values runs @ lits @ enc_buffer r"
    using inv by (auto simp: enc_inv_def)
  obtain j where j: "length lits = 8 * j" "j \<le> 62" using p by (auto simp: pending_def)
  define g where "g = (if enc_buffer r = [] then 0 else 1 :: nat)"
  define k where "k = (if enc_buffer r = [] then 0 else 8 - length (enc_buffer r))"
  let ?all = "lits @ enc_buffer r1" and ?r = "r1\<lparr>enc_litCount := int (8 * (j + g))\<rparr>"
  have buf1: "enc_buffer r1 = enc_buffer r @ replicate k 0" by (auto simp: r1_def pad_buffer_def k_def)
  have len1: "length (enc_buffer r1) = 8 * g" using buf(1) by (auto simp: r1_def pad_buffer_def g_def)
  have same: "enc_BitWidth r1 = w" "enc_litCount r1 = int (8 * j)" "room r1 = room r" "written r1 = written r"
    using w p j by (auto simp: r1_def pad_buffer_def pending_def)
  have lit: "int32 (enc_litCount r1 + int (length (enc_buffer r1))) = int (8 * (j + g))"
    using same(2) len1 j(2) by (simp add: int32_id g_def)
  have g1: "1 \<le> j + g" using some j p buf(2) by (auto simp: g_def pending_def)
  have all: "length ?all = 8 * (j + g)" using j len1 by simp
  have bytes: "(length (runs_values runs) + length ?all) div 8 \<le> BytesForBits (length vs)"
    using j(1) vs len1 unfolding BytesForBits_eq all by (cases "enc_buffer r") (auto simp: g_def)
  have "(1 + w) * ((length (runs_values runs) + length ?all) div 8) \<le> n"
    using mult_le_mono2 [OF bytes, of "1 + w"] n by linarith
  from group_size [OF pending_size [OF p w] all g1 this]
  have sz: "length (runs_bits w runs) + 8 + w * length ?all \<le> 8 * n" .
  have wr: "written ?r runs lits" using p same by (simp add: pending_def)
  have fit: "list_all (fits_width (enc_BitWidth ?r)) (enc_buffer ?r)" using p w same buf1 by (auto simp: pending_def list_all_iff)
  have g63: "j + g \<le> 63" using j(2) by (simp add: g_def)
  from flushLiteral_close [OF wr fit _ all g1 g63, where n = n] room same sz obtain w' where
    f: "flushLiteral ops ?r True = Some (?r\<lparr>enc_w := w', enc_literalIndicatorOffset := - 1, enc_buffer := [], enc_litCount := 0\<rparr>, None)"
      "room (?r\<lparr>enc_w := w', enc_literalIndicatorOffset := - 1, enc_buffer := [], enc_litCount := 0\<rparr>) = room ?r"
      "written (?r\<lparr>enc_w := w', enc_literalIndicatorOffset := - 1, enc_buffer := [], enc_litCount := 0\<rparr>) (runs @ [Lit ?all]) []"
    by auto
  let ?r' = "?r\<lparr>enc_w := w', enc_literalIndicatorOffset := - 1, enc_buffer := [], enc_litCount := 0\<rparr>"
  have "closed w (?r'\<lparr>enc_repCount := 0\<rparr>) (runs @ [Lit ?all])" using f(3) same(1) by (simp add: closed_def)
  moreover have "runs_values (runs @ [Lit ?all]) = vs @ replicate k 0" using vs buf1 by simp
  moreover have "k < 8" by (auto simp: k_def)
  moreover have "length (runs_bits w (runs @ [Lit ?all])) \<le> 8 * n"
    using sz literal_indicator [OF g63] all by (simp add: len1 j(1))
  ultimately show ?thesis using f(1,2) lit room same(3) by (intro exI [of _ ?r'] exI [of _ "runs @ [Lit ?all]"] exI [of _ k]) simp
qed

lemma RleFlush_ok:
  assumes inv: "enc_inv n w r vs" and n: "(1 + w) * BytesForBits (length vs) \<le> n"
  shows "\<exists>r' runs k len. RleEncoder_Flush ops r = Some (r', len) \<and> closed w r' runs \<and> flushed (enc_w r') \<and>
    bits (enc_w r') = runs_bits w runs \<and> runs_values runs = vs @ replicate k 0 \<and> k < 8 \<and>
    length (runs_bits w runs) = 8 * len \<and> len \<le> n \<and> room r' n"
proof -
  have "\<exists>r1 runs k. closed w r1 runs \<and> runs_values runs = vs @ replicate k 0 \<and> k < 8 \<and> room r1 n \<and>
      length (runs_bits w runs) \<le> 8 * n \<and>
      RleEncoder_Flush ops r = do { w' \<leftarrow> BitWriter_Flush ops (enc_w r1) False; Some (r1\<lparr>enc_w := w'\<rparr>, BitWriter_Written w') }"
  proof (cases "0 < enc_litCount r \<or> 0 < enc_repCount r \<or> enc_buffer r \<noteq> []")
    case False
    then have "\<not> 8 \<le> enc_repCount r" by auto
    then obtain runs lits where p: "pending r runs lits" "vs = runs_values runs @ lits" "enc_BitWidth r = w" "room r n"
      "enc_repCount r = 0" using inv False by (auto simp: enc_inv_def)
    have lits: "lits = []" "enc_literalIndicatorOffset r = - 1" using p(1) False by (auto simp: pending_def)
    then have "closed w r runs" using p False by (auto simp: closed_def pending_def)
    moreover have "(1 + w) * (length (runs_values runs) div 8) \<le> (1 + w) * BytesForBits (length vs)"
      using p(2) lits(1) unfolding BytesForBits_eq by (intro mult_le_mono2 div_le_mono) simp
    then have "length (runs_bits w runs) \<le> 8 * n" using pending_size [OF p(1,3)] n by linarith
    ultimately show ?thesis using p(2,4) lits False by (intro exI [of _ r] exI [of _ runs] exI [of _ 0]) (simp add: RleEncoder_Flush_def)
  next
    case some: True
    show ?thesis
    proof (cases "0 < enc_repCount r \<and> enc_litCount r = 0 \<and>
        (enc_repCount r = int (length (enc_buffer r)) \<or> enc_buffer r = [])")
      case True
      with Flush_repeated [OF inv _ _ _ n] obtain r1 runs where
        "flushRepeated ops r = Some (r1, True)" "closed w r1 runs" "runs_values runs = vs" "room r1 n"
        "length (runs_bits w runs) \<le> 8 * n" by blast
      then show ?thesis using True some
        by (intro exI [of _ r1] exI [of _ runs] exI [of _ 0]) (auto simp: RleEncoder_Flush_def)
    next
      case False
      from Flush_literal [OF inv some False n] obtain r1 runs k where
        "flushLiteral ops ((pad_buffer r)\<lparr>enc_litCount := int32 (enc_litCount (pad_buffer r) +
            int (length (enc_buffer (pad_buffer r))))\<rparr>) True =
          Some (r1, None)" "closed w (r1\<lparr>enc_repCount := 0\<rparr>) runs" "runs_values runs = vs @ replicate k 0" "k < 8"
        "room r1 n" "length (runs_bits w runs) \<le> 8 * n" by blast
      then show ?thesis using False some
        by (intro exI [of _ "r1\<lparr>enc_repCount := 0\<rparr>"] exI [of _ runs] exI [of _ k]) (auto simp: RleEncoder_Flush_def Let_def)
    qed
  qed
  then obtain r1 runs k where 1: "closed w r1 runs" "runs_values runs = vs @ replicate k 0" "k < 8" "room r1 n"
    "length (runs_bits w runs) \<le> 8 * n"
    "RleEncoder_Flush ops r = do { w' \<leftarrow> BitWriter_Flush ops (enc_w r1) False; Some (r1\<lparr>enc_w := w'\<rparr>, BitWriter_Written w') }"
    by blast
  from finish_flush [OF 1(1,4,5)] obtain w' len where
    "BitWriter_Flush ops (enc_w r1) False = Some w'" "BitWriter_Written w' = len" "length (runs_bits w runs) = 8 * len"
    "flushed w'" "bits w' = runs_bits w runs" "closed w (r1\<lparr>enc_w := w'\<rparr>) runs" "room (r1\<lparr>enc_w := w'\<rparr>) = room r1" by blast
  then show ?thesis using 1
    by (intro exI [of _ "r1\<lparr>enc_w := w'\<rparr>"] exI [of _ runs] exI [of _ k] exI [of _ len]) simp
qed

end

end
