(* ===== verification/Rle_Encoder_Batch.thy ===== *)
theory Rle_Encoder_Batch
  imports Rle_Encoder
begin

unbundle bit_operations_syntax

text \<open>
  The batch methods of the encoder in \<^verbatim>\<open>parquet/internal/utils/rle.go\<close>,
  \<^verbatim>\<open>PutBatchLevels\<close> and \<^verbatim>\<open>PutBatchIndices\<close>. They loop on a condition that a broken state
  could keep true, so they are partial functions: not returning is \<open>None\<close>, like a panic. On
  every state the encoder can be in they return, and they take the same values as putting them one by
  one.
\<close>

section \<open>Definitions\<close>

text \<open>The index after the run of \<open>value\<close> that starts before \<open>i\<close>.\<close>

function run_end :: "'a list \<Rightarrow> 'a \<Rightarrow> nat \<Rightarrow> nat" where
  "run_end values value i =
     (if i < length values \<and> values ! i = value then run_end values value (i + 1) else i)"
  by pat_completeness auto
termination by (relation "measure (\<lambda>(xs, _, i). length xs - i)") auto

declare run_end.simps [simp del]

text \<open>\<^verbatim>\<open>min(runEnd-encoded, int(math.MaxInt32-r.repCount))\<close>\<close>

definition run_length :: "nat \<Rightarrow> nat \<Rightarrow> int \<Rightarrow> nat" where
  "run_length runEnd encoded repCount = nat (min (int runEnd - int encoded) (MaxInt32 - repCount))"

text \<open>The two blocks that the batch methods share: a run that continues the current one, and eight or
  more equal values at a group boundary.\<close>

definition extend_run ::
  "'w WriterAtWithLen \<Rightarrow> 'w RleEncoder \<Rightarrow> 'a list \<Rightarrow> nat \<Rightarrow> ('w RleEncoder \<times> nat \<times> goerr option) option" where
  "extend_run ops r values encoded =
     (let value = values ! encoded; runEnd = run_end values value (encoded + 1);
          runLength = run_length runEnd encoded (enc_repCount r);
          r = r\<lparr>enc_repCount := int32 (enc_repCount r + int runLength)\<rparr>; encoded = encoded + runLength
      in if enc_repCount r = MaxInt32 \<and> encoded < length values \<and> values ! encoded = value
         then do { (r, ok) \<leftarrow> flushRepeated ops r;
                   Some (r, encoded, if ok then None else Some (Errorf ''failed to flush repeated value'')) }
         else Some (r, encoded, None))"

definition start_run ::
  "'w WriterAtWithLen \<Rightarrow> 'w RleEncoder \<Rightarrow> u64 \<Rightarrow> nat \<Rightarrow> nat \<Rightarrow> ('w RleEncoder \<times> nat \<times> goerr option) option" where
  "start_run ops r value runEnd encoded =
     do { let r = r\<lparr>enc_curVal := value\<rparr>;
          (r, encoded, err) \<leftarrow>
            (if enc_litCount r \<noteq> 0 then do {
               (r, err) \<leftarrow> flushLiteral ops (r\<lparr>enc_repCount := 8\<rparr>) True;
               Some (r, if err \<noteq> None then encoded else encoded + 8, err) }
             else Some (r, encoded, None));
          if err \<noteq> None then Some (r, encoded, err)
          else let runLength = run_length runEnd encoded (enc_repCount r)
            in Some (r\<lparr>enc_repCount := int32 (enc_repCount r + int runLength)\<rparr>, encoded + runLength, None) }"

partial_function (option) put_levels_loop ::
  "'w WriterAtWithLen \<Rightarrow> 'w RleEncoder \<Rightarrow> u16 list \<Rightarrow> nat \<Rightarrow> ('w RleEncoder \<times> nat \<times> goerr option) option" where
  "put_levels_loop ops r values encoded =
     (if encoded < length values then
        let value = values ! encoded; runEnd = run_end values value (encoded + 1)
        in do {
          (r, encoded, err) \<leftarrow>
            (if enc_repCount r \<ge> 8 \<and> enc_curVal r = scast value then extend_run ops r values encoded
             else if enc_repCount r = 0 \<and> enc_buffer r = [] \<and> length values - encoded \<ge> 8 \<and>
                 values ! (encoded + 7) = value \<and> runEnd - encoded \<ge> 8
             then start_run ops r (scast value) runEnd encoded
             else let batchEnd = min (length values) (encoded + 8 - length (enc_buffer r))
               in put_loop ops r (map scast (take (batchEnd - encoded) (drop encoded values))) encoded);
          if err \<noteq> None then Some (r, encoded, err) else put_levels_loop ops r values encoded }
      else Some (r, encoded, None))"

definition RleEncoder_PutBatchLevels ::
  "'w WriterAtWithLen \<Rightarrow> 'w RleEncoder \<Rightarrow> u16 list \<Rightarrow> ('w RleEncoder \<times> nat \<times> goerr option) option" where
  "RleEncoder_PutBatchLevels ops r values = put_levels_loop ops r values 0"

text \<open>\<^verbatim>\<open>r.buffer[:8]\<close> is within the capacity, which is 8.\<close>

definition putBatchIndicesLiteral ::
  "'w WriterAtWithLen \<Rightarrow> 'w RleEncoder \<Rightarrow> u32 list \<Rightarrow> ('w RleEncoder \<times> goerr option) option" where
  "putBatchIndicesLiteral ops r values =
     do { vs \<leftarrow> slice values 0 8;
          let r = r\<lparr>enc_buffer := map scast vs\<rparr>;
          flushBuffered ops (r\<lparr>enc_curVal := enc_buffer r ! 7\<rparr>) False }"

text \<open>The rest of a round, once a run that cannot be extended has been flushed.\<close>

definition put_indices_round ::
  "'w WriterAtWithLen \<Rightarrow> 'w RleEncoder \<Rightarrow> u32 list \<Rightarrow> nat \<Rightarrow> ('w RleEncoder \<times> nat \<times> goerr option) option" where
  "put_indices_round ops r values encoded =
     (let value = values ! encoded; runEnd = run_end values value (encoded + 1)
      in if enc_repCount r = 0 \<and> enc_buffer r = [] \<and> length values - encoded \<ge> 8 \<and>
           values ! (encoded + 7) = value \<and> runEnd - encoded \<ge> 8
         then start_run ops r (scast value) runEnd encoded
         else if enc_repCount r = 0 \<and> enc_buffer r = [] \<and> length values - encoded \<ge> 8 then do {
           (r, err) \<leftarrow> putBatchIndicesLiteral ops r (drop encoded values);
           Some (r, if err \<noteq> None then encoded + 7 else encoded + 8, err) }
         else let batchEnd = min (length values) (encoded + 8 - length (enc_buffer r))
           in put_loop ops r (map scast (take (batchEnd - encoded) (drop encoded values))) encoded)"

partial_function (option) put_indices_loop ::
  "'w WriterAtWithLen \<Rightarrow> 'w RleEncoder \<Rightarrow> u32 list \<Rightarrow> nat \<Rightarrow> ('w RleEncoder \<times> nat \<times> goerr option) option" where
  "put_indices_loop ops r values encoded =
     (if encoded < length values then
        let value = values ! encoded
        in if enc_repCount r \<ge> 8 \<and> enc_curVal r = scast value then do {
             (r, encoded, err) \<leftarrow> extend_run ops r values encoded;
             if err \<noteq> None then Some (r, encoded, err) else put_indices_loop ops r values encoded }
           else do {
             (r, ok) \<leftarrow> (if enc_repCount r \<ge> 8 then flushRepeated ops r else Some (r, True));
             if \<not> ok then Some (r, encoded, Some (Errorf ''failed to flush repeated value''))
             else do {
               (r, encoded, err) \<leftarrow> put_indices_round ops r values encoded;
               if err \<noteq> None then Some (r, encoded, err) else put_indices_loop ops r values encoded } }
      else Some (r, encoded, None))"

definition RleEncoder_PutBatchIndices ::
  "'w WriterAtWithLen \<Rightarrow> 'w RleEncoder \<Rightarrow> u32 list \<Rightarrow> ('w RleEncoder \<times> nat \<times> goerr option) option" where
  "RleEncoder_PutBatchIndices ops r values = put_indices_loop ops r values 0"

section \<open>Correctness\<close>

lemma run_end_bounds: "i \<le> length xs \<Longrightarrow> i \<le> run_end xs v i \<and> run_end xs v i \<le> length xs"
proof (induction xs v i rule: run_end.induct)
  case (1 xs v i)
  then show ?case by (subst (1 2) run_end.simps) auto
qed

lemma run_end_values: "i \<le> k \<Longrightarrow> k < run_end xs v i \<Longrightarrow> xs ! k = v"
proof (induction xs v i rule: run_end.induct)
  case (1 xs v i)
  then show ?case by (cases "k = i") (auto simp: run_end.simps [of xs v i] split: if_splits)
qed

lemma run_segment:
  assumes "i < length xs" "j \<le> run_end xs (xs ! i) (i + 1)"
  shows "take (j - i) (drop i xs) = replicate (j - i) (xs ! i)"
proof (rule nth_equalityI)
  have le: "run_end xs (xs ! i) (i + 1) \<le> length xs" using run_end_bounds [of "i + 1" xs] assms by simp
  then show len: "length (take (j - i) (drop i xs)) = length (replicate (j - i) (xs ! i))" using assms by simp
  fix k assume "k < length (take (j - i) (drop i xs))"
  then have k: "k < j - i" by simp
  then have "xs ! (i + k) = xs ! i"
    using run_end_values [of "i + 1" "i + k" xs "xs ! i"] assms(2) by (cases k) auto
  then show "take (j - i) (drop i xs) ! k = replicate (j - i) (xs ! i) ! k" using k assms le by simp
qed

context writer_at
begin

lemma extend_run_ok:
  fixes conv :: "'a \<Rightarrow> u64"
  assumes inv: "enc_inv n w r vs" and rep: "8 \<le> enc_repCount r" and i: "i < length xs" "enc_curVal r = conv (xs ! i)"
    and n: "(1 + w) * ((length vs + (length xs - i)) div 8) \<le> n"
  shows "\<exists>r' j. extend_run ops r xs i = Some (r', j, None) \<and> i \<le> j \<and> j \<le> length xs \<and>
    enc_inv n w r' (vs @ map conv (take (j - i) (drop i xs))) \<and> (i < j \<or> enc_repCount r' = 0)"
proof -
  from inv rep obtain runs where p: "pending r runs []" and w: "enc_BitWidth r = w" and room: "room r n"
    and max: "enc_repCount r \<le> MaxInt32" and buf: "enc_buffer r = []"
    and vs: "vs = runs_values runs @ replicate (nat (enc_repCount r)) (enc_curVal r)"
    by (auto simp: enc_inv_def)
  define e where "e = run_end xs (xs ! i) (Suc i)"
  define l where "l = run_length e i (enc_repCount r)"
  have e: "i + 1 \<le> e" "e \<le> length xs" using run_end_bounds [of "i + 1" xs] i(1) by (simp_all add: e_def)
  have l: "int l \<le> MaxInt32 - enc_repCount r" "i + l \<le> e" "l = e - i \<or> enc_repCount r + int l = MaxInt32"
    using e max by (auto simp: l_def run_length_def)
  let ?r = "r\<lparr>enc_repCount := enc_repCount r + int l\<rparr>"
  have i32: "int32 (enc_repCount r + int l) = enc_repCount r + int l" using l(1) rep by (intro int32_id) auto
  have seg: "map conv (take l (drop i xs)) = replicate l (enc_curVal r)"
    using run_segment [of i xs "i + l"] i l(2) by (simp add: e_def map_replicate)
  have "pending ?r runs []" using p by (simp add: pending_def)
  then have inv': "enc_inv n w ?r (vs @ map conv (take l (drop i xs)))"
    by (rule enc_inv_repI) (use w room rep l buf vs seg in \<open>simp_all add: nat_add_distrib replicate_add\<close>)
  have eq: "extend_run ops r xs i = (if enc_repCount ?r = MaxInt32 \<and> i + l < length xs \<and> xs ! (i + l) = xs ! i
      then do { (r, ok) \<leftarrow> flushRepeated ops ?r;
                Some (r, i + l, if ok then None else Some (Errorf ''failed to flush repeated value'')) }
      else Some (?r, i + l, None))"
    using int32_id [of MaxInt32] by (simp add: extend_run_def Let_def i32 flip: e_def l_def)
  show ?thesis
  proof (cases "enc_repCount ?r = MaxInt32 \<and> i + l < length xs \<and> xs ! (i + l) = xs ! i")
    case True
    have "(1 + w) * (length (vs @ map conv (take l (drop i xs))) div 8) \<le> n"
      using n by (rule le_trans [rotated]) (intro mult_le_mono2 div_le_mono, simp)
    with flushRepeated_inv [OF inv'] rep obtain r' where "flushRepeated ops ?r = Some (r', True)"
      "enc_inv n w r' (vs @ map conv (take l (drop i xs)))" "enc_repCount r' = 0" by auto
    then show ?thesis using True eq e l(2) by (intro exI [of _ r'] exI [of _ "i + l"]) simp
  next
    case False
    have "0 < l"
    proof (rule ccontr)
      assume "\<not> 0 < l"
      then have "enc_repCount r = MaxInt32" "l = 0" using l e by auto
      then show False using False i by simp
    qed
    then show ?thesis using eq False inv' e l(2) by (intro exI [of _ ?r] exI [of _ "i + l"]) auto
  qed
qed

lemma start_run_ok:
  fixes conv :: "'a \<Rightarrow> u64"
  assumes inv: "enc_inv n w r vs" and st: "enc_repCount r = 0" "enc_buffer r = []" and v: "v = conv (xs ! i)" "fits_width w v"
    and e: "e = run_end xs (xs ! i) (i + 1)" "8 \<le> e - i" and i: "i < length xs"
    and n: "(1 + w) * ((length vs + (length xs - i)) div 8) \<le> n"
  shows "\<exists>r' j. start_run ops r v e i = Some (r', j, None) \<and> i < j \<and> j \<le> length xs \<and>
    enc_inv n w r' (vs @ map conv (take (j - i) (drop i xs)))"
proof -
  from inv st obtain runs lits where p: "pending r runs lits" and w: "enc_BitWidth r = w" and room: "room r n"
    and vs: "vs = runs_values runs @ lits" by (auto simp: enc_inv_def)
  have el: "e \<le> length xs" using run_end_bounds [of "i + 1" xs] i e by simp
  have seg: "map conv (take (j - i) (drop i xs)) = replicate (j - i) v" if "j \<le> e" for j
    using run_segment [of i xs j] i that e v by (simp add: map_replicate)
  have fin: ?thesis
    if 1: "start_run ops r v e i = Some (r1\<lparr>enc_repCount := int32 (enc_repCount r1 + int (run_length e m (enc_repCount r1)))\<rparr>,
        m + run_length e m (enc_repCount r1), None)" "i \<le> m" "m \<le> e" "enc_repCount r1 = int (m - i)" "m - i \<le> 8"
      "pending r1 runs1 []" "enc_BitWidth r1 = w" "room r1 n" "enc_buffer r1 = []" "vs = runs_values runs1" "enc_curVal r1 = v"
    for r1 m runs1
  proof -
    define l where "l = run_length e m (enc_repCount r1)"
    have l: "m + l \<le> e" "8 \<le> m + l - i" "int (m - i) + int l \<le> MaxInt32"
      using 1(2-5) e(2) by (auto simp: l_def run_length_def)
    let ?r = "r1\<lparr>enc_repCount := enc_repCount r1 + int l\<rparr>"
    have i32: "int32 (enc_repCount r1 + int l) = enc_repCount r1 + int l" using l(3) 1(4) by (intro int32_id) auto
    have cnt: "nat (enc_repCount r1 + int l) = m + l - i" using 1(2,4) by simp
    have "pending ?r runs1 []" using 1(6) by (simp add: pending_def)
    then have "enc_inv n w ?r (vs @ map conv (take (m + l - i) (drop i xs)))"
      by (rule enc_inv_repI) (use 1 l cnt seg [OF l(1)] in simp_all)
    then show ?thesis using 1(1) i32 l el 1(2)
      by (intro exI [of _ ?r] exI [of _ "m + l"]) (simp add: l_def)
  qed
  show ?thesis
  proof (cases "lits = []")
    case True
    have "enc_litCount r = 0" using p True by (simp add: pending_def)
    then have "start_run ops r v e i = Some (r\<lparr>enc_curVal := v, enc_repCount := int32 (enc_repCount r + int (run_length e i (enc_repCount r)))\<rparr>,
        i + run_length e i (enc_repCount r), None)" by (simp add: start_run_def Let_def)
    moreover have "pending (r\<lparr>enc_curVal := v\<rparr>) runs []" using p True v w by (simp add: pending_def)
    ultimately show ?thesis
      by (intro fin [of "r\<lparr>enc_curVal := v\<rparr>" i runs]) (use st w room vs True e in auto)
  next
    case False
    obtain k where k: "length lits = 8 * k" "k \<le> 62" using p by (auto simp: pending_def)
    have k1: "1 \<le> k" using k False by (cases k) auto
    let ?r = "r\<lparr>enc_curVal := v, enc_repCount := 8\<rparr>"
    have "(1 + w) * ((length (runs_values runs) + length lits) div 8) \<le> n"
      using n by (rule le_trans [rotated]) (intro mult_le_mono2 div_le_mono, simp add: vs)
    from group_size [OF pending_size [OF p w] k(1) k1 this]
    have sz: "length (runs_bits w runs) + 8 + w * length lits \<le> 8 * n" .
    have wr: "written ?r runs lits" using p by (simp add: pending_def)
    from flushLiteral_close [OF wr _ _ k(1) k1 _ _, where n = n] sz w p k st room obtain w' where
      cl: "flushLiteral ops ?r True = Some (?r\<lparr>enc_w := w', enc_literalIndicatorOffset := - 1, enc_buffer := [], enc_litCount := 0\<rparr>, None)"
        "room (?r\<lparr>enc_w := w', enc_literalIndicatorOffset := - 1, enc_buffer := [], enc_litCount := 0\<rparr>) = room ?r"
        "written (?r\<lparr>enc_w := w', enc_literalIndicatorOffset := - 1, enc_buffer := [], enc_litCount := 0\<rparr>) (runs @ [Lit lits]) []"
      by (auto simp: pending_def)
    let ?r2 = "?r\<lparr>enc_w := w', enc_literalIndicatorOffset := - 1, enc_buffer := [], enc_litCount := 0\<rparr>"
    have "pending ?r2 (runs @ [Lit lits]) []" using cl(3) p v w by (simp add: pending_def)
    moreover have "start_run ops r v e i = Some (?r2\<lparr>enc_repCount := int32 (enc_repCount ?r2 + int (run_length e (i + 8) (enc_repCount ?r2)))\<rparr>,
        i + 8 + run_length e (i + 8) (enc_repCount ?r2), None)"
      using cl(1) p False by (simp add: start_run_def pending_def Let_def)
    ultimately show ?thesis
      by (intro fin [of ?r2 "i + 8" "runs @ [Lit lits]"]) (use w room vs cl(2) e in simp_all)
  qed
qed

text \<open>Putting the values up to the end of the group.\<close>

lemma put_group_ok:
  fixes conv :: "'a \<Rightarrow> u64"
  assumes inv: "enc_inv n w r vs" and fit: "list_all (\<lambda>x. fits_width w (conv x)) xs" and i: "i < length xs"
    and rep: "enc_repCount r < 8 \<or> enc_curVal r \<noteq> conv (xs ! i)"
    and n: "(1 + w) * ((length vs + (length xs - i)) div 8) \<le> n"
  defines "j \<equiv> min (length xs) (i + 8 - length (enc_buffer r))"
  shows "\<exists>r'. put_loop ops r (map conv (take (j - i) (drop i xs))) i = Some (r', j, None) \<and> i < j \<and> j \<le> length xs \<and>
    enc_inv n w r' (vs @ map conv (take (j - i) (drop i xs)))"
proof -
  have buf: "length (enc_buffer r) < 8" using inv by (auto simp: enc_inv_def split: if_splits)
  have j: "i < j" "j \<le> length xs" "j - i \<le> 8" using i buf by (auto simp: j_def)
  let ?ys = "map conv (take (j - i) (drop i xs))"
  have len: "length ?ys = j - i" using j by simp
  have hd: "?ys \<noteq> [] \<and> hd ?ys = conv (xs ! i)" using i j by (simp add: hd_map hd_drop_conv_nth)
  have max: "enc_repCount r + int (length ?ys) \<le> MaxInt32" if "enc_curVal r = hd ?ys"
    using rep that hd len j by auto
  have "list_all (fits_width w) ?ys" using fit by (auto simp: list_all_iff dest: in_set_takeD in_set_dropD)
  moreover have "(1 + w) * (length (vs @ ?ys) div 8) \<le> n"
    using n by (rule le_trans [rotated]) (intro mult_le_mono2 div_le_mono, simp)
  moreover have "length ?ys < 2 ^ 31" using len j(3) by simp
  ultimately obtain r' where "put_loop ops r ?ys i = Some (r', i + length ?ys, None)" "enc_inv n w r' (vs @ ?ys)"
    using put_loop_ok [OF inv] max by blast
  then show ?thesis using j len by auto
qed

lemma put_levels_loop_ok:
  assumes "enc_inv n w r vs" "list_all (\<lambda>x. fits_width w (scast x :: u64)) xs" "i \<le> length xs"
    "(1 + w) * ((length vs + (length xs - i)) div 8) \<le> n"
  shows "\<exists>r'. put_levels_loop ops r xs i = Some (r', length xs, None) \<and> enc_inv n w r' (vs @ map scast (drop i xs))"
  using assms
proof (induction "2 * (length xs - i) + (if 8 \<le> enc_repCount r then 1 else 0 :: nat)" arbitrary: r vs i rule: less_induct)
  case less
  show ?case
  proof (cases "i < length xs")
    case False
    then show ?thesis using less.prems by (subst put_levels_loop.simps) auto
  next
    case True
    let ?v = "scast (xs ! i) :: u64" and ?e = "run_end xs (xs ! i) (i + 1)"
    let ?body = "(if enc_repCount r \<ge> 8 \<and> enc_curVal r = ?v then extend_run ops r xs i
       else if enc_repCount r = 0 \<and> enc_buffer r = [] \<and> length xs - i \<ge> 8 \<and> xs ! (i + 7) = xs ! i \<and> ?e - i \<ge> 8
       then start_run ops r ?v ?e i
       else let batchEnd = min (length xs) (i + 8 - length (enc_buffer r))
         in put_loop ops r (map scast (take (batchEnd - i) (drop i xs))) i)"
    have fit: "fits_width w ?v" using less.prems(2) True by (simp add: list_all_length)
    consider (extend) "8 \<le> enc_repCount r" "enc_curVal r = ?v"
      | (start) "\<not> (8 \<le> enc_repCount r \<and> enc_curVal r = ?v)" "enc_repCount r = 0" "enc_buffer r = []" "8 \<le> length xs - i"
          "xs ! (i + 7) = xs ! i" "8 \<le> ?e - i"
      | (group) "\<not> (8 \<le> enc_repCount r \<and> enc_curVal r = ?v)" "\<not> (enc_repCount r = 0 \<and> enc_buffer r = [] \<and>
          8 \<le> length xs - i \<and> xs ! (i + 7) = xs ! i \<and> 8 \<le> ?e - i)"
      by blast
    then have "\<exists>r' j. ?body = Some (r', j, None) \<and> i \<le> j \<and> j \<le> length xs \<and>
        enc_inv n w r' (vs @ map scast (take (j - i) (drop i xs))) \<and> (i < j \<or> 8 \<le> enc_repCount r \<and> enc_repCount r' = 0)"
    proof cases
      case extend
      then show ?thesis using extend_run_ok [OF less.prems(1) _ True _ less.prems(4), of scast] by auto
    next
      case start
      then show ?thesis
        using start_run_ok [where conv = scast, OF less.prems(1) _ _ refl fit refl _ True less.prems(4)] less_imp_le by auto
    next
      case group
      then have "?body = put_loop ops r (map scast (take (min (length xs) (i + 8 - length (enc_buffer r)) - i) (drop i xs))) i"
        by (simp only: if_False Let_def)
      then show ?thesis using put_group_ok [OF less.prems(1,2) True _ less.prems(4)] group(1) less_imp_le by auto
    qed
    then obtain r1 j where 1: "?body = Some (r1, j, None)" "i \<le> j" "j \<le> length xs"
      "enc_inv n w r1 (vs @ map scast (take (j - i) (drop i xs)))" "i < j \<or> 8 \<le> enc_repCount r \<and> enc_repCount r1 = 0" by blast
    let ?vs1 = "vs @ map scast (take (j - i) (drop i xs)) :: u64 list"
    have len: "length ?vs1 + (length xs - j) = length vs + (length xs - i)" using 1(2,3) by simp
    have "2 * (length xs - j) + (if 8 \<le> enc_repCount r1 then 1 else 0) <
        2 * (length xs - i) + (if 8 \<le> enc_repCount r then 1 else 0 :: nat)" using 1(2,3,5) True by auto
    from less.hyps [OF this 1(4) less.prems(2) 1(3), unfolded len, OF less.prems(4)] obtain r2 where
      r2: "put_levels_loop ops r1 xs j = Some (r2, length xs, None)" "enc_inv n w r2 (?vs1 @ map scast (drop j xs))" by blast
    have "take (j - i) (drop i xs) @ drop j xs = drop i xs"
      using append_take_drop_id [of "j - i" "drop i xs"] 1(2) by simp
    then have "?vs1 @ map scast (drop j xs) = vs @ map scast (drop i xs)" by (simp flip: map_append)
    moreover have "put_levels_loop ops r xs i = put_levels_loop ops r1 xs j"
      using 1(1) True by (subst put_levels_loop.simps) (simp only: if_True Let_def bind.bind_lunit prod.case, simp)
    ultimately show ?thesis using r2 by simp
  qed
qed

lemma literal_group_ok:
  assumes inv: "enc_inv n w r vs" and st: "enc_repCount r = 0" "enc_buffer r = []"
    and fit: "list_all (\<lambda>x. fits_width w (scast x :: u64)) xs" and i: "i + 8 \<le> length xs"
    and n: "(1 + w) * ((length vs + (length xs - i)) div 8) \<le> n"
  shows "\<exists>r'. putBatchIndicesLiteral ops r (drop i xs) = Some (r', None) \<and>
    enc_inv n w r' (vs @ map scast (take 8 (drop i xs)))"
proof -
  from inv st obtain runs lits where p: "pending r runs lits" and w: "enc_BitWidth r = w" and room: "room r n"
    and vs: "vs = runs_values runs @ lits" by (auto simp: enc_inv_def)
  let ?ys = "map scast (take 8 (drop i xs)) :: u64 list"
  let ?r = "r\<lparr>enc_buffer := ?ys, enc_curVal := ?ys ! 7\<rparr>"
  have len: "length ?ys = 8" using i by simp
  have ys: "list_all (fits_width w) ?ys" using fit by (auto simp: list_all_iff dest: in_set_takeD in_set_dropD)
  then have "fits_width w (?ys ! 7)" using len by (simp only: list_all_length)
  then have p': "pending ?r runs lits" using p ys w by (simp add: pending_def)
  have n': "(1 + w) * (length (vs @ ?ys) div 8) \<le> n"
    using n by (rule le_trans [rotated]) (intro mult_le_mono2 div_le_mono, use i in simp)
  have "\<exists>r'. flushBuffered ops ?r False = Some (r', None) \<and> enc_inv n w r' (vs @ ?ys) \<and> enc_repCount r' \<le> enc_repCount ?r"
    by (rule flushBuffered_ok [OF p']) (use w room len st vs n' in simp_all)
  then show ?thesis using i by (auto simp: putBatchIndicesLiteral_def)
qed

text \<open>One round of \<^verbatim>\<open>PutBatchIndices\<close> from a state where no run can be extended.\<close>

lemma indices_round_ok:
  assumes inv: "enc_inv n w r vs" and fit: "list_all (\<lambda>x. fits_width w (scast x :: u64)) xs" and i: "i < length xs"
    and n: "(1 + w) * ((length vs + (length xs - i)) div 8) \<le> n" and rep: "enc_repCount r < 8"
  shows "\<exists>r' j. put_indices_round ops r xs i = Some (r', j, None) \<and> i < j \<and> j \<le> length xs \<and>
    enc_inv n w r' (vs @ map scast (take (j - i) (drop i xs)))"
proof -
  define e where "e = run_end xs (xs ! i) (i + 1)"
  note body = put_indices_round_def [of ops r xs i, unfolded Let_def, folded e_def]
  have fiti: "fits_width w (scast (xs ! i) :: u64)" using fit i by (simp add: list_all_length)
  consider (start) "enc_repCount r = 0" "enc_buffer r = []" "8 \<le> length xs - i" "xs ! (i + 7) = xs ! i" "8 \<le> e - i"
    | (literal) "enc_repCount r = 0" "enc_buffer r = []" "8 \<le> length xs - i" "\<not> (xs ! (i + 7) = xs ! i \<and> 8 \<le> e - i)"
    | (group) "\<not> (enc_repCount r = 0 \<and> enc_buffer r = [] \<and> 8 \<le> length xs - i)"
    by blast
  then show ?thesis
  proof cases
    case start
    then show ?thesis using start_run_ok [where conv = scast, OF inv start(1,2) refl fiti e_def _ i n] by (auto simp: body)
  next
    case literal
    have "i + 8 \<le> length xs" using literal(3) i by linarith
    from literal_group_ok [OF inv literal(1,2) fit this n] obtain r' where
      r': "putBatchIndicesLiteral ops r (drop i xs) = Some (r', None)" "enc_inv n w r' (vs @ map scast (take 8 (drop i xs)))" by blast
    have "put_indices_round ops r xs i = Some (r', i + 8, None)" using literal r'(1) by (auto simp: body)
    then show ?thesis using r'(2) \<open>i + 8 \<le> length xs\<close> by (intro exI [of _ r'] exI [of _ "i + 8"]) simp
  next
    case group
    then have "put_indices_round ops r xs i = put_loop ops r (map scast (take (min (length xs) (i + 8 - length (enc_buffer r)) - i) (drop i xs))) i"
      by (auto simp: body)
    then show ?thesis using put_group_ok [OF inv fit i _ n] rep by auto
  qed
qed

lemma put_indices_loop_ok:
  assumes "enc_inv n w r vs" "list_all (\<lambda>x. fits_width w (scast x :: u64)) xs" "i \<le> length xs"
    "(1 + w) * ((length vs + (length xs - i)) div 8) \<le> n"
  shows "\<exists>r'. put_indices_loop ops r xs i = Some (r', length xs, None) \<and> enc_inv n w r' (vs @ map scast (drop i xs))"
  using assms
proof (induction "2 * (length xs - i) + (if 8 \<le> enc_repCount r then 1 else 0 :: nat)" arbitrary: r vs i rule: less_induct)
  case less
  have step: ?case if 1: "put_indices_loop ops r xs i = put_indices_loop ops r1 xs j" "i \<le> j" "j \<le> length xs" "i < length xs"
      "enc_inv n w r1 (vs @ map scast (take (j - i) (drop i xs)))" "i < j \<or> 8 \<le> enc_repCount r \<and> enc_repCount r1 = 0" for r1 j
  proof -
    let ?vs1 = "vs @ map scast (take (j - i) (drop i xs)) :: u64 list"
    have len: "length ?vs1 + (length xs - j) = length vs + (length xs - i)" using 1(2,3) by simp
    have "2 * (length xs - j) + (if 8 \<le> enc_repCount r1 then 1 else 0) <
        2 * (length xs - i) + (if 8 \<le> enc_repCount r then 1 else 0 :: nat)" using 1(2-4,6) by auto
    from less.hyps [OF this 1(5) less.prems(2) 1(3), unfolded len, OF less.prems(4)] obtain r2 where
      r2: "put_indices_loop ops r1 xs j = Some (r2, length xs, None)" "enc_inv n w r2 (?vs1 @ map scast (drop j xs))" by blast
    have "take (j - i) (drop i xs) @ drop j xs = drop i xs"
      using append_take_drop_id [of "j - i" "drop i xs"] 1(2) by simp
    then have "?vs1 @ map scast (drop j xs) = vs @ map scast (drop i xs)" by (simp flip: map_append)
    then show ?thesis using r2 1(1) by simp
  qed
  let ?v = "scast (xs ! i) :: u64"
  consider (stop) "\<not> i < length xs" | (extend) "i < length xs" "8 \<le> enc_repCount r" "enc_curVal r = ?v"
    | (other) "i < length xs" "\<not> (8 \<le> enc_repCount r \<and> enc_curVal r = ?v)" by blast
  then show ?case
  proof cases
    case stop
    then show ?thesis using less.prems by (subst put_indices_loop.simps) auto
  next
    case extend
    from extend_run_ok [where conv = scast, OF less.prems(1) extend(2,1,3) less.prems(4)] obtain r1 j where
      1: "extend_run ops r xs i = Some (r1, j, None)" "i \<le> j" "j \<le> length xs"
        "enc_inv n w r1 (vs @ map scast (take (j - i) (drop i xs)))" "i < j \<or> enc_repCount r1 = 0" by blast
    show ?thesis
      by (rule step [of r1 j]) (use 1 extend in \<open>auto simp: put_indices_loop.simps [of ops r]\<close>)
  next
    case other
    have n': "(1 + w) * (length vs div 8) \<le> n"
      using less.prems(4) by (rule le_trans [rotated]) (intro mult_le_mono2 div_le_mono, simp)
    have "\<exists>r0. (if enc_repCount r \<ge> 8 then flushRepeated ops r else Some (r, True)) = Some (r0, True) \<and>
        enc_inv n w r0 vs \<and> enc_repCount r0 < 8"
      using flushRepeated_inv [OF less.prems(1) _ n'] less.prems(1) by (cases "8 \<le> enc_repCount r") auto
    then obtain r0 where r0: "(if enc_repCount r \<ge> 8 then flushRepeated ops r else Some (r, True)) = Some (r0, True)"
      "enc_inv n w r0 vs" "enc_repCount r0 < 8" by blast
    from indices_round_ok [OF r0(2) less.prems(2) other(1) less.prems(4) r0(3)] obtain r1 j where
      1: "put_indices_round ops r0 xs i = Some (r1, j, None)"
        "i < j" "j \<le> length xs" "enc_inv n w r1 (vs @ map scast (take (j - i) (drop i xs)))" by blast
    have "put_indices_loop ops r xs i = put_indices_loop ops r1 xs j"
      using other r0(1) 1(1) by (subst put_indices_loop.simps) auto
    then show ?thesis by (rule step) (use 1(2-4) other in auto)
  qed
qed

end

end
