(* ===== verification/Bit_Packing.thy ===== *)
theory Bit_Packing
  imports Bitutil
begin

unbundle bit_operations_syntax

text \<open>
  \<^verbatim>\<open>parquet/internal/utils/bit_packing_default.go\<close>: unpacking 32 values of a fixed bit width
  from a little-endian bit stream, one unrolled function per width. An \<^verbatim>\<open>io.Reader\<close> is the list
  of bytes it has still to deliver. The body of an unrolled function is its list of statements, in
  the four forms the file uses, run in order; a loop is the concatenation of its rounds. One checker,
  proved sound once, shows of each of the thirty-two bodies that it computes the same reference
  function, the values cut out of the stream at multiples of the width.
\<close>

section \<open>Statements of the unrolled functions\<close>

type_synonym unpackFunc = "byte list \<Rightarrow> u32 list \<Rightarrow> u32 list option"

text \<open>
  \<^item> \<open>Read\<close>: \<^verbatim>\<open>binary.Read(in, binary.LittleEndian, &inl)\<close>
  \<^item> \<open>ReadOut i\<close>: \<^verbatim>\<open>binary.Read(in, binary.LittleEndian, &out[i])\<close>
  \<^item> \<open>OutMod i s n\<close>: \<^verbatim>\<open>out[i] = (inl >> s) % (1 << n)\<close>
  \<^item> \<open>OutShr i s\<close>: \<^verbatim>\<open>out[i] = (inl >> s)\<close>
  \<^item> \<open>OutAnd i s m\<close>: \<^verbatim>\<open>out[i] = (inl >> s) & m\<close>
  \<^item> \<open>OutOr i a n b\<close>: \<^verbatim>\<open>out[i] |= (inl % (1 << a)) << (n - b)\<close>
\<close>

datatype unpack_stmt =
  Read
| ReadOut nat
| OutMod nat nat nat
| OutShr nat nat
| OutAnd nat nat u32
| OutOr nat nat nat nat

record unpack_state =
  us_in :: "byte list"
  us_inl :: u32
  us_out :: "u32 list"

text \<open>\<^verbatim>\<open>binary.Read\<close> of a \<^verbatim>\<open>uint32\<close>; the functions ignore its error, and a short read
  leaves the variable alone.\<close>

definition binary_Read_u32 :: "byte list \<Rightarrow> u32 \<Rightarrow> byte list \<times> u32" where
  "binary_Read_u32 bs old =
     (if 4 \<le> length bs then (drop 4 bs, word_of_bytes (take 4 bs)) else ([], old))"

fun run_stmt :: "unpack_stmt \<Rightarrow> unpack_state \<Rightarrow> unpack_state option" where
  "run_stmt Read s = (let (rest, v) = binary_Read_u32 (us_in s) (us_inl s)
     in Some (s\<lparr>us_in := rest, us_inl := v\<rparr>))"
| "run_stmt (ReadOut i) s = do {
     old \<leftarrow> idx (us_out s) i;
     let (rest, v) = binary_Read_u32 (us_in s) old;
     out \<leftarrow> upd (us_out s) i v;
     Some (s\<lparr>us_in := rest, us_out := out\<rparr>) }"
| "run_stmt (OutMod i sh n) s = do {
     out \<leftarrow> upd (us_out s) i (drop_bit sh (us_inl s) mod push_bit n 1);
     Some (s\<lparr>us_out := out\<rparr>) }"
| "run_stmt (OutShr i sh) s = do {
     out \<leftarrow> upd (us_out s) i (drop_bit sh (us_inl s)); Some (s\<lparr>us_out := out\<rparr>) }"
| "run_stmt (OutAnd i sh m) s = do {
     out \<leftarrow> upd (us_out s) i (drop_bit sh (us_inl s) AND m); Some (s\<lparr>us_out := out\<rparr>) }"
| "run_stmt (OutOr i a n b) s = do {
     old \<leftarrow> idx (us_out s) i;
     out \<leftarrow> upd (us_out s) i (old OR push_bit (n - b) (us_inl s mod push_bit a 1));
     Some (s\<lparr>us_out := out\<rparr>) }"

fun run_stmts :: "unpack_stmt list \<Rightarrow> unpack_state \<Rightarrow> unpack_state option" where
  "run_stmts [] s = Some s"
| "run_stmts (c # cs) s = do { s \<leftarrow> run_stmt c s; run_stmts cs s }"

text \<open>\<^verbatim>\<open>var inl uint32\<close>, then the statements.\<close>

definition run_unpack :: "unpack_stmt list \<Rightarrow> unpackFunc" where
  "run_unpack cs input out =
     map_option us_out (run_stmts cs \<lparr>us_in = input, us_inl = 0, us_out = out\<rparr>)"

section \<open>The unrolled functions\<close>

definition unpack1_32 :: unpackFunc where
  "unpack1_32 = run_unpack (Read # map (\<lambda>idx. OutAnd idx idx 1) [0..<32])"

definition unpack2_32 :: unpackFunc where
  "unpack2_32 = run_unpack
    [Read, OutMod 0 0 2, OutMod 1 2 2, OutMod 2 4 2, OutMod 3 6 2, OutMod 4 8 2, OutMod 5 10 2,
     OutMod 6 12 2, OutMod 7 14 2, OutMod 8 16 2, OutMod 9 18 2, OutMod 10 20 2,
     OutMod 11 22 2, OutMod 12 24 2, OutMod 13 26 2, OutMod 14 28 2, OutShr 15 30, Read,
     OutMod 16 0 2, OutMod 17 2 2, OutMod 18 4 2, OutMod 19 6 2, OutMod 20 8 2, OutMod 21 10 2,
     OutMod 22 12 2, OutMod 23 14 2, OutMod 24 16 2, OutMod 25 18 2, OutMod 26 20 2,
     OutMod 27 22 2, OutMod 28 24 2, OutMod 29 26 2, OutMod 30 28 2, OutShr 31 30]"

definition unpack3_32 :: unpackFunc where
  "unpack3_32 = run_unpack
    [Read, OutMod 0 0 3, OutMod 1 3 3, OutMod 2 6 3, OutMod 3 9 3, OutMod 4 12 3,
     OutMod 5 15 3, OutMod 6 18 3, OutMod 7 21 3, OutMod 8 24 3, OutMod 9 27 3, OutShr 10 30,
     Read, OutOr 10 1 3 1, OutMod 11 1 3, OutMod 12 4 3, OutMod 13 7 3, OutMod 14 10 3,
     OutMod 15 13 3, OutMod 16 16 3, OutMod 17 19 3, OutMod 18 22 3, OutMod 19 25 3,
     OutMod 20 28 3, OutMod 21 31 3, Read, OutOr 21 2 3 2, OutMod 22 2 3, OutMod 23 5 3,
     OutMod 24 8 3, OutMod 25 11 3, OutMod 26 14 3, OutMod 27 17 3, OutMod 28 20 3,
     OutMod 29 23 3, OutMod 30 26 3, OutShr 31 29]"

definition unpack4_32 :: unpackFunc where
  "unpack4_32 = run_unpack
    ([Read] @ map (\<lambda>i. OutMod (i div 4) i 4) [0, 4, 8, 12, 16, 20, 24] @ [OutShr 7 28] @
     [Read] @ map (\<lambda>i. OutMod (8 + i div 4) i 4) [0, 4, 8, 12, 16, 20, 24] @ [OutShr 15 28] @
     [Read] @ map (\<lambda>i. OutMod (16 + i div 4) i 4) [0, 4, 8, 12, 16, 20, 24] @ [OutShr 23 28] @
     [Read] @ map (\<lambda>i. OutMod (24 + i div 4) i 4) [0, 4, 8, 12, 16, 20, 24] @ [OutShr 31 28])"

definition unpack5_32 :: unpackFunc where
  "unpack5_32 = run_unpack
    [Read, OutMod 0 0 5, OutMod 1 5 5, OutMod 2 10 5, OutMod 3 15 5, OutMod 4 20 5,
     OutMod 5 25 5, OutShr 6 30, Read, OutOr 6 3 5 3, OutMod 7 3 5, OutMod 8 8 5,
     OutMod 9 13 5, OutMod 10 18 5, OutMod 11 23 5, OutShr 12 28, Read, OutOr 12 1 5 1,
     OutMod 13 1 5, OutMod 14 6 5, OutMod 15 11 5, OutMod 16 16 5, OutMod 17 21 5,
     OutMod 18 26 5, OutShr 19 31, Read, OutOr 19 4 5 4, OutMod 20 4 5, OutMod 21 9 5,
     OutMod 22 14 5, OutMod 23 19 5, OutMod 24 24 5, OutShr 25 29, Read, OutOr 25 2 5 2,
     OutMod 26 2 5, OutMod 27 7 5, OutMod 28 12 5, OutMod 29 17 5, OutMod 30 22 5,
     OutShr 31 27]"

definition unpack6_32 :: unpackFunc where
  "unpack6_32 = run_unpack
    [Read, OutMod 0 0 6, OutMod 1 6 6, OutMod 2 12 6, OutMod 3 18 6, OutMod 4 24 6,
     OutShr 5 30, Read, OutOr 5 4 6 4, OutMod 6 4 6, OutMod 7 10 6, OutMod 8 16 6,
     OutMod 9 22 6, OutShr 10 28, Read, OutOr 10 2 6 2, OutMod 11 2 6, OutMod 12 8 6,
     OutMod 13 14 6, OutMod 14 20 6, OutShr 15 26, Read, OutMod 16 0 6, OutMod 17 6 6,
     OutMod 18 12 6, OutMod 19 18 6, OutMod 20 24 6, OutShr 21 30, Read, OutOr 21 4 6 4,
     OutMod 22 4 6, OutMod 23 10 6, OutMod 24 16 6, OutMod 25 22 6, OutShr 26 28, Read,
     OutOr 26 2 6 2, OutMod 27 2 6, OutMod 28 8 6, OutMod 29 14 6, OutMod 30 20 6,
     OutShr 31 26]"

definition unpack7_32 :: unpackFunc where
  "unpack7_32 = run_unpack
    [Read, OutMod 0 0 7, OutMod 1 7 7, OutMod 2 14 7, OutMod 3 21 7, OutShr 4 28, Read,
     OutOr 4 3 7 3, OutMod 5 3 7, OutMod 6 10 7, OutMod 7 17 7, OutMod 8 24 7, OutShr 9 31,
     Read, OutOr 9 6 7 6, OutMod 10 6 7, OutMod 11 13 7, OutMod 12 20 7, OutShr 13 27, Read,
     OutOr 13 2 7 2, OutMod 14 2 7, OutMod 15 9 7, OutMod 16 16 7, OutMod 17 23 7,
     OutShr 18 30, Read, OutOr 18 5 7 5, OutMod 19 5 7, OutMod 20 12 7, OutMod 21 19 7,
     OutShr 22 26, Read, OutOr 22 1 7 1, OutMod 23 1 7, OutMod 24 8 7, OutMod 25 15 7,
     OutMod 26 22 7, OutShr 27 29, Read, OutOr 27 4 7 4, OutMod 28 4 7, OutMod 29 11 7,
     OutMod 30 18 7, OutShr 31 25]"

definition unpack8_32 :: unpackFunc where
  "unpack8_32 = run_unpack
    ([Read] @ map (\<lambda>i. OutMod (0 + i div 8) i 8) [0, 8, 16] @ [OutShr 3 24] @
     [Read] @ map (\<lambda>i. OutMod (4 + i div 8) i 8) [0, 8, 16] @ [OutShr 7 24] @
     [Read] @ map (\<lambda>i. OutMod (8 + i div 8) i 8) [0, 8, 16] @ [OutShr 11 24] @
     [Read] @ map (\<lambda>i. OutMod (12 + i div 8) i 8) [0, 8, 16] @ [OutShr 15 24] @
     [Read] @ map (\<lambda>i. OutMod (16 + i div 8) i 8) [0, 8, 16] @ [OutShr 19 24] @
     [Read] @ map (\<lambda>i. OutMod (20 + i div 8) i 8) [0, 8, 16] @ [OutShr 23 24] @
     [Read] @ map (\<lambda>i. OutMod (24 + i div 8) i 8) [0, 8, 16] @ [OutShr 27 24] @
     [Read] @ map (\<lambda>i. OutMod (28 + i div 8) i 8) [0, 8, 16] @ [OutShr 31 24])"

definition unpack9_32 :: unpackFunc where
  "unpack9_32 = run_unpack
    [Read, OutMod 0 0 9, OutMod 1 9 9, OutMod 2 18 9, OutShr 3 27, Read, OutOr 3 4 9 4,
     OutMod 4 4 9, OutMod 5 13 9, OutMod 6 22 9, OutShr 7 31, Read, OutOr 7 8 9 8,
     OutMod 8 8 9, OutMod 9 17 9, OutShr 10 26, Read, OutOr 10 3 9 3, OutMod 11 3 9,
     OutMod 12 12 9, OutMod 13 21 9, OutShr 14 30, Read, OutOr 14 7 9 7, OutMod 15 7 9,
     OutMod 16 16 9, OutShr 17 25, Read, OutOr 17 2 9 2, OutMod 18 2 9, OutMod 19 11 9,
     OutMod 20 20 9, OutShr 21 29, Read, OutOr 21 6 9 6, OutMod 22 6 9, OutMod 23 15 9,
     OutShr 24 24, Read, OutOr 24 1 9 1, OutMod 25 1 9, OutMod 26 10 9, OutMod 27 19 9,
     OutShr 28 28, Read, OutOr 28 5 9 5, OutMod 29 5 9, OutMod 30 14 9, OutShr 31 23]"

definition unpack10_32 :: unpackFunc where
  "unpack10_32 = run_unpack
    [Read, OutMod 0 0 10, OutMod 1 10 10, OutMod 2 20 10, OutShr 3 30, Read, OutOr 3 8 10 8,
     OutMod 4 8 10, OutMod 5 18 10, OutShr 6 28, Read, OutOr 6 6 10 6, OutMod 7 6 10,
     OutMod 8 16 10, OutShr 9 26, Read, OutOr 9 4 10 4, OutMod 10 4 10, OutMod 11 14 10,
     OutShr 12 24, Read, OutOr 12 2 10 2, OutMod 13 2 10, OutMod 14 12 10, OutShr 15 22, Read,
     OutMod 16 0 10, OutMod 17 10 10, OutMod 18 20 10, OutShr 19 30, Read, OutOr 19 8 10 8,
     OutMod 20 8 10, OutMod 21 18 10, OutShr 22 28, Read, OutOr 22 6 10 6, OutMod 23 6 10,
     OutMod 24 16 10, OutShr 25 26, Read, OutOr 25 4 10 4, OutMod 26 4 10, OutMod 27 14 10,
     OutShr 28 24, Read, OutOr 28 2 10 2, OutMod 29 2 10, OutMod 30 12 10, OutShr 31 22]"

definition unpack11_32 :: unpackFunc where
  "unpack11_32 = run_unpack
    [Read, OutMod 0 0 11, OutMod 1 11 11, OutShr 2 22, Read, OutOr 2 1 11 1, OutMod 3 1 11,
     OutMod 4 12 11, OutShr 5 23, Read, OutOr 5 2 11 2, OutMod 6 2 11, OutMod 7 13 11,
     OutShr 8 24, Read, OutOr 8 3 11 3, OutMod 9 3 11, OutMod 10 14 11, OutShr 11 25, Read,
     OutOr 11 4 11 4, OutMod 12 4 11, OutMod 13 15 11, OutShr 14 26, Read, OutOr 14 5 11 5,
     OutMod 15 5 11, OutMod 16 16 11, OutShr 17 27, Read, OutOr 17 6 11 6, OutMod 18 6 11,
     OutMod 19 17 11, OutShr 20 28, Read, OutOr 20 7 11 7, OutMod 21 7 11, OutMod 22 18 11,
     OutShr 23 29, Read, OutOr 23 8 11 8, OutMod 24 8 11, OutMod 25 19 11, OutShr 26 30, Read,
     OutOr 26 9 11 9, OutMod 27 9 11, OutMod 28 20 11, OutShr 29 31, Read, OutOr 29 10 11 10,
     OutMod 30 10 11, OutShr 31 21]"

definition unpack12_32 :: unpackFunc where
  "unpack12_32 = run_unpack
    [Read, OutMod 0 0 12, OutMod 1 12 12, OutShr 2 24, Read, OutOr 2 4 12 4, OutMod 3 4 12,
     OutMod 4 16 12, OutShr 5 28, Read, OutOr 5 8 12 8, OutMod 6 8 12, OutShr 7 20, Read,
     OutMod 8 0 12, OutMod 9 12 12, OutShr 10 24, Read, OutOr 10 4 12 4, OutMod 11 4 12,
     OutMod 12 16 12, OutShr 13 28, Read, OutOr 13 8 12 8, OutMod 14 8 12, OutShr 15 20, Read,
     OutMod 16 0 12, OutMod 17 12 12, OutShr 18 24, Read, OutOr 18 4 12 4, OutMod 19 4 12,
     OutMod 20 16 12, OutShr 21 28, Read, OutOr 21 8 12 8, OutMod 22 8 12, OutShr 23 20, Read,
     OutMod 24 0 12, OutMod 25 12 12, OutShr 26 24, Read, OutOr 26 4 12 4, OutMod 27 4 12,
     OutMod 28 16 12, OutShr 29 28, Read, OutOr 29 8 12 8, OutMod 30 8 12, OutShr 31 20]"

definition unpack13_32 :: unpackFunc where
  "unpack13_32 = run_unpack
    [Read, OutMod 0 0 13, OutMod 1 13 13, OutShr 2 26, Read, OutOr 2 7 13 7, OutMod 3 7 13,
     OutShr 4 20, Read, OutOr 4 1 13 1, OutMod 5 1 13, OutMod 6 14 13, OutShr 7 27, Read,
     OutOr 7 8 13 8, OutMod 8 8 13, OutShr 9 21, Read, OutOr 9 2 13 2, OutMod 10 2 13,
     OutMod 11 15 13, OutShr 12 28, Read, OutOr 12 9 13 9, OutMod 13 9 13, OutShr 14 22, Read,
     OutOr 14 3 13 3, OutMod 15 3 13, OutMod 16 16 13, OutShr 17 29, Read, OutOr 17 10 13 10,
     OutMod 18 10 13, OutShr 19 23, Read, OutOr 19 4 13 4, OutMod 20 4 13, OutMod 21 17 13,
     OutShr 22 30, Read, OutOr 22 11 13 11, OutMod 23 11 13, OutShr 24 24, Read,
     OutOr 24 5 13 5, OutMod 25 5 13, OutMod 26 18 13, OutShr 27 31, Read, OutOr 27 12 13 12,
     OutMod 28 12 13, OutShr 29 25, Read, OutOr 29 6 13 6, OutMod 30 6 13, OutShr 31 19]"

definition unpack14_32 :: unpackFunc where
  "unpack14_32 = run_unpack
    [Read, OutMod 0 0 14, OutMod 1 14 14, OutShr 2 28, Read, OutOr 2 10 14 10, OutMod 3 10 14,
     OutShr 4 24, Read, OutOr 4 6 14 6, OutMod 5 6 14, OutShr 6 20, Read, OutOr 6 2 14 2,
     OutMod 7 2 14, OutMod 8 16 14, OutShr 9 30, Read, OutOr 9 12 14 12, OutMod 10 12 14,
     OutShr 11 26, Read, OutOr 11 8 14 8, OutMod 12 8 14, OutShr 13 22, Read, OutOr 13 4 14 4,
     OutMod 14 4 14, OutShr 15 18, Read, OutMod 16 0 14, OutMod 17 14 14, OutShr 18 28, Read,
     OutOr 18 10 14 10, OutMod 19 10 14, OutShr 20 24, Read, OutOr 20 6 14 6, OutMod 21 6 14,
     OutShr 22 20, Read, OutOr 22 2 14 2, OutMod 23 2 14, OutMod 24 16 14, OutShr 25 30, Read,
     OutOr 25 12 14 12, OutMod 26 12 14, OutShr 27 26, Read, OutOr 27 8 14 8, OutMod 28 8 14,
     OutShr 29 22, Read, OutOr 29 4 14 4, OutMod 30 4 14, OutShr 31 18]"

definition unpack15_32 :: unpackFunc where
  "unpack15_32 = run_unpack
    [Read, OutMod 0 0 15, OutMod 1 15 15, OutShr 2 30, Read, OutOr 2 13 15 13, OutMod 3 13 15,
     OutShr 4 28, Read, OutOr 4 11 15 11, OutMod 5 11 15, OutShr 6 26, Read, OutOr 6 9 15 9,
     OutMod 7 9 15, OutShr 8 24, Read, OutOr 8 7 15 7, OutMod 9 7 15, OutShr 10 22, Read,
     OutOr 10 5 15 5, OutMod 11 5 15, OutShr 12 20, Read, OutOr 12 3 15 3, OutMod 13 3 15,
     OutShr 14 18, Read, OutOr 14 1 15 1, OutMod 15 1 15, OutMod 16 16 15, OutShr 17 31, Read,
     OutOr 17 14 15 14, OutMod 18 14 15, OutShr 19 29, Read, OutOr 19 12 15 12,
     OutMod 20 12 15, OutShr 21 27, Read, OutOr 21 10 15 10, OutMod 22 10 15, OutShr 23 25,
     Read, OutOr 23 8 15 8, OutMod 24 8 15, OutShr 25 23, Read, OutOr 25 6 15 6,
     OutMod 26 6 15, OutShr 27 21, Read, OutOr 27 4 15 4, OutMod 28 4 15, OutShr 29 19, Read,
     OutOr 29 2 15 2, OutMod 30 2 15, OutShr 31 17]"

definition unpack16_32 :: unpackFunc where
  "unpack16_32 = run_unpack
    (concat (map (\<lambda>i. [Read, OutMod (i * 2) 0 16, OutShr (i * 2 + 1) 16]) [0..<16]))"

definition unpack17_32 :: unpackFunc where
  "unpack17_32 = run_unpack
    [Read, OutMod 0 0 17, OutShr 1 17, Read, OutOr 1 2 17 2, OutMod 2 2 17, OutShr 3 19, Read,
     OutOr 3 4 17 4, OutMod 4 4 17, OutShr 5 21, Read, OutOr 5 6 17 6, OutMod 6 6 17,
     OutShr 7 23, Read, OutOr 7 8 17 8, OutMod 8 8 17, OutShr 9 25, Read, OutOr 9 10 17 10,
     OutMod 10 10 17, OutShr 11 27, Read, OutOr 11 12 17 12, OutMod 12 12 17, OutShr 13 29,
     Read, OutOr 13 14 17 14, OutMod 14 14 17, OutShr 15 31, Read, OutOr 15 16 17 16,
     OutShr 16 16, Read, OutOr 16 1 17 1, OutMod 17 1 17, OutShr 18 18, Read, OutOr 18 3 17 3,
     OutMod 19 3 17, OutShr 20 20, Read, OutOr 20 5 17 5, OutMod 21 5 17, OutShr 22 22, Read,
     OutOr 22 7 17 7, OutMod 23 7 17, OutShr 24 24, Read, OutOr 24 9 17 9, OutMod 25 9 17,
     OutShr 26 26, Read, OutOr 26 11 17 11, OutMod 27 11 17, OutShr 28 28, Read,
     OutOr 28 13 17 13, OutMod 29 13 17, OutShr 30 30, Read, OutOr 30 15 17 15, OutShr 31 15]"

definition unpack18_32 :: unpackFunc where
  "unpack18_32 = run_unpack
    [Read, OutMod 0 0 18, OutShr 1 18, Read, OutOr 1 4 18 4, OutMod 2 4 18, OutShr 3 22, Read,
     OutOr 3 8 18 8, OutMod 4 8 18, OutShr 5 26, Read, OutOr 5 12 18 12, OutMod 6 12 18,
     OutShr 7 30, Read, OutOr 7 16 18 16, OutShr 8 16, Read, OutOr 8 2 18 2, OutMod 9 2 18,
     OutShr 10 20, Read, OutOr 10 6 18 6, OutMod 11 6 18, OutShr 12 24, Read,
     OutOr 12 10 18 10, OutMod 13 10 18, OutShr 14 28, Read, OutOr 14 14 18 14, OutShr 15 14,
     Read, OutMod 16 0 18, OutShr 17 18, Read, OutOr 17 4 18 4, OutMod 18 4 18, OutShr 19 22,
     Read, OutOr 19 8 18 8, OutMod 20 8 18, OutShr 21 26, Read, OutOr 21 12 18 12,
     OutMod 22 12 18, OutShr 23 30, Read, OutOr 23 16 18 16, OutShr 24 16, Read,
     OutOr 24 2 18 2, OutMod 25 2 18, OutShr 26 20, Read, OutOr 26 6 18 6, OutMod 27 6 18,
     OutShr 28 24, Read, OutOr 28 10 18 10, OutMod 29 10 18, OutShr 30 28, Read,
     OutOr 30 14 18 14, OutShr 31 14]"

definition unpack19_32 :: unpackFunc where
  "unpack19_32 = run_unpack
    [Read, OutMod 0 0 19, OutShr 1 19, Read, OutOr 1 6 19 6, OutMod 2 6 19, OutShr 3 25, Read,
     OutOr 3 12 19 12, OutMod 4 12 19, OutShr 5 31, Read, OutOr 5 18 19 18, OutShr 6 18, Read,
     OutOr 6 5 19 5, OutMod 7 5 19, OutShr 8 24, Read, OutOr 8 11 19 11, OutMod 9 11 19,
     OutShr 10 30, Read, OutOr 10 17 19 17, OutShr 11 17, Read, OutOr 11 4 19 4,
     OutMod 12 4 19, OutShr 13 23, Read, OutOr 13 10 19 10, OutMod 14 10 19, OutShr 15 29,
     Read, OutOr 15 16 19 16, OutShr 16 16, Read, OutOr 16 3 19 3, OutMod 17 3 19,
     OutShr 18 22, Read, OutOr 18 9 19 9, OutMod 19 9 19, OutShr 20 28, Read,
     OutOr 20 15 19 15, OutShr 21 15, Read, OutOr 21 2 19 2, OutMod 22 2 19, OutShr 23 21,
     Read, OutOr 23 8 19 8, OutMod 24 8 19, OutShr 25 27, Read, OutOr 25 14 19 14,
     OutShr 26 14, Read, OutOr 26 1 19 1, OutMod 27 1 19, OutShr 28 20, Read, OutOr 28 7 19 7,
     OutMod 29 7 19, OutShr 30 26, Read, OutOr 30 13 19 13, OutShr 31 13]"

definition unpack20_32 :: unpackFunc where
  "unpack20_32 = run_unpack
    [Read, OutMod 0 0 20, OutShr 1 20, Read, OutOr 1 8 20 8, OutMod 2 8 20, OutShr 3 28, Read,
     OutOr 3 16 20 16, OutShr 4 16, Read, OutOr 4 4 20 4, OutMod 5 4 20, OutShr 6 24, Read,
     OutOr 6 12 20 12, OutShr 7 12, Read, OutMod 8 0 20, OutShr 9 20, Read, OutOr 9 8 20 8,
     OutMod 10 8 20, OutShr 11 28, Read, OutOr 11 16 20 16, OutShr 12 16, Read,
     OutOr 12 4 20 4, OutMod 13 4 20, OutShr 14 24, Read, OutOr 14 12 20 12, OutShr 15 12,
     Read, OutMod 16 0 20, OutShr 17 20, Read, OutOr 17 8 20 8, OutMod 18 8 20, OutShr 19 28,
     Read, OutOr 19 16 20 16, OutShr 20 16, Read, OutOr 20 4 20 4, OutMod 21 4 20,
     OutShr 22 24, Read, OutOr 22 12 20 12, OutShr 23 12, Read, OutMod 24 0 20, OutShr 25 20,
     Read, OutOr 25 8 20 8, OutMod 26 8 20, OutShr 27 28, Read, OutOr 27 16 20 16,
     OutShr 28 16, Read, OutOr 28 4 20 4, OutMod 29 4 20, OutShr 30 24, Read,
     OutOr 30 12 20 12, OutShr 31 12]"

definition unpack21_32 :: unpackFunc where
  "unpack21_32 = run_unpack
    [Read, OutMod 0 0 21, OutShr 1 21, Read, OutOr 1 10 21 10, OutMod 2 10 21, OutShr 3 31,
     Read, OutOr 3 20 21 20, OutShr 4 20, Read, OutOr 4 9 21 9, OutMod 5 9 21, OutShr 6 30,
     Read, OutOr 6 19 21 19, OutShr 7 19, Read, OutOr 7 8 21 8, OutMod 8 8 21, OutShr 9 29,
     Read, OutOr 9 18 21 18, OutShr 10 18, Read, OutOr 10 7 21 7, OutMod 11 7 21, OutShr 12 28,
     Read, OutOr 12 17 21 17, OutShr 13 17, Read, OutOr 13 6 21 6, OutMod 14 6 21,
     OutShr 15 27, Read, OutOr 15 16 21 16, OutShr 16 16, Read, OutOr 16 5 21 5,
     OutMod 17 5 21, OutShr 18 26, Read, OutOr 18 15 21 15, OutShr 19 15, Read,
     OutOr 19 4 21 4, OutMod 20 4 21, OutShr 21 25, Read, OutOr 21 14 21 14, OutShr 22 14,
     Read, OutOr 22 3 21 3, OutMod 23 3 21, OutShr 24 24, Read, OutOr 24 13 21 13,
     OutShr 25 13, Read, OutOr 25 2 21 2, OutMod 26 2 21, OutShr 27 23, Read,
     OutOr 27 12 21 12, OutShr 28 12, Read, OutOr 28 1 21 1, OutMod 29 1 21, OutShr 30 22,
     Read, OutOr 30 11 21 11, OutShr 31 11]"

definition unpack22_32 :: unpackFunc where
  "unpack22_32 = run_unpack
    [Read, OutMod 0 0 22, OutShr 1 22, Read, OutOr 1 12 22 12, OutShr 2 12, Read,
     OutOr 2 2 22 2, OutMod 3 2 22, OutShr 4 24, Read, OutOr 4 14 22 14, OutShr 5 14, Read,
     OutOr 5 4 22 4, OutMod 6 4 22, OutShr 7 26, Read, OutOr 7 16 22 16, OutShr 8 16, Read,
     OutOr 8 6 22 6, OutMod 9 6 22, OutShr 10 28, Read, OutOr 10 18 22 18, OutShr 11 18, Read,
     OutOr 11 8 22 8, OutMod 12 8 22, OutShr 13 30, Read, OutOr 13 20 22 20, OutShr 14 20,
     Read, OutOr 14 10 22 10, OutShr 15 10, Read, OutMod 16 0 22, OutShr 17 22, Read,
     OutOr 17 12 22 12, OutShr 18 12, Read, OutOr 18 2 22 2, OutMod 19 2 22, OutShr 20 24,
     Read, OutOr 20 14 22 14, OutShr 21 14, Read, OutOr 21 4 22 4, OutMod 22 4 22,
     OutShr 23 26, Read, OutOr 23 16 22 16, OutShr 24 16, Read, OutOr 24 6 22 6,
     OutMod 25 6 22, OutShr 26 28, Read, OutOr 26 18 22 18, OutShr 27 18, Read,
     OutOr 27 8 22 8, OutMod 28 8 22, OutShr 29 30, Read, OutOr 29 20 22 20, OutShr 30 20,
     Read, OutOr 30 10 22 10, OutShr 31 10]"

definition unpack23_32 :: unpackFunc where
  "unpack23_32 = run_unpack
    [Read, OutMod 0 0 23, OutShr 1 23, Read, OutOr 1 14 23 14, OutShr 2 14, Read,
     OutOr 2 5 23 5, OutMod 3 5 23, OutShr 4 28, Read, OutOr 4 19 23 19, OutShr 5 19, Read,
     OutOr 5 10 23 10, OutShr 6 10, Read, OutOr 6 1 23 1, OutMod 7 1 23, OutShr 8 24, Read,
     OutOr 8 15 23 15, OutShr 9 15, Read, OutOr 9 6 23 6, OutMod 10 6 23, OutShr 11 29, Read,
     OutOr 11 20 23 20, OutShr 12 20, Read, OutOr 12 11 23 11, OutShr 13 11, Read,
     OutOr 13 2 23 2, OutMod 14 2 23, OutShr 15 25, Read, OutOr 15 16 23 16, OutShr 16 16,
     Read, OutOr 16 7 23 7, OutMod 17 7 23, OutShr 18 30, Read, OutOr 18 21 23 21,
     OutShr 19 21, Read, OutOr 19 12 23 12, OutShr 20 12, Read, OutOr 20 3 23 3,
     OutMod 21 3 23, OutShr 22 26, Read, OutOr 22 17 23 17, OutShr 23 17, Read,
     OutOr 23 8 23 8, OutMod 24 8 23, OutShr 25 31, Read, OutOr 25 22 23 22, OutShr 26 22,
     Read, OutOr 26 13 23 13, OutShr 27 13, Read, OutOr 27 4 23 4, OutMod 28 4 23,
     OutShr 29 27, Read, OutOr 29 18 23 18, OutShr 30 18, Read, OutOr 30 9 23 9, OutShr 31 9]"

definition unpack24_32 :: unpackFunc where
  "unpack24_32 = run_unpack
    (concat (map (\<lambda>i. let base = i * 4 in
       [Read, OutMod base 0 24, OutShr (base + 1) 24,
        Read, OutOr (base + 1) 16 24 16, OutShr (base + 2) 16,
        Read, OutOr (base + 2) 8 24 8, OutShr (base + 3) 8]) [0..<8]))"

definition unpack25_32 :: unpackFunc where
  "unpack25_32 = run_unpack
    [Read, OutMod 0 0 25, OutShr 1 25, Read, OutOr 1 18 25 18, OutShr 2 18, Read,
     OutOr 2 11 25 11, OutShr 3 11, Read, OutOr 3 4 25 4, OutMod 4 4 25, OutShr 5 29, Read,
     OutOr 5 22 25 22, OutShr 6 22, Read, OutOr 6 15 25 15, OutShr 7 15, Read, OutOr 7 8 25 8,
     OutShr 8 8, Read, OutOr 8 1 25 1, OutMod 9 1 25, OutShr 10 26, Read, OutOr 10 19 25 19,
     OutShr 11 19, Read, OutOr 11 12 25 12, OutShr 12 12, Read, OutOr 12 5 25 5,
     OutMod 13 5 25, OutShr 14 30, Read, OutOr 14 23 25 23, OutShr 15 23, Read,
     OutOr 15 16 25 16, OutShr 16 16, Read, OutOr 16 9 25 9, OutShr 17 9, Read,
     OutOr 17 2 25 2, OutMod 18 2 25, OutShr 19 27, Read, OutOr 19 20 25 20, OutShr 20 20,
     Read, OutOr 20 13 25 13, OutShr 21 13, Read, OutOr 21 6 25 6, OutMod 22 6 25,
     OutShr 23 31, Read, OutOr 23 24 25 24, OutShr 24 24, Read, OutOr 24 17 25 17,
     OutShr 25 17, Read, OutOr 25 10 25 10, OutShr 26 10, Read, OutOr 26 3 25 3,
     OutMod 27 3 25, OutShr 28 28, Read, OutOr 28 21 25 21, OutShr 29 21, Read,
     OutOr 29 14 25 14, OutShr 30 14, Read, OutOr 30 7 25 7, OutShr 31 7]"

definition unpack26_32 :: unpackFunc where
  "unpack26_32 = run_unpack
    [Read, OutMod 0 0 26, OutShr 1 26, Read, OutOr 1 20 26 20, OutShr 2 20, Read,
     OutOr 2 14 26 14, OutShr 3 14, Read, OutOr 3 8 26 8, OutShr 4 8, Read, OutOr 4 2 26 2,
     OutMod 5 2 26, OutShr 6 28, Read, OutOr 6 22 26 22, OutShr 7 22, Read, OutOr 7 16 26 16,
     OutShr 8 16, Read, OutOr 8 10 26 10, OutShr 9 10, Read, OutOr 9 4 26 4, OutMod 10 4 26,
     OutShr 11 30, Read, OutOr 11 24 26 24, OutShr 12 24, Read, OutOr 12 18 26 18,
     OutShr 13 18, Read, OutOr 13 12 26 12, OutShr 14 12, Read, OutOr 14 6 26 6, OutShr 15 6,
     Read, OutMod 16 0 26, OutShr 17 26, Read, OutOr 17 20 26 20, OutShr 18 20, Read,
     OutOr 18 14 26 14, OutShr 19 14, Read, OutOr 19 8 26 8, OutShr 20 8, Read,
     OutOr 20 2 26 2, OutMod 21 2 26, OutShr 22 28, Read, OutOr 22 22 26 22, OutShr 23 22,
     Read, OutOr 23 16 26 16, OutShr 24 16, Read, OutOr 24 10 26 10, OutShr 25 10, Read,
     OutOr 25 4 26 4, OutMod 26 4 26, OutShr 27 30, Read, OutOr 27 24 26 24, OutShr 28 24,
     Read, OutOr 28 18 26 18, OutShr 29 18, Read, OutOr 29 12 26 12, OutShr 30 12, Read,
     OutOr 30 6 26 6, OutShr 31 6]"

definition unpack27_32 :: unpackFunc where
  "unpack27_32 = run_unpack
    [Read, OutMod 0 0 27, OutShr 1 27, Read, OutOr 1 22 27 22, OutShr 2 22, Read,
     OutOr 2 17 27 17, OutShr 3 17, Read, OutOr 3 12 27 12, OutShr 4 12, Read, OutOr 4 7 27 7,
     OutShr 5 7, Read, OutOr 5 2 27 2, OutMod 6 2 27, OutShr 7 29, Read, OutOr 7 24 27 24,
     OutShr 8 24, Read, OutOr 8 19 27 19, OutShr 9 19, Read, OutOr 9 14 27 14, OutShr 10 14,
     Read, OutOr 10 9 27 9, OutShr 11 9, Read, OutOr 11 4 27 4, OutMod 12 4 27, OutShr 13 31,
     Read, OutOr 13 26 27 26, OutShr 14 26, Read, OutOr 14 21 27 21, OutShr 15 21, Read,
     OutOr 15 16 27 16, OutShr 16 16, Read, OutOr 16 11 27 11, OutShr 17 11, Read,
     OutOr 17 6 27 6, OutShr 18 6, Read, OutOr 18 1 27 1, OutMod 19 1 27, OutShr 20 28, Read,
     OutOr 20 23 27 23, OutShr 21 23, Read, OutOr 21 18 27 18, OutShr 22 18, Read,
     OutOr 22 13 27 13, OutShr 23 13, Read, OutOr 23 8 27 8, OutShr 24 8, Read,
     OutOr 24 3 27 3, OutMod 25 3 27, OutShr 26 30, Read, OutOr 26 25 27 25, OutShr 27 25,
     Read, OutOr 27 20 27 20, OutShr 28 20, Read, OutOr 28 15 27 15, OutShr 29 15, Read,
     OutOr 29 10 27 10, OutShr 30 10, Read, OutOr 30 5 27 5, OutShr 31 5]"

definition unpack28_32 :: unpackFunc where
  "unpack28_32 = run_unpack
    (concat (map (\<lambda>i. let base = i * 8 in
       [Read, OutMod base 0 28, OutShr (base + 1) 28,
        Read, OutOr (base + 1) 24 28 24, OutShr (base + 2) 24,
        Read, OutOr (base + 2) 20 28 20, OutShr (base + 3) 20,
        Read, OutOr (base + 3) 16 28 16, OutShr (base + 4) 16,
        Read, OutOr (base + 4) 12 28 12, OutShr (base + 5) 12,
        Read, OutOr (base + 5) 8 28 8, OutShr (base + 6) 8,
        Read, OutOr (base + 6) 4 28 4, OutShr (base + 7) 4]) [0..<4]))"

definition unpack29_32 :: unpackFunc where
  "unpack29_32 = run_unpack
    [Read, OutMod 0 0 29, OutShr 1 29, Read, OutOr 1 26 29 26, OutShr 2 26, Read,
     OutOr 2 23 29 23, OutShr 3 23, Read, OutOr 3 20 29 20, OutShr 4 20, Read,
     OutOr 4 17 29 17, OutShr 5 17, Read, OutOr 5 14 29 14, OutShr 6 14, Read,
     OutOr 6 11 29 11, OutShr 7 11, Read, OutOr 7 8 29 8, OutShr 8 8, Read, OutOr 8 5 29 5,
     OutShr 9 5, Read, OutOr 9 2 29 2, OutMod 10 2 29, OutShr 11 31, Read, OutOr 11 28 29 28,
     OutShr 12 28, Read, OutOr 12 25 29 25, OutShr 13 25, Read, OutOr 13 22 29 22,
     OutShr 14 22, Read, OutOr 14 19 29 19, OutShr 15 19, Read, OutOr 15 16 29 16,
     OutShr 16 16, Read, OutOr 16 13 29 13, OutShr 17 13, Read, OutOr 17 10 29 10,
     OutShr 18 10, Read, OutOr 18 7 29 7, OutShr 19 7, Read, OutOr 19 4 29 4, OutShr 20 4,
     Read, OutOr 20 1 29 1, OutMod 21 1 29, OutShr 22 30, Read, OutOr 22 27 29 27,
     OutShr 23 27, Read, OutOr 23 24 29 24, OutShr 24 24, Read, OutOr 24 21 29 21,
     OutShr 25 21, Read, OutOr 25 18 29 18, OutShr 26 18, Read, OutOr 26 15 29 15,
     OutShr 27 15, Read, OutOr 27 12 29 12, OutShr 28 12, Read, OutOr 28 9 29 9, OutShr 29 9,
     Read, OutOr 29 6 29 6, OutShr 30 6, Read, OutOr 30 3 29 3, OutShr 31 3]"

definition unpack30_32 :: unpackFunc where
  "unpack30_32 = run_unpack
    [Read, OutMod 0 0 30, OutShr 1 30, Read, OutOr 1 28 30 28, OutShr 2 28, Read,
     OutOr 2 26 30 26, OutShr 3 26, Read, OutOr 3 24 30 24, OutShr 4 24, Read,
     OutOr 4 22 30 22, OutShr 5 22, Read, OutOr 5 20 30 20, OutShr 6 20, Read,
     OutOr 6 18 30 18, OutShr 7 18, Read, OutOr 7 16 30 16, OutShr 8 16, Read,
     OutOr 8 14 30 14, OutShr 9 14, Read, OutOr 9 12 30 12, OutShr 10 12, Read,
     OutOr 10 10 30 10, OutShr 11 10, Read, OutOr 11 8 30 8, OutShr 12 8, Read,
     OutOr 12 6 30 6, OutShr 13 6, Read, OutOr 13 4 30 4, OutShr 14 4, Read, OutOr 14 2 30 2,
     OutShr 15 2, Read, OutMod 16 0 30, OutShr 17 30, Read, OutOr 17 28 30 28, OutShr 18 28,
     Read, OutOr 18 26 30 26, OutShr 19 26, Read, OutOr 19 24 30 24, OutShr 20 24, Read,
     OutOr 20 22 30 22, OutShr 21 22, Read, OutOr 21 20 30 20, OutShr 22 20, Read,
     OutOr 22 18 30 18, OutShr 23 18, Read, OutOr 23 16 30 16, OutShr 24 16, Read,
     OutOr 24 14 30 14, OutShr 25 14, Read, OutOr 25 12 30 12, OutShr 26 12, Read,
     OutOr 26 10 30 10, OutShr 27 10, Read, OutOr 27 8 30 8, OutShr 28 8, Read,
     OutOr 28 6 30 6, OutShr 29 6, Read, OutOr 29 4 30 4, OutShr 30 4, Read, OutOr 30 2 30 2,
     OutShr 31 2]"

definition unpack31_32 :: unpackFunc where
  "unpack31_32 = run_unpack
    [Read, OutMod 0 0 31, OutShr 1 31, Read, OutOr 1 30 31 30, OutShr 2 30, Read,
     OutOr 2 29 31 29, OutShr 3 29, Read, OutOr 3 28 31 28, OutShr 4 28, Read,
     OutOr 4 27 31 27, OutShr 5 27, Read, OutOr 5 26 31 26, OutShr 6 26, Read,
     OutOr 6 25 31 25, OutShr 7 25, Read, OutOr 7 24 31 24, OutShr 8 24, Read,
     OutOr 8 23 31 23, OutShr 9 23, Read, OutOr 9 22 31 22, OutShr 10 22, Read,
     OutOr 10 21 31 21, OutShr 11 21, Read, OutOr 11 20 31 20, OutShr 12 20, Read,
     OutOr 12 19 31 19, OutShr 13 19, Read, OutOr 13 18 31 18, OutShr 14 18, Read,
     OutOr 14 17 31 17, OutShr 15 17, Read, OutOr 15 16 31 16, OutShr 16 16, Read,
     OutOr 16 15 31 15, OutShr 17 15, Read, OutOr 17 14 31 14, OutShr 18 14, Read,
     OutOr 18 13 31 13, OutShr 19 13, Read, OutOr 19 12 31 12, OutShr 20 12, Read,
     OutOr 20 11 31 11, OutShr 21 11, Read, OutOr 21 10 31 10, OutShr 22 10, Read,
     OutOr 22 9 31 9, OutShr 23 9, Read, OutOr 23 8 31 8, OutShr 24 8, Read, OutOr 24 7 31 7,
     OutShr 25 7, Read, OutOr 25 6 31 6, OutShr 26 6, Read, OutOr 26 5 31 5, OutShr 27 5, Read,
     OutOr 27 4 31 4, OutShr 28 4, Read, OutOr 28 3 31 3, OutShr 29 3, Read, OutOr 29 2 31 2,
     OutShr 30 2, Read, OutOr 30 1 31 1, OutShr 31 1]"

definition unpack32_32 :: unpackFunc where
  "unpack32_32 = run_unpack (map ReadOut [0..<32])"

text \<open>\<^verbatim>\<open>for i := 1; i < 32; i *= 2 { copy(out[i:], out[:i]) }\<close>, over the values of \<^verbatim>\<open>i\<close>.\<close>

fun null_loop :: "nat list \<Rightarrow> u32 list \<Rightarrow> u32 list option" where
  "null_loop [] out = Some out"
| "null_loop (i # is) out =
     do { s \<leftarrow> slice out 0 i; null_loop is (blit out i s) }"

definition nullunpack32 :: unpackFunc where
  "nullunpack32 input out = do { out \<leftarrow> upd out 0 0; null_loop [1, 2, 4, 8, 16] out }"

section \<open>unpack32Default\<close>

text \<open>\<^verbatim>\<open>io.ReadFull\<close> on a buffer of \<open>n\<close> bytes: the bytes left, the bytes read, the error.\<close>

definition io_ReadFull :: "byte list \<Rightarrow> nat \<Rightarrow> byte list \<times> byte list \<times> goerr option" where
  "io_ReadFull input n =
     (if n \<le> length input then (drop n input, take n input, None)
      else if input = [] then ([], [], Some EOF)
      else ([], input, Some ErrUnexpectedEOF))"

definition unpack_table :: "unpackFunc list" where
  "unpack_table =
     [nullunpack32, unpack1_32, unpack2_32, unpack3_32, unpack4_32, unpack5_32, unpack6_32,
      unpack7_32, unpack8_32, unpack9_32, unpack10_32, unpack11_32, unpack12_32, unpack13_32,
      unpack14_32, unpack15_32, unpack16_32, unpack17_32, unpack18_32, unpack19_32, unpack20_32,
      unpack21_32, unpack22_32, unpack23_32, unpack24_32, unpack25_32, unpack26_32, unpack27_32,
      unpack28_32, unpack29_32, unpack30_32, unpack31_32, unpack32_32]"

text \<open>Round \<open>i\<close> of the loop unpacks into \<^verbatim>\<open>out[i*32:]\<close>.\<close>

fun unpack_loop ::
  "unpackFunc \<Rightarrow> nat \<Rightarrow> nat \<Rightarrow> nat \<Rightarrow> byte list \<Rightarrow> u32 list \<Rightarrow>
   (byte list \<times> u32 list \<times> nat \<times> goerr option) option" where
  "unpack_loop f packedBytes i 0 input out = Some (input, out, i * 32, None)"
| "unpack_loop f packedBytes i (Suc k) input out =
     (case io_ReadFull input packedBytes of
        (rest, packed, Some err) \<Rightarrow> Some (rest, out, i * 32, Some err)
      | (rest, packed, None) \<Rightarrow> do {
          o1 \<leftarrow> slice_from out (i * 32);
          o2 \<leftarrow> f packed o1;
          unpack_loop f packedBytes (i + 1) k rest (blit out (i * 32) o2) })"

definition unpack32Default ::
  "byte list \<Rightarrow> u32 list \<Rightarrow> nat \<Rightarrow> (byte list \<times> u32 list \<times> nat \<times> goerr option) option" where
  "unpack32Default input out nbits =
     (let batch = length out div 32 * 32; nloops = batch div 32
      in if nbits < length unpack_table
         then unpack_loop (unpack_table ! nbits) (nbits * 4) 0 nloops input out
         else Some (input, out, 0, None))"

section \<open>The reference\<close>

text \<open>Value \<open>k\<close> of a stream of \<open>n\<close>-bit values.\<close>

definition packed_value :: "byte list \<Rightarrow> nat \<Rightarrow> nat \<Rightarrow> 'a::len word" where
  "packed_value bs n k = horner_sum of_bool 2 (map (\<lambda>i. bm_bit bs (k * n + i)) [0..<n])"

lemma bit_packed_value:
  "bit (packed_value bs n k :: 'a::len word) i \<longleftrightarrow> i < LENGTH('a) \<and> i < n \<and> bm_bit bs (k * n + i)"
  by (auto simp: packed_value_def bit_horner_sum_bit_word_iff)

definition unpack_ok :: "nat \<Rightarrow> unpackFunc \<Rightarrow> bool" where
  "unpack_ok n f \<longleftrightarrow> (\<forall>bs out. length bs = 4 * n \<longrightarrow> 32 \<le> length out \<longrightarrow>
     f bs out = Some (map (packed_value bs n) [0..<32] @ drop 32 out))"

text \<open>The checker walks over the statements with the number \<open>w\<close> of words read and the next output
  \<open>j\<close>: an assignment must take value \<open>j\<close> at its place in the current word, and a value that crosses
  the word's end must be completed from the next word.\<close>

fun check_stmts :: "nat \<Rightarrow> nat \<Rightarrow> nat \<Rightarrow> unpack_stmt list \<Rightarrow> bool" where
  "check_stmts n w j [] \<longleftrightarrow> j = 32"
| "check_stmts n w j (Read # cs) \<longleftrightarrow> w < n \<and> check_stmts n (Suc w) j cs"
| "check_stmts n w j (ReadOut i # cs) \<longleftrightarrow>
     n = 32 \<and> i = j \<and> w = j \<and> j < 32 \<and> check_stmts n (Suc w) (Suc j) cs"
| "check_stmts n w j (OutMod i s m # cs) \<longleftrightarrow>
     i = j \<and> m = n \<and> n < 32 \<and> s < 32 \<and> j < 32 \<and> 32 * w + s = j * n + 32 \<and>
     (if s + n \<le> 32 then check_stmts n w (Suc j) cs
      else case cs of Read # OutOr i a m' b # cs' \<Rightarrow>
        i = j \<and> a = b \<and> m' = n \<and> s + n = a + 32 \<and> w < n \<and> check_stmts n (Suc w) (Suc j) cs'
      | _ \<Rightarrow> False)"
| "check_stmts n w j (OutShr i s # cs) \<longleftrightarrow>
     i = j \<and> n < 32 \<and> s < 32 \<and> j < 32 \<and> 32 * w + s = j * n + 32 \<and> 32 \<le> s + n \<and>
     (if s + n = 32 then check_stmts n w (Suc j) cs
      else case cs of Read # OutOr i a m' b # cs' \<Rightarrow>
        i = j \<and> a = b \<and> m' = n \<and> s + n = a + 32 \<and> w < n \<and> check_stmts n (Suc w) (Suc j) cs'
      | _ \<Rightarrow> False)"
| "check_stmts n w j (OutAnd i s m # cs) \<longleftrightarrow>
     i = j \<and> n = 1 \<and> m = 1 \<and> s < 32 \<and> j < 32 \<and> 32 * w + s = j * n + 32 \<and> check_stmts n w (Suc j) cs"
| "check_stmts n w j (OutOr i a m b # cs) \<longleftrightarrow> False"

text \<open>The state after \<open>w\<close> words and \<open>j\<close> values of the stream \<open>bs\<close>.\<close>

definition unpack_inv :: "byte list \<Rightarrow> nat \<Rightarrow> u32 list \<Rightarrow> nat \<Rightarrow> nat \<Rightarrow> unpack_state \<Rightarrow> bool" where
  "unpack_inv bs n out w j s \<longleftrightarrow>
     us_in s = drop (4 * w) bs \<and> j \<le> 32 \<and>
     (0 < w \<longrightarrow> n < 32 \<longrightarrow> us_inl s = word_of_bytes (take 4 (drop (4 * (w - 1)) bs))) \<and>
     length (us_out s) = length out \<and> (\<forall>k<j. us_out s ! k = packed_value bs n k) \<and>
     (\<forall>k. 32 \<le> k \<longrightarrow> k < length out \<longrightarrow> us_out s ! k = out ! k)"

lemma bit_mod_exp: "bit (x mod 2 ^ n) i \<longleftrightarrow> i < n \<and> bit x i" for x :: "'a::len word"
  by (simp add: bit_take_bit_iff flip: take_bit_eq_mod)

lemma unpack_inv_inl:
  assumes "unpack_inv bs n out w j s" "0 < w" "n < 32"
  shows "bit (us_inl s) i \<longleftrightarrow> i < 32 \<and> bm_bit bs (32 * (w - 1) + i)"
  using assms by (auto simp: unpack_inv_def bit_word_of_bytes bm_bit_take bm_bit_drop)

lemma unpack_inv_read:
  assumes "unpack_inv bs n out w j s" "w < n" "length bs = 4 * n"
  shows "\<exists>s'. run_stmt Read s = Some s' \<and> unpack_inv bs n out (Suc w) j s' \<and> us_out s' = us_out s"
  using assms by (auto simp: unpack_inv_def binary_Read_u32_def)

lemma unpack_inv_put:
  assumes "unpack_inv bs n out w j s" "j < 32" "32 \<le> length out"
    and "\<And>i. i < 32 \<Longrightarrow> bit v i \<longleftrightarrow> i < n \<and> bm_bit bs (j * n + i)"
  shows "unpack_inv bs n out w (Suc j) (s\<lparr>us_out := (us_out s)[j := v]\<rparr>)" "j < length (us_out s)"
proof -
  have "v = packed_value bs n j" using assms(4) by (simp add: word_eq_bits_iff bit_packed_value)
  then show "unpack_inv bs n out w (Suc j) (s\<lparr>us_out := (us_out s)[j := v]\<rparr>)"
    using assms(1-3) by (auto simp: unpack_inv_def nth_list_update less_Suc_eq)
  show "j < length (us_out s)" using assms(1-3) by (simp add: unpack_inv_def)
qed

text \<open>A value that crosses the end of a word: assigned from the word \<open>w\<close>, completed from the next.\<close>

lemma unpack_inv_cross:
  assumes inv: "unpack_inv bs n out w j s" and len: "length bs = 4 * n" "32 \<le> length out"
    and j: "j < 32" "n < 32" "w < n" and at: "32 * w + sh = j * n + 32" "sh < 32" "sh + n = a + 32"
    and v: "\<And>i. i < 32 \<Longrightarrow> bit v i \<longleftrightarrow> i < 32 - sh \<and> bit (us_inl s) (sh + i)"
  shows "\<exists>s'. run_stmts (Read # OutOr j a n a # cs) (s\<lparr>us_out := (us_out s)[j := v]\<rparr>) = run_stmts cs s' \<and>
    unpack_inv bs n out (Suc w) (Suc j) s'"
proof -
  have w: "0 < w" using at by (cases w) auto
  have pos: "32 * (w - 1) + (sh + i) = j * n + i" for i using at w by (cases w) auto
  have inv1: "unpack_inv bs n out w j (s\<lparr>us_out := (us_out s)[j := v]\<rparr>)"
    using inv j by (auto simp: unpack_inv_def nth_list_update)
  from unpack_inv_read [OF inv1 j(3) len(1)] obtain s1 where
    s1: "run_stmt Read (s\<lparr>us_out := (us_out s)[j := v]\<rparr>) = Some s1" "unpack_inv bs n out (Suc w) j s1"
      "us_out s1 = (us_out s)[j := v]" by auto
  have jl: "j < length (us_out s)" using inv len j by (simp add: unpack_inv_def)
  let ?v = "v OR push_bit (n - a) (us_inl s1 mod push_bit a 1)"
  have "bit ?v i \<longleftrightarrow> i < n \<and> bm_bit bs (j * n + i)" if "i < 32" for i
  proof (cases "i < 32 - sh")
    case True
    then have "\<not> n - a \<le> i" "i < n" "sh + i < 32" using at(2,3) by linarith+
    moreover have "bit (us_inl s) (sh + i) \<longleftrightarrow> bm_bit bs (j * n + i)"
      using unpack_inv_inl [OF inv w j(2), of "sh + i"] \<open>sh + i < 32\<close> unfolding pos by simp
    ultimately show ?thesis
      using True v [OF that] by (simp add: bit_or_iff bit_push_bit_iff)
  next
    case False
    then have *: "n - a \<le> i" "i - (n - a) < a \<longleftrightarrow> i < n" "32 * w + (i - (n - a)) = j * n + i" "i - (n - a) < 32"
      using at that by linarith+
    have "bit (us_inl s1) (i - (n - a)) \<longleftrightarrow> bm_bit bs (j * n + i)"
      using unpack_inv_inl [OF s1(2), of "i - (n - a)"] * j(2) by simp
    then show ?thesis using * False that v [OF that] by (auto simp: bit_or_iff bit_push_bit_iff bit_mod_exp)
  qed
  then have "unpack_inv bs n out (Suc w) (Suc j) (s1\<lparr>us_out := (us_out s1)[j := ?v]\<rparr>)"
    using unpack_inv_put(1) [OF s1(2) j(1) len(2), of ?v] by blast
  moreover have "run_stmts (Read # OutOr j a n a # cs) (s\<lparr>us_out := (us_out s)[j := v]\<rparr>) =
      run_stmts cs (s1\<lparr>us_out := (us_out s1)[j := ?v]\<rparr>)"
    using s1 jl by simp
  ultimately show ?thesis by blast
qed

text \<open>A value inside the current word.\<close>

lemma unpack_inv_inside:
  assumes inv: "unpack_inv bs n out w j s" and len: "32 \<le> length out" and j: "j < 32" and n: "n < 32"
    and at: "32 * w + sh = j * n + 32" "sh < 32" "sh + n \<le> 32"
    and v: "\<And>i. i < 32 \<Longrightarrow> bit v i \<longleftrightarrow> i < n \<and> bit (us_inl s) (sh + i)"
  shows "unpack_inv bs n out w (Suc j) (s\<lparr>us_out := (us_out s)[j := v]\<rparr>)" "j < length (us_out s)"
proof -
  have w: "0 < w" using at by (cases w) auto
  have pos: "32 * (w - 1) + (sh + i) = j * n + i" for i using at w by (cases w) auto
  have "bit v i \<longleftrightarrow> i < n \<and> bm_bit bs (j * n + i)" if "i < 32" for i
    using v [OF that] unpack_inv_inl [OF inv w n, of "sh + i"] at(3) unfolding pos by auto
  then show "unpack_inv bs n out w (Suc j) (s\<lparr>us_out := (us_out s)[j := v]\<rparr>)" "j < length (us_out s)"
    using unpack_inv_put [OF inv j len, of v] by auto
qed

lemma unpack_inv_ReadOut:
  assumes inv: "unpack_inv bs 32 out j j s" and len: "length bs = 128" "32 \<le> length out" and j: "j < 32"
  shows "\<exists>s'. run_stmt (ReadOut j) s = Some s' \<and> unpack_inv bs 32 out (Suc j) (Suc j) s'"
proof -
  let ?v = "word_of_bytes (take 4 (drop (4 * j) bs)) :: u32"
  have "unpack_inv bs 32 out j (Suc j) (s\<lparr>us_out := (us_out s)[j := ?v]\<rparr>)" and jl: "j < length (us_out s)"
    using unpack_inv_put [OF inv j len(2), of ?v]
    by (auto simp: bit_word_of_bytes bm_bit_take bm_bit_drop mult.commute)
  then have "unpack_inv bs 32 out (Suc j) (Suc j) (s\<lparr>us_in := drop (4 * Suc j) bs, us_out := (us_out s)[j := ?v]\<rparr>)"
    using j by (auto simp: unpack_inv_def)
  moreover have "us_in s = drop (4 * j) bs" using inv by (simp add: unpack_inv_def)
  ultimately show ?thesis using jl len j by (auto simp: binary_Read_u32_def)
qed

lemma check_stmts_run:
  "check_stmts n w j cs \<Longrightarrow> unpack_inv bs n out w j s \<Longrightarrow> length bs = 4 * n \<Longrightarrow> 32 \<le> length out \<Longrightarrow>
   \<exists>s' w'. run_stmts cs s = Some s' \<and> unpack_inv bs n out w' 32 s'"
proof (induction n w j cs arbitrary: s rule: check_stmts.induct)
  case (1 n w j)
  then show ?case by auto
next
  case (2 n w j cs)
  then show ?case using unpack_inv_read [of bs n out w j s] by (auto simp del: run_stmt.simps)
next
  case (3 n w j i cs)
  then show ?case using unpack_inv_ReadOut [of bs out j s] by (auto simp del: run_stmt.simps)
next
  case (4 n w j i sh m cs)
  let ?v = "drop_bit sh (us_inl s) mod 2 ^ n"
  have *: "i = j" "m = n" "n < 32" "sh < 32" "j < 32" "32 * w + sh = j * n + 32" using 4 by auto
  have v: "bit ?v k \<longleftrightarrow> k < n \<and> bit (us_inl s) (sh + k)" for k
    by (simp only: bit_mod_exp bit_drop_bit_eq comp_apply)
  have jl: "j < length (us_out s)" using "4.prems" * by (simp add: unpack_inv_def)
  have run: "run_stmts (OutMod i sh m # cs) s = run_stmts cs (s\<lparr>us_out := (us_out s)[j := ?v]\<rparr>)"
    using jl by (simp add: *)
  show ?case
  proof (cases "sh + n \<le> 32")
    case True
    then show ?thesis
      using unpack_inv_inside [OF "4.prems"(2,4) *(5,3,6,4) True v] "4.IH"(1) [OF True] "4.prems" run by auto
  next
    case False
    then obtain a b cs' where cs: "cs = Read # OutOr j a n a # cs'" "sh + n = a + 32" "w < n"
        "check_stmts n (Suc w) (Suc j) cs'"
      using "4.prems"(1) * by (auto split: list.splits unpack_stmt.splits)
    have "bit ?v k \<longleftrightarrow> k < 32 - sh \<and> bit (us_inl s) (sh + k)" if "k < 32" for k
      using v [of k] False bit_imp_le_length [of "us_inl s" "sh + k"] by auto
    from unpack_inv_cross [OF "4.prems"(2-4) *(5,3) cs(3) *(6,4) cs(2) this, of cs'] show ?thesis
      using "4.IH"(2) [OF False cs(1)] cs(4) "4.prems" run unfolding cs(1) by auto
  qed
next
  case (5 n w j i sh cs)
  let ?v = "drop_bit sh (us_inl s)"
  have *: "i = j" "n < 32" "sh < 32" "j < 32" "32 * w + sh = j * n + 32" "32 \<le> sh + n" using 5 by auto
  have v: "bit ?v k \<longleftrightarrow> k < 32 - sh \<and> bit (us_inl s) (sh + k)" for k
    using bit_imp_le_length [of "us_inl s" "sh + k"] by (auto simp: bit_drop_bit_eq)
  have jl: "j < length (us_out s)" using "5.prems" * by (simp add: unpack_inv_def)
  have run: "run_stmts (OutShr i sh # cs) s = run_stmts cs (s\<lparr>us_out := (us_out s)[j := ?v]\<rparr>)"
    using jl by (simp add: *)
  show ?case
  proof (cases "sh + n = 32")
    case True
    then have "32 - sh = n" by linarith
    then show ?thesis
      using unpack_inv_inside [OF "5.prems"(2,4) *(4,2,5,3) _ v [unfolded \<open>32 - sh = n\<close>]] True
        "5.IH"(1) [OF True] "5.prems" run by auto
  next
    case False
    then obtain a b cs' where cs: "cs = Read # OutOr j a n a # cs'" "sh + n = a + 32" "w < n"
        "check_stmts n (Suc w) (Suc j) cs'"
      using "5.prems"(1) * by (auto split: list.splits unpack_stmt.splits)
    from unpack_inv_cross [OF "5.prems"(2-4) *(4,2) cs(3) *(5,3) cs(2) v, of cs'] show ?thesis
      using "5.IH"(2) [OF False cs(1)] cs(4) "5.prems" run unfolding cs(1) by auto
  qed
next
  case (6 n w j i sh m cs)
  let ?v = "drop_bit sh (us_inl s) AND 1"
  have *: "i = j" "n = 1" "m = 1" "sh < 32" "j < 32" "32 * w + sh = j * n + 32" using 6 by auto
  have v: "bit ?v k \<longleftrightarrow> k < n \<and> bit (us_inl s) (sh + k)" for k
    by (auto simp: * bit_and_iff bit_drop_bit_eq bit_1_iff)
  have jl: "j < length (us_out s)" using "6.prems" * by (simp add: unpack_inv_def)
  have run: "run_stmts (OutAnd i sh m # cs) s = run_stmts cs (s\<lparr>us_out := (us_out s)[j := ?v]\<rparr>)"
    using jl by (simp add: *)
  show ?case
    using unpack_inv_inside [OF "6.prems"(2,4) *(5) _ *(6,4) _ v] "6.IH" "6.prems" run * by auto
next
  case (7 n w j i a m b cs)
  then show ?case by simp
qed

lemma check_stmts_sound:
  assumes "check_stmts n 0 0 cs"
  shows "unpack_ok n (run_unpack cs)"
  unfolding unpack_ok_def
proof (intro allI impI)
  fix bs :: "byte list" and out :: "u32 list"
  assume len: "length bs = 4 * n" "32 \<le> length out"
  let ?s = "\<lparr>us_in = bs, us_inl = 0, us_out = out\<rparr>"
  have "unpack_inv bs n out 0 0 ?s" by (simp add: unpack_inv_def)
  from check_stmts_run [OF assms this len] obtain s' w' where
    s': "run_stmts cs ?s = Some s'" "unpack_inv bs n out w' 32 s'" by blast
  have "us_out s' = map (packed_value bs n) [0..<32] @ drop 32 out"
    using s'(2) len(2) by (intro nth_equalityI) (auto simp: unpack_inv_def nth_append)
  then show "run_unpack cs bs out = Some (map (packed_value bs n) [0..<32] @ drop 32 out)"
    using s'(1) by (simp add: run_unpack_def)
qed

section \<open>Every width\<close>

lemma unpack1_32_ok: "unpack_ok 1 unpack1_32"
  unfolding unpack1_32_def by (rule check_stmts_sound) (simp add: upt_conv_Cons Let_def)

lemma unpack2_32_ok: "unpack_ok 2 unpack2_32"
  unfolding unpack2_32_def by (rule check_stmts_sound) (simp add: upt_conv_Cons Let_def)

lemma unpack3_32_ok: "unpack_ok 3 unpack3_32"
  unfolding unpack3_32_def by (rule check_stmts_sound) (simp add: upt_conv_Cons Let_def)

lemma unpack4_32_ok: "unpack_ok 4 unpack4_32"
  unfolding unpack4_32_def by (rule check_stmts_sound) (simp add: upt_conv_Cons Let_def)

lemma unpack5_32_ok: "unpack_ok 5 unpack5_32"
  unfolding unpack5_32_def by (rule check_stmts_sound) (simp add: upt_conv_Cons Let_def)

lemma unpack6_32_ok: "unpack_ok 6 unpack6_32"
  unfolding unpack6_32_def by (rule check_stmts_sound) (simp add: upt_conv_Cons Let_def)

lemma unpack7_32_ok: "unpack_ok 7 unpack7_32"
  unfolding unpack7_32_def by (rule check_stmts_sound) (simp add: upt_conv_Cons Let_def)

lemma unpack8_32_ok: "unpack_ok 8 unpack8_32"
  unfolding unpack8_32_def by (rule check_stmts_sound) (simp add: upt_conv_Cons Let_def)

lemma unpack9_32_ok: "unpack_ok 9 unpack9_32"
  unfolding unpack9_32_def by (rule check_stmts_sound) (simp add: upt_conv_Cons Let_def)

lemma unpack10_32_ok: "unpack_ok 10 unpack10_32"
  unfolding unpack10_32_def by (rule check_stmts_sound) (simp add: upt_conv_Cons Let_def)

lemma unpack11_32_ok: "unpack_ok 11 unpack11_32"
  unfolding unpack11_32_def by (rule check_stmts_sound) (simp add: upt_conv_Cons Let_def)

lemma unpack12_32_ok: "unpack_ok 12 unpack12_32"
  unfolding unpack12_32_def by (rule check_stmts_sound) (simp add: upt_conv_Cons Let_def)

lemma unpack13_32_ok: "unpack_ok 13 unpack13_32"
  unfolding unpack13_32_def by (rule check_stmts_sound) (simp add: upt_conv_Cons Let_def)

lemma unpack14_32_ok: "unpack_ok 14 unpack14_32"
  unfolding unpack14_32_def by (rule check_stmts_sound) (simp add: upt_conv_Cons Let_def)

lemma unpack15_32_ok: "unpack_ok 15 unpack15_32"
  unfolding unpack15_32_def by (rule check_stmts_sound) (simp add: upt_conv_Cons Let_def)

lemma unpack16_32_ok: "unpack_ok 16 unpack16_32"
  unfolding unpack16_32_def by (rule check_stmts_sound) (simp add: upt_conv_Cons Let_def)

lemma unpack17_32_ok: "unpack_ok 17 unpack17_32"
  unfolding unpack17_32_def by (rule check_stmts_sound) (simp add: upt_conv_Cons Let_def)

lemma unpack18_32_ok: "unpack_ok 18 unpack18_32"
  unfolding unpack18_32_def by (rule check_stmts_sound) (simp add: upt_conv_Cons Let_def)

lemma unpack19_32_ok: "unpack_ok 19 unpack19_32"
  unfolding unpack19_32_def by (rule check_stmts_sound) (simp add: upt_conv_Cons Let_def)

lemma unpack20_32_ok: "unpack_ok 20 unpack20_32"
  unfolding unpack20_32_def by (rule check_stmts_sound) (simp add: upt_conv_Cons Let_def)

lemma unpack21_32_ok: "unpack_ok 21 unpack21_32"
  unfolding unpack21_32_def by (rule check_stmts_sound) (simp add: upt_conv_Cons Let_def)

lemma unpack22_32_ok: "unpack_ok 22 unpack22_32"
  unfolding unpack22_32_def by (rule check_stmts_sound) (simp add: upt_conv_Cons Let_def)

lemma unpack23_32_ok: "unpack_ok 23 unpack23_32"
  unfolding unpack23_32_def by (rule check_stmts_sound) (simp add: upt_conv_Cons Let_def)

lemma unpack24_32_ok: "unpack_ok 24 unpack24_32"
  unfolding unpack24_32_def by (rule check_stmts_sound) (simp add: upt_conv_Cons Let_def)

lemma unpack25_32_ok: "unpack_ok 25 unpack25_32"
  unfolding unpack25_32_def by (rule check_stmts_sound) (simp add: upt_conv_Cons Let_def)

lemma unpack26_32_ok: "unpack_ok 26 unpack26_32"
  unfolding unpack26_32_def by (rule check_stmts_sound) (simp add: upt_conv_Cons Let_def)

lemma unpack27_32_ok: "unpack_ok 27 unpack27_32"
  unfolding unpack27_32_def by (rule check_stmts_sound) (simp add: upt_conv_Cons Let_def)

lemma unpack28_32_ok: "unpack_ok 28 unpack28_32"
  unfolding unpack28_32_def by (rule check_stmts_sound) (simp add: upt_conv_Cons Let_def)

lemma unpack29_32_ok: "unpack_ok 29 unpack29_32"
  unfolding unpack29_32_def by (rule check_stmts_sound) (simp add: upt_conv_Cons Let_def)

lemma unpack30_32_ok: "unpack_ok 30 unpack30_32"
  unfolding unpack30_32_def by (rule check_stmts_sound) (simp add: upt_conv_Cons Let_def)

lemma unpack31_32_ok: "unpack_ok 31 unpack31_32"
  unfolding unpack31_32_def by (rule check_stmts_sound) (simp add: upt_conv_Cons Let_def)

lemma unpack32_32_ok: "unpack_ok 32 unpack32_32"
  unfolding unpack32_32_def by (rule check_stmts_sound) (simp add: upt_conv_Cons Let_def)

lemma null_copy:
  assumes "take i out = replicate i 0" "2 * i \<le> length out"
  shows "take (2 * i) (blit out i (take i out)) = replicate (2 * i) 0"
    "drop (2 * i) (blit out i (take i out)) = drop (2 * i) out" "slice out 0 i = Some (take i out)"
proof -
  have "blit out i (take i out) = replicate i 0 @ replicate i 0 @ drop (2 * i) out"
    using assms by (simp add: blit_def mult_2)
  then show "take (2 * i) (blit out i (take i out)) = replicate (2 * i) 0"
    "drop (2 * i) (blit out i (take i out)) = drop (2 * i) out"
    by (simp_all add: mult_2 replicate_add)
qed (use assms in simp)

lemma null_loop_doubles:
  assumes "take i out = replicate i 0" "i * 2 ^ k \<le> length out"
  shows "null_loop (map (\<lambda>j. i * 2 ^ j) [0..<k]) out =
    Some (replicate (i * 2 ^ k) 0 @ drop (i * 2 ^ k) out)"
  using assms
proof (induction k arbitrary: i out)
  case 0
  then show ?case using append_take_drop_id [of i out] by simp
next
  case (Suc k)
  have "2 * i \<le> i * 2 ^ Suc k" by simp
  with Suc.prems have le: "2 * i \<le> length out" by linarith
  let ?out = "blit out i (take i out)"
  note copy = null_copy [OF Suc.prems(1) le]
  have "length ?out = length out" using le by simp
  then have "null_loop (map (\<lambda>j. 2 * i * 2 ^ j) [0..<k]) ?out =
      Some (replicate (2 * i * 2 ^ k) 0 @ drop (2 * i * 2 ^ k) ?out)"
    using Suc.prems by (intro Suc.IH copy) simp
  moreover have "map (\<lambda>j. i * 2 ^ j) [0..<Suc k] = i # map (\<lambda>j. 2 * i * 2 ^ j) [0..<k]"
    by (simp add: upt_conv_Cons map_Suc_upt [symmetric] comp_def ac_simps del: upt_Suc)
  moreover have "drop (2 * i * 2 ^ k) ?out = drop (2 * i * 2 ^ k) out"
  proof -
    have "2 * i * 2 ^ k = (2 * i * 2 ^ k - 2 * i) + 2 * i" by simp
    then show ?thesis using copy(2) by (metis drop_drop)
  qed
  ultimately show ?case using copy(3) by (simp add: ac_simps)
qed

lemma nullunpack32_ok: "unpack_ok 0 nullunpack32"
  unfolding unpack_ok_def
proof (intro allI impI)
  fix bs :: "byte list" and out :: "u32 list"
  assume len: "32 \<le> length out"
  have "take 1 (out[0 := 0]) = replicate 1 0" using len by (cases out) auto
  from null_loop_doubles [OF this, of 5] len
  have "null_loop [1, 2, 4, 8, 16] (out[0 := 0]) = Some (replicate 32 0 @ drop 32 out)"
    by (simp add: upt_conv_Cons)
  moreover have "replicate 32 0 = map (packed_value bs 0 :: nat \<Rightarrow> u32) [0..<32]"
    by (intro nth_equalityI) (auto simp: packed_value_def)
  moreover have "upd out 0 0 = Some (out[0 := 0])" using len by (cases out) auto
  ultimately show "nullunpack32 bs out = Some (map (packed_value bs 0) [0..<32] @ drop 32 out)"
    using len by (simp only: nullunpack32_def bind.bind_lunit)
qed

lemmas unpack_oks = nullunpack32_ok unpack1_32_ok unpack2_32_ok unpack3_32_ok unpack4_32_ok
  unpack5_32_ok unpack6_32_ok unpack7_32_ok unpack8_32_ok unpack9_32_ok unpack10_32_ok
  unpack11_32_ok unpack12_32_ok unpack13_32_ok unpack14_32_ok unpack15_32_ok unpack16_32_ok
  unpack17_32_ok unpack18_32_ok unpack19_32_ok unpack20_32_ok unpack21_32_ok unpack22_32_ok
  unpack23_32_ok unpack24_32_ok unpack25_32_ok unpack26_32_ok unpack27_32_ok unpack28_32_ok
  unpack29_32_ok unpack30_32_ok unpack31_32_ok unpack32_32_ok

lemma unpack_table_ok: "n \<le> 32 \<Longrightarrow> unpack_ok n (unpack_table ! n)"
proof -
  have "\<forall>k\<in>set [0..<33]. unpack_ok k (unpack_table ! k)"
    using unpack_oks by (simp add: upt_conv_Cons unpack_table_def eval_nat_numeral)
  then show "n \<le> 32 \<Longrightarrow> unpack_ok n (unpack_table ! n)" by simp
qed

section \<open>Whole batches\<close>

lemma packed_value_chunk:
  assumes "k < 32"
  shows "(packed_value (take (4 * n) (drop (4 * n * i) bs)) n k :: u32) = packed_value bs n (32 * i + k)"
proof (rule bit_word_eqI)
  fix b assume "b < LENGTH(32)"
  have "Suc k * n \<le> 32 * n" using assms by (intro mult_le_mono1) simp
  then have "b < n \<Longrightarrow> k * n + b < 32 * n" unfolding mult_Suc by linarith
  then show "bit (packed_value (take (4 * n) (drop (4 * n * i) bs)) n k :: u32) b =
      bit (packed_value bs n (32 * i + k) :: u32) b"
    by (auto simp: bit_packed_value bm_bit_take bm_bit_drop algebra_simps)
qed

text \<open>The state of the loop before round \<open>i\<close>, and one round of it.\<close>

abbreviation unpacked :: "byte list \<Rightarrow> nat \<Rightarrow> u32 list \<Rightarrow> nat \<Rightarrow> u32 list" where
  "unpacked bs n out i \<equiv> map (packed_value bs n) [0..<32 * i] @ drop (32 * i) out"

lemma unpack_loop_step:
  assumes ok: "unpack_ok n f" and bs: "4 * n * Suc i \<le> length bs" and out: "32 * Suc i \<le> length out"
  shows "unpack_loop f (n * 4) i (Suc k) (drop (4 * n * i) bs) (unpacked bs n out i) =
    unpack_loop f (n * 4) (Suc i) k (drop (4 * n * Suc i) bs) (unpacked bs n out (Suc i))"
proof -
  let ?packed = "take (4 * n) (drop (4 * n * i) bs)"
  have len: "n * 4 \<le> length (drop (4 * n * i) bs)" using bs by (simp add: algebra_simps)
  have "f ?packed (drop (32 * i) out) = Some (map (packed_value ?packed n) [0..<32] @ drop 32 (drop (32 * i) out))"
    using ok len out unfolding unpack_ok_def by (auto simp: min_absorb2 mult.commute)
  also have "map (packed_value ?packed n :: nat \<Rightarrow> u32) [0..<32] = map (packed_value bs n) [32 * i..<32 * i + 32]"
    by (intro nth_equalityI) (auto simp: packed_value_chunk)
  finally have f: "f ?packed (drop (32 * i) out) =
    Some (map (packed_value bs n) [32 * i..<32 * i + 32] @ drop (32 * Suc i) out)" by (simp add: add.commute)
  have "blit (unpacked bs n out i) (32 * i) (map (packed_value bs n) [32 * i..<32 * i + 32] @ drop (32 * Suc i) out) =
      unpacked bs n out (Suc i)"
  proof -
    have "[0..<32 * Suc i] = [0..<32 * i] @ [32 * i..<32 * i + 32]"
      using upt_add_eq_append [of 0 "32 * i" 32] by (simp add: add.commute)
    then show ?thesis using out by (simp add: blit_def)
  qed
  moreover have "io_ReadFull (drop (4 * n * i) bs) (n * 4) = (drop (4 * n * Suc i) bs, ?packed, None)"
    using len by (simp add: io_ReadFull_def algebra_simps)
  moreover have "slice_from (unpacked bs n out i) (i * 32) = Some (drop (32 * i) out)"
    by (simp add: mult.commute)
  ultimately show ?thesis using f by (simp add: mult.commute [of i 32] del: upt_Suc)
qed

lemma unpack_loop_eq:
  assumes ok: "unpack_ok n f"
  shows "4 * n * (i + k) \<le> length bs \<Longrightarrow> 32 * (i + k) \<le> length out \<Longrightarrow>
    unpack_loop f (n * 4) i k (drop (4 * n * i) bs) (unpacked bs n out i) =
    Some (drop (4 * n * (i + k)) bs, unpacked bs n out (i + k), 32 * (i + k), None)"
proof (induction k arbitrary: i)
  case (Suc k)
  have le: "4 * n * Suc i \<le> length bs" "32 * Suc i \<le> length out"
    using Suc.prems by (simp_all add: algebra_simps)
  show ?case
    using Suc.IH [of "Suc i"] Suc.prems by (simp only: unpack_loop_step [OF ok le] add_Suc_shift)
qed (simp add: mult.commute)

lemma unpack_loop_short:
  assumes ok: "unpack_ok n f" and n: "0 < n"
  shows "4 * n * i \<le> length bs \<Longrightarrow> length bs < 4 * n * (i + k) \<Longrightarrow> 32 * (i + k) \<le> length out \<Longrightarrow>
    unpack_loop f (n * 4) i k (drop (4 * n * i) bs) (unpacked bs n out i) =
    Some ([], unpacked bs n out (length bs div (4 * n)), 32 * (length bs div (4 * n)),
      Some (if length bs mod (4 * n) = 0 then EOF else ErrUnexpectedEOF))"
proof (induction k arbitrary: i)
  case (Suc k)
  show ?case
  proof (cases "4 * n * Suc i \<le> length bs")
    case True
    have "32 * Suc i \<le> length out" using Suc.prems(3) by simp
    then show ?thesis
      using Suc.IH [of "Suc i"] Suc.prems True by (simp only: unpack_loop_step [OF ok] add_Suc_shift)
  next
    case False
    then have q: "length bs - 4 * n * i < 4 * n" using Suc.prems(1) by auto
    have div: "length bs div (4 * n) = i"
      using Suc.prems(1) False by (intro div_nat_eqI) (auto simp: mult.commute)
    then have "length bs mod (4 * n) = length bs - 4 * n * i"
      by (metis minus_mult_div_eq_mod)
    note this div
    then show ?thesis using q by (auto simp: io_ReadFull_def mult.commute)
  qed
qed simp

lemma length_unpack_table: "length unpack_table = 33"
  by (simp add: unpack_table_def)

lemma unpack32Default_eq:
  assumes "nbits \<le> 32" "length out div 32 * (4 * nbits) \<le> length input"
  shows "unpack32Default input out nbits =
    Some (drop (length out div 32 * (4 * nbits)) input, unpacked input nbits out (length out div 32),
      32 * (length out div 32), None)"
  using unpack_loop_eq [OF unpack_table_ok [OF assms(1)], of 0 "length out div 32" input out] assms
  by (simp add: unpack32Default_def length_unpack_table Let_def mult.commute)

lemma unpack32Default_short:
  assumes "0 < nbits" "nbits \<le> 32" "length input < length out div 32 * (4 * nbits)"
  shows "unpack32Default input out nbits =
    Some ([], unpacked input nbits out (length input div (4 * nbits)), 32 * (length input div (4 * nbits)),
      Some (if length input mod (4 * nbits) = 0 then EOF else ErrUnexpectedEOF))"
  using unpack_loop_short [OF unpack_table_ok [OF assms(2)] assms(1), of 0 input "length out div 32" out] assms
  by (simp add: unpack32Default_def length_unpack_table Let_def mult.commute)

section \<open>Properties\<close>

text \<open>C4: with enough input, \<^verbatim>\<open>unpack32Default\<close> fills every whole batch of 32 outputs with the
  values of the stream, value \<open>k\<close> being the \<^verbatim>\<open>nbits\<close> bits from bit \<open>k * nbits\<close> on, for every
  width from 0 to 32; it consumes exactly their bytes, keeps the outputs behind the last whole batch
  and reports the number of values.\<close>

theorem unpack32Default_unpacks:
  assumes "nbits \<le> 32" "batch = length out div 32 * 32" "batch div 8 * nbits \<le> length input"
  shows "unpack32Default input out nbits =
    Some (drop (batch div 8 * nbits) input, map (packed_value input nbits) [0..<batch] @ drop batch out,
      batch, None)"
proof -
  have "batch div 8 * nbits = length out div 32 * (4 * nbits)" "batch = 32 * (length out div 32)"
    using assms(2) by simp_all
  then show ?thesis
    using unpack32Default_eq [of nbits out input] assms by (simp add: ac_simps)
qed

theorem unpack32Default_unpacks_witness:
  "unpack32Default (replicate 12 165) (replicate 40 7) 3 =
     Some ([], map (packed_value (replicate 12 165) 3) [0..<32] @ replicate 8 7, 32, None)"
  using unpack32Default_unpacks [of 3 32 "replicate 40 7" "replicate 12 165"] by simp

text \<open>when the input ends early, \<^verbatim>\<open>unpack32Default\<close> has unpacked exactly the whole batches the
  input holds, returns their number of values, and reports \<^verbatim>\<open>io.EOF\<close> at a batch boundary and
  \<^verbatim>\<open>io.ErrUnexpectedEOF\<close> inside a batch.\<close>

theorem unpack32Default_short_input:
  assumes "0 < nbits" "nbits \<le> 32" "length input < length out div 32 * 4 * nbits"
    and "full = length input div (4 * nbits) * 32"
  shows "unpack32Default input out nbits =
    Some ([], map (packed_value input nbits) [0..<full] @ drop full out, full,
      Some (if length input mod (4 * nbits) = 0 then EOF else ErrUnexpectedEOF))"
  using unpack32Default_short [OF assms(1,2), of input out] assms(3,4) by (simp add: ac_simps)

theorem unpack32Default_short_input_witness:
  "unpack32Default (replicate 13 165) (replicate 64 7) 3 =
     Some ([], map (packed_value (replicate 13 165) 3) [0..<32] @ replicate 32 7, 32, Some ErrUnexpectedEOF)"
  using unpack32Default_short_input [of 3 "replicate 13 165" "replicate 64 7" 32] by simp

end
