(* ===== verification/Bit_Reader.thy ===== *)
theory Bit_Reader
  imports Bit_Packing Bit_Writer
begin

unbundle bit_operations_syntax

text \<open>
  \<^verbatim>\<open>parquet/internal/utils/bit_reader.go\<close>: the bit-unpacking reader. Its \<^verbatim>\<open>reader\<close> is the
  \<^verbatim>\<open>bytes.Reader\<close> that every decoder passes: the bytes, which do not change, and the position
  that \<^verbatim>\<open>Seek\<close> sets and \<^verbatim>\<open>Read\<close> advances. \<^verbatim>\<open>raw\<close> is part of the state because
  one method reads what an earlier call left there; \<^verbatim>\<open>unpackBuf\<close> is overwritten before it
  is read and is no part of it. Where a method fills a slice, the model takes the slice and returns
  its new contents.
\<close>

section \<open>The source\<close>

text \<open>\<^verbatim>\<open>bytes.Reader.ReadAt\<close>: the bytes read, whose number is the count, and the error.\<close>

definition ReadAt :: "byte list \<Rightarrow> nat \<Rightarrow> nat \<Rightarrow> byte list \<times> goerr option" where
  "ReadAt s n off =
     (if off \<ge> length s then ([], Some EOF)
      else let bs = take n (drop off s) in (bs, if length bs < n then Some EOF else None))"

text \<open>\<^verbatim>\<open>bytes.Reader.Read\<close> at position \<^verbatim>\<open>i\<close>: the bytes read, the new position, the error.\<close>

definition Reader_Read :: "byte list \<Rightarrow> nat \<Rightarrow> nat \<Rightarrow> byte list \<times> nat \<times> goerr option" where
  "Reader_Read s i n =
     (if i \<ge> length s then ([], i, Some EOF)
      else let bs = take n (drop i s) in (bs, i + length bs, None))"

section \<open>BitReader\<close>

definition trailingMask :: "nat \<Rightarrow> u64" where
  "trailingMask i = drop_bit (64 - i) (NOT 0)"

definition trailingBits :: "u64 \<Rightarrow> nat \<Rightarrow> u64" where
  "trailingBits v bits = (if bits \<ge> 64 then v else v AND trailingMask bits)"

abbreviation "buflen \<equiv> (1024 :: nat)"

record BitReader =
  br_data :: "byte list"
  br_seek :: nat
  br_buffer :: u64
  br_byteoffset :: nat
  br_bitoffset :: nat
  br_validBits :: nat
  br_raw :: "byte list"

definition NewBitReader :: "byte list \<Rightarrow> BitReader" where
  "NewBitReader r = \<lparr>br_data = r, br_seek = 0, br_buffer = 0, br_byteoffset = 0, br_bitoffset = 0,
     br_validBits = 0, br_raw = replicate 8 0\<rparr>"

definition BitReader_CurOffset :: "BitReader \<Rightarrow> nat" where
  "BitReader_CurOffset b = br_byteoffset b + BytesForBits (br_bitoffset b)"

definition BitReader_Reset :: "BitReader \<Rightarrow> byte list \<Rightarrow> BitReader" where
  "BitReader_Reset b r = b\<lparr>br_data := r, br_seek := 0, br_buffer := 0, br_byteoffset := 0, br_bitoffset := 0,
     br_validBits := 0\<rparr>"

definition Seek :: "BitReader \<Rightarrow> nat \<Rightarrow> BitReader" where
  "Seek b off = b\<lparr>br_seek := off\<rparr>"

definition fillbuffer :: "BitReader \<Rightarrow> BitReader \<times> goerr option" where
  "fillbuffer b =
     (let (bs, err) = ReadAt (br_data b) 8 (br_byteoffset b); n = length bs;
          b = b\<lparr>br_raw := blit (br_raw b) 0 bs\<rparr>
      in if err \<noteq> None \<and> err \<noteq> Some EOF then (b, err)
         else let raw = take n (br_raw b) @ replicate (8 - n) 0
           in (b\<lparr>br_validBits := n * 8, br_raw := raw, br_buffer := word_of_bytes raw\<rparr>, None))"

text \<open>The first lines of every \<^verbatim>\<open>getAligned\<close> method: move to the next byte boundary and read
  \<^verbatim>\<open>nbytes\<close> there.\<close>

definition read_raw :: "BitReader \<Rightarrow> nat \<Rightarrow> BitReader \<times> nat \<times> goerr option" where
  "read_raw b nbytes =
     (let bread = BytesForBits (br_bitoffset b); b = b\<lparr>br_byteoffset := br_byteoffset b + bread\<rparr>;
          (bs, err) = ReadAt (br_data b) nbytes (br_byteoffset b)
      in (b\<lparr>br_raw := blit (br_raw b) 0 bs\<rparr>, length bs, err))"

text \<open>Their last lines: step over the bytes and refill the buffer.\<close>

definition step_aligned :: "BitReader \<Rightarrow> nat \<Rightarrow> BitReader \<times> bool" where
  "step_aligned b nbytes =
     (let (b, err) = fillbuffer (b\<lparr>br_byteoffset := br_byteoffset b + nbytes, br_bitoffset := 0\<rparr>)
      in (b, err = None))"

definition getAlignedUint8 :: "BitReader \<Rightarrow> nat \<Rightarrow> byte \<Rightarrow> BitReader \<times> byte \<times> bool" where
  "getAlignedUint8 b nbytes v =
     (if nbytes > 1 then (b, v, False)
      else let (b, n, err) = read_raw b nbytes
        in if err \<noteq> None \<and> err \<noteq> Some EOF then (b, v, False)
           else if n \<noteq> nbytes then (b, v, False)
           else let v = br_raw b ! 0; (b, ok) = step_aligned b nbytes in (b, v, ok))"

definition getAlignedUint16 :: "BitReader \<Rightarrow> nat \<Rightarrow> u16 \<Rightarrow> BitReader \<times> u16 \<times> bool" where
  "getAlignedUint16 b nbytes v =
     (if nbytes > 2 then (b, v, False)
      else let (b, n, err) = read_raw b nbytes
        in if err \<noteq> None \<and> err \<noteq> Some EOF then (b, v, False)
           else if n \<noteq> nbytes then (b, v, False)
           else let b = b\<lparr>br_raw := blit (br_raw b) n (replicate (2 - n) 0)\<rparr>;
                    v = word_of_bytes (take 2 (br_raw b)); (b, ok) = step_aligned b nbytes in (b, v, ok))"

definition getAlignedUint32 :: "BitReader \<Rightarrow> nat \<Rightarrow> u32 \<Rightarrow> BitReader \<times> u32 \<times> bool" where
  "getAlignedUint32 b nbytes v =
     (if nbytes > 4 then (b, v, False)
      else let (b, n, err) = read_raw b nbytes
        in if err \<noteq> None \<and> err \<noteq> Some EOF then (b, v, False)
           else if n \<noteq> nbytes then (b, v, False)
           else let b = b\<lparr>br_raw := blit (br_raw b) n (replicate (4 - n) 0)\<rparr>;
                    v = word_of_bytes (take 4 (br_raw b)); (b, ok) = step_aligned b nbytes in (b, v, ok))"

definition getAlignedUint64 :: "BitReader \<Rightarrow> nat \<Rightarrow> u64 \<Rightarrow> BitReader \<times> u64 \<times> bool" where
  "getAlignedUint64 b nbytes v =
     (if nbytes > 8 then (b, v, False)
      else let (b, n, err) = read_raw b nbytes
        in if err \<noteq> None \<and> err \<noteq> Some EOF then (b, v, False)
           else if n \<noteq> nbytes then (b, v, False)
           else let b = b\<lparr>br_raw := blit (br_raw b) n (replicate (8 - n) 0)\<rparr>;
                    v = word_of_bytes (take 8 (br_raw b)); (b, ok) = step_aligned b nbytes in (b, v, ok))"

definition BitReader_ReadByte :: "BitReader \<Rightarrow> BitReader \<times> byte \<times> goerr option" where
  "BitReader_ReadByte b =
     (let (b, tmp, ok) = getAlignedUint8 b 1 0
      in if \<not> ok then (b, 0, Some (Errorf ''failed to read byte'')) else (b, tmp, None))"

text \<open>\<^verbatim>\<open>binary.ReadUvarint\<close> over \<^verbatim>\<open>ReadByte\<close>: at most ten bytes, the tenth at most 1.
  \<open>k\<close> counts the iterations left and \<open>i\<close> those done.\<close>

fun read_uvarint_loop :: "nat \<Rightarrow> nat \<Rightarrow> BitReader \<Rightarrow> u64 \<Rightarrow> nat \<Rightarrow> BitReader \<times> u64 \<times> goerr option" where
  "read_uvarint_loop 0 i r x s = (r, x, Some (Errorf ''binary: varint overflows a 64-bit integer''))"
| "read_uvarint_loop (Suc k) i r x s =
     (let (r, b, err) = BitReader_ReadByte r
      in if err \<noteq> None then (r, x, if i > 0 \<and> err = Some EOF then Some ErrUnexpectedEOF else err)
         else if b < 128 then
           (if i = 9 \<and> b > 1 then (r, x, Some (Errorf ''binary: varint overflows a 64-bit integer''))
            else (r, x OR push_bit s (ucast b), None))
         else read_uvarint_loop k (i + 1) r (x OR push_bit s (ucast (b AND 127))) (s + 7))"

definition ReadUvarint :: "BitReader \<Rightarrow> BitReader \<times> u64 \<times> goerr option" where
  "ReadUvarint r = read_uvarint_loop 10 0 r 0 0"

definition BitReader_GetVlqInt :: "BitReader \<Rightarrow> BitReader \<times> u64 \<times> bool" where
  "BitReader_GetVlqInt b =
     (let (b, tmp, err) = ReadUvarint b in if err \<noteq> None then (b, 0, False) else (b, tmp, True))"

definition zigzag_decode :: "u64 \<Rightarrow> u64" where
  "zigzag_decode u = drop_bit 1 u XOR (- (u AND 1))"

definition BitReader_GetZigZagVlqInt :: "BitReader \<Rightarrow> BitReader \<times> u64 \<times> bool" where
  "BitReader_GetZigZagVlqInt b =
     (let (b, u, ok) = BitReader_GetVlqInt b in if \<not> ok then (b, 0, False) else (b, zigzag_decode u, True))"

definition BitReader_next :: "BitReader \<Rightarrow> nat \<Rightarrow> BitReader \<times> u64 \<times> goerr option" where
  "BitReader_next b bits =
     (if bits = 0 then (b, 0, None)
      else let (b, err) = (if br_bitoffset b = 64
                 then fillbuffer (b\<lparr>br_byteoffset := br_byteoffset b + 8, br_bitoffset := 0\<rparr>) else (b, None))
        in if err \<noteq> None then (b, 0, err)
           else let stop = br_bitoffset b + bits
             in if stop \<le> 64 then
                  (if stop > br_validBits b then (b, 0, Some ErrUnexpectedEOF)
                   else (b\<lparr>br_bitoffset := stop\<rparr>,
                         drop_bit (br_bitoffset b) (trailingBits (br_buffer b) stop), None))
                else if br_validBits b < 64 then (b, 0, Some ErrUnexpectedEOF)
                else let firstBits = 64 - br_bitoffset b; v = drop_bit (br_bitoffset b) (br_buffer b);
                         (b, err) = fillbuffer (b\<lparr>br_byteoffset := br_byteoffset b + 8, br_bitoffset := 0\<rparr>)
                  in if err \<noteq> None then (b, 0, err)
                     else let remaining = bits - firstBits
                       in if remaining > br_validBits b then (b, 0, Some ErrUnexpectedEOF)
                          else (b\<lparr>br_bitoffset := remaining\<rparr>,
                                v OR push_bit firstBits (trailingBits (br_buffer b) remaining), None))"

definition BitReader_nextBool :: "BitReader \<Rightarrow> BitReader \<times> bool \<times> goerr option" where
  "BitReader_nextBool b =
     (let (b, err) = (if br_bitoffset b = 64
            then fillbuffer (b\<lparr>br_byteoffset := br_byteoffset b + 8, br_bitoffset := 0\<rparr>) else (b, None))
      in if err \<noteq> None then (b, False, err)
         else (b\<lparr>br_bitoffset := br_bitoffset b + 1\<rparr>,
               br_buffer b AND push_bit (br_bitoffset b) 1 \<noteq> 0, None))"


section \<open>The reader as a view of a bit stream\<close>

definition value_at :: "byte list \<Rightarrow> nat \<Rightarrow> nat \<Rightarrow> 'a::len word" where
  "value_at bs p n = horner_sum of_bool 2 (map (\<lambda>i. bm_bit bs (p + i)) [0..<n])"

lemma bit_value_at:
  "bit (value_at bs p n :: 'a::len word) i \<longleftrightarrow> i < LENGTH('a) \<and> i < n \<and> bm_bit bs (p + i)"
  by (auto simp: value_at_def bit_horner_sum_bit_word_iff)

lemma value_at_0 [simp]: "value_at bs p 0 = 0"
  by (simp add: value_at_def)

lemma packed_value_at: "packed_value bs n k = value_at bs (k * n) n"
  by (simp add: packed_value_def value_at_def)

lemma value_at_drop: "value_at (drop k bs) p n = value_at bs (8 * k + p) n"
  by (simp add: value_at_def bm_simps add.assoc)

lemma ucast_value_at: "n \<le> LENGTH('a) \<Longrightarrow> ucast (value_at bs p n :: 'a::len word) = (value_at bs p n :: 'b::len word)"
  by (rule bit_word_eqI) (auto simp: bit_value_at bit_simps)

text \<open>\<open>buffered b\<close>: the buffer holds the eight bytes at the byte offset, as far as there are any.
  \<open>reading s p b\<close>: the next bit to read is bit \<open>p\<close> of \<open>s\<close>.\<close>

definition buffered :: "BitReader \<Rightarrow> bool" where
  "buffered b \<longleftrightarrow> br_validBits b = 8 * min 8 (length (br_data b) - br_byteoffset b) \<and>
     br_buffer b = value_at (br_data b) (8 * br_byteoffset b) 64"

definition reading :: "byte list \<Rightarrow> nat \<Rightarrow> BitReader \<Rightarrow> bool" where
  "reading s p b \<longleftrightarrow> br_data b = s \<and> length (br_raw b) = 8 \<and> 8 * br_byteoffset b + br_bitoffset b = p \<and>
     br_bitoffset b \<le> 64 \<and> (br_bitoffset b \<noteq> 0 \<longrightarrow> buffered b)"

lemma reading_New: "reading s 0 (NewBitReader s)"
  by (simp add: reading_def NewBitReader_def)

lemma reading_Reset: "length (br_raw b) = 8 \<Longrightarrow> reading s 0 (BitReader_Reset b s)"
  by (simp add: reading_def BitReader_Reset_def)

lemma bit_trailingBits: "bit (trailingBits v n) i \<longleftrightarrow> i < n \<and> bit v i"
  by (auto simp: trailingBits_def trailingMask_def bit_simps dest: bit_imp_le_length)

lemma ReadAt_eq:
  "ReadAt s n off = (take n (drop off s), if off \<ge> length s \<or> length s - off < n then Some EOF else None)"
  by (auto simp: ReadAt_def Let_def)

lemma fillbuffer_eq:
  assumes "length (br_raw b) = 8"
  shows "\<exists>b'. fillbuffer b = (b', None) \<and> buffered b' \<and> br_data b' = br_data b \<and> length (br_raw b') = 8 \<and>
    br_byteoffset b' = br_byteoffset b \<and> br_bitoffset b' = br_bitoffset b \<and> br_seek b' = br_seek b"
proof -
  let ?bs = "take 8 (drop (br_byteoffset b) (br_data b))"
  let ?raw = "?bs @ replicate (8 - length ?bs) 0"
  have le: "length ?bs \<le> 8" by simp
  have "take (length bs) (blit raw 0 bs) = bs" if "length bs \<le> length raw" for bs raw :: "byte list"
    using that by (simp add: blit_def)
  from this [of ?bs] have raw: "take (length ?bs) (blit (br_raw b) 0 ?bs) = ?bs" using assms by simp
  have word: "word_of_bytes ?raw = (value_at (br_data b) (8 * br_byteoffset b) 64 :: u64)"
    by (rule bit_word_eqI)
      (auto simp: bit_word_of_bytes bit_value_at bm_simps bm_bit_beyond)
  have len: "length ?bs * 8 = 8 * min 8 (length (br_data b) - br_byteoffset b)" by (auto simp: min_def)
  show ?thesis
    unfolding fillbuffer_def ReadAt_eq using word len raw le assms
    by (simp add: Let_def buffered_def del: length_take length_drop)
qed

lemma fillbuffer_reading:
  assumes "length (br_raw b) = 8" "br_data b = s" "8 * br_byteoffset b + br_bitoffset b = p" "br_bitoffset b \<le> 64"
  shows "\<exists>b'. fillbuffer b = (b', None) \<and> reading s p b' \<and> buffered b' \<and> br_bitoffset b' = br_bitoffset b \<and>
    br_byteoffset b' = br_byteoffset b"
  using fillbuffer_eq [OF assms(1)] assms(2-) by (auto simp: reading_def)

lemma next_buffered:
  assumes b: "reading s p b" "buffered b" and bits: "0 < bits" "br_bitoffset b + bits \<le> 64"
    and enough: "p + bits \<le> 8 * length s"
  shows "br_bitoffset b + bits \<le> br_validBits b \<and>
    drop_bit (br_bitoffset b) (trailingBits (br_buffer b) (br_bitoffset b + bits)) = (value_at s p bits :: u64)"
proof
  have p: "p = 8 * br_byteoffset b + br_bitoffset b" using b by (simp add: reading_def)
  have "br_bitoffset b + bits \<le> 8 * (length s - br_byteoffset b)" using enough p by simp
  then show "br_bitoffset b + bits \<le> br_validBits b"
    using b bits by (auto simp: buffered_def reading_def min_def)
  show "drop_bit (br_bitoffset b) (trailingBits (br_buffer b) (br_bitoffset b + bits)) = (value_at s p bits :: u64)"
    by (rule bit_word_eqI)
      (use b p bits in \<open>auto simp: bit_value_at bit_trailingBits bit_drop_bit_eq buffered_def reading_def ac_simps\<close>)
qed

lemma value_at_split:
  assumes "n \<le> 64" "k < n"
  shows "value_at s p k OR push_bit k (value_at s (p + k) (n - k)) = (value_at s p n :: u64)"
proof (rule bit_word_eqI)
  fix i assume "i < LENGTH(64)"
  then show "bit (value_at s p k OR push_bit k (value_at s (p + k) (n - k)) :: u64) i = bit (value_at s p n :: u64) i"
    using assms by (cases "i < k") (auto simp: bit_value_at bit_simps)
qed

text \<open>\<^verbatim>\<open>next\<close> with enough input left, on a filled buffer: it delivers the value and moves on.\<close>

lemma next_fits:
  assumes b: "reading s p b" "buffered b" and bits: "0 < bits" "br_bitoffset b + bits \<le> 64"
    and off: "br_bitoffset b \<noteq> 64" and enough: "p + bits \<le> 8 * length s"
  shows "BitReader_next b bits = (b\<lparr>br_bitoffset := br_bitoffset b + bits\<rparr>, value_at s p bits, None)"
  using next_buffered [OF b bits enough] bits off by (auto simp: BitReader_next_def)

lemma next_refill:
  assumes b: "reading s p b" and off: "br_bitoffset b = 64"
  shows "\<exists>b'. fillbuffer (b\<lparr>br_byteoffset := br_byteoffset b + 8, br_bitoffset := 0\<rparr>) = (b', None) \<and>
    reading s p b' \<and> buffered b' \<and> br_bitoffset b' = 0 \<and> (0 < bits \<longrightarrow> BitReader_next b bits = BitReader_next b' bits)"
proof -
  from fillbuffer_reading [of "b\<lparr>br_byteoffset := br_byteoffset b + 8, br_bitoffset := 0\<rparr>" s p] b off
  obtain b' where b': "fillbuffer (b\<lparr>br_byteoffset := br_byteoffset b + 8, br_bitoffset := 0\<rparr>) = (b', None)"
      "reading s p b'" "buffered b'" "br_bitoffset b' = 0" by (auto simp: reading_def)
  then show ?thesis using off by (simp add: BitReader_next_def)
qed

lemma next_straddles:
  assumes b: "reading s p b" "buffered b" and bits: "bits \<le> 64" "64 < br_bitoffset b + bits"
    and off: "br_bitoffset b < 64" and enough: "p + bits \<le> 8 * length s"
  shows "\<exists>b'. BitReader_next b bits = (b', value_at s p bits, None) \<and> reading s (p + bits) b' \<and> buffered b' \<and>
    br_bitoffset b' \<noteq> 0"
proof -
  let ?o = "br_bitoffset b"
  have p: "p = 8 * br_byteoffset b + ?o" and s: "br_data b = s" using b by (simp_all add: reading_def)
  have "64 \<le> 8 * (length s - br_byteoffset b)" using enough bits p by simp
  then have valid: "br_validBits b = 64" using b(2) s by (simp add: buffered_def min_def)
  let ?k = "64 - ?o" and ?b = "b\<lparr>br_byteoffset := br_byteoffset b + 8, br_bitoffset := 0\<rparr>"
  have v: "drop_bit ?o (br_buffer b) = value_at s p ?k"
    by (rule bit_word_eqI) (use b p in \<open>auto simp: bit_value_at bit_drop_bit_eq buffered_def reading_def ac_simps\<close>)
  from fillbuffer_reading [of ?b s "p + ?k"] b p off s obtain b' where
    b': "fillbuffer ?b = (b', None)" "reading s (p + ?k) b'" "buffered b'" "br_bitoffset b' = 0"
    by (auto simp: reading_def)
  have r: "0 < bits - ?k" "bits - ?k \<le> 64" "p + ?k + (bits - ?k) = p + bits" "?k < bits" using bits off by simp_all
  have "bits - ?k \<le> br_validBits b' \<and> trailingBits (br_buffer b') (bits - ?k) = value_at s (p + ?k) (bits - ?k)"
    using next_buffered [OF b'(2,3), of "bits - ?k"] b'(4) r enough by simp
  then have "BitReader_next b bits = (b'\<lparr>br_bitoffset := bits - ?k\<rparr>, value_at s p bits, None)"
    using b' bits off valid value_at_split [OF bits(1) r(4), of s p] by (simp add: BitReader_next_def v Let_def)
  moreover have "reading s (p + bits) (b'\<lparr>br_bitoffset := bits - ?k\<rparr>)" "buffered (b'\<lparr>br_bitoffset := bits - ?k\<rparr>)"
    using b' r by (auto simp: reading_def buffered_def)
  ultimately show ?thesis using r by auto
qed

lemma next_ok:
  assumes b: "reading s p b" "buffered b" and bits: "bits \<le> 64" and enough: "p + bits \<le> 8 * length s"
  shows "\<exists>b'. BitReader_next b bits = (b', value_at s p bits, None) \<and> reading s (p + bits) b' \<and> buffered b' \<and>
    (0 < bits \<longrightarrow> br_bitoffset b' \<noteq> 0)"
proof (cases "bits = 0")
  case True
  then show ?thesis using b by (simp add: BitReader_next_def)
next
  case False
  have *: "\<exists>b'. BitReader_next b bits = (b', value_at s p bits, None) \<and> reading s (p + bits) b' \<and> buffered b' \<and>
    br_bitoffset b' \<noteq> 0" if b: "reading s p b" "buffered b" "br_bitoffset b \<noteq> 64" for b
  proof (cases "br_bitoffset b + bits \<le> 64")
    case True
    then show ?thesis
      using next_fits [OF b(1,2) _ True b(3) enough] b False by (auto simp: reading_def buffered_def)
  next
    case False
    then show ?thesis using next_straddles [OF b(1,2) bits _ _ enough] b(1,3) by (simp add: reading_def)
  qed
  show ?thesis
  proof (cases "br_bitoffset b = 64")
    case True
    then show ?thesis using next_refill [OF b(1) True, of bits] * False by fastforce
  qed (use * b False in blast)
qed

lemma next_short:
  assumes b: "reading s p b" "buffered b" and p: "p \<le> 8 * length s" and bits: "0 < bits" "bits \<le> 64"
    and short: "8 * length s < p + bits"
  shows "\<exists>b'. BitReader_next b bits = (b', 0, Some ErrUnexpectedEOF)"
proof -
  have *: "\<exists>b'. BitReader_next b bits = (b', 0, Some ErrUnexpectedEOF)"
    if b: "reading s p b" "buffered b" "br_bitoffset b < 64" for b
  proof -
    let ?v = "br_validBits b" and ?n = "length s - br_byteoffset b"
    have pos: "p = 8 * br_byteoffset b + br_bitoffset b" and v: "?v = 8 * min 8 ?n"
      using b by (simp_all add: reading_def buffered_def)
    have lt: "8 * ?n < br_bitoffset b + bits" using short pos p by linarith
    show ?thesis
    proof (cases "br_bitoffset b + bits \<le> 64 \<or> ?v < 64")
      case True
      then show ?thesis using lt v bits b(3) by (auto simp: BitReader_next_def Let_def min_def)
    next
      case False
      let ?b = "b\<lparr>br_byteoffset := br_byteoffset b + 8, br_bitoffset := 0\<rparr>"
      from fillbuffer_eq [of ?b] b obtain b' where b': "fillbuffer ?b = (b', None)" "buffered b'"
          "br_data b' = s" "br_byteoffset b' = br_byteoffset b + 8" by (auto simp: reading_def)
      have "br_validBits b' \<le> 8 * (length s - (br_byteoffset b + 8))"
        using b' by (simp add: buffered_def)
      then have "br_validBits b' < bits - (64 - br_bitoffset b)" using lt False v b(3) by (auto simp: min_def)
      then show ?thesis using b' False b(3) bits by (auto simp: BitReader_next_def Let_def)
    qed
  qed
  show ?thesis
  proof (cases "br_bitoffset b = 64")
    case True
    then show ?thesis using next_refill [OF b(1) True, of bits] * bits by fastforce
  qed (use * b in \<open>simp add: reading_def\<close>)
qed

section \<open>Aligned reads\<close>

lemma BytesForBits_offset: "BytesForBits (8 * a + c) = a + BytesForBits c"
  by (simp add: BytesForBits_eq)

lemma read_raw_eq:
  assumes b: "reading s p b" and n: "nbytes \<le> 8" and enough: "BytesForBits p + nbytes \<le> length s"
  shows "\<exists>err. read_raw b nbytes = (b\<lparr>br_byteoffset := BytesForBits p,
      br_raw := take nbytes (drop (BytesForBits p) s) @ drop nbytes (br_raw b)\<rparr>, nbytes, err) \<and>
    (err = None \<or> err = Some EOF)"
proof -
  have q: "br_byteoffset b + BytesForBits (br_bitoffset b) = BytesForBits p"
    using b BytesForBits_offset [of "br_byteoffset b" "br_bitoffset b"] by (auto simp: reading_def)
  show ?thesis
    using b n enough by (auto simp: read_raw_def Let_def q ReadAt_eq reading_def blit_def)
qed

lemma read_raw_short:
  assumes b: "reading s p b" and n: "0 < nbytes" and short: "length s < BytesForBits p + nbytes"
  shows "\<exists>b' n err. read_raw b nbytes = (b', n, err) \<and> n < nbytes \<and> (err = None \<or> err = Some EOF)"
proof -
  have q: "br_byteoffset b + BytesForBits (br_bitoffset b) = BytesForBits p"
    using b BytesForBits_offset [of "br_byteoffset b" "br_bitoffset b"] by (auto simp: reading_def)
  show ?thesis using b n short by (auto simp: read_raw_def Let_def q ReadAt_eq reading_def)
qed

lemma step_aligned_eq:
  assumes "br_data b = s" "length (br_raw b) = 8" "br_byteoffset b + n = q"
  shows "\<exists>b'. step_aligned b n = (b', True) \<and> reading s (8 * q) b' \<and> buffered b'"
  using fillbuffer_reading [of "b\<lparr>br_byteoffset := br_byteoffset b + n, br_bitoffset := 0\<rparr>" s "8 * q"] assms
  by (auto simp: step_aligned_def)

lemma word_of_raw:
  assumes "q + n \<le> length s" "n \<le> m" "LENGTH('a::len) = 8 * m"
  shows "word_of_bytes (take n (drop q s) @ replicate (m - n) 0) = (value_at s (8 * q) (8 * n) :: 'a word)"
proof (rule bit_word_eqI)
  fix i assume "i < LENGTH('a)"
  then show "bit (word_of_bytes (take n (drop q s) @ replicate (m - n) 0) :: 'a word) i =
      bit (value_at s (8 * q) (8 * n) :: 'a word) i"
    using assms by (cases "i < 8 * n") (auto simp: bit_word_of_bytes bit_value_at bm_simps)
qed

lemma zero_pad_raw:
  assumes "length t = n" "length raw = 8" "n \<le> m" "m \<le> 8"
  shows "take m (blit (t @ drop n raw) n (replicate (m - n) 0)) = t @ replicate (m - n) 0"
  using assms by (simp add: blit_def)

lemma aligned_read:
  assumes b: "reading s p b" and n: "nbytes \<le> m" and m: "LENGTH('a::len) = 8 * m" "m \<le> 8"
    and enough: "BytesForBits p + nbytes \<le> length s"
  shows "\<exists>b1 err b'. read_raw b nbytes = (b1, nbytes, err) \<and> (err = None \<or> err = Some EOF) \<and>
    word_of_bytes (take m (blit (br_raw b1) nbytes (replicate (m - nbytes) 0))) =
      (value_at s (8 * BytesForBits p) (8 * nbytes) :: 'a word) \<and>
    step_aligned (b1\<lparr>br_raw := blit (br_raw b1) nbytes (replicate (m - nbytes) 0)\<rparr>) nbytes = (b', True) \<and>
    reading s (8 * (BytesForBits p + nbytes)) b' \<and> buffered b'"
proof -
  let ?t = "take nbytes (drop (BytesForBits p) s)"
  let ?b1 = "b\<lparr>br_byteoffset := BytesForBits p, br_raw := ?t @ drop nbytes (br_raw b)\<rparr>"
  have t: "length ?t = nbytes" and raw: "length (br_raw b) = 8" using enough b by (simp_all add: reading_def)
  from read_raw_eq [OF b _ enough] n m obtain err where
    rd: "read_raw b nbytes = (?b1, nbytes, err)" "err = None \<or> err = Some EOF" by auto
  have "\<exists>b'. step_aligned (?b1\<lparr>br_raw := blit (br_raw ?b1) nbytes (replicate (m - nbytes) 0)\<rparr>) nbytes = (b', True) \<and>
      reading s (8 * (BytesForBits p + nbytes)) b' \<and> buffered b'"
    by (rule step_aligned_eq) (use b t n m in \<open>simp_all add: reading_def\<close>)
  moreover have "word_of_bytes (take m (blit (br_raw ?b1) nbytes (replicate (m - nbytes) 0))) =
      (value_at s (8 * BytesForBits p) (8 * nbytes) :: 'a word)"
    using zero_pad_raw [OF t raw n m(2)] word_of_raw [OF enough n m(1)] by simp
  ultimately show ?thesis using rd by blast
qed

lemma getAlignedUint16_ok:
  assumes "reading s p b" "nbytes \<le> 2" "BytesForBits p + nbytes \<le> length s"
  shows "\<exists>b'. getAlignedUint16 b nbytes v = (b', value_at s (8 * BytesForBits p) (8 * nbytes), True) \<and>
    reading s (8 * (BytesForBits p + nbytes)) b' \<and> buffered b'"
  using aligned_read [OF assms(1,2) _ _ assms(3), where 'a = 16] assms(2) by (fastforce simp: getAlignedUint16_def)

lemma getAlignedUint32_ok:
  assumes "reading s p b" "nbytes \<le> 4" "BytesForBits p + nbytes \<le> length s"
  shows "\<exists>b'. getAlignedUint32 b nbytes v = (b', value_at s (8 * BytesForBits p) (8 * nbytes), True) \<and>
    reading s (8 * (BytesForBits p + nbytes)) b' \<and> buffered b'"
  using aligned_read [OF assms(1,2) _ _ assms(3), where 'a = 32] assms(2) by (fastforce simp: getAlignedUint32_def)

lemma getAlignedUint64_ok:
  assumes "reading s p b" "nbytes \<le> 8" "BytesForBits p + nbytes \<le> length s"
  shows "\<exists>b'. getAlignedUint64 b nbytes v = (b', value_at s (8 * BytesForBits p) (8 * nbytes), True) \<and>
    reading s (8 * (BytesForBits p + nbytes)) b' \<and> buffered b'"
  using aligned_read [OF assms(1,2) _ _ assms(3), where 'a = 64] assms(2) by (fastforce simp: getAlignedUint64_def)

lemma getAlignedUint8_ok:
  assumes b: "reading s p b" and enough: "BytesForBits p < length s"
  shows "\<exists>b'. getAlignedUint8 b 1 v = (b', s ! BytesForBits p, True) \<and>
    reading s (8 * (BytesForBits p + 1)) b' \<and> buffered b'"
proof -
  let ?q = "BytesForBits p"
  let ?b = "b\<lparr>br_byteoffset := ?q, br_raw := take 1 (drop ?q s) @ drop 1 (br_raw b)\<rparr>"
  have t: "take 1 (drop ?q s) = [s ! ?q]" using enough by (simp add: take_Suc_conv_app_nth)
  from read_raw_eq [OF b, of 1] enough obtain err where rd: "read_raw b 1 = (?b, 1, err)"
    "err = None \<or> err = Some EOF" by auto
  have "\<exists>b'. step_aligned ?b 1 = (b', True) \<and> reading s (8 * (?q + 1)) b' \<and> buffered b'"
    by (rule step_aligned_eq) (use b t in \<open>simp_all add: reading_def\<close>)
  then show ?thesis using rd t by (auto simp: getAlignedUint8_def)
qed

lemma getAlignedUint8_short:
  assumes "reading s p b" "length s \<le> BytesForBits p"
  shows "\<exists>b'. getAlignedUint8 b 1 v = (b', v, False)"
  using read_raw_short [OF assms(1), of 1] assms(2) by (auto simp: getAlignedUint8_def)

section \<open>Variable-length integers\<close>

lemma ReadByte_ok:
  assumes "reading s p b" "BytesForBits p < length s"
  shows "\<exists>b'. BitReader_ReadByte b = (b', s ! BytesForBits p, None) \<and>
    reading s (8 * (BytesForBits p + 1)) b' \<and> buffered b'"
  using getAlignedUint8_ok [OF assms, of 0] by (auto simp: BitReader_ReadByte_def)

lemma ReadByte_short:
  assumes "reading s p b" "length s \<le> BytesForBits p"
  shows "\<exists>b'. BitReader_ReadByte b = (b', 0, Some (Errorf ''failed to read byte''))"
  using getAlignedUint8_short [OF assms, of 0] by (auto simp: BitReader_ReadByte_def)

lemma uvarint_step:
  fixes v :: u64
  shows "push_bit n (ucast ((ucast v OR 128 :: byte) AND 127)) OR push_bit (n + 7) (drop_bit 7 v) = push_bit n v"
proof (rule bit_word_eqI)
  fix i assume i: "i < LENGTH(64)"
  have m: "bit (127 :: byte) j \<longleftrightarrow> j < 7" "bit (128 :: byte) j \<longleftrightarrow> j = 7" "bit (127 :: int) j \<longleftrightarrow> j < 7" for j
    using bit_mask_iff [of 7 j, where 'a = byte] bit_exp_iff [of 7 j, where 'a = byte]
      bit_mask_iff [of 7 j, where 'a = int]
    by (auto simp: mask_eq_exp_minus_1)
  show "bit (push_bit n (ucast ((ucast v OR 128 :: byte) AND 127)) OR push_bit (n + 7) (drop_bit 7 v)) i =
      bit (push_bit n v) i"
  proof (cases "i < n + 7")
    case True
    then show ?thesis using i by (auto simp: bit_simps m)
  next
    case False
    then have "7 + (i - (n + 7)) = i - n" by simp
    then show ?thesis using i False by (auto simp: bit_simps m)
  qed
qed

lemma uvarint_more: "\<not> (ucast (v :: u64) OR 128 :: byte) < 128"
proof
  assume "(ucast v OR 128 :: byte) < 128"
  then have "unat (ucast v OR 128 :: byte) < 2 ^ 7" by (simp add: word_less_nat_alt)
  then have "\<not> bit (unat (ucast v OR 128 :: byte)) 7" by (simp only: bit_iff_odd) simp
  moreover have "bit (128 :: byte) 7" using bit_exp_iff [of 7 7, where 'a = byte] by simp
  ultimately show False by (simp add: bit_unsigned_iff bit_or_iff)
qed

lemma read_uvarint_loop_ok:
  assumes "reading s p b" "drop (BytesForBits p) s = PutUvarint v @ rest" "unat v < 2 ^ (64 - 7 * i)" "i \<le> 9"
  shows "\<exists>b'. read_uvarint_loop (10 - i) i b x (7 * i) = (b', x OR push_bit (7 * i) v, None) \<and>
    reading s (8 * (BytesForBits p + length (PutUvarint v))) b' \<and> buffered b'"
  using assms
proof (induction v arbitrary: i x b p rule: PutUvarint.induct)
  case (1 v)
  let ?q = "BytesForBits p"
  obtain k where k: "10 - i = Suc k" "k = 10 - (i + 1)" using 1(5) by (cases "10 - i") auto
  have put: "PutUvarint v = (if v \<ge> 128 then (ucast v OR 128) # PutUvarint (drop_bit 7 v) else [ucast v])"
    by (rule PutUvarint.simps)
  have q: "?q < length s" using arg_cong [OF 1(3), of length] put by (auto split: if_splits)
  have sq: "s ! ?q = hd (PutUvarint v)" using arg_cong [OF 1(3), of hd] q put by (simp add: hd_drop_conv_nth split: if_splits)
  from ReadByte_ok [OF 1(2) q] obtain b1 where b1: "BitReader_ReadByte b = (b1, s ! ?q, None)"
      "reading s (8 * (?q + 1)) b1" "buffered b1" by blast
  show ?case
  proof (cases "v \<ge> 128")
    case False
    have lt: "unat v < 128" using False by (simp add: word_le_nat_alt)
    then have b: "unat (ucast v :: byte) = unat v" by (simp add: unsigned_ucast_eq take_bit_nat_eq_self)
    have "ucast (ucast v :: byte) = v" by (rule word_unat_eq_iff [THEN iffD2]) (use b in \<open>simp add: unsigned_ucast_eq unsigned_take_bit_eq\<close>)
    moreover have "(ucast v :: byte) < 128" using b lt by (simp add: word_less_nat_alt)
    moreover have "\<not> (i = 9 \<and> (ucast v :: byte) > 1)" using b 1(4) by (auto simp: word_less_nat_alt)
    ultimately show ?thesis using False b1 sq put k by (simp add: Let_def)
  next
    case True
    have v: "128 \<le> unat v" using True by (simp add: word_le_nat_alt)
    have i8: "i + 1 \<le> 9"
    proof (rule ccontr)
      assume "\<not> i + 1 \<le> 9"
      then have "i = 9" using 1(5) by simp
      then show False using 1(4) v by simp
    qed
    have d: "unat (drop_bit 7 v) = unat v div 128" by (simp only: unat_drop_bit_eq) (simp add: drop_bit_eq_div)
    have "(2::nat) ^ (64 - 7 * i) = 128 * 2 ^ (64 - 7 * (i + 1))"
    proof -
      have "64 - 7 * i = 7 + (64 - 7 * (i + 1))" using i8 by simp
      then show ?thesis by (simp only: power_add) simp
    qed
    then have lt: "unat (drop_bit 7 v) < 2 ^ (64 - 7 * (i + 1))"
      unfolding d using 1(4) by (simp add: div_less_iff_less_mult mult.commute)
    have rest: "drop (BytesForBits (8 * (?q + 1))) s = PutUvarint (drop_bit 7 v) @ rest"
    proof -
      have "drop (Suc ?q) s = tl (drop ?q s)" by (simp add: drop_Suc tl_drop)
      then show ?thesis using 1(3) put True by (simp add: BytesForBits_eq)
    qed
    from 1(1) [OF True b1(2) rest lt i8, of "x OR push_bit (7 * i) (ucast ((ucast v OR 128 :: byte) AND 127))"]
    obtain b' where b': "read_uvarint_loop (10 - (i + 1)) (i + 1) b1
        (x OR push_bit (7 * i) (ucast ((ucast v OR 128 :: byte) AND 127))) (7 * (i + 1)) =
        (b', (x OR push_bit (7 * i) (ucast ((ucast v OR 128 :: byte) AND 127))) OR
          push_bit (7 * (i + 1)) (drop_bit 7 v), None)"
      "reading s (8 * (BytesForBits (8 * (?q + 1)) + length (PutUvarint (drop_bit 7 v)))) b'" "buffered b'" by blast
    have "(x OR push_bit (7 * i) (ucast ((ucast v OR 128 :: byte) AND 127))) OR push_bit (7 * (i + 1)) (drop_bit 7 v) =
        x OR push_bit (7 * i) v"
      using uvarint_step [of "7 * i" v] by (simp add: or.assoc add.commute)
    moreover have "read_uvarint_loop (10 - i) i b x (7 * i) = read_uvarint_loop (10 - (i + 1)) (i + 1) b1
        (x OR push_bit (7 * i) (ucast ((ucast v OR 128 :: byte) AND 127))) (7 * (i + 1))"
      using b1(1) sq put True k uvarint_more [of v] by (simp add: Let_def add.commute)
    moreover have "BytesForBits (8 * (?q + 1)) + length (PutUvarint (drop_bit 7 v)) = ?q + length (PutUvarint v)"
      using put True by (simp add: BytesForBits_eq)
    ultimately show ?thesis using b' by simp
  qed
qed

lemma GetVlqInt_ok:
  assumes "reading s p b" "drop (BytesForBits p) s = PutUvarint v @ rest"
  shows "\<exists>b'. BitReader_GetVlqInt b = (b', v, True) \<and>
    reading s (8 * (BytesForBits p + length (PutUvarint v))) b' \<and> buffered b'"
  using read_uvarint_loop_ok [OF assms, of 0 0] unsigned_less [of v, where 'a = nat]
  by (auto simp: BitReader_GetVlqInt_def ReadUvarint_def)

lemma GetVlqInt_eof:
  assumes "reading s p b" "length s \<le> BytesForBits p"
  shows "\<exists>b'. BitReader_GetVlqInt b = (b', 0, False)"
  using ReadByte_short [OF assms] by (auto simp: BitReader_GetVlqInt_def ReadUvarint_def eval_nat_numeral)

lemma zigzag_decode_encode: "zigzag_decode (zigzag_encode v) = v"
proof (rule bit_word_eqI)
  fix i assume i: "i < LENGTH(64)"
  have neg: "- (u AND 1) = (if bit u 0 then NOT 0 else (0 :: u64))" for u :: u64
    by (simp add: and_one_eq odd_iff_mod_2_eq_one bit_0)
  have enc: "bit (zigzag_encode v) j \<longleftrightarrow> j < 64 \<and> (if j = 0 then bit v 63 else bit v (j - 1) \<noteq> bit v 63)" for j
    unfolding zigzag_encode_def
    by (simp only: bit_xor_iff bit_push_bit_iff) (auto simp: bit_simps dest: bit_imp_le_length)
  have "i < 63 \<or> i = 63" using i by auto
  then show "bit (zigzag_decode (zigzag_encode v)) i = bit v i"
    unfolding zigzag_decode_def neg
    by (simp only: bit_xor_iff bit_drop_bit_eq comp_def enc) (auto simp: bit_simps)
qed

text \<open>\<^verbatim>\<open>nextBool\<close> on a filled buffer delivers the next bit.\<close>

lemma nextBool_ok:
  assumes b: "reading s p b" "buffered b"
  shows "\<exists>b'. BitReader_nextBool b = (b', bm_bit s p, None) \<and> reading s (p + 1) b' \<and> buffered b' \<and> br_bitoffset b' \<noteq> 0"
proof -
  have *: "br_buffer b AND push_bit (br_bitoffset b) 1 \<noteq> 0 \<longleftrightarrow> bm_bit s p"
    if b: "reading s p b" "buffered b" "br_bitoffset b < 64" for b
  proof -
    have "br_buffer b AND push_bit (br_bitoffset b) 1 \<noteq> 0 \<longleftrightarrow> bit (br_buffer b) (br_bitoffset b)"
      using b(3) by (auto simp: word_eq_bits_iff bit_simps)
    then show ?thesis using b by (auto simp: buffered_def reading_def bit_value_at)
  qed
  show ?thesis
  proof (cases "br_bitoffset b = 64")
    case True
    from next_refill [OF b(1) True] obtain b' where
      b': "fillbuffer (b\<lparr>br_byteoffset := br_byteoffset b + 8, br_bitoffset := 0\<rparr>) = (b', None)"
        "reading s p b'" "buffered b'" "br_bitoffset b' = 0" by blast
    then show ?thesis using * [OF b'(2,3)] True by (auto simp: BitReader_nextBool_def reading_def buffered_def)
  next
    case False
    then have "br_bitoffset b < 64" using b by (simp add: reading_def)
    then show ?thesis using * [OF b] b False by (auto simp: BitReader_nextBool_def reading_def buffered_def)
  qed
qed

end
