(* ===== verification/Bit_Reader_Batch.thy ===== *)
theory Bit_Reader_Batch
  imports Bit_Reader
begin

unbundle bit_operations_syntax

text \<open>
  The batch methods of \<^verbatim>\<open>parquet/internal/utils/bit_reader.go\<close>: \<^verbatim>\<open>GetBatch\<close> and its
  variants for levels and dictionary indices, and \<^verbatim>\<open>Discard\<close>. Each reads
  value by value up to an aligned position, then in bulk, then value by value again; the theorems
  say that together they deliver the packed values at the reader's position.
\<close>

section \<open>Batches\<close>

text \<open>The two value-by-value loops of \<^verbatim>\<open>GetBatch\<close>, before and after the bulk part: the first
  (\<open>aligning\<close>) also stops when the bit offset is 0.\<close>

function get_values :: "bool \<Rightarrow> BitReader \<Rightarrow> nat \<Rightarrow> nat \<Rightarrow> u64 list \<Rightarrow> BitReader \<times> u64 list \<times> nat \<times> goerr option" where
  "get_values aligning b bits i out =
     (if i < length out \<and> (aligning \<longrightarrow> br_bitoffset b \<noteq> 0) then
        (case BitReader_next b bits of (b, val, err) \<Rightarrow>
           if err \<noteq> None then (b, out[i := val], i, err)
           else get_values aligning b bits (i + 1) (out[i := val]))
      else (b, out, i, None))"
  by pat_completeness auto
termination by (relation "measure (\<lambda>(_, _, _, i, out). length out - i)") auto

declare get_values.simps [simp del]

text \<open>\<^verbatim>\<open>unpack32(b.reader, buf, bits)\<close>, on the noasm build.\<close>

definition read_unpacked :: "BitReader \<Rightarrow> u32 list \<Rightarrow> nat \<Rightarrow> (BitReader \<times> u32 list \<times> nat \<times> goerr option) option" where
  "read_unpacked b buf bits =
     (let input = drop (br_seek b) (br_data b)
      in do { (rest, buf, n, err) \<leftarrow> unpack32Default input buf bits;
              Some (b\<lparr>br_seek := br_seek b + (length input - length rest)\<rparr>, buf, n, err) })"

function get_unpacked :: "BitReader \<Rightarrow> nat \<Rightarrow> nat \<Rightarrow> u64 list \<Rightarrow> (BitReader \<times> u64 list \<times> nat \<times> goerr option) option" where
  "get_unpacked b bits i out =
     (if i < length out then
        (case read_unpacked b (replicate (min buflen (length out - i)) 0) bits of
           None \<Rightarrow> None
         | Some (b, buf, numUnpacked, err) \<Rightarrow>
             let out = blit out i (map ucast (take numUnpacked buf));
                 b = b\<lparr>br_byteoffset := br_byteoffset b + numUnpacked * bits div 8\<rparr>
             in if err \<noteq> None then Some (b, out, i + numUnpacked, err)
                else if numUnpacked = 0 then Some (b, out, i, None)
                else get_unpacked b bits (i + numUnpacked) out)
      else Some (b, out, i, None))"
  by pat_completeness auto
termination by (relation "measure (\<lambda>(_, _, i, out). length out - i)") (auto simp: less_imp_le)

declare get_unpacked.simps [simp del]

definition BitReader_GetBatch ::
  "BitReader \<Rightarrow> nat \<Rightarrow> u64 list \<Rightarrow> (BitReader \<times> u64 list \<times> nat \<times> goerr option) option" where
  "BitReader_GetBatch b bits out =
     (if bits > 64 then Some (b, out, 0, Some (Errorf ''must be 64 bits or less per read''))
      else case get_values True b bits 0 out of (b, out, i, err) \<Rightarrow>
        if err \<noteq> None then Some (b, out, i, err)
        else do {
          (b, out, i, err) \<leftarrow>
            (if bits \<le> 32 then get_unpacked (Seek b (br_byteoffset b)) bits i out else Some (b, out, i, None));
          if err \<noteq> None then Some (b, out, i, err)
          else let (b, err) = fillbuffer b
            in if err \<noteq> None then Some (b, out, i, err) else Some (get_values False b bits i out) })"

definition BitReader_GetValue :: "BitReader \<Rightarrow> nat \<Rightarrow> (BitReader \<times> u64 \<times> bool) option" where
  "BitReader_GetValue b width =
     do { (b, v, n, err) \<leftarrow> BitReader_GetBatch b width [0]; Some (b, v ! 0, n = 1) }"

text \<open>\<^verbatim>\<open>GetBatchLevels\<close>: \<^verbatim>\<open>int16\<close> levels are 16-bit words; \<open>c\<close> is \<^verbatim>\<open>maxCount\<close>.
  On an error the slot is left alone.\<close>

function get_levels ::
  "bool \<Rightarrow> BitReader \<Rightarrow> nat \<Rightarrow> u16 \<Rightarrow> nat \<Rightarrow> u16 list \<Rightarrow> nat \<Rightarrow> BitReader \<times> u16 list \<times> nat \<times> nat \<times> goerr option" where
  "get_levels aligning b bits maxLevel i out c =
     (if i < length out \<and> (aligning \<longrightarrow> br_bitoffset b \<noteq> 0) then
        (case BitReader_next b bits of (b, val, err) \<Rightarrow>
           if err \<noteq> None then (b, out, i, c, err)
           else let level = ucast val
             in get_levels aligning b bits maxLevel (i + 1) (out[i := level]) (if level = maxLevel then c + 1 else c))
      else (b, out, i, c, None))"
  by pat_completeness auto
termination by (relation "measure (\<lambda>(_, _, _, _, i, out, _). length out - i)") auto

declare get_levels.simps [simp del]

function get_unpacked_levels ::
  "BitReader \<Rightarrow> nat \<Rightarrow> u16 \<Rightarrow> nat \<Rightarrow> u16 list \<Rightarrow> nat \<Rightarrow> (BitReader \<times> u16 list \<times> nat \<times> nat \<times> goerr option) option" where
  "get_unpacked_levels b bits maxLevel i out c =
     (if i < length out then
        (case read_unpacked b (replicate (min buflen (length out - i)) 0) bits of
           None \<Rightarrow> None
         | Some (b, buf, numUnpacked, err) \<Rightarrow>
             let levels = map ucast (take numUnpacked buf);
                 out = blit out i levels;
                 c = c + length (filter (\<lambda>level. level = maxLevel) levels);
                 b = b\<lparr>br_byteoffset := br_byteoffset b + numUnpacked * bits div 8\<rparr>
             in if err \<noteq> None then Some (b, out, i + numUnpacked, c, err)
                else if numUnpacked = 0 then Some (b, out, i, c, None)
                else get_unpacked_levels b bits maxLevel (i + numUnpacked) out c)
      else Some (b, out, i, c, None))"
  by pat_completeness auto
termination by (relation "measure (\<lambda>(_, _, _, i, out, _). length out - i)") (auto simp: less_imp_le)

declare get_unpacked_levels.simps [simp del]

definition BitReader_GetBatchLevels ::
  "BitReader \<Rightarrow> nat \<Rightarrow> u16 list \<Rightarrow> u16 \<Rightarrow> (BitReader \<times> u16 list \<times> nat \<times> nat \<times> goerr option) option" where
  "BitReader_GetBatchLevels b bits out maxLevel =
     (if bits > 16 then Some (b, out, 0, 0, Some (Errorf ''must be 16 bits or less per read''))
      else case get_levels True b bits maxLevel 0 out 0 of (b, out, i, c, err) \<Rightarrow>
        if err \<noteq> None then Some (b, out, i, c, err)
        else do {
          (b, out, i, c, err) \<leftarrow> get_unpacked_levels (Seek b (br_byteoffset b)) bits maxLevel i out c;
          if err \<noteq> None then Some (b, out, i, c, err)
          else let (b, err) = fillbuffer b
            in if err \<noteq> None then Some (b, out, i, c, err)
               else Some (get_levels False b bits maxLevel i out c) })"


text \<open>\<^verbatim>\<open>getBatchIndexScalar\<close>: an \<^verbatim>\<open>IndexType\<close> is a 32-bit word. The inner loop decodes
  the \<^verbatim>\<open>available\<close> values of the buffer.\<close>

fun index_buffered :: "nat \<Rightarrow> BitReader \<Rightarrow> nat \<Rightarrow> nat \<Rightarrow> u32 list \<Rightarrow> BitReader \<times> u32 list" where
  "index_buffered 0 b bits i out = (b, out)"
| "index_buffered (Suc k) b bits i out =
     (let stop = br_bitoffset b + bits
      in index_buffered k (b\<lparr>br_bitoffset := stop\<rparr>) bits (i + 1)
           (out[i := ucast (drop_bit (br_bitoffset b) (trailingBits (br_buffer b) stop))]))"

lemma length_index_buffered [simp]: "length (snd (index_buffered k b bits i out)) = length out"
  by (induction k arbitrary: b i out) (simp_all add: Let_def)

text \<open>The division by \<^verbatim>\<open>bits\<close> panics at 0.\<close>

definition index_available :: "BitReader \<Rightarrow> nat \<Rightarrow> nat \<Rightarrow> nat option" where
  "index_available b bits left =
     (if br_bitoffset b < br_validBits b
      then (if bits = 0 then None else Some (min ((br_validBits b - br_bitoffset b) div bits) left))
      else Some 0)"

function getBatchIndexScalar ::
  "BitReader \<Rightarrow> nat \<Rightarrow> u32 list \<Rightarrow> bool \<Rightarrow> nat \<Rightarrow> (BitReader \<times> u32 list \<times> nat \<times> goerr option) option" where
  "getBatchIndexScalar b bits out stopAtBufferBoundary i =
     (if i < length out then
        (if stopAtBufferBoundary \<and> (br_bitoffset b = 0 \<or> br_bitoffset b = 64)
         then Some (if br_bitoffset b = 64 then b\<lparr>br_byteoffset := br_byteoffset b + 8, br_bitoffset := 0\<rparr> else b,
                    out, i, None)
         else case index_available b bits (length out - i) of
             None \<Rightarrow> None
           | Some available \<Rightarrow>
               if available > 0
               then getBatchIndexScalar (fst (index_buffered available b bits i out)) bits
                      (snd (index_buffered available b bits i out)) stopAtBufferBoundary (i + available)
               else case BitReader_next b bits of (b, val, err) \<Rightarrow>
                 if err \<noteq> None then Some (b, out, i, err)
                 else getBatchIndexScalar b bits (out[i := ucast val]) stopAtBufferBoundary (i + 1))
      else Some (b, out, i, None))"
  by pat_completeness auto
termination by (relation "measure (\<lambda>(_, _, out, _, i). length out - i)") auto

declare getBatchIndexScalar.simps [simp del]

definition index_to_boundary ::
  "BitReader \<Rightarrow> nat \<Rightarrow> u32 list \<Rightarrow> (BitReader \<times> u32 list \<times> nat \<times> goerr option) option" where
  "index_to_boundary b bits out =
     (if br_bitoffset b \<noteq> 0 then getBatchIndexScalar b bits out True 0 else Some (b, out, 0, None))"

definition index_unpacked ::
  "BitReader \<Rightarrow> nat \<Rightarrow> nat \<Rightarrow> u32 list \<Rightarrow> (BitReader \<times> u32 list \<times> nat \<times> goerr option) option" where
  "index_unpacked b bits i out =
     (if i < length out then do {
        (b, buf, numUnpacked, err) \<leftarrow> read_unpacked b (drop i out) bits;
        Some (b\<lparr>br_byteoffset := br_byteoffset b + numUnpacked * bits div 8\<rparr>, take i out @ buf, i + numUnpacked, err) }
      else Some (b, out, i, None))"

definition BitReader_GetBatchIndex ::
  "BitReader \<Rightarrow> nat \<Rightarrow> u32 list \<Rightarrow> (BitReader \<times> u32 list \<times> nat \<times> goerr option) option" where
  "BitReader_GetBatchIndex b bits out =
     (if bits > 32 then Some (b, out, 0, Some (Errorf ''must be 32 bits or less per read''))
      else if bits = 0 then Some (b, replicate (length out) 0, length out, None)
      else do {
        let partial = (br_bitoffset b \<noteq> 0);
        (b, out, i, err) \<leftarrow> index_to_boundary b bits out;
        if err \<noteq> None then Some (b, out, i, err)
        else if partial \<and> i = length out then Some (b, out, i, None)
        else do {
          (b, out, i, err) \<leftarrow> index_unpacked (Seek b (br_byteoffset b)) bits i out;
          if err \<noteq> None then Some (b, out, i, err)
          else let (b, err) = fillbuffer b
            in if err \<noteq> None then Some (b, out, i, err)
               else do { (b, rest, n, err) \<leftarrow> getBatchIndexScalar b bits (drop i out) False 0;
                         Some (b, take i out @ rest, i + n, err) } } })"

text \<open>\<^verbatim>\<open>Discard\<close>: the loops call \<^verbatim>\<open>next\<close> and drop the value.\<close>

function discard_values :: "bool \<Rightarrow> BitReader \<Rightarrow> nat \<Rightarrow> nat \<Rightarrow> nat \<Rightarrow> BitReader \<times> nat \<times> goerr option" where
  "discard_values aligning b bits i n =
     (if i < n \<and> (aligning \<longrightarrow> br_bitoffset b \<noteq> 0) then
        (case BitReader_next b bits of (b, val, err) \<Rightarrow>
           if err \<noteq> None then (b, i, err) else discard_values aligning b bits (i + 1) n)
      else (b, i, None))"
  by pat_completeness auto
termination by (relation "measure (\<lambda>(_, _, _, i, n). n - i)") auto

declare discard_values.simps [simp del]

definition discard_chunks :: "BitReader \<Rightarrow> nat \<Rightarrow> nat \<Rightarrow> nat \<Rightarrow> BitReader \<times> nat \<times> goerr option" where
  "discard_chunks b bits i n =
     (if n - i > 32 then
        let toSkip = (n - i) div 32 * 32; bytesToSkip = BytesForBits (toSkip * bits);
            (last, err) = ReadAt (br_data b) 1 (br_byteoffset b + bytesToSkip - 1)
        in if bytesToSkip > 0 \<and> length last \<noteq> 1
           then (b, i, Some (case err of None \<Rightarrow> ErrUnexpectedEOF | Some e \<Rightarrow> e))
           else (b\<lparr>br_byteoffset := br_byteoffset b + bytesToSkip\<rparr>, i + toSkip, None)
      else (b, i, None))"

definition BitReader_Discard :: "BitReader \<Rightarrow> nat \<Rightarrow> nat \<Rightarrow> BitReader \<times> nat \<times> goerr option" where
  "BitReader_Discard b bits n =
     (if bits > 64 then (b, 0, Some (Errorf ''must be 64 bits or less per read''))
      else case discard_values True b bits 0 n of (b, i, err) \<Rightarrow>
        if err \<noteq> None then (b, i, err)
        else case discard_chunks b bits i n of (b, i, err) \<Rightarrow>
          if err \<noteq> None then (b, i, err)
          else let (b, err) = fillbuffer b
            in if err \<noteq> None then (b, i, err)
               else case discard_values False b bits i n of (b, i, err) \<Rightarrow>
                 if err \<noteq> None then (b, i, err) else (b, n, None))"

section \<open>Filling a slice\<close>

text \<open>\<open>fills f i j out out'\<close>: \<open>out'\<close> is \<open>out\<close> with slots \<open>i\<close> to \<open>j - 1\<close>
  set to \<open>f\<close> of their index.\<close>

definition fills :: "(nat \<Rightarrow> 'a) \<Rightarrow> nat \<Rightarrow> nat \<Rightarrow> 'a list \<Rightarrow> 'a list \<Rightarrow> bool" where
  "fills f i j out out' \<longleftrightarrow> i \<le> j \<and> j \<le> length out \<and> length out' = length out \<and>
     (\<forall>k<length out. out' ! k = (if i \<le> k \<and> k < j then f k else out ! k))"

lemma fills_refl: "i \<le> length out \<Longrightarrow> fills f i i out out"
  by (auto simp: fills_def)

lemma fills_trans: "fills f i j out out1 \<Longrightarrow> fills f j k out1 out2 \<Longrightarrow> fills f i k out out2"
  by (auto simp: fills_def)

lemma fills_upd: "i < length out \<Longrightarrow> fills f i (i + 1) out (out[i := f i])"
  by (auto simp: fills_def nth_list_update)

lemma fills_blit:
  assumes "i + length xs \<le> length out" "\<And>k. k < length xs \<Longrightarrow> xs ! k = f (i + k)"
  shows "fills f i (i + length xs) out (blit out i xs)"
  using assms by (auto simp: fills_def nth_blit)

lemma fills_length: "fills f i j out out' \<Longrightarrow> length out' = length out"
  by (simp add: fills_def)

lemma fills_all: "fills f 0 (length out) out out' \<Longrightarrow> out' = map f [0..<length out]"
  by (auto simp: fills_def intro!: nth_equalityI)

section \<open>GetBatch\<close>

lemma get_values_ok:
  assumes "reading s (P + bits * i) b" "\<not> aligning \<Longrightarrow> buffered b" "bits \<le> 64" "i \<le> length out"
    "P + bits * length out \<le> 8 * length s"
  shows "\<exists>b' out' j. get_values aligning b bits i out = (b', out', j, None) \<and>
    fills (\<lambda>k. value_at s (P + bits * k) bits) i j out out' \<and> reading s (P + bits * j) b' \<and>
    (j = length out \<or> aligning \<and> br_bitoffset b' = 0)"
  using assms
proof (induction "length out - i" arbitrary: i b out)
  case 0
  then show ?case by (intro exI [of _ b] exI [of _ out] exI [of _ i]) (simp add: get_values.simps fills_refl)
next
  case (Suc n)
  show ?case
  proof (cases "aligning \<and> br_bitoffset b = 0")
    case True
    then show ?thesis using Suc.prems
      by (intro exI [of _ b] exI [of _ out] exI [of _ i]) (simp add: get_values.simps fills_refl)
  next
    case False
    have buf: "buffered b" using False Suc.prems(1,2) by (auto simp: reading_def)
    have i: "i < length out" using Suc.hyps(2) by simp
    have "bits * (i + 1) \<le> bits * length out" using i by (intro mult_le_mono2) simp
    then have "P + bits * i + bits \<le> 8 * length s" using Suc.prems(5) by simp
    from next_ok [OF Suc.prems(1) buf Suc.prems(3) this] obtain b1 where b1:
      "BitReader_next b bits = (b1, value_at s (P + bits * i) bits, None)"
      "reading s (P + bits * i + bits) b1" "buffered b1" by blast
    let ?out = "out[i := value_at s (P + bits * i) bits]"
    have n: "n = length ?out - (i + 1)" and len: "i + 1 \<le> length ?out" and en: "P + bits * length ?out \<le> 8 * length s"
      using Suc.hyps(2) Suc.prems(5) i by simp_all
    have rd: "reading s (P + bits * (i + 1)) b1" using b1(2) by (simp add: algebra_simps)
    from Suc.hyps(1) [OF n rd b1(3) Suc.prems(3) len en] obtain b' out' j where
      ih: "get_values aligning b1 bits (i + 1) ?out = (b', out', j, None)"
        "fills (\<lambda>k. value_at s (P + bits * k) bits) (i + 1) j ?out out'" "reading s (P + bits * j) b'"
        "j = length ?out \<or> aligning \<and> br_bitoffset b' = 0" by blast
    have "get_values aligning b bits i out = (b', out', j, None)"
      using ih(1) b1(1) False i by (subst get_values.simps) auto
    moreover have "fills (\<lambda>k. value_at s (P + bits * k) bits) i j out out'"
      using fills_trans [OF fills_upd [OF i] ih(2)] .
    ultimately show ?thesis using ih(3,4) by auto
  qed
qed

lemma read_unpacked_ok:
  assumes b: "reading s p b" "br_bitoffset b = 0" "br_seek b = br_byteoffset b" and bits: "bits \<le> 32"
    and enough: "p + bits * length buf \<le> 8 * length s"
  defines "n \<equiv> length buf div 32 * 32"
  shows "\<exists>b'. read_unpacked b buf bits =
      Some (b', map (\<lambda>k. value_at s (p + bits * k) bits) [0..<n] @ drop n buf, n, None) \<and>
    reading s (p + bits * n) (b'\<lparr>br_byteoffset := br_byteoffset b' + n * bits div 8\<rparr>) \<and>
    br_bitoffset b' = 0 \<and> br_seek b' = br_byteoffset b' + n * bits div 8"
proof -
  let ?g = "length buf div 32" and ?in = "drop (br_byteoffset b) s"
  have p: "p = 8 * br_byteoffset b" using b by (simp add: reading_def)
  have "bits * (32 * ?g) \<le> bits * length buf" by (intro mult_le_mono2) simp
  moreover have "8 * (?g * (4 * bits)) = bits * (32 * ?g)" by simp
  ultimately have "8 * (?g * (4 * bits)) \<le> 8 * (length s - br_byteoffset b)" using enough p by linarith
  then have le: "?g * (4 * bits) \<le> length ?in" unfolding length_drop by linarith
  have val: "packed_value ?in bits k = (value_at s (p + bits * k) bits :: u32)" for k
    by (simp add: packed_value_at value_at_drop p mult.commute)
  have n8: "n * bits div 8 = ?g * (4 * bits)" "bits * n = 8 * (?g * (4 * bits))" by (simp_all add: n_def)
  define G where "G = ?g * (4 * bits)"
  have G: "G \<le> length s - br_byteoffset b" "n * bits div 8 = G" "bits * n = 8 * G" "32 * ?g = n"
    using le n8 by (simp_all add: G_def n_def)
  then have "length s - br_byteoffset b - (length s - (br_byteoffset b + G)) = G" by linarith
  then show ?thesis
    using unpack32Default_eq [OF bits le, folded G_def] b G p
    by (simp add: read_unpacked_def reading_def val add.commute)
qed

lemma get_unpacked_ok:
  assumes "reading s (P + bits * i) b" "i < length out \<Longrightarrow> br_bitoffset b = 0 \<and> br_seek b = br_byteoffset b"
    "bits \<le> 32" "i \<le> length out" "P + bits * length out \<le> 8 * length s"
  shows "\<exists>b' out' j. get_unpacked b bits i out = Some (b', out', j, None) \<and>
    fills (\<lambda>k. value_at s (P + bits * k) bits) i j out out' \<and> reading s (P + bits * j) b'"
  using assms
proof (induction "length out - i" arbitrary: i b out rule: less_induct)
  case less
  show ?case
  proof (cases "i < length out")
    case False
    then show ?thesis using less.prems
      by (intro exI [of _ b] exI [of _ out] exI [of _ i]) (simp add: get_unpacked.simps fills_refl)
  next
    case True
    define m n where "m = min buflen (length out - i)" and "n = m div 32 * 32"
    have n: "i + n \<le> length out" using True by (simp add: m_def n_def)
    have "bits * (i + m) \<le> bits * length out" using True by (intro mult_le_mono2) (simp add: m_def)
    then have "P + bits * i + bits * length (replicate m (0 :: u32)) \<le> 8 * length s"
      using less.prems(5) by (simp add: algebra_simps)
    from read_unpacked_ok [OF less.prems(1) _ _ less.prems(3) this] less.prems(2) [OF True] obtain b1 where b1:
      "read_unpacked b (replicate m 0) bits =
        Some (b1, map (\<lambda>k. value_at s (P + bits * i + bits * k) bits) [0..<n] @ drop n (replicate m 0), n, None)"
      "reading s (P + bits * i + bits * n) (b1\<lparr>br_byteoffset := br_byteoffset b1 + n * bits div 8\<rparr>)"
      "br_bitoffset b1 = 0" "br_seek b1 = br_byteoffset b1 + n * bits div 8"
      by (auto simp: n_def)
    let ?vs = "map (\<lambda>k. value_at s (P + bits * i + bits * k) bits) [0..<n] :: u64 list"
    let ?out = "blit out i ?vs" and ?b = "b1\<lparr>br_byteoffset := br_byteoffset b1 + n * bits div 8\<rparr>"
    have fill: "fills (\<lambda>k. value_at s (P + bits * k) bits) i (i + n) out ?out"
      using fills_blit [of i ?vs out "\<lambda>k. value_at s (P + bits * k) bits"] n by (simp add: algebra_simps)
    have rd: "reading s (P + bits * (i + n)) ?b" using b1(2) by (simp add: algebra_simps)
    have eq: "get_unpacked b bits i out = (if n = 0 then Some (?b, ?out, i, None) else get_unpacked ?b bits (i + n) ?out)"
      using b1(1) True less.prems(3) by (subst get_unpacked.simps) (simp add: m_def comp_def ucast_value_at)
    show ?thesis
    proof (cases "n = 0")
      case True
      then show ?thesis using eq fill rd by auto
    next
      case False
      have len: "length ?out = length out" using fills_length [OF fill] .
      have "length out - (i + n) < length out - i" using False n by linarith
      with less.hyps [of ?out "i + n" ?b] False n True rd b1(3,4) less.prems(3,5) len obtain b' out' j where
        "get_unpacked ?b bits (i + n) ?out = Some (b', out', j, None)"
        "fills (\<lambda>k. value_at s (P + bits * k) bits) (i + n) j ?out out'" "reading s (P + bits * j) b'" by auto
      then show ?thesis using eq False fills_trans [OF fill] by auto
    qed
  qed
qed

lemma GetBatch_ok:
  assumes rd: "reading s p b" and bits: "bits \<le> 64" and enough: "p + bits * length out \<le> 8 * length s"
  shows "\<exists>b'. BitReader_GetBatch b bits out =
      Some (b', map (\<lambda>k. value_at s (p + bits * k) bits) [0..<length out], length out, None) \<and>
    reading s (p + bits * length out) b'"
proof -
  let ?f = "\<lambda>k. value_at s (p + bits * k) bits :: u64"
  from get_values_ok [of s p bits 0 b True out] assms obtain b1 out1 i where 1:
    "get_values True b bits 0 out = (b1, out1, i, None)" "fills ?f 0 i out out1" "reading s (p + bits * i) b1"
    "i = length out \<or> br_bitoffset b1 = 0" by auto
  have i: "i \<le> length out" and len1: "length out1 = length out" using 1(2) by (auto simp: fills_def)
  have "\<exists>b2 out2 j. (if bits \<le> 32 then get_unpacked (Seek b1 (br_byteoffset b1)) bits i out1 else Some (b1, out1, i, None)) =
      Some (b2, out2, j, None) \<and> fills ?f i j out1 out2 \<and> reading s (p + bits * j) b2"
  proof (cases "bits \<le> 32")
    case True
    have "reading s (p + bits * i) (Seek b1 (br_byteoffset b1))" using 1(3) by (simp add: reading_def Seek_def buffered_def)
    then show ?thesis using get_unpacked_ok [of s p bits i "Seek b1 (br_byteoffset b1)" out1] 1(4) True enough i len1
      by (auto simp: Seek_def)
  next
    case False
    then show ?thesis using fills_refl [of i out1 ?f] 1(3) i len1 by auto
  qed
  then obtain b2 out2 j where 2: "(if bits \<le> 32 then get_unpacked (Seek b1 (br_byteoffset b1)) bits i out1
      else Some (b1, out1, i, None)) = Some (b2, out2, j, None)" "fills ?f i j out1 out2" "reading s (p + bits * j) b2"
    by blast
  have j: "j \<le> length out" and len2: "length out2 = length out" using 2(2) len1 by (auto simp: fills_def)
  from fillbuffer_reading [of b2 s "p + bits * j"] 2(3) obtain b3 where 3: "fillbuffer b2 = (b3, None)"
    "reading s (p + bits * j) b3" "buffered b3" by (auto simp: reading_def)
  from get_values_ok [OF 3(2) 3(3) bits, of out2 False] j len2 enough obtain b4 out4 where 4:
    "get_values False b3 bits j out2 = (b4, out4, length out, None)" "fills ?f j (length out) out2 out4"
    "reading s (p + bits * length out) b4" by auto
  have "fills ?f 0 (length out) out out4" using fills_trans [OF fills_trans [OF 1(2) 2(2)] 4(2)] .
  then have "out4 = map ?f [0..<length out]" by (rule fills_all)
  then show ?thesis using 1(1) 2(1) 3(1) 4 bits by (simp add: BitReader_GetBatch_def)
qed

section \<open>GetBatchLevels\<close>

definition hits :: "(nat \<Rightarrow> 'a) \<Rightarrow> 'a \<Rightarrow> nat \<Rightarrow> nat \<Rightarrow> nat" where
  "hits f m i j = length (filter (\<lambda>k. f k = m) [i..<j])"

lemma hits_refl [simp]: "hits f m i i = 0"
  by (simp add: hits_def)

lemma hits_trans: "i \<le> j \<Longrightarrow> j \<le> k \<Longrightarrow> hits f m i j + hits f m j k = hits f m i k"
  using upt_add_eq_append [of i j "k - j"] by (simp add: hits_def)

lemma hits_step: "hits f m i (Suc i) = (if f i = m then 1 else 0)"
  by (simp add: hits_def)

lemma hits_map: "length (filter (\<lambda>x. x = m) (map (\<lambda>k. f (i + k)) [0..<n])) = hits f m i (i + n)"
  by (induction n) (simp_all add: hits_def)

lemma get_levels_ok:
  assumes "reading s (P + bits * i) b" "\<not> aligning \<Longrightarrow> buffered b" "bits \<le> 16" "i \<le> length out"
    "P + bits * length out \<le> 8 * length s"
  defines "f \<equiv> \<lambda>k. value_at s (P + bits * k) bits"
  shows "\<exists>b' out' j. get_levels aligning b bits m i out c = (b', out', j, c + hits f m i j, None) \<and>
    fills f i j out out' \<and> reading s (P + bits * j) b' \<and> (j = length out \<or> aligning \<and> br_bitoffset b' = 0)"
  using assms(1-5)
proof (induction "length out - i" arbitrary: i b out c)
  case 0
  then show ?case by (intro exI [of _ b] exI [of _ out] exI [of _ i]) (simp add: get_levels.simps fills_refl)
next
  case (Suc n)
  show ?case
  proof (cases "aligning \<and> br_bitoffset b = 0")
    case True
    then show ?thesis using Suc.prems
      by (intro exI [of _ b] exI [of _ out] exI [of _ i]) (simp add: get_levels.simps fills_refl)
  next
    case False
    have buf: "buffered b" using False Suc.prems(1,2) by (auto simp: reading_def)
    have i: "i < length out" and b64: "bits \<le> 64" using Suc.hyps(2) Suc.prems(3) by simp_all
    have "bits * (i + 1) \<le> bits * length out" using i by (intro mult_le_mono2) simp
    then have "P + bits * i + bits \<le> 8 * length s" using Suc.prems(5) by simp
    from next_ok [OF Suc.prems(1) buf b64 this] obtain b1 where b1:
      "BitReader_next b bits = (b1, value_at s (P + bits * i) bits, None)"
      "reading s (P + bits * i + bits) b1" "buffered b1" by blast
    have lvl: "ucast (value_at s (P + bits * i) bits :: u64) = f i" using b64 by (simp add: f_def ucast_value_at)
    let ?out = "out[i := f i]" and ?c = "if f i = m then c + 1 else c"
    have n: "n = length ?out - (i + 1)" and len: "i + 1 \<le> length ?out" and en: "P + bits * length ?out \<le> 8 * length s"
      using Suc.hyps(2) Suc.prems(5) i by simp_all
    have rd: "reading s (P + bits * (i + 1)) b1" using b1(2) by (simp add: algebra_simps)
    from Suc.hyps(1) [OF n rd b1(3) Suc.prems(3) len en, of ?c] obtain b' out' j where
      ih: "get_levels aligning b1 bits m (i + 1) ?out ?c = (b', out', j, ?c + hits f m (i + 1) j, None)"
        "fills f (i + 1) j ?out out'" "reading s (P + bits * j) b'"
        "j = length ?out \<or> aligning \<and> br_bitoffset b' = 0" by blast
    have "?c + hits f m (i + 1) j = c + hits f m i j"
      using hits_trans [of i "i + 1" j f m] ih(2) hits_step [of f m i] by (auto simp: fills_def)
    then have "get_levels aligning b bits m i out c = (b', out', j, c + hits f m i j, None)"
      using ih(1) b1(1) False i lvl by (subst get_levels.simps) (auto simp: Let_def)
    then show ?thesis using ih(3,4) fills_trans [OF fills_upd [OF i] ih(2)] by auto
  qed
qed

lemma get_unpacked_levels_ok:
  assumes "reading s (P + bits * i) b" "i < length out \<Longrightarrow> br_bitoffset b = 0 \<and> br_seek b = br_byteoffset b"
    "bits \<le> 16" "i \<le> length out" "P + bits * length out \<le> 8 * length s"
  defines "f \<equiv> \<lambda>k. value_at s (P + bits * k) bits"
  shows "\<exists>b' out' j. get_unpacked_levels b bits ml i out c = Some (b', out', j, c + hits f ml i j, None) \<and>
    fills f i j out out' \<and> reading s (P + bits * j) b'"
  using assms(1-5)
proof (induction "length out - i" arbitrary: i b out c rule: less_induct)
  case less
  show ?case
  proof (cases "i < length out")
    case False
    then show ?thesis using less.prems
      by (intro exI [of _ b] exI [of _ out] exI [of _ i]) (simp add: get_unpacked_levels.simps fills_refl)
  next
    case True
    define m n where "m = min buflen (length out - i)" and "n = m div 32 * 32"
    have n: "i + n \<le> length out" and b32: "bits \<le> 32" using True less.prems(3) by (simp_all add: m_def n_def)
    have "bits * (i + m) \<le> bits * length out" using True by (intro mult_le_mono2) (simp add: m_def)
    then have "P + bits * i + bits * length (replicate m (0 :: u32)) \<le> 8 * length s"
      using less.prems(5) by (simp add: algebra_simps)
    from read_unpacked_ok [OF less.prems(1) _ _ b32 this] less.prems(2) [OF True] obtain b1 where b1:
      "read_unpacked b (replicate m 0) bits =
        Some (b1, map (\<lambda>k. value_at s (P + bits * i + bits * k) bits) [0..<n] @ drop n (replicate m 0), n, None)"
      "reading s (P + bits * i + bits * n) (b1\<lparr>br_byteoffset := br_byteoffset b1 + n * bits div 8\<rparr>)"
      "br_bitoffset b1 = 0" "br_seek b1 = br_byteoffset b1 + n * bits div 8"
      by (auto simp: n_def)
    let ?vs = "map (\<lambda>k. f (i + k)) [0..<n]"
    let ?out = "blit out i ?vs" and ?b = "b1\<lparr>br_byteoffset := br_byteoffset b1 + n * bits div 8\<rparr>"
    obtain buf where buf: "read_unpacked b (replicate m 0) bits = Some (b1, buf, n, None)" "map ucast (take n buf) = ?vs"
      using b1(1) b32 by (simp add: ucast_value_at f_def algebra_simps comp_def)
    have fill: "fills f i (i + n) out ?out" using fills_blit [of i ?vs out f] n by simp
    have rd: "reading s (P + bits * (i + n)) ?b" using b1(2) by (simp add: algebra_simps)
    have eq: "get_unpacked_levels b bits ml i out c = (if n = 0 then Some (?b, ?out, i, c, None)
        else get_unpacked_levels ?b bits ml (i + n) ?out (c + hits f ml i (i + n)))"
      using buf True hits_map [of ml f i n] by (subst get_unpacked_levels.simps) (simp add: m_def Let_def)
    show ?thesis
    proof (cases "n = 0")
      case True
      then show ?thesis using eq fill rd by auto
    next
      case False
      have len: "length ?out = length out" using fills_length [OF fill] .
      have "length out - (i + n) < length out - i" using False n by linarith
      with less.hyps [of ?out "i + n" ?b "c + hits f ml i (i + n)"] False n True rd b1(3,4) less.prems(3,5) len
      obtain b' out' j where ih: "get_unpacked_levels ?b bits ml (i + n) ?out (c + hits f ml i (i + n)) =
          Some (b', out', j, c + hits f ml i (i + n) + hits f ml (i + n) j, None)"
        "fills f (i + n) j ?out out'" "reading s (P + bits * j) b'" by auto
      have "hits f ml i (i + n) + hits f ml (i + n) j = hits f ml i j"
        using ih(2) by (intro hits_trans) (auto simp: fills_def)
      then show ?thesis using ih eq False fills_trans [OF fill ih(2)] by (auto simp: add.assoc)
    qed
  qed
qed

lemma GetBatchLevels_ok:
  assumes rd: "reading s p b" and bits: "bits \<le> 16" and enough: "p + bits * length out \<le> 8 * length s"
  defines "f \<equiv> \<lambda>k. value_at s (p + bits * k) bits"
  shows "\<exists>b'. BitReader_GetBatchLevels b bits out m =
      Some (b', map f [0..<length out], length out, hits f m 0 (length out), None) \<and>
    reading s (p + bits * length out) b'"
proof -
  from get_levels_ok [of s p bits 0 b True out m 0, folded f_def] assms obtain b1 out1 i where 1:
    "get_levels True b bits m 0 out 0 = (b1, out1, i, hits f m 0 i, None)" "fills f 0 i out out1"
    "reading s (p + bits * i) b1" "i = length out \<or> br_bitoffset b1 = 0" by auto
  have i: "i \<le> length out" and len1: "length out1 = length out" using 1(2) by (auto simp: fills_def)
  have "reading s (p + bits * i) (Seek b1 (br_byteoffset b1))" using 1(3) by (simp add: reading_def Seek_def buffered_def)
  with get_unpacked_levels_ok [of s p bits i "Seek b1 (br_byteoffset b1)" out1 m "hits f m 0 i", folded f_def]
  obtain b2 out2 j where 2: "get_unpacked_levels (Seek b1 (br_byteoffset b1)) bits m i out1 (hits f m 0 i) =
      Some (b2, out2, j, hits f m 0 i + hits f m i j, None)" "fills f i j out1 out2" "reading s (p + bits * j) b2"
    using 1(4) bits enough i len1 by (auto simp: Seek_def)
  have j: "i \<le> j" "j \<le> length out" and len2: "length out2 = length out" using 2(2) len1 by (auto simp: fills_def)
  from fillbuffer_reading [of b2 s "p + bits * j"] 2(3) obtain b3 where 3: "fillbuffer b2 = (b3, None)"
    "reading s (p + bits * j) b3" "buffered b3" by (auto simp: reading_def)
  from get_levels_ok [OF 3(2) 3(3) bits, of out2 False m "hits f m 0 j", folded f_def] j len2 enough
  obtain b4 out4 where 4:
    "get_levels False b3 bits m j out2 (hits f m 0 j) = (b4, out4, length out, hits f m 0 j + hits f m j (length out), None)"
    "fills f j (length out) out2 out4" "reading s (p + bits * length out) b4" by auto
  have "out4 = map f [0..<length out]" using fills_all [OF fills_trans [OF fills_trans [OF 1(2) 2(2)] 4(2)]] .
  moreover have "hits f m 0 i + hits f m i j = hits f m 0 j" "hits f m 0 j + hits f m j (length out) = hits f m 0 (length out)"
    using hits_trans [of 0 i j f m] hits_trans [of 0 j "length out" f m] j by auto
  ultimately show ?thesis using 1(1) 2(1) 3(1) 4 bits by (simp add: BitReader_GetBatchLevels_def)
qed

section \<open>Discard\<close>

lemma discard_values_ok:
  assumes "reading s (P + bits * i) b" "\<not> aligning \<Longrightarrow> buffered b" "bits \<le> 64" "i \<le> n" "P + bits * n \<le> 8 * length s"
  shows "\<exists>b' j. discard_values aligning b bits i n = (b', j, None) \<and> j \<le> n \<and> reading s (P + bits * j) b' \<and>
    (j = n \<or> aligning \<and> br_bitoffset b' = 0)"
  using assms
proof (induction "n - i" arbitrary: i b)
  case 0
  then show ?case by (intro exI [of _ b] exI [of _ i]) (simp add: discard_values.simps)
next
  case (Suc k)
  show ?case
  proof (cases "aligning \<and> br_bitoffset b = 0")
    case True
    then show ?thesis using Suc.prems by (intro exI [of _ b] exI [of _ i]) (simp add: discard_values.simps)
  next
    case False
    have buf: "buffered b" using False Suc.prems(1,2) by (auto simp: reading_def)
    have i: "i < n" using Suc.hyps(2) by simp
    have "bits * (i + 1) \<le> bits * n" using i by (intro mult_le_mono2) simp
    then have "P + bits * i + bits \<le> 8 * length s" using Suc.prems(5) by simp
    from next_ok [OF Suc.prems(1) buf Suc.prems(3) this] obtain b1 where b1:
      "BitReader_next b bits = (b1, value_at s (P + bits * i) bits, None)"
      "reading s (P + bits * i + bits) b1" "buffered b1" by blast
    have k: "k = n - (i + 1)" and le: "i + 1 \<le> n" using Suc.hyps(2) by simp_all
    have rd: "reading s (P + bits * (i + 1)) b1" using b1(2) by (simp add: algebra_simps)
    from Suc.hyps(1) [OF k rd b1(3) Suc.prems(3) le Suc.prems(5)] show ?thesis
      using b1(1) False i by (subst discard_values.simps) auto
  qed
qed

lemma discard_chunks_ok:
  assumes rd: "reading s (p + bits * i) b" and i: "i \<le> n" "i = n \<or> br_bitoffset b = 0"
    and enough: "p + bits * n \<le> 8 * length s"
  shows "\<exists>b' j. discard_chunks b bits i n = (b', j, None) \<and> j \<le> n \<and> reading s (p + bits * j) b'"
proof (cases "n - i > 32")
  case True
  define k q where "k = (n - i) div 32 * 32" and "q = BytesForBits (k * bits)"
  have k8: "k * bits = 8 * (4 * ((n - i) div 32) * bits)" by (simp add: k_def)
  have "q = 4 * ((n - i) div 32) * bits" unfolding q_def k8 BytesForBits_eq by simp
  then have q: "8 * q = bits * k" unfolding mult.commute [of bits k] k8 by simp
  have b: "br_bitoffset b = 0" "br_data b = s" "8 * br_byteoffset b = p + bits * i" "length (br_raw b) = 8"
    using rd i True by (auto simp: reading_def)
  have le: "i + k \<le> n" using i by (simp add: k_def)
  have "bits * (i + k) \<le> bits * n" using le by (rule mult_le_mono2)
  then have "8 * (br_byteoffset b + q) \<le> 8 * length s" using enough b(3) q by (simp add: algebra_simps)
  moreover have "reading s (p + bits * (i + k)) (b\<lparr>br_byteoffset := br_byteoffset b + q\<rparr>)"
    using b q by (simp add: reading_def algebra_simps)
  ultimately show ?thesis
    using True b(2) le by (auto simp: discard_chunks_def ReadAt_eq Let_def simp flip: k_def q_def)
next
  case False
  then show ?thesis using rd i by (simp add: discard_chunks_def)
qed

lemma Discard_ok:
  assumes rd: "reading s p b" and bits: "bits \<le> 64" and enough: "p + bits * n \<le> 8 * length s"
  shows "\<exists>b'. BitReader_Discard b bits n = (b', n, None) \<and> reading s (p + bits * n) b'"
proof -
  from discard_values_ok [of s p bits 0 b True n] assms obtain b1 i where 1:
    "discard_values True b bits 0 n = (b1, i, None)" "i \<le> n" "reading s (p + bits * i) b1"
    "i = n \<or> br_bitoffset b1 = 0" by auto
  from discard_chunks_ok [OF 1(3,2) _ enough] 1(4) obtain b2 j where
    2: "discard_chunks b1 bits i n = (b2, j, None)" "j \<le> n" "reading s (p + bits * j) b2" by blast
  from fillbuffer_reading [of b2 s "p + bits * j"] 2(3) obtain b3 where 3: "fillbuffer b2 = (b3, None)"
    "reading s (p + bits * j) b3" "buffered b3" by (auto simp: reading_def)
  from discard_values_ok [OF 3(2) 3(3) bits 2(2) enough, of False] obtain b4 where
    "discard_values False b3 bits j n = (b4, n, None)" "reading s (p + bits * n) b4" by auto
  then show ?thesis using 1(1) 2(1) 3(1) bits by (simp add: BitReader_Discard_def)
qed

section \<open>GetBatchIndex\<close>

lemma mult_split: "i \<le> n \<Longrightarrow> b * i + b * (n - i) = b * n" for b i n :: nat
  by (simp flip: distrib_left)

lemma fills_drop:
  assumes "fills (\<lambda>k. f (i + k)) 0 j (drop i out) ys" "i \<le> length out"
  shows "fills f i (i + j) out (take i out @ ys)"
  using assms by (auto simp: fills_def nth_append)

lemma index_buffered_ok:
  assumes "reading s (P + bits * i) b" "buffered b" "0 < bits" "br_bitoffset b + k * bits \<le> 64" "i + k \<le> length out"
    "P + bits * length out \<le> 8 * length s"
  defines "f \<equiv> \<lambda>k. value_at s (P + bits * k) bits"
  shows "\<exists>b' out'. index_buffered k b bits i out = (b', out') \<and> fills f i (i + k) out out' \<and>
    reading s (P + bits * (i + k)) b' \<and> buffered b'"
  using assms(1-6)
proof (induction k arbitrary: b i out)
  case 0
  then show ?case by (simp add: fills_refl)
next
  case (Suc k)
  have "bits * (i + 1) \<le> bits * length out" using Suc.prems(5) by (intro mult_le_mono2) simp
  then have "P + bits * i + bits \<le> 8 * length s" using Suc.prems(6) by simp
  with next_buffered [OF Suc.prems(1,2,3)] Suc.prems(4)
  have v: "drop_bit (br_bitoffset b) (trailingBits (br_buffer b) (br_bitoffset b + bits)) =
    (value_at s (P + bits * i) bits :: u64)" by simp
  have b64: "bits \<le> 64" using Suc.prems(4) by simp
  let ?b = "b\<lparr>br_bitoffset := br_bitoffset b + bits\<rparr>" and ?out = "out[i := f i]"
  have "reading s (P + bits * (i + 1)) ?b" "buffered ?b"
    using Suc.prems(1,2,4) by (auto simp: reading_def buffered_def)
  with Suc.IH [of "i + 1" ?b ?out] Suc.prems obtain b' out' where
    "index_buffered k ?b bits (i + 1) ?out = (b', out')" "fills f (i + 1) (i + Suc k) ?out out'"
    "reading s (P + bits * (i + Suc k)) b'" "buffered b'" by auto
  moreover have "fills f i (i + 1) out ?out" using Suc.prems(5) by (intro fills_upd) simp
  moreover have "ucast (value_at s (P + bits * i) bits :: u64) = f i" using b64 by (simp add: f_def ucast_value_at)
  ultimately show ?case using v fills_trans by (auto simp: Let_def)
qed

lemma getBatchIndexScalar_ok:
  assumes "reading s (P + bits * i) b" "\<not> stop \<Longrightarrow> buffered b" "0 < bits" "bits \<le> 32" "i \<le> length out"
    "P + bits * length out \<le> 8 * length s"
  defines "f \<equiv> \<lambda>k. value_at s (P + bits * k) bits"
  shows "\<exists>b' out' j. getBatchIndexScalar b bits out stop i = Some (b', out', j, None) \<and> fills f i j out out' \<and>
    reading s (P + bits * j) b' \<and> (j = length out \<or> stop \<and> br_bitoffset b' = 0)"
  using assms(1-6)
proof (induction "length out - i" arbitrary: i b out rule: less_induct)
  case less
  show ?case
  proof (cases "i < length out \<and> \<not> (stop \<and> (br_bitoffset b = 0 \<or> br_bitoffset b = 64))")
    case False
    let ?b = "if i < length out \<and> br_bitoffset b = 64
      then b\<lparr>br_byteoffset := br_byteoffset b + 8, br_bitoffset := 0\<rparr> else b"
    have "getBatchIndexScalar b bits out stop i = Some (?b, out, i, None)"
      using False by (subst getBatchIndexScalar.simps) auto
    moreover have "reading s (P + bits * i) ?b" using less.prems(1) by (auto simp: reading_def)
    ultimately show ?thesis using fills_refl [of i out f] less.prems(5) False by (auto split: if_splits)
  next
    case True
    have buf: "buffered b" using True less.prems(1,2) by (auto simp: reading_def)
    define m where "m = min ((br_validBits b - br_bitoffset b) div bits) (length out - i)"
    have av: "index_available b bits (length out - i) = Some m"
      using less.prems(3) by (auto simp: index_available_def m_def)
    have step: ?thesis if "fills f i j out out1" "i < j" "reading s (P + bits * j) b1" "buffered b1"
      "getBatchIndexScalar b bits out stop i = getBatchIndexScalar b1 bits out1 stop j" for j out1 b1
    proof -
      have j: "length out1 - j < length out - i" "length out1 = length out" "j \<le> length out"
        using that(1,2) True by (auto simp: fills_def)
      show ?thesis using less.hyps [OF j(1) that(3)] that less.prems(3,4,6) j fills_trans [OF that(1)] by auto
    qed
    show ?thesis
    proof (cases "m = 0")
      case False
      have "m * bits \<le> (br_validBits b - br_bitoffset b) div bits * bits" unfolding m_def by (intro mult_le_mono1) simp
      also have "\<dots> \<le> br_validBits b - br_bitoffset b" by simp
      finally have "br_bitoffset b + m * bits \<le> br_validBits b" using False by (cases "br_bitoffset b \<le> br_validBits b") (auto simp: m_def)
      then have "br_bitoffset b + m * bits \<le> 64" using buf by (simp add: buffered_def)
      moreover have "m \<le> length out - i" by (simp add: m_def)
      then have "i + m \<le> length out" using True by linarith
      ultimately
      obtain b1 out1 where 1: "index_buffered m b bits i out = (b1, out1)" "fills f i (i + m) out out1"
        "reading s (P + bits * (i + m)) b1" "buffered b1"
        using index_buffered_ok [OF less.prems(1) buf less.prems(3) _ _ less.prems(6), folded f_def] by blast
      show ?thesis
        by (rule step [OF 1(2) _ 1(3,4)]) (use False True av 1(1) in \<open>auto simp: getBatchIndexScalar.simps [of b]\<close>)
    next
      case m0: True
      have "bits * (i + 1) \<le> bits * length out" using True by (intro mult_le_mono2) simp
      then have "P + bits * i + bits \<le> 8 * length s" "bits \<le> 64" using less.prems(4,6) by simp_all
      then obtain b1 where b1: "BitReader_next b bits = (b1, value_at s (P + bits * i) bits, None)"
        "reading s (P + bits * i + bits) b1" "buffered b1" using next_ok [OF less.prems(1) buf] by blast
      have rd: "reading s (P + bits * (i + 1)) b1" using b1(2) by (simp add: algebra_simps)
      have "ucast (value_at s (P + bits * i) bits :: u64) = f i" using less.prems(4) by (simp add: f_def ucast_value_at)
      then show ?thesis
        by (intro step [OF fills_upd _ rd b1(3)]) (use m0 True av b1(1) in \<open>auto simp: getBatchIndexScalar.simps [of b]\<close>)
    qed
  qed
qed

lemma index_unpacked_ok:
  assumes rd: "reading s (p + bits * i) b" "i < length out \<Longrightarrow> br_bitoffset b = 0 \<and> br_seek b = br_byteoffset b"
    and bits: "bits \<le> 32" and i: "i \<le> length out" and enough: "p + bits * length out \<le> 8 * length s"
  defines "f \<equiv> \<lambda>k. value_at s (p + bits * k) bits"
  shows "\<exists>b' out' j. index_unpacked b bits i out = Some (b', out', j, None) \<and> fills f i j out out' \<and>
    reading s (p + bits * j) b'"
proof (cases "i < length out")
  case True
  define n where "n = length (drop i out) div 32 * 32"
  have "p + bits * i + bits * length (drop i out) \<le> 8 * length s" using enough mult_split [OF i, of bits] by simp
  from read_unpacked_ok [OF rd(1) _ _ bits this] rd(2) [OF True] obtain b1 where
    b1: "read_unpacked b (drop i out) bits = Some (b1, map (\<lambda>k. f (i + k)) [0..<n] @ drop n (drop i out), n, None)"
      "reading s (p + bits * i + bits * n) (b1\<lparr>br_byteoffset := br_byteoffset b1 + n * bits div 8\<rparr>)"
    by (auto simp: n_def f_def algebra_simps)
  have "n \<le> length (drop i out)" by (simp add: n_def)
  then have "fills (\<lambda>k. f (i + k)) 0 n (drop i out) (map (\<lambda>k. f (i + k)) [0..<n] @ drop n (drop i out))"
    by (auto simp: fills_def nth_append)
  from fills_drop [OF this i] b1 True show ?thesis by (auto simp: index_unpacked_def algebra_simps)
next
  case False
  then show ?thesis using rd(1) fills_refl [OF i, of f] by (auto simp: index_unpacked_def)
qed

lemma GetBatchIndex_ok:
  assumes rd: "reading s p b" and bits: "bits \<le> 32" and enough: "p + bits * length out \<le> 8 * length s"
  shows "\<exists>b'. BitReader_GetBatchIndex b bits out =
      Some (b', map (\<lambda>k. value_at s (p + bits * k) bits) [0..<length out], length out, None) \<and>
    reading s (p + bits * length out) b'"
proof (cases "bits = 0")
  case True
  then show ?thesis using rd by (simp add: BitReader_GetBatchIndex_def map_replicate_const)
next
  case False
  let ?f = "\<lambda>k. value_at s (p + bits * k) bits :: u32"
  have "\<exists>b1 out1 i. index_to_boundary b bits out = Some (b1, out1, i, None) \<and> fills ?f 0 i out out1 \<and>
      reading s (p + bits * i) b1 \<and> (i = length out \<or> br_bitoffset b1 = 0)"
    using getBatchIndexScalar_ok [of s p bits 0 b True out] rd bits enough False fills_refl [of 0 out ?f]
    by (auto simp: index_to_boundary_def)
  then obtain b1 out1 i where 1: "index_to_boundary b bits out = Some (b1, out1, i, None)" "fills ?f 0 i out out1"
    "reading s (p + bits * i) b1" "i = length out \<or> br_bitoffset b1 = 0" by blast
  have i: "i \<le> length out" and len1: "length out1 = length out" using 1(2) by (auto simp: fills_def)
  show ?thesis
  proof (cases "br_bitoffset b \<noteq> 0 \<and> i = length out")
    case True
    then show ?thesis using 1 fills_all [of ?f out out1] bits False by (auto simp: BitReader_GetBatchIndex_def)
  next
    case nb: False
    have "reading s (p + bits * i) (Seek b1 (br_byteoffset b1))" using 1(3) by (simp add: reading_def Seek_def buffered_def)
    with index_unpacked_ok [of s p bits i "Seek b1 (br_byteoffset b1)" out1] 1(4) bits enough i len1 obtain b2 out2 j where
      2: "index_unpacked (Seek b1 (br_byteoffset b1)) bits i out1 = Some (b2, out2, j, None)"
        "fills ?f i j out1 out2" "reading s (p + bits * j) b2" by (auto simp: Seek_def)
    have j: "j \<le> length out" and len2: "length out2 = length out" using 2(2) len1 by (auto simp: fills_def)
    from fillbuffer_reading [of b2 s "p + bits * j"] 2(3) obtain b3 where 3: "fillbuffer b2 = (b3, None)"
      "reading s (p + bits * j) b3" "buffered b3" by (auto simp: reading_def)
    have en3: "p + bits * j + bits * length (drop j out2) \<le> 8 * length s"
      using enough mult_split [OF j, of bits] len2 by simp
    from getBatchIndexScalar_ok [of s "p + bits * j" bits 0 b3 False "drop j out2"] 3 False bits en3
    obtain b4 tl4 where 4: "getBatchIndexScalar b3 bits (drop j out2) False 0 = Some (b4, tl4, length (drop j out2), None)"
      "fills (\<lambda>k. ?f (j + k)) 0 (length (drop j out2)) (drop j out2) tl4"
      "reading s (p + bits * j + bits * length (drop j out2)) b4" by (auto simp: algebra_simps)
    have "fills ?f j (j + length (drop j out2)) out2 (take j out2 @ tl4)" using fills_drop [OF 4(2)] j len2 by simp
    then have "fills ?f j (length out) out2 (take j out2 @ tl4)" using j len2 by simp
    from fills_all [OF fills_trans [OF fills_trans [OF 1(2) 2(2)] this]]
    have out: "take j out2 @ tl4 = map ?f [0..<length out]" .
    have pos: "p + bits * j + bits * length (drop j out2) = p + bits * length out"
      using mult_split [OF j, of bits] len2 by simp
    have "reading s (p + bits * length out) b4" using 4(3) unfolding pos .
    moreover have "BitReader_GetBatchIndex b bits out = Some (b4, take j out2 @ tl4, length out, None)"
      using nb bits False len1 len2 j by (auto simp: BitReader_GetBatchIndex_def 1(1) 2(1) 3(1) 4(1))
    ultimately show ?thesis using out by auto
  qed
qed

end
