(* ===== verification/Bit_Reader_Bools.thy ===== *)
theory Bit_Reader_Bools
  imports Bit_Reader_Batch Bitmap_Transfer
begin

unbundle bit_operations_syntax

text \<open>
  The methods of \<^verbatim>\<open>parquet/internal/utils/bit_reader.go\<close> that read one-bit values,
  \<^verbatim>\<open>GetBatchBools\<close> into a slice of booleans and \<^verbatim>\<open>GetBatchBitmap\<close> into a bitmap, with
  \<^verbatim>\<open>bytesToBoolsGo\<close> of \<^verbatim>\<open>unpack_bool.go\<close>.
\<close>

section \<open>GetBatchBools\<close>

text \<open>\<^verbatim>\<open>bytesToBoolsGo\<close>: the flag says that the inner loop returned from the function.\<close>

fun byte_to_bools :: "byte \<Rightarrow> nat \<Rightarrow> nat \<Rightarrow> nat \<Rightarrow> bool list \<Rightarrow> bool list \<times> bool" where
  "byte_to_bools b i j 0 out = (out, False)"
| "byte_to_bools b i j (Suc k) out =
     (let idx = 8 * i + j
      in if idx \<ge> length out then (out, True)
         else byte_to_bools b i (j + 1) k (out[idx := (b AND push_bit j 1 \<noteq> 0)]))"

fun bytes_to_bools_loop :: "nat \<Rightarrow> byte list \<Rightarrow> bool list \<Rightarrow> bool list" where
  "bytes_to_bools_loop i [] out = out"
| "bytes_to_bools_loop i (b # bs) out =
     (let (out, returned) = byte_to_bools b i 0 8 out
      in if returned then out else bytes_to_bools_loop (i + 1) bs out)"

definition bytesToBoolsGo :: "byte list \<Rightarrow> bool list \<Rightarrow> bool list" where
  "bytesToBoolsGo bs out = bytes_to_bools_loop 0 bs out"

definition ensureBoolBitAvailable :: "BitReader \<Rightarrow> goerr option" where
  "ensureBoolBitAvailable b =
     (let (bs, err) = ReadAt (br_data b) 1 (br_byteoffset b + br_bitoffset b div 8)
      in if length bs = 1 then None
         else if err = None then Some ErrNoProgress
         else if err = Some EOF then Some ErrUnexpectedEOF
         else err)"

text \<open>The two bit-by-bit loops; the first probes at its start and at every byte boundary, the
  second at every byte boundary.\<close>

function get_bools :: "bool \<Rightarrow> BitReader \<Rightarrow> nat \<Rightarrow> bool list \<Rightarrow> BitReader \<times> bool list \<times> nat \<times> goerr option" where
  "get_bools aligning b i out =
     (if i < length out \<and> (aligning \<longrightarrow> br_bitoffset b \<noteq> 0) then
        let err = (if aligning \<and> i = 0 \<or> br_bitoffset b mod 8 = 0 then ensureBoolBitAvailable b else None)
        in if err \<noteq> None then (b, out, i, err)
           else (case BitReader_nextBool b of (b, val, err) \<Rightarrow>
             if err \<noteq> None then (b, out[i := val], i, err)
             else get_bools aligning b (i + 1) (out[i := val]))
      else (b, out, i, None))"
  by pat_completeness auto
termination by (relation "measure (\<lambda>(_, _, i, out). length out - i)") auto

declare get_bools.simps [simp del]

text \<open>The loop that fills \<^verbatim>\<open>buf[:bytesToRead]\<close>: \<open>acc\<close> is \<^verbatim>\<open>buf[:n]\<close>.\<close>

function read_bool_bytes :: "BitReader \<Rightarrow> nat \<Rightarrow> byte list \<Rightarrow> BitReader \<times> byte list \<times> goerr option" where
  "read_bool_bytes b bytesToRead acc =
     (if length acc < bytesToRead then
        (case Reader_Read (br_data b) (br_seek b) (bytesToRead - length acc) of (bs, pos, err) \<Rightarrow>
           let b = b\<lparr>br_seek := pos\<rparr>; nread = length bs; acc = acc @ bs
           in if length acc = bytesToRead then (b, acc, None)
              else if err \<noteq> None then
                (b, acc, if err = Some EOF \<and> length acc > 0 then Some ErrUnexpectedEOF else err)
              else if nread = 0 then (b, acc, Some ErrNoProgress)
              else read_bool_bytes b bytesToRead acc)
      else (b, acc, None))"
  by pat_completeness auto
termination by (relation "measure (\<lambda>(_, m, acc). m - length acc)") (auto intro!: diff_less_mono2)

declare read_bool_bytes.simps [simp del]

lemma length_byte_to_bools: "length (fst (byte_to_bools b i j k out)) = length out"
  by (induction k arbitrary: j out) (simp_all add: Let_def)

lemma length_bytes_to_bools_loop: "length (bytes_to_bools_loop i bs out) = length out"
proof (induction bs arbitrary: i out)
  case (Cons b bs)
  then show ?case
    using length_byte_to_bools [of b i 0 8 out] by (auto simp: split_beta)
qed simp

lemma length_bytesToBoolsGo: "length (bytesToBoolsGo bs out) = length out"
  by (simp add: bytesToBoolsGo_def length_bytes_to_bools_loop)

lemma read_bool_bytes_length:
  "length acc \<le> m \<Longrightarrow> read_bool_bytes b m acc = (b', bs, None) \<Longrightarrow> length bs = m"
proof (induction b m acc rule: read_bool_bytes.induct)
  case (1 b m acc)
  obtain bs1 pos err where rd: "Reader_Read (br_data b) (br_seek b) (m - length acc) = (bs1, pos, err)"
    by (metis prod_cases3)
  have "length acc + length bs1 \<le> m"
    using 1(2) rd by (auto simp: Reader_Read_def Let_def split: if_splits)
  then show ?case
    using 1(1) [OF _ rd [symmetric] refl refl refl refl] 1(2,3) rd
    by (auto simp: read_bool_bytes.simps [of b m acc] Let_def split: if_splits)
qed

function get_bool_bytes :: "BitReader \<Rightarrow> nat \<Rightarrow> bool list \<Rightarrow> BitReader \<times> bool list \<times> nat \<times> goerr option" where
  "get_bool_bytes b i out =
     (if i + 8 \<le> length out then
        (case read_bool_bytes b (BytesForBits (min (buflen * 8) (length out - i) div 8 * 8)) [] of
           (b, buf, err) \<Rightarrow>
             let n = length buf; out = take i out @ bytesToBoolsGo buf (drop i out);
                 b = b\<lparr>br_byteoffset := br_byteoffset b + n\<rparr>
             in if err \<noteq> None then (b, out, i + n * 8, err) else get_bool_bytes b (i + n * 8) out)
      else (b, out, i, None))"
  by pat_completeness auto
termination
proof (relation "measure (\<lambda>(_, i, out). length out - i)", simp)
  fix b i and out :: "bool list" and b' y bs err n out' b''
  assume i: "i + 8 \<le> length out"
    and x: "(b', y) = read_bool_bytes b (BytesForBits (min (buflen * 8) (length out - i) div 8 * 8)) []"
      "(bs, err) = y" "n = length bs" "out' = take i out @ bytesToBoolsGo bs (drop i out)"
      "b'' = b'\<lparr>br_byteoffset := br_byteoffset b' + n\<rparr>" "\<not> err \<noteq> None"
  let ?m = "min (buflen * 8) (length out - i) div 8"
  have "8 \<le> min (buflen * 8) (length out - i)" using i by simp
  then have "1 \<le> ?m" by linarith
  moreover have "n = BytesForBits (?m * 8)" using x(1,2,3,6) read_bool_bytes_length [of "[]" _ b b' bs] by auto
  moreover have "BytesForBits (?m * 8) = ?m" by (simp add: BytesForBits_eq)
  moreover have "length out' = length out" using i x by (simp add: length_bytesToBoolsGo)
  ultimately show "((b'', i + n * 8, out'), (b, i, out)) \<in> measure (\<lambda>(_, i, out). length out - i)"
    using i by (simp add: diff_less_mono2)
qed

declare get_bool_bytes.simps [simp del]

definition BitReader_GetBatchBools :: "BitReader \<Rightarrow> bool list \<Rightarrow> BitReader \<times> bool list \<times> nat \<times> goerr option" where
  "BitReader_GetBatchBools b out =
     (case get_bools True b 0 out of (b, out, i, err) \<Rightarrow>
        if err \<noteq> None then (b, out, i, err)
        else case get_bool_bytes (Seek b (br_byteoffset b)) i out of (b, out, i, err) \<Rightarrow>
          if err \<noteq> None then (b, out, i, err)
          else let (b, err) = fillbuffer b
            in if err \<noteq> None then (b, out, i, err) else get_bools False b i out)"

section \<open>GetBatchBitmap\<close>

function get_bitmap_bits ::
  "bool \<Rightarrow> BitReader \<Rightarrow> nat \<Rightarrow> byte list \<Rightarrow> nat \<Rightarrow> nat \<Rightarrow> (BitReader \<times> byte list \<times> nat \<times> goerr option) option" where
  "get_bitmap_bits aligning b i out outOffset len =
     (if i < len \<and> (aligning \<longrightarrow> br_bitoffset b \<noteq> 0) then
        (case BitReader_next b 1 of (b, val, err) \<Rightarrow>
           if err \<noteq> None then Some (b, out, i, err)
           else case SetBitTo out (outOffset + i) (val \<noteq> 0) of
               None \<Rightarrow> None
             | Some out \<Rightarrow> get_bitmap_bits aligning b (i + 1) out outOffset len)
      else Some (b, out, i, None))"
  by pat_completeness auto
termination by (relation "measure (\<lambda>(_, _, i, _, _, len). len - i)") auto

declare get_bitmap_bits.simps [simp del]

text \<open>The destination of one bulk read: a whole-byte copy where the output position is aligned. The
  bytes of \<^verbatim>\<open>packed\<close> after those read are those of the scratch buffer, which the copy does not
  use; the model has zeros there.\<close>

definition put_packed :: "byte list \<Rightarrow> nat \<Rightarrow> nat \<Rightarrow> byte list \<Rightarrow> nat \<Rightarrow> byte list option" where
  "put_packed bs packedBytes completeBytes out pos =
     (if completeBytes > 0 then
        (if pos mod 8 = 0 then do {
           _ \<leftarrow> slice_from out (pos div 8);
           Some (blit out (pos div 8) (take completeBytes bs)) }
         else CopyBitmap (bs @ replicate (packedBytes - length bs) 0) 0 (completeBytes * 8) out pos)
      else Some out)"

function get_bitmap_words ::
  "BitReader \<Rightarrow> nat \<Rightarrow> byte list \<Rightarrow> nat \<Rightarrow> nat \<Rightarrow> (BitReader \<times> byte list \<times> nat \<times> goerr option) option" where
  "get_bitmap_words b i out outOffset len =
     (if i < len then
        let batch = min buflen (len - i) div 32 * 32
        in if batch = 0 then Some (b, out, i, None)
           else let packedBytes = batch div 8; input = drop (br_seek b) (br_data b)
             in (case io_ReadFull input packedBytes of (rest, bs, err) \<Rightarrow>
                   let nread = length bs;
                       err = (if err = Some ErrUnexpectedEOF \<and> nread mod 4 = 0 then Some EOF else err);
                       completeBytes = nread div 4 * 4;
                       b = b\<lparr>br_seek := br_seek b + (length input - length rest)\<rparr>
                   in case put_packed bs packedBytes completeBytes out (outOffset + i) of
                       None \<Rightarrow> None
                     | Some out \<Rightarrow>
                         let i = i + completeBytes * 8; b = b\<lparr>br_byteoffset := br_byteoffset b + completeBytes\<rparr>
                         in if err \<noteq> None then Some (b, out, i, err)
                            else get_bitmap_words b i out outOffset len)
      else Some (b, out, i, None))"
  by pat_completeness auto
termination
proof (relation "measure (\<lambda>(_, i, _, _, len). len - i)", simp)
  fix b i out outOffset len batch packedBytes input x rest y bs err nread err' completeBytes b' z out' i' b''
  assume *: "i < len" "batch = min buflen (len - i) div 32 * 32" "batch \<noteq> 0" "packedBytes = batch div 8"
    "input = drop (br_seek b) (br_data b)"
    "(rest, y) = io_ReadFull input packedBytes" "(bs, err) = y" "nread = length bs"
    "err' = (if err = Some ErrUnexpectedEOF \<and> nread mod 4 = 0 then Some EOF else err)"
    "completeBytes = nread div 4 * 4" "i' = i + completeBytes * 8" "\<not> err' \<noteq> None"
  have "nread = packedBytes" using *(6,7,8,9,12) by (auto simp: io_ReadFull_def split: if_splits)
  then have "completeBytes = batch div 8" using *(2,4,10) by simp
  then have "0 < completeBytes" using *(2,3) by simp
  then show "((b'', i', out', outOffset, len), b, i, out, outOffset, len) \<in> measure (\<lambda>(_, i, _, _, len). len - i)"
    using *(1,11) by simp
qed

declare get_bitmap_words.simps [simp del]

definition BitReader_GetBatchBitmap ::
  "BitReader \<Rightarrow> byte list \<Rightarrow> nat \<Rightarrow> nat \<Rightarrow> (BitReader \<times> byte list \<times> nat \<times> goerr option) option" where
  "BitReader_GetBatchBitmap b out outOffset len =
     (if len = 0 then Some (b, out, 0, None)
      else do {
        (b, out, i, err) \<leftarrow> get_bitmap_bits True b 0 out outOffset len;
        if err \<noteq> None then Some (b, out, i, err)
        else do {
          (b, out, i, err) \<leftarrow> get_bitmap_words (Seek b (br_byteoffset b)) i out outOffset len;
          if err \<noteq> None then Some (b, out, i, err)
          else let (b, err) = fillbuffer b
            in if err \<noteq> None then Some (b, out, i, err)
               else do { (b, out, i, err) \<leftarrow> get_bitmap_bits False b i out outOffset len;
                         Some (b, out, if err \<noteq> None then i else len, err) } } })"

section \<open>Correctness of GetBatchBools\<close>

lemma bit_test_byte: "(b :: byte) AND push_bit j 1 \<noteq> 0 \<longleftrightarrow> bit b j"
  by (auto simp: word_eq_bits_iff bit_simps dest: bit_imp_le_length)

lemma byte_to_bools_eq:
  assumes "byte_to_bools b i j n out = (out', returned)" "j + n = 8"
  shows "(\<forall>k<length out. out' ! k = (if 8 * i + j \<le> k \<and> k < 8 * i + 8 then bit b (k - 8 * i) else out ! k)) \<and>
    (returned \<longrightarrow> length out < 8 * i + 8)"
  using assms
proof (induction n arbitrary: j out)
  case (Suc n)
  show ?case
  proof (cases "8 * i + j \<ge> length out")
    case True
    then show ?thesis using Suc.prems by auto
  next
    case False
    let ?out = "out[8 * i + j := (b AND push_bit j 1 \<noteq> 0)]"
    have "byte_to_bools b i (Suc j) n ?out = (out', returned)" using False Suc.prems(1) by (simp add: Let_def)
    from Suc.IH [OF this] Suc.prems(2)
    have ih: "out' ! k = (if 8 * i + Suc j \<le> k \<and> k < 8 * i + 8 then bit b (k - 8 * i) else ?out ! k)"
        "returned \<longrightarrow> length out < 8 * i + 8" if "k < length out" for k using that by auto
    have "out' ! k = (if 8 * i + j \<le> k \<and> k < 8 * i + 8 then bit b (k - 8 * i) else out ! k)" if "k < length out" for k
    proof (cases "k = 8 * i + j")
      case True
      then show ?thesis using ih(1) [OF that] Suc.prems(2) that by (simp only: bit_test_byte) simp
    next
      case False
      then show ?thesis using ih(1) [OF that] by auto
    qed
    then show ?thesis using ih(2) [of "8 * i + j"] False by auto
  qed
qed auto

lemma bytes_to_bools_loop_eq:
  "k < length out \<Longrightarrow> bytes_to_bools_loop i bs out ! k =
     (if 8 * i \<le> k \<and> k < 8 * (i + length bs) then bm_bit bs (k - 8 * i) else out ! k)"
proof (induction bs arbitrary: i out)
  case (Cons b bs)
  obtain out' returned where eq: "byte_to_bools b i 0 8 out = (out', returned)" by fastforce
  have len: "length out' = length out" using length_byte_to_bools [of b i 0 8 out] eq by simp
  have out': "out' ! k = (if 8 * i \<le> k \<and> k < 8 * i + 8 then bit b (k - 8 * i) else out ! k)"
    and ret: "returned \<Longrightarrow> length out < 8 * i + 8"
    using byte_to_bools_eq [OF eq] Cons.prems by auto
  show ?case
  proof (cases returned)
    case True
    then show ?thesis using out' ret Cons.prems eq by (auto simp: bm_bit_Cons)
  next
    case False
    have "bytes_to_bools_loop (i + 1) bs out' ! k =
        (if 8 * (i + 1) \<le> k \<and> k < 8 * (i + 1 + length bs) then bm_bit bs (k - 8 * (i + 1)) else out' ! k)"
      using Cons.IH [of out' "i + 1"] Cons.prems len by simp
    then show ?thesis using False eq out' by (auto simp: bm_bit_Cons add.commute)
  qed
qed auto

lemma bytesToBoolsGo_fills:
  assumes "8 * length bs \<le> length out"
  shows "fills (bm_bit bs) 0 (8 * length bs) out (bytesToBoolsGo bs out)"
  using assms by (auto simp: fills_def bytesToBoolsGo_def length_bytes_to_bools_loop bytes_to_bools_loop_eq)

lemma ensureBoolBitAvailable_ok:
  assumes "reading s p b" "p < 8 * length s"
  shows "ensureBoolBitAvailable b = None"
proof -
  have "br_byteoffset b + br_bitoffset b div 8 = p div 8" "br_data b = s" using assms by (auto simp: reading_def)
  moreover have "p div 8 < length s" using assms(2) by (simp add: div8_less_iff)
  ultimately show ?thesis by (simp add: ensureBoolBitAvailable_def ReadAt_eq)
qed

lemma get_bools_ok:
  assumes "reading s (P + i) b" "\<not> aligning \<Longrightarrow> buffered b" "i \<le> length out" "P + length out \<le> 8 * length s"
  shows "\<exists>b' out' j. get_bools aligning b i out = (b', out', j, None) \<and> fills (\<lambda>k. bm_bit s (P + k)) i j out out' \<and>
    reading s (P + j) b' \<and> (j = length out \<or> aligning \<and> br_bitoffset b' = 0)"
  using assms
proof (induction "length out - i" arbitrary: i b out)
  case 0
  then show ?case by (intro exI [of _ b] exI [of _ out] exI [of _ i]) (simp add: get_bools.simps fills_refl)
next
  case (Suc n)
  show ?case
  proof (cases "aligning \<and> br_bitoffset b = 0")
    case True
    then show ?thesis using Suc.prems
      by (intro exI [of _ b] exI [of _ out] exI [of _ i]) (simp add: get_bools.simps fills_refl)
  next
    case False
    have buf: "buffered b" using False Suc.prems(1,2) by (auto simp: reading_def)
    have i: "i < length out" using Suc.hyps(2) by simp
    have avail: "ensureBoolBitAvailable b = None" using ensureBoolBitAvailable_ok [OF Suc.prems(1)] Suc.prems(4) i by simp
    from nextBool_ok [OF Suc.prems(1) buf] obtain b1 where b1:
      "BitReader_nextBool b = (b1, bm_bit s (P + i), None)" "reading s (P + (i + 1)) b1" "buffered b1" by auto
    let ?out = "out[i := bm_bit s (P + i)]"
    have n: "n = length ?out - (i + 1)" and len: "i + 1 \<le> length ?out" and en: "P + length ?out \<le> 8 * length s"
      using Suc.hyps(2) Suc.prems(4) i by simp_all
    from Suc.hyps(1) [OF n b1(2,3) len en] obtain b' out' j where
      ih: "get_bools aligning b1 (i + 1) ?out = (b', out', j, None)"
        "fills (\<lambda>k. bm_bit s (P + k)) (i + 1) j ?out out'" "reading s (P + j) b'"
        "j = length ?out \<or> aligning \<and> br_bitoffset b' = 0" by blast
    have "get_bools aligning b i out = (b', out', j, None)"
      using ih(1) b1(1) False i avail by (subst get_bools.simps) (auto simp: Let_def)
    then show ?thesis using ih(3,4) fills_trans [OF fills_upd [OF i] ih(2)] by auto
  qed
qed

lemma read_bool_bytes_ok:
  assumes "br_seek b + m \<le> length (br_data b)"
  shows "read_bool_bytes b m [] = (b\<lparr>br_seek := br_seek b + m\<rparr>, take m (drop (br_seek b) (br_data b)), None)"
  using assms by (auto simp: read_bool_bytes.simps Reader_Read_def Let_def)

lemma get_bool_bytes_ok:
  assumes "reading s (P + i) b" "i < length out \<Longrightarrow> br_bitoffset b = 0 \<and> br_seek b = br_byteoffset b"
    "i \<le> length out" "P + length out \<le> 8 * length s"
  shows "\<exists>b' out' j. get_bool_bytes b i out = (b', out', j, None) \<and> fills (\<lambda>k. bm_bit s (P + k)) i j out out' \<and>
    reading s (P + j) b'"
  using assms
proof (induction "length out - i" arbitrary: i b out rule: less_induct)
  case less
  show ?case
  proof (cases "i + 8 \<le> length out")
    case False
    then show ?thesis using less.prems
      by (intro exI [of _ b] exI [of _ out] exI [of _ i]) (simp add: get_bool_bytes.simps fills_refl)
  next
    case True
    define m where "m = min (buflen * 8) (length out - i) div 8"
    have "8 \<le> min (buflen * 8) (length out - i)" using True by simp
    then have m: "1 \<le> m" "i + 8 * m \<le> length out" unfolding m_def using less.prems(3) by linarith+
    have m8: "min 8192 (length out - i) div 8 = m" "BytesForBits (m * 8) = m" by (simp_all add: m_def BytesForBits_eq)
    have b: "br_data b = s" "br_bitoffset b = 0" "br_seek b = br_byteoffset b" "8 * br_byteoffset b = P + i" "length (br_raw b) = 8"
      using less.prems(1,2) True by (auto simp: reading_def)
    have en: "br_byteoffset b + m \<le> length s" using b(4) m(2) less.prems(4) by linarith
    let ?bs = "take m (drop (br_byteoffset b) s)"
    let ?b = "b\<lparr>br_seek := br_byteoffset b + m, br_byteoffset := br_byteoffset b + m\<rparr>"
    let ?out = "take i out @ bytesToBoolsGo ?bs (drop i out)"
    have len: "length ?bs = m" using en by simp
    have "fills (bm_bit ?bs) 0 (8 * m) (drop i out) (bytesToBoolsGo ?bs (drop i out))"
      using bytesToBoolsGo_fills [of ?bs "drop i out"] len m(2) by simp
    then have "fills (\<lambda>k. bm_bit s (P + (i + k))) 0 (8 * m) (drop i out) (bytesToBoolsGo ?bs (drop i out))"
      using b(4) by (auto simp: fills_def bm_bit_take bm_bit_drop add.assoc)
    from fills_drop [of "\<lambda>k. bm_bit s (P + k)", OF this] less.prems(3)
    have fill: "fills (\<lambda>k. bm_bit s (P + k)) i (i + 8 * m) out ?out" by simp
    have eq: "get_bool_bytes b i out = get_bool_bytes ?b (i + 8 * m) ?out"
      using True len m8 b en read_bool_bytes_ok [of b m] by (subst get_bool_bytes.simps) (simp add: Let_def mult.commute)
    have rd: "reading s (P + (i + 8 * m)) ?b" using b by (simp add: reading_def)
    have lout: "length ?out = length out" using fills_length [OF fill] .
    have "length ?out - (i + 8 * m) < length out - i" using lout m True by linarith
    from less.hyps [OF this rd] lout m(2) less.prems(4) b(2) obtain b' out' j where
      "get_bool_bytes ?b (i + 8 * m) ?out = (b', out', j, None)"
      "fills (\<lambda>k. bm_bit s (P + k)) (i + 8 * m) j ?out out'" "reading s (P + j) b'" by auto
    then show ?thesis using eq fills_trans [OF fill] by auto
  qed
qed

lemma GetBatchBools_ok:
  assumes rd: "reading s p b" and enough: "p + length out \<le> 8 * length s"
  shows "\<exists>b'. BitReader_GetBatchBools b out = (b', map (\<lambda>k. bm_bit s (p + k)) [0..<length out], length out, None) \<and>
    reading s (p + length out) b'"
proof -
  let ?f = "\<lambda>k. bm_bit s (p + k)"
  from get_bools_ok [of s p 0 b True out] assms obtain b1 out1 i where 1:
    "get_bools True b 0 out = (b1, out1, i, None)" "fills ?f 0 i out out1" "reading s (p + i) b1"
    "i = length out \<or> br_bitoffset b1 = 0" by auto
  have i: "i \<le> length out" and len1: "length out1 = length out" using 1(2) by (auto simp: fills_def)
  have "reading s (p + i) (Seek b1 (br_byteoffset b1))" using 1(3) by (simp add: reading_def Seek_def buffered_def)
  with get_bool_bytes_ok [of s p i "Seek b1 (br_byteoffset b1)" out1] 1(4) enough i len1 obtain b2 out2 j where
    2: "get_bool_bytes (Seek b1 (br_byteoffset b1)) i out1 = (b2, out2, j, None)" "fills ?f i j out1 out2"
      "reading s (p + j) b2" by (auto simp: Seek_def)
  have j: "j \<le> length out" and len2: "length out2 = length out" using 2(2) len1 by (auto simp: fills_def)
  from fillbuffer_reading [of b2 s "p + j"] 2(3) obtain b3 where 3: "fillbuffer b2 = (b3, None)"
    "reading s (p + j) b3" "buffered b3" by (auto simp: reading_def)
  from get_bools_ok [OF 3(2) 3(3), of out2 False] j len2 enough obtain b4 out4 where 4:
    "get_bools False b3 j out2 = (b4, out4, length out, None)" "fills ?f j (length out) out2 out4"
    "reading s (p + length out) b4" by auto
  have "out4 = map ?f [0..<length out]" using fills_all [OF fills_trans [OF fills_trans [OF 1(2) 2(2)] 4(2)]] .
  then show ?thesis using 4(3) by (simp add: BitReader_GetBatchBools_def 1(1) 2(1) 3(1) 4(1))
qed

section \<open>Correctness of GetBatchBitmap\<close>

text \<open>\<open>copies s p q i j out out'\<close>: bits \<open>q + i\<close> to \<open>q + j - 1\<close> of the bitmap are now
  bits \<open>p + i\<close> on of \<open>s\<close>; the others are unchanged.\<close>

definition copies :: "byte list \<Rightarrow> nat \<Rightarrow> nat \<Rightarrow> nat \<Rightarrow> nat \<Rightarrow> byte list \<Rightarrow> byte list \<Rightarrow> bool" where
  "copies s p q i j out out' \<longleftrightarrow> i \<le> j \<and> length out' = length out \<and>
     (\<forall>k. bm_bit out' k = (if q + i \<le> k \<and> k < q + j then bm_bit s (p + (k - q)) else bm_bit out k))"

lemma copies_refl: "copies s p q i i out out"
  by (auto simp: copies_def)

lemma copies_trans: "copies s p q i j out out1 \<Longrightarrow> copies s p q j k out1 out2 \<Longrightarrow> copies s p q i k out out2"
  by (auto simp: copies_def)

lemma copies_writes: "copies s p q 0 n out out' \<Longrightarrow> bm_writes out q n (\<lambda>k. bm_bit s (p + k)) out'"
  by (auto simp: copies_def bm_writes_def)

lemma value_at_bit: "(value_at s p 1 :: u64) \<noteq> 0 \<longleftrightarrow> bm_bit s p"
  by (auto simp: word_eq_bits_iff bit_value_at)

lemma get_bitmap_bits_ok:
  assumes "reading s (P + i) b" "\<not> aligning \<Longrightarrow> buffered b" "i \<le> n" "P + n \<le> 8 * length s" "q + n \<le> 8 * length out"
  shows "\<exists>b' out' j. get_bitmap_bits aligning b i out q n = Some (b', out', j, None) \<and> copies s P q i j out out' \<and>
    j \<le> n \<and> reading s (P + j) b' \<and> (j = n \<or> aligning \<and> br_bitoffset b' = 0)"
  using assms
proof (induction "n - i" arbitrary: i b out)
  case 0
  then show ?case by (intro exI [of _ b] exI [of _ out] exI [of _ i]) (simp add: get_bitmap_bits.simps copies_refl)
next
  case (Suc k)
  show ?case
  proof (cases "aligning \<and> br_bitoffset b = 0")
    case True
    then show ?thesis using Suc.prems
      by (intro exI [of _ b] exI [of _ out] exI [of _ i]) (simp add: get_bitmap_bits.simps copies_refl)
  next
    case False
    have buf: "buffered b" using False Suc.prems(1,2) by (auto simp: reading_def)
    have i: "i < n" using Suc.hyps(2) by simp
    have "P + i + 1 \<le> 8 * length s" using i Suc.prems(4) by simp
    from next_ok [OF Suc.prems(1) buf _ this] obtain b1 where b1:
      "BitReader_next b 1 = (b1, value_at s (P + i) 1, None)" "reading s (P + (i + 1)) b1" "buffered b1" by auto
    from SetBitTo_eq [of "q + i" out "bm_bit s (P + i)"] i Suc.prems(5) obtain out1 where
      out1: "SetBitTo out (q + i) (bm_bit s (P + i)) = Some out1" "length out1 = length out"
        "\<forall>j. bm_bit out1 j = (if j = q + i then bm_bit s (P + i) else bm_bit out j)" by auto
    have c: "copies s P q i (i + 1) out out1" using out1 by (auto simp: copies_def)
    have k: "k = n - (i + 1)" and le: "i + 1 \<le> n" and len: "q + n \<le> 8 * length out1"
      using Suc.hyps(2) Suc.prems(5) out1 by simp_all
    from Suc.hyps(1) [OF k b1(2,3) le Suc.prems(4) len] obtain b' out' j where
      ih: "get_bitmap_bits aligning b1 (i + 1) out1 q n = Some (b', out', j, None)"
        "copies s P q (i + 1) j out1 out'" "j \<le> n" "reading s (P + j) b'" "j = n \<or> aligning \<and> br_bitoffset b' = 0" by blast
    have "get_bitmap_bits aligning b i out q n = Some (b', out', j, None)"
      using ih(1) b1(1) False i out1(1) by (subst get_bitmap_bits.simps) (auto simp: value_at_bit [unfolded One_nat_def])
    then show ?thesis using ih(3-5) copies_trans [OF c ih(2)] by auto
  qed
qed

lemma put_packed_ok:
  assumes "length bs = m" "0 < m" "pos + 8 * m \<le> 8 * length out"
  shows "\<exists>out'. put_packed bs m m out pos = Some out' \<and> bm_writes out pos (8 * m) (bm_bit bs) out'"
proof (cases "pos mod 8 = 0")
  case True
  then obtain a where a: "pos = 8 * a" by auto
  then have "put_packed bs m m out pos = Some (blit out a bs)" using assms by (simp add: put_packed_def)
  moreover have "bm_writes out pos (8 * m) (bm_bit bs) (blit out a bs)"
    using assms a by (auto simp: bm_writes_def bm_bit_blit)
  ultimately show ?thesis by blast
next
  case False
  then show ?thesis using CopyBitmap_writes [of 0 "8 * m" bs pos out] assms by (simp add: put_packed_def mult.commute)
qed

lemma get_bitmap_words_ok:
  assumes "reading s (P + i) b" "i < n \<Longrightarrow> br_bitoffset b = 0 \<and> br_seek b = br_byteoffset b"
    "i \<le> n" "P + n \<le> 8 * length s" "q + n \<le> 8 * length out"
  shows "\<exists>b' out' j. get_bitmap_words b i out q n = Some (b', out', j, None) \<and> copies s P q i j out out' \<and>
    j \<le> n \<and> reading s (P + j) b'"
  using assms
proof (induction "n - i" arbitrary: i b out rule: less_induct)
  case less
  define c where "c = min buflen (n - i) div 32"
  show ?case
  proof (cases "i < n \<and> c \<noteq> 0")
    case False
    then have "get_bitmap_words b i out q n = Some (b, out, i, None)"
      by (subst get_bitmap_words.simps) (auto simp: c_def)
    then show ?thesis using less.prems copies_refl by auto
  next
    case True
    have c: "1 \<le> c" "i + 32 * c \<le> n" using True by (auto simp: c_def)
    have b: "br_data b = s" "br_bitoffset b = 0" "br_seek b = br_byteoffset b" "8 * br_byteoffset b = P + i" "length (br_raw b) = 8"
      using less.prems(1,2) True by (auto simp: reading_def)
    have en: "br_byteoffset b + 4 * c \<le> length s" using b(4) c less.prems(4) by linarith
    let ?bs = "take (4 * c) (drop (br_byteoffset b) s)"
    let ?b = "b\<lparr>br_seek := br_byteoffset b + 4 * c, br_byteoffset := br_byteoffset b + 4 * c\<rparr>"
    have len: "length ?bs = 4 * c" using en by simp
    from put_packed_ok [OF len, of "q + i" out] c less.prems(5) obtain out1 where
      out1: "put_packed ?bs (4 * c) (4 * c) out (q + i) = Some out1" "bm_writes out (q + i) (32 * c) (bm_bit ?bs) out1" by auto
    have cp: "copies s P q i (i + 32 * c) out out1"
      using out1(2) b(4) by (auto simp: bm_writes_def copies_def bm_bit_take bm_bit_drop algebra_simps)
    have io: "io_ReadFull (drop (br_byteoffset b) s) (4 * c) = (drop (4 * c) (drop (br_byteoffset b) s), ?bs, None)"
      using en by (simp add: io_ReadFull_def)
    have rest: "length s - br_byteoffset b - (length s - (br_byteoffset b + 4 * c)) = 4 * c" using en by linarith
    have batch: "min 1024 (n - i) div 32 = c" "c * 32 div 8 = 4 * c" by (simp_all add: c_def)
    have eq: "get_bitmap_words b i out q n = get_bitmap_words ?b (i + 32 * c) out1 q n"
      using True out1(1) b rest len
      by (subst get_bitmap_words.simps) (simp add: Let_def batch io mult.commute [of c 4] add.commute [of _ "br_byteoffset b"] del: length_take)
    have rd: "reading s (P + (i + 32 * c)) ?b" using b by (simp add: reading_def)
    have len1: "q + n \<le> 8 * length out1" using less.prems(5) out1(2) by (simp add: bm_writes_def)
    have "n - (i + 32 * c) < n - i" using c by linarith
    from less.hyps [OF this rd _ c(2) less.prems(4) len1] b(2) obtain b' out' j where
      "get_bitmap_words ?b (i + 32 * c) out1 q n = Some (b', out', j, None)" "copies s P q (i + 32 * c) j out1 out'"
      "j \<le> n" "reading s (P + j) b'" by auto
    then show ?thesis using eq copies_trans [OF cp] by auto
  qed
qed

lemma GetBatchBitmap_ok:
  assumes rd: "reading s p b" and enough: "p + n \<le> 8 * length s" and room: "q + n \<le> 8 * length out"
  shows "\<exists>b' out'. BitReader_GetBatchBitmap b out q n = Some (b', out', n, None) \<and>
    bm_writes out q n (\<lambda>k. bm_bit s (p + k)) out' \<and> reading s (p + n) b'"
proof (cases "n = 0")
  case True
  then show ?thesis using rd by (simp add: BitReader_GetBatchBitmap_def)
next
  case False
  from get_bitmap_bits_ok [of s p 0 b True n q out] assms obtain b1 out1 i where 1:
    "get_bitmap_bits True b 0 out q n = Some (b1, out1, i, None)" "copies s p q 0 i out out1" "i \<le> n"
    "reading s (p + i) b1" "i = n \<or> br_bitoffset b1 = 0" by auto
  have len1: "length out1 = length out" using 1(2) by (simp add: copies_def)
  have "reading s (p + i) (Seek b1 (br_byteoffset b1))" using 1(4) by (simp add: reading_def Seek_def buffered_def)
  with get_bitmap_words_ok [of s p i "Seek b1 (br_byteoffset b1)" n q out1] 1(3,5) enough room len1 obtain b2 out2 j where
    2: "get_bitmap_words (Seek b1 (br_byteoffset b1)) i out1 q n = Some (b2, out2, j, None)" "copies s p q i j out1 out2"
      "j \<le> n" "reading s (p + j) b2" by (auto simp: Seek_def)
  have len2: "length out2 = length out" using 2(2) len1 by (simp add: copies_def)
  from fillbuffer_reading [of b2 s "p + j"] 2(4) obtain b3 where 3: "fillbuffer b2 = (b3, None)"
    "reading s (p + j) b3" "buffered b3" by (auto simp: reading_def)
  from get_bitmap_bits_ok [OF 3(2) 3(3) 2(3) enough, of q out2 False] room len2 obtain b4 out4 where 4:
    "get_bitmap_bits False b3 j out2 q n = Some (b4, out4, n, None)" "copies s p q j n out2 out4"
    "reading s (p + n) b4" by auto
  have "bm_writes out q n (\<lambda>k. bm_bit s (p + k)) out4"
    using copies_writes [OF copies_trans [OF copies_trans [OF 1(2) 2(2)] 4(2)]] .
  then show ?thesis using 4(3) False by (simp add: BitReader_GetBatchBitmap_def 1(1) 2(1) 3(1) 4(1))
qed

end
