(* ===== verification/Bit_Codec.thy ===== *)
theory Bit_Codec
  imports Bit_Reader_Bools
begin

unbundle bit_operations_syntax

text \<open>
  \<^verbatim>\<open>bit_writer.go\<close> and \<^verbatim>\<open>bit_reader.go\<close> together: what a \<^verbatim>\<open>BitWriter\<close> wrote to a
  \<^verbatim>\<open>WriterAtBuffer\<close>, a \<^verbatim>\<open>BitReader\<close> reads back; and the properties of the reader's
  methods on any input.
\<close>

section \<open>Bytes and bits\<close>

lemma byte_bits_split:
  assumes "byte_bits s = byte_bits a @ r"
  shows "s = a @ drop (length a) s" "r = byte_bits (drop (length a) s)"
proof -
  have len: "length a \<le> length s" using arg_cong [OF assms, of length] by simp
  have "byte_bits (take (length a) s) = byte_bits a"
    using arg_cong [OF assms, of "take (8 * length a)"] byte_bits_append [of "take (length a) s" "drop (length a) s"] len by simp
  then have "bm_bit (take (length a) s) i = bm_bit a i" if "i < 8 * length a" for i
    using that len by (auto simp: byte_bits_def min_absorb2 dest!: map_eq_conv [THEN iffD1])
  then have eq: "take (length a) s = a" using len by (intro bm_eqI) simp_all
  then show "s = a @ drop (length a) s" by (metis append_take_drop_id)
  then show "r = byte_bits (drop (length a) s)" using assms by (metis byte_bits_append same_append_eq)
qed

lemma byte_bits_drop: "drop (8 * q) (byte_bits s) = byte_bits (drop q s)"
proof (cases "q \<le> length s")
  case True
  then show ?thesis using byte_bits_append [of "take q s" "drop q s"] by (simp add: min_absorb2)
qed (simp add: byte_bits_def)

lemma packed_value:
  assumes at: "drop p (byte_bits s) = packed_bits w vs @ rest" and k: "k < length vs" and fit: "fits_width w (vs ! k)" 
  shows "value_at s (p + w * k) w = (vs ! k :: 'a::len word)"
proof (rule bit_word_eqI)
  fix i assume i: "i < LENGTH('a)"
  have "bm_bit s (p + w * k + i) = bit (vs ! k) i" if "i < w"
  proof -
    have *: "packed_bits w vs = packed_bits w (take k vs) @ map (bit (vs ! k)) [0..<w] @ packed_bits w (drop (Suc k) vs)"
      by (subst id_take_nth_drop [OF k]) (simp add: packed_bits_def)
    have len: "w * k + i < length (packed_bits w vs)"
    proof -
      have "w * k + i < w * Suc k" using that by simp
      also have "\<dots> \<le> w * length vs" using k by (intro mult_le_mono2) simp
      finally show ?thesis by simp
    qed
    have "byte_bits s ! (p + (w * k + i)) = drop p (byte_bits s) ! (w * k + i)"
      by (rule nth_drop [symmetric]) (use arg_cong [OF at, of length] len in simp)
    also have "\<dots> = packed_bits w vs ! (w * k + i)" using len by (simp add: at nth_append)
    also have "\<dots> = bit (vs ! k) i" using k that by (simp add: * nth_append)
    finally show ?thesis using arg_cong [OF at, of length] len by (simp add: byte_bits_def add.assoc)
  qed
  then show "bit (value_at s (p + w * k) w :: 'a word) i = bit (vs ! k) i"
    using fits_width_bit [OF fit, of i] i by (cases "i < w") (auto simp: bit_value_at)
qed

lemma fits_length: "(\<lambda>n. n \<le> length xs) = (\<lambda>n. n \<le> length ys) \<Longrightarrow> length xs = length ys"
  by (drule arg_cong [of _ _ "\<lambda>P. P (length xs) \<and> P (length ys)"]) (auto dest: order.antisym)

lemma flushed_prefix:
  assumes "buffer_writer.flushed b" "buffer_writer.bit_count b \<le> 8 * length (bwr_wr b)"
  shows "byte_bits (bwr_wr b) = buffer_writer.bits b @ drop (buffer_writer.bit_count b) (byte_bits (bwr_wr b))"
proof -
  have "take (buffer_writer.bit_count b) (byte_bits (bwr_wr b)) = buffer_writer.bits b"
  proof (rule nth_equalityI)
    fix i assume "i < length (take (buffer_writer.bit_count b) (byte_bits (bwr_wr b)))"
    then have i: "i < buffer_writer.bit_count b" "i < 8 * length (bwr_wr b)" by simp_all
    then have "byte_bits (bwr_wr b) ! i = buffer_writer.wbit (bwr_wr b) i"
      by (auto simp: byte_bits_def bm_bit_def buffer_writer.wbit_def)
    then show "take (buffer_writer.bit_count b) (byte_bits (bwr_wr b)) ! i = buffer_writer.bits b ! i"
      using assms(1) i by (simp add: buffer_writer.flushed_def)
  qed (use assms in simp)
  then show ?thesis by (metis append_take_drop_id)
qed

lemma flushed_bytes:
  assumes "buffer_writer.flushed b" "buffer_writer.bit_count b = 8 * len" "len \<le> length (bwr_wr b)"
  shows "byte_bits (take len (bwr_wr b)) = buffer_writer.bits b"
proof -
  have "byte_bits (take len (bwr_wr b)) = take (8 * len) (byte_bits (bwr_wr b))"
    using byte_bits_append [of "take len (bwr_wr b)" "drop len (bwr_wr b)"] assms(3) by simp
  also have "\<dots> = buffer_writer.bits b"
    using arg_cong [OF flushed_prefix [OF assms(1)], of "take (8 * len)"] assms(2,3) by simp
  finally show ?thesis .
qed

lemma NewBitWriter_view: "buffer_writer.inv (NewBitWriter buf)" "buffer_writer.bits (NewBitWriter buf) = []"
  "buffer_writer.bit_count (NewBitWriter buf) = 0" "bwr_wr (NewBitWriter buf) = buf"
  by (simp_all add: buffer_writer.inv_def NewBitWriter_def buffer_writer.bits_def buffer_writer.bit_count_def)

section \<open>Properties\<close>

text \<open>C3: Bit packing round trip. Values that fit in \<open>w\<close> bits, written by \<^verbatim>\<open>WriteValues\<close> and
  flushed into a buffer that is large enough, are what \<^verbatim>\<open>GetBatch\<close> of a new reader over that
  buffer delivers, for every width up to 64.\<close>

theorem bit_packing_round_trip:
  assumes w: "w \<le> 64" and vs: "list_all (fits_width w) vs" and room: "w * length vs \<le> 8 * length buf"
  shows "\<exists>b1 b2 rd. BitWriter_WriteValues WriterAtBuffer (NewBitWriter buf) vs w = Some (b1, None) \<and>
    BitWriter_Flush WriterAtBuffer b1 False = Some b2 \<and>
    BitReader_GetBatch (NewBitReader (bwr_wr b2)) w (replicate (length vs) 0) = Some (rd, vs, length vs, None)"
proof -
  have fit: "\<not> bit v i" if "v \<in> set vs" "w \<le> i" for v i using vs that by (auto simp: list_all_iff fits_width_bit)
  have "w * length vs div 8 \<le> length buf" using room by linarith
  with buffer_writer.WriteValues_bits [OF NewBitWriter_view(1) [of buf] w fit] obtain b1 where
    b1: "BitWriter_WriteValues WriterAtBuffer (NewBitWriter buf) vs w = Some (b1, None)" "buffer_writer.inv b1"
      "length (bwr_wr b1) = length buf" "buffer_writer.bits b1 = packed_bits w vs"
    by (auto simp: NewBitWriter_view dest!: fits_length)
  have count: "buffer_writer.bit_count b1 = w * length vs" using arg_cong [OF b1(4), of length] by simp
  with buffer_writer.Flush_bits [OF b1(2), of False] room b1(3,4) obtain b2 where
    b2: "BitWriter_Flush WriterAtBuffer b1 False = Some b2" "buffer_writer.flushed b2"
      "length (bwr_wr b2) = length buf" "buffer_writer.bits b2 = packed_bits w vs"
    by (auto simp: BytesForBits_le_iff dest!: fits_length)
  have "buffer_writer.bit_count b2 = w * length vs" using arg_cong [OF b2(4), of length] by simp
  with flushed_prefix [OF b2(2)] b2(3,4) room have
    "drop 0 (byte_bits (bwr_wr b2)) = packed_bits w vs @ drop (w * length vs) (byte_bits (bwr_wr b2))" by simp
  from packed_value [OF this] vs have "map (\<lambda>k. value_at (bwr_wr b2) (w * k) w) [0..<length vs] = vs"
    by (intro nth_equalityI) (auto simp: list_all_length)
  with GetBatch_ok [OF reading_New w, of "replicate (length vs) 0" "bwr_wr b2"] b1(1) b2(1,3) room show ?thesis by auto
qed

theorem bit_packing_round_trip_witness:
  "\<exists>b1 b2 rd. BitWriter_WriteValues WriterAtBuffer (NewBitWriter [0, 0, 0]) [5, 31, 7] 5 = Some (b1, None) \<and>
    BitWriter_Flush WriterAtBuffer b1 False = Some b2 \<and>
    BitReader_GetBatch (NewBitReader (bwr_wr b2)) 5 [0, 0, 0] = Some (rd, [5, 31, 7], 3, None)"
  using bit_packing_round_trip [of 5 "[5, 31, 7]" "[0, 0, 0]"] by (simp add: fits_width_def numeral_3_eq_3)

lemma WriteVlqInt_bytes:
  assumes "10 \<le> length buf"
  shows "\<exists>b rest. BitWriter_WriteVlqInt WriterAtBuffer (NewBitWriter buf) v = Some (b, True) \<and>
    bwr_wr b = PutUvarint v @ rest"
proof -
  have "length (PutUvarint v) \<le> length buf" using assms length_PutUvarint_le [of v] by linarith
  with buffer_writer.WriteVlqInt_bits [OF NewBitWriter_view(1) [of buf], of v] obtain b where
    b: "BitWriter_WriteVlqInt WriterAtBuffer (NewBitWriter buf) v = Some (b, True)" "bwr_bitoffset b = 0"
      "length (bwr_wr b) = length buf" "buffer_writer.bits b = byte_bits (PutUvarint v)"
    by (auto simp: NewBitWriter_view BytesForBits_eq pad8_def dest!: fits_length)
  have "buffer_writer.bit_count b = 8 * length (PutUvarint v)" using arg_cong [OF b(4), of length] by simp
  with flushed_prefix [OF buffer_writer.flushed_aligned [OF b(2)]] b(3,4) \<open>length (PutUvarint v) \<le> length buf\<close>
  have "byte_bits (bwr_wr b) = byte_bits (PutUvarint v) @ drop (8 * length (PutUvarint v)) (byte_bits (bwr_wr b))" by simp
  from byte_bits_split(1) [OF this] b(1) show ?thesis by blast
qed

text \<open>C14: Variable-length integers round trip: what \<^verbatim>\<open>WriteVlqInt\<close> wrote for any 64-bit value,
  \<^verbatim>\<open>GetVlqInt\<close> reads, and likewise for \<^verbatim>\<open>WriteZigZagVlqInt\<close> and
  \<^verbatim>\<open>GetZigZagVlqInt\<close>; ten bytes are always enough.\<close>

theorem vlq_round_trip:
  assumes "10 \<le> length buf"
  shows "(\<exists>b rd. BitWriter_WriteVlqInt WriterAtBuffer (NewBitWriter buf) v = Some (b, True) \<and>
      BitReader_GetVlqInt (NewBitReader (bwr_wr b)) = (rd, v, True)) \<and>
    (\<exists>b rd. BitWriter_WriteZigZagVlqInt WriterAtBuffer (NewBitWriter buf) v = Some (b, True) \<and>
      BitReader_GetZigZagVlqInt (NewBitReader (bwr_wr b)) = (rd, v, True))"
proof -
  have *: "\<exists>b rd. BitWriter_WriteVlqInt WriterAtBuffer (NewBitWriter buf) u = Some (b, True) \<and>
      BitReader_GetVlqInt (NewBitReader (bwr_wr b)) = (rd, u, True)" for u
  proof -
    from WriteVlqInt_bytes [OF assms, of u] obtain b rest where
      b: "BitWriter_WriteVlqInt WriterAtBuffer (NewBitWriter buf) u = Some (b, True)" "bwr_wr b = PutUvarint u @ rest" by blast
    from GetVlqInt_ok [OF reading_New, of "bwr_wr b" u rest] b show ?thesis by (auto simp: BytesForBits_eq)
  qed
  from *[of v] *[of "zigzag_encode v"] show ?thesis
    by (auto simp: BitWriter_WriteZigZagVlqInt_def BitReader_GetZigZagVlqInt_def zigzag_decode_encode)
qed

theorem vlq_round_trip_witness:
  "(\<exists>b rd. BitWriter_WriteVlqInt WriterAtBuffer (NewBitWriter (replicate 10 0)) 300 = Some (b, True) \<and>
      BitReader_GetVlqInt (NewBitReader (bwr_wr b)) = (rd, 300, True)) \<and>
    (\<exists>b rd. BitWriter_WriteZigZagVlqInt WriterAtBuffer (NewBitWriter (replicate 10 0)) 300 = Some (b, True) \<and>
      BitReader_GetZigZagVlqInt (NewBitReader (bwr_wr b)) = (rd, 300, True))"
  by (rule vlq_round_trip) simp

text \<open>C15: \<^verbatim>\<open>BitReader.GetBatch\<close>, from any position of the reader: with enough input left it fills
  the slice with the next packed values, whichever of its value-by-value and bulk paths it takes, and
  moves past exactly their bits.\<close>

theorem BitReader_GetBatch_reads:
  assumes "reading s p b" "bits \<le> 64" "p + bits * length out \<le> 8 * length s"
  shows "\<exists>b'. BitReader_GetBatch b bits out =
      Some (b', map (\<lambda>k. value_at s (p + bits * k) bits) [0..<length out], length out, None) \<and>
    reading s (p + bits * length out) b'"
  by (rule GetBatch_ok [OF assms])

theorem BitReader_GetBatch_reads_witness:
  "\<exists>b'. BitReader_GetBatch (NewBitReader [0xE4]) 2 [9, 9, 9] = Some (b', [0, 1, 2], 3, None) \<and> reading [0xE4] 6 b'"
proof -
  have "map (\<lambda>k. value_at [0xE4] (0 + 2 * k) 2) [0..<length [9, 9, 9 :: u64]] = [0, 1, 2 :: u64]" "length [9, 9, 9 :: u64] = 3"
    by code_simp+
  with BitReader_GetBatch_reads [OF reading_New, of 2 "[9, 9, 9]" "[0xE4]"] show ?thesis
    by (simp only:) simp
qed

text \<open>C16: \<^verbatim>\<open>BitReader.GetBatchIndex\<close>, the dictionary-index variant with its own scalar path, reads the
  same packed values, for widths up to 32.\<close>

theorem BitReader_GetBatchIndex_reads:
  assumes "reading s p b" "bits \<le> 32" "p + bits * length out \<le> 8 * length s"
  shows "\<exists>b'. BitReader_GetBatchIndex b bits out =
      Some (b', map (\<lambda>k. value_at s (p + bits * k) bits) [0..<length out], length out, None) \<and>
    reading s (p + bits * length out) b'"
  by (rule GetBatchIndex_ok [OF assms])

theorem BitReader_GetBatchIndex_reads_witness:
  "\<exists>b'. BitReader_GetBatchIndex (NewBitReader [0xE4]) 2 [9, 9, 9] = Some (b', [0, 1, 2], 3, None) \<and> reading [0xE4] 6 b'"
proof -
  have "map (\<lambda>k. value_at [0xE4] (0 + 2 * k) 2) [0..<length [9, 9, 9 :: u32]] = [0, 1, 2 :: u32]" "length [9, 9, 9 :: u32] = 3"
    by code_simp+
  with BitReader_GetBatchIndex_reads [OF reading_New, of 2 "[9, 9, 9]" "[0xE4]"] show ?thesis
    by (simp only:) simp
qed

text \<open>C17: \<^verbatim>\<open>BitReader.GetBatchLevels\<close> reads packed levels and returns, besides their number, how many
  of them equal the maximum level.\<close>

theorem BitReader_GetBatchLevels_reads:
  assumes "reading s p b" "bits \<le> 16" "p + bits * length out \<le> 8 * length s"
  shows "\<exists>b' levels. BitReader_GetBatchLevels b bits out maxLevel =
      Some (b', levels, length out, length (filter (\<lambda>l. l = maxLevel) levels), None) \<and>
    levels = map (\<lambda>k. value_at s (p + bits * k) bits) [0..<length out] \<and> reading s (p + bits * length out) b'"
  using GetBatchLevels_ok [OF assms, of maxLevel] hits_map [of maxLevel "\<lambda>k. value_at s (p + bits * k) bits" 0 "length out"]
  by auto

theorem BitReader_GetBatchLevels_reads_witness:
  "\<exists>b' levels. BitReader_GetBatchLevels (NewBitReader [0xE4]) 1 [9, 9, 9] 1 =
      Some (b', levels, 3, length (filter (\<lambda>l. l = 1) levels), None) \<and>
    levels = map (\<lambda>k. value_at [0xE4] (0 + 1 * k) 1) [0..<3] \<and> reading [0xE4] 3 b'"
  using BitReader_GetBatchLevels_reads [OF reading_New, of 1 "[9, 9, 9]" "[0xE4]" 1] by (simp add: numeral_3_eq_3)

text \<open>The one-bit readers: \<^verbatim>\<open>GetBatchBools\<close> delivers the next bits as booleans, and
  \<^verbatim>\<open>GetBatchBitmap\<close> copies them into a bitmap at any offset and preserves its other bits.\<close>

theorem BitReader_bits_read:
  assumes "reading s p b" "p + length out \<le> 8 * length s" "p + n \<le> 8 * length s" "q + n \<le> 8 * length bm"
  shows "(\<exists>b'. BitReader_GetBatchBools b out = (b', map (\<lambda>k. bm_bit s (p + k)) [0..<length out], length out, None) \<and>
      reading s (p + length out) b') \<and>
    (\<exists>b' bm'. BitReader_GetBatchBitmap b bm q n = Some (b', bm', n, None) \<and>
      bm_writes bm q n (\<lambda>k. bm_bit s (p + k)) bm' \<and> reading s (p + n) b')"
  using GetBatchBools_ok [OF assms(1,2)] GetBatchBitmap_ok [OF assms(1,3,4)] by blast

theorem BitReader_bits_read_witness:
  "(\<exists>b'. BitReader_GetBatchBools (NewBitReader [0xE4]) [True, True] =
      (b', map (\<lambda>k. bm_bit [0xE4] (0 + k)) [0..<length [True, True]], length [True, True], None) \<and>
      reading [0xE4] (0 + length [True, True]) b') \<and>
    (\<exists>b' bm'. BitReader_GetBatchBitmap (NewBitReader [0xE4]) [255, 255] 5 7 = Some (b', bm', 7, None) \<and>
      bm_writes [255, 255] 5 7 (\<lambda>k. bm_bit [0xE4] (0 + k)) bm' \<and> reading [0xE4] (0 + 7) b')"
  by (rule BitReader_bits_read [OF reading_New]) simp_all

text \<open>Reading past the end is an error: with fewer than the wanted bits left, \<^verbatim>\<open>next\<close> delivers 0
  and \<^verbatim>\<open>io.ErrUnexpectedEOF\<close>, never bits beyond the input.\<close>

theorem BitReader_next_past_end:
  assumes "reading s p b" "buffered b" "p \<le> 8 * length s" "0 < bits" "bits \<le> 64" "8 * length s < p + bits"
  shows "\<exists>b'. BitReader_next b bits = (b', 0, Some ErrUnexpectedEOF)"
  by (rule next_short [OF assms])

theorem BitReader_next_past_end_witness:
  "\<exists>b'. BitReader_next (fst (fillbuffer (NewBitReader [255, 1]))) 17 = (b', 0, Some ErrUnexpectedEOF)"
proof -
  from fillbuffer_reading [of "NewBitReader [255, 1]" "[255, 1]" 0] obtain b where
    b: "fillbuffer (NewBitReader [255, 1]) = (b, None)" "reading [255, 1] 0 b" "buffered b"
    by (auto simp: NewBitReader_def)
  from BitReader_next_past_end [OF b(2,3), of 17] b(1) show ?thesis by simp
qed

end
