(* ===== verification/Rle_Decoder.thy ===== *)
theory Rle_Decoder
  imports Rle_Encoder Bit_Codec
begin

unbundle bit_operations_syntax

text \<open>
  \<^verbatim>\<open>parquet/internal/utils/rle.go\<close>: the decoder of the hybrid of run-length encoding and bit
  packing. Its counters are \<^verbatim>\<open>int32\<close> in the source; \<^verbatim>\<open>Next\<close> only stores values
  between 1 and the maximum, and the other methods subtract at most what is there, so they are
  natural numbers here. A method that fills a slice takes it and returns its new contents.
\<close>

section \<open>The source\<close>

record RleDecoder =
  dec_r :: BitReader
  dec_bitWidth :: nat
  dec_curVal :: u64
  dec_repCount :: nat
  dec_litCount :: nat

definition NewRleDecoder :: "byte list \<Rightarrow> nat \<Rightarrow> RleDecoder" where
  "NewRleDecoder data width = \<lparr>dec_r = NewBitReader data, dec_bitWidth = width, dec_curVal = 0,
     dec_repCount = 0, dec_litCount = 0\<rparr>"

definition RleDecoder_Reset :: "RleDecoder \<Rightarrow> byte list \<Rightarrow> nat \<Rightarrow> RleDecoder" where
  "RleDecoder_Reset r data width = r\<lparr>dec_bitWidth := width, dec_curVal := 0, dec_repCount := 0, dec_litCount := 0,
     dec_r := BitReader_Reset (dec_r r) data\<rparr>"

text \<open>The \<^verbatim>\<open>switch\<close> of \<^verbatim>\<open>Next\<close> that reads the repeated value.\<close>

definition read_repeated :: "RleDecoder \<Rightarrow> nat \<Rightarrow> RleDecoder \<times> bool" where
  "read_repeated r nbytes =
     (if nbytes > 4 then
        let (b, val, ok) = getAlignedUint64 (dec_r r) nbytes (dec_curVal r)
        in (r\<lparr>dec_r := b, dec_curVal := val\<rparr>, ok)
      else if nbytes > 2 then
        let (b, val, ok) = getAlignedUint32 (dec_r r) nbytes 0; r = r\<lparr>dec_r := b\<rparr>
        in if \<not> ok then (r, False) else (r\<lparr>dec_curVal := ucast val\<rparr>, True)
      else if nbytes > 1 then
        let (b, val, ok) = getAlignedUint16 (dec_r r) nbytes 0; r = r\<lparr>dec_r := b\<rparr>
        in if \<not> ok then (r, False) else (r\<lparr>dec_curVal := ucast val\<rparr>, True)
      else
        let (b, val, ok) = getAlignedUint8 (dec_r r) nbytes 0; r = r\<lparr>dec_r := b\<rparr>
        in if \<not> ok then (r, False) else (r\<lparr>dec_curVal := ucast val\<rparr>, True))"

definition RleDecoder_Next :: "RleDecoder \<Rightarrow> RleDecoder \<times> bool" where
  "RleDecoder_Next r =
     (let (b, indicator, ok) = BitReader_GetVlqInt (dec_r r); r = r\<lparr>dec_r := b\<rparr>
      in if \<not> ok then (r, False)
         else let literal = (indicator AND 1 \<noteq> 0); count = (ucast (drop_bit 1 indicator) :: u32)
           in if literal then
                (if count = 0 \<or> count > 2147483647 div 8 then (r, False)
                 else (r\<lparr>dec_litCount := unat count * 8\<rparr>, True))
              else
                (if count = 0 \<or> count > 2147483647 then (r, False)
                 else read_repeated (r\<lparr>dec_repCount := unat count\<rparr>) (BytesForBits (dec_bitWidth r))))"

lemma read_repeated_counts:
  "read_repeated r n = (r', ok) \<Longrightarrow>
    dec_repCount r' = dec_repCount r \<and> dec_litCount r' = dec_litCount r \<and> dec_bitWidth r' = dec_bitWidth r"
  by (auto simp: read_repeated_def Let_def split: prod.splits if_splits)

text \<open>A successful \<^verbatim>\<open>Next\<close> leaves something to deliver: the loops below end.\<close>

lemma Next_progress: "RleDecoder_Next r = (r', True) \<Longrightarrow> 0 < dec_repCount r' \<or> 0 < dec_litCount r'"
  by (auto simp: RleDecoder_Next_def Let_def unat_gt_0 unat_eq_0 split: prod.splits if_splits dest!: read_repeated_counts)

abbreviation idle :: "RleDecoder \<Rightarrow> nat" where
  "idle r \<equiv> (if dec_repCount r = 0 \<and> dec_litCount r = 0 then 1 else 0)"

function dec_discard_loop :: "RleDecoder \<Rightarrow> nat \<Rightarrow> nat \<Rightarrow> RleDecoder \<times> nat" where
  "dec_discard_loop r n read =
     (if read < n then
        let remain = n - read
        in if dec_repCount r > 0 then
             let repbatch = min remain (dec_repCount r)
             in dec_discard_loop (r\<lparr>dec_repCount := dec_repCount r - repbatch\<rparr>) n (read + repbatch)
           else if dec_litCount r > 0 then
             let litbatch = min remain (dec_litCount r)
             in case BitReader_Discard (dec_r r) (dec_bitWidth r) litbatch of (b, m, err) \<Rightarrow>
               let r = r\<lparr>dec_r := b\<rparr>
               in if m \<noteq> litbatch then (r, read)
                  else dec_discard_loop (r\<lparr>dec_litCount := dec_litCount r - litbatch\<rparr>) n (read + litbatch)
           else case RleDecoder_Next r of (r, ok) \<Rightarrow>
             if \<not> ok then (r, read) else dec_discard_loop r n read
      else (r, read))"
  by pat_completeness auto
termination
  by (relation "measure (\<lambda>(r, n, read). 2 * (n - read) + idle r)")
    (auto dest!: Next_progress [OF sym] split: if_splits)

declare dec_discard_loop.simps [simp del]

definition RleDecoder_Discard :: "RleDecoder \<Rightarrow> nat \<Rightarrow> RleDecoder \<times> nat" where
  "RleDecoder_Discard r n = dec_discard_loop r n 0"

function dec_batch_loop :: "RleDecoder \<Rightarrow> u64 list \<Rightarrow> nat \<Rightarrow> (RleDecoder \<times> u64 list \<times> nat \<times> goerr option) option" where
  "dec_batch_loop r values read =
     (if read < length values then
        let remain = length values - read
        in if dec_repCount r > 0 then
             let repbatch = min remain (dec_repCount r)
             in dec_batch_loop (r\<lparr>dec_repCount := dec_repCount r - repbatch\<rparr>)
                  (blit values read (replicate repbatch (dec_curVal r))) (read + repbatch)
           else if dec_litCount r > 0 then
             let litbatch = min remain (dec_litCount r)
             in case BitReader_GetBatch (dec_r r) (dec_bitWidth r) (take litbatch (drop read values)) of
                 None \<Rightarrow> None
               | Some (b, out, n, err) \<Rightarrow>
                   let r = r\<lparr>dec_r := b, dec_litCount := dec_litCount r - n\<rparr>; values = blit values read out
                   in if err \<noteq> None then Some (r, values, read + n, err)
                      else if n \<noteq> litbatch then Some (r, values, read + n, None)
                      else dec_batch_loop r values (read + n)
           else case RleDecoder_Next r of (r, ok) \<Rightarrow>
             if \<not> ok then Some (r, values, read, None) else dec_batch_loop r values read
      else Some (r, values, read, None))"
  by pat_completeness auto
termination
  by (relation "measure (\<lambda>(r, values, read). 2 * (length values - read) + idle r)")
    (auto dest!: Next_progress [OF sym] split: if_splits)

declare dec_batch_loop.simps [simp del]

definition RleDecoder_GetBatch :: "RleDecoder \<Rightarrow> u64 list \<Rightarrow> (RleDecoder \<times> u64 list \<times> nat \<times> goerr option) option" where
  "RleDecoder_GetBatch r values = dec_batch_loop r values 0"

definition RleDecoder_GetValue :: "RleDecoder \<Rightarrow> (RleDecoder \<times> u64 \<times> bool) option" where
  "RleDecoder_GetValue r =
     do { (r, vals, n, err) \<leftarrow> RleDecoder_GetBatch r [0]; Some (r, vals ! 0, n = 1) }"

function dec_levels_loop ::
  "RleDecoder \<Rightarrow> u16 list \<Rightarrow> u16 \<Rightarrow> nat \<Rightarrow> nat \<Rightarrow> (RleDecoder \<times> u16 list \<times> nat \<times> nat \<times> goerr option) option" where
  "dec_levels_loop r values maxLevel read maxCount =
     (if read < length values then
        let remain = length values - read
        in if dec_repCount r > 0 then
             let repbatch = min remain (dec_repCount r); level = ucast (dec_curVal r);
                 maxCount = (if level = maxLevel then maxCount + repbatch else maxCount)
             in dec_levels_loop (r\<lparr>dec_repCount := dec_repCount r - repbatch\<rparr>)
                  (blit values read (replicate repbatch level)) maxLevel (read + repbatch) maxCount
           else if dec_litCount r > 0 then
             let litbatch = min remain (dec_litCount r)
             in case BitReader_GetBatchLevels (dec_r r) (dec_bitWidth r) (take litbatch (drop read values)) maxLevel of
                 None \<Rightarrow> None
               | Some (b, out, n, count, err) \<Rightarrow>
                   let r = r\<lparr>dec_r := b, dec_litCount := dec_litCount r - n\<rparr>; values = blit values read out
                   in if err \<noteq> None then Some (r, values, read + n, maxCount + count, err)
                      else if n \<noteq> litbatch then Some (r, values, read + n, maxCount + count, None)
                      else dec_levels_loop r values maxLevel (read + n) (maxCount + count)
           else case RleDecoder_Next r of (r, ok) \<Rightarrow>
             if \<not> ok then Some (r, values, read, maxCount, None) else dec_levels_loop r values maxLevel read maxCount
      else Some (r, values, read, maxCount, None))"
  by pat_completeness auto
termination
  by (relation "measure (\<lambda>(r, values, _, read, _). 2 * (length values - read) + idle r)")
    (auto dest!: Next_progress [OF sym] split: if_splits)

declare dec_levels_loop.simps [simp del]

definition RleDecoder_GetBatchLevels ::
  "RleDecoder \<Rightarrow> u16 list \<Rightarrow> u16 \<Rightarrow> (RleDecoder \<times> u16 list \<times> nat \<times> nat \<times> goerr option) option" where
  "RleDecoder_GetBatchLevels r values maxLevel = dec_levels_loop r values maxLevel 0 0"

function dec_bitmap_loop ::
  "RleDecoder \<Rightarrow> byte list \<Rightarrow> nat \<Rightarrow> nat \<Rightarrow> nat \<Rightarrow> (RleDecoder \<times> byte list \<times> nat \<times> goerr option) option" where
  "dec_bitmap_loop r out outOffset sz read =
     (if read < sz then
        let remain = sz - read
        in if dec_repCount r > 0 then
             let repbatch = min remain (dec_repCount r)
             in case SetBitsTo out (outOffset + read) repbatch (dec_curVal r \<noteq> 0) of
                 None \<Rightarrow> None
               | Some out \<Rightarrow>
                   dec_bitmap_loop (r\<lparr>dec_repCount := dec_repCount r - repbatch\<rparr>) out outOffset sz (read + repbatch)
           else if dec_litCount r > 0 then
             let litbatch = min remain (dec_litCount r)
             in case BitReader_GetBatchBitmap (dec_r r) out (outOffset + read) litbatch of
                 None \<Rightarrow> None
               | Some (b, out, n, err) \<Rightarrow>
                   let r = r\<lparr>dec_r := b, dec_litCount := dec_litCount r - n\<rparr>
                   in if err \<noteq> None then Some (r, out, read + n, err)
                      else if n \<noteq> litbatch then Some (r, out, read + n, None)
                      else dec_bitmap_loop r out outOffset sz (read + n)
           else case RleDecoder_Next r of (r, ok) \<Rightarrow>
             if \<not> ok then Some (r, out, read, None) else dec_bitmap_loop r out outOffset sz read
      else Some (r, out, read, None))"
  by pat_completeness auto
termination
  by (relation "measure (\<lambda>(r, _, _, sz, read). 2 * (sz - read) + idle r)")
    (auto dest!: Next_progress [OF sym] split: if_splits)

declare dec_bitmap_loop.simps [simp del]

definition RleDecoder_GetBatchBitmap ::
  "RleDecoder \<Rightarrow> byte list \<Rightarrow> nat \<Rightarrow> nat \<Rightarrow> (RleDecoder \<times> byte list \<times> nat \<times> goerr option) option" where
  "RleDecoder_GetBatchBitmap r out outOffset sz =
     (if dec_bitWidth r \<noteq> 1 then Some (r, out, 0, Some (Errorf ''bitmap decoding requires a bit width of 1''))
      else dec_bitmap_loop r out outOffset sz 0)"

section \<open>The decoder as a view of the encoded runs\<close>

text \<open>\<open>decodes w s rest d vs\<close>: \<open>d\<close> will deliver the values \<open>vs\<close>, the rest of the current run
  and the runs that follow it in \<open>s\<close>; the bits \<open>rest\<close> come after them.\<close>

definition decodes :: "nat \<Rightarrow> byte list \<Rightarrow> bool list \<Rightarrow> RleDecoder \<Rightarrow> u64 list \<Rightarrow> bool" where
  "decodes w s rest d vs \<longleftrightarrow> dec_bitWidth d = w \<and>
     (\<exists>p lits runs. reading s p (dec_r d) \<and> list_all (run_ok w) runs \<and> list_all (fits_width w) lits \<and>
       length lits = dec_litCount d \<and> (lits = [] \<or> dec_repCount d = 0) \<and>
       (0 < dec_repCount d \<longrightarrow> fits_width w (dec_curVal d)) \<and>
       (lits \<noteq> [] \<longrightarrow> (p + w * length lits) mod 8 = 0) \<and>
       drop (if lits = [] then 8 * BytesForBits p else p) (byte_bits s) =
         packed_bits w lits @ runs_bits w runs @ rest \<and>
       vs = replicate (dec_repCount d) (dec_curVal d) @ lits @ runs_values runs)"

lemma decodes_New:
  "list_all (run_ok w) runs \<Longrightarrow> byte_bits s = runs_bits w runs @ rest \<Longrightarrow>
    decodes w s rest (NewRleDecoder s w) (runs_values runs)"
  unfolding decodes_def
  by (auto simp: NewRleDecoder_def BytesForBits_eq packed_bits_def intro!: exI [of _ 0] exI [of _ "[]"] exI [of _ runs] reading_New)

lemma decodes_Reset:
  "list_all (run_ok w) runs \<Longrightarrow> byte_bits s = runs_bits w runs @ rest \<Longrightarrow> length (br_raw (dec_r d)) = 8 \<Longrightarrow>
    decodes w s rest (RleDecoder_Reset d s w) (runs_values runs)"
  unfolding decodes_def
  by (auto simp: RleDecoder_Reset_def BytesForBits_eq packed_bits_def intro!: exI [of _ 0] exI [of _ "[]"] exI [of _ runs] reading_Reset)

lemma decodes_rep:
  assumes "decodes w s rest d vs" "0 < dec_repCount d" "k \<le> dec_repCount d"
  shows "decodes w s rest (d\<lparr>dec_repCount := dec_repCount d - k\<rparr>) (drop k vs)"
    "take k vs = replicate k (dec_curVal d)" "k \<le> length vs" "fits_width w (dec_curVal d)"
  using assms by (fastforce simp: decodes_def)+

lemma decodes_lit:
  assumes d: "decodes w s rest d vs" and rep: "dec_repCount d = 0" and k: "0 < k" "k \<le> dec_litCount d"
    and w: "0 < w"
  shows "\<exists>p. reading s p (dec_r d) \<and> p + w * k \<le> 8 * length s \<and> k \<le> length vs \<and> list_all (fits_width w) (take k vs) \<and>
    take k vs = map (\<lambda>i. value_at s (p + w * i) w) [0..<k] \<and>
    (\<forall>b. reading s (p + w * k) b \<longrightarrow> decodes w s rest (d\<lparr>dec_r := b, dec_litCount := dec_litCount d - k\<rparr>) (drop k vs))"
proof -
  from d rep k obtain p lits runs where 1: "dec_bitWidth d = w" "reading s p (dec_r d)" "list_all (run_ok w) runs"
    "list_all (fits_width w) lits" "length lits = dec_litCount d" "lits \<noteq> []" "(p + w * length lits) mod 8 = 0"
    "drop p (byte_bits s) = packed_bits w lits @ runs_bits w runs @ rest" "vs = lits @ runs_values runs"
    unfolding decodes_def by (auto split: if_splits)
  have lits: "lits = take k lits @ drop k lits" "k \<le> length lits" using 1(5) k by simp_all
  have len: "length (packed_bits w (take k lits)) = w * k" using lits(2) by simp
  have at: "drop (p + w * k) (byte_bits s) = packed_bits w (drop k lits) @ runs_bits w runs @ rest"
  proof -
    have "drop (w * k) (drop p (byte_bits s)) = drop (w * k) (packed_bits w (take k lits) @ packed_bits w (drop k lits) @ runs_bits w runs @ rest)"
      using lits(1) 1(8) by (metis packed_bits_append append.assoc)
    then show ?thesis using len min_absorb2 [OF lits(2)] by (simp add: add.commute)
  qed
  have "0 < w * length lits" using w 1(6) by simp
  moreover have "w * k \<le> w * length lits" using lits(2) by (rule mult_le_mono2)
  moreover have "8 * length s - p = w * length lits + (length (runs_bits w runs) + length rest)"
    using arg_cong [OF 1(8), of length] by simp
  ultimately have pk: "p + w * k \<le> 8 * length s" by linarith
  have "take k vs = map (\<lambda>i. value_at s (p + w * i) w) [0..<k]"
    by (rule nth_equalityI) (use 1 lits(2) in \<open>auto simp: packed_value [OF 1(8)] list_all_length nth_append\<close>)
  moreover have "decodes w s rest (d\<lparr>dec_r := b, dec_litCount := dec_litCount d - k\<rparr>) (drop k vs)"
    if b: "reading s (p + w * k) b" for b
  proof -
    have mod: "(p + w * k + w * length (drop k lits)) mod 8 = 0"
      using 1(7) lits(2) by (simp add: diff_mult_distrib2)
    have al: "8 * BytesForBits (p + w * k) = p + w * k" if "drop k lits = []"
      using mod that by (simp only: list.size mult_0_right add_0_right) (auto simp: BytesForBits_eq)
    have fit: "list_all (fits_width w) (drop k lits)" using 1(4) by (auto simp: list_all_iff dest: in_set_dropD)
    show ?thesis
      unfolding decodes_def
      by (intro conjI exI [of _ "p + w * k"] exI [of _ "drop k lits"] exI [of _ runs])
        (use 1 b rep mod al at lits(2) fit in \<open>auto simp del: drop_drop\<close>)
  qed
  moreover have "k \<le> length vs" "list_all (fits_width w) (take k vs)" using 1 lits(2) by (auto simp: list_all_iff dest: in_set_takeD)
  ultimately show ?thesis using 1(2) pk by blast
qed

lemma read_repeated_ok:
  assumes b: "reading s (8 * q) (dec_r d)" and w: "0 < w" "w \<le> 64" and v: "fits_width w v"
    and at: "drop q s = take (BytesForBits w) (bytes_of_word 8 v) @ rest"
  shows "\<exists>b'. read_repeated d (BytesForBits w) = (d\<lparr>dec_r := b', dec_curVal := v\<rparr>, True) \<and>
    reading s (8 * (q + BytesForBits w)) b'"
proof -
  define n where "n = BytesForBits w"
  have n: "0 < n" "n \<le> 8" "w \<le> 8 * n" using w unfolding n_def BytesForBits_eq by linarith+
  have le: "q + n \<le> length s" using arg_cong [OF at, of length] n(1,2) by (simp flip: n_def)
  have eq: "value_at s (8 * q) (8 * n) = v"
  proof (rule bit_word_eqI)
    fix i assume "i < LENGTH(64)"
    have "bm_bit s (8 * q + i) = bit v i" if "i < 8 * n"
    proof -
      have "bm_bit s (8 * q + i) = bm_bit (drop q s) i" by (simp add: bm_simps)
      also have "\<dots> = bit v i" using that n(2) by (simp add: at bm_bit_append bm_bit_take bm_bit_bytes_of_word flip: n_def)
      finally show ?thesis .
    qed
    then show "bit (value_at s (8 * q) (8 * n) :: u64) i = bit v i"
      using fits_width_bit [OF v, of i] n(3) \<open>i < LENGTH(64)\<close> by (cases "i < 8 * n") (auto simp: bit_value_at)
  qed
  consider "4 < n" | "2 < n" "n \<le> 4" | "1 < n" "n \<le> 2" | "n = 1" using n by linarith
  then show ?thesis
  proof cases
    case 1
    then show ?thesis using getAlignedUint64_ok [OF b n(2), of "dec_curVal d"] le eq by (auto simp: read_repeated_def simp flip: n_def)
  next
    case 2
    then show ?thesis using getAlignedUint32_ok [OF b 2(2), of 0] le eq ucast_value_at [where 'a = 32 and 'b = 64, of "8 * n" s "8 * q"]
      by (auto simp: read_repeated_def simp flip: n_def)
  next
    case 3
    then show ?thesis using getAlignedUint16_ok [OF b 3(2), of 0] le eq ucast_value_at [where 'a = 16 and 'b = 64, of "8 * n" s "8 * q"]
      by (auto simp: read_repeated_def simp flip: n_def)
  next
    case 4
    have "bit (s ! q) i \<longleftrightarrow> i < 8 \<and> bm_bit s (8 * q + i)" for i
      using 4 le bit_imp_le_length [of "s ! q" i] by (cases "i < 8") (auto simp: bm_bit_def)
    then have "ucast (s ! q) = v"
      unfolding eq [symmetric] using 4 by (intro bit_word_eqI) (auto simp: bit_value_at bit_simps)
    then show ?thesis using getAlignedUint8_ok [OF b, of 0] le 4 by (auto simp: read_repeated_def simp flip: n_def)
  qed
qed

lemma indicator_count:
  assumes "n < 2 ^ 31" "k \<le> 1"
  shows "unat (ucast (drop_bit 1 (of_nat (2 * n + k) :: u64)) :: u32) = n"
proof -
  have "unat (of_nat (2 * n + k) :: u64) = 2 * n + k"
    using assms by (simp only: unsigned_of_nat) (simp add: take_bit_nat_eq_self)
  then have "unat (drop_bit 1 (of_nat (2 * n + k) :: u64)) = n"
    using assms(2) by (simp only: unat_drop_bit_eq) (simp add: drop_bit_eq_div)
  then show ?thesis using assms(1) by (simp add: unsigned_ucast_eq take_bit_nat_eq_self)
qed

lemma indicator_kind: "k \<le> 1 \<Longrightarrow> of_nat (2 * n + k) AND 1 = (of_nat k :: u64)"
  by (rule bit_word_eqI) (cases k; auto simp: bit_simps bit_of_nat_iff bit_0)

lemma Next_rep:
  assumes b: "reading s p (dec_r d)" and d: "dec_bitWidth d = w" "dec_litCount d = 0" and w: "0 < w" "w \<le> 64"
    and ok: "run_ok w (Rep n v)" and at: "byte_bits (drop (BytesForBits p) s) = run_bits w (Rep n v) @ r"
  shows "\<exists>b' q. RleDecoder_Next d = (d\<lparr>dec_repCount := n, dec_r := b', dec_curVal := v\<rparr>, True) \<and>
    reading s (8 * q) b' \<and> byte_bits (drop q s) = r"
proof -
  define i :: u64 where "i = of_nat (2 * n)"
  let ?t = "take (BytesForBits w) (bytes_of_word 8 v)"
  define q where "q = BytesForBits p + length (PutUvarint i)"
  have n: "0 < n" "n < 2 ^ 31" "fits_width w v" using ok by simp_all
  have 1: "drop (BytesForBits p) s = PutUvarint i @ drop q s" "byte_bits (drop q s) = byte_bits ?t @ r"
    using byte_bits_split [OF at [unfolded run_bits.simps append.assoc, folded i_def]]
    by (simp_all add: q_def add.commute)
  have 2: "drop q s = ?t @ drop (q + length ?t) s" "r = byte_bits (drop (q + length ?t) s)"
    using byte_bits_split [OF 1(2)] by (auto simp: add.commute)
  have t: "length ?t = BytesForBits w" using w by (simp add: BytesForBits_le_iff)
  from GetVlqInt_ok [OF b 1(1)] obtain b1 where b1: "BitReader_GetVlqInt (dec_r d) = (b1, i, True)"
    "reading s (8 * q) b1" by (auto simp: q_def)
  from read_repeated_ok [of s q "d\<lparr>dec_r := b1, dec_repCount := n\<rparr>" w v] b1(2) w n(3) 2(1) obtain b2 where
    b2: "read_repeated (d\<lparr>dec_r := b1, dec_repCount := n\<rparr>) (BytesForBits w) =
      (d\<lparr>dec_repCount := n, dec_r := b2, dec_curVal := v\<rparr>, True)" "reading s (8 * (q + BytesForBits w)) b2" by auto
  have count: "unat (ucast (drop_bit 1 i) :: u32) = n" and even: "i AND 1 = 0"
    using indicator_count [of n 0] indicator_kind [of 0 n] n(2) by (simp_all add: i_def)
  have guard: "ucast (drop_bit 1 i) \<noteq> (0 :: u32)" "\<not> 2147483647 < (ucast (drop_bit 1 i) :: u32)"
    using count n(1,2) by (auto simp: word_less_nat_alt)
  have "RleDecoder_Next d = (d\<lparr>dec_repCount := n, dec_r := b2, dec_curVal := v\<rparr>, True)"
    using b1(1) b2(1) n d by (simp add: RleDecoder_Next_def Let_def even count [unfolded One_nat_def] guard [unfolded One_nat_def])
  then show ?thesis
    using b2(2) 2(2) [unfolded t] by (intro exI [of _ b2] exI [of _ "q + BytesForBits w"]) simp
qed

lemma Next_lit:
  assumes b: "reading s p (dec_r d)" and ok: "run_ok w (Lit vs)"
    and at: "byte_bits (drop (BytesForBits p) s) = run_bits w (Lit vs) @ r"
  shows "\<exists>b' q. RleDecoder_Next d = (d\<lparr>dec_r := b', dec_litCount := length vs\<rparr>, True) \<and>
    reading s (8 * q) b' \<and> byte_bits (drop q s) = packed_bits w vs @ r"
proof -
  define g where "g = length vs div 8"
  have g: "1 \<le> g" "g \<le> 268435455" "length vs = g * 8" using ok by (auto simp: g_def)
  define i :: u64 where "i = of_nat (2 * g + 1)"
  define q where "q = BytesForBits p + length (PutUvarint i)"
  have count: "unat (ucast (drop_bit 1 i) :: u32) = g" and odd: "i AND 1 = 1"
    using indicator_count [of g 1] indicator_kind [of 1 g] g(2) by (simp_all add: i_def)
  have 1: "drop (BytesForBits p) s = PutUvarint i @ drop q s" "byte_bits (drop q s) = packed_bits w vs @ r"
    using byte_bits_split [OF at [unfolded run_bits.simps append.assoc, folded g_def, folded i_def]] by (simp_all add: q_def add.commute)
  from GetVlqInt_ok [OF b 1(1)] obtain b1 where b1: "BitReader_GetVlqInt (dec_r d) = (b1, i, True)"
    "reading s (8 * q) b1" by (auto simp: q_def)
  have guard: "ucast (drop_bit 1 i) \<noteq> (0 :: u32)" "\<not> 268435455 < (ucast (drop_bit 1 i) :: u32)"
    using count g(1,2) by (auto simp: word_less_nat_alt)
  have "RleDecoder_Next d = (d\<lparr>dec_r := b1, dec_litCount := length vs\<rparr>, True)"
    using b1(1) g by (simp add: RleDecoder_Next_def Let_def odd count [unfolded One_nat_def] guard [unfolded One_nat_def])
  then show ?thesis using b1(2) 1(2) by blast
qed

lemma decodes_next:
  assumes d: "decodes w s rest d vs" and idle: "dec_repCount d = 0" "dec_litCount d = 0" and vs: "vs \<noteq> []" and w: "0 < w" "w \<le> 64"
  shows "\<exists>d'. RleDecoder_Next d = (d', True) \<and> decodes w s rest d' vs \<and> idle d' = 0"
proof -
  from d idle obtain p runs where 1: "reading s p (dec_r d)" "list_all (run_ok w) runs" "dec_bitWidth d = w"
    "byte_bits (drop (BytesForBits p) s) = runs_bits w runs @ rest" "vs = runs_values runs"
    by (auto simp: decodes_def byte_bits_drop packed_bits_def)
  obtain x xs where runs: "runs = x # xs" using vs 1(5) by (cases runs) auto
  have ok: "run_ok w x" "list_all (run_ok w) xs" using 1(2) runs by simp_all
  have at: "byte_bits (drop (BytesForBits p) s) = run_bits w x @ runs_bits w xs @ rest"
    and vs': "vs = run_values x @ runs_values xs" using 1(4,5) runs by (simp_all add: runs_bits_def runs_values_def)
  show ?thesis
  proof (cases x)
    case (Rep n v)
    from Next_rep [OF 1(1,3) idle(2) w _ at [unfolded Rep]] ok(1) Rep obtain b' q where
      2: "RleDecoder_Next d = (d\<lparr>dec_repCount := n, dec_r := b', dec_curVal := v\<rparr>, True)"
        "reading s (8 * q) b'" "byte_bits (drop q s) = runs_bits w xs @ rest" by auto
    have "decodes w s rest (d\<lparr>dec_repCount := n, dec_r := b', dec_curVal := v\<rparr>) vs"
      unfolding decodes_def using 1(3) 2(2,3) ok Rep vs' idle
      by (intro conjI exI [of _ "8 * q"] exI [of _ "[]"] exI [of _ xs]) (auto simp: byte_bits_drop packed_bits_def)
    then show ?thesis using 2(1) ok(1) Rep by auto
  next
    case (Lit ls)
    from Next_lit [OF 1(1) _ at [unfolded Lit]] ok(1) Lit obtain b' q where
      2: "RleDecoder_Next d = (d\<lparr>dec_r := b', dec_litCount := length ls\<rparr>, True)"
        "reading s (8 * q) b'" "byte_bits (drop q s) = packed_bits w ls @ runs_bits w xs @ rest" by auto
    have "(8 * q + w * length ls) mod 8 = 0" using ok(1) Lit by auto
    moreover have "ls \<noteq> []" using ok(1) Lit by auto
    ultimately have "decodes w s rest (d\<lparr>dec_r := b', dec_litCount := length ls\<rparr>) vs"
      unfolding decodes_def using 1(3) 2(2,3) ok Lit vs' idle
      by (intro conjI exI [of _ "8 * q"] exI [of _ ls] exI [of _ xs]) (auto simp: byte_bits_drop)
    then show ?thesis using 2(1) \<open>ls \<noteq> []\<close> by auto
  qed
qed

lemma decodes_end:
  assumes d: "decodes w s [] d []" and idle: "dec_repCount d = 0" "dec_litCount d = 0"
  shows "\<exists>d'. RleDecoder_Next d = (d', False)"
proof -
  from d idle obtain p runs where 1: "reading s p (dec_r d)" "byte_bits (drop (BytesForBits p) s) = runs_bits w runs"
    "runs_values runs = []" "list_all (run_ok w) runs"
    by (auto simp: decodes_def byte_bits_drop packed_bits_def)
  have "runs = []"
  proof (cases runs)
    case (Cons x xs)
    then show ?thesis using 1(3,4) by (cases x) (auto simp: runs_values_def)
  qed
  then have "length s \<le> BytesForBits p" using arg_cong [OF 1(2), of length] by simp
  from GetVlqInt_eof [OF 1(1) this] show ?thesis by (auto simp: RleDecoder_Next_def)
qed

text \<open>The scheme of the four loops: \<open>n\<close> values are wanted; each round takes from the current
  run or moves to the next. Where nothing follows the runs, more may be wanted than there is.\<close>

lemma decode_induct [consumes 4, case_names enough rep lit run eof]:
  assumes "decodes w s rest d vs" "n \<le> length vs \<or> rest = []" "0 < w" "w \<le> 64"
    and enough: "\<And>d vs. decodes w s rest d vs \<Longrightarrow> P d vs 0"
    and rep: "\<And>d vs n k. decodes w s rest d vs \<Longrightarrow> 0 < n \<Longrightarrow> 0 < dec_repCount d \<Longrightarrow> k = min n (dec_repCount d) \<Longrightarrow>
      k \<le> length vs \<Longrightarrow> take k vs = replicate k (dec_curVal d) \<Longrightarrow> fits_width w (dec_curVal d) \<Longrightarrow>
      P (d\<lparr>dec_repCount := dec_repCount d - k\<rparr>) (drop k vs) (n - k) \<Longrightarrow> P d vs n"
    and lit: "\<And>d vs n k p. decodes w s rest d vs \<Longrightarrow> 0 < n \<Longrightarrow> dec_repCount d = 0 \<Longrightarrow> 0 < dec_litCount d \<Longrightarrow>
      k = min n (dec_litCount d) \<Longrightarrow> k \<le> length vs \<Longrightarrow> reading s p (dec_r d) \<Longrightarrow> p + w * k \<le> 8 * length s \<Longrightarrow>
      list_all (fits_width w) (take k vs) \<Longrightarrow> take k vs = map (\<lambda>i. value_at s (p + w * i) w) [0..<k] \<Longrightarrow>
      (\<And>b. reading s (p + w * k) b \<Longrightarrow>
        P (d\<lparr>dec_r := b, dec_litCount := dec_litCount d - k\<rparr>) (drop k vs) (n - k)) \<Longrightarrow> P d vs n"
    and run: "\<And>d vs n d'. 0 < n \<Longrightarrow> dec_repCount d = 0 \<Longrightarrow> dec_litCount d = 0 \<Longrightarrow> RleDecoder_Next d = (d', True) \<Longrightarrow>
      P d' vs n \<Longrightarrow> P d vs n"
    and eof: "\<And>d d' n. 0 < n \<Longrightarrow> dec_repCount d = 0 \<Longrightarrow> dec_litCount d = 0 \<Longrightarrow> RleDecoder_Next d = (d', False) \<Longrightarrow> P d [] n"
  shows "P d vs n"
  using assms(1,2)
proof (induction "2 * n + idle d" arbitrary: d vs n rule: less_induct)
  case less
  note IH = less.hyps and d = less.prems(1)
  consider "n = 0" | (rep) "0 < n" "0 < dec_repCount d" | (lit) "0 < n" "dec_repCount d = 0" "0 < dec_litCount d"
    | (run) "0 < n" "dec_repCount d = 0" "dec_litCount d = 0" by blast
  then show ?case
  proof cases
    case 1
    then show ?thesis using enough d by simp
  next
    case rep
    define k where "k = min n (dec_repCount d)"
    have "P (d\<lparr>dec_repCount := dec_repCount d - k\<rparr>) (drop k vs) (n - k)"
      by (rule IH) (use rep less.prems(2) decodes_rep(1,3) [OF d rep(2), of k] in \<open>auto simp: k_def\<close>)
    then show ?thesis
      using assms(6) [OF d rep k_def] decodes_rep [OF d rep(2), of k] by (simp add: k_def)
  next
    case lit
    define k where "k = min n (dec_litCount d)"
    from decodes_lit [OF d lit(2), of k] lit assms(3) obtain p where
      1: "reading s p (dec_r d)" "p + w * k \<le> 8 * length s" "k \<le> length vs" "list_all (fits_width w) (take k vs)"
        "take k vs = map (\<lambda>i. value_at s (p + w * i) w) [0..<k]"
        "\<And>b. reading s (p + w * k) b \<Longrightarrow> decodes w s rest (d\<lparr>dec_r := b, dec_litCount := dec_litCount d - k\<rparr>) (drop k vs)"
      by (auto simp: k_def)
    have "P (d\<lparr>dec_r := b, dec_litCount := dec_litCount d - k\<rparr>) (drop k vs) (n - k)" if "reading s (p + w * k) b" for b
      by (rule IH) (use lit less.prems(2) 1(3) 1(6) [OF that] in \<open>auto simp: k_def\<close>)
    with assms(7) [OF d lit k_def 1(3,1,2,4,5)] show ?thesis by blast
  next
    case run
    show ?thesis
    proof (cases "vs = []")
      case True
      then show ?thesis using decodes_end [of w s d] d less.prems(2) run assms(9) by auto
    next
      case False
      from decodes_next [OF d run(2,3) False assms(3,4)] obtain d' where
        d': "RleDecoder_Next d = (d', True)" "decodes w s rest d' vs" "idle d' = 0" by blast
      have "P d' vs n" by (rule IH) (use d'(2,3) run less.prems(2) in auto)
      with assms(8) [OF run d'(1)] show ?thesis .
    qed
  qed
qed

lemma blit_deliver:
  assumes "k \<le> n" "k \<le> length vs" "read + k \<le> length out"
  shows "take (read + k) (blit out read (take k vs)) @ take (n - k) (drop k vs) @
      drop (read + k + length (drop k vs)) (blit out read (take k vs)) =
    take read out @ take n vs @ drop (read + length vs) out"
proof -
  have "take k vs @ take (n - k) (drop k vs) @ xs = take n vs @ xs" for xs
    using assms(1) by (metis take_add le_add_diff_inverse append.assoc)
  moreover have "blit out read (take k vs) = take read out @ take k vs @ drop (read + k) out"
  proof -
    have "min (length out - read) k = k" "min (length vs) k = k" using assms by simp_all
    then show ?thesis by (simp add: blit_def)
  qed
  ultimately show ?thesis using assms by (simp add: min_absorb2 add.commute)
qed

lemma deliver_count:
  fixes k :: nat
  assumes "k \<le> n" "k \<le> m"
  shows "read + k + min (n - k) (m - k) = read + min n m" "n - k \<le> m - k \<longleftrightarrow> n \<le> m" "n - k + k = n"
    "k + min (n - k) (m - k) = min n m"
  using assms by linarith+

lemma dec_batch_loop_ok:
  assumes "decodes w s rest d vs" "n \<le> length vs \<or> rest = []" "0 < w" "w \<le> 64" "read + n = length out"
  shows "\<exists>d'. dec_batch_loop d out read =
      Some (d', take read out @ take n vs @ drop (read + length vs) out, read + min n (length vs), None) \<and>
    (n \<le> length vs \<longrightarrow> decodes w s rest d' (drop n vs))"
  using assms
proof (induction d vs n arbitrary: out read rule: decode_induct)
  case (enough d vs)
  then show ?case by (simp add: dec_batch_loop.simps)
next
  case (rep d vs n k)
  have n: "length out - read = n" and k: "k \<le> n" "read + k \<le> length out" using rep.hyps(4) rep.prems by simp_all
  have *: "dec_batch_loop d out read = dec_batch_loop (d\<lparr>dec_repCount := dec_repCount d - k\<rparr>)
      (blit out read (take k vs)) (read + k)"
    using rep.hyps rep.prems by (subst dec_batch_loop.simps) (simp add: Let_def n)
  have "read + k + (n - k) = length (blit out read (take k vs))" using rep.prems k by simp
  from rep.IH [OF this, unfolded blit_deliver [OF k(1) rep.hyps(5) k(2)]] show ?case
    by (simp add: * deliver_count [OF k(1) rep.hyps(5)])
next
  case (lit d vs n k p)
  have n: "length out - read = n" and k: "k \<le> n" "read + k \<le> length out" using lit.hyps(5) lit.prems by simp_all
  have w: "dec_bitWidth d = w" using lit.hyps(1) by (simp add: decodes_def)
  from GetBatch_ok [OF lit.hyps(7) assms(4), of "take k (drop read out)"] lit.hyps(8,10) k obtain b where
    b: "BitReader_GetBatch (dec_r d) w (take k (drop read out)) = Some (b, take k vs, k, None)" "reading s (p + w * k) b"
    by auto
  have *: "dec_batch_loop d out read = dec_batch_loop (d\<lparr>dec_r := b, dec_litCount := dec_litCount d - k\<rparr>)
      (blit out read (take k vs)) (read + k)"
    using lit.hyps(1-6) lit.prems b(1) w by (subst dec_batch_loop.simps) (simp add: Let_def n)
  have "read + k + (n - k) = length (blit out read (take k vs))" using lit.prems k by simp
  from lit.IH [OF b(2) this, unfolded blit_deliver [OF k(1) lit.hyps(6) k(2)]] show ?case
    by (simp add: * deliver_count [OF k(1) lit.hyps(6)])
next
  case (run d vs n d')
  then show ?case by (subst dec_batch_loop.simps) simp
next
  case (eof d d' n)
  then show ?case by (subst dec_batch_loop.simps) simp
qed

lemma dec_discard_loop_ok:
  assumes "decodes w s rest d vs" "m \<le> length vs \<or> rest = []" "0 < w" "w \<le> 64" "read + m = n"
  shows "\<exists>d'. dec_discard_loop d n read = (d', read + min m (length vs)) \<and>
    (m \<le> length vs \<longrightarrow> decodes w s rest d' (drop m vs))"
  using assms
proof (induction d vs m arbitrary: read rule: decode_induct)
  case (enough d vs)
  then show ?case by (simp add: dec_discard_loop.simps)
next
  case (rep d vs m k)
  have m: "n - read = m" and k: "k \<le> m" using rep.hyps(4) rep.prems by auto
  have *: "dec_discard_loop d n read = dec_discard_loop (d\<lparr>dec_repCount := dec_repCount d - k\<rparr>) n (read + k)"
    using rep.hyps rep.prems by (subst dec_discard_loop.simps) (simp add: Let_def m)
  have "read + k + (m - k) = n" using rep.prems k by simp
  from rep.IH [OF this] show ?case by (simp add: * deliver_count [OF k rep.hyps(5)])
next
  case (lit d vs m k p)
  have m: "n - read = m" and k: "k \<le> m" using lit.hyps(5) lit.prems by auto
  have w: "dec_bitWidth d = w" using lit.hyps(1) by (simp add: decodes_def)
  from Discard_ok [OF lit.hyps(7) assms(4) lit.hyps(8)] obtain b where
    b: "BitReader_Discard (dec_r d) w k = (b, k, None)" "reading s (p + w * k) b" by blast
  have *: "dec_discard_loop d n read = dec_discard_loop (d\<lparr>dec_r := b, dec_litCount := dec_litCount d - k\<rparr>) n (read + k)"
    using lit.hyps(1-6) lit.prems b(1) w by (subst dec_discard_loop.simps) (simp add: Let_def m)
  have "read + k + (m - k) = n" using lit.prems k by simp
  from lit.IH [OF b(2) this] show ?case by (simp add: * deliver_count [OF k lit.hyps(6)])
next
  case (run d vs m d')
  then show ?case by (subst dec_discard_loop.simps) simp
next
  case (eof d d' m)
  then show ?case by (subst dec_discard_loop.simps) simp
qed

lemma count_list_split:
  assumes "k \<le> n"
  shows "count_list (map f (take k vs)) x + count_list (map f (take (n - k) (drop k vs))) x = count_list (map f (take n vs)) x"
proof -
  have "take n vs = take k vs @ take (n - k) (drop k vs)" using assms by (metis take_add le_add_diff_inverse)
  then show ?thesis by simp
qed

lemma count_list_replicate_eq: "count_list (replicate k x) y = (if x = y then k else 0)"
  by (induction k) auto

lemma hits_count_list: "hits f m 0 n = count_list (map f [0..<n]) m"
  by (induction n) (simp_all add: hits_def)

lemma dec_levels_loop_ok:
  assumes "decodes w s rest d vs" "n \<le> length vs \<or> rest = []" "0 < w" "w \<le> 16" "read + n = length out"
  shows "\<exists>d'. dec_levels_loop d out m read c =
      Some (d', take read out @ take n (map ucast vs) @ drop (read + length vs) out, read + min n (length vs),
        c + count_list (map ucast (take n vs)) m, None) \<and>
    (n \<le> length vs \<longrightarrow> decodes w s rest d' (drop n vs))"
proof -
  have "w \<le> 64" using assms(4) by simp
  note assms(1-3) this assms(5)
  then show ?thesis
  proof (induction d vs n arbitrary: out read c rule: decode_induct)
    case (enough d vs)
    then show ?case by (simp add: dec_levels_loop.simps)
  next
    case (rep d vs n k)
    let ?vs = "map ucast vs :: u16 list"
    have n: "length out - read = n" and k: "k \<le> n" "read + k \<le> length out" and kv: "k \<le> length ?vs"
      using rep.hyps(4,5) rep.prems by auto
    have tk: "take k ?vs = replicate k (ucast (dec_curVal d))" by (simp add: take_map rep.hyps(6))
    have *: "dec_levels_loop d out m read c = dec_levels_loop (d\<lparr>dec_repCount := dec_repCount d - k\<rparr>)
        (blit out read (take k ?vs)) m (read + k) (c + count_list (map ucast (take k vs)) m)"
      using rep.hyps(2,3) rep.prems
      by (subst dec_levels_loop.simps) (simp add: Let_def n tk rep.hyps(6) count_list_replicate_eq flip: rep.hyps(4))
    have "read + k + (n - k) = length (blit out read (take k ?vs))" using rep.prems k by simp
    from rep.IH [OF this, of "c + count_list (map ucast (take k vs)) m"]
    show ?case using blit_deliver [OF k(1) kv k(2)]
      by (simp add: * deliver_count [OF k(1) rep.hyps(5)] count_list_split [OF k(1)] drop_map add.assoc)
  next
    case (lit d vs n k p)
    let ?vs = "map ucast vs :: u16 list"
    have n: "length out - read = n" and k: "k \<le> n" "read + k \<le> length out" and kv: "k \<le> length ?vs"
      using lit.hyps(5,6) lit.prems by auto
    have w: "dec_bitWidth d = w" using lit.hyps(1) by (simp add: decodes_def)
    have tk: "take k ?vs = map (\<lambda>i. value_at s (p + w * i) w) [0..<k]"
      unfolding take_map lit.hyps(10) map_map comp_def using assms(4) by (simp add: ucast_value_at)
    from GetBatchLevels_ok [OF lit.hyps(7) assms(4), of "take k (drop read out)" m] lit.hyps(8) k tk obtain b where
      b: "BitReader_GetBatchLevels (dec_r d) w (take k (drop read out)) m =
        Some (b, take k ?vs, k, count_list (map ucast (take k vs)) m, None)" "reading s (p + w * k) b"
      by (auto simp: hits_count_list take_map)
    have *: "dec_levels_loop d out m read c = dec_levels_loop (d\<lparr>dec_r := b, dec_litCount := dec_litCount d - k\<rparr>)
        (blit out read (take k ?vs)) m (read + k) (c + count_list (map ucast (take k vs)) m)"
      using lit.hyps(1-6) lit.prems b(1) w by (subst dec_levels_loop.simps) (simp add: Let_def n)
    have "read + k + (n - k) = length (blit out read (take k ?vs))" using lit.prems k by simp
    from lit.IH [OF b(2) this, of "c + count_list (map ucast (take k vs)) m"]
    show ?case using blit_deliver [OF k(1) kv k(2)]
      by (simp add: * deliver_count [OF k(1) lit.hyps(6)] count_list_split [OF k(1)] drop_map add.assoc)
  next
    case (run d vs n d')
    then show ?case by (subst dec_levels_loop.simps) simp
  next
    case (eof d d' n)
    then show ?case by (subst dec_levels_loop.simps) simp
  qed
qed

lemma value_at_1: "value_at s p 1 \<noteq> (0 :: 'a::len word) \<longleftrightarrow> bm_bit s p"
  by (simp add: value_at_def)

text \<open>One round of \<^verbatim>\<open>GetBatchBitmap\<close> and the rounds after it.\<close>

lemma bitmap_rounds:
  assumes k: "k \<le> n" "k \<le> length vs" and o1: "bm_writes out q k (\<lambda>i. vs ! i \<noteq> 0) o1"
    and o2: "bm_writes o1 (q + k) (min (n - k) (length vs - k)) (\<lambda>i. drop k vs ! i \<noteq> 0) o2"
  shows "bm_writes out q (min n (length vs)) (\<lambda>i. vs ! i \<noteq> 0) o2"
proof -
  have "bm_writes o1 (q + k) (min (n - k) (length vs - k)) (\<lambda>i. vs ! (k + i) \<noteq> 0) o2"
    using o2 by (rule bm_writes_cong) (use k in simp)
  from bm_writes_trans [OF o1 this] show ?thesis using deliver_count(1) [OF k, of 0] by simp
qed

lemma dec_bitmap_loop_ok:
  assumes "decodes 1 s rest d vs" "n \<le> length vs \<or> rest = []" "read + n = sz" "q + sz \<le> 8 * length out"
  shows "\<exists>d' out'. dec_bitmap_loop d out q sz read = Some (d', out', read + min n (length vs), None) \<and>
    bm_writes out (q + read) (min n (length vs)) (\<lambda>i. vs ! i \<noteq> 0) out' \<and>
    (n \<le> length vs \<longrightarrow> decodes 1 s rest d' (drop n vs))"
proof -
  have "0 < (1 :: nat)" "1 \<le> (64 :: nat)" by simp_all
  note assms(1,2) this assms(3,4)
  then show ?thesis
  proof (induction d vs n arbitrary: out read rule: decode_induct)
    case (enough d vs)
    then show ?case by (simp add: dec_bitmap_loop.simps)
  next
    case (rep d vs n k)
    have n: "sz - read = n" and k: "k \<le> n" "q + read + k \<le> 8 * length out" using rep.hyps(4) rep.prems by auto
    have v: "vs ! i = dec_curVal d" if "i < k" for i using nth_take [OF that, of vs] that by (simp add: rep.hyps(6))
    from SetBitsTo_eq [OF k(2), of "dec_curVal d \<noteq> 0"] obtain o1 where
      1: "SetBitsTo out (q + read) k (dec_curVal d \<noteq> 0) = Some o1" "bm_writes out (q + read) k (\<lambda>_. dec_curVal d \<noteq> 0) o1"
      by (auto simp: bm_writes_def)
    have o1: "bm_writes out (q + read) k (\<lambda>i. vs ! i \<noteq> 0) o1" using 1(2) by (rule bm_writes_cong) (simp add: v)
    have *: "dec_bitmap_loop d out q sz read = dec_bitmap_loop (d\<lparr>dec_repCount := dec_repCount d - k\<rparr>) o1 q sz (read + k)"
      using rep.hyps rep.prems 1(1) by (subst dec_bitmap_loop.simps) (simp add: Let_def n)
    have "read + k + (n - k) = sz" "q + sz \<le> 8 * length o1" using rep.prems k bm_writes_length [OF o1] by simp_all
    from rep.IH [OF this] obtain d' o2 where
      2: "dec_bitmap_loop (d\<lparr>dec_repCount := dec_repCount d - k\<rparr>) o1 q sz (read + k) =
          Some (d', o2, read + min n (length vs), None)"
        "bm_writes o1 (q + read + k) (min (n - k) (length vs - k)) (\<lambda>i. drop k vs ! i \<noteq> 0) o2"
        "n \<le> length vs \<longrightarrow> decodes 1 s rest d' (drop n vs)"
      by (auto simp: deliver_count [OF k(1) rep.hyps(5)] add.assoc)
    show ?case using bitmap_rounds [OF k(1) rep.hyps(5) o1 2(2)] 2(1,3) by (simp add: *)
  next
    case (lit d vs n k p)
    have n: "sz - read = n" and k: "k \<le> n" "q + read + k \<le> 8 * length out" using lit.hyps(5) lit.prems by auto
    have v: "vs ! i \<noteq> 0 \<longleftrightarrow> bm_bit s (p + i)" if "i < k" for i
      using nth_take [OF that, of vs, symmetric] that by (simp add: lit.hyps(10) value_at_1 [unfolded One_nat_def])
    from GetBatchBitmap_ok [OF lit.hyps(7) _ k(2)] lit.hyps(8) obtain b o1 where
      o1: "BitReader_GetBatchBitmap (dec_r d) out (q + read) k = Some (b, o1, k, None)"
        "bm_writes out (q + read) k (\<lambda>i. bm_bit s (p + i)) o1" "reading s (p + 1 * k) b" by auto
    have w1: "bm_writes out (q + read) k (\<lambda>i. vs ! i \<noteq> 0) o1" using o1(2) by (rule bm_writes_cong) (simp add: v)
    have *: "dec_bitmap_loop d out q sz read =
        dec_bitmap_loop (d\<lparr>dec_r := b, dec_litCount := dec_litCount d - k\<rparr>) o1 q sz (read + k)"
      using lit.hyps(1-6) lit.prems o1(1) by (subst dec_bitmap_loop.simps) (simp add: Let_def n)
    have "read + k + (n - k) = sz" "q + sz \<le> 8 * length o1" using lit.prems k bm_writes_length [OF w1] by simp_all
    from lit.IH [OF o1(3) this] obtain d' o2 where
      2: "dec_bitmap_loop (d\<lparr>dec_r := b, dec_litCount := dec_litCount d - k\<rparr>) o1 q sz (read + k) =
          Some (d', o2, read + min n (length vs), None)"
        "bm_writes o1 (q + read + k) (min (n - k) (length vs - k)) (\<lambda>i. drop k vs ! i \<noteq> 0) o2"
        "n \<le> length vs \<longrightarrow> decodes 1 s rest d' (drop n vs)"
      by (auto simp: deliver_count [OF k(1) lit.hyps(6)] add.assoc)
    show ?case using bitmap_rounds [OF k(1) lit.hyps(6) w1 2(2)] 2(1,3) by (simp add: *)
  next
    case (run d vs n d')
    then show ?case by (subst dec_bitmap_loop.simps) simp
  next
    case (eof d d' n)
    then show ?case by (subst dec_bitmap_loop.simps) simp
  qed
qed

lemma RleGetBatch_ok:
  assumes "decodes w s rest d vs" "length out \<le> length vs \<or> rest = []" "0 < w" "w \<le> 64"
  shows "\<exists>d'. RleDecoder_GetBatch d out =
      Some (d', take (length out) vs @ drop (length vs) out, min (length out) (length vs), None) \<and>
    (length out \<le> length vs \<longrightarrow> decodes w s rest d' (drop (length out) vs))"
  using dec_batch_loop_ok [OF assms, of 0 out] by (simp add: RleDecoder_GetBatch_def)

lemma RleDiscard_ok:
  assumes "decodes w s rest d vs" "n \<le> length vs \<or> rest = []" "0 < w" "w \<le> 64"
  shows "\<exists>d'. RleDecoder_Discard d n = (d', min n (length vs)) \<and>
    (n \<le> length vs \<longrightarrow> decodes w s rest d' (drop n vs))"
  using dec_discard_loop_ok [OF assms, of 0 n] by (simp add: RleDecoder_Discard_def)

lemma RleGetBatchLevels_ok:
  assumes "decodes w s rest d vs" "length out \<le> length vs \<or> rest = []" "0 < w" "w \<le> 16"
  shows "\<exists>d'. RleDecoder_GetBatchLevels d out m =
      Some (d', take (length out) (map ucast vs) @ drop (length vs) out, min (length out) (length vs),
        count_list (map ucast (take (length out) vs)) m, None) \<and>
    (length out \<le> length vs \<longrightarrow> decodes w s rest d' (drop (length out) vs))"
  using dec_levels_loop_ok [OF assms, of 0 out m 0] by (simp add: RleDecoder_GetBatchLevels_def)

lemma RleGetBatchBitmap_ok:
  assumes "decodes 1 s rest d vs" "n \<le> length vs \<or> rest = []" "q + n \<le> 8 * length out"
  shows "\<exists>d' out'. RleDecoder_GetBatchBitmap d out q n = Some (d', out', min n (length vs), None) \<and>
    bm_writes out q (min n (length vs)) (\<lambda>i. vs ! i \<noteq> 0) out' \<and>
    (n \<le> length vs \<longrightarrow> decodes 1 s rest d' (drop n vs))"
  using dec_bitmap_loop_ok [OF assms(1,2) _ assms(3), of 0] assms(1) by (simp add: RleDecoder_GetBatchBitmap_def decodes_def)

end
