(* ===== verification/Rle_Codec.thy ===== *)
theory Rle_Codec
  imports Rle_Encoder_Batch Rle_Decoder
begin

text \<open>
  The encoder and the decoder of \<^verbatim>\<open>parquet/internal/utils/rle.go\<close> together, over the
  \<^verbatim>\<open>WriterAtBuffer\<close>: whatever sequence of calls filled the encoder, the bytes that
  \<^verbatim>\<open>Flush\<close> reports decode to the values put, and they are no more than
  \<^verbatim>\<open>MaxRLEBufferSize\<close>.
\<close>

section \<open>Sizes\<close>

lemma MaxRLEBufferSize_eq: "MaxRLEBufferSize w m = (1 + w) * BytesForBits m"
proof -
  have "1 + BytesForBits w \<le> 1 + w" unfolding BytesForBits_eq by linarith
  then have "BytesForBits m * (1 + BytesForBits w) \<le> BytesForBits m * (1 + w)" by (rule mult_le_mono2)
  moreover have "BytesForBits m + BytesForBits m * w = BytesForBits m * (1 + w)" by simp
  ultimately have "MaxRLEBufferSize w m = BytesForBits m * (1 + w)" unfolding MaxRLEBufferSize_def Let_def by linarith
  then show ?thesis by (simp add: mult.commute)
qed

lemma MaxRLEBufferSize_groups: "MaxRLEBufferSize w m \<le> n \<Longrightarrow> (1 + w) * (m div 8) \<le> n"
  unfolding MaxRLEBufferSize_eq by (erule le_trans [rotated]) (intro mult_le_mono2, simp add: BytesForBits_eq div_le_mono)

lemma MaxRLEBufferSize_mono: "k \<le> m \<Longrightarrow> MaxRLEBufferSize w k \<le> MaxRLEBufferSize w m"
  unfolding MaxRLEBufferSize_eq BytesForBits_eq by (intro mult_le_mono2 div_le_mono) simp

section \<open>The bytes written\<close>

text \<open>\<open>encodes w s vs\<close>: the bytes \<open>s\<close> are an encoding of \<open>vs\<close> at width \<open>w\<close>.\<close>

definition encodes :: "nat \<Rightarrow> byte list \<Rightarrow> u64 list \<Rightarrow> bool" where
  "encodes w s vs \<longleftrightarrow> (\<exists>runs. list_all (run_ok w) runs \<and> byte_bits s = runs_bits w runs \<and> runs_values runs = vs)"

lemma encodes_New: "encodes w s vs \<Longrightarrow> decodes w s [] (NewRleDecoder s w) vs"
  unfolding encodes_def using decodes_New [of w _ s "[]"] by auto

lemma encodes_Reset: "encodes w s vs \<Longrightarrow> length (br_raw (dec_r d)) = 8 \<Longrightarrow> decodes w s [] (RleDecoder_Reset d s w) vs"
  unfolding encodes_def using decodes_Reset [of w _ s "[]"] by auto

lemma Flush_encodes:
  assumes inv: "buffer_writer.enc_inv n w r vs" and n: "MaxRLEBufferSize w (length vs) \<le> n"
  shows "\<exists>r' len k. RleEncoder_Flush WriterAtBuffer r = Some (r', len) \<and> len \<le> n \<and>
    len \<le> length (bwr_wr (enc_w r')) \<and> k < 8 \<and> encodes w (take len (bwr_wr (enc_w r'))) (vs @ replicate k 0)"
proof -
  from buffer_writer.RleFlush_ok [OF inv n [unfolded MaxRLEBufferSize_eq]] obtain r' runs k len where
    1: "RleEncoder_Flush WriterAtBuffer r = Some (r', len)" "buffer_writer.closed w r' runs"
      "buffer_writer.flushed (enc_w r')" "buffer_writer.bits (enc_w r') = runs_bits w runs"
      "runs_values runs = vs @ replicate k 0" "k < 8" "length (runs_bits w runs) = 8 * len" "len \<le> n"
      "buffer_writer.room r' n" by blast
  have len: "len \<le> length (bwr_wr (enc_w r'))" using 1(8,9) by (simp add: buffer_writer.room_def)
  have "buffer_writer.bit_count (enc_w r') = 8 * len" using arg_cong [OF 1(4), of length] 1(7) by simp
  from flushed_bytes [OF 1(3) this len] have "byte_bits (take len (bwr_wr (enc_w r'))) = runs_bits w runs"
    using 1(4) by simp
  moreover have "list_all (run_ok w) runs" using 1(2) by (auto simp: buffer_writer.closed_def buffer_writer.written_def)
  ultimately have "encodes w (take len (bwr_wr (enc_w r'))) (vs @ replicate k 0)"
    unfolding encodes_def using 1(5) by blast
  then show ?thesis using 1(1,6,8) len by blast
qed

section \<open>Sequences of calls\<close>

text \<open>\<open>encoder_calls n w r vs\<close>: the encoder \<open>r\<close>, over a buffer of at least \<open>n\<close> bytes, is the result
  of a sequence of calls, and \<open>vs\<close> are the values put since the last \<^verbatim>\<open>Clear\<close>. The values
  fit the width, the buffer is large enough for them, and there are fewer than \<open>2 ^ 31\<close>.\<close>

inductive encoder_calls :: "nat \<Rightarrow> nat \<Rightarrow> byte list RleEncoder \<Rightarrow> u64 list \<Rightarrow> bool" for n w where
  new: "n \<le> length buf \<Longrightarrow> encoder_calls n w (NewRleEncoder buf w) []"
| put: "encoder_calls n w r vs \<Longrightarrow> fits_width w v \<Longrightarrow> MaxRLEBufferSize w (length (vs @ [v])) \<le> n \<Longrightarrow>
    length (vs @ [v]) < 2 ^ 31 \<Longrightarrow> RleEncoder_Put WriterAtBuffer r v = Some (r', None) \<Longrightarrow> encoder_calls n w r' (vs @ [v])"
| put_levels: "encoder_calls n w r vs \<Longrightarrow> list_all (\<lambda>x. fits_width w (scast x :: u64)) xs \<Longrightarrow>
    MaxRLEBufferSize w (length (vs @ map scast xs)) \<le> n \<Longrightarrow>
    RleEncoder_PutBatchLevels WriterAtBuffer r xs = Some (r', k, None) \<Longrightarrow> encoder_calls n w r' (vs @ map scast xs)"
| put_indices: "encoder_calls n w r vs \<Longrightarrow> list_all (\<lambda>x. fits_width w (scast x :: u64)) ys \<Longrightarrow>
    MaxRLEBufferSize w (length (vs @ map scast ys)) \<le> n \<Longrightarrow>
    RleEncoder_PutBatchIndices WriterAtBuffer r ys = Some (r', k, None) \<Longrightarrow> encoder_calls n w r' (vs @ map scast ys)"
| clear: "encoder_calls n w r vs \<Longrightarrow> encoder_calls n w (RleEncoder_Clear r) []"

lemma enc_inv_repCount: "buffer_writer.enc_inv n w r vs \<Longrightarrow> enc_repCount r \<le> int (length vs)"
  by (auto simp: buffer_writer.enc_inv_def split: if_splits)

lemma Put_returns:
  assumes inv: "buffer_writer.enc_inv n w r vs" and v: "fits_width w v" and n: "MaxRLEBufferSize w (length (vs @ [v])) \<le> n"
    and len: "length (vs @ [v]) < 2 ^ 31"
  shows "\<exists>r'. RleEncoder_Put WriterAtBuffer r v = Some (r', None) \<and> buffer_writer.enc_inv n w r' (vs @ [v])"
proof -
  have "enc_repCount r < MaxInt32" using enc_inv_repCount [OF inv] len by simp
  from buffer_writer.Put_ok [OF inv v this MaxRLEBufferSize_groups [OF n]] show ?thesis by blast
qed

lemma PutBatchLevels_returns:
  assumes "buffer_writer.enc_inv n w r vs" "list_all (\<lambda>x. fits_width w (scast x :: u64)) xs"
    "MaxRLEBufferSize w (length (vs @ map scast xs :: u64 list)) \<le> n"
  shows "\<exists>r'. RleEncoder_PutBatchLevels WriterAtBuffer r xs = Some (r', length xs, None) \<and>
    buffer_writer.enc_inv n w r' (vs @ map scast xs)"
  using buffer_writer.put_levels_loop_ok [OF assms(1,2), of 0] MaxRLEBufferSize_groups [OF assms(3)]
  by (simp add: RleEncoder_PutBatchLevels_def)

lemma PutBatchIndices_returns:
  assumes "buffer_writer.enc_inv n w r vs" "list_all (\<lambda>x. fits_width w (scast x :: u64)) xs"
    "MaxRLEBufferSize w (length (vs @ map scast xs :: u64 list)) \<le> n"
  shows "\<exists>r'. RleEncoder_PutBatchIndices WriterAtBuffer r xs = Some (r', length xs, None) \<and>
    buffer_writer.enc_inv n w r' (vs @ map scast xs)"
  using buffer_writer.put_indices_loop_ok [OF assms(1,2), of 0] MaxRLEBufferSize_groups [OF assms(3)]
  by (simp add: RleEncoder_PutBatchIndices_def)

lemma encoder_calls_inv:
  assumes "encoder_calls n w r vs" "w \<le> 64"
  shows "buffer_writer.enc_inv n w r vs"
  using assms
proof (induction rule: encoder_calls.induct)
  case (new buf)
  then show ?case by (intro buffer_writer.New_inv) simp_all
next
  case (put r vs v r')
  then show ?case using Put_returns [of n w r vs v] by auto
next
  case (put_levels r vs xs r' k)
  then show ?case using PutBatchLevels_returns [of n w r vs xs] by auto
next
  case (put_indices r vs ys r' k)
  then show ?case using PutBatchIndices_returns [of n w r vs ys] by auto
next
  case (clear r vs)
  then show ?case using buffer_writer.Clear_inv by blast
qed

lemma encoder_calls_encodes:
  assumes "encoder_calls n w r vs" "w \<le> 64" "MaxRLEBufferSize w (length vs) \<le> n"
  shows "\<exists>r' len k. RleEncoder_Flush WriterAtBuffer r = Some (r', len) \<and> len \<le> n \<and>
    len \<le> length (bwr_wr (enc_w r')) \<and> k < 8 \<and> encodes w (take len (bwr_wr (enc_w r'))) (vs @ replicate k 0)"
  by (rule Flush_encodes [OF encoder_calls_inv [OF assms(1,2)] assms(3)])

lemma encoder_calls_mono: "encoder_calls n w r vs \<Longrightarrow> w \<le> 64 \<Longrightarrow> m \<le> n \<Longrightarrow> buffer_writer.enc_inv m w r vs"
  using encoder_calls_inv by (fastforce simp: buffer_writer.enc_inv_def buffer_writer.room_def)

section \<open>Properties\<close>

lemma two_levels_put: "\<exists>r. encoder_calls 16 3 r [5, 2]"
proof -
  have new: "encoder_calls 16 3 (NewRleEncoder (replicate 16 0) 3) []" by (rule new) simp
  from PutBatchLevels_returns [OF encoder_calls_inv [OF new], of "[5, 2]"] obtain r where
    r: "RleEncoder_PutBatchLevels WriterAtBuffer (NewRleEncoder (replicate 16 0) 3) [5, 2] = Some (r, 2, None)"
    by (auto simp: fits_width_def MaxRLEBufferSize_eq BytesForBits_eq)
  show ?thesis using put_levels [OF new _ _ r] by (auto simp: fits_width_def MaxRLEBufferSize_eq BytesForBits_eq)
qed

text \<open>C1: Run-length encoding round trip. After any sequence of \<^verbatim>\<open>Put\<close>, \<^verbatim>\<open>PutBatchLevels\<close>,
  \<^verbatim>\<open>PutBatchIndices\<close> and \<^verbatim>\<open>Clear\<close> on an encoder of width 1 to 64, \<^verbatim>\<open>Flush\<close> returns
  a length, and a new decoder over that many bytes of the buffer delivers by \<^verbatim>\<open>GetBatch\<close> exactly
  the values put since the last \<^verbatim>\<open>Clear\<close>, without error.\<close>

theorem rle_round_trip:
  assumes "encoder_calls n w r vs" "0 < w" "w \<le> 64" "MaxRLEBufferSize w (length vs) \<le> n"
  shows "\<exists>r' len d. RleEncoder_Flush WriterAtBuffer r = Some (r', len) \<and>
    RleDecoder_GetBatch (NewRleDecoder (take len (bwr_wr (enc_w r'))) w) (replicate (length vs) 0) =
      Some (d, vs, length vs, None)"
proof -
  from encoder_calls_encodes [OF assms(1,3,4)] obtain r' len k where
    1: "RleEncoder_Flush WriterAtBuffer r = Some (r', len)"
      "encodes w (take len (bwr_wr (enc_w r'))) (vs @ replicate k 0)" by blast
  from RleGetBatch_ok [OF encodes_New [OF 1(2)] _ assms(2,3), of "replicate (length vs) 0"] 1(1) show ?thesis by auto
qed

theorem rle_round_trip_witness:
  "\<exists>r r' len d. encoder_calls 16 3 r [5, 2] \<and> RleEncoder_Flush WriterAtBuffer r = Some (r', len) \<and>
    RleDecoder_GetBatch (NewRleDecoder (take len (bwr_wr (enc_w r'))) 3) [0, 0] = Some (d, [5, 2], 2, None)"
proof -
  obtain r where calls: "encoder_calls 16 3 r [5, 2]" using two_levels_put by blast
  from rle_round_trip [OF calls] have "\<exists>r' len d. RleEncoder_Flush WriterAtBuffer r = Some (r', len) \<and>
    RleDecoder_GetBatch (NewRleDecoder (take len (bwr_wr (enc_w r'))) 3) [0, 0] = Some (d, [5, 2], 2, None)"
    by (simp add: MaxRLEBufferSize_eq BytesForBits_eq numeral_2_eq_2)
  with calls show ?thesis by blast
qed

text \<open>C6: The size bound. Whatever was put, \<^verbatim>\<open>Flush\<close> returns a length of at most
  \<^verbatim>\<open>MaxRLEBufferSize(width, n)\<close> for \<open>n\<close> values, so that a buffer of that size is enough.\<close>

theorem rle_size_bound:
  assumes "encoder_calls n w r vs" "w \<le> 64" "MaxRLEBufferSize w (length vs) \<le> n"
  shows "\<exists>r' len. RleEncoder_Flush WriterAtBuffer r = Some (r', len) \<and> len \<le> MaxRLEBufferSize w (length vs)"
  using Flush_encodes [OF encoder_calls_mono [OF assms] order.refl] by blast

theorem rle_size_bound_witness:
  "\<exists>r r' len. encoder_calls 16 3 r [5, 2] \<and> RleEncoder_Flush WriterAtBuffer r = Some (r', len) \<and> len \<le> MaxRLEBufferSize 3 2 \<and> MaxRLEBufferSize 3 2 \<le> 16"
proof -
  obtain r where calls: "encoder_calls 16 3 r [5, 2]" using two_levels_put by blast
  from rle_size_bound [OF calls] have "\<exists>r' len. RleEncoder_Flush WriterAtBuffer r = Some (r', len) \<and> len \<le> MaxRLEBufferSize 3 2 \<and> MaxRLEBufferSize 3 2 \<le> 16"
    by (simp add: MaxRLEBufferSize_eq BytesForBits_eq numeral_2_eq_2)
  with calls show ?thesis by blast
qed

text \<open>C7: The batch methods return. From every state a sequence of calls can reach, with room for the
  values and values that fit the width, the loops of \<^verbatim>\<open>PutBatchLevels\<close> and
  \<^verbatim>\<open>PutBatchIndices\<close> end, report all values as encoded and no error.\<close>

theorem put_batches_return:
  assumes "encoder_calls n w r vs" "w \<le> 64" "list_all (\<lambda>x. fits_width w (scast x :: u64)) xs"
    "list_all (\<lambda>y. fits_width w (scast y :: u64)) ys"
    "MaxRLEBufferSize w (length vs + length xs) \<le> n" "MaxRLEBufferSize w (length vs + length ys) \<le> n"
  shows "(\<exists>r'. RleEncoder_PutBatchLevels WriterAtBuffer r xs = Some (r', length xs, None)) \<and>
    (\<exists>r'. RleEncoder_PutBatchIndices WriterAtBuffer r ys = Some (r', length ys, None))"
  using PutBatchLevels_returns [OF encoder_calls_inv [OF assms(1,2)] assms(3)]
    PutBatchIndices_returns [OF encoder_calls_inv [OF assms(1,2)] assms(4)] assms(5,6) by auto

theorem put_batches_return_witness:
  "(\<exists>r'. RleEncoder_PutBatchLevels WriterAtBuffer (NewRleEncoder (replicate 9 0) 4) [3, 3, 7] = Some (r', 3, None)) \<and>
    (\<exists>r'. RleEncoder_PutBatchIndices WriterAtBuffer (NewRleEncoder (replicate 9 0) 4) [15] = Some (r', 1, None))"
  using put_batches_return [of 9 4 "NewRleEncoder (replicate 9 0) 4" "[]" "[3, 3, 7]" "[15]"]
  by (simp add: new fits_width_def MaxRLEBufferSize_eq BytesForBits_eq numeral_3_eq_3)

text \<open>The decoders reached from a new one, or from one reset, that is given an encoding of \<open>vs\<close>, by calls that delivered or skipped as
  many values as they asked for; \<open>k\<close> values are behind it. A stop inside a run leaves a part of that run pending.\<close>

inductive decoder_calls :: "nat \<Rightarrow> byte list \<Rightarrow> u64 list \<Rightarrow> RleDecoder \<Rightarrow> nat \<Rightarrow> bool" where
  new_decoder: "encodes w s vs \<Longrightarrow> 0 < w \<Longrightarrow> w \<le> 64 \<Longrightarrow> decoder_calls w s vs (NewRleDecoder s w) 0"
| reset_decoder: "decoder_calls w' s' vs' d k \<Longrightarrow> encodes w s vs \<Longrightarrow> 0 < w \<Longrightarrow> w \<le> 64 \<Longrightarrow> decoder_calls w s vs (RleDecoder_Reset d s w) 0"
| get_batch: "decoder_calls w s vs d k \<Longrightarrow> RleDecoder_GetBatch d out = Some (d', out', length out, err) \<Longrightarrow>
    decoder_calls w s vs d' (k + length out)"
| get_value: "decoder_calls w s vs d k \<Longrightarrow> RleDecoder_GetValue d = Some (d', v, True) \<Longrightarrow> decoder_calls w s vs d' (k + 1)"
| discard: "decoder_calls w s vs d k \<Longrightarrow> RleDecoder_Discard d n = (d', n) \<Longrightarrow> decoder_calls w s vs d' (k + n)"
| get_levels: "decoder_calls w s vs d k \<Longrightarrow> w \<le> 16 \<Longrightarrow> RleDecoder_GetBatchLevels d lvls m = Some (d', lvls', length lvls, c, err) \<Longrightarrow>
    decoder_calls w s vs d' (k + length lvls)"

lemma decoder_calls_decodes:
  assumes "decoder_calls w s vs d k"
  shows "0 < w \<and> w \<le> 64 \<and> k \<le> length vs \<and> decodes w s [] d (drop k vs)"
  using assms
proof induction
  case (new_decoder w s vs)
  then show ?case using encodes_New by simp
next
  case (reset_decoder w' s' vs' d k w s vs)
  then have "length (br_raw (dec_r d)) = 8" by (auto simp: decodes_def reading_def)
  then show ?case using reset_decoder encodes_Reset by simp
next
  case (get_batch w s vs d k out d' out' err)
  then show ?case using RleGetBatch_ok [of w s "[]" d "drop k vs" out] by (auto simp: add.commute min_def split: if_splits)
next
  case (get_value w s vs d k d' v)
  then show ?case using RleGetBatch_ok [of w s "[]" d "drop k vs" "[0]"]
    by (auto simp: RleDecoder_GetValue_def min_def split: if_splits Option.bind_splits)
next
  case (discard w s vs d k n d')
  then show ?case using RleDiscard_ok [of w s "[]" d "drop k vs" n] by (auto simp: add.commute min_def split: if_splits)
next
  case (get_levels w s vs d k lvls m d' lvls' c err)
  then show ?case using RleGetBatchLevels_ok [of w s "[]" d "drop k vs" lvls m] by (auto simp: add.commute min_def split: if_splits)
qed


text \<open>A literal run of 64 groups, whose indicator takes two bytes, between two repeated ones.\<close>

definition long_literal :: "byte list" where
  "long_literal = [6, 1] @ [0x81, 0x01] @ replicate 64 0xFF @ [4, 0]"

lemma long_literal_bits: "byte_bits (replicate 64 0xFF) = packed_bits 1 (replicate 512 (1 :: u64))"
proof (rule nth_equalityI)
  fix i assume i: "i < length (byte_bits (replicate 64 (0xFF :: byte)))"
  have "bit (0xFF :: byte) j" if "j < 8" for j using that bit_mask_iff [of 8 j, where 'a = byte] by (simp add: mask_eq_exp_minus_1)
  then have "byte_bits (replicate 64 (0xFF :: byte)) ! i" using i by (simp add: byte_bits_def bm_bit_replicate)
  moreover have "packed_bits 1 (replicate n (1 :: u64)) = replicate n True" for n by (induction n) (simp_all add: packed_bits_def bit_0)
  ultimately show "byte_bits (replicate 64 (0xFF :: byte)) ! i = packed_bits 1 (replicate 512 (1 :: u64)) ! i" using i by simp
qed simp

lemma long_literal_encodes: "encodes 1 long_literal (replicate 515 1 @ [0, 0])"
  unfolding encodes_def
proof (intro exI [of _ "[Rep 3 1, Lit (replicate 512 1), Rep 2 0]"] conjI)
  show "list_all (run_ok 1) [Rep 3 1, Lit (replicate 512 1), Rep 2 0]" by (simp add: fits_width_def list_all_iff)
  have "run_bits 1 (Rep 3 1) = byte_bits [6, 1]" "PutUvarint 129 = [0x81, 0x01]" "run_bits 1 (Rep 2 0) = byte_bits [4, 0]" by code_simp+
  then show "byte_bits long_literal = runs_bits 1 [Rep 3 1, Lit (replicate 512 1), Rep 2 0]"
    by (simp only: long_literal_def runs_bits_def byte_bits_append long_literal_bits) (simp add: runs_bits_def)
  have "replicate 515 (1 :: u64) = replicate 3 1 @ replicate 512 1" by (simp only: flip: replicate_add) simp
  then show "runs_values [Rep 3 1, Lit (replicate 512 1), Rep 2 0] = replicate 515 1 @ [0, 0]" by (simp add: runs_values_def numeral_2_eq_2)
qed

lemma long_literal_calls: "\<exists>d. decoder_calls 1 long_literal (replicate 515 1 @ [0, 0]) d 5"
proof -
  have new: "decoder_calls 1 long_literal (replicate 515 1 @ [0, 0]) (NewRleDecoder long_literal 1) 0"
    by (rule new_decoder [OF long_literal_encodes]) simp_all
  obtain d where "RleDecoder_Discard (NewRleDecoder long_literal 1) 5 = (d, 5)"
    using RleDiscard_ok [OF encodes_New [OF long_literal_encodes], of 5] by auto
  from discard [OF new this] show ?thesis by auto
qed




lemma encodes_example: "encodes 3 [8, 5] [5, 5, 5, 5]"
  unfolding encodes_def
  by (intro exI [of _ "[Rep 4 5]"]) (simp add: fits_width_def runs_bits_def runs_values_def, code_simp)

text \<open>C13: \<^verbatim>\<open>RleDecoder.GetBatchBitmap\<close> writes the one-bit values of an encoding as bits from the
  offset on, preserves every other bit of the bitmap, and returns their number.\<close>

theorem rle_GetBatchBitmap_decodes:
  assumes "encodes 1 s vs" "q + n \<le> 8 * length out"
  shows "\<exists>d out'. RleDecoder_GetBatchBitmap (NewRleDecoder s 1) out q n = Some (d, out', min n (length vs), None) \<and>
    bm_writes out q (min n (length vs)) (\<lambda>i. vs ! i \<noteq> 0) out'"
  using RleGetBatchBitmap_ok [OF encodes_New [OF assms(1)] _ assms(2)] by blast

theorem rle_GetBatchBitmap_decodes_witness:
  "encodes 1 [6, 1] [1, 1, 1] \<and>
    (\<exists>d out'. RleDecoder_GetBatchBitmap (NewRleDecoder [6, 1] 1) [0, 0] 7 2 = Some (d, out', 2, None) \<and>
      bm_writes [0, 0] 7 2 (\<lambda>i. [1, 1, 1] ! i \<noteq> (0 :: u64)) out')"
proof -
  have "encodes 1 [6, 1] [1, 1, 1]"
    unfolding encodes_def
    by (intro exI [of _ "[Rep 3 1]"]) (simp add: fits_width_def runs_bits_def runs_values_def, code_simp)
  with rle_GetBatchBitmap_decodes [of "[6, 1]" "[1, 1, 1]" 7 2 "[0, 0]"] show ?thesis by (simp add: numeral_2_eq_2)
qed

section \<open>Where the code departs from the format\<close>

text \<open>At width 0 every value is 0, but \<^verbatim>\<open>getAlignedUint8\<close> with no byte to read returns what an earlier call left in
  its buffer. An instance: of the runs of two and three zeros in \<open>[4, 6]\<close> the decoder delivers the first as two sixes.\<close>

theorem width_0_stale:
  "map_option (\<lambda>(d, out, n, err). (out, n, err)) (RleDecoder_GetBatch (NewRleDecoder [4, 6] 0) [9, 9, 9, 9, 9]) =
    Some ([6, 6, 0, 0, 0], 5, None)"
  by code_simp

text \<open>\<^verbatim>\<open>Next\<close> stores the count of a repeated run before it has read the value. An instance, a run of two cut off before its value at
  width 8: the first \<^verbatim>\<open>GetBatch\<close> delivers nothing and the second delivers two values that are not in the input.\<close>

theorem truncated_run_invents_values:
  "do { (d, out, n, err) \<leftarrow> RleDecoder_GetBatch (NewRleDecoder [4] 8) [9, 9];
        (d, out', n', err') \<leftarrow> RleDecoder_GetBatch d [9, 9];
        Some (n, err, out', n', err') } = Some (0, None, [0, 0], 2, None)"
  by code_simp

lemma run_end_replicate: "i \<le> k \<Longrightarrow> run_end (replicate k v) v i = k"
proof (induction "replicate k v" v i rule: run_end.induct)
  case (1 v i)
  then show ?case by (cases "i = k") (simp_all add: run_end.simps [of _ _ i] run_end.simps [of _ _ k])
qed

lemma PutBatchLevels_run:
  assumes "8 \<le> k" "k < 2 ^ 31"
  shows "RleEncoder_PutBatchLevels ops (NewRleEncoder b w) (replicate k v) =
    Some ((NewRleEncoder b w)\<lparr>enc_curVal := scast v, enc_repCount := int k\<rparr>, k, None)"
  unfolding RleEncoder_PutBatchLevels_def
  by (subst put_levels_loop.simps)
    (use assms in \<open>simp add: Let_def run_end_replicate start_run_def run_length_def NewRleEncoder_def int32_id put_levels_loop.simps [of _ _ _ k]\<close>)

text \<open>\<^verbatim>\<open>Put\<close> increments the \<^verbatim>\<open>int32\<close> counter of a repeated run without the guard of the batch methods. An instance
  at width 1: after a run of \<open>2 ^ 31 - 1\<close> ones, one more \<^verbatim>\<open>Put(1)\<close> reports no error and makes the count negative; \<^verbatim>\<open>Flush\<close>
  then writes one group of literals, and the run is lost.\<close>

theorem Put_overflow_loses_run:
  "\<exists>r. RleEncoder_PutBatchLevels WriterAtBuffer (NewRleEncoder [0, 0, 0, 0, 0, 0, 0, 0] 1) (replicate (2 ^ 31 - 1) 1) =
      Some (r, 2 ^ 31 - 1, None) \<and>
    do { (r, err) \<leftarrow> RleEncoder_Put WriterAtBuffer r 1;
         (r, len) \<leftarrow> RleEncoder_Flush WriterAtBuffer r;
         Some (err, len, take len (bwr_wr (enc_w r))) } = Some (None, 2, [3, 1])"
proof -
  let ?r = "(NewRleEncoder [0, 0, 0, 0, 0, 0, 0, 0] 1)\<lparr>enc_curVal := 1, enc_repCount := 2147483647\<rparr>"
  have "do { (r, err) \<leftarrow> RleEncoder_Put WriterAtBuffer ?r 1;
         (r, len) \<leftarrow> RleEncoder_Flush WriterAtBuffer r;
         Some (err, len, take len (bwr_wr (enc_w r))) } = Some (None, 2, [3, 1])" by code_simp
  then show ?thesis using PutBatchLevels_run [of "2 ^ 31 - 1" WriterAtBuffer _ 1 1] by simp
qed

end
