(* ===== verification/Checked_Math.thy ===== *)
theory Checked_Math
  imports Prelude "HOL-Library.Signed_Division"
begin

text \<open>
  \<^verbatim>\<open>internal/utils/math.go\<close>: sums and products of signed integers with a check for overflow. A
  signed integer of \<open>w\<close> bits is an integer in its range; the machine's sum and product are the exact
  ones wrapped into it. \<^verbatim>\<open>Mul\<close> is on the 64-bit \<^verbatim>\<open>int\<close>, so its constants are those
  of \<^verbatim>\<open>Mul64\<close>.
\<close>

section \<open>The source\<close>

abbreviation wrap :: "nat \<Rightarrow> int \<Rightarrow> int" where
  "wrap w x \<equiv> signed_take_bit (w - 1) x"

definition utils_Min :: "'a::linorder \<Rightarrow> 'a \<Rightarrow> 'a" where
  "utils_Min a b = (if a < b then a else b)"

definition utils_Max :: "'a::linorder \<Rightarrow> 'a \<Rightarrow> 'a" where
  "utils_Max a b = (if a > b then a else b)"

definition Add :: "nat \<Rightarrow> int \<Rightarrow> int \<Rightarrow> int \<times> bool" where
  "Add w a b = (let result = wrap w (a + b) in (result, (result > a) = (b > 0)))"

abbreviation "sqrtMaxInt64 \<equiv> (2147483647 :: int)"
abbreviation "sqrtMinInt64 \<equiv> (- 2147483648 :: int)"

definition Mul64 :: "int \<Rightarrow> int \<Rightarrow> int \<times> bool" where
  "Mul64 a b =
     (if a = 0 \<or> b = 0 then (0, True)
      else let result = wrap 64 (a * b)
        in if (result > 0) = ((a < 0) \<noteq> (b < 0)) then (result, False)
           else if sqrtMinInt64 \<le> a \<and> a \<le> sqrtMaxInt64 \<and> sqrtMinInt64 \<le> b \<and> b \<le> sqrtMaxInt64 \<or> a = 1 \<or> b = 1
           then (result, True)
           else (result, wrap 64 (result sdiv a) = b))"

definition Mul :: "int \<Rightarrow> int \<Rightarrow> int \<times> bool" where
  "Mul a b =
     (if a = 0 \<or> b = 0 then (0, True)
      else let result = wrap 64 (a * b)
        in if (result > 0) = ((a < 0) \<noteq> (b < 0)) then (result, False)
           else if (- push_bit 31 1 \<le> a \<and> a \<le> push_bit 31 1 - 1 \<and> - push_bit 31 1 \<le> b \<and> b \<le> push_bit 31 1 - 1) \<or> a = 1 \<or> b = 1
           then (result, True)
           else (result, wrap 64 (result sdiv a) = b))"

section \<open>The checks are exact\<close>

definition in_range :: "nat \<Rightarrow> int \<Rightarrow> bool" where
  "in_range w x \<longleftrightarrow> - (2 ^ (w - 1)) \<le> x \<and> x < 2 ^ (w - 1)"

lemma utils_Min_min: "utils_Min a b = min a b"
  by (auto simp: utils_Min_def min_def)

lemma wrap_id: "in_range w x \<Longrightarrow> wrap w x = x"
  unfolding in_range_def by (intro signed_take_bit_int_eq_self) auto

lemma wrap_in_range: "in_range w (wrap w x)"
  unfolding in_range_def by (simp add: signed_take_bit_int_greater_eq_minus_exp signed_take_bit_int_less_exp)

lemma wrap_diff: "0 < w \<Longrightarrow> \<exists>k. wrap w x = x + k * 2 ^ w"
proof -
  assume "0 < w"
  then have "take_bit w (wrap w x) = take_bit w x" by (simp add: take_bit_signed_take_bit)
  then have "2 ^ w dvd wrap w x - x" by (simp add: take_bit_eq_mod mod_eq_dvd_iff)
  then obtain k where "wrap w x - x = 2 ^ w * k" by (elim dvdE)
  then show ?thesis by (intro exI [of _ k]) (simp add: algebra_simps)
qed

lemma wrap_unique:
  assumes "0 < w" "in_range w (x + j * 2 ^ w)"
  shows "wrap w x = x + j * 2 ^ w"
proof -
  have p: "(2 :: int) ^ w = 2 * 2 ^ (w - 1)" "(0 :: int) < 2 ^ (w - 1)" using assms(1) by (cases w, simp_all)
  from wrap_diff [OF assms(1), of x] obtain k where k: "wrap w x = x + k * 2 ^ w" by blast
  have r: "in_range w (x + k * 2 ^ w)" using wrap_in_range [of w x] k by simp
  have "\<bar>(j - k) * 2 ^ w\<bar> < 2 ^ w"
    using r assms(2) p by (simp only: in_range_def left_diff_distrib) linarith
  then have "\<bar>j - k\<bar> * 2 ^ w < 1 * 2 ^ w" by (simp add: abs_mult)
  then have "\<bar>j - k\<bar> < 1" by (rule mult_right_less_imp_less) simp
  then show ?thesis using k by simp
qed

lemma wrap_above:
  assumes "0 < w" "2 ^ (w - 1) \<le> x" "x < 2 ^ w"
  shows "wrap w x = x - 2 ^ w"
proof -
  have "(2 :: int) ^ w = 2 * 2 ^ (w - 1)" using assms(1) by (cases w) simp_all
  then have "in_range w (x + (- 1) * 2 ^ w)" using assms by (simp only: in_range_def) linarith
  from wrap_unique [OF assms(1) this] show ?thesis by simp
qed

lemma wrap_below:
  assumes "0 < w" "x < - (2 ^ (w - 1))" "- (2 ^ w) \<le> x"
  shows "wrap w x = x + 2 ^ w"
proof -
  have "(2 :: int) ^ w = 2 * 2 ^ (w - 1)" using assms(1) by (cases w) simp_all
  then have "in_range w (x + 1 * 2 ^ w)" using assms by (simp only: in_range_def) linarith
  from wrap_unique [OF assms(1) this] show ?thesis by simp
qed

text \<open>C29: \<^verbatim>\<open>Add\<close> on any signed width returns the wrapped sum, and its flag says exactly whether the
  true sum is in range.\<close>

theorem Add_detects_overflow:
  assumes "0 < w" "in_range w a" "in_range w b"
  shows "Add w a b = (wrap w (a + b), in_range w (a + b))"
proof -
  have p: "(2 :: int) ^ w = 2 * 2 ^ (w - 1)" using assms(1) by (cases w) simp_all
  consider "in_range w (a + b)" | "2 ^ (w - 1) \<le> a + b" | "a + b < - (2 ^ (w - 1))" by (force simp: in_range_def)
  then have "(wrap w (a + b) > a) = (b > 0) \<longleftrightarrow> in_range w (a + b)"
  proof cases
    case 1
    then show ?thesis by (simp only: wrap_id) simp
  next
    case 2
    have "a + b < 2 ^ w" using assms p by (simp add: in_range_def)
    from wrap_above [OF assms(1) 2 this] have "wrap w (a + b) = a + b - 2 ^ w" .
    moreover have "0 < b" "b < 2 ^ w" using 2 assms(2,3) p by (auto simp: in_range_def)
    ultimately show ?thesis using 2 by (simp add: in_range_def)
  next
    case 3
    have "- (2 ^ w) \<le> a + b" using assms p by (simp add: in_range_def)
    from wrap_below [OF assms(1) 3 this] have "wrap w (a + b) = a + b + 2 ^ w" .
    moreover have "b < 0" "- (2 ^ w) < b" using 3 assms(2,3) p by (auto simp: in_range_def)
    ultimately show ?thesis using 3 by (simp add: in_range_def)
  qed
  then show ?thesis by (simp add: Add_def Let_def)
qed

theorem Add_detects_overflow_witness: "in_range 8 100 \<and> Add 8 100 100 = (- 56, False)"
  using Add_detects_overflow [of 8 100 100] by (simp add: in_range_def)

lemma abs_sdiv: "\<bar>x sdiv y\<bar> = \<bar>x\<bar> div \<bar>y :: int\<bar>"
proof -
  have "0 \<le> \<bar>x\<bar> div \<bar>y\<bar>" by (simp add: div_int_pos_iff)
  then show ?thesis by (cases "x = 0"; cases "y = 0") (simp_all add: signed_divide_int_def abs_mult abs_sgn_eq)
qed

lemma quotient_bounds:
  fixes a b r :: int
  assumes "\<bar>r\<bar> div \<bar>a\<bar> = \<bar>b\<bar>"
  shows "\<bar>a * b\<bar> \<le> \<bar>r\<bar>"
proof -
  have "\<bar>a\<bar> * (\<bar>r\<bar> div \<bar>a\<bar>) \<le> \<bar>r\<bar>"
    by (cases "a = 0") (simp_all add: minus_mod_eq_mult_div [symmetric])
  then show ?thesis using assms by (simp add: abs_mult)
qed

lemma product_sign: "a \<noteq> 0 \<Longrightarrow> b \<noteq> 0 \<Longrightarrow> 0 < a * b \<longleftrightarrow> (a < 0 \<longleftrightarrow> b < (0 :: int))"
  by (auto simp: zero_less_mult_iff)

lemma small_product:
  fixes a b :: int
  assumes "- (2 ^ 31) \<le> a" "a \<le> 2 ^ 31" "- (2 ^ 31) \<le> b" "b \<le> 2 ^ 31"
  shows "in_range 64 (a * b)"
proof -
  have "\<bar>a * b\<bar> \<le> 2 ^ 31 * 2 ^ 31" unfolding abs_mult using assms by (intro mult_mono) auto
  then have "- (2 ^ 62) \<le> a * b" "a * b \<le> 2 ^ 62" by (simp_all add: abs_le_iff)
  then show ?thesis by (simp add: in_range_def)
qed

lemma exact_sdiv: "a \<noteq> 0 \<Longrightarrow> (a * b) sdiv a = (b :: int)"
  by (cases "a < 0") (auto simp: signed_divide_int_def abs_mult sgn_mult sgn_mult_abs)

text \<open>The final test, when the sign test and the special cases did not decide.\<close>

lemma division_test:
  assumes r: "in_range 64 a" "in_range 64 b" "a \<noteq> 0" "b \<noteq> 0"
    and sign: "(wrap 64 (a * b) > 0) \<noteq> ((a < 0) \<noteq> (b < 0))"
  shows "wrap 64 (wrap 64 (a * b) sdiv a) = b \<longleftrightarrow> in_range 64 (a * b)"
proof
  assume "in_range 64 (a * b)"
  then show "wrap 64 (wrap 64 (a * b) sdiv a) = b" using r exact_sdiv [OF r(3), of b] by (simp only: wrap_id)
next
  let ?r = "wrap 64 (a * b)"
  assume eq: "wrap 64 (?r sdiv a) = b"
  have rr: "in_range 64 ?r" by (rule wrap_in_range)
  have "\<bar>?r sdiv a\<bar> \<le> \<bar>?r\<bar>" unfolding abs_sdiv using r(3) by (simp add: zdiv_mono2 [of _ 1, simplified])
  then have "in_range 64 (?r sdiv a) \<or> ?r sdiv a = 2 ^ 63" using rr by (auto simp: in_range_def)
  then have "\<bar>a * b\<bar> \<le> \<bar>?r\<bar>"
  proof
    assume "in_range 64 (?r sdiv a)"
    then have "?r sdiv a = b" using eq by (simp only: wrap_id)
    then show ?thesis using abs_sdiv [of ?r a] by (intro quotient_bounds) simp
  next
    assume top: "?r sdiv a = 2 ^ 63"
    then have "b = - (2 ^ 63)" using eq wrap_above [of 64 "2 ^ 63"] by simp
    then show ?thesis using abs_sdiv [of ?r a] top by (intro quotient_bounds) simp
  qed
  moreover have "\<bar>?r\<bar> \<le> 2 ^ 63" using rr by (simp add: in_range_def abs_le_iff)
  ultimately have "in_range 64 (a * b) \<or> a * b = 2 ^ 63" by (auto simp: in_range_def)
  moreover have "a * b \<noteq> 2 ^ 63"
  proof
    assume top: "a * b = 2 ^ 63"
    then have "\<not> ?r > 0" using wrap_above [of 64 "2 ^ 63"] by simp
    moreover have "0 < a * b" using top by simp
    ultimately show False using sign product_sign [OF r(3,4)] by simp
  qed
  ultimately show "in_range 64 (a * b)" by blast
qed

lemma checked_product:
  assumes r: "in_range 64 a" "in_range 64 b" "a \<noteq> 0" "b \<noteq> 0"
    and small: "small \<Longrightarrow> in_range 64 (a * b)"
  shows "(if (wrap 64 (a * b) > 0) = ((a < 0) \<noteq> (b < 0)) then (wrap 64 (a * b), False)
      else if small then (wrap 64 (a * b), True) else (wrap 64 (a * b), wrap 64 (wrap 64 (a * b) sdiv a) = b)) =
    (wrap 64 (a * b), in_range 64 (a * b))"
proof (cases "(wrap 64 (a * b) > 0) = ((a < 0) \<noteq> (b < 0))")
  case True
  have "\<not> in_range 64 (a * b)"
  proof
    assume "in_range 64 (a * b)"
    then show False using True product_sign [OF r(3,4)] by (simp only: wrap_id) auto
  qed
  then show ?thesis using True by simp
next
  case False
  then show ?thesis by (cases small) (simp_all only: if_False if_True division_test [OF r False] small)
qed

lemma Mul_exact:
  assumes "in_range 64 a" "in_range 64 b"
  shows "Mul64 a b = (wrap 64 (a * b), in_range 64 (a * b)) \<and> Mul a b = (wrap 64 (a * b), in_range 64 (a * b))"
proof (cases "a = 0 \<or> b = 0")
  case True
  then show ?thesis by (auto simp: Mul64_def Mul_def in_range_def)
next
  case False
  then have nz: "a \<noteq> 0" "b \<noteq> 0" by simp_all
  have 1: "in_range 64 (a * b)" if "a = 1 \<or> b = 1" using assms that by auto
  have "Mul64 a b = (wrap 64 (a * b), in_range 64 (a * b))"
    unfolding Mul64_def Let_def if_not_P [OF False]
    by (rule checked_product [OF assms nz]) (use small_product [of a b] 1 in auto)
  moreover have "Mul a b = (wrap 64 (a * b), in_range 64 (a * b))"
    unfolding Mul_def Let_def if_not_P [OF False]
    by (rule checked_product [OF assms nz]) (use small_product [of a b] 1 in \<open>auto simp: push_bit_eq_mult\<close>)
  ultimately show ?thesis ..
qed

lemma Mul_in_range: "in_range 64 a \<Longrightarrow> in_range 64 b \<Longrightarrow> in_range 64 (a * b) \<Longrightarrow> Mul a b = (a * b, True)"
  using Mul_exact [of a b] by (simp only: wrap_id)

text \<open>C30: \<^verbatim>\<open>Mul64\<close> and \<^verbatim>\<open>Mul\<close> return the wrapped product, and their flag says exactly whether
  the true product is in the 64-bit range: neither the sign test nor the division test nor a shortcut
  decides wrongly.\<close>

theorem Mul_detects_overflow:
  assumes "in_range 64 a" "in_range 64 b"
  shows "Mul64 a b = (wrap 64 (a * b), in_range 64 (a * b)) \<and> Mul a b = (wrap 64 (a * b), in_range 64 (a * b))"
  by (rule Mul_exact [OF assms])

theorem Mul_detects_overflow_witness:
  "Mul64 4294967296 2147483648 = (- 9223372036854775808, False) \<and> Mul 4294967296 2147483648 = (- 9223372036854775808, False)"
proof -
  have "wrap 64 (4294967296 * 2147483648) = - 9223372036854775808" using wrap_above [of 64 9223372036854775808] by simp
  moreover have "in_range 64 4294967296" "in_range 64 2147483648" "\<not> in_range 64 (4294967296 * 2147483648)"
    by (simp_all add: in_range_def)
  ultimately show ?thesis using Mul_detects_overflow [of 4294967296 2147483648] by (simp only: simp_thms)
qed

end
