(* ===== verification/Levels.thy ===== *)
theory Levels
  imports Rle_Codec Checked_Math
begin

unbundle bit_operations_syntax

text \<open>
  \<^verbatim>\<open>parquet/internal/encoding/levels.go\<close>: the encoder and decoder of definition and repetition
  levels, over the run-length codec or plain bit packing. Levels are \<^verbatim>\<open>int16\<close>, here 16-bit words
  whose conversion to \<^verbatim>\<open>uint64\<close> extends the sign. The pointers to the underlying codec are
  options; using one that is nil panics, which is \<open>None\<close>. \<open>Encoding\<close> has the constants of the
  generated Thrift package, and \<open>UNSET\<close> for every other value of its type.
\<close>

section \<open>The source\<close>

datatype Encoding = PLAIN | PLAIN_DICTIONARY | RLE | BIT_PACKED | DELTA_BINARY_PACKED |
  DELTA_LENGTH_BYTE_ARRAY | DELTA_BYTE_ARRAY | RLE_DICTIONARY | BYTE_STREAM_SPLIT | UNSET

fun Encoding_String :: "Encoding \<Rightarrow> string" where
  "Encoding_String PLAIN = ''PLAIN''"
| "Encoding_String PLAIN_DICTIONARY = ''PLAIN_DICTIONARY''"
| "Encoding_String RLE = ''RLE''"
| "Encoding_String BIT_PACKED = ''BIT_PACKED''"
| "Encoding_String DELTA_BINARY_PACKED = ''DELTA_BINARY_PACKED''"
| "Encoding_String DELTA_LENGTH_BYTE_ARRAY = ''DELTA_LENGTH_BYTE_ARRAY''"
| "Encoding_String DELTA_BYTE_ARRAY = ''DELTA_BYTE_ARRAY''"
| "Encoding_String RLE_DICTIONARY = ''RLE_DICTIONARY''"
| "Encoding_String BYTE_STREAM_SPLIT = ''BYTE_STREAM_SPLIT''"
| "Encoding_String UNSET = ''<UNSET>''"

text \<open>\<^verbatim>\<open>bits.Len64(uint64(maxLvl))\<close>\<close>

definition level_width :: "u16 \<Rightarrow> nat" where
  "level_width maxLvl = bits_len (scast maxLvl :: u64)"

definition LevelEncodingMaxBufferSize :: "Encoding \<Rightarrow> u16 \<Rightarrow> nat \<Rightarrow> nat option" where
  "LevelEncodingMaxBufferSize encoding maxLvl nbuffered =
     (let bitWidth = level_width maxLvl
      in case encoding of
           RLE \<Rightarrow> Some (MaxRLEBufferSize bitWidth nbuffered + MinRLEBufferSize bitWidth)
         | BIT_PACKED \<Rightarrow> Some (BytesForBits (nbuffered * bitWidth))
         | _ \<Rightarrow> None)"

record 'w LevelEncoder =
  le_bitWidth :: nat
  le_rleLen :: nat
  le_encoding :: Encoding
  le_rle :: "'w RleEncoder option"
  le_bit :: "'w BitWriter option"

text \<open>The zero value.\<close>

definition new_LevelEncoder :: "'w LevelEncoder" where
  "new_LevelEncoder = \<lparr>le_bitWidth = 0, le_rleLen = 0, le_encoding = PLAIN, le_rle = None, le_bit = None\<rparr>"

definition LevelEncoder_Reset :: "'w LevelEncoder \<Rightarrow> u16 \<Rightarrow> 'w LevelEncoder option" where
  "LevelEncoder_Reset l maxLvl =
     (let l = l\<lparr>le_bitWidth := level_width maxLvl\<rparr>
      in case le_encoding l of
           RLE \<Rightarrow> do { r \<leftarrow> le_rle l;
                       Some (l\<lparr>le_rle := Some ((RleEncoder_Clear r)\<lparr>enc_BitWidth := le_bitWidth l\<rparr>)\<rparr>) }
         | BIT_PACKED \<Rightarrow> do { b \<leftarrow> le_bit l; Some (l\<lparr>le_bit := Some (BitWriter_Clear b)\<rparr>) }
         | _ \<Rightarrow> None)"

definition LevelEncoder_Init :: "'w LevelEncoder \<Rightarrow> Encoding \<Rightarrow> u16 \<Rightarrow> 'w \<Rightarrow> 'w LevelEncoder option" where
  "LevelEncoder_Init l encoding maxLvl w =
     (let l = l\<lparr>le_bitWidth := level_width maxLvl, le_encoding := encoding\<rparr>
      in case encoding of
           RLE \<Rightarrow> Some (l\<lparr>le_rle := Some (NewRleEncoder w (le_bitWidth l))\<rparr>)
         | BIT_PACKED \<Rightarrow> Some (l\<lparr>le_bit := Some (NewBitWriter w)\<rparr>)
         | _ \<Rightarrow> None)"

text \<open>The loop that writes levels one by one.\<close>

fun write_levels ::
  "'w WriterAtWithLen \<Rightarrow> 'w BitWriter \<Rightarrow> u16 list \<Rightarrow> nat \<Rightarrow> nat \<Rightarrow> ('w BitWriter \<times> nat \<times> goerr option) option" where
  "write_levels ops b [] bitWidth nencoded = Some (b, nencoded, None)"
| "write_levels ops b (level # lvls) bitWidth nencoded =
     do { (b, err) \<leftarrow> BitWriter_WriteValue ops b (scast level) bitWidth;
          if err \<noteq> None then Some (b, nencoded, err) else write_levels ops b lvls bitWidth (nencoded + 1) }"

text \<open>Without levels the loops do not touch their codec, which may be nil.\<close>

definition LevelEncoder_EncodeNoFlush ::
  "'w WriterAtWithLen \<Rightarrow> 'w LevelEncoder \<Rightarrow> u16 list \<Rightarrow> ('w LevelEncoder \<times> nat \<times> goerr option) option" where
  "LevelEncoder_EncodeNoFlush ops l lvls =
     (if le_rle l = None \<and> le_bit l = None then None
      else if lvls = [] then Some (l, 0, None)
      else if le_encoding l = RLE then
        do { r \<leftarrow> le_rle l;
             (r, nencoded, err) \<leftarrow> RleEncoder_PutBatchLevels ops r lvls;
             Some (l\<lparr>le_rle := Some r\<rparr>, nencoded, err) }
      else
        do { b \<leftarrow> le_bit l;
             (b, nencoded, err) \<leftarrow> write_levels ops b lvls (le_bitWidth l) 0;
             Some (l\<lparr>le_bit := Some b\<rparr>, nencoded, err) })"

definition LevelEncoder_Flush :: "'w WriterAtWithLen \<Rightarrow> 'w LevelEncoder \<Rightarrow> 'w LevelEncoder option" where
  "LevelEncoder_Flush ops l =
     (if le_rle l = None \<and> le_bit l = None then None
      else if le_encoding l = RLE then
        do { r \<leftarrow> le_rle l;
             (r, n) \<leftarrow> RleEncoder_Flush ops r;
             Some (l\<lparr>le_rle := Some r, le_rleLen := n\<rparr>) }
      else
        do { b \<leftarrow> le_bit l; b \<leftarrow> BitWriter_Flush ops b False; Some (l\<lparr>le_bit := Some b\<rparr>) })"

text \<open>\<^verbatim>\<open>Encode\<close>: the deferred flush runs on every return.\<close>

definition LevelEncoder_Encode ::
  "'w WriterAtWithLen \<Rightarrow> 'w LevelEncoder \<Rightarrow> u16 list \<Rightarrow> ('w LevelEncoder \<times> nat \<times> goerr option) option" where
  "LevelEncoder_Encode ops l lvls =
     (if le_rle l = None \<and> le_bit l = None then None
      else if le_encoding l = RLE then
        do { r \<leftarrow> le_rle l;
             (r, nencoded, err) \<leftarrow> RleEncoder_PutBatchLevels ops r lvls;
             (r, n) \<leftarrow> RleEncoder_Flush ops r;
             Some (l\<lparr>le_rle := Some r, le_rleLen := n\<rparr>, nencoded, err) }
      else
        do { b \<leftarrow> le_bit l;
             (b, nencoded, err) \<leftarrow> write_levels ops b lvls (le_bitWidth l) 0;
             b \<leftarrow> BitWriter_Flush ops b False;
             Some (l\<lparr>le_bit := Some b\<rparr>, nencoded, err) })"

definition LevelEncoder_Len :: "'w LevelEncoder \<Rightarrow> nat option" where
  "LevelEncoder_Len l = (if le_encoding l \<noteq> RLE then None else Some (le_rleLen l))"

record LevelDecoder =
  ld_bitWidth :: nat
  ld_remaining :: int
  ld_maxLvl :: u16
  ld_encoding :: Encoding
  ld_rle :: "RleDecoder option"
  ld_bit :: "BitReader option"

definition new_LevelDecoder :: LevelDecoder where
  "new_LevelDecoder = \<lparr>ld_bitWidth = 0, ld_remaining = 0, ld_maxLvl = 0, ld_encoding = PLAIN, ld_rle = None, ld_bit = None\<rparr>"

text \<open>A new decoder the first time, the old one reset later.\<close>

definition set_rle :: "LevelDecoder \<Rightarrow> byte list \<Rightarrow> LevelDecoder" where
  "set_rle l buf = l\<lparr>ld_rle := Some (case ld_rle l of None \<Rightarrow> NewRleDecoder buf (ld_bitWidth l)
     | Some r \<Rightarrow> RleDecoder_Reset r buf (ld_bitWidth l))\<rparr>"

definition set_bit_reader :: "LevelDecoder \<Rightarrow> byte list \<Rightarrow> LevelDecoder" where
  "set_bit_reader l data = l\<lparr>ld_bit := Some (case ld_bit l of None \<Rightarrow> NewBitReader data
     | Some b \<Rightarrow> BitReader_Reset b data)\<rparr>"

text \<open>\<^verbatim>\<open>bitutil.BytesForBits\<close> on an \<^verbatim>\<open>int64\<close> that may be negative.\<close>

definition BytesForBits64 :: "int \<Rightarrow> int" where
  "BytesForBits64 bits = drop_bit 3 (wrap 64 (bits + 7))"

definition LevelDecoder_SetData ::
  "LevelDecoder \<Rightarrow> Encoding \<Rightarrow> u16 \<Rightarrow> int \<Rightarrow> byte list \<Rightarrow> LevelDecoder \<times> int \<times> goerr option" where
  "LevelDecoder_SetData l encoding maxLvl nbuffered data =
     (let l = l\<lparr>ld_maxLvl := maxLvl, ld_encoding := encoding, ld_remaining := nbuffered,
                ld_bitWidth := level_width maxLvl\<rparr>
      in case encoding of
           RLE \<Rightarrow>
             if length data < 4 then (l, 0, Some (Errorf ''parquet: received invalid levels (corrupt data page?)''))
             else let nbytes = sint (word_of_bytes (take 4 data) :: u32)
               in if nbytes < 0 \<or> nbytes > int (length data) - 4
                  then (l, 0, Some (Errorf ''parquet: received invalid number of bytes (corrupt data page?)''))
                  else (set_rle l (take (nat nbytes) (drop 4 data)), nbytes + 4, None)
         | BIT_PACKED \<Rightarrow>
             let (nbits, ok) = Mul nbuffered (int (ld_bitWidth l))
             in if \<not> ok then (l, 0, Some (Errorf ''parquet: number of buffered values too large (corrupt data page?)''))
                else let nbytes = BytesForBits64 nbits
                  in if nbytes < 0 \<or> nbytes > int (length data)
                     then (l, 0, Some (Errorf ''parquet: received invalid number of bytes (corrupt data page?)''))
                     else (set_bit_reader l data, nbytes, None)
         | _ \<Rightarrow> (l, 0, Some (Errorf (''parquet: unknown encoding type for levels '' @ CHR 0x27 # Encoding_String encoding @ [CHR 0x27]))))"

definition LevelDecoder_SetDataV2 ::
  "LevelDecoder \<Rightarrow> int \<Rightarrow> u16 \<Rightarrow> int \<Rightarrow> byte list \<Rightarrow> LevelDecoder \<times> goerr option" where
  "LevelDecoder_SetDataV2 l nbytes maxLvl nbuffered data =
     (if nbytes < 0 \<or> nbytes > int (length data)
      then (l, Some (Errorf ''parquet: invalid page header (corrupt data page?)''))
      else let l = l\<lparr>ld_maxLvl := maxLvl, ld_encoding := RLE, ld_remaining := nbuffered,
                     ld_bitWidth := level_width maxLvl\<rparr>
        in (set_rle l (take (nat nbytes) data), None))"

text \<open>The \<^verbatim>\<open>switch\<close> of \<^verbatim>\<open>Decode\<close>: for another encoding the three results keep their zero
  values.\<close>

definition read_levels :: "LevelDecoder \<Rightarrow> u16 list \<Rightarrow> (LevelDecoder \<times> u16 list \<times> nat \<times> nat \<times> goerr option) option" where
  "read_levels l levels =
     (case ld_encoding l of
        RLE \<Rightarrow> do { r \<leftarrow> ld_rle l;
                    (r, levels, decoded, maxCount, err) \<leftarrow> RleDecoder_GetBatchLevels r levels (ld_maxLvl l);
                    Some (l\<lparr>ld_rle := Some r\<rparr>, levels, decoded, maxCount, err) }
      | BIT_PACKED \<Rightarrow> do { b \<leftarrow> ld_bit l;
                    (b, levels, decoded, maxCount, err) \<leftarrow>
                      BitReader_GetBatchLevels b (ld_bitWidth l) levels (ld_maxLvl l);
                    Some (l\<lparr>ld_bit := Some b\<rparr>, levels, decoded, maxCount, err) }
      | _ \<Rightarrow> Some (l, levels, 0, 0, None))"

text \<open>The loop: \<^verbatim>\<open>totaldecoded\<close> is also where the rest of \<^verbatim>\<open>levels\<close> starts.\<close>

function decode_levels_loop ::
  "LevelDecoder \<Rightarrow> u16 list \<Rightarrow> nat \<Rightarrow> nat \<Rightarrow> nat \<Rightarrow> (LevelDecoder \<times> u16 list \<times> nat \<times> nat \<times> goerr option) option" where
  "decode_levels_loop l levels totaldecoded n valsToRead =
     (if n > 0 then
        let batch = utils_Min 1024 n
        in case slice levels totaldecoded (totaldecoded + batch) of
             None \<Rightarrow> None
           | Some chunk \<Rightarrow>
               (case read_levels l chunk of
                  None \<Rightarrow> None
                | Some (l, out, decoded, maxCount, err) \<Rightarrow>
                    let l = l\<lparr>ld_remaining := ld_remaining l - int decoded\<rparr>; levels = blit levels totaldecoded out;
                        totaldecoded = totaldecoded + decoded; valsToRead = valsToRead + maxCount
                    in if err \<noteq> None then Some (l, levels, totaldecoded, valsToRead, err)
                       else if decoded \<noteq> batch then Some (l, levels, totaldecoded, valsToRead, Some ErrUnexpectedEOF)
                       else decode_levels_loop l levels totaldecoded (n - decoded) valsToRead)
      else Some (l, levels, totaldecoded, valsToRead, None))"
  by pat_completeness auto
termination by (relation "measure (\<lambda>(_, _, _, n, _). n)") (auto simp: utils_Min_def)

declare decode_levels_loop.simps [simp del]

definition LevelDecoder_Decode ::
  "LevelDecoder \<Rightarrow> u16 list \<Rightarrow> (LevelDecoder \<times> u16 list \<times> nat \<times> nat \<times> goerr option) option" where
  "LevelDecoder_Decode l levels =
     decode_levels_loop l levels 0 (nat (utils_Min (ld_remaining l) (int (length levels)))) 0"

section \<open>The decoder delivers what its codec holds\<close>

text \<open>\<open>gives l vs exact\<close>: the codec of \<open>l\<close> holds the levels \<open>vs\<close>; if \<open>exact\<close>, and nothing after them.\<close>

definition gives :: "LevelDecoder \<Rightarrow> u16 list \<Rightarrow> bool \<Rightarrow> bool" where
  "gives l vs exact \<longleftrightarrow> 0 < ld_bitWidth l \<and> ld_bitWidth l \<le> 16 \<and>
     (case ld_encoding l of
        RLE \<Rightarrow> \<exists>d s rest us. ld_rle l = Some d \<and> decodes (ld_bitWidth l) s rest d us \<and> vs = map ucast us \<and>
          (exact \<longrightarrow> rest = [])
      | BIT_PACKED \<Rightarrow> \<exists>b s p. ld_bit l = Some b \<and> reading s p b \<and> \<not> exact \<and>
          p + ld_bitWidth l * length vs \<le> 8 * length s \<and>
          (\<forall>k<length vs. vs ! k = value_at s (p + ld_bitWidth l * k) (ld_bitWidth l))
      | _ \<Rightarrow> False)"

lemma gives_remaining [simp]: "gives (l\<lparr>ld_remaining := x\<rparr>) = gives l"
  by (auto simp: gives_def fun_eq_iff split: Encoding.splits)

lemma read_levels_ok:
  assumes g: "gives l vs exact" and len: "length out \<le> length vs \<or> exact"
  shows "\<exists>l'. read_levels l out = Some (l', take (length out) vs @ drop (length vs) out, min (length out) (length vs),
      count_list (take (length out) vs) (ld_maxLvl l), None) \<and>
    ld_maxLvl l' = ld_maxLvl l \<and> ld_remaining l' = ld_remaining l \<and> (length out \<le> length vs \<longrightarrow> gives l' (drop (length out) vs) exact)"
proof -
  have w: "0 < ld_bitWidth l" "ld_bitWidth l \<le> 16" using g by (auto simp: gives_def)
  consider (rle) d s rest us where "ld_encoding l = RLE" "ld_rle l = Some d" "decodes (ld_bitWidth l) s rest d us"
      "vs = map ucast us" "exact \<longrightarrow> rest = []"
    | (bits) b s p where "ld_encoding l = BIT_PACKED" "ld_bit l = Some b" "reading s p b" "\<not> exact"
      "p + ld_bitWidth l * length vs \<le> 8 * length s"
      "\<And>k. k < length vs \<Longrightarrow> vs ! k = value_at s (p + ld_bitWidth l * k) (ld_bitWidth l)"
    using g by (auto simp: gives_def split: Encoding.splits)
  then show ?thesis
  proof cases
    case rle
    have len': "length out \<le> length us \<or> rest = []" using len rle by auto
    from RleGetBatchLevels_ok [OF rle(3) len' w, of "ld_maxLvl l"] obtain d' where
      d': "RleDecoder_GetBatchLevels d out (ld_maxLvl l) = Some (d', take (length out) vs @ drop (length us) out,
          min (length out) (length us), count_list (take (length out) vs) (ld_maxLvl l), None)"
        "length out \<le> length us \<longrightarrow> decodes (ld_bitWidth l) s rest d' (drop (length out) us)"
      by (auto simp: rle(4) take_map)
    then show ?thesis using rle w by (fastforce simp: read_levels_def gives_def drop_map)
  next
    case bits
    let ?w = "ld_bitWidth l" and ?m = "length out"
    have len': "?m \<le> length vs" using len bits(4) by simp
    have fit: "p + ?w * ?m \<le> 8 * length s" by (rule le_trans [OF _ bits(5)]) (simp add: len')
    have tk: "map (\<lambda>k. value_at s (p + ?w * k) ?w) [0..<?m] = take ?m vs"
      by (rule nth_equalityI) (use len' bits(6) in simp_all)
    from GetBatchLevels_ok [OF bits(3) w(2) fit, of "ld_maxLvl l"] obtain b' where
      b': "BitReader_GetBatchLevels b ?w out (ld_maxLvl l) =
          Some (b', take ?m vs, ?m, count_list (take ?m vs) (ld_maxLvl l), None)" "reading s (p + ?w * ?m) b'"
      by (auto simp: hits_count_list tk)
    have "p + ?w * ?m + ?w * (length vs - ?m) \<le> 8 * length s" using bits(5) len' by (simp add: diff_mult_distrib2)
    moreover have "drop ?m vs ! k = value_at s (p + ?w * ?m + ?w * k) ?w" if "k < length vs - ?m" for k
      using that len' bits(6) [of "?m + k"] by (simp add: distrib_left add.assoc)
    ultimately have "gives (l\<lparr>ld_bit := Some b'\<rparr>) (drop ?m vs) exact"
      using w bits(1,4) b'(2) by (auto simp: gives_def)
    then show ?thesis using bits(1,2) b'(1) len' by (simp add: read_levels_def min_absorb1)
  qed
qed

lemma blit_chunk:
  assumes "i + n \<le> length xs" "k \<le> n" "length ys = k"
  shows "blit xs i (ys @ drop k (take n (drop i xs))) = take i xs @ ys @ drop (i + k) xs"
proof -
  have "drop k (take n (drop i xs)) @ drop (i + n) xs = drop k (take n (drop i xs) @ drop n (drop i xs))"
    using assms by (simp add: add.commute)
  also have "\<dots> = drop (i + k) xs" by (simp only: append_take_drop_id) (simp add: add.commute)
  finally show ?thesis using assms by (simp add: blit_def)
qed

lemma decode_levels_loop_ok:
  assumes "gives l vs exact" "t + n \<le> length levels" "n \<le> length vs \<or> exact"
  shows "\<exists>l'. decode_levels_loop l levels t n v =
      Some (l', take t levels @ take n vs @ drop (t + min n (length vs)) levels, t + min n (length vs),
        v + count_list (take n vs) (ld_maxLvl l), if n \<le> length vs then None else Some ErrUnexpectedEOF) \<and>
    ld_remaining l' = ld_remaining l - int (min n (length vs)) \<and> (n \<le> length vs \<longrightarrow> gives l' (drop n vs) exact)"
  using assms
proof (induction n arbitrary: l vs levels t v rule: less_induct)
  case (less n)
  show ?case
  proof (cases "n = 0")
    case True
    then show ?thesis using less.prems by (simp add: decode_levels_loop.simps)
  next
    case False
    define batch where "batch = min 1024 n"
    have b: "0 < batch" "batch \<le> n" using False by (auto simp: batch_def)
    let ?chunk = "take batch (drop t levels)"
    have chunk: "slice levels t (t + batch) = Some ?chunk" "length ?chunk = batch"
      using less.prems(2) b by (simp_all add: slice_def)
    have "length ?chunk \<le> length vs \<or> exact" using less.prems(3) b chunk(2) by auto
    from read_levels_ok [OF less.prems(1) this] obtain l1 where
      1: "read_levels l ?chunk = Some (l1, take batch vs @ drop (length vs) ?chunk, min batch (length vs),
          count_list (take batch vs) (ld_maxLvl l), None)"
        "ld_maxLvl l1 = ld_maxLvl l" "ld_remaining l1 = ld_remaining l" "batch \<le> length vs \<Longrightarrow> gives l1 (drop batch vs) exact"
      unfolding chunk(2) by blast
    let ?l = "l1\<lparr>ld_remaining := ld_remaining l1 - int (min batch (length vs))\<rparr>"
      and ?levels = "blit levels t (take batch vs @ drop (length vs) ?chunk)"
      and ?v = "v + count_list (take batch vs) (ld_maxLvl l)"
    have step: "decode_levels_loop l levels t n v =
        (if min batch (length vs) \<noteq> batch then Some (?l, ?levels, t + min batch (length vs), ?v, Some ErrUnexpectedEOF)
         else decode_levels_loop ?l ?levels (t + min batch (length vs)) (n - min batch (length vs)) ?v)"
      using False by (subst decode_levels_loop.simps) (simp add: utils_Min_min Let_def chunk(1) 1(1) flip: batch_def)
    show ?thesis
    proof (cases "batch \<le> length vs")
      case True
      have lv: "?levels = take t levels @ take batch vs @ drop (t + batch) levels"
        using blit_chunk [of t batch levels batch "take batch vs"] less.prems(2) b True by simp
      have len: "length ?levels = length levels" using less.prems(2) b True by (simp add: lv)
      have min1: "min batch (length vs) = batch" using True by simp
      have dec: "n - batch < n" using b False by simp
      have "t + batch + (n - batch) \<le> length ?levels" "n - batch \<le> length (drop batch vs) \<or> exact"
        using less.prems(2,3) b len by auto
      from less.IH [OF dec _ this, of ?l ?v] 1(4) [OF True] obtain l' where
        2: "decode_levels_loop ?l ?levels (t + batch) (n - batch) ?v =
            Some (l', take (t + batch) ?levels @ take (n - batch) (drop batch vs) @
                drop (t + batch + min (n - batch) (length vs - batch)) ?levels,
              t + batch + min (n - batch) (length vs - batch),
              ?v + count_list (take (n - batch) (drop batch vs)) (ld_maxLvl l),
              if n - batch \<le> length vs - batch then None else Some ErrUnexpectedEOF)"
          "ld_remaining l' = ld_remaining l - int batch - int (min (n - batch) (length vs - batch))"
          "n - batch \<le> length vs - batch \<longrightarrow> gives l' (drop (n - batch) (drop batch vs)) exact"
        using 1(2,3) min1 by auto
      note cnt = deliver_count [OF b(2) True]
      have tk: "take batch vs @ take (n - batch) (drop batch vs) = take n vs" using b(2) by (metis take_add le_add_diff_inverse)
      have out: "take (t + batch) ?levels @ take (n - batch) (drop batch vs) @ drop (t + min n (length vs)) ?levels =
          take t levels @ take n vs @ drop (t + min n (length vs)) levels"
      proof -
        have t: "length (take t levels @ take batch vs) = t + batch" using less.prems(2) b True by simp
        obtain j where j: "t + min n (length vs) = t + batch + j" using cnt(4) by (metis add.assoc)
        have "drop (t + batch + j) (take t levels @ take batch vs @ drop (t + batch) levels) = drop (t + batch + j) levels"
          using t by (simp add: add.commute add.left_commute)
        then have B: "drop (t + batch + j) ?levels = drop (t + batch + j) levels" unfolding lv .
        have A: "take (t + batch) ?levels = take t levels @ take batch vs"
          unfolding lv append_assoc [symmetric] using t by (simp only: take_append) simp
        show ?thesis unfolding j A B tk [symmetric] append_assoc ..
      qed
      have "count_list (take batch vs) m + count_list (take (n - batch) (drop batch vs)) m = count_list (take n vs) m" for m
        by (simp flip: tk)
      then show ?thesis
        using 2 step min1 out True b(2) by (simp add: cnt add.assoc)
    next
      case False
      then have "\<not> n \<le> length vs" "min batch (length vs) = length vs" using b by auto
      moreover have "?levels = take t levels @ vs @ drop (t + length vs) levels"
        using blit_chunk [of t batch levels "length vs" vs] less.prems(2) b False by simp
      ultimately show ?thesis using step False 1(3) by simp
    qed
  qed
qed

section \<open>The encoder writes what it is given\<close>

text \<open>A maximum level that is positive, and a level between 0 and it.\<close>

definition valid_level :: "u16 \<Rightarrow> u16 \<Rightarrow> bool" where
  "valid_level maxLvl l \<longleftrightarrow> 0 \<le> sint l \<and> sint l \<le> sint maxLvl"

lemma nonneg_level:
  assumes "0 \<le> sint (l :: u16)"
  shows "unat (scast l :: u64) = unat l" "int (unat l) = sint l" "unat l < 2 ^ 15"
proof -
  have b: "\<not> bit l 15" using assms bit_last_iff [of l] by simp
  have hi: "\<not> bit l i" if "15 \<le> i" for i using b that bit_imp_le_length [of l i] by (cases "i = 15") auto
  have "scast l = (ucast l :: u64)" by (rule bit_word_eqI) (auto simp: bit_simps hi min_def)
  moreover have "unat (ucast l :: u64) = unat l"
    using unsigned_less [of l, where 'a = nat] by (simp add: unsigned_ucast_eq take_bit_nat_eq_self)
  ultimately show "unat (scast l :: u64) = unat l" by simp
  have "sint l = uint l" by (rule bit_eqI) (auto simp: bit_simps hi min_def)
  then show s: "int (unat l) = sint l" by simp
  have "sint l < 2 ^ 15" using sint_lt [of l] by simp
  then have "int (unat l) < 2 ^ 15" using s by simp
  then show "unat l < 2 ^ 15" by (simp only: of_nat_less_numeral_power_cancel_iff)
qed

lemma fits_width_iff: "fits_width w v \<longleftrightarrow> unat v < 2 ^ w"
proof -
  have "take_bit w v = v \<longleftrightarrow> unat (take_bit w v) = unat v" by (rule word_unat_eq_iff)
  also have "\<dots> \<longleftrightarrow> take_bit w (unat v) = unat v" by (simp add: unsigned_take_bit_eq)
  finally show ?thesis by (simp add: fits_width_def take_bit_nat_eq_self_iff)
qed

lemma level_width_bounds:
  assumes "0 < sint maxLvl"
  shows "0 < level_width maxLvl" "level_width maxLvl \<le> 15"
proof -
  have n: "0 \<le> sint maxLvl" using assms by simp
  have "scast maxLvl \<noteq> (0 :: u64)" 
  proof
    assume "scast maxLvl = (0 :: u64)"
    then have "unat maxLvl = 0" using nonneg_level(1) [OF n] by simp
    then show False using nonneg_level(2) [OF n] assms by linarith
  qed
  then show "0 < level_width maxLvl" using bit_pred_bits_len [of "scast maxLvl :: u64"] by (simp add: level_width_def)
  show "level_width maxLvl \<le> 15" using nonneg_level [OF n] by (simp add: level_width_def bits_len_le_iff)
qed

lemma valid_level_fits:
  assumes "valid_level maxLvl l"
  shows "fits_width (level_width maxLvl) (scast l :: u64)"
proof -
  have n: "0 \<le> sint l" "0 \<le> sint maxLvl" "sint l \<le> sint maxLvl" using assms by (auto simp: valid_level_def)
  have "unat l \<le> unat maxLvl" using nonneg_level(2) [OF n(1)] nonneg_level(2) [OF n(2)] n(3) by linarith
  then show ?thesis
    using unat_less_exp_bits_len [of "scast maxLvl :: u64"] nonneg_level(1) [OF n(1)] nonneg_level(1) [OF n(2)]
    by (simp add: fits_width_iff level_width_def)
qed

lemma ucast_scast_level: "ucast (scast (l :: u16) :: u64) = l"
proof (rule bit_word_eqI)
  fix n assume "n < LENGTH(16)"
  then show "bit (ucast (scast l :: u64) :: u16) n = bit l n" by (cases "n = 15") (auto simp: bit_simps min_def)
qed

context writer_at
begin

lemma write_levels_ok:
  assumes "inv b" "w \<le> 64" "\<And>l. l \<in> set lvls \<Longrightarrow> fits_width w (scast l :: u64)"
    "fits (bwr_wr b) ((bit_count b + w * length lvls) div 8)"
  shows "\<exists>b'. write_levels ops b lvls w k = Some (b', k + length lvls, None) \<and> inv b' \<and>
    fits (bwr_wr b') = fits (bwr_wr b) \<and> bits b' = bits b @ packed_bits w (map scast lvls :: u64 list)"
  using assms
proof (induction lvls arbitrary: b k)
  case Nil
  then show ?case by (simp add: packed_bits_def)
next
  case (Cons l lvls)
  have f: "fits (bwr_wr b) ((bit_count b + w) div 8)"
    by (rule fits_mono [OF Cons.prems(4)]) (simp add: div_le_mono)
  have "\<not> bit (scast l :: u64) i" if "w \<le> i" for i
    using Cons.prems(3) [of l] that by (simp add: fits_width_bit)
  from WriteValue_bits [OF Cons.prems(1) this Cons.prems(2) f] obtain b1 where
    1: "BitWriter_WriteValue ops b (scast l) w = Some (b1, None)" "inv b1" "fits (bwr_wr b1) = fits (bwr_wr b)"
      "bits b1 = bits b @ map (bit (scast l :: u64)) [0..<w]" by blast
  have "bit_count b1 = bit_count b + w" using arg_cong [OF 1(4), of length] by simp
  with Cons.IH [OF 1(2) Cons.prems(2), of "k + 1"] Cons.prems(3,4) 1(3) obtain b2 where
    2: "write_levels ops b1 lvls w (k + 1) = Some (b2, k + 1 + length lvls, None)" "inv b2"
      "fits (bwr_wr b2) = fits (bwr_wr b)" "bits b2 = bits b1 @ packed_bits w (map scast lvls :: u64 list)"
    by (auto simp: add.assoc)
  then show ?case using 1 by (auto simp: packed_bits_def)
qed

end

lemma Encode_RLE:
  assumes pos: "0 < sint maxLvl" and lvls: "list_all (valid_level maxLvl) lvls"
    and room: "MaxRLEBufferSize (level_width maxLvl) (length lvls) \<le> length buf"
  shows "\<exists>l0 l r k. LevelEncoder_Init new_LevelEncoder RLE maxLvl buf = Some l0 \<and>
    LevelEncoder_Encode WriterAtBuffer l0 lvls = Some (l, length lvls, None) \<and> le_rle l = Some r \<and> LevelEncoder_Len l = Some (le_rleLen l) \<and>
    le_rleLen l \<le> MaxRLEBufferSize (level_width maxLvl) (length lvls) \<and> le_rleLen l \<le> length (bwr_wr (enc_w r)) \<and>
    encodes (level_width maxLvl) (take (le_rleLen l) (bwr_wr (enc_w r))) (map scast lvls @ replicate k 0)"
proof -
  let ?w = "level_width maxLvl" and ?n = "MaxRLEBufferSize (level_width maxLvl) (length lvls)"
  have "?w \<le> 64" using level_width_bounds(2) [OF pos] by simp
  then have new: "buffer_writer.enc_inv ?n ?w (NewRleEncoder buf ?w) []" using room by (intro buffer_writer.New_inv)
  have fit: "list_all (\<lambda>x. fits_width ?w (scast x :: u64)) lvls" using lvls valid_level_fits by (auto simp: list_all_iff)
  from PutBatchLevels_returns [OF new fit] obtain r1 where
    1: "RleEncoder_PutBatchLevels WriterAtBuffer (NewRleEncoder buf ?w) lvls = Some (r1, length lvls, None)"
      "buffer_writer.enc_inv ?n ?w r1 (map scast lvls)" by auto
  from Flush_encodes [OF 1(2)] obtain r2 len k where
    2: "RleEncoder_Flush WriterAtBuffer r1 = Some (r2, len)" "len \<le> ?n" "len \<le> length (bwr_wr (enc_w r2))"
      "encodes ?w (take len (bwr_wr (enc_w r2))) (map scast lvls @ replicate k 0)" by auto
  then show ?thesis
    using 1(1) by (auto simp: LevelEncoder_Init_def LevelEncoder_Encode_def LevelEncoder_Len_def Let_def)
qed

lemma Decode_ok:
  assumes "gives l vs exact" "length out \<le> length vs \<or> exact" "int (length out) \<le> ld_remaining l"
  shows "\<exists>l'. LevelDecoder_Decode l out = Some (l', take (length out) vs @ drop (length vs) out,
      min (length out) (length vs), count_list (take (length out) vs) (ld_maxLvl l),
      if length out \<le> length vs then None else Some ErrUnexpectedEOF) \<and>
    ld_remaining l' = ld_remaining l - int (min (length out) (length vs))"
proof -
  have "nat (utils_Min (ld_remaining l) (int (length out))) = length out" using assms(3) by (simp add: utils_Min_min)
  moreover have "drop (min (length out) (length vs)) out = drop (length vs) out" by (simp add: min_def)
  ultimately show ?thesis
    using decode_levels_loop_ok [OF assms(1) _ assms(2), of 0 out 0] by (auto simp: LevelDecoder_Decode_def)
qed

lemma gives_rle:
  assumes "encodes (level_width maxLvl) s us" "0 < sint maxLvl"
    "case ld_rle l of None \<Rightarrow> True | Some r \<Rightarrow> length (br_raw (dec_r r)) = 8"
  shows "gives (set_rle (l\<lparr>ld_maxLvl := maxLvl, ld_encoding := RLE, ld_remaining := n, ld_bitWidth := level_width maxLvl\<rparr>) s)
    (map ucast us) True"
  using encodes_New [OF assms(1)] encodes_Reset [OF assms(1)] level_width_bounds [OF assms(2)] assms(3)
  by (auto simp: gives_def set_rle_def split: option.splits)

section \<open>Properties\<close>

lemma word_of_bytes_of_word: "k \<le> n \<Longrightarrow> n \<le> k \<Longrightarrow> 8 * k = LENGTH('a) \<Longrightarrow> word_of_bytes (bytes_of_word n v) = (v :: 'a::len word)"
  by (rule bit_word_eqI) (auto simp: bit_word_of_bytes bm_simps)

lemma Encode_encoding: "LevelEncoder_Encode ops l lvls = Some (l', n, err) \<Longrightarrow> le_encoding l' = le_encoding l"
  by (auto simp: LevelEncoder_Encode_def split: if_splits Option.bind_splits)

lemma rle_levels_trip:
  assumes "0 < sint maxLvl" "list_all (valid_level maxLvl) lvls"
    "MaxRLEBufferSize (level_width maxLvl) (length lvls) \<le> length buf"
    "MaxRLEBufferSize (level_width maxLvl) (length lvls) < 2 ^ 31"
  shows "\<exists>l0 l r d d'. LevelEncoder_Init new_LevelEncoder RLE maxLvl buf = Some l0 \<and>
    LevelEncoder_Encode WriterAtBuffer l0 lvls = Some (l, length lvls, None) \<and> le_rle l = Some r \<and>
    LevelDecoder_SetData new_LevelDecoder RLE maxLvl (int (length lvls))
      (bytes_of_word 4 (of_nat (le_rleLen l) :: u32) @ take (le_rleLen l) (bwr_wr (enc_w r))) =
      (d, int (le_rleLen l) + 4, None) \<and>
    LevelDecoder_Decode d (replicate (length lvls) 0) = Some (d', lvls, length lvls, count_list lvls maxLvl, None) \<and>
    le_rleLen l \<le> MaxRLEBufferSize (level_width maxLvl) (length lvls) \<and> le_rleLen l \<le> length (bwr_wr (enc_w r)) \<and> le_encoding l = RLE"
proof -
  from Encode_RLE [OF assms(1-3)] obtain l0 l r k where
    1: "LevelEncoder_Init new_LevelEncoder RLE maxLvl buf = Some l0"
      "LevelEncoder_Encode WriterAtBuffer l0 lvls = Some (l, length lvls, None)" "le_rle l = Some r"
      "le_rleLen l \<le> MaxRLEBufferSize (level_width maxLvl) (length lvls)" "le_rleLen l \<le> length (bwr_wr (enc_w r))"
      "encodes (level_width maxLvl) (take (le_rleLen l) (bwr_wr (enc_w r))) (map scast lvls @ replicate k 0)" by blast
  let ?s = "take (le_rleLen l) (bwr_wr (enc_w r))" and ?h = "bytes_of_word 4 (of_nat (le_rleLen l) :: u32)"
  let ?l = "new_LevelDecoder\<lparr>ld_maxLvl := maxLvl, ld_encoding := RLE, ld_remaining := int (length lvls),
    ld_bitWidth := level_width maxLvl\<rparr>"
  have len: "sint (of_nat (le_rleLen l) :: u32) = int (le_rleLen l)"
    unfolding signed_of_nat of_int_eq_id id_apply using 1(4) assms(4) by (intro signed_take_bit_int_eq_self) simp_all
  have set: "LevelDecoder_SetData new_LevelDecoder RLE maxLvl (int (length lvls)) (?h @ ?s) =
      (set_rle ?l ?s, int (le_rleLen l) + 4, None)"
    using 1(5) len by (simp add: LevelDecoder_SetData_def Let_def word_of_bytes_of_word [of 4])
  have g: "gives (set_rle ?l ?s) (lvls @ replicate k 0) True"
    using gives_rle [OF 1(6) assms(1), of new_LevelDecoder "int (length lvls)"]
    by (simp add: new_LevelDecoder_def ucast_scast_level comp_def)
  have "ld_remaining (set_rle ?l ?s) = int (length lvls)" "ld_maxLvl (set_rle ?l ?s) = maxLvl" by (simp_all add: set_rle_def)
  moreover have "le_encoding l = RLE" using Encode_encoding [OF 1(2)] 1(1) by (auto simp: LevelEncoder_Init_def Let_def)
  ultimately show ?thesis using Decode_ok [OF g, of "replicate (length lvls) 0"] set 1(1-5) by auto
qed

text \<open>C24: Levels round trip through a version 1 data page. Levels between 0 and the positive maximum,
  encoded by \<^verbatim>\<open>Encode\<close> with run-length encoding into a buffer of the size that
  \<^verbatim>\<open>MaxRLEBufferSize\<close> gives, written behind their length in four bytes, are accepted by
  \<^verbatim>\<open>SetData\<close>, which reports the size of that block, and \<^verbatim>\<open>Decode\<close> delivers them with the
  number that equal the maximum.\<close>

theorem rle_levels_round_trip:
  assumes "0 < sint maxLvl" "list_all (valid_level maxLvl) lvls"
    "MaxRLEBufferSize (level_width maxLvl) (length lvls) \<le> length buf"
    "MaxRLEBufferSize (level_width maxLvl) (length lvls) < 2 ^ 31"
  shows "\<exists>l0 l r d d'. LevelEncoder_Init new_LevelEncoder RLE maxLvl buf = Some l0 \<and>
    LevelEncoder_Encode WriterAtBuffer l0 lvls = Some (l, length lvls, None) \<and> le_rle l = Some r \<and>
    LevelDecoder_SetData new_LevelDecoder RLE maxLvl (int (length lvls))
      (bytes_of_word 4 (of_nat (le_rleLen l) :: u32) @ take (le_rleLen l) (bwr_wr (enc_w r))) =
      (d, int (le_rleLen l) + 4, None) \<and>
    LevelDecoder_Decode d (replicate (length lvls) 0) = Some (d', lvls, length lvls, count_list lvls maxLvl, None)"
  using rle_levels_trip [OF assms] by blast

theorem rle_levels_round_trip_witness:
  "\<exists>l0 l r d d'. LevelEncoder_Init new_LevelEncoder RLE 3 (replicate 3 0) = Some l0 \<and>
    LevelEncoder_Encode WriterAtBuffer l0 [0, 3, 3] = Some (l, length [0, 3, 3 :: u16], None) \<and> le_rle l = Some r \<and>
    LevelDecoder_SetData new_LevelDecoder RLE 3 (int (length [0, 3, 3 :: u16]))
      (bytes_of_word 4 (of_nat (le_rleLen l) :: u32) @ take (le_rleLen l) (bwr_wr (enc_w r))) =
      (d, int (le_rleLen l) + 4, None) \<and>
    LevelDecoder_Decode d (replicate (length [0, 3, 3 :: u16]) 0) =
      Some (d', [0, 3, 3], length [0, 3, 3 :: u16], count_list [0, 3, 3 :: u16] 3, None)"
proof (rule rle_levels_round_trip)
  have "level_width 3 = 2" by code_simp
  then show "MaxRLEBufferSize (level_width 3) (length [0, 3, 3 :: u16]) \<le> length (replicate 3 (0 :: byte))"
    "MaxRLEBufferSize (level_width 3) (length [0, 3, 3 :: u16]) < 2 ^ 31"
    by (simp_all add: MaxRLEBufferSize_eq BytesForBits_eq)
qed (simp_all add: valid_level_def)

lemma Encode_BIT_PACKED:
  assumes pos: "0 < sint maxLvl" and lvls: "list_all (valid_level maxLvl) lvls"
    and room: "level_width maxLvl * length lvls \<le> 8 * length buf"
  shows "\<exists>l0 l b. LevelEncoder_Init new_LevelEncoder BIT_PACKED maxLvl buf = Some l0 \<and>
    LevelEncoder_Encode WriterAtBuffer l0 lvls = Some (l, length lvls, None) \<and> le_bit l = Some b \<and>
    length (bwr_wr b) = length buf \<and>
    (\<exists>rest. byte_bits (bwr_wr b) = packed_bits (level_width maxLvl) (map scast lvls :: u64 list) @ rest)"
proof -
  let ?w = "level_width maxLvl"
  have w: "?w \<le> 64" using level_width_bounds(2) [OF pos] by simp
  have fit: "fits_width ?w (scast x :: u64)" if "x \<in> set lvls" for x
    using lvls valid_level_fits that by (auto simp: list_all_iff)
  have "?w * length lvls div 8 \<le> length buf" using room by linarith
  with buffer_writer.write_levels_ok [OF NewBitWriter_view(1) [of buf] w fit, where k = 0] obtain b1 where
    b1: "write_levels WriterAtBuffer (NewBitWriter buf) lvls ?w 0 = Some (b1, length lvls, None)" "buffer_writer.inv b1"
      "length (bwr_wr b1) = length buf" "buffer_writer.bits b1 = packed_bits ?w (map scast lvls :: u64 list)"
    by (auto simp: NewBitWriter_view dest!: fits_length)
  have "buffer_writer.bit_count b1 = ?w * length lvls" using arg_cong [OF b1(4), of length] by simp
  with buffer_writer.Flush_bits [OF b1(2), of False] room b1(3,4) obtain b2 where
    b2: "BitWriter_Flush WriterAtBuffer b1 False = Some b2" "buffer_writer.flushed b2"
      "length (bwr_wr b2) = length buf" "buffer_writer.bits b2 = packed_bits ?w (map scast lvls :: u64 list)"
    by (auto simp: BytesForBits_le_iff dest!: fits_length)
  have "buffer_writer.bit_count b2 = ?w * length lvls" using arg_cong [OF b2(4), of length] by simp
  with flushed_prefix [OF b2(2)] b2(3,4) room have
    "\<exists>rest. byte_bits (bwr_wr b2) = packed_bits ?w (map scast lvls :: u64 list) @ rest" by auto
  then show ?thesis
    using b1(1) b2(1,3) by (auto simp: LevelEncoder_Init_def LevelEncoder_Encode_def Let_def)
qed

lemma gives_packed:
  assumes "byte_bits s = packed_bits (level_width maxLvl) (map scast lvls :: u64 list) @ rest"
    "0 < sint maxLvl" "list_all (valid_level maxLvl) lvls" "ld_bit l = None"
  shows "gives (set_bit_reader (l\<lparr>ld_maxLvl := maxLvl, ld_encoding := BIT_PACKED, ld_remaining := n,
    ld_bitWidth := level_width maxLvl\<rparr>) s) lvls False"
proof -
  let ?w = "level_width maxLvl"
  have w: "0 < ?w" "?w \<le> 15" using level_width_bounds [OF assms(2)] .
  have "lvls ! k = value_at s (0 + ?w * k) ?w" if k: "k < length lvls" for k
  proof -
    have "fits_width ?w (map scast lvls ! k :: u64)" using assms(3) k valid_level_fits by (auto simp: list_all_length)
    from packed_value [of 0 s ?w "map scast lvls" rest k, OF _ _ this] assms(1) k
    have "value_at s (0 + ?w * k) ?w = (scast (lvls ! k) :: u64)" by simp
    then have "ucast (value_at s (0 + ?w * k) ?w :: u64) = lvls ! k" by (simp add: ucast_scast_level)
    then show ?thesis using w by (simp add: ucast_value_at)
  qed
  moreover have "?w * length lvls \<le> 8 * length s" using arg_cong [OF assms(1), of length] by simp
  ultimately show ?thesis
    using w assms(4) reading_New [of s] by (auto simp: gives_def set_bit_reader_def intro!: exI [of _ s] exI [of _ 0])
qed

lemma BytesForBits64_eq: "n + 7 < 2 ^ 63 \<Longrightarrow> BytesForBits64 (int n) = int (BytesForBits n)"
proof -
  assume "n + 7 < 2 ^ 63"
  then have "wrap 64 (int n + 7) = int n + 7" by (intro wrap_id) (simp add: in_range_def)
  then show ?thesis by (simp add: BytesForBits64_def BytesForBits_eq drop_bit_eq_div zdiv_int)
qed

lemma packed_levels_trip:
  assumes "0 < sint maxLvl" "list_all (valid_level maxLvl) lvls"
    "level_width maxLvl * length lvls \<le> 8 * length buf" "level_width maxLvl * length lvls < 2 ^ 62"
  shows "\<exists>l0 l b d d'. LevelEncoder_Init new_LevelEncoder BIT_PACKED maxLvl buf = Some l0 \<and>
    LevelEncoder_Encode WriterAtBuffer l0 lvls = Some (l, length lvls, None) \<and> le_bit l = Some b \<and>
    LevelDecoder_SetData new_LevelDecoder BIT_PACKED maxLvl (int (length lvls)) (bwr_wr b) =
      (d, int (BytesForBits (length lvls * level_width maxLvl)), None) \<and>
    LevelDecoder_Decode d (replicate (length lvls) 0) = Some (d', lvls, length lvls, count_list lvls maxLvl, None) \<and> le_encoding l = BIT_PACKED \<and> length (bwr_wr b) = length buf"
proof -
  let ?w = "level_width maxLvl" and ?n = "length lvls"
  from Encode_BIT_PACKED [OF assms(1-3)] obtain l0 l b rest where
    1: "LevelEncoder_Init new_LevelEncoder BIT_PACKED maxLvl buf = Some l0"
      "LevelEncoder_Encode WriterAtBuffer l0 lvls = Some (l, length lvls, None)" "le_bit l = Some b"
      "length (bwr_wr b) = length buf" "byte_bits (bwr_wr b) = packed_bits ?w (map scast lvls :: u64 list) @ rest" by blast
  let ?l = "new_LevelDecoder\<lparr>ld_maxLvl := maxLvl, ld_encoding := BIT_PACKED, ld_remaining := int ?n, ld_bitWidth := ?w\<rparr>"
  have w: "0 < ?w" "?w \<le> 15" using level_width_bounds [OF assms(1)] .
  have "1 * ?n \<le> ?w * ?n" using w(1) by (intro mult_le_mono1) simp
  then have "?n < 2 ^ 62" using assms(4) by linarith
  then have "in_range 64 (int ?n)" "in_range 64 (int ?w)" "in_range 64 (int ?n * int ?w)"
    using assms(4) w(2) by (auto simp: in_range_def mult.commute simp flip: of_nat_mult)
  then have mul: "Mul (int ?n) (int ?w) = (int (?n * ?w), True)" using Mul_in_range by simp
  have bytes: "BytesForBits64 (int (?n * ?w)) = int (BytesForBits (?n * ?w))"
    using assms(4) by (intro BytesForBits64_eq) (simp add: mult.commute)
  have le: "BytesForBits (?n * ?w) \<le> length (bwr_wr b)" using assms(3) 1(4) by (simp add: BytesForBits_le_iff mult.commute)
  have set: "LevelDecoder_SetData new_LevelDecoder BIT_PACKED maxLvl (int ?n) (bwr_wr b) =
      (set_bit_reader ?l (bwr_wr b), int (BytesForBits (?n * ?w)), None)"
    using le by (simp add: LevelDecoder_SetData_def Let_def mul bytes del: of_nat_mult)
  have g: "gives (set_bit_reader ?l (bwr_wr b)) lvls False"
    by (rule gives_packed [OF 1(5) assms(1,2)]) (simp add: new_LevelDecoder_def)
  have "ld_remaining (set_bit_reader ?l (bwr_wr b)) = int ?n" "ld_maxLvl (set_bit_reader ?l (bwr_wr b)) = maxLvl"
    by (simp_all add: set_bit_reader_def)
  moreover have "le_encoding l = BIT_PACKED" using Encode_encoding [OF 1(2)] 1(1) by (auto simp: LevelEncoder_Init_def Let_def)
  ultimately show ?thesis using Decode_ok [OF g, of "replicate ?n 0"] set 1(1-4) by auto
qed

text \<open>C25: Levels round trip with the deprecated bit-packed encoding: what \<^verbatim>\<open>Encode\<close> wrote,
  \<^verbatim>\<open>SetData\<close> accepts, with the right number of bytes and without a false overflow report, and
  \<^verbatim>\<open>Decode\<close> delivers.\<close>

theorem packed_levels_round_trip:
  assumes "0 < sint maxLvl" "list_all (valid_level maxLvl) lvls"
    "level_width maxLvl * length lvls \<le> 8 * length buf" "level_width maxLvl * length lvls < 2 ^ 62"
  shows "\<exists>l0 l b d d'. LevelEncoder_Init new_LevelEncoder BIT_PACKED maxLvl buf = Some l0 \<and>
    LevelEncoder_Encode WriterAtBuffer l0 lvls = Some (l, length lvls, None) \<and> le_bit l = Some b \<and>
    LevelDecoder_SetData new_LevelDecoder BIT_PACKED maxLvl (int (length lvls)) (bwr_wr b) =
      (d, int (BytesForBits (length lvls * level_width maxLvl)), None) \<and>
    LevelDecoder_Decode d (replicate (length lvls) 0) = Some (d', lvls, length lvls, count_list lvls maxLvl, None)"
  using packed_levels_trip [OF assms] by blast

theorem packed_levels_round_trip_witness:
  "\<exists>l0 l b d d'. LevelEncoder_Init new_LevelEncoder BIT_PACKED 3 [0] = Some l0 \<and>
    LevelEncoder_Encode WriterAtBuffer l0 [0, 3, 3] = Some (l, length [0, 3, 3 :: u16], None) \<and> le_bit l = Some b \<and>
    LevelDecoder_SetData new_LevelDecoder BIT_PACKED 3 (int (length [0, 3, 3 :: u16])) (bwr_wr b) =
      (d, int (BytesForBits (length [0, 3, 3 :: u16] * level_width 3)), None) \<and>
    LevelDecoder_Decode d (replicate (length [0, 3, 3 :: u16]) 0) =
      Some (d', [0, 3, 3], length [0, 3, 3 :: u16], count_list [0, 3, 3 :: u16] 3, None)"
proof (rule packed_levels_round_trip)
  have "level_width 3 = 2" by code_simp
  then show "level_width 3 * length [0, 3, 3 :: u16] \<le> 8 * length [0 :: byte]"
    "level_width 3 * length [0, 3, 3 :: u16] < 2 ^ 62" by simp_all
qed (simp_all add: valid_level_def)

text \<open>C26: \<^verbatim>\<open>Decode\<close> of a version 2 data page, on a new or a reused decoder: \<^verbatim>\<open>SetDataV2\<close> accepts a
  run-length encoded block, and \<^verbatim>\<open>Decode\<close> delivers its levels, as many as asked for; if the page
  claims more levels than the block holds, it delivers those there are and reports
  \<^verbatim>\<open>io.ErrUnexpectedEOF\<close>.\<close>

theorem levels_v2_decode:
  assumes "encodes (level_width maxLvl) s us" "0 < sint maxLvl" "int (length out) \<le> nbuffered"
    "case ld_rle l of None \<Rightarrow> True | Some r \<Rightarrow> length (br_raw (dec_r r)) = 8"
  shows "\<exists>d d'. LevelDecoder_SetDataV2 l (int (length s)) maxLvl nbuffered (s @ rest) = (d, None) \<and>
    LevelDecoder_Decode d out = Some (d', take (length out) (map ucast us) @ drop (length us) out,
      min (length out) (length us), count_list (take (length out) (map ucast us)) maxLvl,
      if length out \<le> length us then None else Some ErrUnexpectedEOF)"
proof -
  let ?d = "set_rle (l\<lparr>ld_maxLvl := maxLvl, ld_encoding := RLE, ld_remaining := nbuffered,
    ld_bitWidth := level_width maxLvl\<rparr>) s"
  have "LevelDecoder_SetDataV2 l (int (length s)) maxLvl nbuffered (s @ rest) = (?d, None)"
    by (simp add: LevelDecoder_SetDataV2_def Let_def)
  moreover have "ld_remaining ?d = nbuffered" "ld_maxLvl ?d = maxLvl" by (simp_all add: set_rle_def)
  ultimately show ?thesis
    using Decode_ok [OF gives_rle [OF assms(1,2,4)], of out nbuffered] assms(3) by fastforce
qed

theorem levels_v2_decode_witness:
  "\<exists>d d'. LevelDecoder_SetDataV2 new_LevelDecoder 2 7 3 [8, 5, 77] = (d, None) \<and>
    LevelDecoder_Decode d [0, 0, 0] = Some (d', [5, 5, 5], 3, 0, None)"
proof -
  have w: "level_width 7 = 3" by code_simp
  have "encodes (level_width 7) [8, 5] [5, 5, 5, 5]" using encodes_example by (simp add: w)
  moreover have "take (length [0, 0, 0 :: u16]) (map ucast [5, 5, 5, 5 :: u64]) @ drop (length [5, 5, 5, 5 :: u64]) [0, 0, 0] = [5, 5, 5 :: u16]"
    "count_list (take (length [0, 0, 0 :: u16]) (map ucast [5, 5, 5, 5 :: u64])) (7 :: u16) = 0"
    "min (length [0, 0, 0 :: u16]) (length [5, 5, 5, 5 :: u64]) = 3" by code_simp+
  ultimately show ?thesis
    using levels_v2_decode [of 7 "[8, 5]" "[5, 5, 5, 5]" "[0, 0, 0]" 3 new_LevelDecoder "[77]"]
    by (simp only:) (simp add: new_LevelDecoder_def)
qed

text \<open>C27: \<^verbatim>\<open>Encode\<close> is \<^verbatim>\<open>EncodeNoFlush\<close> followed by \<^verbatim>\<open>Flush\<close>, for every encoding and every
  writer, on the error paths too.\<close>

theorem Encode_flushes:
  "LevelEncoder_Encode ops l lvls =
    do { (l, nencoded, err) \<leftarrow> LevelEncoder_EncodeNoFlush ops l lvls;
         l \<leftarrow> LevelEncoder_Flush ops l;
         Some (l, nencoded, err) }"
proof (cases "lvls = []")
  case True
  have "RleEncoder_PutBatchLevels ops r [] = Some (r, 0, None)" for r
    unfolding RleEncoder_PutBatchLevels_def by (subst put_levels_loop.simps) simp
  then show ?thesis using True
    by (auto simp: LevelEncoder_Encode_def LevelEncoder_EncodeNoFlush_def LevelEncoder_Flush_def split: Option.bind_splits)
next
  case False
  then show ?thesis
    by (auto simp: LevelEncoder_Encode_def LevelEncoder_EncodeNoFlush_def LevelEncoder_Flush_def split: Option.bind_splits)
qed

text \<open>What the encoder of a page hands on: the bytes \<^verbatim>\<open>Len\<close> tells, behind that length in four bytes, or the whole buffer of packed levels.\<close>

definition level_block :: "byte list LevelEncoder \<Rightarrow> byte list option" where
  "level_block l =
     (if le_encoding l = RLE
      then do { len \<leftarrow> LevelEncoder_Len l; r \<leftarrow> le_rle l; bs \<leftarrow> slice (bwr_wr (enc_w r)) 0 len; Some (bytes_of_word 4 (of_nat len :: u32) @ bs) }
      else do { b \<leftarrow> le_bit l; Some (bwr_wr b) })"

lemma size_RLE_le: "LevelEncodingMaxBufferSize RLE maxLvl n = Some sz \<Longrightarrow> MaxRLEBufferSize (level_width maxLvl) n \<le> sz"
  by (auto simp: LevelEncodingMaxBufferSize_def Let_def)

text \<open>C28: \<^verbatim>\<open>LevelEncodingMaxBufferSize\<close> is enough. With a buffer of that size, or a larger one, \<^verbatim>\<open>Encode\<close> encodes all levels in either
  encoding and loses nothing: what was written, no more than that many bytes (and the four of the length before run-length encoded
  levels), is accepted by \<^verbatim>\<open>SetData\<close> as exactly that many bytes of levels, and \<^verbatim>\<open>Decode\<close> returns the levels.\<close>

theorem level_buffer_size_enough:
  assumes "0 < sint maxLvl" "list_all (valid_level maxLvl) lvls"
    "LevelEncodingMaxBufferSize enc maxLvl (length lvls) = Some sz" "sz \<le> length buf" "sz < 2 ^ 31"
  shows "\<exists>l0 l block d nbytes d'. LevelEncoder_Init new_LevelEncoder enc maxLvl buf = Some l0 \<and>
    LevelEncoder_Encode WriterAtBuffer l0 lvls = Some (l, length lvls, None) \<and> level_block l = Some block \<and>
    LevelDecoder_SetData new_LevelDecoder enc maxLvl (int (length lvls)) block = (d, int nbytes, None) \<and>
    nbytes \<le> length block \<and> nbytes \<le> (if enc = RLE then 4 + sz else sz) \<and>
    LevelDecoder_Decode d (replicate (length lvls) 0) = Some (d', lvls, length lvls, count_list lvls maxLvl, None)"
proof (cases "enc = RLE")
  case True
  then have sz: "MaxRLEBufferSize (level_width maxLvl) (length lvls) \<le> sz" using size_RLE_le assms(3) by blast
  from rle_levels_trip [OF assms(1,2), of buf] sz assms(4,5) obtain l0 l r d d' where
    t: "LevelEncoder_Init new_LevelEncoder RLE maxLvl buf = Some l0" "LevelEncoder_Encode WriterAtBuffer l0 lvls = Some (l, length lvls, None)"
      "le_rle l = Some r" "LevelDecoder_SetData new_LevelDecoder RLE maxLvl (int (length lvls))
        (bytes_of_word 4 (of_nat (le_rleLen l) :: u32) @ take (le_rleLen l) (bwr_wr (enc_w r))) = (d, int (le_rleLen l) + 4, None)"
      "LevelDecoder_Decode d (replicate (length lvls) 0) = Some (d', lvls, length lvls, count_list lvls maxLvl, None)"
      "le_rleLen l \<le> sz" "le_rleLen l \<le> length (bwr_wr (enc_w r))" "le_encoding l = RLE" by (auto dest: order_trans)
  have "level_block l = Some (bytes_of_word 4 (of_nat (le_rleLen l) :: u32) @ take (le_rleLen l) (bwr_wr (enc_w r)))"
    using t(3,7,8) by (simp add: level_block_def LevelEncoder_Len_def slice_def)
  moreover have "int (le_rleLen l) + 4 = int (4 + le_rleLen l)" by simp
  ultimately show ?thesis using t(1,2,4-7) True by (intro exI [of _ l0] exI [of _ l] exI [of _ d] exI [of _ "4 + le_rleLen l"] exI [of _ d']
    exI [of _ "bytes_of_word 4 (of_nat (le_rleLen l) :: u32) @ take (le_rleLen l) (bwr_wr (enc_w r))"]) simp
next
  case False
  then have enc: "enc = BIT_PACKED" and sz: "sz = BytesForBits (length lvls * level_width maxLvl)"
    using assms(3) by (cases enc; simp add: LevelEncodingMaxBufferSize_def Let_def)+
  have bits: "level_width maxLvl * length lvls \<le> 8 * sz" using BytesForBits_le_iff [of "length lvls * level_width maxLvl" sz] by (simp add: sz mult.commute)
  from packed_levels_trip [OF assms(1,2), of buf] bits assms(4,5) obtain l0 l b d d' where
    t: "LevelEncoder_Init new_LevelEncoder BIT_PACKED maxLvl buf = Some l0" "LevelEncoder_Encode WriterAtBuffer l0 lvls = Some (l, length lvls, None)"
      "le_bit l = Some b" "LevelDecoder_SetData new_LevelDecoder BIT_PACKED maxLvl (int (length lvls)) (bwr_wr b) = (d, int sz, None)"
      "LevelDecoder_Decode d (replicate (length lvls) 0) = Some (d', lvls, length lvls, count_list lvls maxLvl, None)"
      "le_encoding l = BIT_PACKED" "length (bwr_wr b) = length buf" unfolding sz by (auto dest: order_trans)
  then show ?thesis using assms(4) unfolding enc
    by (intro exI [of _ l0] exI [of _ l] exI [of _ "bwr_wr b"] exI [of _ d] exI [of _ sz] exI [of _ d']) (simp add: level_block_def)
qed

theorem level_buffer_size_enough_witness:
  "\<exists>l0 l block d nbytes d'. LevelEncoder_Init new_LevelEncoder BIT_PACKED 1 [0] = Some l0 \<and>
    LevelEncoder_Encode WriterAtBuffer l0 [1, 0] = Some (l, length [1, 0 :: u16], None) \<and> level_block l = Some block \<and>
    LevelDecoder_SetData new_LevelDecoder BIT_PACKED 1 (int (length [1, 0 :: u16])) block = (d, int nbytes, None) \<and>
    nbytes \<le> length block \<and> nbytes \<le> (if BIT_PACKED = RLE then 4 + 1 else 1) \<and>
    LevelDecoder_Decode d (replicate (length [1, 0 :: u16]) 0) = Some (d', [1, 0], length [1, 0 :: u16], count_list [1, 0 :: u16] 1, None)"
proof (rule level_buffer_size_enough)
  show "LevelEncodingMaxBufferSize BIT_PACKED 1 (length [1, 0 :: u16]) = Some 1" by code_simp
qed (simp_all add: valid_level_def)

end
