(* ===== verification/Memo_Table.thy ===== *)
theory Memo_Table
  imports Bitutil "HOL-Library.Multiset"
begin

unbundle bit_operations_syntax

text \<open>
  The hash table with open addressing and the memo table of \<^verbatim>\<open>internal/hashing/xxh3_memo_table_types.go\<close>, with
  the hash functions of \<^verbatim>\<open>hash_funcs.go\<close> for values of fixed length. A value is the word of its bits; what
  depends on its type, the function \<^verbatim>\<open>hash\<close> and the comparison by \<^verbatim>\<open>cmp.Compare\<close>, is an argument of the
  operations. A pointer into the entries, which \<^verbatim>\<open>Lookup\<close> returns and \<^verbatim>\<open>Insert\<close> writes through, is its index.
  The probing loop would run forever on a full table, so that it is a partial function.
\<close>

section \<open>The source\<close>

definition hashInt :: "u64 \<Rightarrow> nat \<Rightarrow> u64" where
  "hashInt val alg =
     word_of_bytes (rev (bytes_of_word 8 (([11400714785074694791, 14029467366897019727] ! alg) * val)))"

definition hashFloat32 :: "32 word \<Rightarrow> nat \<Rightarrow> u64" where
  "hashFloat32 val alg =
     (let x = ucast val; hx = hashInt x alg; hy = hashInt x (1 - alg) in 4 XOR hx XOR hy)"

definition hashFloat64 :: "64 word \<Rightarrow> nat \<Rightarrow> u64" where
  "hashFloat64 val alg =
     (let hx = hashInt (ucast (ucast (drop_bit 32 val) :: u32)) alg; hy = hashInt (ucast (ucast val :: u32)) (1 - alg)
      in 8 XOR hx XOR hy)"

text \<open>The bit patterns of the floating-point numbers: an exponent of ones is an infinity or not a number, and the
  two zeros differ in the sign only. \<^verbatim>\<open>math.NaN()\<close> is one of the patterns, which \<^verbatim>\<open>float32\<close> shortens.\<close>

definition isNaN32 :: "32 word \<Rightarrow> bool" where
  "isNaN32 v \<longleftrightarrow> v AND 0x7F800000 = 0x7F800000 \<and> v AND 0x007FFFFF \<noteq> 0"

definition isNaN64 :: "64 word \<Rightarrow> bool" where
  "isNaN64 v \<longleftrightarrow> v AND 0x7FF0000000000000 = 0x7FF0000000000000 \<and> v AND 0x000FFFFFFFFFFFFF \<noteq> 0"

definition hash_signed :: "'a::len word \<Rightarrow> nat \<Rightarrow> u64" where
  "hash_signed val alg = hashInt (scast val) alg"

definition hash_unsigned :: "'a::len word \<Rightarrow> nat \<Rightarrow> u64" where
  "hash_unsigned val alg = hashInt (ucast val) alg"

definition hash_float32 :: "32 word \<Rightarrow> nat \<Rightarrow> u64" where
  "hash_float32 v alg = (if isNaN32 v then hashFloat32 0x7FC00000 alg else hashFloat32 v alg)"

definition hash_float64 :: "64 word \<Rightarrow> nat \<Rightarrow> u64" where
  "hash_float64 v alg = (if isNaN64 v then hashFloat64 0x7FF8000000000001 alg else hashFloat64 v alg)"

text \<open>\<^verbatim>\<open>cmp.Compare(x, y) == 0\<close>, for integers and for the bit patterns of floating-point numbers.\<close>

definition same_int :: "'a::len word \<Rightarrow> 'a word \<Rightarrow> bool" where
  "same_int x y \<longleftrightarrow> x = y"

definition same_float32 :: "32 word \<Rightarrow> 32 word \<Rightarrow> bool" where
  "same_float32 x y \<longleftrightarrow> isNaN32 x \<and> isNaN32 y \<or> \<not> isNaN32 x \<and> \<not> isNaN32 y \<and> (x = y \<or> x AND 0x7FFFFFFF = 0 \<and> y AND 0x7FFFFFFF = 0)"

definition same_float64 :: "64 word \<Rightarrow> 64 word \<Rightarrow> bool" where
  "same_float64 x y \<longleftrightarrow> isNaN64 x \<and> isNaN64 y \<or>
     \<not> isNaN64 x \<and> \<not> isNaN64 y \<and> (x = y \<or> x AND 0x7FFFFFFFFFFFFFFF = 0 \<and> y AND 0x7FFFFFFFFFFFFFFF = 0)"

record 'a entry =
  e_h :: u64
  e_val :: 'a
  e_memoIdx :: "32 word"

definition entry_Valid :: "'a entry \<Rightarrow> bool" where
  "entry_Valid e \<longleftrightarrow> e_h e \<noteq> 0"

record 'a HashTable =
  ht_cap :: u64
  ht_capMask :: u64
  ht_size :: u64
  ht_entries :: "'a entry list"

text \<open>A new array of entries holds zero values.\<close>

definition make_entries :: "u64 \<Rightarrow> 'a::zero entry list" where
  "make_entries n = replicate (unat n) \<lparr>e_h = 0, e_val = 0, e_memoIdx = 0\<rparr>"

definition NewHashTable :: "u64 \<Rightarrow> 'a::zero HashTable" where
  "NewHashTable cap =
     (let initCap = NextPowerOf2 (max cap 32)
      in \<lparr>ht_cap = initCap, ht_capMask = initCap - 1, ht_size = 0, ht_entries = make_entries initCap\<rparr>)"

definition HashTable_Reset :: "'a::zero HashTable \<Rightarrow> u64 \<Rightarrow> 'a HashTable" where
  "HashTable_Reset h cap =
     (let c = NextPowerOf2 (max cap 32)
      in h\<lparr>ht_cap := c, ht_capMask := c - 1, ht_size := 0, ht_entries := make_entries c\<rparr>)"

definition needUpsize :: "'a HashTable \<Rightarrow> bool" where
  "needUpsize h \<longleftrightarrow> ht_size h * 2 \<ge> ht_cap h"

definition fixHash :: "u64 \<Rightarrow> u64" where
  "fixHash v = (if v = 0 then 42 else v)"

partial_function (option) lookup_loop ::
  "'a entry list \<Rightarrow> u64 \<Rightarrow> u64 \<Rightarrow> ('a \<Rightarrow> bool) \<Rightarrow> u64 \<Rightarrow> u64 \<Rightarrow> (u64 \<times> bool) option" where
  "lookup_loop entries v szMask cmp i perturb =
     do { e \<leftarrow> idx entries (unat i);
          if e_h e = v \<and> cmp (e_val e) then Some (i, True)
          else if e_h e = 0 then Some (i, False)
          else lookup_loop entries v szMask cmp ((i + perturb) AND szMask) (drop_bit 5 perturb + 1) }"

definition HashTable_lookup :: "'a HashTable \<Rightarrow> u64 \<Rightarrow> u64 \<Rightarrow> ('a \<Rightarrow> bool) \<Rightarrow> (u64 \<times> bool) option" where
  "HashTable_lookup h v szMask cmp =
     (let v = fixHash v in lookup_loop (ht_entries h) v szMask cmp (v AND szMask) (drop_bit 5 v + 1))"

definition HashTable_Lookup :: "'a HashTable \<Rightarrow> u64 \<Rightarrow> ('a \<Rightarrow> bool) \<Rightarrow> (u64 \<times> bool) option" where
  "HashTable_Lookup h v cmp = HashTable_lookup h v (ht_capMask h) cmp"

fun rehash :: "'a entry list \<Rightarrow> 'a HashTable \<Rightarrow> u64 \<Rightarrow> 'a HashTable option" where
  "rehash [] h newMask = Some h"
| "rehash (e # es) h newMask =
     (if entry_Valid e then
        do { (i, _) \<leftarrow> HashTable_lookup h (e_h e) newMask (\<lambda>_. False);
             entries \<leftarrow> upd (ht_entries h) (unat i) e;
             rehash es (h\<lparr>ht_entries := entries\<rparr>) newMask }
      else rehash es h newMask)"

definition upsize :: "'a::zero HashTable \<Rightarrow> u64 \<Rightarrow> 'a HashTable option" where
  "upsize h newcap =
     do { let newMask = newcap - 1;
          h' \<leftarrow> rehash (ht_entries h) (h\<lparr>ht_entries := make_entries newcap\<rparr>) newMask;
          Some (h'\<lparr>ht_cap := newcap, ht_capMask := newMask\<rparr>) }"

definition HashTable_Insert :: "'a::zero HashTable \<Rightarrow> u64 \<Rightarrow> u64 \<Rightarrow> 'a \<Rightarrow> 32 word \<Rightarrow> 'a HashTable option" where
  "HashTable_Insert h i v val memoIdx =
     do { entries \<leftarrow> upd (ht_entries h) (unat i) \<lparr>e_h = fixHash v, e_val = val, e_memoIdx = memoIdx\<rparr>;
          let h = h\<lparr>ht_entries := entries, ht_size := ht_size h + 1\<rparr>;
          if needUpsize h then upsize h (ht_cap h * 2 * 2) else Some h }"

text \<open>\<^verbatim>\<open>VisitEntries\<close>, with a callback on a state of any type that may panic.\<close>

fun visit_entries :: "('a entry \<Rightarrow> 's \<Rightarrow> 's option) \<Rightarrow> 'a entry list \<Rightarrow> 's \<Rightarrow> 's option" where
  "visit_entries visit [] s = Some s"
| "visit_entries visit (e # es) s = (if entry_Valid e then do { s \<leftarrow> visit e s; visit_entries visit es s } else visit_entries visit es s)"

definition VisitEntries :: "'a HashTable \<Rightarrow> ('a entry \<Rightarrow> 's \<Rightarrow> 's option) \<Rightarrow> 's \<Rightarrow> 's option" where
  "VisitEntries h visit s = visit_entries visit (ht_entries h) s"

definition HashTable_Truncate :: "'a::zero HashTable \<Rightarrow> u64 \<Rightarrow> 'a HashTable option" where
  "HashTable_Truncate h sz =
     VisitEntries h (\<lambda>e truncated.
       if (scast (e_memoIdx e) :: u64) \<ge> sz then Some truncated
       else do { (i, _) \<leftarrow> HashTable_Lookup truncated (e_h e) (\<lambda>_. False);
                 HashTable_Insert truncated i (e_h e) (e_val e) (e_memoIdx e) }) (NewHashTable sz)"

definition HashTable_CopyValuesSubset :: "'a HashTable \<Rightarrow> nat \<Rightarrow> 'a list \<Rightarrow> 'a list option" where
  "HashTable_CopyValuesSubset h start out =
     VisitEntries h (\<lambda>e out.
       let i = e_memoIdx e - of_nat start in if sint i \<ge> 0 then upd out (nat (sint i)) (e_val e) else Some out) out"

definition HashTable_CopyValues :: "'a HashTable \<Rightarrow> 'a list \<Rightarrow> 'a list option" where
  "HashTable_CopyValues h out = HashTable_CopyValuesSubset h 0 out"

definition KeyNotFound :: "32 word" where
  "KeyNotFound = - 1"

record 'a Table =
  t_tbl :: "'a HashTable"
  t_nullIdx :: "32 word"

definition NewMemoTable :: "u64 \<Rightarrow> 'a::zero Table" where
  "NewMemoTable num = \<lparr>t_tbl = NewHashTable num, t_nullIdx = KeyNotFound\<rparr>"

definition Table_Reset :: "'a::zero Table \<Rightarrow> 'a Table" where
  "Table_Reset t = t\<lparr>t_tbl := HashTable_Reset (t_tbl t) 32, t_nullIdx := KeyNotFound\<rparr>"

definition Table_GetNull :: "'a Table \<Rightarrow> int \<times> bool" where
  "Table_GetNull t = (sint (t_nullIdx t), t_nullIdx t \<noteq> KeyNotFound)"

definition Table_Size :: "'a Table \<Rightarrow> nat" where
  "Table_Size t = unat (ht_size (t_tbl t)) + (if snd (Table_GetNull t) then 1 else 0)"

definition Table_Truncate :: "'a::zero Table \<Rightarrow> int \<Rightarrow> 'a Table option" where
  "Table_Truncate t sz =
     (if sz < 0 then None
      else if sz \<ge> int (Table_Size t) then Some t
      else do { tbl \<leftarrow> HashTable_Truncate (t_tbl t) (of_int sz);
                let t = t\<lparr>t_tbl := tbl\<rparr>;
                Some (if sint (t_nullIdx t) \<ge> sint (of_int sz :: 32 word) then t\<lparr>t_nullIdx := KeyNotFound\<rparr> else t) })"

definition Table_GetOrInsertNull :: "'a Table \<Rightarrow> 'a Table \<times> int \<times> bool" where
  "Table_GetOrInsertNull t =
     (let (i, found) = Table_GetNull t
      in if \<not> found then (t\<lparr>t_nullIdx := of_nat (Table_Size t)\<rparr>, int (Table_Size t), False) else (t, i, True))"

definition Table_CopyValuesSubset :: "'a Table \<Rightarrow> nat \<Rightarrow> 'a list \<Rightarrow> 'a list option" where
  "Table_CopyValuesSubset t start out = HashTable_CopyValuesSubset (t_tbl t) start out"

definition Table_CopyValues :: "'a Table \<Rightarrow> 'a list \<Rightarrow> 'a list option" where
  "Table_CopyValues t out = Table_CopyValuesSubset t 0 out"

definition Table_Get :: "('a \<Rightarrow> nat \<Rightarrow> u64) \<Rightarrow> ('a \<Rightarrow> 'a \<Rightarrow> bool) \<Rightarrow> 'a Table \<Rightarrow> 'a \<Rightarrow> (int \<times> bool) option" where
  "Table_Get hash same t val =
     do { (i, ok) \<leftarrow> HashTable_Lookup (t_tbl t) (hash val 0) (same val);
          if ok then do { e \<leftarrow> idx (ht_entries (t_tbl t)) (unat i); Some (sint (e_memoIdx e), True) }
          else Some (sint KeyNotFound, False) }"

definition Table_Exists :: "('a \<Rightarrow> nat \<Rightarrow> u64) \<Rightarrow> ('a \<Rightarrow> 'a \<Rightarrow> bool) \<Rightarrow> 'a Table \<Rightarrow> 'a \<Rightarrow> bool option" where
  "Table_Exists hash same t val = map_option snd (Table_Get hash same t val)"

definition InsertOrGet :: "('a::zero \<Rightarrow> nat \<Rightarrow> u64) \<Rightarrow> ('a \<Rightarrow> 'a \<Rightarrow> bool) \<Rightarrow> 'a Table \<Rightarrow> 'a \<Rightarrow> ('a Table \<times> int \<times> bool) option" where
  "InsertOrGet hash same t val =
     do { let h = hash val 0;
          (i, ok) \<leftarrow> HashTable_Lookup (t_tbl t) h (same val);
          if ok then do { e \<leftarrow> idx (ht_entries (t_tbl t)) (unat i); Some (t, sint (e_memoIdx e), True) }
          else do { let n = Table_Size t;
                    tbl \<leftarrow> HashTable_Insert (t_tbl t) i h val (of_nat n);
                    Some (t\<lparr>t_tbl := tbl\<rparr>, int n, False) } }"

definition GetOrInsert :: "('a::zero \<Rightarrow> nat \<Rightarrow> u64) \<Rightarrow> ('a \<Rightarrow> 'a \<Rightarrow> bool) \<Rightarrow> 'a Table \<Rightarrow> 'a \<Rightarrow> ('a Table \<times> int \<times> bool) option" where
  "GetOrInsert hash same t val = InsertOrGet hash same t val"

section \<open>The probe sequence\<close>

text \<open>The slots a hash value visits in a table of \<open>2 ^ k\<close> entries, with the step to the next one.\<close>

fun probe :: "u64 \<Rightarrow> nat \<Rightarrow> nat \<Rightarrow> u64 \<times> u64" where
  "probe v k 0 = (take_bit k v, drop_bit 5 v + 1)"
| "probe v k (Suc n) = (let (i, p) = probe v k n in (take_bit k (i + p), drop_bit 5 p + 1))"

abbreviation slot_of :: "u64 \<Rightarrow> nat \<Rightarrow> nat \<Rightarrow> nat" where
  "slot_of v k n \<equiv> unat (fst (probe v k n))"

lemma and_mask_word: "w AND (2 ^ k - 1) = take_bit k w" for w :: "'a::len word"
  by (simp add: take_bit_eq_mask mask_eq_exp_minus_1)

lemma slot_less: "k < 64 \<Longrightarrow> slot_of v k n < 2 ^ k"
  by (cases n) (simp_all add: Let_def split_beta unsigned_take_bit_eq)

lemma perturb_step: "unat (drop_bit 5 p + 1 :: u64) = unat p div 32 + 1"
proof -
  have "unat (drop_bit 5 p) = drop_bit 5 (unat p)" by (rule unat_drop_bit_eq)
  then have "unat (drop_bit 5 p) = unat p div 32" by (simp only: drop_bit_eq_div) simp
  moreover have "unat p < 2 ^ 64" using unsigned_less [where ?'a = nat, of p] by simp
  moreover from this have "unat p div 32 < 2 ^ 59" by (simp add: div_less_iff_less_mult)
  ultimately show ?thesis by (simp add: unat_plus_if_size word_size)
qed

text \<open>The step shrinks to 1, and from then on the slots are visited one after the other.\<close>

lemma perturb_reaches_1: "\<exists>m. snd (probe v k (n + m)) = 1"
proof (induction "unat (snd (probe v k n))" arbitrary: n rule: less_induct)
  case less
  let ?q = "unat (snd (probe v k n))"
  have pos: "0 < ?q"
  proof (cases n)
    case 0
    then show ?thesis by (simp only: probe.simps snd_conv perturb_step)
  next
    case (Suc m)
    then show ?thesis by (simp only: probe.simps Let_def split_beta snd_conv perturb_step)
  qed
  show ?case
  proof (cases "?q = 1")
    case True
    then have "snd (probe v k (n + 0)) = 1" by (simp add: word_unat_eq_iff)
    then show ?thesis by blast
  next
    case False
    have "unat (snd (probe v k (Suc n))) = ?q div 32 + 1" by (simp only: probe.simps Let_def split_beta snd_conv perturb_step)
    then have "unat (snd (probe v k (Suc n))) < ?q" using False pos by linarith
    from less.hyps [OF this] obtain m where "snd (probe v k (n + Suc m)) = 1" by auto
    then show ?thesis by blast
  qed
qed

lemma linear_probe:
  assumes "snd (probe v k n) = 1" "k < 64"
  shows "snd (probe v k (n + m)) = 1 \<and> slot_of v k (n + m) = (slot_of v k n + m) mod 2 ^ k"
proof (induction m)
  case 0
  then show ?case using assms slot_less [OF assms(2)] by simp
next
  case (Suc m)
  let ?i = "fst (probe v k (n + m))"
  have "unat (?i + 1) mod 2 ^ k = (unat ?i + 1) mod 2 ^ k"
  proof -
    have "unat (?i + 1) = (unat ?i + 1) mod 2 ^ 64" by (simp add: unat_word_ariths)
    moreover have "(2::nat) ^ k dvd 2 ^ 64" using assms(2) by (intro le_imp_power_dvd) simp
    ultimately show ?thesis by (simp add: mod_mod_cancel)
  qed
  moreover have "slot_of v k (n + Suc m) = take_bit k (unat (?i + 1))"
    using Suc by (simp add: Let_def split_beta unsigned_take_bit_eq)
  ultimately have "slot_of v k (n + Suc m) = (unat ?i + 1) mod 2 ^ k" by (simp add: take_bit_nat_def)
  moreover have "drop_bit 5 (1 :: u64) + 1 = 1" by simp
  ultimately show ?case using Suc by (simp add: Let_def split_beta mod_Suc_eq)
qed

lemma probe_covers:
  assumes "k < 64" "s < 2 ^ k"
  shows "\<exists>n. slot_of v k n = s"
proof -
  obtain n where n: "snd (probe v k n) = 1" using perturb_reaches_1 [of v k 0] by auto
  let ?i = "slot_of v k n" and ?N = "2 ^ k :: nat"
  have i: "?i < ?N" by (rule slot_less [OF assms(1)])
  have "(?i + (?N - ?i + s)) mod ?N = s" using i assms(2) by simp
  then show ?thesis using linear_probe [OF n assms(1), of "?N - ?i + s"] by metis
qed

section \<open>Tables in which every entry is found\<close>

definition reach :: "'a entry list \<Rightarrow> nat \<Rightarrow> u64 \<Rightarrow> nat \<Rightarrow> bool" where
  "reach es k v i \<longleftrightarrow> (\<exists>n. slot_of v k n = i \<and> (\<forall>m<n. entry_Valid (es ! slot_of v k m)))"

text \<open>The entries are where the probe sequence of their hash value leads, over slots that are taken, and there
  is a free slot.\<close>

definition placed :: "'a entry list \<Rightarrow> nat \<Rightarrow> bool" where
  "placed es k \<longleftrightarrow> k < 64 \<and> length es = 2 ^ k \<and> (\<exists>i<length es. \<not> entry_Valid (es ! i)) \<and>
     (\<forall>i<length es. entry_Valid (es ! i) \<longrightarrow> reach es k (e_h (es ! i)) i)"

lemma lookup_loop_probe:
  assumes "length es = 2 ^ k" "k < 64" "\<forall>m<n. entry_Valid (es ! slot_of v k m) \<and> \<not> (e_h (es ! slot_of v k m) = v \<and> cmp (e_val (es ! slot_of v k m)))"
  shows "lookup_loop es v (2 ^ k - 1) cmp (v AND (2 ^ k - 1)) (drop_bit 5 v + 1) =
    lookup_loop es v (2 ^ k - 1) cmp (fst (probe v k n)) (snd (probe v k n))"
  using assms(3)
proof (induction n)
  case 0
  then show ?case by (simp add: and_mask_word)
next
  case (Suc n)
  let ?e = "es ! slot_of v k n"
  have "lookup_loop es v (2 ^ k - 1) cmp (fst (probe v k n)) (snd (probe v k n)) =
    lookup_loop es v (2 ^ k - 1) cmp (fst (probe v k (Suc n))) (snd (probe v k (Suc n)))"
    using spec [OF Suc.prems, of n] slot_less [OF assms(2), of v n] assms(1)
    by (subst lookup_loop.simps) (auto simp: entry_Valid_def and_mask_word Let_def split_beta)
  then show ?case using Suc by simp
qed

text \<open>The search ends, at the entry it looks for or, when there is none, at a free slot on the way of the hash
  value.\<close>

lemma lookup_loop_ok:
  assumes p: "placed es k" and v: "v \<noteq> 0"
  shows "\<exists>i ok. lookup_loop es v (2 ^ k - 1) cmp (v AND (2 ^ k - 1)) (drop_bit 5 v + 1) = Some (i, ok) \<and> unat i < length es \<and>
    (if ok then e_h (es ! unat i) = v \<and> cmp (e_val (es ! unat i))
     else \<not> entry_Valid (es ! unat i) \<and> reach es k v (unat i) \<and> (\<forall>j<length es. e_h (es ! j) = v \<longrightarrow> \<not> cmp (e_val (es ! j))))"
proof -
  have k: "k < 64" "length es = 2 ^ k" using p by (auto simp: placed_def)
  let ?hit = "\<lambda>n. e_h (es ! slot_of v k n) = v \<and> cmp (e_val (es ! slot_of v k n))"
  let ?stop = "\<lambda>n. \<not> entry_Valid (es ! slot_of v k n) \<or> ?hit n"
  obtain s where "s < 2 ^ k" "\<not> entry_Valid (es ! s)" using p by (auto simp: placed_def)
  then obtain n0 where "?stop n0" using probe_covers [OF k(1)] by metis
  then obtain n where n: "?stop n" "\<forall>m<n. \<not> ?stop m" using exists_least_iff [of ?stop] by blast
  define i where "i = fst (probe v k n)"
  have i: "unat i < length es" using slot_less [OF k(1), of v n] k(2) by (simp add: i_def)
  have "lookup_loop es v (2 ^ k - 1) cmp (v AND (2 ^ k - 1)) (drop_bit 5 v + 1) = lookup_loop es v (2 ^ k - 1) cmp i (snd (probe v k n))"
    unfolding i_def using n(2) by (intro lookup_loop_probe [OF k(2,1)]) blast
  also have "\<dots> = Some (i, ?hit n)" using n(1) i v by (subst lookup_loop.simps) (auto simp: entry_Valid_def i_def)
  finally have loop: "lookup_loop es v (2 ^ k - 1) cmp (v AND (2 ^ k - 1)) (drop_bit 5 v + 1) = Some (i, ?hit n)" .
  have r: "reach es k v (unat i)" unfolding reach_def using n(2) by (intro exI [of _ n]) (simp add: i_def)
  have "\<not> cmp (e_val (es ! j))" if "\<not> ?hit n" "j < length es" "e_h (es ! j) = v" for j
  proof
    assume cmp: "cmp (e_val (es ! j))"
    have "entry_Valid (es ! j)" using that(3) v by (simp add: entry_Valid_def)
    then have "reach es k v j" using p that(2,3) by (auto simp: placed_def)
    then obtain m where m: "slot_of v k m = j" "\<forall>l<m. entry_Valid (es ! slot_of v k l)" by (auto simp: reach_def)
    then have hit: "?hit m" using that(3) cmp by simp
    then have "n \<le> m" using n(2) by (meson not_less)
    moreover have "n \<noteq> m" using hit that(1) by blast
    ultimately have "entry_Valid (es ! slot_of v k n)" using m(2) by simp
    then show False using n(1) that(1) by blast
  qed
  then show ?thesis using loop i r n(1) by (intro exI [of _ i] exI [of _ "?hit n"]) (auto simp: i_def)
qed

abbreviation valids :: "'a entry list \<Rightarrow> 'a entry multiset" where
  "valids es \<equiv> filter_mset entry_Valid (mset es)"

lemma valids_update:
  assumes "i < length es" "\<not> entry_Valid (es ! i)" "entry_Valid e"
  shows "valids (es[i := e]) = add_mset e (valids es)"
  using assms by (simp add: mset_update)

lemma placed_update:
  assumes p: "placed es k" and i: "i < length es" "\<not> entry_Valid (es ! i)" "entry_Valid e" "reach es k (e_h e) i"
    and room: "size (valids es) + 1 < 2 ^ k"
  shows "placed (es[i := e]) k"
proof -
  have keep: "entry_Valid (es[i := e] ! j)" if "entry_Valid (es ! j)" "j < length es" for j
    using that i by (cases "j = i") auto
  have "reach (es[i := e]) k v j" if "reach es k v j" for v j
  proof -
    from that obtain n where n: "slot_of v k n = j" "\<forall>m<n. entry_Valid (es ! slot_of v k m)" by (auto simp: reach_def)
    have "\<forall>m<n. entry_Valid (es[i := e] ! slot_of v k m)" using n(2) keep slot_less [of k v] p by (simp add: placed_def)
    then show ?thesis using n(1) by (auto simp: reach_def)
  qed
  then have "reach (es[i := e]) k (e_h (es[i := e] ! j)) j" if "j < length es" "entry_Valid (es[i := e] ! j)" for j
    using that p i by (cases "j = i") (auto simp: placed_def)
  moreover have "\<exists>j<length es. \<not> entry_Valid (es[i := e] ! j)"
  proof (rule ccontr)
    assume "\<not> ?thesis"
    then have "\<forall>x\<in>set (es[i := e]). entry_Valid x" by (auto simp: in_set_conv_nth)
    then have "valids (es[i := e]) = mset (es[i := e])" by (simp add: filter_mset_eq_conv)
    then have "size (valids es) + 1 = length es" using valids_update [OF i(1-3)] by (metis size_add_mset size_mset length_list_update Suc_eq_plus1)
    then show False using room p by (simp add: placed_def)
  qed
  ultimately show ?thesis using p by (simp add: placed_def)
qed

section \<open>The hash table as a multiset of entries\<close>

text \<open>\<open>ht_view h M\<close>: the valid entries of the table are \<open>M\<close>, and they fill less than half of it.\<close>

definition ht_view :: "'a HashTable \<Rightarrow> 'a entry multiset \<Rightarrow> bool" where
  "ht_view h M \<longleftrightarrow> (\<exists>k. 6 \<le> k \<and> k \<le> 60 \<and> ht_cap h = 2 ^ k \<and> ht_capMask h = 2 ^ k - 1 \<and> placed (ht_entries h) k \<and>
     M = valids (ht_entries h) \<and> unat (ht_size h) = size M \<and> 2 * size M < 2 ^ k)"

lemma unat_exp64: "k < 64 \<Longrightarrow> unat (2 ^ k :: u64) = 2 ^ k"
proof -
  assume k: "k < 64"
  have "unat (of_nat (2 ^ k) :: u64) = take_bit 64 (2 ^ k)" by (simp only: unsigned_of_nat) simp
  then show ?thesis using k by simp
qed

lemma fixHash_nonzero [simp]: "fixHash v \<noteq> 0"
  by (simp add: fixHash_def)

lemma fixHash_id [simp]: "v \<noteq> 0 \<Longrightarrow> fixHash v = v"
  by (simp add: fixHash_def)

lemma Lookup_ok:
  assumes "ht_view h M"
  shows "\<exists>i ok. HashTable_Lookup h v cmp = Some (i, ok) \<and> unat i < length (ht_entries h) \<and>
    (if ok then ht_entries h ! unat i \<in># M \<and> e_h (ht_entries h ! unat i) = fixHash v \<and> cmp (e_val (ht_entries h ! unat i))
     else \<not> entry_Valid (ht_entries h ! unat i) \<and> (\<forall>k. ht_cap h = 2 ^ k \<longrightarrow> k \<le> 60 \<longrightarrow> reach (ht_entries h) k (fixHash v) (unat i)) \<and>
       (\<forall>e\<in>#M. e_h e = fixHash v \<longrightarrow> \<not> cmp (e_val e)))"
proof -
  from assms obtain k where k: "k \<le> 60" "ht_cap h = 2 ^ k" "ht_capMask h = 2 ^ k - 1" "placed (ht_entries h) k" "M = valids (ht_entries h)"
    by (auto simp: ht_view_def)
  have uniq: "j = k" if "ht_cap h = 2 ^ j" "j \<le> 60" for j
  proof -
    have "unat (2 ^ j :: u64) = unat (2 ^ k :: u64)" using that k(2) by simp
    then show ?thesis using that(2) k(1) by (simp add: unat_exp64)
  qed
  from lookup_loop_ok [OF k(4) fixHash_nonzero, of v cmp] obtain i ok where
    i: "HashTable_Lookup h v cmp = Some (i, ok)" "unat i < length (ht_entries h)"
    "if ok then e_h (ht_entries h ! unat i) = fixHash v \<and> cmp (e_val (ht_entries h ! unat i))
     else \<not> entry_Valid (ht_entries h ! unat i) \<and> reach (ht_entries h) k (fixHash v) (unat i) \<and>
       (\<forall>j<length (ht_entries h). e_h (ht_entries h ! j) = fixHash v \<longrightarrow> \<not> cmp (e_val (ht_entries h ! j)))"
    by (auto simp: HashTable_Lookup_def HashTable_lookup_def k(3))
  show ?thesis
  proof (cases ok)
    case True
    then have "ht_entries h ! unat i \<in># M" using i(2,3) by (simp add: k(5) entry_Valid_def)
    then show ?thesis using i True by auto
  next
    case False
    have "\<not> cmp (e_val e)" if "e \<in># M" "e_h e = fixHash v" for e
      using that i(3) False unfolding k(5) by (auto simp: in_set_conv_nth)
    then show ?thesis using i False uniq by auto
  qed
qed

lemma make_entries_placed: "k \<le> 60 \<Longrightarrow> placed (make_entries (2 ^ k)) k"
  by (auto simp: placed_def make_entries_def entry_Valid_def unat_exp64 intro!: exI [of _ 0])

lemma make_entries_valids: "valids (make_entries n) = {#}"
  by (simp add: make_entries_def entry_Valid_def filter_mset_eq_conv)

text \<open>The entries of an old table are put into a new one that is big enough for them.\<close>

lemma rehash_ok:
  assumes "placed (ht_entries h) k" "size (valids (ht_entries h)) + size (valids es) < 2 ^ k"
  shows "\<exists>entries. rehash es h (2 ^ k - 1) = Some (h\<lparr>ht_entries := entries\<rparr>) \<and> placed entries k \<and>
    valids entries = valids (ht_entries h) + valids es"
  using assms
proof (induction es arbitrary: h)
  case Nil
  then show ?case by (intro exI [of _ "ht_entries h"]) simp
next
  case (Cons e es)
  show ?case
  proof (cases "entry_Valid e")
    case False
    then show ?thesis using Cons by simp
  next
    case True
    then have e: "fixHash (e_h e) = e_h e" "e_h e \<noteq> 0" by (simp_all add: entry_Valid_def)
    from lookup_loop_ok [OF Cons.prems(1) e(2), of "\<lambda>_. False"] obtain i where
      i: "HashTable_lookup h (e_h e) (2 ^ k - 1) (\<lambda>_. False) = Some (i, False)" "unat i < length (ht_entries h)"
      "\<not> entry_Valid (ht_entries h ! unat i)" "reach (ht_entries h) k (e_h e) (unat i)"
      by (auto simp: HashTable_lookup_def e(1) split: if_splits)
    let ?h = "h\<lparr>ht_entries := (ht_entries h)[unat i := e]\<rparr>"
    have v: "valids (ht_entries ?h) = add_mset e (valids (ht_entries h))" using valids_update [OF i(2,3) True] by simp
    have "placed (ht_entries ?h) k" using placed_update [OF Cons.prems(1) i(2,3) True i(4)] Cons.prems(2) True by simp
    moreover have "size (valids (ht_entries ?h)) + size (valids es) < 2 ^ k" using Cons.prems(2) True unfolding v by simp
    ultimately obtain entries where "rehash es ?h (2 ^ k - 1) = Some (?h\<lparr>ht_entries := entries\<rparr>)" "placed entries k"
      "valids entries = valids (ht_entries ?h) + valids es" using Cons.IH [of ?h] by blast
    then show ?thesis using True i(1,2) unfolding v by (intro exI [of _ entries]) simp
  qed
qed

lemma ht_view_power:
  assumes "ht_view h M"
  obtains k where "6 \<le> k" "k \<le> 60" "ht_cap h = 2 ^ k" "ht_capMask h = 2 ^ k - 1" "placed (ht_entries h) k"
    "M = valids (ht_entries h)" "unat (ht_size h) = size M" "2 * size M < 2 ^ k"
  using assms unfolding ht_view_def by blast

lemma half_room: "2 * m < 2 ^ k \<Longrightarrow> 0 < k \<Longrightarrow> 2 * Suc m \<le> 2 ^ k" for m k :: nat
  by (cases k) auto

lemma needUpsize_iff:
  assumes "ht_cap h = 2 ^ k" "k \<le> 60" "unat (ht_size h) = m" "2 * m \<le> 2 ^ k"
  shows "needUpsize h \<longleftrightarrow> 2 ^ k \<le> 2 * m"
proof -
  have "2 * m < 2 ^ 64" using assms(4) power_increasing [of k 60 "2 :: nat"] assms(2) by simp
  then have "unat (ht_size h * 2) = 2 * m" using assms(3) by (simp add: unat_mult_lem [THEN iffD1])
  moreover have "unat (2 ^ k :: u64) = 2 ^ k" using assms(2) by (simp add: unat_exp64)
  ultimately show ?thesis unfolding needUpsize_def assms(1) word_le_nat_alt by simp
qed

lemma Insert_ok:
  fixes h :: "'a::zero HashTable"
  assumes view: "ht_view h M" and i: "unat i < length (ht_entries h)" "\<not> entry_Valid (ht_entries h ! unat i)"
    "\<And>k. ht_cap h = 2 ^ k \<Longrightarrow> k \<le> 60 \<Longrightarrow> reach (ht_entries h) k (fixHash v) (unat i)" and m: "size M < 2 ^ 31"
  shows "\<exists>h'. HashTable_Insert h i v val memoIdx = Some h' \<and> ht_view h' (add_mset \<lparr>e_h = fixHash v, e_val = val, e_memoIdx = memoIdx\<rparr> M)"
proof -
  obtain k where k: "6 \<le> k" "k \<le> 60" "ht_cap h = 2 ^ k" "ht_capMask h = 2 ^ k - 1" "placed (ht_entries h) k"
    "M = valids (ht_entries h)" "unat (ht_size h) = size M" "2 * size M < 2 ^ k" by (rule ht_view_power [OF view])
  let ?e = "\<lparr>e_h = fixHash v, e_val = val, e_memoIdx = memoIdx\<rparr>"
  let ?es = "(ht_entries h)[unat i := ?e]" and ?n = "Suc (size M)"
  let ?h = "h\<lparr>ht_entries := ?es, ht_size := ht_size h + 1\<rparr>"
  have e: "entry_Valid ?e" by (simp add: entry_Valid_def)
  have n: "2 * ?n \<le> 2 ^ k" "?n < 2 ^ k" using half_room [OF k(8)] k(1) by simp_all
  have M: "valids ?es = add_mset ?e M" using valids_update [OF i(1,2) e] k(6) by simp
  have p: "placed ?es k" using placed_update [OF k(5) i(1,2) e] i(3) [OF k(3,2)] n(2) k(6) by simp
  have sz: "unat (ht_size h + 1) = ?n" using k(7) m by (simp add: unat_plus_if_size word_size)
  have insert: "HashTable_Insert h i v val memoIdx = (if needUpsize ?h then upsize ?h (ht_cap h * 2 * 2) else Some ?h)"
    using i(1) by (simp add: HashTable_Insert_def)
  have need: "needUpsize ?h \<longleftrightarrow> 2 ^ k \<le> 2 * ?n" by (rule needUpsize_iff) (use k(2,3) sz n(1) in simp_all)
  show ?thesis
  proof (cases "needUpsize ?h")
    case False
    have "ht_view ?h (add_mset ?e M)" unfolding ht_view_def
      by (intro exI [of _ k]) (use k(1-4) p M sz False need in simp)
    then show ?thesis using insert False by simp
  next
    case True
    have "(2::nat) ^ k \<le> 2 ^ 32" using True need m by simp
    then have k32: "k \<le> 32" by (rule power_le_imp_le_exp [rotated]) simp
    have cap: "ht_cap h * 2 * 2 = 2 ^ (k + 2)" by (simp add: k(3) power_add)
    let ?g = "?h\<lparr>ht_entries := make_entries (2 ^ (k + 2))\<rparr>"
    have "placed (ht_entries ?g) (k + 2)" using make_entries_placed [of "k + 2"] k32 by simp
    moreover have "size (valids (ht_entries ?g)) + size (valids ?es) < 2 ^ (k + 2)" using n unfolding M by (simp add: make_entries_valids)
    ultimately obtain entries where en: "rehash ?es ?g (2 ^ (k + 2) - 1) = Some (?g\<lparr>ht_entries := entries\<rparr>)" "placed entries (k + 2)"
      "valids entries = valids (ht_entries ?g) + valids ?es" using rehash_ok [of ?g "k + 2" ?es] by blast
    let ?r = "?g\<lparr>ht_entries := entries, ht_cap := 2 ^ (k + 2), ht_capMask := 2 ^ (k + 2) - 1\<rparr>"
    have "upsize ?h (ht_cap h * 2 * 2) = Some ?r" using en(1) unfolding upsize_def cap by simp
    moreover have "ht_view ?r (add_mset ?e M)" unfolding ht_view_def
      by (intro exI [of _ "k + 2"]) (use k32 k(1) en(2,3) M sz n in \<open>simp add: make_entries_valids\<close>)
    ultimately show ?thesis using insert True by simp
  qed
qed

lemma NewHashTable_view:
  assumes "unat cap < 2 ^ 59"
  shows "ht_view (NewHashTable cap :: 'a::zero HashTable) {#}"
proof -
  let ?c = "max cap 32" and ?k = "bits_len (max cap 32)"
  have c: "unat ?c < 2 ^ 60" "32 \<le> unat ?c" using assms by (auto simp: max_def word_le_nat_alt)
  have k: "?k \<le> 60" using c(1) by (simp only: bits_len_le_iff)
  have "\<not> ?k \<le> 5" using c(2) by (simp only: bits_len_le_iff) simp
  then have "6 \<le> ?k" by simp
  moreover have "NextPowerOf2 ?c = 2 ^ ?k" by (simp add: NextPowerOf2_def push_bit_eq_mult)
  moreover have "(0::nat) < 2 ^ ?k" by simp
  ultimately show ?thesis unfolding ht_view_def NewHashTable_def Let_def
    by (intro exI [of _ ?k]) (use k make_entries_placed [OF k, where ?'a = 'a] in \<open>simp add: make_entries_valids\<close>)
qed

lemma HashTable_Reset_view: "ht_view (HashTable_Reset h 32 :: 'a::zero HashTable) {#}"
proof -
  have "HashTable_Reset h 32 = NewHashTable 32" by (simp add: HashTable_Reset_def NewHashTable_def Let_def)
  then show ?thesis using NewHashTable_view [of 32] by simp
qed

text \<open>\<^verbatim>\<open>Truncate\<close> of a table keeps the entries of the smaller memo indexes.\<close>

lemma truncate_loop_ok:
  fixes g :: "'a::zero HashTable"
  assumes "ht_view g N" "size N + size (valids es) < 2 ^ 31"
  shows "\<exists>g'. visit_entries (\<lambda>e truncated.
       if (scast (e_memoIdx e) :: u64) \<ge> of_nat sz then Some truncated
       else do { (i, _) \<leftarrow> HashTable_Lookup truncated (e_h e) (\<lambda>_. False);
                 HashTable_Insert truncated i (e_h e) (e_val e) (e_memoIdx e) }) es g = Some g' \<and>
     ht_view g' (N + filter_mset (\<lambda>e. (scast (e_memoIdx e) :: u64) < of_nat sz) (valids es))"
  using assms
proof (induction es arbitrary: g N)
  case (Cons e es)
  show ?case
  proof (cases "entry_Valid e \<and> (scast (e_memoIdx e) :: u64) < of_nat sz")
    case False
    have "size N + size (valids es) < 2 ^ 31" using Cons.prems(2) by (simp split: if_splits)
    then show ?thesis using False Cons.IH [OF Cons.prems(1)] by (auto simp: not_less)
  next
    case True
    then have e: "\<lparr>e_h = fixHash (e_h e), e_val = e_val e, e_memoIdx = e_memoIdx e\<rparr> = e" by (cases e) (simp add: entry_Valid_def)
    from Lookup_ok [OF Cons.prems(1), of "e_h e" "\<lambda>_. False"] obtain i where
      i: "HashTable_Lookup g (e_h e) (\<lambda>_. False) = Some (i, False)" "unat i < length (ht_entries g)" "\<not> entry_Valid (ht_entries g ! unat i)"
      "\<And>k. ht_cap g = 2 ^ k \<Longrightarrow> k \<le> 60 \<Longrightarrow> reach (ht_entries g) k (fixHash (e_h e)) (unat i)" by (auto split: if_splits)
    have "size N < 2 ^ 31" using Cons.prems(2) by simp
    from Insert_ok [OF Cons.prems(1) i(2-4) this, of "e_val e" "e_memoIdx e"] obtain g' where
      g': "HashTable_Insert g i (e_h e) (e_val e) (e_memoIdx e) = Some g'" "ht_view g' (add_mset e N)" unfolding e by blast
    have "size (add_mset e N) + size (valids es) < 2 ^ 31" using Cons.prems(2) True by simp
    moreover have "\<not> of_nat sz \<le> (scast (e_memoIdx e) :: u64)" unfolding linorder_not_le using True by blast
    ultimately show ?thesis using Cons.IH [OF g'(2)] True i(1) g'(1) by simp
  qed
qed simp

section \<open>The memo table as a list\<close>

text \<open>What a memo table stands for: the list of the values in the order of their first insertion, with \<open>None\<close>
  at the place of the null. Two values are the same key when their hash values and the comparison agree.\<close>

definition key_eq :: "('a \<Rightarrow> nat \<Rightarrow> u64) \<Rightarrow> ('a \<Rightarrow> 'a \<Rightarrow> bool) \<Rightarrow> 'a \<Rightarrow> 'a \<Rightarrow> bool" where
  "key_eq hash same x y \<longleftrightarrow> fixHash (hash x 0) = fixHash (hash y 0) \<and> same x y"

definition memo_entry :: "('a \<Rightarrow> nat \<Rightarrow> u64) \<Rightarrow> nat \<Rightarrow> 'a \<Rightarrow> 'a entry" where
  "memo_entry hash i v = \<lparr>e_h = fixHash (hash v 0), e_val = v, e_memoIdx = of_nat i\<rparr>"

fun memo_entries :: "('a \<Rightarrow> nat \<Rightarrow> u64) \<Rightarrow> nat \<Rightarrow> 'a option list \<Rightarrow> 'a entry list" where
  "memo_entries hash i [] = []"
| "memo_entries hash i (None # ms) = memo_entries hash (Suc i) ms"
| "memo_entries hash i (Some v # ms) = memo_entry hash i v # memo_entries hash (Suc i) ms"

text \<open>The index of a key, and of the null.\<close>

fun find_index :: "('b \<Rightarrow> bool) \<Rightarrow> 'b list \<Rightarrow> nat option" where
  "find_index P [] = None"
| "find_index P (x # xs) = (if P x then Some 0 else map_option Suc (find_index P xs))"

abbreviation memo_index :: "('a \<Rightarrow> nat \<Rightarrow> u64) \<Rightarrow> ('a \<Rightarrow> 'a \<Rightarrow> bool) \<Rightarrow> 'a option list \<Rightarrow> 'a \<Rightarrow> nat option" where
  "memo_index hash same ms v \<equiv> find_index (\<lambda>x. \<exists>y. x = Some y \<and> key_eq hash same v y) ms"

definition memo_ok :: "('a \<Rightarrow> nat \<Rightarrow> u64) \<Rightarrow> ('a \<Rightarrow> 'a \<Rightarrow> bool) \<Rightarrow> 'a option list \<Rightarrow> bool" where
  "memo_ok hash same ms \<longleftrightarrow> length ms \<le> 2 ^ 31 \<and> (\<forall>i<length ms. \<forall>j<i. ms ! j = None \<longrightarrow> ms ! i \<noteq> None) \<and>
     (\<forall>i<length ms. \<forall>j<i. \<forall>x y. ms ! i = Some x \<longrightarrow> ms ! j = Some y \<longrightarrow> \<not> key_eq hash same x y)"

definition memo_view :: "('a \<Rightarrow> nat \<Rightarrow> u64) \<Rightarrow> ('a \<Rightarrow> 'a \<Rightarrow> bool) \<Rightarrow> 'a Table \<Rightarrow> 'a option list \<Rightarrow> bool" where
  "memo_view hash same t ms \<longleftrightarrow> memo_ok hash same ms \<and> ht_view (t_tbl t) (mset (memo_entries hash 0 ms)) \<and>
     t_nullIdx t = (case find_index (\<lambda>x. x = None) ms of None \<Rightarrow> KeyNotFound | Some i \<Rightarrow> of_nat i)"

lemma find_index_None: "find_index P xs = None \<longleftrightarrow> (\<forall>x\<in>set xs. \<not> P x)"
  by (induction xs) auto

lemma find_index_Some: "find_index P xs = Some i \<longleftrightarrow> i < length xs \<and> P (xs ! i) \<and> (\<forall>j<i. \<not> P (xs ! j))"
proof (induction xs arbitrary: i)
  case (Cons x xs)
  then show ?case by (cases i) (auto simp: All_less_Suc2)
qed simp

lemma find_index_append: "find_index P (xs @ ys) = (case find_index P xs of None \<Rightarrow> map_option (\<lambda>i. length xs + i) (find_index P ys) | Some i \<Rightarrow> Some i)"
proof (induction xs)
  case Nil
  then show ?case by (cases "find_index P ys") simp_all
qed (auto split: option.splits simp: option.map_comp comp_def intro!: option.map_cong0)

lemma memo_entries_append: "memo_entries hash i (xs @ ys) = memo_entries hash i xs @ memo_entries hash (i + length xs) ys"
  by (induction hash i xs rule: memo_entries.induct) simp_all

lemma set_memo_entries: "e \<in> set (memo_entries hash k ms) \<longleftrightarrow> (\<exists>i<length ms. \<exists>v. ms ! i = Some v \<and> e = memo_entry hash (k + i) v)"
proof (induction hash k ms rule: memo_entries.induct)
  case (2 hash k ms)
  then show ?case by (auto simp: Ex_less_Suc2)
next
  case (3 hash k v ms)
  then show ?case by (auto simp: Ex_less_Suc2)
qed simp

lemma length_memo_entries: "length (memo_entries hash k ms) = length (filter (\<lambda>x. x \<noteq> None) ms)"
  by (induction hash k ms rule: memo_entries.induct) simp_all

lemma sint_memo_idx: "i < 2 ^ 31 \<Longrightarrow> sint (of_nat i :: 32 word) = int i"
  by (simp add: signed_of_nat signed_take_bit_int_eq_self)

lemma one_None:
  "\<forall>i<length ms. \<forall>j<i. ms ! j = None \<longrightarrow> ms ! i \<noteq> None \<Longrightarrow>
    length (filter (\<lambda>x. x = None) ms) = (case find_index (\<lambda>x. x = None) ms of None \<Rightarrow> 0 | Some i \<Rightarrow> 1)"
proof (induction ms rule: rev_induct)
  case (snoc m ms)
  have "\<forall>i<length ms. \<forall>j<i. ms ! j = None \<longrightarrow> ms ! i \<noteq> None"
    using snoc.prems by (auto simp: nth_append less_Suc_eq dest: less_trans)
  note IH = snoc.IH [OF this]
  show ?case
  proof (cases "m = None \<and> find_index (\<lambda>x. x = None) ms \<noteq> None")
    case True
    then obtain j where j: "j < length ms" "ms ! j = None" by (auto simp: find_index_Some)
    then have "m \<noteq> None" using snoc.prems [rule_format, of "length ms" j] by (simp add: nth_append)
    then show ?thesis using True by blast
  next
    case False
    then show ?thesis using IH by (auto simp: find_index_append split: option.splits)
  qed
qed simp

lemma memo_idx_inj: "a < 2 ^ 32 \<Longrightarrow> b < 2 ^ 32 \<Longrightarrow> (of_nat a :: 32 word) = of_nat b \<longleftrightarrow> a = b"
  by (simp add: word_of_nat_eq_iff take_bit_nat_eq_self)

lemma distinct_memo_entries: "k + length ms \<le> 2 ^ 32 \<Longrightarrow> distinct (map e_memoIdx (memo_entries hash k ms))"
proof (induction hash k ms rule: memo_entries.induct)
  case (3 hash k v ms)
  have "of_nat k \<notin> e_memoIdx ` set (memo_entries hash (Suc k) ms)"
  proof
    assume "of_nat k \<in> e_memoIdx ` set (memo_entries hash (Suc k) ms)"
    then obtain i where i: "i < length ms" "(of_nat k :: 32 word) = of_nat (Suc k + i)"
      by (auto simp: set_memo_entries memo_entry_def simp del: of_nat_add of_nat_Suc)
    then show False using memo_idx_inj [of k "Suc k + i"] "3.prems" by simp
  qed
  then show ?case using 3 by (simp add: memo_entry_def)
qed simp_all

lemma memo_idx_diff:
  assumes "j < 2 ^ 31" "start < 2 ^ 31"
  shows "sint (of_nat j - of_nat start :: 32 word) = int j - int start"
proof -
  have "(of_nat j - of_nat start :: 32 word) = of_int (int j - int start)" by simp
  then have "sint (of_nat j - of_nat start :: 32 word) = signed_take_bit 31 (int j - int start)" by (simp only: signed_of_int) simp
  also have "\<dots> = int j - int start" using assms by (intro signed_take_bit_int_eq_self) simp_all
  finally show ?thesis .
qed

definition copies_entries :: "'a entry set \<Rightarrow> nat \<Rightarrow> 'a list \<Rightarrow> 'a list \<Rightarrow> bool" where
  "copies_entries E start out out' \<longleftrightarrow> length out' = length out \<and>
    (\<forall>j<length out. (\<forall>e\<in>E. start + j < 2 ^ 31 \<and> e_memoIdx e = of_nat (start + j) \<longrightarrow> out' ! j = e_val e) \<and>
       ((\<forall>e\<in>E. start + j < 2 ^ 31 \<longrightarrow> e_memoIdx e \<noteq> of_nat (start + j)) \<longrightarrow> out' ! j = out ! j))"

lemma visit_copy:
  assumes "distinct (map e_memoIdx (filter entry_Valid es))"
    "\<And>e. e \<in> set es \<Longrightarrow> entry_Valid e \<Longrightarrow> \<exists>j<2 ^ 31. e_memoIdx e = of_nat j \<and> j < start + length out" "start < 2 ^ 31"
  shows "\<exists>out'. visit_entries (\<lambda>e out. let i = e_memoIdx e - of_nat start in if sint i \<ge> 0 then upd out (nat (sint i)) (e_val e) else Some out) es out = Some out' \<and>
    copies_entries {e \<in> set es. entry_Valid e} start out out'"
  using assms(1,2)
proof (induction es arbitrary: out)
  case Nil
  then show ?case by (simp add: copies_entries_def)
next
  case (Cons e es)
  note IH = Cons.IH [of "_ :: 'a list"]
  show ?case
  proof (cases "entry_Valid e")
    case False
    then show ?thesis using IH [of out] Cons.prems by (auto simp: copies_entries_def)
  next
    case True
    then obtain j0 where j0: "j0 < 2 ^ 31" "e_memoIdx e = of_nat j0" "j0 < start + length out" using Cons.prems(2) [of e] by auto
    define xs where "xs = (if start \<le> j0 then out[j0 - start := e_val e] else out)"
    have len: "length xs = length out" by (simp add: xs_def)
    have step: "(let i = e_memoIdx e - of_nat start in if sint i \<ge> 0 then upd out (nat (sint i)) (e_val e) else Some out) = Some xs"
      using memo_idx_diff [OF j0(1) assms(3)] j0 by (auto simp: Let_def xs_def nat_diff_distrib')
    obtain out' where out': "visit_entries (\<lambda>e out. let i = e_memoIdx e - of_nat start in if sint i \<ge> 0 then upd out (nat (sint i)) (e_val e) else Some out) es xs = Some out'"
      "copies_entries {e \<in> set es. entry_Valid e} start xs out'" using IH [of xs] Cons.prems len True by auto
    have other: "e_memoIdx e' \<noteq> e_memoIdx e" if "e' \<in> set es" "entry_Valid e'" for e'
    proof -
      have "e_memoIdx e \<notin> e_memoIdx ` {x \<in> set es. entry_Valid x}" using Cons.prems(1) True by simp
      then show ?thesis using that by (metis (mono_tags, lifting) image_eqI mem_Collect_eq)
    qed
    have here: "start + j < 2 ^ 31 \<and> e_memoIdx e = of_nat (start + j) \<longleftrightarrow> j0 = start + j" for j
      using memo_idx_inj [of j0 "start + j"] j0(1,2) by auto
    have "copies_entries {x \<in> set (e # es). entry_Valid x} start out out'"
      unfolding copies_entries_def
    proof (intro conjI allI impI ballI)
      show "length out' = length out" using out'(2) len by (simp add: copies_entries_def)
      fix j assume j: "j < length out"
      show "out' ! j = e_val f" if f: "f \<in> {x \<in> set (e # es). entry_Valid x}" "start + j < 2 ^ 31 \<and> e_memoIdx f = of_nat (start + j)" for f
      proof (cases "f \<in> set es")
        case True
        then show ?thesis using out'(2) f j len by (simp add: copies_entries_def)
      next
        case False
        then have "f = e" using f(1) by simp
        then have "j0 = start + j" using here f(2) by blast
        then have "xs ! j = e_val f" using j \<open>f = e\<close> by (simp add: xs_def)
        moreover have "\<forall>g\<in>{e \<in> set es. entry_Valid e}. e_memoIdx g \<noteq> of_nat (start + j)" using other f(2) \<open>f = e\<close> by force
        ultimately show ?thesis using out'(2) j len by (simp add: copies_entries_def)
      qed
      show "out' ! j = out ! j" if f: "\<forall>g\<in>{x \<in> set (e # es). entry_Valid x}. start + j < 2 ^ 31 \<longrightarrow> e_memoIdx g \<noteq> of_nat (start + j)"
      proof -
        have "j0 \<noteq> start + j" using f here True by auto
        then have "xs ! j = out ! j" by (auto simp: xs_def nth_list_update)
        then show ?thesis using out'(2) j len f by (simp add: copies_entries_def)
      qed
    qed
    then show ?thesis using step out'(1) True by (simp only: visit_entries.simps if_True Option.bind.bind_lunit) blast
  qed
qed

lemma find_index_take:
  "find_index P (take n xs) = (case find_index P xs of None \<Rightarrow> None | Some i \<Rightarrow> if i < n then Some i else None)"
proof (cases "find_index P (take n xs)")
  case None
  then have no: "\<not> P x" if "x \<in> set (take n xs)" for x using that by (simp add: find_index_None)
  have "\<not> P (xs ! i)" if "i < n" "i < length xs" for i
    using no [of "take n xs ! i"] nth_mem [of i "take n xs"] that by simp
  then show ?thesis using None by (auto simp: find_index_Some split: option.splits)
next
  case (Some i)
  then have "find_index P xs = Some i" "i < n" by (auto simp: find_index_Some)
  then show ?thesis using Some by simp
qed

lemma scast_memo_idx: "j < 2 ^ 31 \<Longrightarrow> (scast (of_nat j :: 32 word) :: u64) = of_nat j"
  by (metis of_int_of_nat_eq sint_memo_idx scast_eq)

lemma memo_entries_take:
  assumes "n < length ms" "length ms < 2 ^ 31"
  shows "filter (\<lambda>e. (scast (e_memoIdx e) :: u64) < of_nat n) (memo_entries hash 0 ms) = memo_entries hash 0 (take n ms)"
proof -
  let ?P = "\<lambda>e :: 'a entry. (scast (e_memoIdx e) :: u64) < of_nat n"
  have less: "?P (memo_entry hash j v) \<longleftrightarrow> j < n" if "j < 2 ^ 31" for j v
    using that assms by (simp add: memo_entry_def scast_memo_idx word_of_nat_less_iff take_bit_nat_eq_self)
  have "memo_entries hash 0 ms = memo_entries hash 0 (take n ms) @ memo_entries hash n (drop n ms)"
    using memo_entries_append [of hash 0 "take n ms" "drop n ms"] assms(1) by simp
  moreover have "filter ?P (memo_entries hash 0 (take n ms)) = memo_entries hash 0 (take n ms)"
    using less assms by (auto simp: filter_id_conv set_memo_entries)
  moreover have "filter ?P (memo_entries hash n (drop n ms)) = []"
    using less assms by (auto simp: filter_empty_conv set_memo_entries)
  ultimately show ?thesis by simp
qed

text \<open>What the laws need of the type of the values: the comparison is an equivalence.\<close>

locale memo_key =
  fixes hash :: "'a::zero \<Rightarrow> nat \<Rightarrow> u64" and same :: "'a \<Rightarrow> 'a \<Rightarrow> bool"
  assumes same_refl: "same x x" and same_sym: "same x y \<Longrightarrow> same y x" and same_trans: "same x y \<Longrightarrow> same y z \<Longrightarrow> same x z"
begin

lemma key_eq_sym: "key_eq hash same x y \<Longrightarrow> key_eq hash same y x"
  by (auto simp: key_eq_def intro: same_sym)

lemma key_eq_trans: "key_eq hash same x y \<Longrightarrow> key_eq hash same y z \<Longrightarrow> key_eq hash same x z"
  by (auto simp: key_eq_def intro: same_trans)

lemma key_eq_refl [simp]: "key_eq hash same x x"
  by (simp add: key_eq_def same_refl)

lemma memo_unique:
  assumes "memo_ok hash same ms" "i < length ms" "j < length ms" "ms ! i = Some x" "ms ! j = Some y" "key_eq hash same x y"
  shows "i = j"
  using assms key_eq_sym [OF assms(6)] unfolding memo_ok_def by (metis linorder_neqE_nat)

lemma memo_index_unique:
  assumes ok: "memo_ok hash same ms" and i: "i < length ms" "ms ! i = Some x" "key_eq hash same v x"
  shows "memo_index hash same ms v = Some i"
proof (cases "memo_index hash same ms v")
  case None
  then show ?thesis using i by (auto simp: find_index_None dest!: bspec [OF _ nth_mem [OF i(1)]])
next
  case (Some j)
  then obtain y where "j < length ms" "ms ! j = Some y" "key_eq hash same v y" by (auto simp: find_index_Some)
  then have "j = i" using memo_unique [OF ok] i key_eq_trans [OF key_eq_sym] by blast
  then show ?thesis using Some by simp
qed

text \<open>The lookup of a key in the table of a memo.\<close>

lemma memo_Lookup:
  assumes "memo_view hash same t ms"
  shows "case memo_index hash same ms v of
    Some j \<Rightarrow> \<exists>i. HashTable_Lookup (t_tbl t) (hash v 0) (same v) = Some (i, True) \<and>
      unat i < length (ht_entries (t_tbl t)) \<and> j < 2 ^ 31 \<and> e_memoIdx (ht_entries (t_tbl t) ! unat i) = of_nat j
  | None \<Rightarrow> \<exists>i. HashTable_Lookup (t_tbl t) (hash v 0) (same v) = Some (i, False) \<and>
      unat i < length (ht_entries (t_tbl t)) \<and> \<not> entry_Valid (ht_entries (t_tbl t) ! unat i) \<and>
      (\<forall>k. ht_cap (t_tbl t) = 2 ^ k \<longrightarrow> k \<le> 60 \<longrightarrow> reach (ht_entries (t_tbl t)) k (fixHash (hash v 0)) (unat i))"
proof -
  have ok: "memo_ok hash same ms" and ht: "ht_view (t_tbl t) (mset (memo_entries hash 0 ms))" using assms by (auto simp: memo_view_def)
  from Lookup_ok [OF ht, of "hash v 0" "same v"] obtain i b where
    i: "HashTable_Lookup (t_tbl t) (hash v 0) (same v) = Some (i, b)" "unat i < length (ht_entries (t_tbl t))"
      "if b then ht_entries (t_tbl t) ! unat i \<in># mset (memo_entries hash 0 ms) \<and> e_h (ht_entries (t_tbl t) ! unat i) = fixHash (hash v 0) \<and>
         same v (e_val (ht_entries (t_tbl t) ! unat i))
       else \<not> entry_Valid (ht_entries (t_tbl t) ! unat i) \<and>
         (\<forall>k. ht_cap (t_tbl t) = 2 ^ k \<longrightarrow> k \<le> 60 \<longrightarrow> reach (ht_entries (t_tbl t)) k (fixHash (hash v 0)) (unat i)) \<and>
         (\<forall>e\<in>#mset (memo_entries hash 0 ms). e_h e = fixHash (hash v 0) \<longrightarrow> \<not> same v (e_val e))" by blast
  show ?thesis
  proof (cases b)
    case True
    then obtain j x where j: "j < length ms" "ms ! j = Some x" "ht_entries (t_tbl t) ! unat i = memo_entry hash j x"
      using i(3) by (auto simp: set_memo_entries)
    then have "memo_index hash same ms v = Some j" using i(3) True memo_index_unique [OF ok j(1,2), of v] by (simp add: key_eq_def memo_entry_def)
    then show ?thesis using i(1,2) True j ok by (auto simp: memo_entry_def memo_ok_def)
  next
    case False
    have "\<not> key_eq hash same v x" if "Some x \<in> set ms" for x
    proof -
      from that obtain j where "j < length ms" "ms ! j = Some x" by (metis in_set_conv_nth)
      then have "memo_entry hash j x \<in> set (memo_entries hash 0 ms)" by (auto simp: set_memo_entries)
      then have "e_h (memo_entry hash j x) = fixHash (hash v 0) \<longrightarrow> \<not> same v (e_val (memo_entry hash j x))" using i(3) False by simp
      then show ?thesis by (auto simp: memo_entry_def key_eq_def)
    qed
    then have "memo_index hash same ms v = None" by (auto simp: find_index_None)
    then show ?thesis using i False by auto
  qed
qed

lemma memo_size:
  assumes "memo_view hash same t ms" "length ms < 2 ^ 31"
  shows "Table_Size t = length ms" "Table_GetNull t = (case find_index (\<lambda>x. x = None) ms of None \<Rightarrow> (- 1, False) | Some i \<Rightarrow> (int i, True))"
proof -
  have ok: "memo_ok hash same ms" and ht: "ht_view (t_tbl t) (mset (memo_entries hash 0 ms))"
    and null: "t_nullIdx t = (case find_index (\<lambda>x. x = None) ms of None \<Rightarrow> KeyNotFound | Some i \<Rightarrow> of_nat i)" using assms(1) by (auto simp: memo_view_def)
  have sz: "unat (ht_size (t_tbl t)) = length (filter (\<lambda>x. x \<noteq> None) ms)" using ht by (auto simp: ht_view_def length_memo_entries)
  have idx: "of_nat i \<noteq> KeyNotFound \<and> sint (of_nat i :: 32 word) = int i" if "find_index (\<lambda>x. x = None) ms = Some i" for i
  proof -
    have "i < 2 ^ 31" using that assms(2) by (simp add: find_index_Some)
    then have s: "sint (of_nat i :: 32 word) = int i" by (rule sint_memo_idx)
    moreover have "sint KeyNotFound = - 1" by (simp add: KeyNotFound_def)
    ultimately have "of_nat i \<noteq> KeyNotFound" by auto
    with s show ?thesis by blast
  qed
  show null': "Table_GetNull t = (case find_index (\<lambda>x. x = None) ms of None \<Rightarrow> (- 1, False) | Some i \<Rightarrow> (int i, True))"
    using null idx by (auto simp: Table_GetNull_def KeyNotFound_def split: option.splits)
  have nones: "length (filter (\<lambda>x. x = None) ms) = (case find_index (\<lambda>x. x = None) ms of None \<Rightarrow> 0 | Some i \<Rightarrow> 1)"
    using ok unfolding memo_ok_def by (rule one_None [OF conjunct1 [OF conjunct2]])
  show "Table_Size t = length ms"
    using sz nones sum_length_filter_compl [of "\<lambda>x. x = None" ms] unfolding Table_Size_def null' by (auto split: option.splits)
qed

lemma memo_ok_snoc:
  assumes "memo_ok hash same ms" "length ms < 2 ^ 31" "case x of None \<Rightarrow> find_index (\<lambda>x. x = None) ms = None | Some v \<Rightarrow> memo_index hash same ms v = None"
  shows "memo_ok hash same (ms @ [x])"
proof -
  have "\<not> key_eq hash same v y" if "x = Some v" "j < length ms" "ms ! j = Some y" for v y j
    using assms(3) that by (auto simp: find_index_None dest: bspec [OF _ nth_mem [OF that(2)]])
  moreover have "x \<noteq> None" if "ms ! j = None" "j < length ms" for j
    using assms(3) that nth_mem [OF that(2)] by (auto simp: find_index_None split: option.splits)
  ultimately show ?thesis using assms(1,2) by (auto simp: memo_ok_def nth_append less_Suc_eq dest: less_trans)
qed

lemma InsertOrGet_ok:
  assumes view: "memo_view hash same t ms" and len: "length ms < 2 ^ 31"
  shows "case memo_index hash same ms v of
      Some j \<Rightarrow> InsertOrGet hash same t v = Some (t, int j, True)
    | None \<Rightarrow> \<exists>t'. InsertOrGet hash same t v = Some (t', int (length ms), False) \<and> memo_view hash same t' (ms @ [Some v])"
proof (cases "memo_index hash same ms v")
  case (Some j)
  then show ?thesis using memo_Lookup [OF view, of v] by (auto simp: InsertOrGet_def sint_memo_idx)
next
  case None
  from memo_Lookup [OF view, of v] None obtain i where
    i: "HashTable_Lookup (t_tbl t) (hash v 0) (same v) = Some (i, False)" "unat i < length (ht_entries (t_tbl t))"
      "\<not> entry_Valid (ht_entries (t_tbl t) ! unat i)"
      "\<And>k. ht_cap (t_tbl t) = 2 ^ k \<Longrightarrow> k \<le> 60 \<Longrightarrow> reach (ht_entries (t_tbl t)) k (fixHash (hash v 0)) (unat i)" by auto
  have ht: "ht_view (t_tbl t) (mset (memo_entries hash 0 ms))" using view by (simp add: memo_view_def)
  have "size (mset (memo_entries hash 0 ms)) < 2 ^ 31" using le_less_trans [OF length_filter_le len, of "\<lambda>x. x \<noteq> None"] by (simp only: size_mset length_memo_entries)
  from Insert_ok [OF ht i(2-4) this, of v "of_nat (length ms)"] obtain h where
    h: "HashTable_Insert (t_tbl t) i (hash v 0) v (of_nat (length ms)) = Some h"
      "ht_view h (add_mset (memo_entry hash (length ms) v) (mset (memo_entries hash 0 ms)))" by (auto simp: memo_entry_def)
  have "InsertOrGet hash same t v = Some (t\<lparr>t_tbl := h\<rparr>, int (length ms), False)"
    using i(1) h(1) memo_size(1) [OF view len] by (simp add: InsertOrGet_def)
  moreover have "memo_view hash same (t\<lparr>t_tbl := h\<rparr>) (ms @ [Some v])"
    using view h(2) memo_ok_snoc [of ms "Some v"] len None
    by (simp add: memo_view_def memo_entries_append find_index_append split: option.splits)
  ultimately show ?thesis using None by simp
qed

lemma Get_ok:
  assumes "memo_view hash same t ms"
  shows "Table_Get hash same t v = Some (case memo_index hash same ms v of Some j \<Rightarrow> (int j, True) | None \<Rightarrow> (- 1, False))"
  using memo_Lookup [OF assms, of v] by (auto simp: Table_Get_def sint_memo_idx KeyNotFound_def split: option.splits)

lemma GetOrInsertNull_ok:
  assumes "memo_view hash same t ms" "length ms < 2 ^ 31"
  shows "case find_index (\<lambda>x. x = None) ms of
      Some j \<Rightarrow> Table_GetOrInsertNull t = (t, int j, True)
    | None \<Rightarrow> \<exists>t'. Table_GetOrInsertNull t = (t', int (length ms), False) \<and> memo_view hash same t' (ms @ [None])"
  using memo_size [OF assms] assms memo_ok_snoc [of ms None]
  by (auto simp: Table_GetOrInsertNull_def memo_view_def memo_entries_append find_index_append split: option.splits)

lemma NewMemoTable_view: "unat num < 2 ^ 59 \<Longrightarrow> memo_view hash same (NewMemoTable num) []"
  by (simp add: memo_view_def memo_ok_def NewMemoTable_def NewHashTable_view)

lemma Reset_view: "memo_view hash same (Table_Reset t) []"
  by (simp add: memo_view_def memo_ok_def Table_Reset_def HashTable_Reset_view)

lemma CopyValuesSubset_ok:
  assumes view: "memo_view hash same t ms" and n: "length ms \<le> start + length out" "start < 2 ^ 31"
  shows "\<exists>out'. Table_CopyValuesSubset t start out = Some out' \<and> length out' = length out \<and>
    (\<forall>j<length out. out' ! j = (if start + j < length ms then case ms ! (start + j) of Some v \<Rightarrow> v | None \<Rightarrow> out ! j else out ! j))"
proof -
  let ?es = "ht_entries (t_tbl t)" and ?me = "memo_entries hash 0 ms"
  have len: "length ms \<le> 2 ^ 31" using view by (simp add: memo_view_def memo_ok_def)
  have M: "mset (filter entry_Valid ?es) = mset ?me" using view by (auto simp: memo_view_def ht_view_def)
  then have valid: "e \<in> set ?me \<longleftrightarrow> e \<in> set ?es \<and> entry_Valid e" for e using mset_eq_setD [OF M] by auto
  have "mset (map e_memoIdx (filter entry_Valid ?es)) = mset (map e_memoIdx ?me)" using M by (simp only: mset_map)
  then have d: "distinct (map e_memoIdx (filter entry_Valid ?es))"
    using mset_eq_imp_distinct_iff distinct_memo_entries [of 0 ms hash] len by fastforce
  have "\<exists>j<2 ^ 31. e_memoIdx e = of_nat j \<and> j < start + length out" if "e \<in> set ?es" "entry_Valid e" for e
  proof -
    have "e \<in> set ?me" using that valid by blast
    then obtain j v where "j < length ms" "e = memo_entry hash j v" by (auto simp: set_memo_entries)
    then show ?thesis using len n(1) by (intro exI [of _ j]) (simp add: memo_entry_def)
  qed
  from visit_copy [OF d this n(2)] obtain out' where
    out': "Table_CopyValuesSubset t start out = Some out'" "copies_entries (set ?me) start out out'"
    unfolding Table_CopyValuesSubset_def HashTable_CopyValuesSubset_def VisitEntries_def valid [symmetric] by auto
  have "out' ! j = (if start + j < length ms then case ms ! (start + j) of Some v \<Rightarrow> v | None \<Rightarrow> out ! j else out ! j)" if j: "j < length out" for j
  proof (cases "\<exists>v. start + j < length ms \<and> ms ! (start + j) = Some v")
    case True
    then obtain v where v: "start + j < length ms" "ms ! (start + j) = Some v" by blast
    then have "memo_entry hash (start + j) v \<in> set ?me" by (auto simp: set_memo_entries)
    then have "out' ! j = e_val (memo_entry hash (start + j) v)"
      using out'(2) j v(1) len unfolding copies_entries_def by (auto simp: memo_entry_def)
    then show ?thesis using v by (simp add: memo_entry_def)
  next
    case False
    have "e_memoIdx e \<noteq> of_nat (start + j)" if "e \<in> set ?me" "start + j < 2 ^ 31" for e
    proof
      assume e: "e_memoIdx e = of_nat (start + j)"
      from that(1) obtain i v where i: "i < length ms" "ms ! i = Some v" "e = memo_entry hash i v" by (auto simp: set_memo_entries)
      then have "i = start + j" using e memo_idx_inj [of i "start + j"] len that(2) by (simp add: memo_entry_def)
      then show False using False i by blast
    qed
    then show ?thesis using out'(2) j False unfolding copies_entries_def by (auto split: option.splits)
  qed
  then show ?thesis using out' unfolding copies_entries_def by blast
qed

lemma memo_ok_take: "memo_ok hash same ms \<Longrightarrow> memo_ok hash same (take n ms)"
  by (auto simp: memo_ok_def)

lemma Truncate_ok:
  assumes view: "memo_view hash same t ms" and len: "length ms < 2 ^ 31"
  shows "\<exists>t'. Table_Truncate t (int n) = Some t' \<and> memo_view hash same t' (take n ms)"
proof (cases "length ms \<le> n")
  case True
  then show ?thesis using view memo_size(1) [OF view len] by (simp add: Table_Truncate_def)
next
  case False
  let ?P = "\<lambda>e :: 'a entry. (scast (e_memoIdx e) :: u64) < of_nat n"
  have n: "n < length ms" "n < 2 ^ 31" using False len by simp_all
  have ht: "ht_view (t_tbl t) (mset (memo_entries hash 0 ms))" using view by (simp add: memo_view_def)
  then have M: "valids (ht_entries (t_tbl t)) = mset (memo_entries hash 0 ms)" by (auto simp: ht_view_def)
  have "unat (of_nat n :: u64) < 2 ^ 59" using n(2) by (simp add: unsigned_of_nat take_bit_nat_eq_self)
  then have new: "ht_view (NewHashTable (of_nat n) :: 'a HashTable) {#}" by (rule NewHashTable_view)
  have "size {#} + size (valids (ht_entries (t_tbl t))) < 2 ^ 31"
    using le_less_trans [OF length_filter_le len, of "\<lambda>x. x \<noteq> None"] unfolding M by (simp only: size_mset size_empty add_0 length_memo_entries)
  from truncate_loop_ok [OF new this, of n] obtain h where
    h: "HashTable_Truncate (t_tbl t) (of_nat n) = Some h" "ht_view h (filter_mset ?P (mset (memo_entries hash 0 ms)))"
    unfolding M by (auto simp: HashTable_Truncate_def VisitEntries_def)
  have "filter_mset ?P (mset (memo_entries hash 0 ms)) = mset (memo_entries hash 0 (take n ms))"
    unfolding mset_filter [symmetric] memo_entries_take [OF n(1) len] ..
  moreover have "find_index (\<lambda>x. x = None) (take n ms) = (case find_index (\<lambda>x. x = None) ms of None \<Rightarrow> None | Some i \<Rightarrow> if i < n then Some i else None)"
    by (rule find_index_take)
  moreover have "sint (t_nullIdx t) \<ge> int n \<longleftrightarrow> (\<exists>i. find_index (\<lambda>x. x = None) ms = Some i \<and> n \<le> i)"
    using memo_size(2) [OF view len] by (auto simp: Table_GetNull_def split: option.splits)
  ultimately show ?thesis
    using view h False memo_size(1) [OF view len] memo_ok_take [of ms n] sint_memo_idx [OF n(2)]
    by (auto simp: Table_Truncate_def memo_view_def split: option.splits)
qed

end

interpretation int_keys: memo_key hash_signed same_int
  by unfold_locales (auto simp: same_int_def)

interpretation uint_keys: memo_key hash_unsigned same_int
  by unfold_locales (auto simp: same_int_def)

interpretation float32_keys: memo_key hash_float32 same_float32
  by unfold_locales (auto simp: same_float32_def)

interpretation float64_keys: memo_key hash_float64 same_float64
  by unfold_locales (auto simp: same_float64_def)

text \<open>The keys that the table takes for the same: equal integers, equal bit patterns of floats, and any two that are not a
  number. The two zeros, which compare equal, have different hashes and stay apart.\<close>

lemma low_bits_zero:
  fixes x :: "'a::len word"
  assumes "x AND mask n = 0" "LENGTH('a) = Suc n"
  shows "x = 0 \<or> x = push_bit n 1"
proof -
  have "\<not> bit x i" if "i < n" for i
    using arg_cong [OF assms(1), of "\<lambda>w. bit w i"] that assms(2) by (auto simp: bit_and_iff bit_mask_iff)
  then have "bit x i \<longleftrightarrow> i = n \<and> bit x n" if "i < LENGTH('a)" for i using that assms(2) by (cases "i = n") auto
  then have "x = (if bit x n then push_bit n 1 else 0)"
    by (intro bit_word_eqI) (auto simp: bit_exp_iff)
  then show ?thesis by metis
qed

lemma key_eq_int: "key_eq hash_signed same_int x y \<longleftrightarrow> x = y"
  by (auto simp: key_eq_def same_int_def)

lemma key_eq_float32: "key_eq hash_float32 same_float32 x y \<longleftrightarrow> x = y \<or> isNaN32 x \<and> isNaN32 y"
proof -
  have z: "v = 0 \<or> v = 0x80000000" if "v AND 0x7FFFFFFF = 0" for v :: "32 word"
    using that low_bits_zero [of v 31] by (simp add: mask_eq_exp_minus_1 push_bit_eq_mult)
  have "fixHash (hash_float32 0 0) \<noteq> fixHash (hash_float32 0x80000000 0)" by code_simp
  then show ?thesis by (auto simp: key_eq_def same_float32_def hash_float32_def dest!: z)
qed

lemma key_eq_float64: "key_eq hash_float64 same_float64 x y \<longleftrightarrow> x = y \<or> isNaN64 x \<and> isNaN64 y"
proof -
  have z: "v = 0 \<or> v = 0x8000000000000000" if "v AND 0x7FFFFFFFFFFFFFFF = 0" for v :: "64 word"
    using that low_bits_zero [of v 63] by (simp add: mask_eq_exp_minus_1 push_bit_eq_mult)
  have "fixHash (hash_float64 0 0) \<noteq> fixHash (hash_float64 0x8000000000000000 0)" by code_simp
  then show ?thesis by (auto simp: key_eq_def same_float64_def hash_float64_def dest!: z)
qed

section \<open>Properties\<close>

text \<open>The calls of a memo table, what they return and change, and the same on the list of its values.\<close>

datatype 'a memo_call = InsertOrGet_call 'a | Get_call 'a | GetOrInsertNull_call | GetNull_call | Size_call | Truncate_call nat | Reset_call

fun table_call :: "('a::zero \<Rightarrow> nat \<Rightarrow> u64) \<Rightarrow> ('a \<Rightarrow> 'a \<Rightarrow> bool) \<Rightarrow> 'a memo_call \<Rightarrow> 'a Table \<Rightarrow> ('a Table \<times> int \<times> bool) option" where
  "table_call hash same (InsertOrGet_call v) t = InsertOrGet hash same t v"
| "table_call hash same (Get_call v) t = map_option (\<lambda>r. (t, r)) (Table_Get hash same t v)"
| "table_call hash same GetOrInsertNull_call t = Some (Table_GetOrInsertNull t)"
| "table_call hash same GetNull_call t = Some (t, Table_GetNull t)"
| "table_call hash same Size_call t = Some (t, int (Table_Size t), True)"
| "table_call hash same (Truncate_call n) t = map_option (\<lambda>t. (t, 0, True)) (Table_Truncate t (int n))"
| "table_call hash same Reset_call t = Some (Table_Reset t, 0, True)"

fun list_call :: "('a \<Rightarrow> nat \<Rightarrow> u64) \<Rightarrow> ('a \<Rightarrow> 'a \<Rightarrow> bool) \<Rightarrow> 'a memo_call \<Rightarrow> 'a option list \<Rightarrow> 'a option list \<times> int \<times> bool" where
  "list_call hash same (InsertOrGet_call v) ms =
     (case memo_index hash same ms v of Some i \<Rightarrow> (ms, int i, True) | None \<Rightarrow> (ms @ [Some v], int (length ms), False))"
| "list_call hash same (Get_call v) ms =
     (ms, case memo_index hash same ms v of Some i \<Rightarrow> (int i, True) | None \<Rightarrow> (- 1, False))"
| "list_call hash same GetOrInsertNull_call ms =
     (case find_index (\<lambda>x. x = None) ms of Some i \<Rightarrow> (ms, int i, True) | None \<Rightarrow> (ms @ [None], int (length ms), False))"
| "list_call hash same GetNull_call ms =
     (ms, case find_index (\<lambda>x. x = None) ms of Some i \<Rightarrow> (int i, True) | None \<Rightarrow> (- 1, False))"
| "list_call hash same Size_call ms = (ms, int (length ms), True)"
| "list_call hash same (Truncate_call n) ms = (take n ms, 0, True)"
| "list_call hash same Reset_call ms = ([], 0, True)"

fun table_calls :: "('a::zero \<Rightarrow> nat \<Rightarrow> u64) \<Rightarrow> ('a \<Rightarrow> 'a \<Rightarrow> bool) \<Rightarrow> 'a memo_call list \<Rightarrow> 'a Table \<Rightarrow> ('a Table \<times> (int \<times> bool) list) option" where
  "table_calls hash same [] t = Some (t, [])"
| "table_calls hash same (c # cs) t =
     do { (t, r) \<leftarrow> table_call hash same c t; (t, rs) \<leftarrow> table_calls hash same cs t; Some (t, r # rs) }"

fun list_calls :: "('a \<Rightarrow> nat \<Rightarrow> u64) \<Rightarrow> ('a \<Rightarrow> 'a \<Rightarrow> bool) \<Rightarrow> 'a memo_call list \<Rightarrow> 'a option list \<Rightarrow> 'a option list \<times> (int \<times> bool) list" where
  "list_calls hash same [] ms = (ms, [])"
| "list_calls hash same (c # cs) ms =
     (let (ms, r) = list_call hash same c ms; (ms, rs) = list_calls hash same cs ms in (ms, r # rs))"

lemma list_call_length: "length (fst (list_call hash same c ms)) \<le> Suc (length ms)"
  by (cases c) (auto split: option.splits)

context memo_key
begin

lemma table_call_ok:
  assumes "memo_view hash same t ms" "length ms < 2 ^ 31"
  shows "\<exists>t'. table_call hash same c t = Some (t', snd (list_call hash same c ms)) \<and> memo_view hash same t' (fst (list_call hash same c ms))"
proof (cases c)
  case (InsertOrGet_call v)
  then show ?thesis using InsertOrGet_ok [OF assms, of v] assms(1) by (auto split: option.splits)
next
  case GetOrInsertNull_call
  then show ?thesis using GetOrInsertNull_ok [OF assms] assms(1) by (auto split: option.splits)
next
  case (Truncate_call n)
  then show ?thesis using Truncate_ok [OF assms, of n] by auto
qed (use assms memo_size [OF assms] Get_ok [OF assms(1)] Reset_view in auto)

lemma table_calls_ok:
  assumes "memo_view hash same t ms" "length ms + length cs \<le> 2 ^ 31"
  shows "\<exists>t'. table_calls hash same cs t = Some (t', snd (list_calls hash same cs ms)) \<and> memo_view hash same t' (fst (list_calls hash same cs ms))"
  using assms
proof (induction cs arbitrary: t ms)
  case (Cons c cs)
  obtain ms' r where c: "list_call hash same c ms = (ms', r)" by (rule prod.exhaust)
  have len: "length ms < 2 ^ 31" using Cons.prems(2) by simp
  obtain t' where t': "table_call hash same c t = Some (t', r)" "memo_view hash same t' ms'"
    using table_call_ok [OF Cons.prems(1) len, of c] c by auto
  have "length ms' + length cs \<le> 2 ^ 31" using list_call_length [of hash same c ms] c Cons.prems(2) by simp
  from Cons.IH [OF t'(2) this] show ?case using t'(1) by (auto simp: c split_beta)
qed simp

end

text \<open>C39: A memo table is the list of the values in the order of their insertion: started with
  \<^verbatim>\<open>NewMemoTable\<close>, every sequence of calls of \<^verbatim>\<open>InsertOrGet\<close>, \<^verbatim>\<open>Get\<close>, \<^verbatim>\<open>GetOrInsertNull\<close>, \<^verbatim>\<open>GetNull\<close>, \<^verbatim>\<open>Size\<close>,
  \<^verbatim>\<open>Truncate\<close> and \<^verbatim>\<open>Reset\<close> ends, so that no search of the open hash table runs forever, and returns the same results as on
  the list, for signed and unsigned integers of any size and for floating-point numbers.\<close>

theorem memo_table_is_list:
  fixes cs :: "'a::len word memo_call list"
  assumes "unat num < 2 ^ 59" "length cs \<le> 2 ^ 31" "length fs \<le> 2 ^ 31" "length gs \<le> 2 ^ 31"
  shows "map_option snd (table_calls hash_signed same_int cs (NewMemoTable num)) = Some (snd (list_calls hash_signed same_int cs [])) \<and>
    map_option snd (table_calls hash_unsigned same_int cs (NewMemoTable num)) = Some (snd (list_calls hash_unsigned same_int cs [])) \<and>
    map_option snd (table_calls hash_float32 same_float32 fs (NewMemoTable num)) = Some (snd (list_calls hash_float32 same_float32 fs [])) \<and>
    map_option snd (table_calls hash_float64 same_float64 gs (NewMemoTable num)) = Some (snd (list_calls hash_float64 same_float64 gs []))"
  using int_keys.table_calls_ok [OF int_keys.NewMemoTable_view [OF assms(1)], of cs]
    uint_keys.table_calls_ok [OF uint_keys.NewMemoTable_view [OF assms(1)], of cs]
    float32_keys.table_calls_ok [OF float32_keys.NewMemoTable_view [OF assms(1)], of fs]
    float64_keys.table_calls_ok [OF float64_keys.NewMemoTable_view [OF assms(1)], of gs] assms(2-4) by auto

theorem memo_table_is_list_witness:
  "map_option snd (table_calls hash_signed same_int [InsertOrGet_call 7, GetOrInsertNull_call, InsertOrGet_call (5 :: 32 word),
     InsertOrGet_call 7, Truncate_call 2, Get_call 5] (NewMemoTable 0))
   = Some [(0, False), (1, False), (2, False), (0, True), (0, True), (- 1, False)]"
proof -
  let ?cs = "[InsertOrGet_call 7, GetOrInsertNull_call, InsertOrGet_call (5 :: 32 word), InsertOrGet_call 7, Truncate_call 2, Get_call 5]"
  have "unat (0 :: u64) < 2 ^ 59" by simp
  from conjunct1 [OF memo_table_is_list [OF this, of ?cs "[]" "[]"]] show ?thesis by (simp add: key_eq_def same_int_def)
qed

end
