(* ===== verification/Min_Max.thy ===== *)
theory Min_Max
  imports Prelude
begin

text \<open>
  \<^verbatim>\<open>internal/utils/min_max.go\<close>: the smallest and the largest value of a slice of integers, in the pure
  Go build, where \<^verbatim>\<open>min_max_noasm.go\<close> points the dispatch table to these functions. A signed
  integer is a word that is compared by its signed value.
\<close>

section \<open>The source\<close>

text \<open>The loop that all functions share.\<close>

fun minmax_loop :: "('a \<Rightarrow> 'a \<Rightarrow> bool) \<Rightarrow> 'a list \<Rightarrow> 'a \<Rightarrow> 'a \<Rightarrow> 'a \<times> 'a" where
  "minmax_loop lt [] mn mx = (mn, mx)"
| "minmax_loop lt (v # vs) mn mx =
     minmax_loop lt vs (if lt v mn then v else mn) (if lt mx v then v else mx)"

definition int_less :: "'a::len word \<Rightarrow> 'a word \<Rightarrow> bool" where
  "int_less a b \<longleftrightarrow> sint a < sint b"

definition int8MinMax :: "8 word list \<Rightarrow> 8 word \<times> 8 word" where
  "int8MinMax vs = minmax_loop int_less vs 0x7F 0x80"

definition uint8MinMax :: "8 word list \<Rightarrow> 8 word \<times> 8 word" where
  "uint8MinMax vs = minmax_loop (<) vs 0xFF 0"

definition int16MinMax :: "16 word list \<Rightarrow> 16 word \<times> 16 word" where
  "int16MinMax vs = minmax_loop int_less vs 0x7FFF 0x8000"

definition uint16MinMax :: "16 word list \<Rightarrow> 16 word \<times> 16 word" where
  "uint16MinMax vs = minmax_loop (<) vs 0xFFFF 0"

definition int32MinMax :: "32 word list \<Rightarrow> 32 word \<times> 32 word" where
  "int32MinMax vs = minmax_loop int_less vs 0x7FFFFFFF 0x80000000"

definition uint32MinMax :: "32 word list \<Rightarrow> 32 word \<times> 32 word" where
  "uint32MinMax vs = minmax_loop (<) vs 0xFFFFFFFF 0"

definition int64MinMax :: "64 word list \<Rightarrow> 64 word \<times> 64 word" where
  "int64MinMax vs = minmax_loop int_less vs 0x7FFFFFFFFFFFFFFF 0x8000000000000000"

definition uint64MinMax :: "64 word list \<Rightarrow> 64 word \<times> 64 word" where
  "uint64MinMax vs = minmax_loop (<) vs 0xFFFFFFFFFFFFFFFF 0"

definition GetMinMaxInt8 :: "8 word list \<Rightarrow> 8 word \<times> 8 word" where
  "GetMinMaxInt8 v = int8MinMax v"

definition GetMinMaxUint8 :: "8 word list \<Rightarrow> 8 word \<times> 8 word" where
  "GetMinMaxUint8 v = uint8MinMax v"

definition GetMinMaxInt16 :: "16 word list \<Rightarrow> 16 word \<times> 16 word" where
  "GetMinMaxInt16 v = int16MinMax v"

definition GetMinMaxUint16 :: "16 word list \<Rightarrow> 16 word \<times> 16 word" where
  "GetMinMaxUint16 v = uint16MinMax v"

definition GetMinMaxInt32 :: "32 word list \<Rightarrow> 32 word \<times> 32 word" where
  "GetMinMaxInt32 v = int32MinMax v"

definition GetMinMaxUint32 :: "32 word list \<Rightarrow> 32 word \<times> 32 word" where
  "GetMinMaxUint32 v = uint32MinMax v"

definition GetMinMaxInt64 :: "64 word list \<Rightarrow> 64 word \<times> 64 word" where
  "GetMinMaxInt64 v = int64MinMax v"

definition GetMinMaxUint64 :: "64 word list \<Rightarrow> 64 word \<times> 64 word" where
  "GetMinMaxUint64 v = uint64MinMax v"

section \<open>The loop finds the extremes\<close>

text \<open>The comparison is that of a number \<open>key\<close>; the start values are beyond all others.\<close>

lemma minmax_loop_bounds:
  fixes key :: "'a \<Rightarrow> int"
  assumes less: "\<And>a b. lt a b \<longleftrightarrow> key a < key b" and mm: "minmax_loop lt vs mn mx = (a, b)"
  shows "key a \<le> key mn \<and> key mx \<le> key b \<and> (\<forall>v\<in>set vs. key a \<le> key v \<and> key v \<le> key b) \<and>
    (a = mn \<or> a \<in> set vs) \<and> (b = mx \<or> b \<in> set vs)"
  using mm
proof (induction vs arbitrary: mn mx)
  case (Cons v vs)
  from Cons.prems have "minmax_loop lt vs (if lt v mn then v else mn) (if lt mx v then v else mx) = (a, b)" by simp
  from Cons.IH [OF this] show ?case by (auto simp: less split: if_splits)
qed simp

lemma minmax_loop_extremes:
  fixes key :: "'a \<Rightarrow> int"
  assumes less: "\<And>a b. lt a b \<longleftrightarrow> key a < key b" and vs: "vs \<noteq> []"
    and start: "\<And>v. key v \<le> key mn" "\<And>v. key mx \<le> key v" and inj: "\<And>a b. key a = key b \<Longrightarrow> a = b"
    and mm: "minmax_loop lt vs mn mx = (a, b)"
  shows "a \<in> set vs \<and> b \<in> set vs \<and> (\<forall>v\<in>set vs. key a \<le> key v \<and> key v \<le> key b)"
proof -
  note bd = minmax_loop_bounds [of lt key, OF less mm]
  obtain v where v: "v \<in> set vs" using vs by (cases vs) auto
  have "a \<in> set vs"
  proof (cases "a = mn")
    case True
    then have "key v = key mn" using bd v start(1) [of v] by fastforce
    then show ?thesis using inj v True by metis
  qed (use bd in blast)
  moreover have "b \<in> set vs"
  proof (cases "b = mx")
    case True
    then have "key v = key mx" using bd v start(2) [of v] by fastforce
    then show ?thesis using inj v True by metis
  qed (use bd in blast)
  ultimately show ?thesis using bd by blast
qed

lemma signed_extremes:
  fixes mn mx :: "'a::len word"
  assumes "vs \<noteq> []" "sint mn = 2 ^ (LENGTH('a) - 1) - 1" "sint mx = - (2 ^ (LENGTH('a) - 1))"
    "minmax_loop int_less vs mn mx = (a, b)"
  shows "a \<in> set vs \<and> b \<in> set vs \<and> (\<forall>v\<in>set vs. sint a \<le> sint v \<and> sint v \<le> sint b)"
proof -
  have "sint v \<le> sint mn" "sint mx \<le> sint v" for v :: "'a word"
    using sint_greater_eq [of v] sint_less [of v] assms(2,3) by simp_all
  from minmax_loop_extremes [OF _ assms(1) this _ assms(4), OF int_less_def] show ?thesis
    by (simp add: signed_word_eqI)
qed

lemma unsigned_extremes:
  fixes mn mx :: "'a::len word"
  assumes "vs \<noteq> []" "mn = - 1" "mx = 0" "minmax_loop (<) vs mn mx = (a, b)"
  shows "a \<in> set vs \<and> b \<in> set vs \<and> (\<forall>v\<in>set vs. a \<le> v \<and> v \<le> b)"
proof -
  have "uint v \<le> uint mn" "uint mx \<le> uint v" for v :: "'a word"
    using assms(2,3) word_order.extremum [of v] unfolding word_le_def by simp_all
  from minmax_loop_extremes [OF _ assms(1) this _ assms(4), OF word_less_def] show ?thesis
    by (simp add: word_le_def unsigned_word_eqI)
qed

lemma GetMinMax_signed:
  "vs8 \<noteq> [] \<Longrightarrow> GetMinMaxInt8 vs8 = (a8, b8) \<Longrightarrow> a8 \<in> set vs8 \<and> b8 \<in> set vs8 \<and> (\<forall>v\<in>set vs8. sint a8 \<le> sint v \<and> sint v \<le> sint b8)"
  "vs16 \<noteq> [] \<Longrightarrow> GetMinMaxInt16 vs16 = (a16, b16) \<Longrightarrow> a16 \<in> set vs16 \<and> b16 \<in> set vs16 \<and> (\<forall>v\<in>set vs16. sint a16 \<le> sint v \<and> sint v \<le> sint b16)"
  "vs32 \<noteq> [] \<Longrightarrow> GetMinMaxInt32 vs32 = (a32, b32) \<Longrightarrow> a32 \<in> set vs32 \<and> b32 \<in> set vs32 \<and> (\<forall>v\<in>set vs32. sint a32 \<le> sint v \<and> sint v \<le> sint b32)"
  "vs64 \<noteq> [] \<Longrightarrow> GetMinMaxInt64 vs64 = (a64, b64) \<Longrightarrow> a64 \<in> set vs64 \<and> b64 \<in> set vs64 \<and> (\<forall>v\<in>set vs64. sint a64 \<le> sint v \<and> sint v \<le> sint b64)"
  unfolding GetMinMaxInt8_def GetMinMaxInt16_def GetMinMaxInt32_def GetMinMaxInt64_def int8MinMax_def int16MinMax_def int32MinMax_def int64MinMax_def
  by (erule (1) signed_extremes [rotated 3]; code_simp)+

lemma GetMinMax_unsigned:
  "vs8 \<noteq> [] \<Longrightarrow> GetMinMaxUint8 vs8 = (a8, b8) \<Longrightarrow> a8 \<in> set vs8 \<and> b8 \<in> set vs8 \<and> (\<forall>v\<in>set vs8. a8 \<le> v \<and> v \<le> b8)"
  "vs16 \<noteq> [] \<Longrightarrow> GetMinMaxUint16 vs16 = (a16, b16) \<Longrightarrow> a16 \<in> set vs16 \<and> b16 \<in> set vs16 \<and> (\<forall>v\<in>set vs16. a16 \<le> v \<and> v \<le> b16)"
  "vs32 \<noteq> [] \<Longrightarrow> GetMinMaxUint32 vs32 = (a32, b32) \<Longrightarrow> a32 \<in> set vs32 \<and> b32 \<in> set vs32 \<and> (\<forall>v\<in>set vs32. a32 \<le> v \<and> v \<le> b32)"
  "vs64 \<noteq> [] \<Longrightarrow> GetMinMaxUint64 vs64 = (a64, b64) \<Longrightarrow> a64 \<in> set vs64 \<and> b64 \<in> set vs64 \<and> (\<forall>v\<in>set vs64. a64 \<le> v \<and> v \<le> b64)"
  unfolding GetMinMaxUint8_def GetMinMaxUint16_def GetMinMaxUint32_def GetMinMaxUint64_def uint8MinMax_def uint16MinMax_def uint32MinMax_def uint64MinMax_def
  by (erule (1) unsigned_extremes [rotated 3]; code_simp)+

end
