(* ===== verification/Dictionary.thy ===== *)
theory Dictionary
  imports Min_Max
begin

text \<open>
  The dictionary converters: the interface \<^verbatim>\<open>DictionaryConverter\<close> and \<^verbatim>\<open>plainConverter\<close> of
  \<^verbatim>\<open>parquet/internal/utils/dictionary.go\<close>, and \<^verbatim>\<open>dictConverter\<close> of
  \<^verbatim>\<open>parquet/internal/encoding/typed_encoder.go\<close>, which reads the dictionary from its page on demand.
  An index is an \<^verbatim>\<open>int32\<close>, a 32-bit word read by its signed value. The interface is a record of
  operations on a state, which they return updated along with the slice they write.
\<close>

section \<open>The source\<close>

type_synonym IndexType = "32 word"

record ('dc, 'a) DictionaryConverter =
  dc_Copy :: "'dc \<Rightarrow> 'a list \<Rightarrow> IndexType list \<Rightarrow> ('dc \<times> 'a list \<times> goerr option) option"
  dc_Fill :: "'dc \<Rightarrow> 'a list \<Rightarrow> IndexType \<Rightarrow> ('dc \<times> 'a list \<times> goerr option) option"
  dc_FillZero :: "'dc \<Rightarrow> 'a list \<Rightarrow> ('dc \<times> 'a list) option"
  dc_IsValid :: "'dc \<Rightarrow> IndexType list \<Rightarrow> ('dc \<times> bool) option"
  dc_IsValidSingle :: "'dc \<Rightarrow> IndexType \<Rightarrow> ('dc \<times> bool) option"

text \<open>The loop \<^verbatim>\<open>for i := 1; i < len(values); i *= 2\<close> that doubles the filled part. It starts at 1,
  so that \<open>i\<close> is never 0.\<close>

function fill_loop :: "'a list \<Rightarrow> nat \<Rightarrow> 'a list" where
  "fill_loop vals i = (if 0 < i \<and> i < length vals then fill_loop (blit vals i (take i vals)) (i * 2) else vals)"
  by pat_completeness auto
termination by (relation "measure (\<lambda>(vals, i). length vals - i)") auto

declare fill_loop.simps [simp del]

text \<open>\<^verbatim>\<open>plainConverter[uint64]\<close>, which has no state.\<close>

definition plain_IsValid :: "unit \<Rightarrow> IndexType list \<Rightarrow> (unit \<times> bool) option" where
  "plain_IsValid dc idxes = Some (dc, True)"

definition plain_IsValidSingle :: "unit \<Rightarrow> IndexType \<Rightarrow> (unit \<times> bool) option" where
  "plain_IsValidSingle dc i = Some (dc, True)"

definition plain_Fill :: "unit \<Rightarrow> u64 list \<Rightarrow> IndexType \<Rightarrow> (unit \<times> u64 list \<times> goerr option) option" where
  "plain_Fill dc vals val =
     (if length vals = 0 then Some (dc, vals, None) else Some (dc, fill_loop (vals[0 := scast val]) 1, None))"

definition plain_FillZero :: "unit \<Rightarrow> u64 list \<Rightarrow> (unit \<times> u64 list) option" where
  "plain_FillZero dc vals =
     (if length vals = 0 then Some (dc, vals) else Some (dc, fill_loop (vals[0 := 0]) 1))"

fun plain_copy_loop :: "u64 list \<Rightarrow> nat \<Rightarrow> IndexType list \<Rightarrow> u64 list option" where
  "plain_copy_loop out i [] = Some out"
| "plain_copy_loop out i (v # vs) = do { out \<leftarrow> upd out i (scast v); plain_copy_loop out (Suc i) vs }"

definition plain_Copy :: "unit \<Rightarrow> u64 list \<Rightarrow> IndexType list \<Rightarrow> (unit \<times> u64 list \<times> goerr option) option" where
  "plain_Copy dc out vals = do { out \<leftarrow> plain_copy_loop out 0 vals; Some (dc, out, None) }"

definition plainConverter :: "(unit, u64) DictionaryConverter" where
  "plainConverter = \<lparr>dc_Copy = plain_Copy, dc_Fill = plain_Fill, dc_FillZero = plain_FillZero,
     dc_IsValid = plain_IsValid, dc_IsValidSingle = plain_IsValidSingle\<rparr>"

text \<open>\<^verbatim>\<open>dictConverter[T]\<close>; its value decoder is any \<^verbatim>\<open>Decoder[T]\<close>, here the method
  \<^verbatim>\<open>Decode\<close> on a state of any type. The slice made by \<^verbatim>\<open>ensure\<close> holds the zero value of the type,
  which the field \<^verbatim>\<open>zeroVal\<close> keeps from its creation.\<close>

type_synonym ('vd, 'a) Decode = "'vd \<Rightarrow> 'a list \<Rightarrow> ('vd \<times> 'a list \<times> nat \<times> goerr option) option"

record ('vd, 'a) dictConverter =
  dcv_valueDecoder :: 'vd
  dcv_dictLen :: nat
  dcv_dict :: "'a list"
  dcv_zeroVal :: 'a

definition dict_ensure :: "('vd, 'a) Decode \<Rightarrow> ('vd, 'a) dictConverter \<Rightarrow> IndexType \<Rightarrow> (('vd, 'a) dictConverter \<times> goerr option) option" where
  "dict_ensure Decode dc i =
     (if sint i < 0 \<or> sint i \<ge> int (dcv_dictLen dc)
      then Some (dc, Some (Errorf ''parquet: dictionary index %d is out of range''))
      else if int (length (dcv_dict dc)) \<le> sint i then
        do { let val = replicate (nat (sint i) + 1 - length (dcv_dict dc)) (dcv_zeroVal dc);
             (vd, val, n, err) \<leftarrow> Decode (dcv_valueDecoder dc) val;
             let dc = dc\<lparr>dcv_valueDecoder := vd\<rparr>;
             if err \<noteq> None then Some (dc, err)
             else if n \<noteq> length val then Some (dc, Some (Errorf ''parquet: dictionary contains fewer values than declared''))
             else Some (dc\<lparr>dcv_dict := dcv_dict dc @ take n val\<rparr>, None) }
      else Some (dc, None))"

definition dict_IsValid :: "('vd, 'a) Decode \<Rightarrow> ('vd, 'a) dictConverter \<Rightarrow> IndexType list \<Rightarrow> (('vd, 'a) dictConverter \<times> bool) option" where
  "dict_IsValid Decode dc idxes =
     (let (mn, mx) = GetMinMaxInt32 idxes
      in do { (dc, _) \<leftarrow> dict_ensure Decode dc mx;
              Some (dc, sint mn \<ge> 0 \<and> sint mn < int (length (dcv_dict dc)) \<and> sint mx \<ge> 0 \<and> sint mx < int (length (dcv_dict dc))) })"

definition dict_IsValidSingle :: "('vd, 'a) Decode \<Rightarrow> ('vd, 'a) dictConverter \<Rightarrow> IndexType \<Rightarrow> (('vd, 'a) dictConverter \<times> bool) option" where
  "dict_IsValidSingle Decode dc i =
     do { (dc, _) \<leftarrow> dict_ensure Decode dc i; Some (dc, sint i \<ge> 0 \<and> sint i < int (length (dcv_dict dc))) }"

definition dict_at :: "'a list \<Rightarrow> IndexType \<Rightarrow> 'a option" where
  "dict_at dict i = (if sint i < 0 then None else idx dict (nat (sint i)))"

definition dict_Fill ::
  "('vd, 'a) Decode \<Rightarrow> ('vd, 'a) dictConverter \<Rightarrow> 'a list \<Rightarrow> IndexType \<Rightarrow> (('vd, 'a) dictConverter \<times> 'a list \<times> goerr option) option" where
  "dict_Fill Decode dc out val =
     do { (dc, err) \<leftarrow> dict_ensure Decode dc val;
          if err \<noteq> None then Some (dc, out, err)
          else do { v \<leftarrow> dict_at (dcv_dict dc) val; out \<leftarrow> upd out 0 v; Some (dc, fill_loop out 1, None) } }"

definition dict_FillZero :: "('vd, 'a) dictConverter \<Rightarrow> 'a list \<Rightarrow> (('vd, 'a) dictConverter \<times> 'a list) option" where
  "dict_FillZero dc out = do { out \<leftarrow> upd out 0 (dcv_zeroVal dc); Some (dc, fill_loop out 1) }"

fun dict_copy_loop :: "'a list \<Rightarrow> 'a list \<Rightarrow> nat \<Rightarrow> IndexType list \<Rightarrow> 'a list option" where
  "dict_copy_loop dict out i [] = Some out"
| "dict_copy_loop dict out i (val # vals) =
     do { v \<leftarrow> dict_at dict val; out \<leftarrow> upd out i v; dict_copy_loop dict out (Suc i) vals }"

text \<open>\<^verbatim>\<open>CopyDictionary\<close> copies nothing and returns false in the pure Go build.\<close>

definition dict_Copy ::
  "('vd, 'a) dictConverter \<Rightarrow> 'a list \<Rightarrow> IndexType list \<Rightarrow> (('vd, 'a) dictConverter \<times> 'a list \<times> goerr option) option" where
  "dict_Copy dc out vals = do { out \<leftarrow> dict_copy_loop (dcv_dict dc) out 0 vals; Some (dc, out, None) }"

definition dictConverter_ops :: "('vd, 'a) Decode \<Rightarrow> (('vd, 'a) dictConverter, 'a) DictionaryConverter" where
  "dictConverter_ops Decode = \<lparr>dc_Copy = dict_Copy, dc_Fill = dict_Fill Decode, dc_FillZero = dict_FillZero,
     dc_IsValid = dict_IsValid Decode, dc_IsValidSingle = dict_IsValidSingle Decode\<rparr>"

text \<open>\<open>zero\<close> is the zero value of the type \<^verbatim>\<open>T\<close>, \<open>valuesLeft\<close> what \<^verbatim>\<open>dict.ValuesLeft()\<close> returns.\<close>

definition NewDictConverter :: "'a \<Rightarrow> 'vd \<Rightarrow> nat \<Rightarrow> ('vd, 'a) dictConverter" where
  "NewDictConverter zero dict valuesLeft =
     \<lparr>dcv_valueDecoder = dict, dcv_dictLen = valuesLeft, dcv_dict = [], dcv_zeroVal = zero\<rparr>"


section \<open>Filling by doubling\<close>

lemma fill_loop_eq:
  assumes "0 < i" "i \<le> length vals" "take i vals = replicate i v"
  shows "fill_loop vals i = replicate (length vals) v"
  using assms
proof (induction vals i rule: fill_loop.induct)
  case (1 vals i)
  show ?case
  proof (cases "i < length vals")
    case False
    then have "vals = replicate (length vals) v" using "1.prems" by simp
    then show ?thesis using False by (subst fill_loop.simps) simp
  next
    case True
    let ?b = "blit vals i (take i vals)"
    have b: "length ?b = length vals" using True by simp
    have "?b ! j = v" if "j < i * 2" "j < length vals" for j
    proof -
      have "j - i < i" "j - i < length vals - i" if "\<not> j < i" using that \<open>j < i * 2\<close> \<open>j < length vals\<close> by auto
      then show ?thesis using that True "1.prems"(3) by (cases "j < i") (simp_all add: blit_def nth_append)
    qed
    then have pre: "take k ?b = replicate k v" if "k \<le> i * 2" "k \<le> length vals" for k
      using that b by (intro nth_equalityI) auto
    show ?thesis
    proof (cases "i * 2 \<le> length vals")
      case le: True
      then have "fill_loop ?b (i * 2) = replicate (length ?b) v" using "1.IH" True "1.prems" pre [of "i * 2"] b by simp
      then show ?thesis using True "1.prems"(1) b by (subst fill_loop.simps) simp
    next
      case False
      then have "?b = replicate (length vals) v" using pre [of "length vals"] b by simp
      moreover have "fill_loop ?b (i * 2) = ?b" using False b by (subst fill_loop.simps) simp
      ultimately show ?thesis using True "1.prems"(1) by (subst fill_loop.simps) simp
    qed
  qed
qed

lemma fill_from_first: "out \<noteq> [] \<Longrightarrow> fill_loop (out[0 := v]) (Suc 0) = replicate (length out) v"
  by (cases out) (simp_all add: fill_loop_eq)

section \<open>The contract of a converter\<close>

text \<open>\<open>conv L K dc\<close>: the converter stands for the dictionary \<open>L\<close>, and the indexes of \<open>K\<close> have been
  checked, which \<^verbatim>\<open>Copy\<close> and \<^verbatim>\<open>Fill\<close> rely on.\<close>

locale dictionary_converter =
  fixes ops :: "('dc, 'a) DictionaryConverter"
    and conv :: "(IndexType \<Rightarrow> 'a option) \<Rightarrow> IndexType set \<Rightarrow> 'dc \<Rightarrow> bool"
  assumes conv_mono: "conv L K dc \<Longrightarrow> K' \<subseteq> K \<Longrightarrow> conv L K' dc"
    and IsValid: "conv L K dc \<Longrightarrow> ixs \<noteq> [] \<Longrightarrow> \<exists>dc'. dc_IsValid ops dc ixs = Some (dc', \<forall>i\<in>set ixs. L i \<noteq> None) \<and>
      conv L (if \<forall>i\<in>set ixs. L i \<noteq> None then K \<union> set ixs else K) dc'"
    and IsValidSingle: "conv L K dc \<Longrightarrow> \<exists>dc'. dc_IsValidSingle ops dc i = Some (dc', L i \<noteq> None) \<and>
      conv L (if L i \<noteq> None then insert i K else K) dc'"
    and Copy: "conv L K dc \<Longrightarrow> set ixs \<subseteq> K \<Longrightarrow> length ixs \<le> length out \<Longrightarrow>
      \<exists>dc'. dc_Copy ops dc out ixs = Some (dc', blit out 0 (map (the \<circ> L) ixs), None) \<and> conv L K dc'"
    and Fill: "conv L K dc \<Longrightarrow> i \<in> K \<Longrightarrow> out \<noteq> [] \<Longrightarrow>
      \<exists>dc'. dc_Fill ops dc out i = Some (dc', replicate (length out) (the (L i)), None) \<and> conv L K dc'"
    and FillZero: "conv L K dc \<Longrightarrow> out \<noteq> [] \<Longrightarrow> \<exists>dc' out'. dc_FillZero ops dc out = Some (dc', out') \<and>
      length out' = length out \<and> conv L K dc'"

lemma blit_snoc: "Suc i + length vs \<le> length out \<Longrightarrow> blit (out[i := v]) (Suc i) vs = blit out i (v # vs)"
  by (rule nth_equalityI) (auto simp: nth_blit nth_Cons' nth_list_update)

lemma plain_copy_loop_eq: "i + length vs \<le> length out \<Longrightarrow> plain_copy_loop out i vs = Some (blit out i (map scast vs))"
  by (induction vs arbitrary: i out) (auto simp: blit_snoc)

definition plain_view :: "(IndexType \<Rightarrow> u64 option) \<Rightarrow> IndexType set \<Rightarrow> unit \<Rightarrow> bool" where
  "plain_view L K dc \<longleftrightarrow> L = (\<lambda>i. Some (scast i))"

interpretation plain: dictionary_converter plainConverter plain_view
  by unfold_locales
    (auto simp: plainConverter_def plain_view_def plain_IsValid_def plain_IsValidSingle_def plain_Copy_def plain_Fill_def
      plain_FillZero_def plain_copy_loop_eq fill_from_first comp_def)


section \<open>The converter over a value decoder\<close>

text \<open>What \<^verbatim>\<open>dictConverter\<close> relies on: the value decoder delivers the values it holds, in order, as
  many as it is asked for.\<close>

locale value_decoder =
  fixes Decode :: "('vd, 'a) Decode" and holds :: "'vd \<Rightarrow> 'a list \<Rightarrow> bool"
  assumes Decode: "holds vd vs \<Longrightarrow> length out \<le> length vs \<Longrightarrow>
    \<exists>vd'. Decode vd out = Some (vd', take (length out) vs, length out, None) \<and> holds vd' (drop (length out) vs)"

text \<open>The converter has read a prefix of the dictionary \<open>D\<close>, and the value decoder holds the rest of it.\<close>

definition dict_view ::
  "('vd \<Rightarrow> 'a list \<Rightarrow> bool) \<Rightarrow> (IndexType \<Rightarrow> 'a option) \<Rightarrow> IndexType set \<Rightarrow> ('vd, 'a) dictConverter \<Rightarrow> bool" where
  "dict_view holds L K dc \<longleftrightarrow> (\<exists>rest. L = dict_at (dcv_dict dc @ rest) \<and> holds (dcv_valueDecoder dc) rest \<and>
     dcv_dictLen dc = length (dcv_dict dc @ rest) \<and> (\<forall>i\<in>K. 0 \<le> sint i \<and> sint i < int (length (dcv_dict dc))))"

lemma dict_at_None: "dict_at D i = None \<longleftrightarrow> sint i < 0 \<or> int (length D) \<le> sint i"
  by (auto simp: dict_at_def idx_def)

lemma dict_at_Some: "(\<exists>v. dict_at D i = Some v) \<longleftrightarrow> 0 \<le> sint i \<and> sint i < int (length D)"
  by (auto simp: dict_at_def idx_def)

lemma dict_at_SomeD: "dict_at D i = Some v \<Longrightarrow> 0 \<le> sint i \<and> sint i < int (length D)"
  using dict_at_Some [of D i] by simp

lemma dict_at_append: "0 \<le> sint i \<Longrightarrow> sint i < int (length D) \<Longrightarrow> dict_at (D @ E) i = dict_at D i"
  by (auto simp: dict_at_def idx_def nth_append)

lemma dict_copy_loop_eq:
  assumes "\<forall>i\<in>set vals. 0 \<le> sint i \<and> sint i < int (length D)" "k + length vals \<le> length out"
  shows "dict_copy_loop D out k vals = Some (blit out k (map (\<lambda>i. D ! nat (sint i)) vals))"
  using assms by (induction vals arbitrary: k out) (auto simp: blit_snoc dict_at_def nat_less_iff)

lemma dict_view_at: "dict_view holds L K dc \<Longrightarrow> i \<in> K \<Longrightarrow> L i = Some (dcv_dict dc ! nat (sint i))"
  by (auto simp: dict_view_def dict_at_append) (auto simp: dict_at_def nat_less_iff)

context value_decoder
begin

lemma dict_ensure_ok:
  assumes v: "dict_view holds L K dc" and i: "L i \<noteq> None"
  shows "\<exists>dc'. dict_ensure Decode dc i = Some (dc', None) \<and> dict_view holds L (insert i K) dc'"
proof -
  from v obtain rest where 1: "L = dict_at (dcv_dict dc @ rest)" "holds (dcv_valueDecoder dc) rest"
    "dcv_dictLen dc = length (dcv_dict dc @ rest)" "\<forall>i\<in>K. 0 \<le> sint i \<and> sint i < int (length (dcv_dict dc))"
    by (auto simp: dict_view_def)
  have i': "0 \<le> sint i" "sint i < int (length (dcv_dict dc @ rest))" using i unfolding 1(1) by (auto dest: dict_at_SomeD)
  show ?thesis
  proof (cases "sint i < int (length (dcv_dict dc))")
    case True
    then have "dict_ensure Decode dc i = Some (dc, None)" using i' 1(3) by (simp add: dict_ensure_def)
    moreover have "dict_view holds L (insert i K) dc" unfolding dict_view_def using 1 i' True by (intro exI [of _ rest]) simp
    ultimately show ?thesis by blast
  next
    case False
    define n where "n = nat (sint i) + 1 - length (dcv_dict dc)"
    have n: "n \<le> length rest" "int (length (dcv_dict dc)) + int n = sint i + 1" using i' False by (auto simp: n_def)
    from Decode [OF 1(2), of "replicate n (dcv_zeroVal dc)"] n(1) obtain vd where
      vd: "Decode (dcv_valueDecoder dc) (replicate n (dcv_zeroVal dc)) = Some (vd, take n rest, n, None)" "holds vd (drop n rest)" by auto
    let ?dc = "dc\<lparr>dcv_valueDecoder := vd, dcv_dict := dcv_dict dc @ take n rest\<rparr>"
    have "dict_ensure Decode dc i = Some (?dc, None)"
      using False i' 1(3) vd(1) n(1) by (simp add: dict_ensure_def n_def Let_def)
    moreover have "dict_view holds L (insert i K) ?dc"
      unfolding dict_view_def
    proof (intro exI [of _ "drop n rest"] conjI ballI)
      show "L = dict_at (dcv_dict ?dc @ drop n rest)" "dcv_dictLen ?dc = length (dcv_dict ?dc @ drop n rest)"
        using 1(1,3) n(1) by simp_all
      show "holds (dcv_valueDecoder ?dc) (drop n rest)" using vd(2) by simp
      fix j assume "j \<in> insert i K"
      then show "0 \<le> sint j" "sint j < int (length (dcv_dict ?dc))" using 1(4) i'(1) n by force+
    qed
    ultimately show ?thesis by blast
  qed
qed

lemma dict_ensure_range:
  assumes v: "dict_view holds L K dc" and i: "L i = None"
  shows "\<exists>err. dict_ensure Decode dc i = Some (dc, Some err)" "\<not> (0 \<le> sint i \<and> sint i < int (length (dcv_dict dc)))"
proof -
  from v obtain rest where 1: "L = dict_at (dcv_dict dc @ rest)" "dcv_dictLen dc = length (dcv_dict dc @ rest)"
    unfolding dict_view_def by blast
  have 2: "sint i < 0 \<or> int (length (dcv_dict dc @ rest)) \<le> sint i" using i unfolding 1(1) dict_at_None .
  show "\<exists>err. dict_ensure Decode dc i = Some (dc, Some err)" unfolding dict_ensure_def 1(2) using 2 by simp
  show "\<not> (0 \<le> sint i \<and> sint i < int (length (dcv_dict dc)))" using 2 by auto
qed

lemma dict_view_valid: "dict_view holds L K dc \<Longrightarrow> 0 \<le> sint a \<Longrightarrow> sint a \<le> sint b \<Longrightarrow> L b \<noteq> None \<Longrightarrow> L a \<noteq> None"
  by (auto simp: dict_view_def dict_at_Some dest: dict_at_SomeD)

lemma dict_IsValid_ok:
  assumes v: "dict_view holds L K dc" and ne: "ixs \<noteq> []"
  shows "\<exists>dc'. dict_IsValid Decode dc ixs = Some (dc', \<forall>i\<in>set ixs. L i \<noteq> None) \<and>
    dict_view holds L (if \<forall>i\<in>set ixs. L i \<noteq> None then K \<union> set ixs else K) dc'"
proof -
  obtain mn mx where mm: "GetMinMaxInt32 ixs = (mn, mx)" by force
  note e = GetMinMax_signed(3) [OF ne mm]
  show ?thesis
  proof (cases "L mx = None")
    case True
    then have "\<not> (\<forall>i\<in>set ixs. L i \<noteq> None)" using e by blast
    then show ?thesis using dict_ensure_range [OF v True] v mm by (auto simp: dict_IsValid_def)
  next
    case False
    from dict_ensure_ok [OF v this] obtain dc' where dc': "dict_ensure Decode dc mx = Some (dc', None)" "dict_view holds L (insert mx K) dc'" by blast
    have mx: "0 \<le> sint mx" "sint mx < int (length (dcv_dict dc'))" using dc'(2) by (auto simp: dict_view_def)
    have bounds: "sint mn \<le> sint i" "sint i \<le> sint mx" if "i \<in> set ixs" for i using e that by blast+
    have all: "(\<forall>i\<in>set ixs. L i \<noteq> None) \<longleftrightarrow> 0 \<le> sint mn"
    proof
      assume "\<forall>i\<in>set ixs. L i \<noteq> None"
      then have "L mn \<noteq> None" using e by blast
      then show "0 \<le> sint mn" using v by (auto simp: dict_view_def dest: dict_at_SomeD)
    next
      assume mn: "0 \<le> sint mn"
      show "\<forall>i\<in>set ixs. L i \<noteq> None"
      proof
        fix i assume "i \<in> set ixs"
        then show "L i \<noteq> None" using dict_view_valid [OF v order.trans [OF mn bounds(1)] bounds(2) False] by blast
      qed
    qed
    have "sint mn \<le> sint mx" using e by blast
    then have "dict_IsValid Decode dc ixs = Some (dc', \<forall>i\<in>set ixs. L i \<noteq> None)"
      unfolding all using mm dc'(1) mx by (auto simp: dict_IsValid_def)
    moreover have "dict_view holds L (if \<forall>i\<in>set ixs. L i \<noteq> None then K \<union> set ixs else K) dc'"
    proof -
      have "0 \<le> sint i \<and> sint i < int (length (dcv_dict dc'))" if "0 \<le> sint mn" "i \<in> set ixs" for i
        using bounds [OF that(2)] that(1) mx(2) by linarith
      with dc'(2) show ?thesis unfolding all dict_view_def by (cases "0 \<le> sint mn") auto
    qed
    ultimately show ?thesis by blast
  qed
qed

sublocale dict: dictionary_converter "dictConverter_ops Decode" "dict_view holds"
proof
  fix L :: "IndexType \<Rightarrow> 'a option" and K dc and ixs :: "IndexType list" and i and out :: "'a list"
  assume v: "dict_view holds L K dc"
  note defs = dictConverter_ops_def
  show "dict_view holds L K' dc" if "K' \<subseteq> K" for K' using v that unfolding dict_view_def by blast
  show "\<exists>dc'. dc_IsValid (dictConverter_ops Decode) dc ixs = Some (dc', \<forall>i\<in>set ixs. L i \<noteq> None) \<and>
      dict_view holds L (if \<forall>i\<in>set ixs. L i \<noteq> None then K \<union> set ixs else K) dc'" if "ixs \<noteq> []"
    using dict_IsValid_ok [OF v that] by (simp add: defs)
  show "\<exists>dc'. dc_IsValidSingle (dictConverter_ops Decode) dc i = Some (dc', L i \<noteq> None) \<and>
      dict_view holds L (if L i \<noteq> None then insert i K else K) dc'"
  proof (cases "L i = None")
    case True
    then show ?thesis using dict_ensure_range [OF v True] v by (auto simp: defs dict_IsValidSingle_def)
  next
    case False
    from dict_ensure_ok [OF v this] obtain dc' where dc': "dict_ensure Decode dc i = Some (dc', None)" "dict_view holds L (insert i K) dc'" by blast
    then have "0 \<le> sint i \<and> sint i < int (length (dcv_dict dc'))" by (auto simp: dict_view_def)
    then show ?thesis using dc' False by (simp add: defs dict_IsValidSingle_def)
  qed
  show "\<exists>dc'. dc_Copy (dictConverter_ops Decode) dc out ixs = Some (dc', blit out 0 (map (the \<circ> L) ixs), None) \<and> dict_view holds L K dc'"
    if "set ixs \<subseteq> K" "length ixs \<le> length out"
  proof -
    have "map (\<lambda>i. dcv_dict dc ! nat (sint i)) ixs = map (the \<circ> L) ixs" using dict_view_at [OF v] that(1) by auto
    moreover have "\<forall>i\<in>set ixs. 0 \<le> sint i \<and> sint i < int (length (dcv_dict dc))" using v that(1) by (auto simp: dict_view_def)
    ultimately have "dict_copy_loop (dcv_dict dc) out 0 ixs = Some (blit out 0 (map (the \<circ> L) ixs))"
      using dict_copy_loop_eq [of ixs "dcv_dict dc" 0 out] that(2) by (simp only: add_0)
    then show ?thesis using v by (simp add: defs dict_Copy_def)
  qed
  show "\<exists>dc'. dc_Fill (dictConverter_ops Decode) dc out i = Some (dc', replicate (length out) (the (L i)), None) \<and> dict_view holds L K dc'"
    if "i \<in> K" "out \<noteq> []"
  proof -
    have L: "L i = Some (dcv_dict dc ! nat (sint i))" by (rule dict_view_at [OF v that(1)])
    have i: "0 \<le> sint i" "sint i < int (length (dcv_dict dc))" "sint i < int (dcv_dictLen dc)" using v that(1) by (auto simp: dict_view_def)
    then have "dict_ensure Decode dc i = Some (dc, None)" "dict_at (dcv_dict dc) i = Some (the (L i))"
      using L by (auto simp: dict_ensure_def dict_at_def nat_less_iff)
    then show ?thesis using that(2) v by (simp add: defs dict_Fill_def fill_from_first)
  qed
  show "\<exists>dc' out'. dc_FillZero (dictConverter_ops Decode) dc out = Some (dc', out') \<and> length out' = length out \<and> dict_view holds L K dc'"
    if "out \<noteq> []" using that v by (simp add: defs dict_FillZero_def fill_from_first)
qed

lemma NewDictConverter_view: "holds vd D \<Longrightarrow> dict_view holds (dict_at D) {} (NewDictConverter zero vd (length D))"
  by (auto simp: dict_view_def NewDictConverter_def)

end

end
