(* ===== verification/Memory_Buffer.thy ===== *)
theory Memory_Buffer
  imports Bitutil
begin

unbundle bit_operations_syntax

text \<open>
  \<^verbatim>\<open>Buffer\<close> of \<^verbatim>\<open>arrow/memory/buffer.go\<close> over \<^verbatim>\<open>GoAllocator\<close>, with the rounding of \<^verbatim>\<open>util.go\<close>. A buffer of this theory is
  made by \<^verbatim>\<open>NewResizableBuffer\<close>, so that it has an allocator and no parent. Its slice is the list of its elements,
  next to the list of those between its length and its capacity. The reference count is that of one goroutine.
\<close>

section \<open>The source\<close>

definition roundToPowerOf2 :: "int \<Rightarrow> int \<Rightarrow> int" where
  "roundToPowerOf2 v round = (let forceCarry = round - 1; truncateMask = NOT forceCarry in (v + forceCarry) AND truncateMask)"

definition roundUpToMultipleOf64 :: "nat \<Rightarrow> nat" where
  "roundUpToMultipleOf64 v = nat (roundToPowerOf2 (int v) 64)"

definition isMultipleOfPowerOf2 :: "int \<Rightarrow> int \<Rightarrow> bool" where
  "isMultipleOfPowerOf2 v d \<longleftrightarrow> v AND (d - 1) = 0"

text \<open>The allocator makes room for an aligned address as well, and returns the aligned part, of zeros.\<close>

definition GoAllocator_Allocate :: "nat \<Rightarrow> byte list" where
  "GoAllocator_Allocate sz = replicate sz 0"

text \<open>The slice and the elements up to its capacity, before and after.\<close>

definition GoAllocator_Reallocate :: "nat \<Rightarrow> byte list \<Rightarrow> byte list \<Rightarrow> byte list \<times> byte list" where
  "GoAllocator_Reallocate sz b spare =
     (if length b + length spare \<ge> sz then (take sz (b @ spare), drop sz (b @ spare))
      else (blit (GoAllocator_Allocate sz) 0 b, []))"

record Buffer =
  mb_refCount :: int
  mb_buf :: "byte list"
  mb_spare :: "byte list"
  mb_length :: nat

definition NewResizableBuffer :: Buffer where
  "NewResizableBuffer = \<lparr>mb_refCount = 1, mb_buf = [], mb_spare = [], mb_length = 0\<rparr>"

definition Buffer_Retain :: "Buffer \<Rightarrow> Buffer" where
  "Buffer_Retain b = b\<lparr>mb_refCount := mb_refCount b + 1\<rparr>"

definition Buffer_Release :: "Buffer \<Rightarrow> Buffer" where
  "Buffer_Release b =
     (let b = b\<lparr>mb_refCount := mb_refCount b - 1\<rparr>
      in if mb_refCount b = 0 then b\<lparr>mb_buf := [], mb_spare := [], mb_length := 0\<rparr> else b)"

definition Buffer_Bytes :: "Buffer \<Rightarrow> byte list option" where
  "Buffer_Bytes b = slice (mb_buf b @ mb_spare b) 0 (mb_length b)"

definition Buffer_Len :: "Buffer \<Rightarrow> nat" where
  "Buffer_Len b = mb_length b"

definition Buffer_Cap :: "Buffer \<Rightarrow> nat" where
  "Buffer_Cap b = length (mb_buf b)"

definition Buffer_Reallocate :: "Buffer \<Rightarrow> nat \<Rightarrow> Buffer" where
  "Buffer_Reallocate b newCap =
     (let (buf, spare) = GoAllocator_Reallocate newCap (mb_buf b) (mb_spare b) in b\<lparr>mb_buf := buf, mb_spare := spare\<rparr>)"

definition Buffer_Reserve :: "Buffer \<Rightarrow> nat \<Rightarrow> Buffer" where
  "Buffer_Reserve b capacity =
     (if capacity > length (mb_buf b) then
        let newCap = roundUpToMultipleOf64 capacity
        in if length (mb_buf b) = 0 then b\<lparr>mb_buf := GoAllocator_Allocate newCap, mb_spare := []\<rparr>
           else Buffer_Reallocate b newCap
      else b)"

definition Buffer_resize :: "Buffer \<Rightarrow> nat \<Rightarrow> bool \<Rightarrow> Buffer" where
  "Buffer_resize b newSize shrink =
     (let b = (if \<not> shrink \<or> newSize > mb_length b then Buffer_Reserve b newSize
        else let newCap = roundUpToMultipleOf64 newSize
          in if length (mb_buf b) \<noteq> newCap then
               if newSize = 0 then b\<lparr>mb_buf := [], mb_spare := []\<rparr> else Buffer_Reallocate b newCap
             else b)
      in b\<lparr>mb_length := newSize\<rparr>)"

definition Buffer_Resize :: "Buffer \<Rightarrow> nat \<Rightarrow> Buffer" where
  "Buffer_Resize b newSize = Buffer_resize b newSize True"

definition Buffer_ResizeNoShrink :: "Buffer \<Rightarrow> nat \<Rightarrow> Buffer" where
  "Buffer_ResizeNoShrink b newSize = Buffer_resize b newSize False"

definition Buffer_Reset :: "Buffer \<Rightarrow> byte list \<Rightarrow> Buffer" where
  "Buffer_Reset b buf =
     (if length buf \<le> length (mb_buf b) then Buffer_Resize (b\<lparr>mb_buf := blit (mb_buf b) 0 buf\<rparr>) (length buf)
      else let b = Buffer_Resize b (length buf) in b\<lparr>mb_buf := blit (mb_buf b) 0 buf\<rparr>)"

section \<open>Sizes and contents\<close>

lemma roundUpToMultipleOf64_eq: "roundUpToMultipleOf64 v = (v + 63) div 64 * 64"
proof -
  have mask: "63 = (mask 6 :: int)" by (simp add: mask_eq_exp_minus_1)
  have "(int v + 63) AND NOT (mask 6) = push_bit 6 (drop_bit 6 (int v + 63))" by (rule bit_eqI) (auto simp: bit_simps)
  also have "\<dots> = int ((v + 63) div 64 * 64)" by (simp add: push_bit_eq_mult drop_bit_eq_div)
  finally show ?thesis unfolding mask [symmetric] by (simp add: roundUpToMultipleOf64_def roundToPowerOf2_def)
qed

lemma roundUpToMultipleOf64_ge: "v \<le> roundUpToMultipleOf64 v"
  unfolding roundUpToMultipleOf64_eq by linarith

text \<open>The length never exceeds the slice, so that \<^verbatim>\<open>Bytes\<close> does not panic.\<close>

definition buffer_ok :: "Buffer \<Rightarrow> bool" where
  "buffer_ok b \<longleftrightarrow> mb_length b \<le> length (mb_buf b)"

lemma Bytes_ok: "buffer_ok b \<Longrightarrow> Buffer_Bytes b = Some (take (mb_length b) (mb_buf b))"
  by (simp add: buffer_ok_def Buffer_Bytes_def)

lemma Reallocate_buf:
  "take (length (mb_buf b)) (mb_buf (Buffer_Reallocate b n)) = take n (mb_buf b) \<and> length (mb_buf (Buffer_Reallocate b n)) = n \<and>
    mb_length (Buffer_Reallocate b n) = mb_length b \<and> mb_refCount (Buffer_Reallocate b n) = mb_refCount b"
  by (auto simp: Buffer_Reallocate_def GoAllocator_Reallocate_def GoAllocator_Allocate_def blit_def min_def)

lemma Reserve_buf:
  "take (length (mb_buf b)) (mb_buf (Buffer_Reserve b n)) = mb_buf b" "n \<le> length (mb_buf (Buffer_Reserve b n))"
  "length (mb_buf b) \<le> length (mb_buf (Buffer_Reserve b n))"
  "mb_length (Buffer_Reserve b n) = mb_length b" "mb_refCount (Buffer_Reserve b n) = mb_refCount b"
  using Reallocate_buf [of b "roundUpToMultipleOf64 n"] roundUpToMultipleOf64_ge [of n]
  by (auto simp: Buffer_Reserve_def GoAllocator_Allocate_def Let_def)

lemma Reserve_nth: "i < length (mb_buf b) \<Longrightarrow> mb_buf (Buffer_Reserve b n) ! i = mb_buf b ! i"
  using Reserve_buf(1,3) [of b n] by (metis nth_take)

lemma ResizeNoShrink_buf:
  "mb_buf (Buffer_ResizeNoShrink b n) = mb_buf (Buffer_Reserve b n)" "mb_length (Buffer_ResizeNoShrink b n) = n"
  "mb_refCount (Buffer_ResizeNoShrink b n) = mb_refCount b"
  using Reserve_buf(5) [of b n] by (simp_all add: Buffer_ResizeNoShrink_def Buffer_resize_def)

lemma resize_buf:
  "n \<le> length (mb_buf (Buffer_resize b n s)) \<and> take (min n (length (mb_buf b))) (mb_buf (Buffer_resize b n s)) = take n (mb_buf b) \<and>
    mb_length (Buffer_resize b n s) = n"
proof (cases "\<not> s \<or> mb_length b < n")
  case True
  then have "take (min n (length (mb_buf b))) (mb_buf (Buffer_resize b n s)) = take n (mb_buf b)"
    using arg_cong [OF Reserve_buf(1) [of b n], of "take n"] by (simp add: Buffer_resize_def min.commute)
  then show ?thesis using True Reserve_buf(2) [of n b] by (simp add: Buffer_resize_def)
next
  case False
  have "take (min n (length (mb_buf b))) (mb_buf (Buffer_Reallocate b (roundUpToMultipleOf64 n))) = take n (mb_buf b)"
    using arg_cong [OF conjunct1 [OF Reallocate_buf [of b "roundUpToMultipleOf64 n"]], of "take n"] roundUpToMultipleOf64_ge [of n]
    by (simp add: min_absorb1)
  then show ?thesis using False Reallocate_buf [of b "roundUpToMultipleOf64 n"] roundUpToMultipleOf64_ge [of n]
    by (auto simp: Buffer_resize_def Let_def)
qed

section \<open>Properties\<close>

text \<open>C40: The length of a buffer never exceeds its slice: a new one has this property and every operation keeps it, so that
  \<^verbatim>\<open>Bytes\<close> does not panic. \<^verbatim>\<open>Reserve\<close> makes room and keeps the contents, \<^verbatim>\<open>Resize\<close> and \<^verbatim>\<open>ResizeNoShrink\<close> give
  the length asked for and keep the contents up to it, \<^verbatim>\<open>Reset\<close> makes the contents the data, also where the buffer has to grow for it.\<close>

theorem Buffer_well_formed:
  assumes "buffer_ok b"
  shows "buffer_ok NewResizableBuffer \<and> buffer_ok (Buffer_Retain b) \<and> buffer_ok (Buffer_Release b) \<and>
    (buffer_ok (Buffer_Reserve b n) \<and> n \<le> Buffer_Cap (Buffer_Reserve b n) \<and> Buffer_Bytes (Buffer_Reserve b n) = Buffer_Bytes b) \<and>
    (\<forall>s. buffer_ok (Buffer_resize b n s) \<and> (\<exists>old new. Buffer_Bytes b = Some old \<and> Buffer_Bytes (Buffer_resize b n s) = Some new \<and>
      length new = n \<and> take (length old) new = take n old)) \<and>
    (buffer_ok (Buffer_Reset b data) \<and> Buffer_Bytes (Buffer_Reset b data) = Some data)"
proof -
  have l: "mb_length b \<le> length (mb_buf b)" using assms by (simp add: buffer_ok_def)
  have reserve: "buffer_ok (Buffer_Reserve b n)" using l Reserve_buf(3,4) [of b n] by (simp add: buffer_ok_def)
  moreover have "Buffer_Bytes (Buffer_Reserve b n) = Buffer_Bytes b"
    using Bytes_ok [OF reserve] Bytes_ok [OF assms] arg_cong [OF Reserve_buf(1) [of b n], of "take (mb_length b)"] l
    by (simp add: Reserve_buf(4) min_absorb1)
  moreover have resize: "buffer_ok (Buffer_resize b n s)" for b n s using resize_buf [of n b s] by (simp add: buffer_ok_def)
  moreover have "\<exists>old new. Buffer_Bytes b = Some old \<and> Buffer_Bytes (Buffer_resize b n s) = Some new \<and>
      length new = n \<and> take (length old) new = take n old" for s
  proof -
    have "take (min n (mb_length b)) (take (min n (length (mb_buf b))) (mb_buf (Buffer_resize b n s))) = take (min n (mb_length b)) (take n (mb_buf b))"
      using resize_buf [of n b s] by (simp only:)
    moreover have "min (min n (mb_length b)) (min n (length (mb_buf b))) = min n (mb_length b)" "min (min n (mb_length b)) n = min n (mb_length b)"
      using l by auto
    ultimately have "take (min n (mb_length b)) (mb_buf (Buffer_resize b n s)) = take (min n (mb_length b)) (mb_buf b)" by (simp only: take_take)
    then show ?thesis using Bytes_ok [OF assms] Bytes_ok [OF resize [of b n s]] resize_buf [of n b s] l by (simp add: min.commute)
  qed
  moreover have "buffer_ok (Buffer_Reset b data) \<and> Buffer_Bytes (Buffer_Reset b data) = Some data"
  proof (cases "length data \<le> length (mb_buf b)")
    case True
    let ?b = "b\<lparr>mb_buf := blit (mb_buf b) 0 data\<rparr>"
    have "take (length data) (mb_buf (Buffer_Resize ?b (length data))) = data"
      using resize_buf [of "length data" ?b True] True by (simp add: Buffer_Resize_def blit_def)
    then show ?thesis using resize [of ?b "length data" True] resize_buf [of "length data" ?b True] True
      by (simp add: Buffer_Reset_def Buffer_Resize_def Bytes_ok)
  next
    case False
    let ?b = "Buffer_Resize b (length data)"
    have "length data \<le> length (mb_buf ?b)" "mb_length ?b = length data" using resize_buf [of "length data" b True] by (simp_all add: Buffer_Resize_def)
    then show ?thesis using False Bytes_ok [of "?b\<lparr>mb_buf := blit (mb_buf ?b) 0 data\<rparr>"] by (simp add: Buffer_Reset_def buffer_ok_def blit_def Let_def)
  qed
  ultimately show ?thesis using l Reserve_buf(2) [of n b] by (simp add: buffer_ok_def NewResizableBuffer_def Buffer_Retain_def Buffer_Release_def Buffer_Cap_def Let_def)
qed

theorem Buffer_well_formed_witness:
  "Buffer_Bytes (Buffer_Reset \<lparr>mb_refCount = 1, mb_buf = [9, 9, 9], mb_spare = [], mb_length = 2\<rparr> [1, 2, 3, 4]) = Some [1, 2, 3, 4]"
proof -
  have "buffer_ok \<lparr>mb_refCount = 1, mb_buf = [9, 9, 9], mb_spare = [], mb_length = 2\<rparr>" by (simp add: buffer_ok_def)
  from Buffer_well_formed [OF this, of 0 "[1, 2, 3, 4]"] show ?thesis by blast
qed

end
