(* ===== verification/Buffer_Writers.thy ===== *)
theory Buffer_Writers
  imports Bit_Writer Dictionary Memory_Buffer
begin

unbundle bit_operations_syntax

text \<open>
  The writers \<^verbatim>\<open>PooledBufferWriter\<close> and \<^verbatim>\<open>BufferWriter\<close> of \<^verbatim>\<open>parquet/internal/encoding/types.go\<close>, which the encoders
  and the page writer write to. What \<^verbatim>\<open>bufferPool.Get()\<close> returns is the argument \<open>pool\<close> of the operations that
  call it; a buffer given back to the pool leaves the writer.
\<close>

section \<open>The source\<close>

definition memory_Set :: "byte list \<Rightarrow> byte \<Rightarrow> byte list" where
  "memory_Set buf c = replicate (length buf) c"

text \<open>The buffer that \<^verbatim>\<open>poolBuffer.Release\<close> and \<^verbatim>\<open>Reset\<close> give back to the pool.\<close>

definition poolBuffer_Release :: "Buffer \<Rightarrow> Buffer" where
  "poolBuffer_Release b = Buffer_ResizeNoShrink (b\<lparr>mb_buf := memory_Set (mb_buf b) 0\<rparr>) 0"

text \<open>The new capacity that the two methods \<^verbatim>\<open>Reserve\<close> compute: the loop runs at most once, since below
  \<open>2 ^ 62\<close> the next power of two is larger than its argument.\<close>

definition reserve_capacity :: "nat \<Rightarrow> nat \<Rightarrow> nat" where
  "reserve_capacity cap need =
     (let newCap = max cap 256 in if newCap < need then unat (NextPowerOf2 (of_nat need)) else newCap)"

record PooledBufferWriter =
  pw_buf :: "Buffer option"
  pw_pos :: nat
  pw_offset :: nat

definition PooledBufferWriter_SetOffset :: "PooledBufferWriter \<Rightarrow> nat \<Rightarrow> PooledBufferWriter" where
  "PooledBufferWriter_SetOffset b off = b\<lparr>pw_pos := pw_pos b - pw_offset b + off, pw_offset := off\<rparr>"

definition the_buffer :: "Buffer \<Rightarrow> Buffer option \<Rightarrow> Buffer" where
  "the_buffer fresh b = (case b of None \<Rightarrow> fresh | Some buf \<Rightarrow> buf)"

definition PooledBufferWriter_Reserve :: "Buffer \<Rightarrow> PooledBufferWriter \<Rightarrow> int \<Rightarrow> PooledBufferWriter" where
  "PooledBufferWriter_Reserve pool b nbytes =
     (let buf = the_buffer pool (pw_buf b)
      in b\<lparr>pw_buf := Some (Buffer_Reserve buf (reserve_capacity (Buffer_Cap buf) (nat (int (pw_pos b) + nbytes))))\<rparr>)"

definition NewPooledBufferWriter :: "Buffer \<Rightarrow> nat \<Rightarrow> PooledBufferWriter" where
  "NewPooledBufferWriter pool initial =
     PooledBufferWriter_Reserve pool \<lparr>pw_buf = None, pw_pos = 0, pw_offset = 0\<rparr> (int initial)"

definition PooledBufferWriter_Reset :: "Buffer \<Rightarrow> PooledBufferWriter \<Rightarrow> nat \<Rightarrow> PooledBufferWriter" where
  "PooledBufferWriter_Reset pool b initial =
     PooledBufferWriter_Reserve pool (b\<lparr>pw_buf := None, pw_pos := 0, pw_offset := 0\<rparr>) (int initial)"

text \<open>\<^verbatim>\<open>if b.buf.Len() < b.pos { b.buf.ResizeNoShrink(b.pos) }\<close>\<close>

definition grow_to :: "nat \<Rightarrow> Buffer \<Rightarrow> Buffer" where
  "grow_to pos buf = (if Buffer_Len buf < pos then Buffer_ResizeNoShrink buf pos else buf)"

definition PooledBufferWriter_Finish :: "Buffer \<Rightarrow> PooledBufferWriter \<Rightarrow> (PooledBufferWriter \<times> Buffer) option" where
  "PooledBufferWriter_Finish pool b =
     do { buf \<leftarrow> pw_buf b;
          let buf = grow_to (pw_pos b) buf;
          Some (PooledBufferWriter_Reset pool (b\<lparr>pw_buf := None\<rparr>) 0, buf) }"

definition PooledBufferWriter_WriteAt ::
  "Buffer \<Rightarrow> PooledBufferWriter \<Rightarrow> byte list \<Rightarrow> nat \<Rightarrow> (PooledBufferWriter \<times> nat \<times> goerr option) option" where
  "PooledBufferWriter_WriteAt pool b p off =
     (if length p = 0 then Some (b, 0, None)
      else do { let off = off + pw_offset b;
                let need = off + length p;
                buf \<leftarrow> pw_buf b;
                let b = (if need \<ge> Buffer_Cap buf then PooledBufferWriter_Reserve pool b (int need - int (pw_pos b)) else b);
                buf \<leftarrow> pw_buf b;
                dst \<leftarrow> slice_from (mb_buf buf) off;
                let n = min (length dst) (length p);
                let buf = buf\<lparr>mb_buf := blit (mb_buf buf) off p\<rparr>;
                Some (b\<lparr>pw_buf := Some (grow_to need buf)\<rparr>, n, None) })"

definition PooledBufferWriter_UnsafeWrite :: "PooledBufferWriter \<Rightarrow> byte list \<Rightarrow> (PooledBufferWriter \<times> nat \<times> goerr option) option" where
  "PooledBufferWriter_UnsafeWrite b p =
     do { buf \<leftarrow> pw_buf b;
          dst \<leftarrow> slice_from (mb_buf buf) (pw_pos b);
          let n = min (length dst) (length p);
          Some (b\<lparr>pw_buf := Some (buf\<lparr>mb_buf := blit (mb_buf buf) (pw_pos b) p\<rparr>), pw_pos := pw_pos b + n\<rparr>, n, None) }"

definition PooledBufferWriter_Write ::
  "Buffer \<Rightarrow> PooledBufferWriter \<Rightarrow> byte list \<Rightarrow> (PooledBufferWriter \<times> nat \<times> goerr option) option" where
  "PooledBufferWriter_Write pool b p =
     (if length p = 0 then Some (b, 0, None)
      else PooledBufferWriter_UnsafeWrite (PooledBufferWriter_Reserve pool b (int (length p))) p)"

text \<open>A slice of the buffer may reach into its capacity, \<^verbatim>\<open>Buf()[i:j]\<close>; storing it there again.\<close>

definition store_slice :: "Buffer \<Rightarrow> nat \<Rightarrow> byte list \<Rightarrow> Buffer" where
  "store_slice buf i slc =
     (let mem = blit (mb_buf buf @ mb_spare buf) i slc; n = length (mb_buf buf) in buf\<lparr>mb_buf := take n mem, mb_spare := drop n mem\<rparr>)"

text \<open>The loop \<^verbatim>\<open>for j := len(pattern); j < len(slc); j *= 2\<close> doubles the filled part; an empty pattern makes the slice empty.\<close>

definition PooledBufferWriter_UnsafeWriteCopy ::
  "PooledBufferWriter \<Rightarrow> nat \<Rightarrow> byte list \<Rightarrow> (PooledBufferWriter \<times> nat \<times> goerr option) option" where
  "PooledBufferWriter_UnsafeWriteCopy b ncopies pattern =
     do { let nbytes = length pattern * ncopies;
          buf \<leftarrow> pw_buf b;
          slc \<leftarrow> slice (mb_buf buf @ mb_spare buf) (pw_pos b) (pw_pos b + nbytes);
          let slc = fill_loop (blit slc 0 pattern) (length pattern);
          Some (b\<lparr>pw_buf := Some (store_slice buf (pw_pos b) slc), pw_pos := pw_pos b + nbytes\<rparr>, nbytes, None) }"

definition PooledBufferWriter_Tell :: "PooledBufferWriter \<Rightarrow> nat" where
  "PooledBufferWriter_Tell b = pw_pos b"

definition PooledBufferWriter_Bytes :: "PooledBufferWriter \<Rightarrow> (PooledBufferWriter \<times> byte list) option" where
  "PooledBufferWriter_Bytes b =
     do { buf \<leftarrow> pw_buf b;
          let buf = grow_to (pw_pos b) buf;
          bytes \<leftarrow> Buffer_Bytes buf;
          bytes \<leftarrow> slice_from bytes (pw_offset b);
          Some (b\<lparr>pw_buf := Some buf\<rparr>, bytes) }"

definition PooledBufferWriter_Len :: "PooledBufferWriter \<Rightarrow> (PooledBufferWriter \<times> int) option" where
  "PooledBufferWriter_Len b =
     do { buf \<leftarrow> pw_buf b;
          let buf = grow_to (pw_pos b) buf;
          Some (b\<lparr>pw_buf := Some buf\<rparr>, int (Buffer_Len buf) - int (pw_offset b)) }"

record BufferWriter =
  bfw_buffer :: "Buffer option"
  bfw_pos :: nat
  bfw_offset :: nat

definition NewBufferWriterFromBuffer :: "Buffer \<Rightarrow> BufferWriter" where
  "NewBufferWriterFromBuffer b = \<lparr>bfw_buffer = Some b, bfw_pos = 0, bfw_offset = 0\<rparr>"

definition NewBufferWriter :: "nat \<Rightarrow> BufferWriter" where
  "NewBufferWriter initial = \<lparr>bfw_buffer = Some (Buffer_Reserve NewResizableBuffer initial), bfw_pos = 0, bfw_offset = 0\<rparr>"

definition BufferWriter_SetOffset :: "BufferWriter \<Rightarrow> nat \<Rightarrow> BufferWriter" where
  "BufferWriter_SetOffset b off = b\<lparr>bfw_offset := off\<rparr>"

definition ensureOffset :: "BufferWriter \<Rightarrow> BufferWriter option" where
  "ensureOffset b = do { buf \<leftarrow> bfw_buffer b; Some (b\<lparr>bfw_buffer := Some (grow_to (bfw_offset b) buf)\<rparr>) }"

definition BufferWriter_Bytes :: "BufferWriter \<Rightarrow> (BufferWriter \<times> byte list) option" where
  "BufferWriter_Bytes b =
     do { b \<leftarrow> ensureOffset b;
          buf \<leftarrow> bfw_buffer b;
          bytes \<leftarrow> Buffer_Bytes buf;
          bytes \<leftarrow> slice_from bytes (bfw_offset b);
          Some (b, bytes) }"

definition BufferWriter_Len :: "BufferWriter \<Rightarrow> (BufferWriter \<times> int) option" where
  "BufferWriter_Len b =
     do { b \<leftarrow> ensureOffset b; buf \<leftarrow> bfw_buffer b; Some (b, int (Buffer_Len buf) - int (bfw_offset b)) }"

definition BufferWriter_Cap :: "BufferWriter \<Rightarrow> (BufferWriter \<times> int) option" where
  "BufferWriter_Cap b =
     do { b \<leftarrow> ensureOffset b; buf \<leftarrow> bfw_buffer b; Some (b, int (Buffer_Cap buf) - int (bfw_offset b)) }"

definition BufferWriter_Release :: "BufferWriter \<Rightarrow> (BufferWriter \<times> Buffer) option" where
  "BufferWriter_Release b = do { buf \<leftarrow> bfw_buffer b; Some (b\<lparr>bfw_buffer := None\<rparr>, Buffer_Release buf) }"

definition BufferWriter_Reserve :: "BufferWriter \<Rightarrow> int \<Rightarrow> BufferWriter" where
  "BufferWriter_Reserve b nbytes =
     (let buf = the_buffer NewResizableBuffer (bfw_buffer b)
      in b\<lparr>bfw_buffer := Some (Buffer_Reserve buf
           (reserve_capacity (Buffer_Cap buf) (nat (int (bfw_offset b) + int (bfw_pos b) + nbytes))))\<rparr>)"

definition BufferWriter_Truncate :: "BufferWriter \<Rightarrow> BufferWriter" where
  "BufferWriter_Truncate b =
     (let b = b\<lparr>bfw_pos := 0, bfw_offset := 0\<rparr>
      in case bfw_buffer b of None \<Rightarrow> BufferWriter_Reserve b 1024
         | Some buf \<Rightarrow> b\<lparr>bfw_buffer := Some (Buffer_ResizeNoShrink buf 0)\<rparr>)"

definition BufferWriter_Reset :: "BufferWriter \<Rightarrow> nat \<Rightarrow> BufferWriter" where
  "BufferWriter_Reset b initial =
     (let buf = (case bfw_buffer b of Some buf \<Rightarrow> Buffer_Release buf | None \<Rightarrow> NewResizableBuffer);
          b = b\<lparr>bfw_buffer := Some buf, bfw_pos := 0, bfw_offset := 0\<rparr>
      in if initial > 0 then BufferWriter_Reserve b (int initial) else b)"

definition BufferWriter_Finish :: "BufferWriter \<Rightarrow> BufferWriter \<times> Buffer option" where
  "BufferWriter_Finish b = (BufferWriter_Reset (b\<lparr>bfw_buffer := None\<rparr>) 0, bfw_buffer b)"

definition BufferWriter_WriteAt :: "BufferWriter \<Rightarrow> byte list \<Rightarrow> nat \<Rightarrow> (BufferWriter \<times> nat \<times> goerr option) option" where
  "BufferWriter_WriteAt b p off =
     (if length p = 0 then Some (b, 0, None)
      else do { let off = off + bfw_offset b;
                let need = off + length p;
                buf \<leftarrow> bfw_buffer b;
                let b = (if need \<ge> Buffer_Cap buf then BufferWriter_Reserve b (int need - int (bfw_offset b) - int (bfw_pos b)) else b);
                buf \<leftarrow> bfw_buffer b;
                _ \<leftarrow> slice_from (mb_buf buf) off;
                let buf = buf\<lparr>mb_buf := blit (mb_buf buf) off p\<rparr>;
                Some (b\<lparr>bfw_buffer := Some (grow_to need buf)\<rparr>, length p, None) })"

definition BufferWriter_UnsafeWrite :: "BufferWriter \<Rightarrow> byte list \<Rightarrow> (BufferWriter \<times> nat \<times> goerr option) option" where
  "BufferWriter_UnsafeWrite b p =
     do { buf \<leftarrow> bfw_buffer b;
          let start = bfw_pos b + bfw_offset b;
          _ \<leftarrow> slice_from (mb_buf buf) start;
          let buf = buf\<lparr>mb_buf := blit (mb_buf buf) start p\<rparr>;
          Some (b\<lparr>bfw_buffer := Some (grow_to (start + length p) buf), bfw_pos := bfw_pos b + length p\<rparr>, length p, None) }"

definition BufferWriter_Write :: "BufferWriter \<Rightarrow> byte list \<Rightarrow> (BufferWriter \<times> nat \<times> goerr option) option" where
  "BufferWriter_Write b p =
     (if length p = 0 then Some (b, 0, None)
      else do { let b = (if bfw_buffer b = None then BufferWriter_Reserve b (int (length p)) else b);
                buf \<leftarrow> bfw_buffer b;
                let b = (if bfw_pos b + bfw_offset b + length p \<ge> Buffer_Cap buf then BufferWriter_Reserve b (int (length p)) else b);
                BufferWriter_UnsafeWrite b p })"

definition BufferWriter_UnsafeWriteCopy :: "BufferWriter \<Rightarrow> nat \<Rightarrow> byte list \<Rightarrow> (BufferWriter \<times> nat \<times> goerr option) option" where
  "BufferWriter_UnsafeWriteCopy b ncopies pattern =
     do { let nbytes = length pattern * ncopies;
          let start = bfw_pos b + bfw_offset b;
          buf \<leftarrow> bfw_buffer b;
          slc \<leftarrow> slice (mb_buf buf @ mb_spare buf) start (start + nbytes);
          let slc = fill_loop (blit slc 0 pattern) (length pattern);
          let buf = store_slice buf start slc;
          Some (b\<lparr>bfw_buffer := Some (grow_to (start + nbytes) buf), bfw_pos := bfw_pos b + nbytes\<rparr>, nbytes, None) }"

text \<open>\<^verbatim>\<open>whence\<close> is \<^verbatim>\<open>io.SeekStart\<close> 0, \<^verbatim>\<open>io.SeekCurrent\<close> 1 or \<^verbatim>\<open>io.SeekEnd\<close> 2.\<close>

definition BufferWriter_Seek :: "BufferWriter \<Rightarrow> int \<Rightarrow> int \<Rightarrow> (BufferWriter \<times> int \<times> goerr option) option" where
  "BufferWriter_Seek b off whence =
     do { (b, newPos) \<leftarrow>
            (if whence = 0 then Some (b, off)
             else if whence = 1 then Some (b, int (bfw_pos b) + off)
             else if whence = 2 then do { (b, n) \<leftarrow> BufferWriter_Len b; Some (b, n + off) }
             else Some (b, 0));
          if newPos < 0 then Some (b, 0, Some (Errorf ''negative result pos''))
          else Some (b\<lparr>bfw_pos := nat newPos\<rparr>, newPos, None) }"

definition BufferWriter_Tell :: "BufferWriter \<Rightarrow> nat" where
  "BufferWriter_Tell b = bfw_pos b"

section \<open>Growing\<close>

lemma NextPowerOf2_greater:
  assumes "n \<le> 2 ^ 62"
  shows "n < unat (NextPowerOf2 (of_nat n))"
proof -
  let ?w = "of_nat n :: u64"
  have w: "unat ?w = n" using assms by (simp add: unsigned_of_nat take_bit_nat_eq_self)
  have "bits_len ?w \<le> 63" unfolding bits_len_le_iff w using assms by simp
  moreover have "unat (of_nat (2 ^ bits_len ?w) :: u64) = take_bit 64 (2 ^ bits_len ?w)" by (simp only: unsigned_of_nat) simp
  ultimately have "unat (NextPowerOf2 ?w) = 2 ^ bits_len ?w" by (simp add: NextPowerOf2_def push_bit_eq_mult)
  then show ?thesis using unat_less_exp_bits_len [of ?w] w by simp
qed

lemma reserve_capacity_ge: "need \<le> 2 ^ 62 \<Longrightarrow> need \<le> reserve_capacity cap need"
  using NextPowerOf2_greater [of need] by (auto simp: reserve_capacity_def Let_def)

lemma Reserve_prefix: "\<exists>t. mb_buf (Buffer_Reserve b n) = mb_buf b @ t"
  using Reserve_buf(1) [of b n] append_take_drop_id [of "length (mb_buf b)" "mb_buf (Buffer_Reserve b n)"] by metis

lemma grow_to_buf:
  assumes "pos \<le> length (mb_buf b)"
  shows "mb_buf (grow_to pos b) = mb_buf b" "mb_length (grow_to pos b) = max (mb_length b) pos" "mb_spare (grow_to pos b) = mb_spare b"
    "mb_refCount (grow_to pos b) = mb_refCount b"
  using assms by (auto simp: grow_to_def Buffer_Len_def Buffer_ResizeNoShrink_def Buffer_resize_def Buffer_Reserve_def)

section \<open>The bytes written\<close>

text \<open>The bytes from \<open>off\<close> on are \<open>data\<close>.\<close>

definition data_at :: "byte list \<Rightarrow> nat \<Rightarrow> byte list \<Rightarrow> bool" where
  "data_at mem off data \<longleftrightarrow> off + length data \<le> length mem \<and> take (length data) (drop off mem) = data"

lemma data_at_append: "data_at mem off data \<Longrightarrow> data_at (mem @ t) off data"
  by (simp add: data_at_def)

lemma data_at_blit:
  assumes "data_at mem off data" "off + length data + length p \<le> length mem"
  shows "data_at (blit mem (off + length data) p) off (data @ p)"
proof -
  have "take (length data) (drop off mem) = data" using assms(1) by (simp add: data_at_def)
  then have "blit mem (off + length data) p = take off mem @ data @ p @ drop (off + length data + length p) mem"
    using assms(2) by (simp add: blit_def take_add)
  then show ?thesis using assms(2) by (simp add: data_at_def)
qed

text \<open>The view of a writer: the bytes written since the offset. The buffer of a \<^verbatim>\<open>PooledBufferWriter\<close> may be shorter than
  its position.\<close>

definition pw_view :: "PooledBufferWriter \<Rightarrow> byte list \<Rightarrow> bool" where
  "pw_view w data \<longleftrightarrow> (\<exists>b. pw_buf w = Some b \<and> mb_length b \<le> pw_pos w \<and> pw_pos w = pw_offset w + length data \<and>
     data_at (mb_buf b) (pw_offset w) data)"

definition bfw_view :: "BufferWriter \<Rightarrow> byte list \<Rightarrow> bool" where
  "bfw_view w data \<longleftrightarrow> (\<exists>b. bfw_buffer w = Some b \<and> buffer_ok b \<and> bfw_pos w = length data \<and>
     (mb_length b = bfw_offset w + bfw_pos w \<or> data = [] \<and> mb_length b \<le> bfw_offset w) \<and>
     (data = [] \<or> data_at (mb_buf b) (bfw_offset w) data))"

lemma Pooled_Reserve_view:
  assumes "pw_view w data" "int (pw_pos w) + n \<le> 2 ^ 62" "0 \<le> n"
  shows "pw_view (PooledBufferWriter_Reserve pool w n) data \<and>
    pw_pos (PooledBufferWriter_Reserve pool w n) = pw_pos w \<and> pw_offset (PooledBufferWriter_Reserve pool w n) = pw_offset w \<and>
    (\<exists>b. pw_buf (PooledBufferWriter_Reserve pool w n) = Some b \<and> int (pw_pos w) + n \<le> int (length (mb_buf b)))"
proof -
  from assms(1) obtain b where b: "pw_buf w = Some b" "mb_length b \<le> pw_pos w" "pw_pos w = pw_offset w + length data"
    "data_at (mb_buf b) (pw_offset w) data" by (auto simp: pw_view_def)
  let ?c = "reserve_capacity (Buffer_Cap b) (nat (int (pw_pos w) + n))"
  obtain t where t: "mb_buf (Buffer_Reserve b ?c) = mb_buf b @ t" using Reserve_prefix by blast
  have "nat (int (pw_pos w) + n) \<le> 2 ^ 62" using assms(2) by (simp add: nat_le_iff)
  then have "nat (int (pw_pos w) + n) \<le> length (mb_buf (Buffer_Reserve b ?c))"
    using reserve_capacity_ge [of "nat (int (pw_pos w) + n)" "Buffer_Cap b"] Reserve_buf(2) [of ?c b] by linarith
  then show ?thesis
    using b t Reserve_buf(4) [of b ?c] by (auto simp: PooledBufferWriter_Reserve_def the_buffer_def pw_view_def data_at_append)
qed

lemma Pooled_Write_view:
  assumes "pw_view w data" "pw_pos w + length p \<le> 2 ^ 62"
  shows "\<exists>w'. PooledBufferWriter_Write pool w p = Some (w', length p, None) \<and> pw_view w' (data @ p) \<and> pw_offset w' = pw_offset w"
proof (cases "p = []")
  case True
  then show ?thesis using assms(1) by (simp add: PooledBufferWriter_Write_def)
next
  case False
  let ?w = "PooledBufferWriter_Reserve pool w (int (length p))"
  from Pooled_Reserve_view [OF assms(1), of "int (length p)" pool] assms(2) obtain b where
    b: "pw_view ?w data" "pw_pos ?w = pw_pos w" "pw_offset ?w = pw_offset w" "pw_buf ?w = Some b" "pw_pos w + length p \<le> length (mb_buf b)" by auto
  then have v: "pw_pos w = pw_offset w + length data" "data_at (mb_buf b) (pw_offset w) data" "mb_length b \<le> pw_pos w" by (auto simp: pw_view_def)
  let ?w' = "?w\<lparr>pw_buf := Some (b\<lparr>mb_buf := blit (mb_buf b) (pw_pos w) p\<rparr>), pw_pos := pw_pos w + length p\<rparr>"
  have "PooledBufferWriter_Write pool w p = Some (?w', length p, None)"
    using False b(2,4,5) by (simp add: PooledBufferWriter_Write_def PooledBufferWriter_UnsafeWrite_def min_absorb2 Let_def)
  moreover have "pw_view ?w' (data @ p)" using data_at_blit [OF v(2), of p] b(3,5) v by (simp add: pw_view_def)
  ultimately show ?thesis using b(3) by auto
qed

lemma Pooled_Finish_view:
  assumes "pw_view w data"
  shows "\<exists>b. PooledBufferWriter_Finish pool w = Some (PooledBufferWriter_Reset pool w 0, b) \<and> mb_length b = pw_pos w \<and>
    data_at (mb_buf b) (pw_offset w) data"
proof -
  from assms obtain b where b: "pw_buf w = Some b" "mb_length b \<le> pw_pos w" "pw_pos w = pw_offset w + length data"
    "data_at (mb_buf b) (pw_offset w) data" by (auto simp: pw_view_def)
  then have "pw_pos w \<le> length (mb_buf b)" by (simp add: data_at_def)
  from grow_to_buf [OF this] b show ?thesis by (simp add: PooledBufferWriter_Finish_def PooledBufferWriter_Reset_def max_absorb2)
qed

lemma Pooled_Bytes_view:
  assumes "pw_view w data"
  shows "\<exists>w'. PooledBufferWriter_Bytes w = Some (w', data) \<and> PooledBufferWriter_Len w = Some (w', int (length data)) \<and> pw_view w' data"
proof -
  from assms obtain b where b: "pw_buf w = Some b" "mb_length b \<le> pw_pos w" "pw_pos w = pw_offset w + length data"
    "data_at (mb_buf b) (pw_offset w) data" by (auto simp: pw_view_def)
  then have "pw_pos w \<le> length (mb_buf b)" by (simp add: data_at_def)
  note g = grow_to_buf [OF this]
  have "Buffer_Bytes (grow_to (pw_pos w) b) = Some (take (pw_pos w) (mb_buf b))"
    using b g by (intro trans [OF Bytes_ok]) (simp_all add: buffer_ok_def data_at_def max_absorb2)
  then show ?thesis using b g
    by (auto simp: PooledBufferWriter_Bytes_def PooledBufferWriter_Len_def Buffer_Len_def pw_view_def data_at_def max_absorb2 drop_take)
qed

lemma Pooled_Reset_view:
  "initial \<le> 2 ^ 62 \<Longrightarrow> mb_length pool = 0 \<Longrightarrow> pw_view (PooledBufferWriter_Reset pool w initial) [] \<and>
    pw_offset (PooledBufferWriter_Reset pool w initial) = 0"
  using Reserve_buf(4) [of pool] by (simp add: PooledBufferWriter_Reset_def PooledBufferWriter_Reserve_def the_buffer_def pw_view_def data_at_def)

lemma New_Pooled_view: "initial \<le> 2 ^ 62 \<Longrightarrow> mb_length pool = 0 \<Longrightarrow> pw_view (NewPooledBufferWriter pool initial) [] \<and>
    pw_offset (NewPooledBufferWriter pool initial) = 0"
  using Reserve_buf(4) [of pool] by (simp add: NewPooledBufferWriter_def PooledBufferWriter_Reserve_def the_buffer_def pw_view_def data_at_def)

lemma Buffer_Writer_Write_view:
  assumes "bfw_view w data" "bfw_offset w + bfw_pos w + length p \<le> 2 ^ 62"
  shows "\<exists>w'. BufferWriter_Write w p = Some (w', length p, None) \<and> bfw_view w' (data @ p) \<and> bfw_offset w' = bfw_offset w"
proof (cases "p = []")
  case True
  then show ?thesis using assms(1) by (simp add: BufferWriter_Write_def)
next
  case False
  from assms(1) obtain b where b: "bfw_buffer w = Some b" "bfw_pos w = length data"
    "mb_length b = bfw_offset w + bfw_pos w \<or> data = [] \<and> mb_length b \<le> bfw_offset w" "data = [] \<or> data_at (mb_buf b) (bfw_offset w) data"
    by (auto simp: bfw_view_def)
  let ?need = "bfw_pos w + bfw_offset w + length p"
  define b1 where "b1 = (if ?need \<ge> Buffer_Cap b then Buffer_Reserve b (reserve_capacity (Buffer_Cap b) ?need) else b)"
  have "nat (int (bfw_offset w) + int (bfw_pos w) + int (length p)) = ?need" by simp
  then have step: "(if ?need \<ge> Buffer_Cap b then BufferWriter_Reserve w (int (length p)) else w) = w\<lparr>bfw_buffer := Some b1\<rparr>"
    using b(1) by (simp add: BufferWriter_Reserve_def the_buffer_def b1_def)
  obtain t where t: "mb_buf b1 = mb_buf b @ t" using Reserve_prefix [of b] unfolding b1_def by (cases "Buffer_Cap b \<le> ?need") auto
  have room: "?need \<le> length (mb_buf b1)"
  proof (cases "Buffer_Cap b \<le> ?need")
    case True
    have "?need \<le> reserve_capacity (Buffer_Cap b) ?need" using assms(2) by (intro reserve_capacity_ge) simp
    then show ?thesis using True Reserve_buf(2) [of "reserve_capacity (Buffer_Cap b) ?need" b] unfolding b1_def by simp
  qed (simp add: b1_def Buffer_Cap_def)
  have at: "data_at (mb_buf b1) (bfw_offset w) data" using b(2,4) room data_at_append t by (auto simp: data_at_def)
  let ?b2 = "b1\<lparr>mb_buf := blit (mb_buf b1) (bfw_pos w + bfw_offset w) p\<rparr>"
  let ?w' = "w\<lparr>bfw_buffer := Some (grow_to ?need ?b2), bfw_pos := bfw_pos w + length p\<rparr>"
  have "BufferWriter_Write w p = Some (?w', length p, None)"
    using False b(1) step room by (simp add: BufferWriter_Write_def BufferWriter_UnsafeWrite_def Let_def)
  moreover have "data_at (mb_buf ?b2) (bfw_offset w) (data @ p)" using data_at_blit [OF at, of p] room b(2) by (simp add: add.commute)
  moreover have len: "mb_length b1 = mb_length b" by (simp add: b1_def Reserve_buf(4))
  moreover have "mb_length b \<le> ?need" using b(2,3) by auto
  ultimately show ?thesis
    using grow_to_buf [of ?need ?b2] room b(2,3) False by (auto simp: bfw_view_def buffer_ok_def)
qed

lemma Buffer_Writer_Bytes_view:
  assumes "bfw_view w data"
  shows "\<exists>w'. BufferWriter_Bytes w = Some (w', data) \<and> BufferWriter_Len w = Some (w', int (length data))"
proof -
  from assms obtain b where b: "bfw_buffer w = Some b" "bfw_pos w = length data" "buffer_ok b"
    "mb_length b = bfw_offset w + bfw_pos w \<or> data = [] \<and> mb_length b \<le> bfw_offset w" "data = [] \<or> data_at (mb_buf b) (bfw_offset w) data"
    by (auto simp: bfw_view_def)
  define b' where "b' = grow_to (bfw_offset w) b"
  have b': "mb_length b' = bfw_offset w + length data" "buffer_ok b'" "data = [] \<or> mb_buf b' = mb_buf b"
    using b(2-4) ResizeNoShrink_buf [of b "bfw_offset w"] Reserve_buf(2) [of "bfw_offset w" b]
    by (auto simp: b'_def grow_to_def Buffer_Len_def buffer_ok_def)
  then have "drop (bfw_offset w) (take (mb_length b') (mb_buf b')) = data" using b(5) by (auto simp: data_at_def drop_take)
  then show ?thesis using b(1) b' Bytes_ok [OF b'(2)]
    by (simp add: BufferWriter_Bytes_def BufferWriter_Len_def ensureOffset_def Buffer_Len_def buffer_ok_def flip: b'_def)
qed

lemma New_Buffer_Writer_view: "bfw_view (BufferWriter_SetOffset (NewBufferWriter initial) off) []"
  using Reserve_buf(4) [of NewResizableBuffer initial]
  by (simp add: bfw_view_def BufferWriter_SetOffset_def NewBufferWriter_def buffer_ok_def) (simp add: NewResizableBuffer_def)

section \<open>Writing at an offset\<close>

text \<open>The \<^verbatim>\<open>WriterAtWithLen\<close> that a \<^verbatim>\<open>PooledBufferWriter\<close> is; the bit writer never calls \<^verbatim>\<open>Len\<close>.\<close>

definition PooledWriterAt :: "Buffer \<Rightarrow> PooledBufferWriter WriterAtWithLen" where
  "PooledWriterAt pool =
     \<lparr>WriteAt = PooledBufferWriter_WriteAt pool,
      Len = (\<lambda>w. case PooledBufferWriter_Len w of Some (_, n) \<Rightarrow> nat n | None \<Rightarrow> 0),
      Reserve = (\<lambda>w n. PooledBufferWriter_Reserve pool w (int n))\<rparr>"

text \<open>The memory behind the offset, with zeros where the buffer ends, and the writers that have a buffer without a hidden part.\<close>

definition pw_byte :: "PooledBufferWriter \<Rightarrow> nat \<Rightarrow> byte" where
  "pw_byte w i = (case pw_buf w of None \<Rightarrow> 0
     | Some b \<Rightarrow> if pw_offset w + i < length (mb_buf b) then mb_buf b ! (pw_offset w + i) else 0)"

definition pw_fits :: "PooledBufferWriter \<Rightarrow> nat \<Rightarrow> bool" where
  "pw_fits w n \<longleftrightarrow> (\<exists>b. pw_buf w = Some b \<and> mb_spare b = []) \<and> pw_offset w + n \<le> 2 ^ 62"

lemma Reserve_zeros: "mb_spare b = [] \<Longrightarrow> \<exists>k. mb_buf (Buffer_Reserve b n) = mb_buf b @ replicate k 0 \<and> mb_spare (Buffer_Reserve b n) = []"
  using roundUpToMultipleOf64_ge [of n]
  by (auto simp: Buffer_Reserve_def Buffer_Reallocate_def GoAllocator_Reallocate_def GoAllocator_Allocate_def blit_def Let_def)

lemma Pooled_Reserve_fields [simp]:
  "pw_offset (PooledBufferWriter_Reserve pool w n) = pw_offset w" "pw_pos (PooledBufferWriter_Reserve pool w n) = pw_pos w"
  by (simp_all add: PooledBufferWriter_Reserve_def Let_def)

lemma Pooled_Reserve_byte:
  assumes "pw_buf w = Some b" "mb_spare b = []"
  shows "pw_byte (PooledBufferWriter_Reserve pool w n) = pw_byte w \<and> pw_fits (PooledBufferWriter_Reserve pool w n) = pw_fits w"
proof -
  let ?c = "reserve_capacity (Buffer_Cap b) (nat (int (pw_pos w) + n))"
  from Reserve_zeros [OF assms(2)] obtain k where
    k: "mb_buf (Buffer_Reserve b ?c) = mb_buf b @ replicate k 0" "mb_spare (Buffer_Reserve b ?c) = []" by blast
  then show ?thesis using assms
    by (auto simp: fun_eq_iff pw_byte_def pw_fits_def PooledBufferWriter_Reserve_def the_buffer_def nth_append)
qed

lemma Pooled_WriteAt_byte:
  assumes "pw_fits w (off + length p)"
  shows "\<exists>w'. PooledBufferWriter_WriteAt pool w p off = Some (w', length p, None) \<and> pw_fits w' = pw_fits w \<and>
    (\<forall>i. pw_byte w' i = (if off \<le> i \<and> i < off + length p then p ! (i - off) else pw_byte w i))"
proof (cases "p = []")
  case False
  from assms obtain b where b: "pw_buf w = Some b" "mb_spare b = []" and bound: "pw_offset w + (off + length p) \<le> 2 ^ 62"
    by (auto simp: pw_fits_def)
  define need where "need = off + pw_offset w + length p"
  define w1 where "w1 = (if need \<ge> Buffer_Cap b then PooledBufferWriter_Reserve pool w (int need - int (pw_pos w)) else w)"
  have w1: "pw_byte w1 = pw_byte w" "pw_fits w1 = pw_fits w" "pw_offset w1 = pw_offset w"
    using Pooled_Reserve_byte [OF b, of pool] by (simp_all add: w1_def)
  have "\<exists>b1. pw_buf w1 = Some b1 \<and> mb_spare b1 = [] \<and> need \<le> length (mb_buf b1)"
  proof (cases "need \<ge> Buffer_Cap b")
    case True
    let ?c = "reserve_capacity (Buffer_Cap b) need"
    have "need \<le> ?c" using bound by (intro reserve_capacity_ge) (simp add: need_def)
    then show ?thesis using True b Reserve_buf(2) [of ?c b] Reserve_zeros [OF b(2), of ?c]
      by (auto simp: w1_def PooledBufferWriter_Reserve_def the_buffer_def nat_add_distrib)
  qed (use b in \<open>simp add: w1_def Buffer_Cap_def\<close>)
  then obtain b1 where b1: "pw_buf w1 = Some b1" "mb_spare b1 = []" "need \<le> length (mb_buf b1)" by blast
  let ?b2 = "b1\<lparr>mb_buf := blit (mb_buf b1) (off + pw_offset w) p\<rparr>"
  let ?w' = "w1\<lparr>pw_buf := Some (grow_to need ?b2)\<rparr>"
  have "length (mb_buf ?b2) = length (mb_buf b1)" using b1(3) by (simp add: need_def)
  then have g: "mb_buf (grow_to need ?b2) = mb_buf ?b2" "mb_spare (grow_to need ?b2) = []"
    using grow_to_buf [of need ?b2] b1(2,3) by simp_all
  have "PooledBufferWriter_WriteAt pool w p off = Some (?w', length p, None)"
    using False b1(1,3)
    by (simp only: PooledBufferWriter_WriteAt_def Let_def need_def [symmetric] b(1) Option.bind.bind_lunit w1_def [symmetric])
      (simp add: need_def min_absorb2)
  moreover have "pw_fits ?w' = pw_fits w" using b b1(1,2) g(2) w1(3) by (simp add: fun_eq_iff pw_fits_def)
  moreover have "pw_byte ?w' i = (if off \<le> i \<and> i < off + length p then p ! (i - off) else pw_byte w i)" for i
  proof -
    have "pw_byte ?w' i = (if off \<le> i \<and> i < off + length p then p ! (i - off) else pw_byte w1 i)"
      using b1 g(1) w1(3) by (auto simp: pw_byte_def nth_blit need_def ac_simps)
    then show ?thesis using w1(1) by simp
  qed
  ultimately show ?thesis by blast
qed (auto simp: PooledBufferWriter_WriteAt_def)

interpretation pooled_writer: writer_at "PooledWriterAt pool" pw_byte pw_fits for pool
proof
  fix w :: PooledBufferWriter and n m :: nat and off :: nat and p :: "byte list"
  show "\<exists>w'. WriteAt (PooledWriterAt pool) w p off = Some (w', length p, None) \<and> pw_fits w' = pw_fits w \<and>
      (\<forall>i. pw_byte w' i = (if off \<le> i \<and> i < off + length p then p ! (i - off) else pw_byte w i))" if "pw_fits w (off + length p)"
    using Pooled_WriteAt_byte [OF that] by (simp add: PooledWriterAt_def)
  show "pw_byte (Reserve (PooledWriterAt pool) w n) = pw_byte w" "pw_fits (Reserve (PooledWriterAt pool) w n) = pw_fits w" if "pw_fits w m"
    using that Pooled_Reserve_byte [of w _ pool "int n"] by (auto simp: pw_fits_def PooledWriterAt_def)
  show "pw_fits w m" if "pw_fits w n" "m \<le> n" using that by (auto simp: pw_fits_def)
qed

section \<open>Properties\<close>

text \<open>The writes of a list of byte slices, with any method \<^verbatim>\<open>Write\<close>.\<close>

fun write_all :: "('w \<Rightarrow> byte list \<Rightarrow> ('w \<times> nat \<times> goerr option) option) \<Rightarrow> 'w \<Rightarrow> byte list list \<Rightarrow> ('w \<times> nat) option" where
  "write_all Write w [] = Some (w, 0)"
| "write_all Write w (p # ps) = do { (w, n, err) \<leftarrow> Write w p; (w, m) \<leftarrow> write_all Write w ps; Some (w, n + m) }"

lemma Pooled_write_all:
  assumes "pw_view w data" "pw_offset w + length (data @ concat ps) \<le> 2 ^ 62"
  shows "\<exists>w'. write_all (PooledBufferWriter_Write pool) w ps = Some (w', length (concat ps)) \<and> pw_view w' (data @ concat ps) \<and> pw_offset w' = pw_offset w"
  using assms
proof (induction ps arbitrary: w data)
  case (Cons p ps)
  have pos: "pw_pos w = pw_offset w + length data" using Cons.prems(1) by (auto simp: pw_view_def)
  from Pooled_Write_view [OF Cons.prems(1), of p pool] Cons.prems(2) pos obtain w1 where
    w1: "PooledBufferWriter_Write pool w p = Some (w1, length p, None)" "pw_view w1 (data @ p)" "pw_offset w1 = pw_offset w" by auto
  from Cons.IH [OF w1(2)] Cons.prems(2) w1(3) obtain w2 where
    "write_all (PooledBufferWriter_Write pool) w1 ps = Some (w2, length (concat ps))" "pw_view w2 ((data @ p) @ concat ps)" "pw_offset w2 = pw_offset w1" by auto
  then show ?case using w1 by simp
qed simp

lemma Buffer_Writer_write_all:
  assumes "bfw_view w data" "bfw_offset w + length (data @ concat ps) \<le> 2 ^ 62"
  shows "\<exists>w'. write_all BufferWriter_Write w ps = Some (w', length (concat ps)) \<and> bfw_view w' (data @ concat ps)"
  using assms
proof (induction ps arbitrary: w data)
  case (Cons p ps)
  have pos: "bfw_pos w = length data" using Cons.prems(1) by (auto simp: bfw_view_def)
  from Buffer_Writer_Write_view [OF Cons.prems(1), of p] Cons.prems(2) pos obtain w1 where
    w1: "BufferWriter_Write w p = Some (w1, length p, None)" "bfw_view w1 (data @ p)" "bfw_offset w1 = bfw_offset w" by auto
  from Cons.IH [OF w1(2)] Cons.prems(2) w1(3) obtain w2 where
    "write_all BufferWriter_Write w1 ps = Some (w2, length (concat ps))" "bfw_view w2 ((data @ p) @ concat ps)" by auto
  then show ?case using w1 by simp
qed simp

text \<open>The writers collect what is written: after any sequence of \<^verbatim>\<open>Write\<close>, however often the buffer had to grow, \<^verbatim>\<open>Bytes\<close>
  returns the slices one after the other, behind the offset if one is set, the number of bytes reported is their length, and the
  buffer that \<^verbatim>\<open>PooledBufferWriter.Finish\<close> hands over holds them. The buffer from the pool may hold anything in its unused part.\<close>

theorem writers_append:
  assumes "length (concat ps) + initial + off \<le> 2 ^ 62" "mb_length pool = 0"
  shows "(\<exists>w w' b. write_all (PooledBufferWriter_Write pool) (NewPooledBufferWriter pool initial) ps = Some (w, length (concat ps)) \<and>
      map_option snd (PooledBufferWriter_Bytes w) = Some (concat ps) \<and> map_option snd (PooledBufferWriter_Len w) = Some (int (length (concat ps))) \<and>
      PooledBufferWriter_Finish pool w = Some (w', b) \<and> Buffer_Bytes b = Some (concat ps) \<and> pw_view w' []) \<and>
    (\<exists>w. write_all BufferWriter_Write (BufferWriter_SetOffset (NewBufferWriter initial) off) ps = Some (w, length (concat ps)) \<and>
      map_option snd (BufferWriter_Bytes w) = Some (concat ps) \<and> map_option snd (BufferWriter_Len w) = Some (int (length (concat ps))))"
proof -
  have i: "initial \<le> 2 ^ 62" using assms(1) by simp
  from Pooled_write_all [OF conjunct1 [OF New_Pooled_view [OF i assms(2)]], of ps pool] New_Pooled_view [OF i assms(2)] assms(1) obtain w where
    w: "write_all (PooledBufferWriter_Write pool) (NewPooledBufferWriter pool initial) ps = Some (w, length (concat ps))"
      "pw_view w (concat ps)" "pw_offset w = 0" by auto
  from Pooled_Finish_view [OF w(2), of pool] obtain b where
    b: "PooledBufferWriter_Finish pool w = Some (PooledBufferWriter_Reset pool w 0, b)" "mb_length b = pw_pos w" "data_at (mb_buf b) 0 (concat ps)"
    using w(3) by auto
  have "pw_pos w = length (concat ps)" using w(2,3) by (auto simp: pw_view_def)
  then have "Buffer_Bytes b = Some (concat ps)" using b(2,3) Bytes_ok [of b] by (simp add: buffer_ok_def data_at_def)
  moreover have "bfw_offset (BufferWriter_SetOffset (NewBufferWriter initial) off) = off" by (simp add: BufferWriter_SetOffset_def)
  then have "\<exists>w. write_all BufferWriter_Write (BufferWriter_SetOffset (NewBufferWriter initial) off) ps = Some (w, length (concat ps)) \<and> bfw_view w (concat ps)"
    using Buffer_Writer_write_all [OF New_Buffer_Writer_view, of initial off ps] assms(1) by auto
  ultimately show ?thesis
    using w b(1) Pooled_Bytes_view [OF w(2)] Pooled_Reset_view [of 0 pool w] assms(2) Buffer_Writer_Bytes_view by fastforce
qed

theorem writers_append_witness:
  "\<exists>w w' b. write_all (PooledBufferWriter_Write NewResizableBuffer) (NewPooledBufferWriter NewResizableBuffer 4) [replicate 300 7, [], [1, 2]] = Some (w, 302) \<and>
    PooledBufferWriter_Finish NewResizableBuffer w = Some (w', b) \<and> Buffer_Bytes b = Some (replicate 300 7 @ [1, 2])"
  using conjunct1 [OF writers_append [of "[replicate 300 7, [], [1, 2]]" 4 0 NewResizableBuffer]] by (auto simp: NewResizableBuffer_def)

text \<open>\<^verbatim>\<open>BufferWriter.Reset\<close> releases the buffer it has and goes on with the same one, whose reference count is then 0. What is written
  afterwards and handed over by \<^verbatim>\<open>Finish\<close> is in a buffer that \<^verbatim>\<open>Release\<close> does not free: the count goes to \<open>- 1\<close> and the memory stays.\<close>

theorem BufferWriter_Reset_leaks:
  "do { (w, n, err) \<leftarrow> BufferWriter_Write (BufferWriter_Reset (NewBufferWriter 0) 0) [1, 2, 3];
        buf \<leftarrow> snd (BufferWriter_Finish w);
        bytes \<leftarrow> Buffer_Bytes buf;
        let freed = Buffer_Release buf;
        Some (bytes, mb_refCount buf, mb_refCount freed, take 3 (mb_buf freed)) } = Some ([1, 2, 3], 0, - 1, [1, 2, 3])"
  by code_simp

text \<open>An unknown \<^verbatim>\<open>whence\<close> is not ignored by \<^verbatim>\<open>BufferWriter.Seek\<close>: it moves the position to the front, without an error.\<close>

theorem BufferWriter_Seek_unknown:
  assumes "whence \<notin> {0, 1, 2}"
  shows "BufferWriter_Seek b off whence = Some (b\<lparr>bfw_pos := 0\<rparr>, 0, None)"
  using assms by (simp add: BufferWriter_Seek_def)

theorem BufferWriter_Seek_unknown_witness:
  "BufferWriter_Seek \<lparr>bfw_buffer = None, bfw_pos = 5, bfw_offset = 0\<rparr> 3 7 = Some (\<lparr>bfw_buffer = None, bfw_pos = 0, bfw_offset = 0\<rparr>, 0, None)"
  using BufferWriter_Seek_unknown [of 7 "\<lparr>bfw_buffer = None, bfw_pos = 5, bfw_offset = 0\<rparr>" 3] by simp

end
