(* ===== verification/Bit_Runs.thy ===== *)
theory Bit_Runs
  imports Bitutil
begin

unbundle bit_operations_syntax

text \<open>
  \<^verbatim>\<open>internal/bitutils/bit_run_reader.go\<close>: the reader that delivers a range of a bitmap as alternating
  runs of equal bits. It works on 64-bit words, inverted so that the end of the current run is the first
  set bit, with a sentinel bit behind the last bit of the range.
\<close>

section \<open>The source\<close>

definition bitutils_IsMultipleOf64 :: "nat \<Rightarrow> bool" where
  "bitutils_IsMultipleOf64 v \<longleftrightarrow> v AND 63 = 0"

definition LeastSignificantBitMask :: "nat \<Rightarrow> u64" where
  "LeastSignificantBitMask index = push_bit index 1 - 1"

record BitRun =
  run_Len :: nat
  run_Set :: bool

record bitRunReader =
  brr_bitmap :: "byte list"
  brr_pos :: nat
  brr_length :: nat
  brr_word :: u64
  brr_curRunBitSet :: bool

definition brr_loadWord :: "bitRunReader \<Rightarrow> nat \<Rightarrow> bitRunReader option" where
  "brr_loadWord b bitsRemaining =
     do { word \<leftarrow>
            (if bitsRemaining \<ge> 64 then le_uint64 (brr_bitmap b)
             else let nbytes = BytesForBits bitsRemaining
               in do { bs \<leftarrow> slice (brr_bitmap b) 0 nbytes;
                       let wordptr = blit (replicate 8 0) 0 bs;
                       v \<leftarrow> BitIsNotSet wordptr (bitsRemaining - 1);
                       wordptr \<leftarrow> SetBitTo wordptr bitsRemaining v;
                       Some (word_of_bytes wordptr) });
          Some (b\<lparr>brr_word := if brr_curRunBitSet b then NOT word else word\<rparr>) }"

definition loadNextWord :: "bitRunReader \<Rightarrow> bitRunReader option" where
  "loadNextWord b = brr_loadWord b (brr_length b - brr_pos b)"

definition NewBitRunReader :: "byte list \<Rightarrow> nat \<Rightarrow> nat \<Rightarrow> bitRunReader option" where
  "NewBitRunReader bitmap offset len =
     do { bs \<leftarrow> slice_from bitmap (offset div 8);
          let ret = \<lparr>brr_bitmap = bs, brr_pos = offset mod 8, brr_length = offset mod 8 + len, brr_word = 0,
                     brr_curRunBitSet = False\<rparr>;
          if len = 0 then Some ret
          else do { v \<leftarrow> BitIsNotSet bitmap offset;
                    ret \<leftarrow> brr_loadWord (ret\<lparr>brr_curRunBitSet := v\<rparr>) (len + brr_pos ret);
                    Some (ret\<lparr>brr_word := brr_word ret AND NOT (LeastSignificantBitMask (brr_pos ret))\<rparr>) } }"

text \<open>The loop goes on only if it has moved on by a whole word.\<close>

function advanceUntilChange :: "bitRunReader \<Rightarrow> bitRunReader option" where
  "advanceUntilChange b =
     (case slice_from (brr_bitmap b) 8 of
        None \<Rightarrow> None
      | Some bs \<Rightarrow>
          (case loadNextWord (b\<lparr>brr_bitmap := bs\<rparr>) of
             None \<Rightarrow> None
           | Some b' \<Rightarrow>
               let newbits = trailing_zeros (brr_word b'); pos = brr_pos b' + newbits; b' = b'\<lparr>brr_pos := pos\<rparr>
               in if \<not> bitutils_IsMultipleOf64 pos \<or> pos \<ge> brr_length b' \<or> newbits = 0 then Some b'
                  else advanceUntilChange b'))"
  by pat_completeness auto
termination
  by (relation "measure (\<lambda>b. brr_length b - brr_pos b)")
    (auto simp: loadNextWord_def brr_loadWord_def Let_def split: Option.bind_splits if_splits)

declare advanceUntilChange.simps [simp del]

definition NextRun :: "bitRunReader \<Rightarrow> (bitRunReader \<times> BitRun) option" where
  "NextRun b =
     (if brr_pos b \<ge> brr_length b then Some (b, \<lparr>run_Len = 0, run_Set = False\<rparr>)
      else
        let b = b\<lparr>brr_curRunBitSet := \<not> brr_curRunBitSet b\<rparr>;
            start = brr_pos b;
            startOffset = start AND 63;
            b = b\<lparr>brr_word := NOT (brr_word b) AND NOT (LeastSignificantBitMask startOffset)\<rparr>;
            newbits = trailing_zeros (brr_word b) - startOffset;
            b = b\<lparr>brr_pos := brr_pos b + newbits\<rparr>
        in do { b \<leftarrow> (if bitutils_IsMultipleOf64 (brr_pos b) \<and> brr_pos b < brr_length b then advanceUntilChange b else Some b);
                Some (b, \<lparr>run_Len = brr_pos b - start, run_Set = brr_curRunBitSet b\<rparr>) })"

section \<open>Runs of a sequence of bits\<close>

text \<open>The length of the run of bits \<open>v\<close> from \<open>i\<close> on, before \<open>n\<close>.\<close>

definition run_from :: "(nat \<Rightarrow> bool) \<Rightarrow> nat \<Rightarrow> nat \<Rightarrow> bool \<Rightarrow> nat" where
  "run_from p i n v = length (takeWhile (\<lambda>j. p j = v) [i..<n])"

lemma run_from_le: "run_from p i n v \<le> n - i"
  using length_takeWhile_le [of _ "[i..<n]"] by (simp add: run_from_def)

lemma run_from_unfold: "run_from p i n v = (if i < n \<and> p i = v then Suc (run_from p (Suc i) n v) else 0)"
  by (auto simp: run_from_def upt_rec [of i n])

lemma run_from_bit: "i \<le> j \<Longrightarrow> j < i + run_from p i n v \<Longrightarrow> p j = v"
proof (induction "j - i" arbitrary: i)
  case 0
  then show ?case by (auto simp: run_from_unfold [of p i] split: if_splits)
next
  case (Suc k)
  show ?case by (rule Suc.hyps(1) [of "Suc i"]) (use Suc in \<open>auto simp: run_from_unfold [of p i] split: if_splits\<close>)
qed

lemma run_from_end: "i + run_from p i n v < n \<Longrightarrow> p (i + run_from p i n v) \<noteq> v"
proof (induction "n - i" arbitrary: i)
  case (Suc k)
  show ?case
  proof (cases "p i = v")
    case True
    then have r: "run_from p i n v = Suc (run_from p (Suc i) n v)" using Suc.hyps(2) by (subst run_from_unfold) simp
    with Suc.hyps(1) [of "Suc i"] Suc.hyps(2) Suc.prems show ?thesis by simp
  qed (use Suc in \<open>simp add: run_from_unfold [of p i]\<close>)
qed simp

lemma run_from_eqI:
  assumes "i + k \<le> n" "\<And>j. i \<le> j \<Longrightarrow> j < i + k \<Longrightarrow> p j = v" "i + k < n \<Longrightarrow> p (i + k) \<noteq> v"
  shows "run_from p i n v = k"
  using assms
proof (induction k arbitrary: i)
  case 0
  then show ?case by (subst run_from_unfold) auto
next
  case (Suc k)
  have "run_from p (Suc i) n v = k" by (rule Suc.IH) (use Suc.prems in auto)
  then show ?case using Suc.prems by (simp add: run_from_unfold [of p i])
qed

lemma run_from_add:
  assumes "m \<le> run_from p i n v"
  shows "run_from p i n v = m + run_from p (i + m) n v"
proof (cases "m = 0")
  case m: False
  show ?thesis
  proof (rule run_from_eqI)
    have "run_from p i n v \<le> n - i" "run_from p (i + m) n v \<le> n - (i + m)" by (rule run_from_le)+
    then show "i + (m + run_from p (i + m) n v) \<le> n" using assms m by simp
  next
    fix j assume j: "i \<le> j" "j < i + (m + run_from p (i + m) n v)"
    show "p j = v"
    proof (cases "j < i + m")
      case True
      with run_from_bit [of i j p n v] j assms show ?thesis by simp
    next
      case False
      with run_from_bit [of "i + m" j p n v] j show ?thesis by simp
    qed
  next
    assume "i + (m + run_from p (i + m) n v) < n"
    then show "p (i + (m + run_from p (i + m) n v)) \<noteq> v" using run_from_end [of "i + m" p n v] by (simp add: add.assoc)
  qed
qed simp

section \<open>The words of the reader\<close>

lemma LeastSignificantBitMask_mask: "LeastSignificantBitMask i = mask i"
  by (simp add: LeastSignificantBitMask_def mask_eq_exp_minus_1 push_bit_eq_mult)

lemma and_63: "n AND 63 = n mod (64 :: nat)"
proof -
  have "n AND mask 6 = n mod 2 ^ 6" by (simp only: flip: take_bit_eq_mask take_bit_eq_mod)
  then show ?thesis by (simp add: mask_eq_exp_minus_1)
qed

lemma IsMultipleOf64_mod: "bitutils_IsMultipleOf64 v \<longleftrightarrow> v mod 64 = 0"
  by (simp add: bitutils_IsMultipleOf64_def and_63)

text \<open>A word that is ready for the run of bits \<open>v\<close>: set where a bit differs from \<open>v\<close>, from bit \<open>s\<close> on,
  and with the sentinel behind the end \<open>n\<close>, which differs from the last bit.\<close>

definition run_word :: "(nat \<Rightarrow> bool) \<Rightarrow> nat \<Rightarrow> nat \<Rightarrow> bool \<Rightarrow> nat \<Rightarrow> u64 \<Rightarrow> bool" where
  "run_word p base n v s w \<longleftrightarrow>
     (\<forall>i. s \<le> i \<and> i < min 64 (n - base) \<longrightarrow> bit w i = (p (base + i) \<noteq> v)) \<and>
     (n - base < 64 \<longrightarrow> bit w (n - base) = (p (n - 1) = v))"

lemma trailing_zeros_run:
  assumes w: "run_word p base n v s w" and s: "s < 64" "base + s < n" and low: "\<And>i. i < s \<Longrightarrow> \<not> bit w i"
  shows "trailing_zeros w = s + min (64 - s) (run_from p (base + s) n v)"
proof -
  define r where "r = run_from p (base + s) n v"
  have r: "base + s + r \<le> n" using run_from_le [of p "base + s" n v] s(2) by (simp add: r_def)
  have bits: "bit w i = (p (base + i) \<noteq> v)" if "s \<le> i" "i < 64" "base + i < n" for i
    using w that by (simp add: run_word_def)
  show ?thesis
  proof (rule trailing_zeros_eqI)
    show "s + min (64 - s) (run_from p (base + s) n v) \<le> LENGTH(64)" using s by simp
  next
    fix i assume i: "i < s + min (64 - s) (run_from p (base + s) n v)"
    show "\<not> bit w i"
    proof (cases "i < s")
      case False
      then have "p (base + i) = v" using i by (intro run_from_bit [of "base + s" _ p n v]) auto
      then show ?thesis using bits [of i] i False r by (auto simp flip: r_def)
    qed (rule low)
  next
    assume "s + min (64 - s) (run_from p (base + s) n v) < LENGTH(64)"
    then have m: "min (64 - s) r = r" "s + r < 64" by (auto simp: r_def)
    show "bit w (s + min (64 - s) (run_from p (base + s) n v))"
    proof (cases "base + s + r < n")
      case True
      have "p (base + s + r) \<noteq> v" using run_from_end [of "base + s" p n v] True by (simp flip: r_def)
      then show ?thesis using bits [of "s + r"] True m by (simp add: ac_simps flip: r_def)
    next
      case False
      then have n: "n = base + s + r" using r by simp
      then have "p (n - 1) = v" using s(2) r_def by (intro run_from_bit [of "base + s" _ p n v]) auto
      then show ?thesis unfolding r_def [symmetric] m(1) using w m n by (simp add: run_word_def)
    qed
  qed
qed

text \<open>Loading the word at \<open>base\<close>, whole or with the sentinel.\<close>

lemma brr_loadWord_run:
  assumes bm: "brr_bitmap b = drop k bs" and n: "base < n" "8 * k + (n - base) \<le> 8 * length bs"
    and p: "\<And>i. p (base + i) = bm_bit bs (8 * k + i)"
  shows "\<exists>w. brr_loadWord b (n - base) = Some (b\<lparr>brr_word := w\<rparr>) \<and> run_word p base n (brr_curRunBitSet b) 0 w"
proof (cases "64 \<le> n - base")
  case True
  have "k + 8 \<le> length bs" using True n(2) by linarith
  then show ?thesis
    using True by (auto simp: brr_loadWord_def bm run_word_def bit_le_uint64 bm_simps p bit_simps)
next
  case False
  let ?r = "n - base"
  have nb: "BytesForBits ?r \<le> 8" "BytesForBits ?r \<le> length bs - k"
    using False n(2) unfolding BytesForBits_le_iff by linarith+
  define ptr where "ptr = blit (replicate 8 0) 0 (take (BytesForBits ?r) (drop k bs))"
  have len: "length ptr = 8" by (simp add: ptr_def)
  have "?r \<le> 8 * BytesForBits ?r" using BytesForBits_le_iff [of ?r "BytesForBits ?r"] by simp
  then have bits: "bm_bit ptr i = p (base + i)" if "i < ?r" for i
    unfolding ptr_def using that nb by (subst bm_bit_blit) (simp_all add: bm_simps p)
  have not: "BitIsNotSet ptr (?r - 1) = Some (\<not> p (n - 1))"
    using bits [of "?r - 1"] n(1) False len by (simp add: BitIsNotSet_eq)
  from SetBitTo_eq [of ?r ptr "\<not> p (n - 1)"] False len obtain ptr' where
    ptr': "SetBitTo ptr ?r (\<not> p (n - 1)) = Some ptr'" "\<forall>j. bm_bit ptr' j = (if j = ?r then \<not> p (n - 1) else bm_bit ptr j)"
    by auto
  define w :: u64 where "w = word_of_bytes ptr'"
  have w: "bit w i = (if i = ?r then \<not> p (n - 1) else p (base + i))" if "i \<le> ?r" for i
    using that False bits [of i] by (simp add: w_def bit_word_of_bytes ptr'(2))
  have "brr_loadWord b ?r = Some (b\<lparr>brr_word := if brr_curRunBitSet b then NOT w else w\<rparr>)"
    using False nb not ptr'(1) by (simp add: brr_loadWord_def bm Let_def w_def flip: ptr_def)
  moreover have "run_word p base n (brr_curRunBitSet b) 0 (if brr_curRunBitSet b then NOT w else w)"
    using False w by (auto simp: run_word_def bit_simps)
  ultimately show ?thesis by blast
qed

text \<open>The reader on \<open>bs\<close> from byte \<open>q\<close>: the bits of its position and its word.\<close>

definition run_state :: "byte list \<Rightarrow> nat \<Rightarrow> bitRunReader \<Rightarrow> bool" where
  "run_state bs q b \<longleftrightarrow> 8 * q + brr_length b \<le> 8 * length bs \<and> brr_pos b \<le> brr_length b \<and>
     (brr_pos b < brr_length b \<longrightarrow>
        brr_bitmap b = drop (q + 8 * (brr_pos b div 64)) bs \<and>
        run_word (\<lambda>i. bm_bit bs (8 * q + i)) (64 * (brr_pos b div 64)) (brr_length b) (brr_curRunBitSet b) (brr_pos b mod 64) (brr_word b) \<and>
        bm_bit bs (8 * q + brr_pos b) \<noteq> brr_curRunBitSet b)"

lemma run_word_mono: "run_word p base n v s w \<Longrightarrow> s \<le> s' \<Longrightarrow> run_word p base n v s' w"
  by (auto simp: run_word_def)

lemma advanceUntilChange_run:
  assumes "brr_pos b = 64 * k" "0 < k" "64 * k < brr_length b" "brr_bitmap b = drop (q + 8 * (k - 1)) bs"
    "8 * q + brr_length b \<le> 8 * length bs"
  shows "\<exists>b'. advanceUntilChange b = Some b' \<and> run_state bs q b' \<and>
    brr_pos b' = 64 * k + run_from (\<lambda>i. bm_bit bs (8 * q + i)) (64 * k) (brr_length b) (brr_curRunBitSet b) \<and>
    brr_length b' = brr_length b \<and> brr_curRunBitSet b' = brr_curRunBitSet b"
  using assms
proof (induction "brr_length b - 64 * k" arbitrary: k b rule: less_induct)
  case less
  let ?p = "\<lambda>i. bm_bit bs (8 * q + i)" and ?n = "brr_length b" and ?v = "brr_curRunBitSet b" and ?q = "q + 8 * k"
  let ?b = "b\<lparr>brr_bitmap := drop ?q bs\<rparr>"
  have q: "8 * ?q + (?n - 64 * k) \<le> 8 * length bs" using less.prems by simp
  then have sl: "slice_from (brr_bitmap b) 8 = Some (drop ?q bs)"
    using less.prems by (simp add: slice_from_def) (cases k; simp add: ac_simps)
  have "?p (64 * k + i) = bm_bit bs (8 * ?q + i)" for i by (simp add: ac_simps)
  from brr_loadWord_run [of ?b ?q bs "64 * k" ?n ?p, OF _ less.prems(3) q this] less.prems(1) obtain w where
    w: "loadNextWord ?b = Some (?b\<lparr>brr_word := w\<rparr>)" "run_word ?p (64 * k) ?n ?v 0 w"
    by (auto simp: loadNextWord_def)
  define r where "r = run_from ?p (64 * k) ?n ?v"
  have r: "64 * k + r \<le> ?n" using run_from_le [of ?p "64 * k" ?n ?v] less.prems(3) by (simp add: r_def)
  have tz: "trailing_zeros w = min 64 r" using trailing_zeros_run [OF w(2)] less.prems(3) by (simp add: r_def)
  let ?b' = "?b\<lparr>brr_word := w, brr_pos := 64 * k + min 64 r\<rparr>"
  have step: "advanceUntilChange b = (if \<not> bitutils_IsMultipleOf64 (64 * k + min 64 r) \<or> 64 * k + min 64 r \<ge> ?n \<or> min 64 r = 0
      then Some ?b' else advanceUntilChange ?b')"
    using less.prems(1) by (subst advanceUntilChange.simps) (simp add: sl w(1) tz Let_def)
  show ?case
  proof (cases "64 \<le> r \<and> 64 * k + 64 < ?n")
    case True
    then have "advanceUntilChange b = advanceUntilChange ?b'" unfolding step by (simp add: IsMultipleOf64_mod min_absorb1)
    moreover have "r = 64 + run_from ?p (64 * Suc k) ?n ?v"
      using run_from_add [of 64 ?p "64 * k" ?n ?v] True by (simp add: r_def add.commute)
    ultimately have eq: "advanceUntilChange b = advanceUntilChange ?b'" "64 * k + r = 64 * Suc k + run_from ?p (64 * Suc k) ?n ?v"
      by simp_all
    have "brr_length ?b' - 64 * Suc k < brr_length b - 64 * k" using True by (simp add: diff_less_mono2)
    from less.hyps [OF this] True less.prems show ?thesis unfolding eq r_def [symmetric] by (simp add: min_absorb1)
  next
    case False
    then have stop: "advanceUntilChange b = Some ?b'" unfolding step using r by (auto simp: IsMultipleOf64_mod)
    have m: "min 64 r = r" using False r by auto
    have "run_state bs q ?b'"
    proof (cases "64 * k + r < ?n")
      case True
      then have "r < 64" using False by auto
      moreover have "?p (64 * k + r) \<noteq> ?v" using run_from_end [of "64 * k" ?p ?n ?v] True by (simp add: r_def)
      ultimately show ?thesis
        using less.prems True w(2) run_word_mono [OF w(2), of r] by (simp add: run_state_def m)
    next
      case False
      then show ?thesis using r less.prems by (simp add: run_state_def m)
    qed
    with stop m show ?thesis by (simp flip: r_def)
  qed
qed

lemma NextRun_state:
  assumes st: "run_state bs q b" and pos: "brr_pos b < brr_length b"
  defines "p \<equiv> \<lambda>i. bm_bit bs (8 * q + i)"
  defines "r \<equiv> run_from p (brr_pos b) (brr_length b) (p (brr_pos b))"
  shows "\<exists>b'. NextRun b = Some (b', \<lparr>run_Len = r, run_Set = p (brr_pos b)\<rparr>) \<and> run_state bs q b' \<and>
    brr_pos b' = brr_pos b + r \<and> brr_length b' = brr_length b"
proof -
  define s k where "s = brr_pos b mod 64" and "k = brr_pos b div 64"
  have sk: "brr_pos b = 64 * k + s" "s < 64" by (auto simp: s_def k_def)
  let ?n = "brr_length b" and ?v = "p (brr_pos b)"
  have v: "brr_curRunBitSet b = (\<not> ?v)" and bm: "brr_bitmap b = drop (q + 8 * k) bs" and fit: "8 * q + ?n \<le> 8 * length bs"
    and w0: "run_word p (64 * k) ?n (\<not> ?v) s (brr_word b)"
    using st pos by (auto simp: run_state_def p_def k_def s_def)
  define w where "w = NOT (brr_word b) AND NOT (LeastSignificantBitMask s)"
  have w: "run_word p (64 * k) ?n ?v s w"
    using w0 sk pos by (auto simp: run_word_def w_def LeastSignificantBitMask_mask bit_simps)
  have low: "\<not> bit w i" if "i < s" for i using that by (simp add: w_def LeastSignificantBitMask_mask bit_simps)
  have tz: "trailing_zeros w = s + min (64 - s) r"
    using trailing_zeros_run [OF w sk(2) _ low] pos sk(1) by (simp add: r_def)
  have r: "64 * k + s + r \<le> ?n" using run_from_le [of p "brr_pos b" ?n ?v] pos sk(1) by (simp add: r_def)
  have r0: "0 < r" using pos by (simp add: r_def run_from_unfold [of p "brr_pos b"])
  let ?b = "b\<lparr>brr_curRunBitSet := ?v, brr_word := w, brr_pos := 64 * k + s + min (64 - s) r\<rparr>"
  have s63: "(64 * k + s) AND 63 = s" using sk(2) by (simp add: and_63)
  have step: "NextRun b = do { b' \<leftarrow> (if bitutils_IsMultipleOf64 (64 * k + s + min (64 - s) r) \<and> 64 * k + s + min (64 - s) r < ?n
      then advanceUntilChange ?b else Some ?b); Some (b', \<lparr>run_Len = brr_pos b' - brr_pos b, run_Set = brr_curRunBitSet b'\<rparr>) }"
    using pos sk(1) v s63 by (simp add: NextRun_def Let_def tz flip: w_def)
  show ?thesis
  proof (cases "64 - s \<le> r \<and> 64 * Suc k < ?n")
    case True
    then have m: "64 * k + s + min (64 - s) r = 64 * Suc k" using sk(2) by simp
    have "r = (64 - s) + run_from p (brr_pos b + (64 - s)) ?n ?v" using True unfolding r_def by (intro run_from_add) simp
    moreover have "brr_pos b + (64 - s) = 64 * Suc k" using sk by simp
    moreover define x where "x = run_from p (64 * Suc k) ?n ?v"
    ultimately have "r = (64 - s) + x" by (simp only:)
    then have r': "64 * Suc k + x = brr_pos b + r" using sk by simp
    have "brr_pos ?b = 64 * Suc k" "64 * Suc k < brr_length ?b" "brr_bitmap ?b = drop (q + 8 * (Suc k - 1)) bs"
      "8 * q + brr_length ?b \<le> 8 * length bs" using True bm fit m by simp_all
    from advanceUntilChange_run [OF this(1) _ this(2-4), folded p_def] obtain b' where
      b': "advanceUntilChange ?b = Some b'" "run_state bs q b'" "brr_pos b' = brr_pos b + r"
      "brr_length b' = ?n" "brr_curRunBitSet b' = ?v" using r' unfolding x_def by auto
    have "bitutils_IsMultipleOf64 (64 * k + s + min (64 - s) r) \<and> 64 * k + s + min (64 - s) r < ?n"
      unfolding m using True by (simp add: IsMultipleOf64_mod)
    then show ?thesis unfolding step using b' by simp
  next
    case False
    then have m: "min (64 - s) r = r" using r sk(2) by auto
    have "\<not> (bitutils_IsMultipleOf64 (64 * k + s + r) \<and> 64 * k + s + r < ?n)"
    proof
      assume a: "bitutils_IsMultipleOf64 (64 * k + s + r) \<and> 64 * k + s + r < ?n"
      then have "(s + r) mod 64 = 0" by (simp add: IsMultipleOf64_mod add.assoc)
      moreover have "s + r \<le> 64" using m sk(2) by (simp add: min_def split: if_splits)
      ultimately have "s + r = 64" using r0 by (cases "s + r = 64") auto
      then show False using a False by auto
    qed
    moreover have "run_state bs q ?b"
    proof (cases "64 * k + s + r < ?n")
      case True
      then have sr: "s + r < 64" using False m sk(2) by (auto simp: min_def split: if_splits)
      have "brr_pos b + r < ?n" using True sk(1) by simp
      then have "p (brr_pos b + r) \<noteq> ?v" unfolding r_def by (rule run_from_end)
      then have "bm_bit bs (8 * q + (64 * k + s + r)) \<noteq> ?v" using sk(1) by (simp add: p_def)
      moreover have "(64 * k + s + r) div 64 = k" "(64 * k + s + r) mod 64 = s + r" using sr by (simp_all add: add.assoc)
      ultimately show ?thesis using True w run_word_mono [OF w, of "s + r"] bm fit by (simp add: run_state_def m flip: p_def)
    next
      case False
      then show ?thesis using r fit by (simp add: run_state_def m)
    qed
    ultimately show ?thesis unfolding step using m sk(1) by auto
  qed
qed

lemma NewBitRunReader_state:
  assumes "off + n \<le> 8 * length bs"
  shows "\<exists>b. NewBitRunReader bs off n = Some b \<and> run_state bs (off div 8) b \<and> brr_pos b = off mod 8 \<and> brr_length b = off mod 8 + n"
proof -
  let ?q = "off div 8" and ?s = "off mod 8"
  have "?q \<le> length bs" using assms by linarith
  moreover have "8 * ?q + (?s + n) \<le> 8 * length bs" using assms by (simp flip: add.assoc)
  ultimately have q: "?q \<le> length bs" "8 * ?q + (?s + n) \<le> 8 * length bs" .
  show ?thesis
  proof (cases "n = 0")
    case True
    then show ?thesis using q by (auto simp: NewBitRunReader_def run_state_def)
  next
    case False
    have not: "BitIsNotSet bs off = Some (\<not> bm_bit bs off)" using assms False by (simp add: BitIsNotSet_eq)
    let ?b = "\<lparr>brr_bitmap = drop ?q bs, brr_pos = ?s, brr_length = ?s + n, brr_word = 0, brr_curRunBitSet = \<not> bm_bit bs off\<rparr>"
    let ?p = "\<lambda>i. bm_bit bs (8 * ?q + i)"
    from brr_loadWord_run [of ?b ?q bs 0 "?s + n" ?p] q False obtain w where
      w: "brr_loadWord ?b (?s + n) = Some (?b\<lparr>brr_word := w\<rparr>)" "run_word ?p 0 (?s + n) (\<not> bm_bit bs off) 0 w" by auto
    let ?w = "w AND NOT (LeastSignificantBitMask ?s)"
    have "run_word ?p 0 (?s + n) (\<not> bm_bit bs off) ?s ?w"
      using w(2) False by (auto simp: run_word_def LeastSignificantBitMask_mask bit_simps)
    moreover have "?s div 64 = 0" "?s mod 64 = ?s" by simp_all
    ultimately have "run_state bs ?q (?b\<lparr>brr_word := ?w\<rparr>)" using q(2) False by (simp add: run_state_def)
    then show ?thesis using False q(1) not w(1) by (simp add: NewBitRunReader_def Let_def add.commute)
  qed
qed

section \<open>The contract of a run reader\<close>

lemma run_from_shift: "run_from (\<lambda>i. p (a + i)) i n v = run_from p (a + i) (a + n) v"
proof (induction "n - i" arbitrary: i)
  case 0
  then show ?case by (simp add: run_from_def)
next
  case (Suc k)
  then have "run_from (\<lambda>i. p (a + i)) (Suc i) n v = run_from p (a + Suc i) (a + n) v" by simp
  then show ?case using Suc.hyps(2) by (subst (1 2) run_from_unfold) simp
qed

text \<open>\<open>view p n r\<close>: the reader has \<open>n\<close> bits to go, the \<open>i\<close>-th of them being \<open>p i\<close>. A call returns the longest
  run of equal bits in front, and at the end an empty one that counts as unset.\<close>

locale bit_runs =
  fixes next_run :: "'r \<Rightarrow> ('r \<times> BitRun) option"
    and view :: "(nat \<Rightarrow> bool) \<Rightarrow> nat \<Rightarrow> 'r \<Rightarrow> bool"
  assumes next_run: "view p n r \<Longrightarrow> 0 < n \<Longrightarrow> \<exists>r'. next_run r = Some (r', \<lparr>run_Len = run_from p 0 n (p 0), run_Set = p 0\<rparr>) \<and>
      view (\<lambda>i. p (run_from p 0 n (p 0) + i)) (n - run_from p 0 n (p 0)) r'"
    and at_end: "view p 0 r \<Longrightarrow> next_run r = Some (r, \<lparr>run_Len = 0, run_Set = False\<rparr>)"
begin

text \<open>A call before the end makes progress, within the range.\<close>

lemma next_run_progress: "0 < n \<Longrightarrow> 0 < run_from p 0 n (p 0) \<and> run_from p 0 n (p 0) \<le> n"
  using run_from_le [of p 0 n "p 0"] by (simp add: run_from_unfold [of p 0])

end

definition run_view :: "(nat \<Rightarrow> bool) \<Rightarrow> nat \<Rightarrow> bitRunReader \<Rightarrow> bool" where
  "run_view p n b \<longleftrightarrow> (\<exists>bs q. run_state bs q b \<and> brr_pos b + n = brr_length b \<and> p = (\<lambda>i. bm_bit bs (8 * q + (brr_pos b + i))))"

lemma NewBitRunReader_view:
  assumes "off + n \<le> 8 * length bs"
  shows "\<exists>b. NewBitRunReader bs off n = Some b \<and> run_view (\<lambda>i. bm_bit bs (off + i)) n b"
proof -
  have eq: "8 * (off div 8) + (off mod 8 + i) = off + i" for i by simp
  from NewBitRunReader_state [OF assms] obtain b where b: "NewBitRunReader bs off n = Some b" "run_state bs (off div 8) b"
    "brr_pos b = off mod 8" "brr_length b = off mod 8 + n" by blast
  then have "run_view (\<lambda>i. bm_bit bs (off + i)) n b"
    unfolding run_view_def by (intro exI [of _ bs] exI [of _ "off div 8"]) (simp add: eq)
  with b(1) show ?thesis by blast
qed

interpretation runs: bit_runs NextRun run_view
proof
  fix p n r assume v: "run_view p n r" "0 < n"
  then obtain bs q where b: "run_state bs q r" "brr_pos r + n = brr_length r" "p = (\<lambda>i. bm_bit bs (8 * q + (brr_pos r + i)))"
    by (auto simp: run_view_def)
  let ?P = "\<lambda>i. bm_bit bs (8 * q + i)"
  define k where "k = run_from p 0 n (p 0)"
  have k: "k = run_from ?P (brr_pos r) (brr_length r) (?P (brr_pos r))"
    using run_from_shift [of ?P "brr_pos r" 0 n "p 0"] b(2) by (simp add: k_def b(3))
  have "k \<le> n" using run_from_le [of p 0 n "p 0"] by (simp add: k_def)
  from NextRun_state [OF b(1)] v(2) b(2) obtain r' where
    r': "NextRun r = Some (r', \<lparr>run_Len = k, run_Set = ?P (brr_pos r)\<rparr>)" "run_state bs q r'"
      "brr_pos r' = brr_pos r + k" "brr_length r' = brr_length r" by (auto simp flip: k)
  then have "run_view (\<lambda>i. p (k + i)) (n - k) r'"
    using b(2,3) \<open>k \<le> n\<close> unfolding run_view_def by (intro exI [of _ bs] exI [of _ q]) (simp add: add.assoc)
  then show "\<exists>r'. NextRun r = Some (r', \<lparr>run_Len = run_from p 0 n (p 0), run_Set = p 0\<rparr>) \<and>
      run_view (\<lambda>i. p (run_from p 0 n (p 0) + i)) (n - run_from p 0 n (p 0)) r'"
    using r'(1) b(3) by (simp add: k_def)
next
  fix p r assume "run_view p 0 r"
  then show "NextRun r = Some (r, \<lparr>run_Len = 0, run_Set = False\<rparr>)" by (auto simp: run_view_def NextRun_def)
qed

text \<open>The states after \<open>c\<close> calls, whatever they returned; their runs have \<open>d\<close> bits together.\<close>

inductive run_calls :: "bitRunReader \<Rightarrow> nat \<Rightarrow> nat \<Rightarrow> bitRunReader \<Rightarrow> bool" for r0 where
  first: "run_calls r0 0 0 r0"
| call: "run_calls r0 c d r \<Longrightarrow> NextRun r = Some (r', run) \<Longrightarrow> run_calls r0 (Suc c) (d + run_Len run) r'"

lemma run_calls_view:
  assumes "run_calls r0 c d r" "run_view p n r0"
  shows "min c n \<le> d \<and> d \<le> n \<and> run_view (\<lambda>i. p (d + i)) (n - d) r"
  using assms(1)
proof induction
  case first
  then show ?case using assms(2) by simp
next
  case (call c d r r' run)
  let ?k = "run_from (\<lambda>i. p (d + i)) 0 (n - d) (p d)"
  show ?case
  proof (cases "n - d = 0")
    case True
    then show ?thesis using call runs.at_end [of "\<lambda>i. p (d + i)" r] by auto
  next
    case False
    with call runs.next_run [of "\<lambda>i. p (d + i)" "n - d" r] have "run_Len run = ?k" "run_view (\<lambda>i. p (d + (?k + i))) (n - d - ?k) r'" by auto
    then show ?thesis using call runs.next_run_progress [of "n - d" "\<lambda>i. p (d + i)"] False by (auto simp: add.assoc min_def split: if_splits)
  qed
qed

section \<open>Properties\<close>

text \<open>C34: The runs of a \<^verbatim>\<open>bitRunReader\<close>. After any number of calls the next call of \<^verbatim>\<open>NextRun\<close> returns the
  longest run of equal bits that starts where the last one ended, with its value. It is empty only at the
  end of the range, which is reached after at most as many calls as the range has bits; from then on every call
  returns the empty run, marked as unset, and leaves the reader as it is.\<close>

theorem NextRun_maximal:
  assumes "off + n \<le> 8 * length bs" "NewBitRunReader bs off n = Some r0" "run_calls r0 c d r"
  shows "d \<le> n \<and> (n \<le> c \<longrightarrow> d = n) \<and> (\<exists>r' k v. NextRun r = Some (r', \<lparr>run_Len = k, run_Set = v\<rparr>) \<and>
    d + k \<le> n \<and> (k = 0 \<longleftrightarrow> d = n) \<and> (\<forall>i<k. bm_bit bs (off + d + i) = v) \<and>
    (d + k < n \<longrightarrow> bm_bit bs (off + d + k) \<noteq> v) \<and> (d = n \<longrightarrow> \<not> v \<and> r' = r))"
proof -
  have v: "run_view (\<lambda>i. bm_bit bs (off + i)) n r0" using NewBitRunReader_view [OF assms(1)] assms(2) by simp
  note c = run_calls_view [OF assms(3) v]
  show ?thesis
  proof (cases "d = n")
    case True
    then show ?thesis using c runs.at_end [of _ r] by auto
  next
    case False
    let ?p = "\<lambda>i. bm_bit bs (off + (d + i))"
    define k where "k = run_from ?p 0 (n - d) (?p 0)"
    have k: "0 < k" "k \<le> n - d" using runs.next_run_progress [of "n - d" ?p] c False by (auto simp: k_def)
    obtain r' where "NextRun r = Some (r', \<lparr>run_Len = k, run_Set = ?p 0\<rparr>)"
      using runs.next_run [of ?p "n - d" r] c False unfolding k_def by auto
    moreover have "\<forall>i<k. ?p i = ?p 0" using run_from_bit [of 0 _ ?p "n - d" "?p 0"] by (simp add: k_def)
    moreover have "d + k < n \<longrightarrow> ?p k \<noteq> ?p 0" using run_from_end [of 0 ?p "n - d" "?p 0"] by (simp add: less_diff_conv add.commute k_def)
    ultimately show ?thesis
      using c k False by (intro conjI exI [of _ r'] exI [of _ k] exI [of _ "?p 0"]) (auto simp: add.assoc)
  qed
qed

theorem NextRun_maximal_witness:
  "\<exists>r0 r'. NewBitRunReader [12] 1 5 = Some r0 \<and> NextRun r0 = Some (r', \<lparr>run_Len = 1, run_Set = False\<rparr>)"
proof -
  from NewBitRunReader_view [of 1 5 "[12]"] obtain r0 where r0: "NewBitRunReader [12] 1 5 = Some r0" by auto
  from NextRun_maximal [OF _ r0 first] obtain r' k v where
    k: "NextRun r0 = Some (r', \<lparr>run_Len = k, run_Set = v\<rparr>)" "k \<noteq> 0" "\<forall>i<k. bm_bit [12] (1 + i) = v" by auto
  have b: "\<not> bm_bit [12] 1" "bm_bit [12] (1 + 1)" by code_simp+
  from k(2,3) have "bm_bit [12] (1 + 0) = v" by blast
  then have v: "v = False" using b by simp
  then have "\<not> 1 < k" using k(3) b(2) by auto
  then have "k = 1" using k(2) by simp
  then show ?thesis using r0 k(1) v by auto
qed

end
