(* ===== verification/Set_Bit_Runs.thy ===== *)
theory Set_Bit_Runs
  imports Bit_Runs Checked_Math
begin

unbundle bit_operations_syntax

text \<open>
  \<^verbatim>\<open>internal/bitutils/bit_set_run_reader.go\<close>: the reader that delivers the runs of set bits of a
  bitmap, from the front or from the back. One implementation serves both directions: in reverse the
  word is consumed from its most significant bit. Counters are natural numbers; moving the byte
  position below 0 would be a slice bounds panic and is \<open>None\<close>.
\<close>

section \<open>The source\<close>

record SetBitRun =
  sbr_Pos :: nat
  sbr_Length :: nat

definition AtEnd :: "SetBitRun \<Rightarrow> bool" where
  "AtEnd s \<longleftrightarrow> sbr_Length s = 0"

definition SetBitRun_Equal :: "SetBitRun \<Rightarrow> SetBitRun \<Rightarrow> bool" where
  "SetBitRun_Equal s rhs \<longleftrightarrow> sbr_Pos s = sbr_Pos rhs \<and> sbr_Length s = sbr_Length rhs"

record baseSetBitRunReader =
  sr_bitmap :: "byte list"
  sr_pos :: nat
  sr_length :: nat
  sr_remaining :: nat
  sr_curWord :: u64
  sr_curNumBits :: nat
  sr_reversed :: bool
  sr_firstBit :: u64

definition consumeBits :: "baseSetBitRunReader \<Rightarrow> u64 \<Rightarrow> nat \<Rightarrow> u64" where
  "consumeBits br word nbits = (if sr_reversed br then push_bit nbits word else drop_bit nbits word)"

definition countFirstZeros :: "baseSetBitRunReader \<Rightarrow> u64 \<Rightarrow> nat" where
  "countFirstZeros br word = (if sr_reversed br then leading_zeros word else trailing_zeros word)"

definition loadPartial :: "baseSetBitRunReader \<Rightarrow> nat \<Rightarrow> nat \<Rightarrow> (baseSetBitRunReader \<times> u64) option" where
  "loadPartial br bitOffset numBits =
     (let word = replicate 8 0; nbytes = BytesForBits numBits
      in if sr_reversed br then
           if sr_pos br < nbytes then None
           else let pos = sr_pos br - nbytes
             in do { bs \<leftarrow> slice (sr_bitmap br) pos (pos + nbytes);
                     Some (br\<lparr>sr_pos := pos\<rparr>,
                       push_bit bitOffset (word_of_bytes (blit word (8 - nbytes) bs)) AND NOT (LeastSignificantBitMask (64 - numBits))) }
         else
           do { bs \<leftarrow> slice (sr_bitmap br) (sr_pos br) (sr_pos br + nbytes);
                Some (br\<lparr>sr_pos := sr_pos br + nbytes\<rparr>,
                  drop_bit bitOffset (word_of_bytes (blit word 0 bs)) AND LeastSignificantBitMask numBits) })"

definition SetBitRunReader_Reset :: "baseSetBitRunReader \<Rightarrow> byte list \<Rightarrow> nat \<Rightarrow> nat \<Rightarrow> baseSetBitRunReader option" where
  "SetBitRunReader_Reset br bitmap startOffset len =
     (let br = br\<lparr>sr_bitmap := bitmap, sr_length := len, sr_remaining := len, sr_curNumBits := 0, sr_curWord := 0\<rparr>
      in if \<not> sr_reversed br then
           let br = br\<lparr>sr_pos := startOffset div 8, sr_firstBit := 1\<rparr>; bitOffset = startOffset mod 8
           in if len > 0 \<and> bitOffset \<noteq> 0 then
                let br = br\<lparr>sr_curNumBits := utils_Min len (8 - bitOffset)\<rparr>
                in do { (br, w) \<leftarrow> loadPartial br bitOffset (sr_curNumBits br); Some (br\<lparr>sr_curWord := w\<rparr>) }
              else Some br
         else
           let br = br\<lparr>sr_pos := (startOffset + len) div 8, sr_firstBit := 0x8000000000000000\<rparr>;
               endBitOffset = (startOffset + len) mod 8
           in if len > 0 \<and> endBitOffset \<noteq> 0 then
                let br = br\<lparr>sr_pos := sr_pos br + 1, sr_curNumBits := utils_Min len endBitOffset\<rparr>
                in do { (br, w) \<leftarrow> loadPartial br (8 - endBitOffset) (sr_curNumBits br); Some (br\<lparr>sr_curWord := w\<rparr>) }
              else Some br)"

definition newBaseSetBitRunReader :: "byte list \<Rightarrow> nat \<Rightarrow> nat \<Rightarrow> bool \<Rightarrow> baseSetBitRunReader option" where
  "newBaseSetBitRunReader bitmap startOffset len reverse =
     SetBitRunReader_Reset
       \<lparr>sr_bitmap = [], sr_pos = 0, sr_length = 0, sr_remaining = 0, sr_curWord = 0, sr_curNumBits = 0,
        sr_reversed = reverse, sr_firstBit = 0\<rparr> bitmap startOffset len"

definition NewSetBitRunReader :: "byte list \<Rightarrow> nat \<Rightarrow> nat \<Rightarrow> baseSetBitRunReader option" where
  "NewSetBitRunReader validBits startOffset numValues = newBaseSetBitRunReader validBits startOffset numValues False"

definition NewReverseSetBitRunReader :: "byte list \<Rightarrow> nat \<Rightarrow> nat \<Rightarrow> baseSetBitRunReader option" where
  "NewReverseSetBitRunReader validBits startOffset numValues = newBaseSetBitRunReader validBits startOffset numValues True"

definition sr_position :: "baseSetBitRunReader \<Rightarrow> nat" where
  "sr_position br = (if sr_reversed br then sr_remaining br else sr_length br - sr_remaining br)"

definition findCurrentRun :: "baseSetBitRunReader \<Rightarrow> baseSetBitRunReader \<times> SetBitRun" where
  "findCurrentRun br =
     (let nzeros = countFirstZeros br (sr_curWord br)
      in if nzeros \<ge> sr_curNumBits br then
           (br\<lparr>sr_remaining := sr_remaining br - sr_curNumBits br, sr_curWord := 0, sr_curNumBits := 0\<rparr>,
            \<lparr>sbr_Pos = 0, sbr_Length = 0\<rparr>)
         else
           let br = br\<lparr>sr_curWord := consumeBits br (sr_curWord br) nzeros, sr_curNumBits := sr_curNumBits br - nzeros,
                       sr_remaining := sr_remaining br - nzeros\<rparr>;
               pos = sr_position br;
               numOnes = countFirstZeros br (NOT (sr_curWord br));
               br = br\<lparr>sr_curWord := consumeBits br (sr_curWord br) numOnes, sr_curNumBits := sr_curNumBits br - numOnes,
                       sr_remaining := sr_remaining br - numOnes\<rparr>
           in (br, \<lparr>sbr_Pos = pos, sbr_Length = numOnes\<rparr>))"

definition adjustRun :: "baseSetBitRunReader \<Rightarrow> SetBitRun \<Rightarrow> SetBitRun" where
  "adjustRun br run = (if sr_reversed br then run\<lparr>sbr_Pos := sbr_Pos run - sbr_Length run\<rparr> else run)"

definition loadFull :: "baseSetBitRunReader \<Rightarrow> (baseSetBitRunReader \<times> u64) option" where
  "loadFull br =
     (if sr_reversed br then
        if sr_pos br < 8 then None
        else let br = br\<lparr>sr_pos := sr_pos br - 8\<rparr>
          in do { bs \<leftarrow> slice (sr_bitmap br) (sr_pos br) (sr_pos br + 8); Some (br, word_of_bytes bs) }
      else
        do { bs \<leftarrow> slice (sr_bitmap br) (sr_pos br) (sr_pos br + 8);
             Some (br\<lparr>sr_pos := sr_pos br + 8\<rparr>, word_of_bytes bs) })"

text \<open>The zeros of the last, incomplete word.\<close>

definition skip_last_zeros :: "baseSetBitRunReader \<Rightarrow> baseSetBitRunReader option" where
  "skip_last_zeros br =
     (if sr_remaining br > 0 then
        do { (br, w) \<leftarrow> loadPartial br 0 (sr_remaining br);
             let br = br\<lparr>sr_curWord := w, sr_curNumBits := sr_remaining br\<rparr>;
             let nzeros = utils_Min (sr_curNumBits br) (countFirstZeros br (sr_curWord br));
             Some (br\<lparr>sr_curWord := consumeBits br (sr_curWord br) nzeros, sr_curNumBits := sr_curNumBits br - nzeros,
                      sr_remaining := sr_remaining br - nzeros\<rparr>) }
      else Some br)"

function skipNextZeros :: "baseSetBitRunReader \<Rightarrow> baseSetBitRunReader option" where
  "skipNextZeros br =
     (if sr_remaining br \<ge> 64 then
        (case loadFull br of
           None \<Rightarrow> None
         | Some (br', w) \<Rightarrow>
             let nzeros = countFirstZeros br' w
             in if nzeros < 64 then
                  Some (br'\<lparr>sr_curWord := consumeBits br' w nzeros, sr_curNumBits := 64 - nzeros,
                            sr_remaining := sr_remaining br - nzeros\<rparr>)
                else skipNextZeros (br'\<lparr>sr_curWord := w, sr_remaining := sr_remaining br - 64\<rparr>))
      else skip_last_zeros br)"
  by pat_completeness auto
termination by (relation "measure sr_remaining") auto

declare skipNextZeros.simps [simp del]

text \<open>The ones of the last word.\<close>

definition count_last_ones :: "baseSetBitRunReader \<Rightarrow> nat \<Rightarrow> (baseSetBitRunReader \<times> nat) option" where
  "count_last_ones br len =
     (if sr_remaining br > 0 then
        do { (br, w) \<leftarrow> loadPartial br 0 (sr_remaining br);
             let br = br\<lparr>sr_curWord := w, sr_curNumBits := sr_remaining br\<rparr>;
             let numOnes = countFirstZeros br (NOT (sr_curWord br));
             Some (br\<lparr>sr_curWord := consumeBits br (sr_curWord br) numOnes, sr_curNumBits := sr_curNumBits br - numOnes,
                      sr_remaining := sr_remaining br - numOnes\<rparr>, len + numOnes) }
      else Some (br, len))"

function count_ones_loop :: "baseSetBitRunReader \<Rightarrow> nat \<Rightarrow> (baseSetBitRunReader \<times> nat) option" where
  "count_ones_loop br len =
     (if sr_remaining br \<ge> 64 then
        (case loadFull br of
           None \<Rightarrow> None
         | Some (br', w) \<Rightarrow>
             let numOnes = countFirstZeros br' (NOT w)
             in if numOnes < 64 then
                  Some (br'\<lparr>sr_curWord := consumeBits br' w numOnes, sr_curNumBits := 64 - numOnes,
                            sr_remaining := sr_remaining br - numOnes\<rparr>, len + numOnes)
                else count_ones_loop (br'\<lparr>sr_curWord := w, sr_remaining := sr_remaining br - numOnes\<rparr>) (len + numOnes))
      else count_last_ones br len)"
  by pat_completeness auto
termination by (relation "measure (\<lambda>(br, _). sr_remaining br)") auto

declare count_ones_loop.simps [simp del]

definition countNextOnes :: "baseSetBitRunReader \<Rightarrow> (baseSetBitRunReader \<times> nat) option" where
  "countNextOnes br =
     (if NOT (sr_curWord br) \<noteq> 0 then
        let numOnes = countFirstZeros br (NOT (sr_curWord br));
            br = br\<lparr>sr_remaining := sr_remaining br - numOnes, sr_curWord := consumeBits br (sr_curWord br) numOnes,
                    sr_curNumBits := sr_curNumBits br - numOnes\<rparr>
        in if sr_curNumBits br \<noteq> 0 then Some (br, numOnes) else count_ones_loop br numOnes
      else count_ones_loop (br\<lparr>sr_remaining := sr_remaining br - 64, sr_curNumBits := 0\<rparr>) 64)"

text \<open>The word behind a run that reached the end of its word: \<open>None\<close> inside stands for no bits left.\<close>

definition load_next :: "baseSetBitRunReader \<Rightarrow> baseSetBitRunReader option option" where
  "load_next br =
     (if sr_remaining br \<ge> 64 then
        do { (br, w) \<leftarrow> loadFull br; Some (Some (br\<lparr>sr_curWord := w, sr_curNumBits := 64\<rparr>)) }
      else if sr_remaining br > 0 then
        do { (br, w) \<leftarrow> loadPartial br 0 (sr_remaining br); Some (Some (br\<lparr>sr_curWord := w, sr_curNumBits := sr_remaining br\<rparr>)) }
      else Some None)"

definition finish_run :: "baseSetBitRunReader \<Rightarrow> nat \<Rightarrow> nat \<Rightarrow> (baseSetBitRunReader \<times> SetBitRun) option" where
  "finish_run br pos len =
     do { (br, n) \<leftarrow> countNextOnes br; Some (br, adjustRun br \<lparr>sbr_Pos = pos, sbr_Length = len + n\<rparr>) }"

definition SetBitRunReader_NextRun :: "baseSetBitRunReader \<Rightarrow> (baseSetBitRunReader \<times> SetBitRun) option" where
  "SetBitRunReader_NextRun br =
     (let (br, run) = (if sr_curNumBits br \<noteq> 0 then findCurrentRun br else (br, \<lparr>sbr_Pos = 0, sbr_Length = 0\<rparr>))
      in if sbr_Length run \<noteq> 0 \<and> sr_curNumBits br \<noteq> 0 then Some (br, adjustRun br run)
         else if sbr_Length run = 0 then
           do { br \<leftarrow> skipNextZeros br;
                if sr_remaining br = 0 then Some (br, \<lparr>sbr_Pos = 0, sbr_Length = 0\<rparr>)
                else finish_run br (sr_position br) 0 }
         else
           do { nxt \<leftarrow> load_next br;
                case nxt of
                  None \<Rightarrow> Some (br, adjustRun br run)
                | Some br \<Rightarrow> if sr_curWord br AND sr_firstBit br = 0 then Some (br, adjustRun br run)
                             else finish_run br (sbr_Pos run) (sbr_Length run) })"

text \<open>The visitors, with a callback on a state of any type.\<close>

type_synonym 's VisitFn = "nat \<Rightarrow> nat \<Rightarrow> 's \<Rightarrow> ('s \<times> goerr option) option"

partial_function (option) visit_runs_loop ::
  "('r \<Rightarrow> ('r \<times> SetBitRun) option) \<Rightarrow> 's VisitFn \<Rightarrow> 'r \<Rightarrow> 's \<Rightarrow> ('r \<times> 's \<times> goerr option) option" where
  "visit_runs_loop nextRun visitFn br s =
     do { (br, run) \<leftarrow> nextRun br;
          if sbr_Length run = 0 then Some (br, s, None)
          else do { (s, err) \<leftarrow> visitFn (sbr_Pos run) (sbr_Length run) s;
                    if err \<noteq> None then Some (br, s, err) else visit_runs_loop nextRun visitFn br s } }"

definition SetBitRunReader_VisitSetBitRuns ::
  "'s VisitFn \<Rightarrow> baseSetBitRunReader \<Rightarrow> 's \<Rightarrow> (baseSetBitRunReader \<times> 's \<times> goerr option) option" where
  "SetBitRunReader_VisitSetBitRuns visitFn br s = visit_runs_loop SetBitRunReader_NextRun visitFn br s"

definition VisitSetBitRuns :: "byte list option \<Rightarrow> nat \<Rightarrow> nat \<Rightarrow> 's VisitFn \<Rightarrow> 's \<Rightarrow> ('s \<times> goerr option) option" where
  "VisitSetBitRuns bitmap bitmapOffset len visitFn s =
     (case bitmap of
        None \<Rightarrow> visitFn 0 len s
      | Some bs \<Rightarrow>
          do { rdr \<leftarrow> NewSetBitRunReader bs bitmapOffset len;
               (_, s, err) \<leftarrow> visit_runs_loop SetBitRunReader_NextRun visitFn rdr s;
               Some (s, err) })"

definition VisitSetBitRunsNoErr :: "byte list option \<Rightarrow> nat \<Rightarrow> nat \<Rightarrow> (nat \<Rightarrow> nat \<Rightarrow> 's \<Rightarrow> 's option) \<Rightarrow> 's \<Rightarrow> 's option" where
  "VisitSetBitRunsNoErr bitmap bitmapOffset len visitFn s =
     (case bitmap of
        None \<Rightarrow> visitFn 0 len s
      | Some bs \<Rightarrow>
          do { rdr \<leftarrow> NewSetBitRunReader bs bitmapOffset len;
               (_, s, _) \<leftarrow> visit_runs_loop SetBitRunReader_NextRun (\<lambda>pos n s. map_option (\<lambda>s. (s, None)) (visitFn pos n s)) rdr s;
               Some s })"

section \<open>Words in reading order\<close>

text \<open>The \<open>i\<close>-th bit of a word in reading order.\<close>

definition wbit :: "bool \<Rightarrow> u64 \<Rightarrow> nat \<Rightarrow> bool" where
  "wbit R w i = (if R then bit w (63 - i) else bit w i)"

lemma wbit_not [simp]: "i < 64 \<Longrightarrow> wbit R (NOT w) i \<longleftrightarrow> \<not> wbit R w i"
  by (auto simp: wbit_def bit_simps)

lemma wbit_consume: "i < 64 \<Longrightarrow> wbit (sr_reversed br) (consumeBits br w n) i \<longleftrightarrow> i + n < 64 \<and> wbit (sr_reversed br) w (i + n)"
  by (auto simp: wbit_def consumeBits_def bit_simps ac_simps dest: bit_imp_le_length)

lemma leading_zeros_eqI:
  assumes "n \<le> 64" "\<And>i. i < n \<Longrightarrow> \<not> bit w (63 - i)" "n < 64 \<Longrightarrow> bit w (63 - n)"
  shows "leading_zeros (w :: u64) = n"
proof -
  have "rev [0..<LENGTH(64)] = map (\<lambda>i. 63 - i) [0..<64]" by (rule nth_equalityI) (simp_all add: rev_nth)
  then have "leading_zeros w = length (takeWhile (\<lambda>i. \<not> bit w (63 - i)) [0..<64])"
    by (simp add: leading_zeros_def takeWhile_map comp_def)
  then show ?thesis using takeWhile_upt_stop [of n 64 "\<lambda>i. \<not> bit w (63 - i)"] assms by simp
qed

lemma countFirstZeros_eqI:
  assumes "n \<le> 64" "\<And>i. i < n \<Longrightarrow> \<not> wbit (sr_reversed br) w i" "n < 64 \<Longrightarrow> wbit (sr_reversed br) w n"
  shows "countFirstZeros br w = n"
  using assms by (auto simp: countFirstZeros_def wbit_def intro!: leading_zeros_eqI trailing_zeros_eqI split: if_splits)

text \<open>A word with the bits \<open>c\<close> to \<open>c + m\<close> of the sequence \<open>q\<close>, and zeros behind them.\<close>

definition word_at :: "bool \<Rightarrow> (nat \<Rightarrow> bool) \<Rightarrow> nat \<Rightarrow> nat \<Rightarrow> u64 \<Rightarrow> bool" where
  "word_at R q c m w \<longleftrightarrow> m \<le> 64 \<and> (\<forall>i<64. wbit R w i \<longleftrightarrow> i < m \<and> q (c + i))"

lemma word_at_consume:
  "word_at (sr_reversed br) q c m w \<Longrightarrow> k \<le> m \<Longrightarrow> word_at (sr_reversed br) q (c + k) (m - k) (consumeBits br w k)"
  by (auto simp: word_at_def wbit_consume ac_simps)

lemma run_from_le_word: "run_from q c (c + m) v \<le> m"
  using run_from_le [of q c "c + m" v] by simp

lemma countFirstZeros_word:
  assumes w: "word_at (sr_reversed br) q c m w"
  shows "countFirstZeros br w = (if run_from q c (c + m) False < m then run_from q c (c + m) False else 64)"
proof -
  define z where "z = run_from q c (c + m) False"
  have bits: "\<not> q (c + i)" if "i < z" for i using run_from_bit [of c "c + i" q "c + m" False] that by (simp add: z_def)
  have one: "q (c + z)" if "z < m" using run_from_end [of c q "c + m" False] that by (simp add: z_def)
  have "m \<le> 64" "z \<le> m" using w run_from_le_word [of q c m False] by (simp_all add: word_at_def z_def)
  then show ?thesis
    using w bits one unfolding z_def [symmetric] by (auto simp: word_at_def intro!: countFirstZeros_eqI)
qed

lemma countFirstOnes_word:
  assumes w: "word_at (sr_reversed br) q c m w"
  shows "countFirstZeros br (NOT w) = run_from q c (c + m) True"
proof -
  define k where "k = run_from q c (c + m) True"
  have bits: "q (c + i)" if "i < k" for i using run_from_bit [of c "c + i" q "c + m" True] that by (simp add: k_def)
  have zero: "\<not> q (c + k)" if "k < m" using run_from_end [of c q "c + m" True] that by (simp add: k_def)
  have "m \<le> 64" "k \<le> m" using w run_from_le_word [of q c m True] by (simp_all add: word_at_def k_def)
  then show ?thesis
    using w bits zero unfolding k_def [symmetric] by (auto simp: word_at_def intro!: countFirstZeros_eqI)
qed

lemma run_from_split:
  assumes "c + m \<le> n"
  shows "run_from q c n v = (if run_from q c (c + m) v < m then run_from q c (c + m) v else m + run_from q (c + m) n v)"
proof -
  define r where "r = run_from q c (c + m) v"
  have r: "r \<le> m" using run_from_le_word by (simp add: r_def)
  have bits: "q j = v" if "c \<le> j" "j < c + r" for j using run_from_bit [of c j q "c + m" v] that by (simp add: r_def)
  show ?thesis
  proof (cases "r < m")
    case True
    then have "q (c + r) \<noteq> v" using run_from_end [of c q "c + m" v] by (simp add: r_def)
    then have "run_from q c n v = r" using bits True assms by (intro run_from_eqI) auto
    then show ?thesis using True by (simp flip: r_def)
  next
    case False
    then have "r = m" using r by simp
    then have "m \<le> run_from q c n v"
      using bits [of "c + run_from q c n v"] run_from_end [of c q n v] assms by (cases "m \<le> run_from q c n v") auto
    then show ?thesis using run_from_add False by (simp flip: r_def)
  qed
qed

section \<open>Loading words\<close>

lemma loadPartial_forward:
  assumes "\<not> sr_reversed br" and m: "off + m \<le> 8 * BytesForBits m" "m \<le> 64"
    and fit: "8 * sr_pos br + m \<le> 8 * length (sr_bitmap br)"
  shows "\<exists>w. loadPartial br off m = Some (br\<lparr>sr_pos := sr_pos br + BytesForBits m\<rparr>, w) \<and>
    (\<forall>i<64. wbit (sr_reversed br) w i \<longleftrightarrow> i < m \<and> bm_bit (sr_bitmap br) (8 * sr_pos br + off + i))"
proof -
  let ?n = "BytesForBits m" and ?bs = "sr_bitmap br" and ?p = "sr_pos br"
  have n: "?n \<le> 8" "?p + ?n \<le> length ?bs" using m(2) fit BytesForBits_le_iff [of m 8] BytesForBits_le_iff [of m "length ?bs - ?p"] by auto
  define w :: u64 where "w = word_of_bytes (blit (replicate 8 0) 0 (take ?n (drop ?p ?bs)))"
  have "bit w j = bm_bit ?bs (8 * ?p + j)" if "j < 8 * ?n" for j
    unfolding w_def bit_word_of_bytes using that n by (subst bm_bit_blit) (auto simp: bm_simps)
  then have "bit (drop_bit off w AND LeastSignificantBitMask m) i \<longleftrightarrow> i < m \<and> bm_bit ?bs (8 * ?p + off + i)" for i
    using m by (auto simp: LeastSignificantBitMask_mask bit_simps add.assoc)
  then show ?thesis using assms(1) n by (simp add: loadPartial_def Let_def wbit_def flip: w_def)
qed

lemma loadPartial_reverse:
  assumes "sr_reversed br" and m: "off + m \<le> 8 * BytesForBits m" "m \<le> 64"
    and fit: "BytesForBits m \<le> sr_pos br" "sr_pos br \<le> length (sr_bitmap br)"
  shows "\<exists>w. loadPartial br off m = Some (br\<lparr>sr_pos := sr_pos br - BytesForBits m\<rparr>, w) \<and>
    (\<forall>i<64. wbit (sr_reversed br) w i \<longleftrightarrow> i < m \<and> bm_bit (sr_bitmap br) (8 * sr_pos br - 1 - off - i))"
proof -
  let ?n = "BytesForBits m" and ?bs = "sr_bitmap br" and ?p = "sr_pos br"
  have n: "?n \<le> 8" using m(2) BytesForBits_le_iff [of m 8] by auto
  define w :: u64 where "w = word_of_bytes (blit (replicate 8 0) (8 - ?n) (take ?n (drop (?p - ?n) ?bs)))"
  have w: "bit w (63 - j) = bm_bit ?bs (8 * ?p - 1 - j)" if "j < 8 * ?n" for j
  proof -
    have "63 - j - 8 * (8 - ?n) + 8 * (?p - ?n) = 8 * ?p - 1 - j" "8 * (8 - ?n) \<le> 63 - j" "63 - j < 64" using that n fit(1) by auto
    then show ?thesis
      unfolding w_def bit_word_of_bytes using that n fit by (subst bm_bit_blit) (auto simp: bm_simps ac_simps)
  qed
  have "bit (push_bit off w AND NOT (LeastSignificantBitMask (64 - m))) (63 - i) \<longleftrightarrow> i < m \<and> bm_bit ?bs (8 * ?p - 1 - off - i)"
    if "i < 64" for i
  proof (cases "i < m")
    case True
    then have io: "off + i < 8 * ?n" "off + i < 64" using m n by linarith+
    have "bm_bit ?bs (8 * ?p - 1 - off - i) = bit w (63 - (off + i))" using w [OF io(1)] by simp
    moreover have "63 - i - off = 63 - (off + i)" "off \<le> 63 - i" "64 - m \<le> 63 - i" using io(2) True m(2) by auto
    ultimately show ?thesis using True that by (simp add: LeastSignificantBitMask_mask bit_simps less_imp_diff_less)
  next
    case False
    then show ?thesis using that by (auto simp: LeastSignificantBitMask_mask bit_simps)
  qed
  then show ?thesis using assms(1) fit by (simp add: loadPartial_def Let_def wbit_def flip: w_def)
qed

text \<open>\<open>src L q d br\<close>: the reader delivers the sequence \<open>q\<close> of \<open>L\<close> bits in reading order, and its byte position
  is that of bit \<open>d\<close>.\<close>

definition src :: "nat \<Rightarrow> (nat \<Rightarrow> bool) \<Rightarrow> nat \<Rightarrow> baseSetBitRunReader \<Rightarrow> bool" where
  "src L q d br \<longleftrightarrow> sr_length br = L \<and> d \<le> L \<and> sr_firstBit br = (if sr_reversed br then 0x8000000000000000 else 1) \<and>
     (\<exists>start. start + L \<le> 8 * length (sr_bitmap br) \<and>
       (\<forall>j<L. q j = bm_bit (sr_bitmap br) (if sr_reversed br then start + (L - 1 - j) else start + j)) \<and>
       (d < L \<longrightarrow> 8 * sr_pos br = (if sr_reversed br then start + (L - d) else start + d)))"

lemma src_simps [simp]:
  "src L q d (br\<lparr>sr_curWord := w\<rparr>) = src L q d br"
  "src L q d (br\<lparr>sr_curNumBits := m\<rparr>) = src L q d br"
  "src L q d (br\<lparr>sr_remaining := r\<rparr>) = src L q d br"
  by (simp_all add: src_def)

lemma loadFull_src:
  assumes "src L q c br" "c + 64 \<le> L"
  shows "\<exists>pos w. loadFull br = Some (br\<lparr>sr_pos := pos\<rparr>, w) \<and> word_at (sr_reversed br) q c 64 w \<and> src L q (c + 64) (br\<lparr>sr_pos := pos\<rparr>)"
proof -
  let ?bs = "sr_bitmap br" and ?p = "sr_pos br"
  from assms obtain start where st: "start + L \<le> 8 * length ?bs"
    "\<And>j. j < L \<Longrightarrow> q j = bm_bit ?bs (if sr_reversed br then start + (L - 1 - j) else start + j)"
    "8 * ?p = (if sr_reversed br then start + (L - c) else start + c)" by (auto simp: src_def)
  show ?thesis
  proof (cases "sr_reversed br")
    case True
    then have p: "8 \<le> ?p" "?p \<le> length ?bs" using st(1,3) assms(2) by auto
    have "bit (word_of_bytes (take 8 (drop (?p - 8) ?bs)) :: u64) (63 - i) = q (c + i)" if "i < 64" for i
    proof -
      have "8 * (?p - 8) + (63 - i) = start + (L - 1 - (c + i))" using st(3) True that assms(2) p(1) by auto
      then show ?thesis using st(2) [of "c + i"] that assms(2) True by (simp add: bit_le_uint64 bm_simps less_imp_diff_less)
    qed
    then have "word_at True q c 64 (word_of_bytes (take 8 (drop (?p - 8) ?bs)))" by (simp add: word_at_def wbit_def)
    moreover have "src L q (c + 64) (br\<lparr>sr_pos := ?p - 8\<rparr>)"
      using assms st True p(1) unfolding src_def by (auto intro!: exI [of _ start])
    ultimately show ?thesis using True p by (auto simp: loadFull_def)
  next
    case False
    then have p: "?p + 8 \<le> length ?bs" using st(1,3) assms(2) by auto
    have "bit (word_of_bytes (take 8 (drop ?p ?bs)) :: u64) i = q (c + i)" if "i < 64" for i
      using st(2) [of "c + i"] st(3) that assms(2) False by (simp add: bit_le_uint64 bm_simps add.assoc)
    then have "word_at False q c 64 (word_of_bytes (take 8 (drop ?p ?bs)))" by (simp add: word_at_def wbit_def)
    moreover have "src L q (c + 64) (br\<lparr>sr_pos := ?p + 8\<rparr>)"
      using assms st False unfolding src_def by (auto intro!: exI [of _ start])
    ultimately show ?thesis using False p by (auto simp: loadFull_def)
  qed
qed

lemma loadPartial_src:
  assumes "src L q c br" "c < L" "L - c < 64"
  shows "\<exists>pos w. loadPartial br 0 (L - c) = Some (br\<lparr>sr_pos := pos\<rparr>, w) \<and> word_at (sr_reversed br) q c (L - c) w \<and>
    src L q L (br\<lparr>sr_pos := pos\<rparr>)"
proof -
  let ?bs = "sr_bitmap br" and ?p = "sr_pos br" and ?m = "L - c"
  from assms obtain start where st: "start + L \<le> 8 * length ?bs"
    "\<And>j. j < L \<Longrightarrow> q j = bm_bit ?bs (if sr_reversed br then start + (L - 1 - j) else start + j)"
    "8 * ?p = (if sr_reversed br then start + ?m else start + c)" by (auto simp: src_def)
  have n: "0 + ?m \<le> 8 * BytesForBits ?m" "?m \<le> 64" using BytesForBits_le_iff [of ?m "BytesForBits ?m"] assms(3) by auto
  have out: "src L q L (br\<lparr>sr_pos := pos\<rparr>)" for pos using assms(1) unfolding src_def by auto
  show ?thesis
  proof (cases "sr_reversed br")
    case True
    then have p: "BytesForBits ?m \<le> ?p" "?p \<le> length ?bs" using st(1,3) assms(2) by (auto simp: BytesForBits_le_iff)
    from loadPartial_reverse [OF True n p] obtain w where
      w: "loadPartial br 0 ?m = Some (br\<lparr>sr_pos := ?p - BytesForBits ?m\<rparr>, w)"
        "\<forall>i<64. wbit True w i \<longleftrightarrow> i < ?m \<and> bm_bit ?bs (8 * ?p - 1 - 0 - i)" using True by auto
    have "bm_bit ?bs (8 * ?p - 1 - 0 - i) = q (c + i)" if "i < ?m" for i
    proof -
      have "8 * ?p - 1 - 0 - i = start + (L - 1 - (c + i))" using st(3) True that by auto
      then show ?thesis using st(2) [of "c + i"] that True by simp
    qed
    then have "word_at True q c ?m w" using w(2) n(2) by (auto simp: word_at_def)
    then show ?thesis using w(1) out True by auto
  next
    case False
    then have "8 * ?p + ?m \<le> 8 * length ?bs" using st(1,3) assms(2) by auto
    from loadPartial_forward [OF False n this] obtain w where
      w: "loadPartial br 0 ?m = Some (br\<lparr>sr_pos := ?p + BytesForBits ?m\<rparr>, w)"
        "\<forall>i<64. wbit False w i \<longleftrightarrow> i < ?m \<and> bm_bit ?bs (8 * ?p + 0 + i)" using False by auto
    have "bm_bit ?bs (8 * ?p + 0 + i) = q (c + i)" if "i < ?m" for i
      using st(2) [of "c + i"] st(3) that False by (simp add: add.assoc)
    then have "word_at False q c ?m w" using w(2) n(2) by (auto simp: word_at_def)
    then show ?thesis using w(1) out False by auto
  qed
qed

section \<open>Skipping zeros and counting ones\<close>

text \<open>\<open>stream L q c br\<close>: of the \<open>L\<close> bits \<open>q\<close> in reading order, \<open>c\<close> are consumed; the current word has the next ones.\<close>

definition stream :: "nat \<Rightarrow> (nat \<Rightarrow> bool) \<Rightarrow> nat \<Rightarrow> baseSetBitRunReader \<Rightarrow> bool" where
  "stream L q c br \<longleftrightarrow> c + sr_curNumBits br \<le> L \<and> sr_remaining br = L - c \<and> src L q (c + sr_curNumBits br) br \<and>
     (sr_curNumBits br > 0 \<longrightarrow> word_at (sr_reversed br) q c (sr_curNumBits br) (sr_curWord br))"

lemma stream_consume:
  assumes "word_at (sr_reversed br) q c m w" "k \<le> m" "c + m \<le> L" "src L q (c + m) br" "sr_reversed br' = sr_reversed br"
  shows "stream L q (c + k) (br\<lparr>sr_curWord := consumeBits br' w k, sr_curNumBits := m - k, sr_remaining := L - (c + k)\<rparr>)"
proof -
  have "consumeBits br' w k = consumeBits br w k" using assms(5) by (simp add: consumeBits_def)
  then show ?thesis using assms word_at_consume [OF assms(1,2)] by (simp add: stream_def)
qed

lemma skip_last_zeros_stream:
  assumes "stream L q c br" "sr_curNumBits br = 0" "L - c < 64"
  shows "\<exists>br'. skip_last_zeros br = Some br' \<and> stream L q (c + run_from q c L False) br' \<and> sr_reversed br' = sr_reversed br \<and>
    (c + run_from q c L False < L \<longrightarrow> 0 < sr_curNumBits br')"
proof (cases "c < L")
  case False
  then show ?thesis using assms by (auto simp: skip_last_zeros_def stream_def run_from_def)
next
  case True
  let ?z = "run_from q c L False"
  have "src L q c br" using assms by (simp add: stream_def)
  from loadPartial_src [OF this True assms(3)] obtain pos w where
    w: "loadPartial br 0 (L - c) = Some (br\<lparr>sr_pos := pos\<rparr>, w)" "word_at (sr_reversed br) q c (L - c) w"
      "src L q L (br\<lparr>sr_pos := pos\<rparr>)" by blast
  have z: "?z \<le> L - c" by (rule run_from_le)
  have cz: "utils_Min (L - c) (countFirstZeros (br\<lparr>sr_pos := pos, sr_curWord := w, sr_curNumBits := L - c\<rparr>) w) = ?z"
    using countFirstZeros_word [of "br\<lparr>sr_pos := pos, sr_curWord := w, sr_curNumBits := L - c\<rparr>" q c "L - c" w] w(2) z True assms(3)
    by (auto simp: utils_Min_min)
  have L: "c + (L - c) = L" using True by simp
  let ?br' = "br\<lparr>sr_pos := pos, sr_curWord := consumeBits br w ?z, sr_curNumBits := L - c - ?z, sr_remaining := L - (c + ?z)\<rparr>"
  have "stream L q (c + ?z) ?br'"
    by (rule stream_consume [of "br\<lparr>sr_pos := pos\<rparr>", simplified]) (use w(2,3) z L in simp_all)
  moreover have "skip_last_zeros br = Some ?br'"
  proof -
    have "sr_remaining br = L - c" using assms(1) by (simp add: stream_def)
    moreover have "consumeBits (br\<lparr>sr_pos := pos, sr_curWord := w, sr_curNumBits := L - c\<rparr>) w ?z = consumeBits br w ?z"
      by (simp add: consumeBits_def)
    ultimately show ?thesis using True w(1) cz by (simp add: skip_last_zeros_def Let_def)
  qed
  ultimately show ?thesis by auto
qed

lemma skipNextZeros_stream:
  assumes "stream L q c br" "sr_curNumBits br = 0"
  shows "\<exists>br'. skipNextZeros br = Some br' \<and> stream L q (c + run_from q c L False) br' \<and> sr_reversed br' = sr_reversed br \<and>
    (c + run_from q c L False < L \<longrightarrow> 0 < sr_curNumBits br')"
  using assms
proof (induction "L - c" arbitrary: c br rule: less_induct)
  case less
  have rem: "sr_remaining br = L - c" and src: "src L q c br" using less.prems by (simp_all add: stream_def)
  show ?case
  proof (cases "64 \<le> L - c")
    case False
    then show ?thesis using skip_last_zeros_stream [OF less.prems] rem by (simp add: skipNextZeros.simps)
  next
    case True
    then have c64: "c + 64 \<le> L" by simp
    from loadFull_src [OF src c64] obtain pos w where
      w: "loadFull br = Some (br\<lparr>sr_pos := pos\<rparr>, w)" "word_at (sr_reversed br) q c 64 w" "src L q (c + 64) (br\<lparr>sr_pos := pos\<rparr>)"
      by blast
    let ?br = "br\<lparr>sr_pos := pos\<rparr>"
    define z where "z = run_from q c (c + 64) False"
    have cz: "countFirstZeros ?br w = (if z < 64 then z else 64)"
      using countFirstZeros_word [of ?br q c 64 w] w(2) by (simp add: z_def)
    show ?thesis
    proof (cases "z < 64")
      case z: True
      then have "run_from q c L False = z" using run_from_split [OF c64, of q False] by (simp add: z_def)
      moreover have "stream L q (c + z) (?br\<lparr>sr_curWord := consumeBits ?br w z, sr_curNumBits := 64 - z, sr_remaining := L - (c + z)\<rparr>)"
        using stream_consume [of ?br q c 64 w z L ?br] w(2,3) z c64 by simp
      ultimately show ?thesis using True z rem w(1) cz by (subst skipNextZeros.simps) (auto simp: Let_def)
    next
      case z: False
      then have r: "run_from q c L False = 64 + run_from q (c + 64) L False" using run_from_split [OF c64, of q False] by (simp add: z_def)
      let ?br' = "?br\<lparr>sr_curWord := w, sr_remaining := L - c - 64\<rparr>"
      have "stream L q (c + 64) ?br'" using w(3) c64 less.prems(2) by (simp add: stream_def)
      from less.hyps [OF _ this] less.prems(2) c64 have IH: "\<exists>br'. skipNextZeros ?br' = Some br' \<and>
          stream L q (c + 64 + run_from q (c + 64) L False) br' \<and> sr_reversed br' = sr_reversed ?br' \<and>
          (c + 64 + run_from q (c + 64) L False < L \<longrightarrow> 0 < sr_curNumBits br')" by simp
      have "skipNextZeros br = skipNextZeros ?br'" using True z rem w(1) cz by (subst skipNextZeros.simps) (simp add: Let_def)
      with IH show ?thesis by (simp add: r add.assoc)
    qed
  qed
qed

lemma count_last_ones_stream:
  assumes "stream L q c br" "sr_curNumBits br = 0" "L - c < 64"
  shows "\<exists>br'. count_last_ones br n = Some (br', n + run_from q c L True) \<and> stream L q (c + run_from q c L True) br' \<and>
    sr_reversed br' = sr_reversed br"
proof (cases "c < L")
  case False
  then show ?thesis using assms by (auto simp: count_last_ones_def stream_def run_from_def)
next
  case True
  let ?k = "run_from q c L True"
  have "src L q c br" using assms by (simp add: stream_def)
  from loadPartial_src [OF this True assms(3)] obtain pos w where
    w: "loadPartial br 0 (L - c) = Some (br\<lparr>sr_pos := pos\<rparr>, w)" "word_at (sr_reversed br) q c (L - c) w"
      "src L q L (br\<lparr>sr_pos := pos\<rparr>)" by blast
  have k: "?k \<le> L - c" by (rule run_from_le)
  have L: "c + (L - c) = L" using True by simp
  let ?br = "br\<lparr>sr_pos := pos, sr_curWord := w, sr_curNumBits := L - c\<rparr>"
  have ck: "countFirstZeros ?br (NOT w) = ?k" using countFirstOnes_word [of ?br q c "L - c" w] w(2) L by simp
  let ?br' = "br\<lparr>sr_pos := pos, sr_curWord := consumeBits br w ?k, sr_curNumBits := L - c - ?k, sr_remaining := L - (c + ?k)\<rparr>"
  have "stream L q (c + ?k) ?br'"
    by (rule stream_consume [of "br\<lparr>sr_pos := pos\<rparr>", simplified]) (use w(2,3) k L in simp_all)
  moreover have "count_last_ones br n = Some (?br', n + ?k)"
  proof -
    have "sr_remaining br = L - c" using assms(1) by (simp add: stream_def)
    moreover have "consumeBits ?br w ?k = consumeBits br w ?k" by (simp add: consumeBits_def)
    ultimately show ?thesis using True w(1) ck by (simp add: count_last_ones_def Let_def)
  qed
  ultimately show ?thesis by auto
qed

lemma count_ones_loop_stream:
  assumes "stream L q c br" "sr_curNumBits br = 0"
  shows "\<exists>br'. count_ones_loop br n = Some (br', n + run_from q c L True) \<and> stream L q (c + run_from q c L True) br' \<and>
    sr_reversed br' = sr_reversed br"
  using assms
proof (induction "L - c" arbitrary: c br n rule: less_induct)
  case less
  have rem: "sr_remaining br = L - c" and src: "src L q c br" using less.prems by (simp_all add: stream_def)
  show ?case
  proof (cases "64 \<le> L - c")
    case False
    then show ?thesis using count_last_ones_stream [OF less.prems] rem by (simp add: count_ones_loop.simps)
  next
    case True
    then have c64: "c + 64 \<le> L" by simp
    from loadFull_src [OF src c64] obtain pos w where
      w: "loadFull br = Some (br\<lparr>sr_pos := pos\<rparr>, w)" "word_at (sr_reversed br) q c 64 w" "src L q (c + 64) (br\<lparr>sr_pos := pos\<rparr>)"
      by blast
    let ?br = "br\<lparr>sr_pos := pos\<rparr>"
    define k where "k = run_from q c (c + 64) True"
    have ck: "countFirstZeros ?br (NOT w) = k" using countFirstOnes_word [of ?br q c 64 w] w(2) by (simp add: k_def)
    have k64: "k \<le> 64" using run_from_le_word by (simp add: k_def)
    show ?thesis
    proof (cases "k < 64")
      case k: True
      then have "run_from q c L True = k" using run_from_split [OF c64, of q True] by (simp add: k_def)
      moreover have "stream L q (c + k) (?br\<lparr>sr_curWord := consumeBits ?br w k, sr_curNumBits := 64 - k, sr_remaining := L - (c + k)\<rparr>)"
        using stream_consume [of ?br q c 64 w k L ?br] w(2,3) k c64 by simp
      ultimately show ?thesis using True k rem w(1) ck by (subst count_ones_loop.simps) (auto simp: Let_def)
    next
      case k: False
      then have r: "run_from q c L True = 64 + run_from q (c + 64) L True" using run_from_split [OF c64, of q True] by (simp add: k_def)
      let ?br' = "?br\<lparr>sr_curWord := w, sr_remaining := L - c - 64\<rparr>"
      have "stream L q (c + 64) ?br'" using w(3) c64 less.prems(2) by (simp add: stream_def)
      from less.hyps [OF _ this] less.prems(2) c64 have IH: "\<exists>br'. count_ones_loop ?br' (n + 64) = Some (br', n + 64 + run_from q (c + 64) L True) \<and>
          stream L q (c + 64 + run_from q (c + 64) L True) br' \<and> sr_reversed br' = sr_reversed ?br'" by simp
      have "count_ones_loop br n = count_ones_loop ?br' (n + 64)"
        using True k k64 rem w(1) ck by (subst count_ones_loop.simps) (simp add: Let_def)
      with IH show ?thesis by (simp add: r add.assoc)
    qed
  qed
qed

lemma countNextOnes_stream:
  assumes st: "stream L q c br" and m: "0 < sr_curNumBits br"
  shows "\<exists>br'. countNextOnes br = Some (br', run_from q c L True) \<and> stream L q (c + run_from q c L True) br' \<and>
    sr_reversed br' = sr_reversed br"
proof -
  let ?m = "sr_curNumBits br"
  have w: "word_at (sr_reversed br) q c ?m (sr_curWord br)" and cm: "c + ?m \<le> L" and src: "src L q (c + ?m) br"
    and rem: "sr_remaining br = L - c" using st m by (simp_all add: stream_def)
  define k where "k = run_from q c (c + ?m) True"
  have km: "k \<le> ?m" using run_from_le_word by (simp add: k_def)
  have ck: "countFirstZeros br (NOT (sr_curWord br)) = k" using countFirstOnes_word [OF w] by (simp add: k_def)
  have k: "run_from q c L True = (if k < ?m then k else ?m + run_from q (c + ?m) L True)"
    using run_from_split [OF cm, of q True] by (simp add: k_def)
  have loop: "\<exists>br''. count_ones_loop br' ?m = Some (br'', ?m + run_from q (c + ?m) L True) \<and>
      stream L q (c + (?m + run_from q (c + ?m) L True)) br'' \<and> sr_reversed br'' = sr_reversed br"
    if "stream L q (c + ?m) br'" "sr_curNumBits br' = 0" "sr_reversed br' = sr_reversed br" for br'
    using count_ones_loop_stream [OF that(1,2), of ?m] that(3) by (simp add: add.assoc)
  show ?thesis
  proof (cases "NOT (sr_curWord br) = 0")
    case True
    have "k = 64" using ck True by (simp add: countFirstZeros_eqI [of 64] wbit_def)
    moreover from this have m64: "?m = 64" using w km by (simp add: word_at_def)
    moreover have "stream L q (c + ?m) (br\<lparr>sr_remaining := L - c - 64, sr_curNumBits := 0\<rparr>)"
      using m64 cm src by (simp add: stream_def)
    ultimately show ?thesis using loop [of "br\<lparr>sr_remaining := L - c - 64, sr_curNumBits := 0\<rparr>"] True rem m64 k
      by (simp add: countNextOnes_def)
  next
    case False
    let ?br' = "br\<lparr>sr_remaining := L - c - k, sr_curWord := consumeBits br (sr_curWord br) k, sr_curNumBits := ?m - k\<rparr>"
    have "stream L q (c + k) ?br'" using stream_consume [OF w km cm src, of br] by (simp add: stream_def)
    moreover have "countNextOnes br = (if ?m - k \<noteq> 0 then Some (?br', k) else count_ones_loop ?br' k)"
      using False rem ck by (simp add: countNextOnes_def Let_def)
    ultimately show ?thesis using loop [of ?br'] k km by (cases "k < ?m") auto
  qed
qed

lemma findCurrentRun_stream:
  assumes st: "stream L q c br" and m: "0 < sr_curNumBits br"
  defines "z \<equiv> run_from q c (c + sr_curNumBits br) False"
  defines "k \<equiv> run_from q (c + z) (c + sr_curNumBits br) True"
  shows "\<exists>br' run. findCurrentRun br = (br', run) \<and> stream L q (c + z + k) br' \<and> sr_reversed br' = sr_reversed br \<and>
    sr_curNumBits br' = sr_curNumBits br - z - k \<and> sbr_Length run = k \<and> (z < sr_curNumBits br \<longrightarrow> 0 < k \<and>
      sbr_Pos run = (if sr_reversed br then L - (c + z) else c + z)) \<and> z + k \<le> sr_curNumBits br"
proof -
  let ?m = "sr_curNumBits br"
  have w: "word_at (sr_reversed br) q c ?m (sr_curWord br)" and cm: "c + ?m \<le> L" and src: "src L q (c + ?m) br"
    and rem: "sr_remaining br = L - c" using st m by (simp_all add: stream_def)
  have m64: "?m \<le> 64" using w by (simp add: word_at_def)
  have zm: "z \<le> ?m" using run_from_le_word by (simp add: z_def)
  have cz: "countFirstZeros br (sr_curWord br) = (if z < ?m then z else 64)" using countFirstZeros_word [OF w] by (simp add: z_def)
  show ?thesis
  proof (cases "z < ?m")
    case False
    then have "z = ?m" using zm by simp
    then have "k = 0" by (simp add: k_def run_from_def)
    then show ?thesis using False \<open>z = ?m\<close> cz m64 rem cm src by (auto simp: findCurrentRun_def Let_def stream_def)
  next
    case True
    let ?w = "consumeBits br (sr_curWord br) z"
    let ?br = "br\<lparr>sr_curWord := ?w, sr_curNumBits := ?m - z, sr_remaining := L - c - z\<rparr>"
    have w': "word_at (sr_reversed br) q (c + z) (?m - z) ?w" by (rule word_at_consume [OF w zm])
    have czm: "c + z + (?m - z) = c + ?m" using zm by simp
    have ck: "countFirstZeros ?br (NOT ?w) = k" using countFirstOnes_word [of ?br q "c + z" "?m - z" ?w] w' czm by (simp add: k_def)
    have km: "k \<le> ?m - z" using run_from_le_word [of q "c + z" "?m - z" True] czm by (simp add: k_def)
    have "q (c + z)" using run_from_end [of c q "c + ?m" False] True by (simp add: z_def)
    then have k0: "0 < k" using True by (simp add: k_def run_from_unfold [of q "c + z"])
    let ?br' = "br\<lparr>sr_curWord := consumeBits ?br ?w k, sr_curNumBits := ?m - z - k, sr_remaining := L - (c + z + k)\<rparr>"
    have "stream L q (c + z + k) ?br'" using stream_consume [OF w' km, of L ?br] czm cm src by simp
    moreover have "findCurrentRun br = (?br', \<lparr>sbr_Pos = (if sr_reversed br then L - (c + z) else c + z), sbr_Length = k\<rparr>)"
      using True cz rem ck src cm by (simp add: findCurrentRun_def Let_def sr_position_def src_def)
    ultimately show ?thesis using k0 km zm by simp
  qed
qed

lemma load_next_stream:
  assumes st: "stream L q c br" and m: "sr_curNumBits br = 0"
  shows "if c = L then load_next br = Some None
    else \<exists>br'. load_next br = Some (Some br') \<and> stream L q c br' \<and> sr_reversed br' = sr_reversed br \<and> 0 < sr_curNumBits br'"
proof -
  have rem: "sr_remaining br = L - c" "c \<le> L" and src: "src L q c br" using st m by (simp_all add: stream_def)
  consider "c = L" | "c < L" "L - c < 64" | "c + 64 \<le> L" using rem(2) by linarith
  then show ?thesis
  proof cases
    case 1
    then show ?thesis using rem by (simp add: load_next_def)
  next
    case 2
    from loadPartial_src [OF src 2] obtain pos w where
      w: "loadPartial br 0 (L - c) = Some (br\<lparr>sr_pos := pos\<rparr>, w)" "word_at (sr_reversed br) q c (L - c) w"
        "src L q L (br\<lparr>sr_pos := pos\<rparr>)" by blast
    then have "stream L q c (br\<lparr>sr_pos := pos, sr_curWord := w, sr_curNumBits := L - c\<rparr>)" using 2 rem by (simp add: stream_def)
    then show ?thesis using 2 rem w(1) by (simp add: load_next_def)
  next
    case 3
    from loadFull_src [OF src 3] obtain pos w where
      w: "loadFull br = Some (br\<lparr>sr_pos := pos\<rparr>, w)" "word_at (sr_reversed br) q c 64 w" "src L q (c + 64) (br\<lparr>sr_pos := pos\<rparr>)"
      by blast
    then have "stream L q c (br\<lparr>sr_pos := pos, sr_curWord := w, sr_curNumBits := 64\<rparr>)" using 3 rem by (simp add: stream_def)
    then show ?thesis using 3 rem w(1) by (simp add: load_next_def)
  qed
qed

lemma finish_run_stream:
  assumes "stream L q c br" "0 < sr_curNumBits br"
  defines "k \<equiv> run_from q c L True"
  shows "\<exists>br'. finish_run br pos n = Some (br', \<lparr>sbr_Pos = if sr_reversed br then pos - (n + k) else pos, sbr_Length = n + k\<rparr>) \<and>
    stream L q (c + k) br' \<and> sr_reversed br' = sr_reversed br"
  using countNextOnes_stream [OF assms(1,2)] by (auto simp: finish_run_def adjustRun_def k_def)

lemma firstBit_stream:
  assumes "stream L q c br" "0 < sr_curNumBits br"
  shows "sr_curWord br AND sr_firstBit br = 0 \<longleftrightarrow> \<not> q c"
proof -
  let ?b = "if sr_reversed br then 63 else 0 :: nat"
  have "sr_firstBit br = 2 ^ ?b" using assms(1) by (simp add: stream_def src_def)
  then have "sr_curWord br AND sr_firstBit br = 0 \<longleftrightarrow> \<not> wbit (sr_reversed br) (sr_curWord br) 0"
    by (simp only: and_exp_eq_0) (simp add: and_exp_eq_0 wbit_def)
  then show ?thesis using assms by (simp add: stream_def word_at_def)
qed

section \<open>The runs\<close>

text \<open>The next run of set bits after \<open>c\<close> bits of a sequence, as the reader reports it: its leftmost position.\<close>

definition next_set_run :: "bool \<Rightarrow> nat \<Rightarrow> (nat \<Rightarrow> bool) \<Rightarrow> nat \<Rightarrow> SetBitRun" where
  "next_set_run R L q c =
     (let z = run_from q c L False; k = run_from q (c + z) L True
      in if k = 0 then \<lparr>sbr_Pos = 0, sbr_Length = 0\<rparr>
         else \<lparr>sbr_Pos = if R then L - (c + z) - k else c + z, sbr_Length = k\<rparr>)"

definition after_set_run :: "nat \<Rightarrow> (nat \<Rightarrow> bool) \<Rightarrow> nat \<Rightarrow> nat" where
  "after_set_run L q c = (let z = run_from q c L False in c + z + run_from q (c + z) L True)"

lemma skip_branch_stream:
  assumes st: "stream L q c br" and m: "sr_curNumBits br = 0"
  shows "\<exists>br'. do { br \<leftarrow> skipNextZeros br;
      if sr_remaining br = 0 then Some (br, \<lparr>sbr_Pos = 0, sbr_Length = 0\<rparr>) else finish_run br (sr_position br) 0 } =
      Some (br', next_set_run (sr_reversed br) L q c) \<and>
    stream L q (after_set_run L q c) br' \<and> sr_reversed br' = sr_reversed br"
proof -
  let ?z = "run_from q c L False"
  from skipNextZeros_stream [OF st m] obtain br1 where br1: "skipNextZeros br = Some br1" "stream L q (c + ?z) br1"
    "sr_reversed br1 = sr_reversed br" "c + ?z < L \<longrightarrow> 0 < sr_curNumBits br1" by blast
  have rem: "sr_remaining br1 = L - (c + ?z)" "c + ?z \<le> L" "sr_length br1 = L" using br1(2) by (auto simp: stream_def src_def)
  show ?thesis
  proof (cases "c + ?z = L")
    case True
    then have "run_from q (c + ?z) L True = 0" by (simp add: run_from_def)
    with True br1 rem show ?thesis by (simp add: next_set_run_def after_set_run_def Let_def)
  next
    case False
    have "q (c + ?z)" using run_from_end [of c q L False] False rem(2) by simp
    then have k: "0 < run_from q (c + ?z) L True" using False rem(2) by (simp add: run_from_unfold [of q "c + ?z"])
    have "0 < sr_curNumBits br1" using br1(4) False rem(2) by simp
    from finish_run_stream [OF br1(2) this, of "sr_position br1" 0] show ?thesis
      using br1 rem False k by (auto simp: next_set_run_def after_set_run_def Let_def sr_position_def)
  qed
qed

lemma next_set_run_word:
  fixes q :: "nat \<Rightarrow> bool"
  assumes "c + m \<le> L"
  defines "z \<equiv> run_from q c (c + m) False"
  defines "k \<equiv> run_from q (c + z) (c + m) True"
  shows "z < m \<Longrightarrow> run_from q c L False = z"
    "z < m \<Longrightarrow> run_from q (c + z) L True = (if z + k < m then k else k + run_from q (c + m) L True)"
    "z = m \<Longrightarrow> run_from q c L False = m + run_from q (c + m) L False"
proof -
  show "z < m \<Longrightarrow> run_from q c L False = z" using run_from_split [OF assms(1), of q False] by (simp add: z_def)
  show "z = m \<Longrightarrow> run_from q c L False = m + run_from q (c + m) L False"
    using run_from_split [OF assms(1), of q False] by (simp add: z_def)
  assume zm: "z < m"
  have e: "c + z + (m - z) = c + m" using zm by simp
  have k: "run_from q (c + z) (c + z + (m - z)) True = k" by (simp only: e k_def)
  have "k \<le> m - z" using run_from_le_word [of q "c + z" "m - z" True] by (simp only: k)
  moreover have "run_from q (c + z) L True = (if k < m - z then k else m - z + run_from q (c + m) L True)"
    using run_from_split [of "c + z" "m - z" L q True] assms(1) by (simp only: k_def e)
  ultimately show "run_from q (c + z) L True = (if z + k < m then k else k + run_from q (c + m) L True)" using zm by auto
qed

lemma NextRun_stream:
  assumes st: "stream L q c br"
  shows "\<exists>br'. SetBitRunReader_NextRun br = Some (br', next_set_run (sr_reversed br) L q c) \<and>
    stream L q (after_set_run L q c) br' \<and> sr_reversed br' = sr_reversed br"
proof (cases "sr_curNumBits br = 0")
  case True
  then show ?thesis using skip_branch_stream [OF st] by (simp add: SetBitRunReader_NextRun_def)
next
  case m: False
  let ?m = "sr_curNumBits br" and ?R = "sr_reversed br"
  define z k where "z = run_from q c (c + ?m) False" and "k = run_from q (c + z) (c + ?m) True"
  have cm: "c + ?m \<le> L" using st by (simp add: stream_def)
  note words = next_set_run_word [OF cm, of q, folded z_def, folded k_def]
  from findCurrentRun_stream [OF st] m obtain br1 run where
    f: "findCurrentRun br = (br1, run)" "stream L q (c + z + k) br1" "sr_reversed br1 = ?R"
      "sr_curNumBits br1 = ?m - z - k" "sbr_Length run = k" "z < ?m \<longrightarrow> 0 < k \<and> sbr_Pos run = (if ?R then L - (c + z) else c + z)"
      "z + k \<le> ?m" unfolding z_def k_def by blast
  consider "z = ?m" "k = 0" | "z < ?m" "z + k < ?m" "0 < k" | "z < ?m" "z + k = ?m" "0 < k" using f(6,7) by fastforce
  then show ?thesis
  proof cases
    case 1
    then have "stream L q (c + ?m) br1" "sr_curNumBits br1 = 0" using f(2,4) by simp_all
    note skip = skip_branch_stream [OF this]
    have "next_set_run ?R L q c = next_set_run ?R L q (c + ?m)" "after_set_run L q c = after_set_run L q (c + ?m)"
      unfolding next_set_run_def after_set_run_def Let_def words(3) [OF 1(1)] by (simp_all add: add.assoc)
    with skip 1 f(1,3,5) m show ?thesis by (simp add: SetBitRunReader_NextRun_def)
  next
    case 2
    then have "next_set_run ?R L q c = adjustRun br1 run" "after_set_run L q c = c + z + k"
      unfolding next_set_run_def after_set_run_def Let_def words(1) [OF 2(1)] words(2) [OF 2(1)]
      using 2 f(3,5,6) by (simp_all add: adjustRun_def)
    then show ?thesis using f 2 m by (simp add: SetBitRunReader_NextRun_def)
  next
    case 3
    let ?r = "run_from q (c + ?m) L True"
    have e: "c + z + k = c + ?m" using 3 by simp
    have zr: "run_from q c L False = z" and kr: "run_from q (c + z) L True = k + ?r" using words(1,2) 3 by simp_all
    have nr: "next_set_run ?R L q c = \<lparr>sbr_Pos = if ?R then L - (c + z) - (k + ?r) else c + z, sbr_Length = k + ?r\<rparr>"
      "after_set_run L q c = c + ?m + ?r"
      unfolding next_set_run_def after_set_run_def Let_def zr kr using 3(3) e by simp_all
    have step: "SetBitRunReader_NextRun br = do { nxt \<leftarrow> load_next br1;
        case nxt of None \<Rightarrow> Some (br1, adjustRun br1 run)
        | Some br \<Rightarrow> if sr_curWord br AND sr_firstBit br = 0 then Some (br, adjustRun br run)
                     else finish_run br (sbr_Pos run) (sbr_Length run) }"
      using f 3 m by (simp add: SetBitRunReader_NextRun_def)
    have m1: "sr_curNumBits br1 = 0" and st1: "stream L q (c + ?m) br1" using f(2,4) 3 e by simp_all
    have adj: "adjustRun b run = \<lparr>sbr_Pos = if ?R then L - (c + z) - k else c + z, sbr_Length = k\<rparr>" if "sr_reversed b = ?R" for b
      using that f(5,6) 3 by (simp add: adjustRun_def)
    show ?thesis
    proof (cases "c + ?m = L")
      case True
      then have "?r = 0" by (simp add: run_from_def)
      then show ?thesis using load_next_stream [OF st1 m1] True step nr adj [OF f(3)] st1 f(3) by simp
    next
      case False
      with load_next_stream [OF st1 m1] obtain br2 where
        br2: "load_next br1 = Some (Some br2)" "stream L q (c + ?m) br2" "sr_reversed br2 = ?R" "0 < sr_curNumBits br2"
        using f(3) by auto
      show ?thesis
      proof (cases "q (c + ?m)")
        case True
        with finish_run_stream [OF br2(2,4), of "sbr_Pos run" k] firstBit_stream [OF br2(2,4)] step nr br2 f(5,6) 3
        show ?thesis by auto
      next
        case q: False
        then have "?r = 0" by (simp add: run_from_unfold [of q "c + ?m"])
        then show ?thesis using firstBit_stream [OF br2(2,4)] step nr br2 adj [OF br2(3)] q by simp
      qed
    qed
  qed
qed

text \<open>The bits of a range in reading order.\<close>

definition reading_order :: "bool \<Rightarrow> byte list \<Rightarrow> nat \<Rightarrow> nat \<Rightarrow> nat \<Rightarrow> bool" where
  "reading_order R bs off n j = bm_bit bs (if R then off + (n - 1 - j) else off + j)"

lemma Reset_forward:
  assumes fit: "off + n \<le> 8 * length bs" and R: "\<not> sr_reversed br"
  shows "\<exists>br'. SetBitRunReader_Reset br bs off n = Some br' \<and> stream n (reading_order False bs off n) 0 br' \<and> \<not> sr_reversed br'"
proof -
  let ?s = "off mod 8" and ?q = "off div 8" and ?p = "reading_order False bs off n"
  have off: "8 * ?q + ?s = off" by simp
  have src: "src n ?p d b" if "sr_bitmap b = bs" "sr_length b = n" "d \<le> n" "sr_firstBit b = 1" "\<not> sr_reversed b"
      "d < n \<longrightarrow> 8 * sr_pos b = off + d" for b d
    using that fit unfolding src_def reading_order_def by auto
  show ?thesis
  proof (cases "n > 0 \<and> ?s \<noteq> 0")
    case False
    then have eq: "n = 0 \<or> 8 * ?q = off" using off by auto
    let ?br = "br\<lparr>sr_bitmap := bs, sr_length := n, sr_remaining := n, sr_curNumBits := 0, sr_curWord := 0,
      sr_pos := ?q, sr_firstBit := 1\<rparr>"
    have "src n ?p 0 ?br" by (rule src) (use R eq in auto)
    then show ?thesis using False R by (auto simp: SetBitRunReader_Reset_def Let_def stream_def)
  next
    case True
    define m where "m = min n (8 - ?s)"
    have s8: "?s < 8" by simp
    then have m: "0 < m" "m \<le> n" "?s + m \<le> 8" "m \<le> 8" using True by (auto simp: m_def)
    then have b1: "BytesForBits m = 1" by (simp add: BytesForBits_eq)
    define br1 where "br1 = br\<lparr>sr_bitmap := bs, sr_length := n, sr_remaining := n, sr_curWord := 0,
      sr_pos := ?q, sr_firstBit := 1, sr_curNumBits := m\<rparr>"
    have "8 * ?q + m \<le> 8 * length bs" using off fit m(2) by linarith
    with loadPartial_forward [of br1 ?s m] R m b1 obtain w where
      w: "loadPartial br1 ?s m = Some (br1\<lparr>sr_pos := ?q + 1\<rparr>, w)"
        "\<forall>i<64. wbit False w i \<longleftrightarrow> i < m \<and> bm_bit bs (8 * ?q + ?s + i)" by (auto simp: br1_def)
    have "word_at False ?p 0 m w" using w(2) m by (auto simp: word_at_def reading_order_def off)
    moreover have "8 * (?q + 1) = off + m" if "m < n"
    proof -
      have "m = 8 - ?s" using that by (simp add: m_def)
      moreover have "8 * (x + 1) = off + (8 - y)" if "8 * x + y = off" "y < 8" for x y using that by simp
      ultimately show ?thesis using off s8 by blast
    qed
    ultimately have "stream n ?p 0 (br1\<lparr>sr_pos := ?q + 1, sr_curWord := w\<rparr>)"
      using R m by (auto simp: stream_def br1_def intro!: src)
    moreover have "SetBitRunReader_Reset br bs off n = Some (br1\<lparr>sr_pos := ?q + 1, sr_curWord := w\<rparr>)"
      using True R w(1) by (simp add: SetBitRunReader_Reset_def Let_def utils_Min_min br1_def flip: m_def)
    ultimately show ?thesis using R by (auto simp: br1_def)
  qed
qed

lemma Reset_reverse:
  assumes fit: "off + n \<le> 8 * length bs" and R: "sr_reversed br"
  shows "\<exists>br'. SetBitRunReader_Reset br bs off n = Some br' \<and> stream n (reading_order True bs off n) 0 br' \<and> sr_reversed br'"
proof -
  let ?s = "(off + n) mod 8" and ?q = "(off + n) div 8" and ?p = "reading_order True bs off n"
  have off: "8 * ?q + ?s = off + n" by simp
  have src: "src n ?p d b" if "sr_bitmap b = bs" "sr_length b = n" "d \<le> n" "sr_firstBit b = 0x8000000000000000" "sr_reversed b"
      "d < n \<longrightarrow> 8 * sr_pos b = off + (n - d)" for b d
    using that fit unfolding src_def reading_order_def by auto
  show ?thesis
  proof (cases "n > 0 \<and> ?s \<noteq> 0")
    case False
    then have eq: "n = 0 \<or> 8 * ?q = off + n" using off by auto
    let ?br = "br\<lparr>sr_bitmap := bs, sr_length := n, sr_remaining := n, sr_curNumBits := 0, sr_curWord := 0,
      sr_pos := ?q, sr_firstBit := 0x8000000000000000\<rparr>"
    have "src n ?p 0 ?br" by (rule src) (use R eq in auto)
    then show ?thesis using False R by (auto simp: SetBitRunReader_Reset_def Let_def stream_def)
  next
    case True
    define m where "m = min n ?s"
    have s8: "?s < 8" by simp
    then have m: "0 < m" "m \<le> n" "m \<le> ?s" "m < 8" using True by (auto simp: m_def)
    then have b1: "BytesForBits m = 1" by (simp add: BytesForBits_eq)
    define br1 where "br1 = br\<lparr>sr_bitmap := bs, sr_length := n, sr_remaining := n, sr_curWord := 0,
      sr_firstBit := 0x8000000000000000, sr_pos := ?q + 1, sr_curNumBits := m\<rparr>"
    have "?q + 1 \<le> length bs" using off fit True by linarith
    moreover have "8 - ?s + m \<le> 8 * BytesForBits m" using m(3) s8 b1 by linarith
    ultimately obtain w where
      w: "loadPartial br1 (8 - ?s) m = Some (br1\<lparr>sr_pos := ?q\<rparr>, w)"
        "\<forall>i<64. wbit True w i \<longleftrightarrow> i < m \<and> bm_bit bs (8 * (?q + 1) - 1 - (8 - ?s) - i)"
      using loadPartial_reverse [of br1 "8 - ?s" m] R m(4) b1 by (auto simp: br1_def)
    have "8 * (?q + 1) - 1 - (8 - ?s) - i = off + (n - 1 - i)" if "i < m" for i
    proof -
      have "8 * (x + 1) - 1 - (8 - y) - i = off + (n - 1 - i)" if "8 * x + y = off + n" "y < 8" "i < y" "i < n" for x y using that by simp
      with off s8 that m(2,3) show ?thesis by simp
    qed
    then have "word_at True ?p 0 m w" using w(2) m by (auto simp: word_at_def reading_order_def)
    moreover have "8 * ?q = off + (n - m)" if "m < n"
    proof -
      have "m = ?s" using that by (simp add: m_def)
      then show ?thesis using off that by linarith
    qed
    ultimately have "stream n ?p 0 (br1\<lparr>sr_pos := ?q, sr_curWord := w\<rparr>)"
      using R m by (auto simp: stream_def br1_def intro!: src)
    moreover have "SetBitRunReader_Reset br bs off n = Some (br1\<lparr>sr_pos := ?q, sr_curWord := w\<rparr>)"
      using True R w(1) by (simp add: SetBitRunReader_Reset_def Let_def utils_Min_min br1_def flip: m_def)
    ultimately show ?thesis using R by (auto simp: br1_def)
  qed
qed

lemma Reset_stream:
  assumes "off + n \<le> 8 * length bs"
  shows "\<exists>br'. SetBitRunReader_Reset br bs off n = Some br' \<and> stream n (reading_order (sr_reversed br) bs off n) 0 br' \<and>
    sr_reversed br' = sr_reversed br"
  using Reset_forward [OF assms, of br] Reset_reverse [OF assms, of br] by (cases "sr_reversed br") auto

section \<open>The contract of a reader of set bit runs\<close>

text \<open>The calls of a visitor on a list of runs, up to the first error.\<close>

fun visit_runs :: "'s VisitFn \<Rightarrow> SetBitRun list \<Rightarrow> 's \<Rightarrow> ('s \<times> goerr option) option" where
  "visit_runs f [] s = Some (s, None)"
| "visit_runs f (run # runs) s =
     (case f (sbr_Pos run) (sbr_Length run) s of
        None \<Rightarrow> None
      | Some (s', Some e) \<Rightarrow> Some (s', Some e)
      | Some (s', None) \<Rightarrow> visit_runs f runs s')"

text \<open>\<open>view runs r\<close>: the reader has these runs to deliver, none of them empty; then it delivers an empty one.\<close>

locale set_bit_runs =
  fixes next_run :: "'r \<Rightarrow> ('r \<times> SetBitRun) option"
    and view :: "SetBitRun list \<Rightarrow> 'r \<Rightarrow> bool"
  assumes next_run: "view (run # runs) r \<Longrightarrow> 0 < sbr_Length run \<and> (\<exists>r'. next_run r = Some (r', run) \<and> view runs r')"
    and at_end: "view [] r \<Longrightarrow> \<exists>r'. next_run r = Some (r', \<lparr>sbr_Pos = 0, sbr_Length = 0\<rparr>) \<and> view [] r'"
begin

lemma visit_runs_loop_eq:
  "view runs r \<Longrightarrow> map_option snd (visit_runs_loop next_run f r s) = visit_runs f runs s"
proof (induction runs arbitrary: r s)
  case Nil
  from at_end [OF this] show ?case by (subst visit_runs_loop.simps) auto
next
  case (Cons run runs)
  from next_run [OF Cons.prems] obtain r' where "0 < sbr_Length run" "next_run r = Some (r', run)" "view runs r'" by blast
  with Cons.IH [of r'] show ?case
    by (subst visit_runs_loop.simps) (auto split: Option.bind_splits option.splits)
qed

end

text \<open>The runs after \<open>c\<close> bits in reading order, as pairs of the start in that order and the length.\<close>

function stream_runs :: "nat \<Rightarrow> (nat \<Rightarrow> bool) \<Rightarrow> nat \<Rightarrow> (nat \<times> nat) list" where
  "stream_runs L q c =
     (let z = run_from q c L False; k = run_from q (c + z) L True
      in if k = 0 then [] else (c + z, k) # stream_runs L q (c + z + k))"
  by pat_completeness auto
termination
proof (relation "measure (\<lambda>(L, q, c). L - c)", simp)
  fix L q c z k assume "z = run_from q c L False" "k = run_from q (c + z) L True" "k \<noteq> 0"
  then show "((L, q, c + z + k), L, q, c) \<in> measure (\<lambda>(L, q, c). L - c)"
    using run_from_le [of q "c + z" L True] by auto
qed

declare stream_runs.simps [simp del]

text \<open>The run a reader reports for such a pair.\<close>

definition report_run :: "bool \<Rightarrow> nat \<Rightarrow> nat \<times> nat \<Rightarrow> SetBitRun" where
  "report_run R L = (\<lambda>(a, k). \<lparr>sbr_Pos = if R then L - a - k else a, sbr_Length = k\<rparr>)"

definition runs_view :: "bool \<Rightarrow> SetBitRun list \<Rightarrow> baseSetBitRunReader \<Rightarrow> bool" where
  "runs_view R runs br \<longleftrightarrow> sr_reversed br = R \<and> (\<exists>L q c. stream L q c br \<and> runs = map (report_run R L) (stream_runs L q c))"

lemma run_from_again: "run_from q (c + run_from q c L v) L v = 0"
  using run_from_end [of c q L v] by (subst run_from_unfold) simp

lemma runs_view_set_bit_runs: "set_bit_runs SetBitRunReader_NextRun (runs_view R)"
proof
  fix run runs r assume "runs_view R (run # runs) r"
  then obtain L q c where r: "sr_reversed r = R" "stream L q c r" "run # runs = map (report_run R L) (stream_runs L q c)"
    by (auto simp: runs_view_def)
  let ?z = "run_from q c L False" and ?k = "run_from q (c + run_from q c L False) L True"
  have k: "?k \<noteq> 0" using r(3) by (subst (asm) stream_runs.simps) (auto simp: Let_def split: if_splits)
  then have s: "stream_runs L q c = (c + ?z, ?k) # stream_runs L q (after_set_run L q c)"
    by (subst stream_runs.simps) (simp add: Let_def after_set_run_def)
  with r(3) have runs: "run = report_run R L (c + ?z, ?k)" "runs = map (report_run R L) (stream_runs L q (after_set_run L q c))"
    by simp_all
  have nr: "next_set_run R L q c = report_run R L (c + ?z, ?k)" using k by (simp add: next_set_run_def report_run_def Let_def)
  from NextRun_stream [OF r(2)] r(1) obtain r' where r': "SetBitRunReader_NextRun r = Some (r', run)"
    "stream L q (after_set_run L q c) r'" "sr_reversed r' = R" unfolding runs(1) nr [symmetric] by blast
  then have "runs_view R runs r'" unfolding runs_view_def runs(2) by blast
  with r'(1) k show "0 < sbr_Length run \<and> (\<exists>r'. SetBitRunReader_NextRun r = Some (r', run) \<and> runs_view R runs r')"
    by (auto simp: runs(1) report_run_def)
next
  fix r assume "runs_view R [] r"
  then obtain L q c where r: "sr_reversed r = R" "stream L q c r" "stream_runs L q c = []" by (auto simp: runs_view_def)
  let ?z = "run_from q c L False" and ?k = "run_from q (c + run_from q c L False) L True"
  have k: "?k = 0" using r(3) by (subst (asm) stream_runs.simps) (auto simp: Let_def split: if_splits)
  then have a: "after_set_run L q c = c + ?z" "next_set_run R L q c = \<lparr>sbr_Pos = 0, sbr_Length = 0\<rparr>"
    by (simp_all add: after_set_run_def next_set_run_def)
  have "stream_runs L q (c + ?z) = []" by (subst stream_runs.simps) (simp add: run_from_again k)
  then show "\<exists>r'. SetBitRunReader_NextRun r = Some (r', \<lparr>sbr_Pos = 0, sbr_Length = 0\<rparr>) \<and> runs_view R [] r'"
    using NextRun_stream [OF r(2)] r(1) a unfolding runs_view_def by (metis list.simps(8))
qed

interpretation forward: set_bit_runs SetBitRunReader_NextRun "runs_view False"
  by (rule runs_view_set_bit_runs)

interpretation backward: set_bit_runs SetBitRunReader_NextRun "runs_view True"
  by (rule runs_view_set_bit_runs)

section \<open>The runs of a bitmap\<close>

text \<open>What the runs of set bits of a sequence are: not empty, apart from each other, in order, and exactly
  the set bits.\<close>

definition in_run :: "SetBitRun \<Rightarrow> nat \<Rightarrow> bool" where
  "in_run run i \<longleftrightarrow> sbr_Pos run \<le> i \<and> i < sbr_Pos run + sbr_Length run"

definition are_set_runs :: "(nat \<Rightarrow> bool) \<Rightarrow> nat \<Rightarrow> SetBitRun list \<Rightarrow> bool" where
  "are_set_runs p n runs \<longleftrightarrow>
     sorted_wrt (\<lambda>a b. sbr_Pos a + sbr_Length a < sbr_Pos b) runs \<and>
     list_all (\<lambda>run. 0 < sbr_Length run \<and> sbr_Pos run + sbr_Length run \<le> n) runs \<and>
     (\<forall>i<n. p i \<longleftrightarrow> list_ex (\<lambda>run. in_run run i) runs)"

lemma stream_runs_ok:
  "sorted_wrt (\<lambda>x y. fst x + snd x < fst y) (stream_runs L q c) \<and>
   (\<forall>(a, k)\<in>set (stream_runs L q c). c + run_from q c L False \<le> a \<and> 0 < k \<and> a + k \<le> L) \<and>
   (\<forall>i. c \<le> i \<and> i < L \<longrightarrow> q i = (\<exists>(a, k)\<in>set (stream_runs L q c). a \<le> i \<and> i < a + k))"
proof (induction L q c rule: stream_runs.induct)
  case (1 L q c)
  define z where "z = run_from q c L False"
  define k where "k = run_from q (c + z) L True"
  have zeros: "\<not> q i" if "c \<le> i" "i < c + z" for i using run_from_bit [of c i q L False] that by (simp add: z_def)
  show ?case
  proof (cases "k = 0")
    case True
    then have e: "stream_runs L q c = []" by (subst stream_runs.simps) (simp flip: z_def k_def)
    have "L \<le> c + z"
    proof (rule ccontr)
      assume "\<not> L \<le> c + z"
      then have "q (c + z)" using run_from_end [of c q L False] by (simp flip: z_def)
      then show False using True \<open>\<not> L \<le> c + z\<close> unfolding k_def by (subst (asm) run_from_unfold) simp
    qed
    then show ?thesis using zeros by (simp add: e)
  next
    case False
    let ?c = "c + z + k" and ?rs = "stream_runs L q (c + z + k)"
    have e: "stream_runs L q c = (c + z, k) # ?rs" using False by (subst stream_runs.simps) (simp flip: z_def k_def)
    have IH: "sorted_wrt (\<lambda>x y. fst x + snd x < fst y) ?rs" "\<forall>(a, k)\<in>set ?rs. ?c + run_from q ?c L False \<le> a \<and> 0 < k \<and> a + k \<le> L"
      "\<forall>i. ?c \<le> i \<and> i < L \<longrightarrow> q i = (\<exists>(a, k)\<in>set ?rs. a \<le> i \<and> i < a + k)"
      using "1.IH" [OF z_def k_def False] by blast+
    have ones: "q i" if "c + z \<le> i" "i < ?c" for i using run_from_bit [of "c + z" i q L True] that by (simp add: k_def)
    have kL: "?c \<le> L" using run_from_le [of q "c + z" L True] False by (simp add: k_def)
    have gap: "?c < a \<and> 0 < l \<and> a + l \<le> L" if "(a, l) \<in> set ?rs" for a l
    proof -
      have al: "?c + run_from q ?c L False \<le> a" "0 < l" "a + l \<le> L" using IH(2) that by auto
      then have "?c < L" by simp
      then have "\<not> q ?c" using run_from_end [of "c + z" q L True] by (simp flip: k_def)
      then have "0 < run_from q ?c L False" using \<open>?c < L\<close> by (subst run_from_unfold) simp
      with al show ?thesis by simp
    qed
    have cover: "q i = (\<exists>(a, l)\<in>set (stream_runs L q c). a \<le> i \<and> i < a + l)" if i: "c \<le> i" "i < L" for i
    proof -
      consider "i < c + z" | "c + z \<le> i" "i < ?c" | "?c \<le> i" by linarith
      then show ?thesis
      proof cases
        case 1
        then show ?thesis using zeros [OF i(1)] gap unfolding e by fastforce
      next
        case 2
        then show ?thesis using ones [OF 2] unfolding e by auto
      next
        case 3
        then show ?thesis using IH(3) i(2) unfolding e by auto
      qed
    qed
    have "sorted_wrt (\<lambda>x y. fst x + snd x < fst y) (stream_runs L q c)" unfolding e using IH(1) gap by auto
    moreover have "\<forall>(a, l)\<in>set (stream_runs L q c). c + z \<le> a \<and> 0 < l \<and> a + l \<le> L" unfolding e using gap False kL by fastforce
    ultimately show ?thesis using cover by (simp flip: z_def)
  qed
qed

lemma forward_runs: "are_set_runs q L (map (report_run False L) (stream_runs L q 0))"
  using stream_runs_ok [of L q 0]
  by (auto simp: are_set_runs_def sorted_wrt_map report_run_def in_run_def list_all_iff list_ex_iff case_prod_beta)

lemma backward_runs: "are_set_runs (\<lambda>i. q (L - 1 - i)) L (rev (map (report_run True L) (stream_runs L q 0)))"
proof -
  let ?rs = "stream_runs L q 0"
  have ok: "sorted_wrt (\<lambda>x y. fst x + snd x < fst y) ?rs" "\<And>a k. (a, k) \<in> set ?rs \<Longrightarrow> 0 < k \<and> a + k \<le> L"
    "\<And>i. i < L \<Longrightarrow> q i = (\<exists>(a, k)\<in>set ?rs. a \<le> i \<and> i < a + k)" using stream_runs_ok [of L q 0] by auto
  have "sorted_wrt (\<lambda>a b. sbr_Pos b + sbr_Length b < sbr_Pos a) (map (report_run True L) ?rs)"
    unfolding sorted_wrt_map
  proof (rule sorted_wrt_mono_rel [OF _ ok(1)])
    fix x y assume "x \<in> set ?rs" "y \<in> set ?rs" "fst x + snd x < fst y"
    then show "sbr_Pos (report_run True L y) + sbr_Length (report_run True L y) < sbr_Pos (report_run True L x)"
      using ok(2) [of "fst x" "snd x"] ok(2) [of "fst y" "snd y"] by (auto simp: report_run_def split: prod.splits)
  qed
  moreover have "in_run (report_run True L (a, k)) i \<longleftrightarrow> a \<le> L - 1 - i \<and> L - 1 - i < a + k" if "(a, k) \<in> set ?rs" "i < L" for a k i
    using ok(2) [OF that(1)] that(2) by (auto simp: report_run_def in_run_def)
  ultimately show ?thesis
    using ok(2,3) by (auto simp: are_set_runs_def sorted_wrt_rev report_run_def list_all_iff list_ex_iff case_prod_beta)
qed

text \<open>A bitmap has only one such list of runs.\<close>

lemma set_runs_from_unique:
  assumes "sorted_wrt (\<lambda>a b. sbr_Pos a + sbr_Length a < sbr_Pos b) runs"
    "\<And>run. run \<in> set runs \<Longrightarrow> lo \<le> sbr_Pos run \<and> 0 < sbr_Length run \<and> sbr_Pos run + sbr_Length run \<le> n"
    "\<And>i. lo \<le> i \<Longrightarrow> i < n \<Longrightarrow> p i = (\<exists>run\<in>set runs. in_run run i)" "lo \<le> n"
  shows "runs = map (report_run False n) (stream_runs n p lo)"
  using assms
proof (induction runs arbitrary: lo)
  case Nil
  then have "run_from p lo n False = n - lo" by (intro run_from_eqI) auto
  then show ?case using Nil.prems(4) by (subst stream_runs.simps) (simp add: run_from_def)
next
  case (Cons run runs)
  define a k where "a = sbr_Pos run" and "k = sbr_Length run"
  have run: "lo \<le> a" "0 < k" "a + k \<le> n" using Cons.prems(2) [of run] by (auto simp: a_def k_def)
  have later: "a + k < sbr_Pos r \<and> 0 < sbr_Length r \<and> sbr_Pos r + sbr_Length r \<le> n" if "r \<in> set runs" for r
    using Cons.prems(1,2) that by (auto simp: a_def k_def)
  have p: "p i \<longleftrightarrow> a \<le> i \<and> i < a + k \<or> (\<exists>r\<in>set runs. in_run r i)" if "lo \<le> i" "i < n" for i
    using Cons.prems(3) [OF that] by (auto simp: in_run_def a_def k_def)
  have z: "run_from p lo n False = a - lo"
    by (rule run_from_eqI) (use run later p in \<open>fastforce simp: in_run_def\<close>)+
  have ones: "run_from p a n True = k"
    by (rule run_from_eqI) (use run later p in \<open>fastforce simp: in_run_def\<close>)+
  have "runs = map (report_run False n) (stream_runs n p (a + k))"
  proof (rule Cons.IH)
    fix i assume "a + k \<le> i" "i < n"
    then show "p i = (\<exists>run\<in>set runs. in_run run i)" using p run by simp
  qed (use Cons.prems(1) later run in \<open>auto simp: less_imp_le\<close>)
  moreover have "stream_runs n p lo = (a, k) # stream_runs n p (a + k)"
    using run by (subst stream_runs.simps) (simp add: z ones Let_def)
  moreover have "run = \<lparr>sbr_Pos = a, sbr_Length = k\<rparr>" by (simp add: a_def k_def)
  ultimately show ?case by (simp add: report_run_def)
qed

lemma are_set_runs_unique: "are_set_runs p n runs \<Longrightarrow> runs = map (report_run False n) (stream_runs n p 0)"
  by (rule set_runs_from_unique) (auto simp: are_set_runs_def list_all_iff list_ex_iff)

lemma Reset_runs:
  assumes "off + n \<le> 8 * length bs" "are_set_runs (\<lambda>i. bm_bit bs (off + i)) n runs"
  shows "\<exists>r. SetBitRunReader_Reset br bs off n = Some r \<and>
    runs_view (sr_reversed br) (if sr_reversed br then rev runs else runs) r"
proof -
  let ?R = "sr_reversed br" and ?p = "\<lambda>i. bm_bit bs (off + i)"
  let ?q = "reading_order ?R bs off n"
  from Reset_stream [OF assms(1), of br] obtain r where
    r: "SetBitRunReader_Reset br bs off n = Some r" "stream n ?q 0 r" "sr_reversed r = ?R" by blast
  have "map (report_run ?R n) (stream_runs n ?q 0) = (if ?R then rev runs else runs)"
  proof (cases ?R)
    case False
    then have "?q = ?p" by (simp add: fun_eq_iff reading_order_def)
    then show ?thesis using False are_set_runs_unique [OF assms(2)] by simp
  next
    case True
    have "are_set_runs ?p n (rev (map (report_run True n) (stream_runs n ?q 0)))"
      using backward_runs [of ?q n] True by (auto simp: are_set_runs_def reading_order_def)
    from are_set_runs_unique [OF this] are_set_runs_unique [OF assms(2)]
    have "rev (map (report_run True n) (stream_runs n ?q 0)) = runs" by simp
    then show ?thesis using True by auto
  qed
  then show ?thesis using r unfolding runs_view_def by metis
qed

section \<open>Properties\<close>

text \<open>C35: The visitors call the callback for the runs of set bits of the range, which are unique, in order,
  up to the first error, and end: \<^verbatim>\<open>VisitSetBitRuns\<close> and \<^verbatim>\<open>VisitSetBitRunsNoErr\<close> from the front, with one run
  for an absent bitmap, and the method of a reader, however it was used before \<^verbatim>\<open>Reset\<close>, from the front or,
  for a reverse reader, from the back.\<close>

theorem VisitSetBitRuns_visits:
  assumes "off + n \<le> 8 * length bs" "are_set_runs (\<lambda>i. bm_bit bs (off + i)) n runs"
  shows "VisitSetBitRuns (Some bs) off n f s = visit_runs f runs s \<and> VisitSetBitRuns None off n f s = f 0 n s \<and>
    VisitSetBitRunsNoErr (Some bs) off n g s = map_option fst (visit_runs (\<lambda>pos k s. map_option (\<lambda>s. (s, None)) (g pos k s)) runs s) \<and>
    (\<exists>r. SetBitRunReader_Reset br bs off n = Some r \<and>
      map_option snd (SetBitRunReader_VisitSetBitRuns f r s) = visit_runs f (if sr_reversed br then rev runs else runs) s)"
proof -
  let ?g = "\<lambda>pos k s. map_option (\<lambda>s. (s, None)) (g pos k s)"
  have fwd: "VisitSetBitRuns (Some bs) off n f s = map_option snd (visit_runs_loop SetBitRunReader_NextRun f r s)"
    if "NewSetBitRunReader bs off n = Some r" for r
    using that by (cases "visit_runs_loop SetBitRunReader_NextRun f r s") (auto simp: VisitSetBitRuns_def)
  have noerr: "VisitSetBitRunsNoErr (Some bs) off n g s = map_option fst (map_option snd (visit_runs_loop SetBitRunReader_NextRun ?g r s))"
    if "NewSetBitRunReader bs off n = Some r" for r
    using that by (cases "visit_runs_loop SetBitRunReader_NextRun ?g r s") (auto simp: VisitSetBitRunsNoErr_def)
  let ?b = "\<lparr>sr_bitmap = [], sr_pos = 0, sr_length = 0, sr_remaining = 0, sr_curWord = 0, sr_curNumBits = 0,
    sr_reversed = False, sr_firstBit = 0\<rparr>"
  from Reset_runs [OF assms, of ?b] obtain r where "NewSetBitRunReader bs off n = Some r" "runs_view False runs r"
    by (auto simp: NewSetBitRunReader_def newBaseSetBitRunReader_def)
  with fwd noerr forward.visit_runs_loop_eq [of runs r f s] forward.visit_runs_loop_eq [of runs r ?g s]
  have "VisitSetBitRuns (Some bs) off n f s = visit_runs f runs s"
    "VisitSetBitRunsNoErr (Some bs) off n g s = map_option fst (visit_runs ?g runs s)" by simp_all
  moreover from Reset_runs [OF assms, of br] obtain r where r: "SetBitRunReader_Reset br bs off n = Some r"
    "runs_view (sr_reversed br) (if sr_reversed br then rev runs else runs) r" by blast
  then have "map_option snd (SetBitRunReader_VisitSetBitRuns f r s) = visit_runs f (if sr_reversed br then rev runs else runs) s"
    unfolding SetBitRunReader_VisitSetBitRuns_def
    using forward.visit_runs_loop_eq backward.visit_runs_loop_eq by (cases "sr_reversed br") auto
  ultimately show ?thesis using r(1) by (simp add: VisitSetBitRuns_def)
qed

theorem VisitSetBitRuns_visits_witness:
  "VisitSetBitRuns (Some [0x36 :: byte]) 0 8 (\<lambda>pos n s. Some (s @ [(pos, n)], None)) [] = Some ([(1, 2), (4, 2)], None)"
proof -
  let ?runs = "[\<lparr>sbr_Pos = 1, sbr_Length = 2\<rparr>, \<lparr>sbr_Pos = 4, sbr_Length = 2\<rparr>]"
  have "list_all (\<lambda>i. bm_bit [0x36] (0 + i) = list_ex (\<lambda>run. in_run run i) ?runs) [0..<8]" by code_simp
  then have "are_set_runs (\<lambda>i. bm_bit [0x36] (0 + i)) 8 ?runs" by (auto simp: are_set_runs_def list_all_iff)
  from conjunct1 [OF VisitSetBitRuns_visits [OF _ this, where f = "\<lambda>pos n s. Some (s @ [(pos, n)], None)" and s = "[]"]] show ?thesis by simp
qed

end
