(* ===== verification/Bit_Blocks.thy ===== *)
theory Bit_Blocks
  imports Bitutil Checked_Math
begin

unbundle bit_operations_syntax

text \<open>
  \<^verbatim>\<open>internal/bitutils/bit_block_counter.go\<close>: counters that deliver a bitmap, a possibly absent
  bitmap or the combination of two bitmaps block by block, each block with its length and the number
  of its set bits, and the functions that visit every bit of a bitmap with their help. A nil slice is
  \<open>None\<close> of an option. \<^verbatim>\<open>loadWord\<close> reads eight bytes through an unsafe pointer; a read that
  leaves the slice is \<open>None\<close>, like a panic, so that a result \<open>Some\<close> also says that no memory outside
  the slices was read. The callbacks of the visitors act on a state of any type.
\<close>

section \<open>The source\<close>

definition int16 :: "nat \<Rightarrow> int" where
  "int16 n = wrap 16 (int n)"

definition loadWord :: "byte list \<Rightarrow> u64 option" where
  "loadWord byt = le_uint64 byt"

definition shiftWord :: "u64 \<Rightarrow> u64 \<Rightarrow> nat \<Rightarrow> u64" where
  "shiftWord current nxt shift =
     (if shift = 0 then current else drop_bit shift current OR push_bit (64 - shift) nxt)"

record BitBlockCount =
  blk_Len :: int
  blk_Popcnt :: int

definition NoneSet :: "BitBlockCount \<Rightarrow> bool" where
  "NoneSet b \<longleftrightarrow> blk_Popcnt b = 0"

definition AllSet :: "BitBlockCount \<Rightarrow> bool" where
  "AllSet b \<longleftrightarrow> blk_Len b = blk_Popcnt b"

record BitBlockCounter =
  bbc_bitmap :: "byte list"
  bbc_bitsRemaining :: nat
  bbc_bitOffset :: nat

definition wordBits :: nat where
  "wordBits = 64"

definition fourWordsBits :: nat where
  "fourWordsBits = wordBits * 4"

definition NewBitBlockCounter :: "byte list \<Rightarrow> nat \<Rightarrow> nat \<Rightarrow> BitBlockCounter option" where
  "NewBitBlockCounter bitmap startOffset nbits =
     do { bitmap \<leftarrow> slice_from bitmap (startOffset div 8);
          Some \<lparr>bbc_bitmap = bitmap, bbc_bitsRemaining = nbits, bbc_bitOffset = startOffset mod 8\<rparr> }"

definition getBlockSlow :: "BitBlockCounter \<Rightarrow> nat \<Rightarrow> (BitBlockCounter \<times> BitBlockCount) option" where
  "getBlockSlow b blockSize =
     (let runlen = int16 (utils_Min (bbc_bitsRemaining b) blockSize)
      in do { popcnt \<leftarrow> CountSetBits (bbc_bitmap b) (bbc_bitOffset b) (nat runlen);
              bitmap \<leftarrow> slice_from (bbc_bitmap b) (nat runlen div 8);
              Some (b\<lparr>bbc_bitmap := bitmap, bbc_bitsRemaining := bbc_bitsRemaining b - nat runlen\<rparr>,
                \<lparr>blk_Len = runlen, blk_Popcnt = int16 popcnt\<rparr>) })"

text \<open>The population count of the next four words, at an aligned position and at another.\<close>

definition four_words_popcnt :: "BitBlockCounter \<Rightarrow> nat option" where
  "four_words_popcnt b =
     (if bbc_bitOffset b = 0 then
        do { w0 \<leftarrow> loadWord (bbc_bitmap b);
             b1 \<leftarrow> slice_from (bbc_bitmap b) 8; w1 \<leftarrow> loadWord b1;
             b2 \<leftarrow> slice_from (bbc_bitmap b) 16; w2 \<leftarrow> loadWord b2;
             b3 \<leftarrow> slice_from (bbc_bitmap b) 24; w3 \<leftarrow> loadWord b3;
             Some (ones_count w0 + ones_count w1 + ones_count w2 + ones_count w3) }
      else
        do { w0 \<leftarrow> loadWord (bbc_bitmap b);
             b1 \<leftarrow> slice_from (bbc_bitmap b) 8; w1 \<leftarrow> loadWord b1;
             b2 \<leftarrow> slice_from (bbc_bitmap b) 16; w2 \<leftarrow> loadWord b2;
             b3 \<leftarrow> slice_from (bbc_bitmap b) 24; w3 \<leftarrow> loadWord b3;
             b4 \<leftarrow> slice_from (bbc_bitmap b) 32; w4 \<leftarrow> loadWord b4;
             Some (ones_count (shiftWord w0 w1 (bbc_bitOffset b)) + ones_count (shiftWord w1 w2 (bbc_bitOffset b)) +
               ones_count (shiftWord w2 w3 (bbc_bitOffset b)) + ones_count (shiftWord w3 w4 (bbc_bitOffset b))) })"

definition NextFourWords :: "BitBlockCounter \<Rightarrow> (BitBlockCounter \<times> BitBlockCount) option" where
  "NextFourWords b =
     (if bbc_bitsRemaining b = 0 then Some (b, \<lparr>blk_Len = 0, blk_Popcnt = 0\<rparr>)
      else if bbc_bitOffset b = 0 \<and> bbc_bitsRemaining b < fourWordsBits then getBlockSlow b fourWordsBits
      else if bbc_bitOffset b \<noteq> 0 \<and> bbc_bitsRemaining b < 5 * fourWordsBits - bbc_bitOffset b
      then getBlockSlow b fourWordsBits
      else do {
        totalPopcnt \<leftarrow> four_words_popcnt b;
        bitmap \<leftarrow> slice_from (bbc_bitmap b) (BytesForBits fourWordsBits);
        Some (b\<lparr>bbc_bitmap := bitmap, bbc_bitsRemaining := bbc_bitsRemaining b - fourWordsBits\<rparr>,
          \<lparr>blk_Len = 256, blk_Popcnt = int16 totalPopcnt\<rparr>) })"

definition word_popcnt :: "BitBlockCounter \<Rightarrow> nat option" where
  "word_popcnt b =
     (if bbc_bitOffset b = 0 then do { w0 \<leftarrow> loadWord (bbc_bitmap b); Some (ones_count w0) }
      else do { w0 \<leftarrow> loadWord (bbc_bitmap b); b1 \<leftarrow> slice_from (bbc_bitmap b) 8; w1 \<leftarrow> loadWord b1;
                Some (ones_count (shiftWord w0 w1 (bbc_bitOffset b))) })"

definition NextWord :: "BitBlockCounter \<Rightarrow> (BitBlockCounter \<times> BitBlockCount) option" where
  "NextWord b =
     (if bbc_bitsRemaining b = 0 then Some (b, \<lparr>blk_Len = 0, blk_Popcnt = 0\<rparr>)
      else if bbc_bitOffset b = 0 \<and> bbc_bitsRemaining b < wordBits then getBlockSlow b wordBits
      else if bbc_bitOffset b \<noteq> 0 \<and> bbc_bitsRemaining b < 2 * wordBits - bbc_bitOffset b
      then getBlockSlow b wordBits
      else do {
        popcnt \<leftarrow> word_popcnt b;
        bitmap \<leftarrow> slice_from (bbc_bitmap b) (wordBits div 8);
        Some (b\<lparr>bbc_bitmap := bitmap, bbc_bitsRemaining := bbc_bitsRemaining b - wordBits\<rparr>,
          \<lparr>blk_Len = 64, blk_Popcnt = int16 popcnt\<rparr>) })"

record OptionalBitBlockCounter =
  obc_hasBitmap :: bool
  obc_pos :: nat
  obc_len :: nat
  obc_counter :: "BitBlockCounter option"

definition NewOptionalBitBlockCounter :: "byte list option \<Rightarrow> nat \<Rightarrow> nat \<Rightarrow> OptionalBitBlockCounter option" where
  "NewOptionalBitBlockCounter bitmap offset len =
     do { counter \<leftarrow> (case bitmap of None \<Rightarrow> Some None | Some bs \<Rightarrow> map_option Some (NewBitBlockCounter bs offset len));
          Some \<lparr>obc_hasBitmap = (bitmap \<noteq> None), obc_pos = 0, obc_len = len, obc_counter = counter\<rparr> }"

text \<open>The two methods differ in the largest block they return when there is no bitmap.\<close>

definition next_optional :: "nat \<Rightarrow> OptionalBitBlockCounter \<Rightarrow> (OptionalBitBlockCounter \<times> BitBlockCount) option" where
  "next_optional blocksize obc =
     (if obc_hasBitmap obc then
        do { counter \<leftarrow> obc_counter obc;
             (counter, block) \<leftarrow> NextWord counter;
             Some (obc\<lparr>obc_counter := Some counter, obc_pos := obc_pos obc + nat (blk_Len block)\<rparr>, block) }
      else let blockSize = int16 (utils_Min blocksize (obc_len obc - obc_pos obc))
        in Some (obc\<lparr>obc_pos := obc_pos obc + nat blockSize\<rparr>, \<lparr>blk_Len = blockSize, blk_Popcnt = blockSize\<rparr>))"

definition OptionalBitBlockCounter_NextBlock ::
  "OptionalBitBlockCounter \<Rightarrow> (OptionalBitBlockCounter \<times> BitBlockCount) option" where
  "OptionalBitBlockCounter_NextBlock = next_optional 32767"

definition OptionalBitBlockCounter_NextWord ::
  "OptionalBitBlockCounter \<Rightarrow> (OptionalBitBlockCounter \<times> BitBlockCount) option" where
  "OptionalBitBlockCounter_NextWord = next_optional 64"

record bitOp =
  op_bit :: "bool \<Rightarrow> bool \<Rightarrow> bool"
  op_word :: "u64 \<Rightarrow> u64 \<Rightarrow> u64"

definition bitBlockAnd :: bitOp where
  "bitBlockAnd = \<lparr>op_bit = (\<lambda>a b. a \<and> b), op_word = (\<lambda>a b. a AND b)\<rparr>"

definition bitBlockAndNot :: bitOp where
  "bitBlockAndNot = \<lparr>op_bit = (\<lambda>a b. a \<and> \<not> b), op_word = (\<lambda>a b. a AND NOT b)\<rparr>"

definition bitBlockOr :: bitOp where
  "bitBlockOr = \<lparr>op_bit = (\<lambda>a b. a \<or> b), op_word = (\<lambda>a b. a OR b)\<rparr>"

definition bitBlockOrNot :: bitOp where
  "bitBlockOrNot = \<lparr>op_bit = (\<lambda>a b. a \<or> \<not> b), op_word = (\<lambda>a b. a OR NOT b)\<rparr>"

record BinaryBitBlockCounter =
  bin_left :: "byte list"
  bin_right :: "byte list"
  bin_bitsRemaining :: nat
  bin_leftOffset :: nat
  bin_rightOffset :: nat
  bin_bitsRequiredForWords :: nat

definition bits_required :: "nat \<Rightarrow> nat" where
  "bits_required offset = (if offset \<noteq> 0 then 64 + (64 - offset) else 64)"

definition NewBinaryBitBlockCounter ::
  "byte list \<Rightarrow> byte list \<Rightarrow> nat \<Rightarrow> nat \<Rightarrow> nat \<Rightarrow> BinaryBitBlockCounter option" where
  "NewBinaryBitBlockCounter left right leftOffset rightOffset len =
     do { l \<leftarrow> slice_from left (leftOffset div 8);
          r \<leftarrow> slice_from right (rightOffset div 8);
          let leftBitsReq = bits_required (leftOffset mod 8);
          let rightBitsReq = bits_required (rightOffset mod 8);
          Some \<lparr>bin_left = l, bin_right = r, bin_bitsRemaining = len, bin_leftOffset = leftOffset mod 8,
            bin_rightOffset = rightOffset mod 8,
            bin_bitsRequiredForWords = (if leftBitsReq > rightBitsReq then leftBitsReq else rightBitsReq)\<rparr> }"

text \<open>The loop of \<open>k\<close> more bits from bit \<open>i\<close>.\<close>

fun count_op_loop :: "bitOp \<Rightarrow> BinaryBitBlockCounter \<Rightarrow> nat \<Rightarrow> nat \<Rightarrow> nat \<Rightarrow> nat option" where
  "count_op_loop op b i 0 pc = Some pc"
| "count_op_loop op b i (Suc k) pc =
     do { l \<leftarrow> BitIsSet (bin_left b) (bin_leftOffset b + i);
          r \<leftarrow> BitIsSet (bin_right b) (bin_rightOffset b + i);
          count_op_loop op b (Suc i) k (if op_bit op l r then pc + 1 else pc) }"

definition nextWord :: "bitOp \<Rightarrow> BinaryBitBlockCounter \<Rightarrow> (BinaryBitBlockCounter \<times> BitBlockCount) option" where
  "nextWord op b =
     (if bin_bitsRemaining b = 0 then Some (b, \<lparr>blk_Len = 0, blk_Popcnt = 0\<rparr>)
      else if bin_bitsRemaining b < bin_bitsRequiredForWords b then
        let runLength = (if int16 (bin_bitsRemaining b) > int wordBits then int wordBits else int16 (bin_bitsRemaining b))
        in do { popcount \<leftarrow> count_op_loop op b 0 (nat runLength) 0;
                l \<leftarrow> slice_from (bin_left b) (nat runLength div 8);
                r \<leftarrow> slice_from (bin_right b) (nat runLength div 8);
                Some (b\<lparr>bin_left := l, bin_right := r, bin_bitsRemaining := bin_bitsRemaining b - nat runLength\<rparr>,
                  \<lparr>blk_Len = runLength, blk_Popcnt = int16 popcount\<rparr>) }
      else
        do { popcount \<leftarrow>
               (if bin_leftOffset b = 0 \<and> bin_rightOffset b = 0 then
                  do { l \<leftarrow> loadWord (bin_left b); r \<leftarrow> loadWord (bin_right b); Some (ones_count (op_word op l r)) }
                else
                  do { l0 \<leftarrow> loadWord (bin_left b); l \<leftarrow> slice_from (bin_left b) 8; l1 \<leftarrow> loadWord l;
                       r0 \<leftarrow> loadWord (bin_right b); r \<leftarrow> slice_from (bin_right b) 8; r1 \<leftarrow> loadWord r;
                       Some (ones_count (op_word op (shiftWord l0 l1 (bin_leftOffset b)) (shiftWord r0 r1 (bin_rightOffset b)))) });
             l \<leftarrow> slice_from (bin_left b) (wordBits div 8);
             r \<leftarrow> slice_from (bin_right b) (wordBits div 8);
             Some (b\<lparr>bin_left := l, bin_right := r, bin_bitsRemaining := bin_bitsRemaining b - wordBits\<rparr>,
               \<lparr>blk_Len = int wordBits, blk_Popcnt = int16 popcount\<rparr>) })"

definition NextAndWord :: "BinaryBitBlockCounter \<Rightarrow> (BinaryBitBlockCounter \<times> BitBlockCount) option" where
  "NextAndWord = nextWord bitBlockAnd"

definition NextAndNotWord :: "BinaryBitBlockCounter \<Rightarrow> (BinaryBitBlockCounter \<times> BitBlockCount) option" where
  "NextAndNotWord = nextWord bitBlockAndNot"

definition NextOrWord :: "BinaryBitBlockCounter \<Rightarrow> (BinaryBitBlockCounter \<times> BitBlockCount) option" where
  "NextOrWord = nextWord bitBlockOr"

definition NextOrNotWord :: "BinaryBitBlockCounter \<Rightarrow> (BinaryBitBlockCounter \<times> BitBlockCount) option" where
  "NextOrNotWord = nextWord bitBlockOrNot"

type_synonym 's visit_valid = "nat \<Rightarrow> 's \<Rightarrow> ('s \<times> goerr option) option"
type_synonym 's visit_invalid = "'s \<Rightarrow> ('s \<times> goerr option) option"

text \<open>One of the three inner loops of the visitors, \<open>k\<close> more bits from \<open>pos\<close>: \<open>test\<close> decides which
  callback is called, always the first in the first loop and always the second in the second loop.\<close>

fun visit_loop :: "(nat \<Rightarrow> bool option) \<Rightarrow> 's visit_valid \<Rightarrow> 's visit_invalid \<Rightarrow> nat \<Rightarrow> nat \<Rightarrow> 's \<Rightarrow> ('s \<times> goerr option) option" where
  "visit_loop test visitValid visitInvalid pos 0 s = Some (s, None)"
| "visit_loop test visitValid visitInvalid pos (Suc k) s =
     do { v \<leftarrow> test pos;
          (s, err) \<leftarrow> (if v then visitValid pos s else visitInvalid s);
          if err \<noteq> None then Some (s, err) else visit_loop test visitValid visitInvalid (pos + 1) k s }"

definition visit_block ::
  "(nat \<Rightarrow> bool option) \<Rightarrow> 's visit_valid \<Rightarrow> 's visit_invalid \<Rightarrow> nat \<Rightarrow> BitBlockCount \<Rightarrow> 's \<Rightarrow> ('s \<times> goerr option) option" where
  "visit_block test visitValid visitInvalid pos block s =
     (if AllSet block then visit_loop (\<lambda>_. Some True) visitValid visitInvalid pos (nat (blk_Len block)) s
      else if NoneSet block then visit_loop (\<lambda>_. Some False) visitValid visitInvalid pos (nat (blk_Len block)) s
      else visit_loop test visitValid visitInvalid pos (nat (blk_Len block)) s)"

text \<open>The outer loop, which has no bound of its own: it ends when the blocks add up to the length.\<close>

partial_function (option) visit_blocks ::
  "('c \<Rightarrow> ('c \<times> BitBlockCount) option) \<Rightarrow> (nat \<Rightarrow> bool option) \<Rightarrow> 's visit_valid \<Rightarrow> 's visit_invalid \<Rightarrow>
   nat \<Rightarrow> 'c \<Rightarrow> nat \<Rightarrow> 's \<Rightarrow> ('s \<times> goerr option) option" where
  "visit_blocks next_block test visitValid visitInvalid len counter pos s =
     (if pos < len then
        do { (counter, block) \<leftarrow> next_block counter;
             (s, err) \<leftarrow> visit_block test visitValid visitInvalid pos block s;
             if err \<noteq> None then Some (s, err)
             else visit_blocks next_block test visitValid visitInvalid len counter (pos + nat (blk_Len block)) s }
      else Some (s, None))"

text \<open>\<^verbatim>\<open>bitutil.BitIsSet(bitmap, ...)\<close> on a slice that may be nil.\<close>

definition test_bit :: "byte list option \<Rightarrow> nat \<Rightarrow> bool option" where
  "test_bit bitmap i = BitIsSet (case bitmap of None \<Rightarrow> [] | Some bs \<Rightarrow> bs) i"

definition VisitBitBlocksShort ::
  "byte list option \<Rightarrow> nat \<Rightarrow> nat \<Rightarrow> 's visit_valid \<Rightarrow> 's visit_invalid \<Rightarrow> 's \<Rightarrow> ('s \<times> goerr option) option" where
  "VisitBitBlocksShort bitmap offset len visitValid visitInvalid s =
     do { counter \<leftarrow> NewOptionalBitBlockCounter bitmap offset len;
          visit_blocks OptionalBitBlockCounter_NextBlock (\<lambda>pos. test_bit bitmap (offset + pos))
            visitValid visitInvalid len counter 0 s }"

text \<open>Callbacks that cannot return an error.\<close>

definition no_err :: "'s option \<Rightarrow> ('s \<times> goerr option) option" where
  "no_err r = map_option (\<lambda>s. (s, None)) r"

definition VisitBitBlocks ::
  "byte list option \<Rightarrow> nat \<Rightarrow> nat \<Rightarrow> (nat \<Rightarrow> 's \<Rightarrow> 's option) \<Rightarrow> ('s \<Rightarrow> 's option) \<Rightarrow> 's \<Rightarrow> 's option" where
  "VisitBitBlocks bitmap offset len visitValid visitInvalid s =
     do { counter \<leftarrow> NewOptionalBitBlockCounter bitmap offset len;
          (s, err) \<leftarrow> visit_blocks OptionalBitBlockCounter_NextBlock (\<lambda>pos. test_bit bitmap (offset + pos))
            (\<lambda>pos s. no_err (visitValid pos s)) (\<lambda>s. no_err (visitInvalid s)) len counter 0 s;
          Some s }"

definition VisitTwoBitBlocks ::
  "byte list option \<Rightarrow> byte list option \<Rightarrow> nat \<Rightarrow> nat \<Rightarrow> nat \<Rightarrow> (nat \<Rightarrow> 's \<Rightarrow> 's option) \<Rightarrow> ('s \<Rightarrow> 's option) \<Rightarrow> 's \<Rightarrow> 's option" where
  "VisitTwoBitBlocks leftBitmap rightBitmap leftOffset rightOffset len visitValid visitNull s =
     (case (leftBitmap, rightBitmap) of
        (None, _) \<Rightarrow> VisitBitBlocks rightBitmap rightOffset len visitValid visitNull s
      | (_, None) \<Rightarrow> VisitBitBlocks leftBitmap leftOffset len visitValid visitNull s
      | (Some left, Some right) \<Rightarrow>
          do { counter \<leftarrow> NewBinaryBitBlockCounter left right leftOffset rightOffset len;
               (s, err) \<leftarrow> visit_blocks NextAndWord
                 (\<lambda>pos. do { l \<leftarrow> BitIsSet left (leftOffset + pos);
                            if l then BitIsSet right (rightOffset + pos) else Some False })
                 (\<lambda>pos s. no_err (visitValid pos s)) (\<lambda>s. no_err (visitNull s)) len counter 0 s;
               Some s })"

section \<open>What a block counter promises\<close>

definition count_bits :: "(nat \<Rightarrow> bool) \<Rightarrow> nat \<Rightarrow> nat" where
  "count_bits p n = length (filter p [0..<n])"

lemma count_bits_0 [simp]: "count_bits p 0 = 0"
  by (simp add: count_bits_def)

lemma count_bits_le: "count_bits p n \<le> n"
  using length_filter_le [of p "[0..<n]"] by (simp add: count_bits_def)

lemma count_bits_cong: "(\<And>i. i < n \<Longrightarrow> p i = q i) \<Longrightarrow> count_bits p n = count_bits q n"
  unfolding count_bits_def by (intro arg_cong [of _ _ length] filter_cong) auto

lemma count_bits_Suc: "count_bits p (Suc n) = count_bits p n + of_bool (p n)"
  by (simp add: count_bits_def)

lemma count_bits_add: "count_bits p (m + n) = count_bits p m + count_bits (\<lambda>i. p (m + i)) n"
  by (induction n) (simp_all add: count_bits_Suc)

lemma count_bits_all: "count_bits p n = n \<longleftrightarrow> (\<forall>i<n. p i)"
proof (induction n)
  case (Suc n)
  have "count_bits p n \<le> n" by (rule count_bits_le)
  with Suc show ?case by (auto simp: count_bits_Suc less_Suc_eq)
qed simp

lemma count_bits_none: "count_bits p n = 0 \<longleftrightarrow> (\<forall>i<n. \<not> p i)"
  by (auto simp: count_bits_def filter_empty_conv)

lemma popcount_count_bits: "popcount bs off n = count_bits (\<lambda>i. bm_bit bs (off + i)) n"
  by (simp add: popcount_def count_bits_def)

lemma count_bits_mono: "m \<le> n \<Longrightarrow> count_bits p m \<le> count_bits p n"
  using count_bits_add [of p m "n - m"] by simp

lemma count_bits_const: "(\<And>i. i < k \<Longrightarrow> p (m + i) = v) \<Longrightarrow> count_bits p (m + k) = count_bits p m + (if v then k else 0)"
  using count_bits_all [of "\<lambda>i. p (m + i)" k] count_bits_none [of "\<lambda>i. p (m + i)" k] by (auto simp: count_bits_add)

lemma count_bits_less: "i < n \<Longrightarrow> p i \<Longrightarrow> count_bits p i < count_bits p n"
  using count_bits_mono [of "Suc i" n p] by (simp add: count_bits_Suc)

lemma count_bits_shift: "count_bits (\<lambda>i. p (m + i)) n = count_bits p (m + n) - count_bits p m"
  by (simp add: count_bits_add)

lemma int16_small: "n < 2 ^ 15 \<Longrightarrow> int16 n = int n"
  unfolding int16_def by (rule wrap_id) (simp add: in_range_def)

lemma visit_loop_add:
  "visit_loop t f g pos (m + n) s =
    do { (s, err) \<leftarrow> visit_loop t f g pos m s; if err \<noteq> None then Some (s, err) else visit_loop t f g (pos + m) n s }"
  by (induction m arbitrary: pos s) (auto split: Option.bind_splits)

lemma visit_loop_cong:
  "(\<And>i. pos \<le> i \<Longrightarrow> i < pos + k \<Longrightarrow> t i = t' i) \<Longrightarrow> visit_loop t f g pos k s = visit_loop t' f g pos k s"
  by (induction k arbitrary: pos s) (auto split: Option.bind_splits)

text \<open>A block visited in one of the three ways is the bits visited one by one.\<close>

lemma visit_block_eq:
  assumes "(\<forall>i<k. t (pos + i) = Some (p (pos + i))) \<or> (\<forall>i<k. p (pos + i))"
  shows "visit_block t f g pos \<lparr>blk_Len = int k, blk_Popcnt = int (count_bits (\<lambda>i. p (pos + i)) k)\<rparr> s =
    visit_loop (\<lambda>i. Some (p i)) f g pos k s"
proof -
  let ?c = "count_bits (\<lambda>i. p (pos + i)) k"
  have all: "?c = k \<longleftrightarrow> (\<forall>i. pos \<le> i \<and> i < pos + k \<longrightarrow> p i)"
    by (simp add: count_bits_all) (metis add_less_cancel_left le_add1 le_iff_add)
  have none: "?c = 0 \<longleftrightarrow> (\<forall>i. pos \<le> i \<and> i < pos + k \<longrightarrow> \<not> p i)"
    by (simp add: count_bits_none) (metis add_less_cancel_left le_add1 le_iff_add)
  have t: "t i = Some (p i)" if "?c \<noteq> k" "pos \<le> i" "i < pos + k" for i
  proof -
    have "\<forall>i<k. t (pos + i) = Some (p (pos + i))" using assms that(1) by (auto simp: count_bits_all)
    then show ?thesis using that(2,3) by (metis add_less_cancel_left le_iff_add)
  qed
  show ?thesis
    unfolding visit_block_def AllSet_def NoneSet_def
    using all none t by (auto intro!: visit_loop_cong)
qed

text \<open>\<open>view p n c\<close>: the counter \<open>c\<close> has \<open>n\<close> bits to go, the \<open>i\<close>-th of them being \<open>p i\<close>. Every call returns a
  block of the next bits with their exact count, and not an empty one before the end.\<close>

locale bit_blocks =
  fixes next_block :: "'c \<Rightarrow> ('c \<times> BitBlockCount) option"
    and view :: "(nat \<Rightarrow> bool) \<Rightarrow> nat \<Rightarrow> 'c \<Rightarrow> bool"
  assumes next_block: "view p n c \<Longrightarrow> \<exists>c' k. next_block c = Some (c', \<lparr>blk_Len = int k, blk_Popcnt = int (count_bits p k)\<rparr>) \<and>
    k \<le> n \<and> (0 < n \<longrightarrow> 0 < k) \<and> view (\<lambda>i. p (k + i)) (n - k) c'"
begin

text \<open>Whatever the blocks are, a visit that goes by them calls the callbacks for every bit, in order,
  up to the first error, and ends.\<close>

lemma visit_blocks_eq:
  assumes "view (\<lambda>i. p (pos + i)) (len - pos) c" "pos \<le> len" "(\<forall>i<len. t i = Some (p i)) \<or> (\<forall>i<len. p i)"
  shows "visit_blocks next_block t f g len c pos s = visit_loop (\<lambda>i. Some (p i)) f g pos (len - pos) s"
  using assms(1,2)
proof (induction "len - pos" arbitrary: pos c s rule: less_induct)
  case less
  show ?case
  proof (cases "pos < len")
    case False
    then show ?thesis by (simp add: visit_blocks.simps)
  next
    case True
    from next_block [OF less.prems(1)] True obtain c' k where
      c': "next_block c = Some (c', \<lparr>blk_Len = int k, blk_Popcnt = int (count_bits (\<lambda>i. p (pos + i)) k)\<rparr>)"
      and k: "k \<le> len - pos" "0 < k" and v: "view (\<lambda>i. p (pos + (k + i))) (len - pos - k) c'" by auto
    let ?v = "visit_loop (\<lambda>i. Some (p i)) f g"
    have "visit_blocks next_block t f g len c' (pos + k) s' = ?v (pos + k) (len - (pos + k)) s'" for s'
      by (rule less.hyps) (use k True v in \<open>simp_all add: ac_simps\<close>)
    moreover have "visit_block t f g pos \<lparr>blk_Len = int k, blk_Popcnt = int (count_bits (\<lambda>i. p (pos + i)) k)\<rparr> s = ?v pos k s"
      by (rule visit_block_eq) (use assms(3) k in auto)
    ultimately show ?thesis
      using visit_loop_add [of "\<lambda>i. Some (p i)" f g pos k "len - (pos + k)" s] k True c'
      by (subst visit_blocks.simps) (simp cong: if_cong)
  qed
qed

end

section \<open>The counters keep the promise\<close>

lemma bit_shiftWord:
  assumes "s < 8" "\<And>i. i < 64 \<Longrightarrow> bit w0 i = bm_bit bs (q + i)" "\<And>i. i < 64 \<Longrightarrow> bit w1 i = bm_bit bs (q + 64 + i)" "i < 64"
  shows "bit (shiftWord w0 w1 s) i = bm_bit bs (q + s + i)"
proof (cases "i + s < 64")
  case True
  then show ?thesis using assms(1,4) assms(2) [of "i + s"] by (auto simp: shiftWord_def bit_simps ac_simps)
next
  case False
  then have "bit w1 (i + s - 64) = bm_bit bs (q + 64 + (i + s - 64))" using assms(1,4) by (intro assms(3)) simp
  also have "q + 64 + (i + s - 64) = q + s + i" using False by simp
  finally show ?thesis using False assms(1,4) bit_imp_le_length [of w0 "s + i"] by (auto simp: shiftWord_def bit_simps ac_simps)
qed

lemma loadWord_drop:
  assumes "q + 8 \<le> length bs"
  shows "\<exists>w. loadWord (drop q bs) = Some w \<and> (\<forall>i<64. bit w i = bm_bit bs (8 * q + i))"
  using assms by (simp add: loadWord_def bit_le_uint64 bm_simps)

lemma ones_count_bits:
  "(\<And>i. i < 64 \<Longrightarrow> bit w i = p i) \<Longrightarrow> ones_count (w :: u64) = count_bits p 64"
  unfolding ones_count_def count_bits_def by (intro arg_cong [of _ _ length] filter_cong) auto

text \<open>The view of a \<^verbatim>\<open>BitBlockCounter\<close>: the bits of \<open>bs\<close> from \<open>off\<close>.\<close>

definition block_view :: "(nat \<Rightarrow> bool) \<Rightarrow> nat \<Rightarrow> BitBlockCounter \<Rightarrow> bool" where
  "block_view p n b \<longleftrightarrow> bbc_bitsRemaining b = n \<and>
     (0 < n \<longrightarrow> (\<exists>bs off. off + n \<le> 8 * length bs \<and> bbc_bitmap b = drop (off div 8) bs \<and>
        bbc_bitOffset b = off mod 8 \<and> p = (\<lambda>i. bm_bit bs (off + i))))"

lemma NewBitBlockCounter_view:
  assumes "off + n \<le> 8 * length bs"
  shows "\<exists>b. NewBitBlockCounter bs off n = Some b \<and> block_view (\<lambda>i. bm_bit bs (off + i)) n b"
proof -
  have "off div 8 \<le> length bs" using assms by linarith
  then show ?thesis using assms by (auto simp: NewBitBlockCounter_def block_view_def)
qed

text \<open>How the counter moves on by \<open>k\<close> bits.\<close>

lemma block_view_step:
  assumes "off + n \<le> 8 * length bs" "bbc_bitmap b = drop (off div 8) bs" "bbc_bitOffset b = off mod 8"
    "k \<le> n" "8 dvd k \<or> k = n"
  shows "block_view (\<lambda>i. bm_bit bs (off + (k + i))) (n - k)
    (b\<lparr>bbc_bitmap := drop (k div 8 + off div 8) bs, bbc_bitsRemaining := n - k\<rparr>)"
proof -
  have "(off + k) div 8 = k div 8 + off div 8" "(off + k) mod 8 = off mod 8" if "8 dvd k"
    using that by (auto simp: dvd_def)
  then show ?thesis
    using assms unfolding block_view_def by (auto intro!: exI [of _ bs] exI [of _ "off + k"] simp: ac_simps)
qed

lemma getBlockSlow_view:
  assumes "off + n \<le> 8 * length bs" "bbc_bitmap b = drop (off div 8) bs" "bbc_bitOffset b = off mod 8"
    "bbc_bitsRemaining b = n" "8 dvd m" "m < 2 ^ 15"
  shows "\<exists>b'. getBlockSlow b m = Some (b', \<lparr>blk_Len = int (min n m),
      blk_Popcnt = int (count_bits (\<lambda>i. bm_bit bs (off + i)) (min n m))\<rparr>) \<and>
    block_view (\<lambda>i. bm_bit bs (off + (min n m + i))) (n - min n m) b'"
proof -
  define k where "k = min n m"
  have k: "k \<le> n" "k < 2 ^ 15" "8 dvd k \<or> k = n" using assms(5,6) by (auto simp: k_def min_def)
  have r: "int16 (utils_Min n m) = int k" using int16_small [OF k(2)] by (simp add: utils_Min_min flip: k_def)
  have off: "8 * (off div 8) + off mod 8 = off" by simp
  have fit: "off mod 8 + k \<le> 8 * (length bs - off div 8)" using assms(1) k(1) off by linarith
  have "popcount (drop (off div 8) bs) (off mod 8) k = count_bits (\<lambda>i. bm_bit bs (off + i)) k"
    by (subst popcount_drop) (simp add: popcount_count_bits)
  then have cnt: "CountSetBits (drop (off div 8) bs) (off mod 8) k = Some (count_bits (\<lambda>i. bm_bit bs (off + i)) k)"
    using CountSetBits_eq [of "off mod 8" k "drop (off div 8) bs"] fit by simp
  have "k div 8 \<le> length bs - off div 8" using fit by linarith
  moreover have "int16 (count_bits (\<lambda>i. bm_bit bs (off + i)) k) = int (count_bits (\<lambda>i. bm_bit bs (off + i)) k)"
    using le_less_trans [OF count_bits_le k(2)] by (rule int16_small)
  ultimately show ?thesis
    using block_view_step [OF assms(1-3) k(1,3)] assms(2-4) cnt
    by (simp add: getBlockSlow_def r flip: k_def)
qed

lemma block_view_cases:
  assumes "block_view p n b" "0 < n"
  obtains bs off where "off + n \<le> 8 * length bs" "bbc_bitmap b = drop (off div 8) bs" "bbc_bitOffset b = off mod 8"
    "bbc_bitsRemaining b = n" "p = (\<lambda>i. bm_bit bs (off + i))"
  using assms by (auto simp: block_view_def)

text \<open>The words from byte \<open>q\<close> on, shifted or not, are the bits from \<open>8 * q + s\<close> on.\<close>

lemma shifted_words:
  assumes "s < 8" "8 * q + s + 64 \<le> 8 * length bs" "s \<noteq> 0 \<longrightarrow> 8 * q + 128 \<le> 8 * length bs"
  shows "q + 8 \<le> length bs \<and> (\<exists>w0. loadWord (drop q bs) = Some w0 \<and>
    (s = 0 \<longrightarrow> ones_count w0 = count_bits (\<lambda>i. bm_bit bs (8 * q + i)) 64) \<and>
    (s \<noteq> 0 \<longrightarrow> (\<exists>w1. loadWord (drop (q + 8) bs) = Some w1 \<and>
      ones_count (shiftWord w0 w1 s) = count_bits (\<lambda>i. bm_bit bs (8 * q + s + i)) 64)))"
proof -
  have q: "q + 8 \<le> length bs" using assms(2) by linarith
  from loadWord_drop [OF q] obtain w0 where w0: "loadWord (drop q bs) = Some w0"
    "\<And>i. i < 64 \<Longrightarrow> bit w0 i = bm_bit bs (8 * q + i)" by blast
  have "\<exists>w1. loadWord (drop (q + 8) bs) = Some w1 \<and>
      ones_count (shiftWord w0 w1 s) = count_bits (\<lambda>i. bm_bit bs (8 * q + s + i)) 64" if s: "s \<noteq> 0"
  proof -
    have "q + 8 + 8 \<le> length bs" using assms(3) s by linarith
    from loadWord_drop [OF this] obtain w1 where w1: "loadWord (drop (q + 8) bs) = Some w1"
      "\<And>i. i < 64 \<Longrightarrow> bit w1 i = bm_bit bs (8 * q + 64 + i)" by auto
    with ones_count_bits [OF bit_shiftWord [OF assms(1) w0(2) w1(2)]] show ?thesis by auto
  qed
  with q w0 ones_count_bits [OF w0(2)] show ?thesis by auto
qed

lemma words_fit:
  fixes q s off n m k L :: nat
  assumes "8 * q + s = off" "off + n \<le> 8 * L" "m + 64 \<le> n" "s \<noteq> 0 \<longrightarrow> m + 128 - s \<le> n" "8 * k \<le> m"
  shows "8 * (q + k) + s + 64 \<le> 8 * L \<and> (s \<noteq> 0 \<longrightarrow> 8 * (q + k) + 128 \<le> 8 * L)"
  using assms by auto

lemma word_popcnt_eq:
  assumes "off + n \<le> 8 * length bs" "bbc_bitmap b = drop (off div 8) bs" "bbc_bitOffset b = off mod 8"
    "64 \<le> n" "off mod 8 \<noteq> 0 \<longrightarrow> 128 - off mod 8 \<le> n"
  shows "word_popcnt b = Some (count_bits (\<lambda>i. bm_bit bs (off + i)) 64)"
proof -
  let ?q = "off div 8" and ?s = "off mod 8"
  have "8 * ?q + ?s = off" "?s < 8" by simp_all
  with words_fit [OF this(1) assms(1), of 0 0] assms(4,5)
  show ?thesis using shifted_words [of ?s ?q bs] by (auto simp: word_popcnt_def assms(2,3) add.commute)
qed

lemma four_words_popcnt_eq:
  assumes "off + n \<le> 8 * length bs" "bbc_bitmap b = drop (off div 8) bs" "bbc_bitOffset b = off mod 8"
    "256 \<le> n" "off mod 8 \<noteq> 0 \<longrightarrow> 320 - off mod 8 \<le> n"
  shows "four_words_popcnt b = Some (count_bits (\<lambda>i. bm_bit bs (off + i)) 256)"
proof -
  let ?q = "off div 8" and ?s = "off mod 8"
  have off: "8 * ?q + ?s = off" by simp
  have s: "?s < 8" by simp
  have W: "8 * (?q + k) + ?s + 64 \<le> 8 * length bs \<and> (?s \<noteq> 0 \<longrightarrow> 8 * (?q + k) + 128 \<le> 8 * length bs)" if "k \<le> 24" for k
    by (rule words_fit [OF off assms(1), of 192]) (use assms(4,5) that in simp_all)
  note w = shifted_words [OF s conjunct1 [OF W] conjunct2 [OF W]]
  let ?c = "\<lambda>k. count_bits (\<lambda>i. bm_bit bs (8 * (?q + k) + ?s + i)) 64"
  have "count_bits (\<lambda>i. bm_bit bs (off + i)) (64 + (64 + (64 + 64))) = count_bits (\<lambda>i. bm_bit bs (off + i)) 64 +
      (count_bits (\<lambda>i. bm_bit bs (off + (64 + i))) 64 + (count_bits (\<lambda>i. bm_bit bs (off + (64 + (64 + i)))) 64 +
       count_bits (\<lambda>i. bm_bit bs (off + (64 + (64 + (64 + i))))) 64))"
    by (simp only: count_bits_add)
  moreover have "8 * (?q + k) + ?s + i = off + (8 * k + i)" for k i using off by simp
  ultimately have sum: "count_bits (\<lambda>i. bm_bit bs (off + i)) 256 = ?c 0 + ?c 8 + ?c 16 + ?c 24" by (simp add: ac_simps)
  have sl: "slice_from (drop ?q bs) k = Some (drop (?q + k) bs)" if "k \<le> 32" for k
    using conjunct1 [OF w [of 24]] that by (simp add: slice_from_def add.commute)
  show ?thesis
  proof (cases "?s = 0")
    case True
    with w [of 0] w [of 8] w [of 16] w [of 24] obtain w0 w1 w2 w3 where
      "loadWord (drop ?q bs) = Some w0" "loadWord (drop (?q + 8) bs) = Some w1" "loadWord (drop (?q + 16) bs) = Some w2"
      "loadWord (drop (?q + 24) bs) = Some w3" "ones_count w0 = ?c 0" "ones_count w1 = ?c 8" "ones_count w2 = ?c 16"
      "ones_count w3 = ?c 24" by auto
    then show ?thesis using True sum by (simp add: four_words_popcnt_def assms(2,3) sl)
  next
    case False
    with w [of 0] w [of 8] w [of 16] w [of 24] obtain w0 w1 w2 w3 w4 where
      "loadWord (drop ?q bs) = Some w0" "loadWord (drop (?q + 8) bs) = Some w1" "loadWord (drop (?q + 16) bs) = Some w2"
      "loadWord (drop (?q + 24) bs) = Some w3" "loadWord (drop (?q + 32) bs) = Some w4"
      "ones_count (shiftWord w0 w1 ?s) = ?c 0" "ones_count (shiftWord w1 w2 ?s) = ?c 8" "ones_count (shiftWord w2 w3 ?s) = ?c 16"
      "ones_count (shiftWord w3 w4 ?s) = ?c 24" by (auto simp: ac_simps)
    then show ?thesis using False sum by (simp add: four_words_popcnt_def assms(2,3) sl)
  qed
qed

text \<open>Both methods deliver the next \<open>m\<close> bits, or what is left of them.\<close>

lemma NextWord_view:
  assumes v: "block_view p n b"
  shows "\<exists>b'. NextWord b = Some (b', \<lparr>blk_Len = int (min n 64), blk_Popcnt = int (count_bits p (min n 64))\<rparr>) \<and>
    block_view (\<lambda>i. p (min n 64 + i)) (n - min n 64) b'"
proof (cases "n = 0")
  case True
  then show ?thesis using v by (auto simp: NextWord_def block_view_def)
next
  case False
  with v obtain bs off where b: "off + n \<le> 8 * length bs" "bbc_bitmap b = drop (off div 8) bs"
    "bbc_bitOffset b = off mod 8" "bbc_bitsRemaining b = n" "p = (\<lambda>i. bm_bit bs (off + i))"
    by (auto elim!: block_view_cases)
  show ?thesis
  proof (cases "n < 64 \<or> off mod 8 \<noteq> 0 \<and> n < 128 - off mod 8")
    case True
    then have "NextWord b = getBlockSlow b 64" using False b(3,4) by (auto simp: NextWord_def wordBits_def)
    with getBlockSlow_view [OF b(1-4), of 64] b(5) show ?thesis by simp
  next
    case fast: False
    have "off div 8 + 8 \<le> length bs" using fast b(1) by linarith
    with fast False b word_popcnt_eq [OF b(1-3)] block_view_step [OF b(1-3), of 64]
      int16_small [OF le_less_trans [OF count_bits_le, of 64]]
    show ?thesis by (auto simp: NextWord_def wordBits_def min_absorb2)
  qed
qed

lemma NextFourWords_view:
  assumes v: "block_view p n b"
  shows "\<exists>b'. NextFourWords b = Some (b', \<lparr>blk_Len = int (min n 256), blk_Popcnt = int (count_bits p (min n 256))\<rparr>) \<and>
    block_view (\<lambda>i. p (min n 256 + i)) (n - min n 256) b'"
proof (cases "n = 0")
  case True
  then show ?thesis using v by (auto simp: NextFourWords_def block_view_def)
next
  case False
  with v obtain bs off where b: "off + n \<le> 8 * length bs" "bbc_bitmap b = drop (off div 8) bs"
    "bbc_bitOffset b = off mod 8" "bbc_bitsRemaining b = n" "p = (\<lambda>i. bm_bit bs (off + i))"
    by (auto elim!: block_view_cases)
  show ?thesis
  proof (cases "n < 256 \<or> off mod 8 \<noteq> 0 \<and> n < 1280 - off mod 8")
    case True
    then have "NextFourWords b = getBlockSlow b 256"
      using False b(3,4) by (auto simp: NextFourWords_def wordBits_def fourWordsBits_def)
    with getBlockSlow_view [OF b(1-4), of 256] b(5) show ?thesis by simp
  next
    case fast: False
    have "off div 8 + 32 \<le> length bs" using fast b(1) by linarith
    moreover have "four_words_popcnt b = Some (count_bits p 256)"
      unfolding b(5) by (rule four_words_popcnt_eq [OF b(1-3)]) (use fast in auto)
    ultimately show ?thesis
      using fast False b block_view_step [OF b(1-3), of 256]
      int16_small [OF le_less_trans [OF count_bits_le, of 256]]
      by (auto simp: NextFourWords_def wordBits_def fourWordsBits_def BytesForBits_eq min_absorb2)
  qed
qed

interpretation words: bit_blocks NextWord block_view
proof
  fix p n c assume "block_view p n c"
  from NextWord_view [OF this] show "\<exists>c' k. NextWord c = Some (c', \<lparr>blk_Len = int k, blk_Popcnt = int (count_bits p k)\<rparr>) \<and>
    k \<le> n \<and> (0 < n \<longrightarrow> 0 < k) \<and> block_view (\<lambda>i. p (k + i)) (n - k) c'"
    by (metis min.cobounded1 min_less_iff_conj zero_less_numeral)
qed

interpretation four_words: bit_blocks NextFourWords block_view
proof
  fix p n c assume "block_view p n c"
  from NextFourWords_view [OF this] show "\<exists>c' k. NextFourWords c = Some (c', \<lparr>blk_Len = int k, blk_Popcnt = int (count_bits p k)\<rparr>) \<and>
    k \<le> n \<and> (0 < n \<longrightarrow> 0 < k) \<and> block_view (\<lambda>i. p (k + i)) (n - k) c'"
    by (metis min.cobounded1 min_less_iff_conj zero_less_numeral)
qed

text \<open>Without a bitmap every bit counts as set.\<close>

definition optional_view :: "(nat \<Rightarrow> bool) \<Rightarrow> nat \<Rightarrow> OptionalBitBlockCounter \<Rightarrow> bool" where
  "optional_view p n c \<longleftrightarrow>
     (if obc_hasBitmap c then \<exists>b. obc_counter c = Some b \<and> block_view p n b
      else obc_pos c + n = obc_len c \<and> (\<forall>i<n. p i))"

lemma next_optional_view:
  assumes "optional_view p n c" "0 < m" "m < 2 ^ 15"
  shows "\<exists>c' k. next_optional m c = Some (c', \<lparr>blk_Len = int k, blk_Popcnt = int (count_bits p k)\<rparr>) \<and>
    k \<le> n \<and> (0 < n \<longrightarrow> 0 < k) \<and> optional_view (\<lambda>i. p (k + i)) (n - k) c'"
proof (cases "obc_hasBitmap c")
  case True
  with assms(1) obtain b where b: "obc_counter c = Some b" "block_view p n b" by (auto simp: optional_view_def)
  with words.next_block [OF b(2)] True show ?thesis
    by (fastforce simp: next_optional_def optional_view_def)
next
  case False
  then have c: "obc_len c - obc_pos c = n" "obc_pos c + n = obc_len c" "\<forall>i<n. p i"
    using assms(1) by (auto simp: optional_view_def)
  have "min m n < 2 ^ 15" using assms(3) by simp
  moreover have "count_bits p (min m n) = min m n" using c(3) by (simp add: count_bits_all)
  ultimately show ?thesis
    using False c assms(2) by (auto simp: next_optional_def utils_Min_min int16_small optional_view_def Let_def
        intro!: exI [of _ "min m n"])
qed

lemma NewOptionalBitBlockCounter_view:
  assumes "case bitmap of None \<Rightarrow> True | Some bs \<Rightarrow> off + n \<le> 8 * length bs"
  shows "\<exists>c. NewOptionalBitBlockCounter bitmap off n = Some c \<and>
    optional_view (\<lambda>i. case bitmap of None \<Rightarrow> True | Some bs \<Rightarrow> bm_bit bs (off + i)) n c"
  using assms NewBitBlockCounter_view [of off n]
  by (fastforce simp: NewOptionalBitBlockCounter_def optional_view_def split: option.splits)

interpretation optional_blocks: bit_blocks OptionalBitBlockCounter_NextBlock optional_view
  by unfold_locales (use next_optional_view in \<open>simp add: OptionalBitBlockCounter_NextBlock_def\<close>)

interpretation optional_words: bit_blocks OptionalBitBlockCounter_NextWord optional_view
  by unfold_locales (use next_optional_view in \<open>simp add: OptionalBitBlockCounter_NextWord_def\<close>)

text \<open>A slice and an offset into its first byte, at bit \<open>off\<close> of \<open>bs\<close> with \<open>n\<close> bits to go.\<close>

definition at_bits :: "byte list \<Rightarrow> nat \<Rightarrow> nat \<Rightarrow> byte list \<Rightarrow> nat \<Rightarrow> bool" where
  "at_bits bs off n bm s \<longleftrightarrow> off + n \<le> 8 * length bs \<and> bm = drop (off div 8) bs \<and> s = off mod 8"

lemma at_bits_New: "off + n \<le> 8 * length bs \<Longrightarrow> \<exists>bm. slice_from bs (off div 8) = Some bm \<and> at_bits bs off n bm (off mod 8)"
proof -
  assume fit: "off + n \<le> 8 * length bs"
  then have "off div 8 \<le> length bs" by linarith
  with fit show ?thesis by (simp add: at_bits_def)
qed

lemma at_bits_step:
  assumes "at_bits bs off n bm s" "k \<le> n"
  shows "\<exists>bm'. slice_from bm (k div 8) = Some bm' \<and> (8 dvd k \<longrightarrow> at_bits bs (off + k) (n - k) bm' s)"
proof -
  have "k div 8 \<le> length bs - off div 8" using assms unfolding at_bits_def by linarith
  then show ?thesis using assms by (auto simp: at_bits_def dvd_def ac_simps)
qed

lemma at_bits_bit:
  assumes "at_bits bs off n bm s" "i < n"
  shows "BitIsSet bm (s + i) = Some (bm_bit bs (off + i))"
proof -
  have "8 * (off div 8) + (off mod 8 + i) = off + i" by simp
  moreover have "off mod 8 + i < 8 * (length bs - off div 8)"
    using assms mult_div_mod_eq [of 8 off] unfolding at_bits_def diff_mult_distrib2 by linarith
  ultimately show ?thesis using assms by (simp add: at_bits_def BitIsSet_eq bm_simps)
qed

lemma at_bits_shifted:
  assumes "at_bits bs off n bm s" "120 < n"
  shows "\<exists>w0 b1 w1. loadWord bm = Some w0 \<and> slice_from bm 8 = Some b1 \<and> loadWord b1 = Some w1 \<and>
    (\<forall>i<64. bit (shiftWord w0 w1 s) i = bm_bit bs (off + i))"
proof -
  have q: "off div 8 + 8 + 8 \<le> length bs" using assms unfolding at_bits_def by linarith
  from loadWord_drop [OF q] obtain w1 where w1: "loadWord (drop (off div 8 + 8) bs) = Some w1"
    "\<And>i. i < 64 \<Longrightarrow> bit w1 i = bm_bit bs (8 * (off div 8) + 64 + i)" by auto
  from loadWord_drop [of "off div 8" bs] q obtain w0 where w0: "loadWord (drop (off div 8) bs) = Some w0"
    "\<And>i. i < 64 \<Longrightarrow> bit w0 i = bm_bit bs (8 * (off div 8) + i)" by auto
  from bit_shiftWord [of "off mod 8", OF _ w0(2) w1(2)]
  have "bit (shiftWord w0 w1 (off mod 8)) i = bm_bit bs (off + i)" if "i < 64" for i using that by simp
  with w0(1) w1(1) q show ?thesis using assms(1) by (simp add: at_bits_def add.commute)
qed

lemma at_bits_word:
  assumes "at_bits bs off n bm 0" "64 \<le> n"
  shows "\<exists>w0. loadWord bm = Some w0 \<and> (\<forall>i<64. bit w0 i = bm_bit bs (off + i))"
proof -
  have "off div 8 + 8 \<le> length bs" using assms unfolding at_bits_def by linarith
  moreover have "8 * (off div 8) = off" using assms(1) mult_div_mod_eq [of 8 off] unfolding at_bits_def by linarith
  ultimately show ?thesis using loadWord_drop [of "off div 8" bs] assms(1) by (simp add: at_bits_def)
qed

text \<open>The two functions of a \<^verbatim>\<open>bitOp\<close> belong together: the one on words is the one on bits at every
  bit. From that alone, the counter of two bitmaps keeps the promise.\<close>

locale bit_op =
  fixes op :: bitOp
  assumes word_bit: "i < 64 \<Longrightarrow> bit (op_word op a b) i = op_bit op (bit a i) (bit b i)"
begin

definition binary_at :: "byte list \<Rightarrow> nat \<Rightarrow> byte list \<Rightarrow> nat \<Rightarrow> nat \<Rightarrow> BinaryBitBlockCounter \<Rightarrow> bool" where
  "binary_at ls lo rs ro n b \<longleftrightarrow> at_bits ls lo n (bin_left b) (bin_leftOffset b) \<and>
     at_bits rs ro n (bin_right b) (bin_rightOffset b) \<and>
     bin_bitsRequiredForWords b = max (bits_required (bin_leftOffset b)) (bits_required (bin_rightOffset b))"

definition op_bits :: "byte list \<Rightarrow> nat \<Rightarrow> byte list \<Rightarrow> nat \<Rightarrow> nat \<Rightarrow> bool" where
  "op_bits ls lo rs ro i = op_bit op (bm_bit ls (lo + i)) (bm_bit rs (ro + i))"

definition binary_view :: "(nat \<Rightarrow> bool) \<Rightarrow> nat \<Rightarrow> BinaryBitBlockCounter \<Rightarrow> bool" where
  "binary_view p n b \<longleftrightarrow> bin_bitsRemaining b = n \<and>
     (0 < n \<longrightarrow> (\<exists>ls lo rs ro. binary_at ls lo rs ro n b \<and> p = op_bits ls lo rs ro))"

lemma NewBinaryBitBlockCounter_view:
  assumes "lo + n \<le> 8 * length ls" "ro + n \<le> 8 * length rs"
  shows "\<exists>b. NewBinaryBitBlockCounter ls rs lo ro n = Some b \<and> binary_view (op_bits ls lo rs ro) n b"
proof -
  from assms [THEN at_bits_New] obtain l r where "slice_from ls (lo div 8) = Some l" "at_bits ls lo n l (lo mod 8)"
    "slice_from rs (ro div 8) = Some r" "at_bits rs ro n r (ro mod 8)" by blast
  then have "\<exists>b. NewBinaryBitBlockCounter ls rs lo ro n = Some b \<and> binary_at ls lo rs ro n b \<and> bin_bitsRemaining b = n"
    by (simp add: NewBinaryBitBlockCounter_def binary_at_def Let_def)
  then show ?thesis unfolding binary_view_def by blast
qed

lemma count_op_loop_eq:
  assumes b: "binary_at ls lo rs ro n b" and le: "i + k \<le> n"
  shows "count_op_loop op b i k c = Some (c + count_bits (\<lambda>j. op_bits ls lo rs ro (i + j)) k)"
  using le
proof (induction k arbitrary: i c)
  case (Suc k)
  have "BitIsSet (bin_left b) (bin_leftOffset b + i) = Some (bm_bit ls (lo + i))"
    "BitIsSet (bin_right b) (bin_rightOffset b + i) = Some (bm_bit rs (ro + i))"
    using b Suc.prems at_bits_bit by (auto simp: binary_at_def)
  with Suc.IH [of "Suc i"] Suc.prems show ?case
    using count_bits_add [of "\<lambda>j. op_bits ls lo rs ro (i + j)" 1 k] by (simp add: count_bits_Suc op_bits_def)
qed simp

lemma op_popcnt:
  assumes b: "binary_at ls lo rs ro n b" and n: "bin_bitsRequiredForWords b \<le> n" "64 \<le> n"
  shows "(if bin_leftOffset b = 0 \<and> bin_rightOffset b = 0 then
        do { l \<leftarrow> loadWord (bin_left b); r \<leftarrow> loadWord (bin_right b); Some (ones_count (op_word op l r)) }
      else
        do { l0 \<leftarrow> loadWord (bin_left b); l \<leftarrow> slice_from (bin_left b) 8; l1 \<leftarrow> loadWord l;
             r0 \<leftarrow> loadWord (bin_right b); r \<leftarrow> slice_from (bin_right b) 8; r1 \<leftarrow> loadWord r;
             Some (ones_count (op_word op (shiftWord l0 l1 (bin_leftOffset b)) (shiftWord r0 r1 (bin_rightOffset b)))) })
    = Some (count_bits (op_bits ls lo rs ro) 64)"
proof (cases "bin_leftOffset b = 0 \<and> bin_rightOffset b = 0")
  case True
  with b have "at_bits ls lo n (bin_left b) 0" "at_bits rs ro n (bin_right b) 0" by (auto simp: binary_at_def)
  from this [THEN at_bits_word] n(2) obtain l r where
    "loadWord (bin_left b) = Some l" "loadWord (bin_right b) = Some r"
    "\<forall>i<64. bit l i = bm_bit ls (lo + i)" "\<forall>i<64. bit r i = bm_bit rs (ro + i)" by blast
  then show ?thesis using True by (simp add: ones_count_bits [of _ "op_bits ls lo rs ro"] word_bit op_bits_def)
next
  case False
  have "bin_leftOffset b < 8" "bin_rightOffset b < 8" using b by (auto simp: binary_at_def at_bits_def)
  then have "120 < n" using False b n(1) by (auto simp: binary_at_def bits_required_def split: if_splits)
  with b at_bits_shifted [of ls lo n] at_bits_shifted [of rs ro n] obtain l0 l l1 r0 r r1 where
    "loadWord (bin_left b) = Some l0" "slice_from (bin_left b) 8 = Some l" "loadWord l = Some l1"
    "loadWord (bin_right b) = Some r0" "slice_from (bin_right b) 8 = Some r" "loadWord r = Some r1"
    "\<forall>i<64. bit (shiftWord l0 l1 (bin_leftOffset b)) i = bm_bit ls (lo + i)"
    "\<forall>i<64. bit (shiftWord r0 r1 (bin_rightOffset b)) i = bm_bit rs (ro + i)"
    unfolding binary_at_def by blast
  then show ?thesis using False by (auto simp: ones_count_bits [of _ "op_bits ls lo rs ro"] word_bit op_bits_def)
qed

lemma binary_view_step:
  assumes "binary_at ls lo rs ro n b" "k \<le> n" "8 dvd k \<or> k = n"
  shows "\<exists>l r. slice_from (bin_left b) (k div 8) = Some l \<and> slice_from (bin_right b) (k div 8) = Some r \<and>
    binary_view (\<lambda>i. op_bits ls lo rs ro (k + i)) (n - k) (b\<lparr>bin_left := l, bin_right := r, bin_bitsRemaining := n - k\<rparr>)"
proof -
  from assms at_bits_step [of ls lo n _ _ k] at_bits_step [of rs ro n _ _ k] obtain l r where
    lr: "slice_from (bin_left b) (k div 8) = Some l" "slice_from (bin_right b) (k div 8) = Some r"
      "8 dvd k \<longrightarrow> at_bits ls (lo + k) (n - k) l (bin_leftOffset b) \<and> at_bits rs (ro + k) (n - k) r (bin_rightOffset b)"
    unfolding binary_at_def by blast
  have "op_bits ls (lo + k) rs (ro + k) = (\<lambda>i. op_bits ls lo rs ro (k + i))" by (simp add: op_bits_def fun_eq_iff ac_simps)
  moreover have "binary_at ls (lo + k) rs (ro + k) (n - k) (b\<lparr>bin_left := l, bin_right := r, bin_bitsRemaining := n - k\<rparr>)"
    if "8 dvd k" using that assms(1) lr(3) by (simp add: binary_at_def)
  ultimately have "binary_view (\<lambda>i. op_bits ls lo rs ro (k + i)) (n - k)
      (b\<lparr>bin_left := l, bin_right := r, bin_bitsRemaining := n - k\<rparr>)"
    using assms(2,3) unfolding binary_view_def by (metis (no_types, lifting) BinaryBitBlockCounter.select_convs(3)
        BinaryBitBlockCounter.surjective BinaryBitBlockCounter.update_convs(1,2,3) diff_self_eq_0 less_numeral_extra(3))
  with lr(1,2) show ?thesis by blast
qed

lemma nextWord_view:
  assumes v: "binary_view p n b"
  shows "\<exists>b'. nextWord op b = Some (b', \<lparr>blk_Len = int (min n 64), blk_Popcnt = int (count_bits p (min n 64))\<rparr>) \<and>
    binary_view (\<lambda>i. p (min n 64 + i)) (n - min n 64) b'"
proof (cases "n = 0")
  case True
  then show ?thesis using v by (auto simp: nextWord_def binary_view_def)
next
  case False
  with v obtain ls lo rs ro where b: "binary_at ls lo rs ro n b" "p = op_bits ls lo rs ro" "bin_bitsRemaining b = n"
    by (auto simp: binary_view_def)
  define k where "k = min n 64"
  have k: "k \<le> n" "k \<le> 64" "8 dvd k \<or> k = n" by (auto simp: k_def min_def)
  have pop: "int16 (count_bits p k) = int (count_bits p k)"
    using count_bits_le [of p k] k(2) by (intro int16_small) simp
  from binary_view_step [OF b(1) k(1,3)] obtain l r where
    lr: "slice_from (bin_left b) (k div 8) = Some l" "slice_from (bin_right b) (k div 8) = Some r"
      "binary_view (\<lambda>i. p (k + i)) (n - k) (b\<lparr>bin_left := l, bin_right := r, bin_bitsRemaining := n - k\<rparr>)"
    unfolding b(2) by blast
  have req: "bin_bitsRequiredForWords b < 129" "64 \<le> bin_bitsRequiredForWords b"
    using b(1) by (auto simp: binary_at_def bits_required_def)
  show ?thesis
  proof (cases "n < bin_bitsRequiredForWords b")
    case True
    then have "int16 n = int n" using req by (intro int16_small) simp
    then have run: "(if int16 n > int wordBits then int wordBits else int16 n) = int k" by (simp add: k_def wordBits_def)
    show ?thesis
      unfolding nextWord_def b(3) run
      using count_op_loop_eq [OF b(1), of 0 k 0] k(1) True lr False pop b(2) by (simp flip: k_def)
  next
    case fast: False
    then have "k = 64" using req by (simp add: k_def)
    then show ?thesis
      using op_popcnt [OF b(1)] fast False lr pop req b(2,3) by (simp add: nextWord_def wordBits_def flip: k_def)
  qed
qed

end

sublocale bit_op \<subseteq> blocks: bit_blocks "nextWord op" binary_view
proof
  fix p n c assume "binary_view p n c"
  from nextWord_view [OF this] show "\<exists>c' k. nextWord op c = Some (c', \<lparr>blk_Len = int k, blk_Popcnt = int (count_bits p k)\<rparr>) \<and>
    k \<le> n \<and> (0 < n \<longrightarrow> 0 < k) \<and> binary_view (\<lambda>i. p (k + i)) (n - k) c'"
    by (metis min.cobounded1 min_less_iff_conj zero_less_numeral)
qed

interpretation op_and: bit_op bitBlockAnd
  by unfold_locales (simp add: bitBlockAnd_def bit_simps)

interpretation op_and_not: bit_op bitBlockAndNot
  by unfold_locales (simp add: bitBlockAndNot_def bit_simps)

interpretation op_or: bit_op bitBlockOr
  by unfold_locales (simp add: bitBlockOr_def bit_simps)

interpretation op_or_not: bit_op bitBlockOrNot
  by unfold_locales (simp add: bitBlockOrNot_def bit_simps)

section \<open>Properties\<close>

text \<open>The bit that a visitor sees at a position: absent bitmaps are all set.\<close>

definition visible_bit :: "byte list option \<Rightarrow> nat \<Rightarrow> bool" where
  "visible_bit bitmap i = (case bitmap of None \<Rightarrow> True | Some bs \<Rightarrow> bm_bit bs i)"

text \<open>The reference: every position in order, one callback each, up to the first error.\<close>

fun visit_each :: "(nat \<Rightarrow> bool) \<Rightarrow> 's visit_valid \<Rightarrow> 's visit_invalid \<Rightarrow> nat list \<Rightarrow> 's \<Rightarrow> ('s \<times> goerr option) option" where
  "visit_each p f g [] s = Some (s, None)"
| "visit_each p f g (i # is) s =
     (case if p i then f i s else g s of
        None \<Rightarrow> None
      | Some (s', Some e) \<Rightarrow> Some (s', Some e)
      | Some (s', None) \<Rightarrow> visit_each p f g is s')"

lemma visit_loop_each: "visit_loop (\<lambda>i. Some (p i)) f g pos k s = visit_each p f g [pos..<pos + k] s"
proof (induction k arbitrary: pos s)
  case (Suc k)
  have "[pos..<pos + Suc k] = pos # [pos + 1..<pos + 1 + k]" using upt_conv_Cons [of pos "pos + Suc k"] by simp
  then show ?case using Suc.IH [of "pos + 1"] by (auto split: option.splits Option.bind_splits)
qed simp

lemma optional_visit_each:
  assumes fit: "case bitmap of None \<Rightarrow> True | Some bs \<Rightarrow> off + n \<le> 8 * length bs"
  shows "\<exists>c. NewOptionalBitBlockCounter bitmap off n = Some c \<and>
    visit_blocks OptionalBitBlockCounter_NextBlock (\<lambda>pos. test_bit bitmap (off + pos)) f g n c 0 s =
    visit_each (\<lambda>i. visible_bit bitmap (off + i)) f g [0..<n] s"
proof -
  let ?p = "\<lambda>i. visible_bit bitmap (off + i)" and ?t = "\<lambda>i. test_bit bitmap (off + i)"
  from NewOptionalBitBlockCounter_view [OF fit] obtain c where
    c: "NewOptionalBitBlockCounter bitmap off n = Some c" "optional_view ?p n c" unfolding visible_bit_def by blast
  have "(\<forall>i<n. ?t i = Some (?p i)) \<or> (\<forall>i<n. ?p i)"
    using fit by (cases bitmap) (auto simp: test_bit_def visible_bit_def BitIsSet_eq)
  with optional_blocks.visit_blocks_eq [of ?p 0 n c ?t f g s] c visit_loop_each [of ?p f g 0 n s]
  show ?thesis by simp
qed

text \<open>Callbacks without errors: a fold.\<close>

fun fold_each :: "(nat \<Rightarrow> bool) \<Rightarrow> (nat \<Rightarrow> 's \<Rightarrow> 's option) \<Rightarrow> ('s \<Rightarrow> 's option) \<Rightarrow> nat list \<Rightarrow> 's \<Rightarrow> 's option" where
  "fold_each p f g [] s = Some s"
| "fold_each p f g (i # is) s =
     (case if p i then f i s else g s of None \<Rightarrow> None | Some s' \<Rightarrow> fold_each p f g is s')"

lemma visit_each_fold:
  "visit_each p (\<lambda>i s. no_err (f i s)) (\<lambda>s. no_err (g s)) is s = no_err (fold_each p f g is s)"
  by (induction "is" arbitrary: s) (auto simp: no_err_def split: option.splits)

lemma no_err_bind: "do { (s, err) \<leftarrow> no_err r; Some s } = r"
  by (cases r) (simp_all add: no_err_def)

lemma VisitBitBlocks_each:
  assumes "case bitmap of None \<Rightarrow> True | Some bs \<Rightarrow> off + n \<le> 8 * length bs"
  shows "VisitBitBlocks bitmap off n f g s = fold_each (\<lambda>i. visible_bit bitmap (off + i)) f g [0..<n] s"
  using optional_visit_each [OF assms, of "\<lambda>i s. no_err (f i s)" "\<lambda>s. no_err (g s)" s]
  by (auto simp: VisitBitBlocks_def visit_each_fold no_err_bind)

text \<open>C31: \<^verbatim>\<open>VisitBitBlocks\<close> and \<^verbatim>\<open>VisitBitBlocksShort\<close>, which go by blocks of words with shortcuts for
  full and empty ones, call for every bit of the range, in order, the callback that fits the bit, and
  end; all bits count as set when there is no bitmap. The second stops at the first error.\<close>

theorem VisitBitBlocks_visits:
  assumes "case bitmap of None \<Rightarrow> True | Some bs \<Rightarrow> off + n \<le> 8 * length bs"
  shows "VisitBitBlocks bitmap off n f g s = fold_each (\<lambda>i. visible_bit bitmap (off + i)) f g [0..<n] s \<and>
    VisitBitBlocksShort bitmap off n vf vg s = visit_each (\<lambda>i. visible_bit bitmap (off + i)) vf vg [0..<n] s"
  using optional_visit_each [OF assms, of vf vg s] VisitBitBlocks_each [OF assms, of f g s]
  by (auto simp: VisitBitBlocksShort_def)

theorem VisitBitBlocks_visits_witness:
  "VisitBitBlocks (Some [5 :: byte]) 0 4 (\<lambda>i s. Some (s @ [i])) (\<lambda>s. Some (s @ [9])) [] = Some [0, 9, 2, 9] \<and>
   VisitBitBlocksShort (Some [5 :: byte]) 0 4 (\<lambda>i s. Some (s @ [i], if i = 2 then Some EOF else None)) (\<lambda>s. Some (s @ [9], None)) []
     = Some ([0, 9, 2], Some EOF)"
proof -
  have "[0..<4 :: nat] = [0, 1, 2, 3]" "bm_bit [5] 0" "\<not> bm_bit [5] 1" "bm_bit [5] 2" "\<not> bm_bit [5] 3" by code_simp+
  then show ?thesis
    using VisitBitBlocks_visits [where bitmap = "Some [5]" and off = 0 and n = 4 and s = "[]" and f = "\<lambda>i s. Some (s @ [i])" and
        g = "\<lambda>s. Some (s @ [9])" and vf = "\<lambda>i s. Some (s @ [i], if i = 2 then Some EOF else None)" and
        vg = "\<lambda>s. Some (s @ [9], None)"]
    by (simp add: visible_bit_def)
qed

lemma VisitTwoBitBlocks_each:
  assumes "lo + n \<le> 8 * length ls" "ro + n \<le> 8 * length rs"
  shows "VisitTwoBitBlocks (Some ls) (Some rs) lo ro n f g s =
    fold_each (\<lambda>i. bm_bit ls (lo + i) \<and> bm_bit rs (ro + i)) f g [0..<n] s"
proof -
  let ?p = "\<lambda>i. bm_bit ls (lo + i) \<and> bm_bit rs (ro + i)"
  let ?t = "\<lambda>pos. do { l \<leftarrow> BitIsSet ls (lo + pos); if l then BitIsSet rs (ro + pos) else Some False }"
  from op_and.NewBinaryBitBlockCounter_view [OF assms] obtain c where
    c: "NewBinaryBitBlockCounter ls rs lo ro n = Some c" "op_and.binary_view (op_and.op_bits ls lo rs ro) n c" by blast
  have p: "op_and.op_bits ls lo rs ro = ?p" unfolding op_and.op_bits_def fun_eq_iff by (simp add: bitBlockAnd_def)
  have "?t i = Some (?p i)" if "i < n" for i using that assms by (simp add: BitIsSet_eq)
  with op_and.blocks.visit_blocks_eq [of ?p 0 n c ?t "\<lambda>i s. no_err (f i s)" "\<lambda>s. no_err (g s)" s] c(2)
  have "visit_blocks NextAndWord ?t (\<lambda>i s. no_err (f i s)) (\<lambda>s. no_err (g s)) n c 0 s = no_err (fold_each ?p f g [0..<n] s)"
    by (simp add: p NextAndWord_def visit_loop_each visit_each_fold)
  then show ?thesis using c(1) by (simp add: VisitTwoBitBlocks_def no_err_bind)
qed

text \<open>C32: \<^verbatim>\<open>VisitTwoBitBlocks\<close> visits the conjunction of two bitmaps, each of which may be absent,
  bit by bit in order.\<close>

theorem VisitTwoBitBlocks_visits:
  assumes "case left of None \<Rightarrow> True | Some bs \<Rightarrow> lo + n \<le> 8 * length bs"
    "case right of None \<Rightarrow> True | Some bs \<Rightarrow> ro + n \<le> 8 * length bs"
  shows "VisitTwoBitBlocks left right lo ro n f g s =
    fold_each (\<lambda>i. visible_bit left (lo + i) \<and> visible_bit right (ro + i)) f g [0..<n] s"
proof (cases left; cases right)
  fix ls rs assume "left = Some ls" "right = Some rs"
  then show ?thesis using VisitTwoBitBlocks_each assms by (simp add: visible_bit_def)
qed (use VisitBitBlocks_each [OF assms(1), of f g s] VisitBitBlocks_each [OF assms(2), of f g s] in
    \<open>simp_all add: VisitTwoBitBlocks_def visible_bit_def\<close>)

theorem VisitTwoBitBlocks_visits_witness:
  "VisitTwoBitBlocks (Some [7]) (Some [12]) 0 1 3 (\<lambda>i s. Some (s @ [i])) (\<lambda>s. Some (s @ [9])) [] = Some [9, 1, 2]"
proof -
  have "[0..<3 :: nat] = [0, 1, 2]" "bm_bit [7] 0" "bm_bit [7] 1" "bm_bit [7] 2" "\<not> bm_bit [12] 1" "bm_bit [12] 2" "bm_bit [12] 3"
    by code_simp+
  then show ?thesis
    using VisitTwoBitBlocks_visits [where left = "Some [7]" and lo = 0 and n = 3 and right = "Some [12]" and ro = 1 and s = "[]" and
        f = "\<lambda>i s. Some (s @ [i])" and g = "\<lambda>s. Some (s @ [9])"]
    by (simp add: visible_bit_def numeral_2_eq_2 numeral_3_eq_3)
qed

text \<open>The states of a counter of \<open>n\<close> bits after calls that delivered \<open>d\<close> bits, in any mixture.\<close>

inductive counter_calls :: "byte list \<Rightarrow> nat \<Rightarrow> nat \<Rightarrow> nat \<Rightarrow> BitBlockCounter \<Rightarrow> bool" for bs off n where
  New: "NewBitBlockCounter bs off n = Some b \<Longrightarrow> counter_calls bs off n 0 b"
| Word: "counter_calls bs off n d b \<Longrightarrow> NextWord b = Some (b', block) \<Longrightarrow> counter_calls bs off n (d + nat (blk_Len block)) b'"
| FourWords: "counter_calls bs off n d b \<Longrightarrow> NextFourWords b = Some (b', block) \<Longrightarrow>
    counter_calls bs off n (d + nat (blk_Len block)) b'"

lemma counter_calls_view:
  assumes "counter_calls bs off n d b" "off + n \<le> 8 * length bs"
  shows "d \<le> n \<and> block_view (\<lambda>i. bm_bit bs (off + d + i)) (n - d) b"
  using assms(1)
proof induction
  case (New b)
  then show ?case using NewBitBlockCounter_view [OF assms(2)] by simp
next
  case (Word d b b' block)
  let ?k = "min (n - d) 64"
  from Word NextWord_view [of "\<lambda>i. bm_bit bs (off + d + i)" "n - d" b]
  have "blk_Len block = int ?k" "block_view (\<lambda>i. bm_bit bs (off + d + (?k + i))) (n - d - ?k) b'" by auto
  moreover have "d + ?k \<le> n" using Word.IH by (auto simp: min_def)
  ultimately show ?case by (simp add: ac_simps)
next
  case (FourWords d b b' block)
  let ?k = "min (n - d) 256"
  from FourWords NextFourWords_view [of "\<lambda>i. bm_bit bs (off + d + i)" "n - d" b]
  have "blk_Len block = int ?k" "block_view (\<lambda>i. bm_bit bs (off + d + (?k + i))) (n - d - ?k) b'" by auto
  moreover have "d + ?k \<le> n" using FourWords.IH by (auto simp: min_def)
  ultimately show ?case by (simp add: ac_simps)
qed

text \<open>C33: However \<^verbatim>\<open>NextWord\<close> and \<^verbatim>\<open>NextFourWords\<close> are mixed on a counter, from any bit offset, the next
  call returns the block that starts where the last one ended, of 64 or 256 bits or what is left, with
  the exact number of its set bits; it neither panics nor reads outside the bitmap, and the blocks
  never pass the end.\<close>

theorem block_counts_exact:
  assumes "counter_calls bs off n d b" "off + n \<le> 8 * length bs"
  shows "d \<le> n \<and>
    (\<exists>b'. NextWord b = Some (b', \<lparr>blk_Len = int (min (n - d) 64), blk_Popcnt = int (popcount bs (off + d) (min (n - d) 64))\<rparr>)) \<and>
    (\<exists>b'. NextFourWords b = Some (b', \<lparr>blk_Len = int (min (n - d) 256), blk_Popcnt = int (popcount bs (off + d) (min (n - d) 256))\<rparr>))"
proof -
  note v = counter_calls_view [OF assms]
  with NextWord_view [OF conjunct2 [OF v]] NextFourWords_view [OF conjunct2 [OF v]]
  show ?thesis by (auto simp: popcount_count_bits)
qed

theorem block_counts_exact_witness:
  "\<exists>b b'. NewBitBlockCounter (replicate 20 255) 3 150 = Some b \<and> NextWord b = Some (b', \<lparr>blk_Len = 64, blk_Popcnt = 64\<rparr>)"
proof -
  from NewBitBlockCounter_view [of 3 150 "replicate 20 255"] obtain b where b: "NewBitBlockCounter (replicate 20 255) 3 150 = Some b"
    by auto
  have "popcount (replicate 20 255) 3 64 = 64" by (simp add: popcount_eq_n_iff bm_simps)
  with block_counts_exact [OF New [OF b]] b show ?thesis by simp
qed

end
