(* ===== verification/Spaced_Expand.thy ===== *)
theory Spaced_Expand
  imports Set_Bit_Runs Bit_Blocks "HOL-Library.Multiset"
begin

unbundle bit_operations_syntax

text \<open>
  \<^verbatim>\<open>spacedExpand\<close> and \<^verbatim>\<open>spacedExpandSwap\<close> of \<^verbatim>\<open>parquet/internal/encoding/decoder.go\<close>: the values of a
  column chunk are decoded without gaps to the front of a slice and then moved, from the back, to the
  slots whose validity bit is set. The values have any type; the count of values that are not null is
  an integer, as in the code, where a wrong null count could make it negative.
\<close>

section \<open>The source\<close>

text \<open>The move of one run: a copy of overlapping slices, which behaves as if the source were read first.\<close>

definition copy_run :: "'a list \<Rightarrow> int \<Rightarrow> SetBitRun \<Rightarrow> 'a list option" where
  "copy_run buffer idxDecode run =
     (if idxDecode < 0 then None
      else do { _ \<leftarrow> slice_from buffer (sbr_Pos run);
                vals \<leftarrow> slice buffer (nat idxDecode) (nat idxDecode + sbr_Length run);
                Some (blit buffer (sbr_Pos run) vals) })"

text \<open>The swaps of one run, for the \<open>k\<close> first slots of it from the last to the first.\<close>

fun swap_run :: "'a list \<Rightarrow> int \<Rightarrow> nat \<Rightarrow> nat \<Rightarrow> 'a list option" where
  "swap_run buffer idxDecode pos 0 = Some buffer"
| "swap_run buffer idxDecode pos (Suc k) =
     (let dst = pos + k; src = idxDecode + int k
      in if src < 0 then None
         else do { s \<leftarrow> idx buffer (nat src);
                   d \<leftarrow> idx buffer dst;
                   buffer \<leftarrow> upd buffer dst s;
                   buffer \<leftarrow> upd buffer (nat src) d;
                   swap_run buffer idxDecode pos k })"

partial_function (option) expand_loop ::
  "('a list \<Rightarrow> int \<Rightarrow> SetBitRun \<Rightarrow> 'a list option) \<Rightarrow> baseSetBitRunReader \<Rightarrow> 'a list \<Rightarrow> int \<Rightarrow> 'a list option" where
  "expand_loop move rdr buffer idxDecode =
     do { (rdr, run) \<leftarrow> SetBitRunReader_NextRun rdr;
          if sbr_Length run = 0 then Some buffer
          else let idxDecode = idxDecode - int (sbr_Length run)
            in if idxDecode = int (sbr_Pos run) then Some buffer
               else do { buffer \<leftarrow> move buffer idxDecode run; expand_loop move rdr buffer idxDecode } }"

definition expand_with ::
  "('a list \<Rightarrow> int \<Rightarrow> SetBitRun \<Rightarrow> 'a list option) \<Rightarrow> 'a list \<Rightarrow> int \<Rightarrow> byte list \<Rightarrow> nat \<Rightarrow> ('a list \<times> nat) option" where
  "expand_with move buffer nullCount validBits validBitsOffset =
     (let numValues = length buffer; idxDecode = int numValues - nullCount
      in if idxDecode = 0 then Some (buffer, numValues)
         else do { rdr \<leftarrow> NewReverseSetBitRunReader validBits validBitsOffset numValues;
                   buffer \<leftarrow> expand_loop move rdr buffer idxDecode;
                   Some (buffer, numValues) })"

definition spacedExpand :: "'a list \<Rightarrow> int \<Rightarrow> byte list \<Rightarrow> nat \<Rightarrow> ('a list \<times> nat) option" where
  "spacedExpand = expand_with copy_run"

definition swap_slots :: "'a list \<Rightarrow> int \<Rightarrow> SetBitRun \<Rightarrow> 'a list option" where
  "swap_slots buffer idxDecode run = swap_run buffer idxDecode (sbr_Pos run) (sbr_Length run)"

definition spacedExpandSwap :: "'a list \<Rightarrow> int \<Rightarrow> byte list \<Rightarrow> nat \<Rightarrow> ('a list \<times> nat) option" where
  "spacedExpandSwap = expand_with swap_slots"

section \<open>Runs and ranks\<close>

abbreviation apart :: "SetBitRun list \<Rightarrow> bool" where
  "apart runs \<equiv> sorted_wrt (\<lambda>a b. sbr_Pos a + sbr_Length a < sbr_Pos b) runs"

text \<open>The number of run bits before \<open>i\<close>.\<close>

definition runs_rank :: "SetBitRun list \<Rightarrow> nat \<Rightarrow> nat" where
  "runs_rank runs i = sum_list (map (\<lambda>run. min (sbr_Length run) (i - sbr_Pos run)) runs)"

lemma runs_rank_simps [simp]:
  "runs_rank [] i = 0" "runs_rank (run # runs) i = min (sbr_Length run) (i - sbr_Pos run) + runs_rank runs i"
  "runs_rank (xs @ ys) i = runs_rank xs i + runs_rank ys i"
  by (simp_all add: runs_rank_def)

lemma runs_rank_Suc: "runs_rank runs (Suc i) = runs_rank runs i + length (filter (\<lambda>run. in_run run i) runs)"
  by (induction runs) (auto simp: in_run_def)

lemma in_one_run: "apart runs \<Longrightarrow> length (filter (\<lambda>run. in_run run i) runs) = of_bool (list_ex (\<lambda>run. in_run run i) runs)"
proof (induction runs)
  case (Cons run runs)
  have "\<not> in_run r i" if "in_run run i" "r \<in> set runs" for r using Cons.prems that by (auto simp: in_run_def)
  then have "filter (\<lambda>r. in_run r i) runs = []" if "in_run run i" using that by (simp add: filter_empty_conv)
  then show ?case using Cons by auto
qed simp

lemma runs_rank_0: "runs_rank runs 0 = 0"
  by (induction runs) simp_all

lemma rank_count_bits:
  assumes "are_set_runs p n runs" "i \<le> n"
  shows "runs_rank runs i = count_bits p i"
  using assms(2)
proof (induction i)
  case (Suc i)
  then show ?case using assms(1) in_one_run [of runs i] by (simp add: runs_rank_Suc count_bits_Suc are_set_runs_def)
qed (simp add: runs_rank_0)

definition runs_total :: "SetBitRun list \<Rightarrow> nat" where
  "runs_total runs = sum_list (map sbr_Length runs)"

lemma runs_total_simps [simp]:
  "runs_total [] = 0" "runs_total (run # runs) = sbr_Length run + runs_total runs" "runs_total (xs @ ys) = runs_total xs + runs_total ys"
  by (simp_all add: runs_total_def)

lemma runs_rank_beyond: "(\<And>run. run \<in> set runs \<Longrightarrow> sbr_Pos run + sbr_Length run \<le> i) \<Longrightarrow> runs_rank runs i = runs_total runs"
proof (induction runs)
  case (Cons run runs)
  have "min (sbr_Length run) (i - sbr_Pos run) = sbr_Length run" using Cons.prems [of run] by simp
  then show ?case using Cons by simp
qed simp

lemma runs_rank_less: "in_run run i \<Longrightarrow> run \<in> set runs \<Longrightarrow> runs_rank runs i < runs_total runs"
proof (induction runs)
  case (Cons r runs)
  have le: "runs_rank runs i \<le> runs_total runs" by (induction runs) auto
  show ?case
  proof (cases "r = run")
    case True
    have "min (sbr_Length run) (i - sbr_Pos run) < sbr_Length run" using Cons.prems(1) by (auto simp: in_run_def)
    then show ?thesis using True le by simp
  next
    case False
    then have "runs_rank runs i < runs_total runs" using Cons by simp
    then show ?thesis by (simp add: add_le_less_mono)
  qed
qed simp

text \<open>Runs that are apart leave room: before a run there are fewer run bits than slots, unless it is the first.\<close>

lemma runs_total_less: "apart (runs @ [run]) \<Longrightarrow> runs \<noteq> [] \<Longrightarrow> runs_total runs < sbr_Pos run"
proof (induction runs arbitrary: run rule: rev_induct)
  case (snoc r runs)
  have "apart (runs @ [r])" "sbr_Pos r + sbr_Length r < sbr_Pos run" using snoc.prems(1) by (auto simp: sorted_wrt_append)
  with snoc.IH [of r] show ?case by (cases "runs = []") auto
qed simp

section \<open>The contract of a move\<close>

text \<open>What the loop needs of the move of a run: it brings the values to their slots and changes neither the
  values that are still to be moved nor the slots behind the run.\<close>

locale slot_move =
  fixes move :: "'a list \<Rightarrow> int \<Rightarrow> SetBitRun \<Rightarrow> 'a list option"
  assumes move: "\<lbrakk>j < sbr_Pos run; sbr_Pos run + sbr_Length run \<le> length buf\<rbrakk> \<Longrightarrow>
    \<exists>buf'. move buf (int j) run = Some buf' \<and> length buf' = length buf \<and>
      (\<forall>k < sbr_Length run. buf' ! (sbr_Pos run + k) = buf ! (j + k)) \<and>
      (\<forall>i<j. buf' ! i = buf ! i) \<and> (\<forall>i<length buf. sbr_Pos run + sbr_Length run \<le> i \<longrightarrow> buf' ! i = buf ! i)"
begin

lemma expand_loop_places:
  assumes "runs_view True (rev runs) rdr" "apart runs" "\<And>run. run \<in> set runs \<Longrightarrow> 0 < sbr_Length run \<and> sbr_Pos run + sbr_Length run \<le> length buf"
  shows "\<exists>buf'. expand_loop move rdr buf (int (runs_total runs)) = Some buf' \<and> length buf' = length buf \<and>
    (\<forall>i<length buf. list_ex (\<lambda>run. in_run run i) runs \<longrightarrow> buf' ! i = buf ! runs_rank runs i) \<and>
    (\<forall>i<length buf. (\<forall>run\<in>set runs. sbr_Pos run + sbr_Length run \<le> i) \<longrightarrow> buf' ! i = buf ! i)"
  using assms
proof (induction runs arbitrary: rdr buf rule: rev_induct)
  case Nil
  then show ?case using backward.at_end [of rdr] by (subst expand_loop.simps) auto
next
  case (snoc run runs)
  let ?j = "runs_total runs" and ?P = "sbr_Pos run" and ?n = "sbr_Length run"
  from snoc.prems(1) backward.next_run [of run "rev runs" rdr] obtain rdr' where
    rdr': "SetBitRunReader_NextRun rdr = Some (rdr', run)" "runs_view True (rev runs) rdr'" by auto
  have n: "0 < ?n" "?P + ?n \<le> length buf" using snoc.prems(3) [of run] by auto
  have before: "sbr_Pos r + sbr_Length r < ?P" if "r \<in> set runs" for r using snoc.prems(2) that by (auto simp: sorted_wrt_append)
  have ap: "apart runs" using snoc.prems(2) by (simp add: sorted_wrt_append)
  have rank: "runs_rank runs i = ?j" if "?P \<le> i" for i using before that by (intro runs_rank_beyond) fastforce
  have step: "expand_loop move rdr buf (int (runs_total (runs @ [run]))) =
      (if ?j = ?P then Some buf else do { buf \<leftarrow> move buf (int ?j) run; expand_loop move rdr' buf (int ?j) })"
    using rdr'(1) n by (subst expand_loop.simps) (simp add: Let_def)
  show ?case
  proof (cases "?j = ?P")
    case True
    then have "runs = []" using runs_total_less [OF snoc.prems(2)] by auto
    then show ?thesis using True step by (auto simp: in_run_def)
  next
    case False
    then have j: "?j < ?P" using runs_total_less [OF snoc.prems(2)] by (cases "runs = []") auto
    from move [OF j n(2)] obtain buf1 where
      1: "move buf (int ?j) run = Some buf1" "length buf1 = length buf" "\<And>k. k < ?n \<Longrightarrow> buf1 ! (?P + k) = buf ! (?j + k)"
        "\<And>i. i < ?j \<Longrightarrow> buf1 ! i = buf ! i" "\<And>i. i < length buf \<Longrightarrow> ?P + ?n \<le> i \<Longrightarrow> buf1 ! i = buf ! i" by blast
    have "\<And>r. r \<in> set runs \<Longrightarrow> 0 < sbr_Length r \<and> sbr_Pos r + sbr_Length r \<le> length buf1" using snoc.prems(3) 1(2) by simp
    from snoc.IH [OF rdr'(2) ap this] obtain buf2 where
      2: "expand_loop move rdr' buf1 (int ?j) = Some buf2" "length buf2 = length buf"
        "\<And>i. i < length buf \<Longrightarrow> list_ex (\<lambda>run. in_run run i) runs \<Longrightarrow> buf2 ! i = buf1 ! runs_rank runs i"
        "\<And>i. i < length buf \<Longrightarrow> \<forall>run\<in>set runs. sbr_Pos run + sbr_Length run \<le> i \<Longrightarrow> buf2 ! i = buf1 ! i"
      using 1(2) by auto
    have "buf2 ! i = buf ! runs_rank (runs @ [run]) i" if i: "i < length buf" "list_ex (\<lambda>run. in_run run i) (runs @ [run])" for i
    proof (cases "in_run run i")
      case True
      then have "?P \<le> i" "i - ?P < ?n" by (auto simp: in_run_def)
      moreover from this have "buf2 ! i = buf1 ! (?P + (i - ?P))" using 2(4) [OF i(1)] before by fastforce
      ultimately show ?thesis using 1(3) [of "i - ?P"] rank [of i] by simp
    next
      case False
      with i(2) have ex: "list_ex (\<lambda>run. in_run run i) runs" by simp
      then obtain r where r: "r \<in> set runs" "in_run r i" by (auto simp: list_ex_iff)
      then have "i < ?P" using before [OF r(1)] by (auto simp: in_run_def)
      moreover have "runs_rank runs i < ?j" by (rule runs_rank_less [OF r(2,1)])
      ultimately show ?thesis using 2(3) [OF i(1) ex] 1(4) by simp
    qed
    moreover have "buf2 ! i = buf ! i" if "i < length buf" "\<forall>r\<in>set (runs @ [run]). sbr_Pos r + sbr_Length r \<le> i" for i
      using 2(4) [OF that(1)] 1(5) [OF that(1)] that(2) by simp
    ultimately show ?thesis using step False 1(1) 2(1,2) by auto
  qed
qed

end

text \<open>A move that only permutes the buffer.\<close>

locale slot_permutation = slot_move +
  assumes move_mset: "move buf j run = Some buf' \<Longrightarrow> mset buf' = mset buf"
begin

lemma expand_loop_mset: "expand_loop move rdr buf j = Some buf' \<Longrightarrow> mset buf' = mset buf"
proof -
  assume loop: "expand_loop move rdr buf j = Some buf'"
  have "move = move \<longrightarrow> mset buf' = mset buf"
  proof (rule expand_loop.raw_induct [where P = "\<lambda>m _ b _ y. m = move \<longrightarrow> mset y = mset b", OF _ loop], rule impI)
    fix f m r b i y
    assume IH: "\<And>m r b i y. f m r b i = Some y \<Longrightarrow> m = move \<longrightarrow> mset y = mset b" and m: "m = move"
      and body: "do { (rdr, run) \<leftarrow> SetBitRunReader_NextRun r;
          if sbr_Length run = 0 then Some b
          else let idxDecode = i - int (sbr_Length run)
            in if idxDecode = int (sbr_Pos run) then Some b
               else do { buffer \<leftarrow> m b idxDecode run; f m rdr buffer idxDecode } } = Some y"
    from body obtain r' run where "SetBitRunReader_NextRun r = Some (r', run)" by (auto split: Option.bind_splits)
    then show "mset y = mset b"
      using body IH m by (fastforce simp: Let_def split: Option.bind_splits if_splits dest!: move_mset)
  qed
  then show ?thesis by simp
qed

end

lemma copy_run_move: "slot_move copy_run"
proof
  fix j and run :: SetBitRun and buf :: "'a list"
  assume j: "j < sbr_Pos run" "sbr_Pos run + sbr_Length run \<le> length buf"
  let ?v = "take (sbr_Length run) (drop j buf)"
  have len: "length ?v = sbr_Length run" using j by simp
  have "copy_run buf (int j) run = Some (blit buf (sbr_Pos run) ?v)" using j by (simp add: copy_run_def)
  moreover have "blit buf (sbr_Pos run) ?v ! i = (if sbr_Pos run \<le> i \<and> i < sbr_Pos run + sbr_Length run
      then ?v ! (i - sbr_Pos run) else buf ! i)" if "i < length buf" for i
    using nth_blit [of "sbr_Pos run" ?v buf i] that j len by simp
  ultimately show "\<exists>buf'. copy_run buf (int j) run = Some buf' \<and> length buf' = length buf \<and>
      (\<forall>k < sbr_Length run. buf' ! (sbr_Pos run + k) = buf ! (j + k)) \<and>
      (\<forall>i<j. buf' ! i = buf ! i) \<and> (\<forall>i<length buf. sbr_Pos run + sbr_Length run \<le> i \<longrightarrow> buf' ! i = buf ! i)"
    using j by auto
qed

lemma swap_run_moves:
  "\<lbrakk>j < P; P + k \<le> length buf\<rbrakk> \<Longrightarrow> \<exists>buf'. swap_run buf (int j) P k = Some buf' \<and> length buf' = length buf \<and>
      (\<forall>i<k. buf' ! (P + i) = buf ! (j + i)) \<and> (\<forall>i<j. buf' ! i = buf ! i) \<and> (\<forall>i<length buf. P + k \<le> i \<longrightarrow> buf' ! i = buf ! i)"
proof (induction k arbitrary: buf)
  case (Suc k)
  let ?buf = "buf[P + k := buf ! (j + k), j + k := buf ! (P + k)]"
  have "P + k \<le> length ?buf" using Suc.prems by simp
  from Suc.IH [OF Suc.prems(1) this] obtain buf' where
    buf': "swap_run ?buf (int j) P k = Some buf'" "length buf' = length buf" "\<And>i. i < k \<Longrightarrow> buf' ! (P + i) = ?buf ! (j + i)"
      "\<And>i. i < j \<Longrightarrow> buf' ! i = ?buf ! i" "\<And>i. i < length buf \<Longrightarrow> P + k \<le> i \<Longrightarrow> buf' ! i = ?buf ! i" by auto
  have "swap_run buf (int j) P (Suc k) = Some buf'" using Suc.prems buf'(1) by (simp add: nat_int_add)
  moreover have "buf' ! (P + i) = buf ! (j + i)" if "i < Suc k" for i
    using that Suc.prems buf'(3) [of i] buf'(5) [of "P + k"] by (cases "i = k") auto
  ultimately show ?case using Suc.prems buf'(2,4,5) by auto
qed simp

interpretation copies: slot_move copy_run
  by (rule copy_run_move)


lemma swap_run_mset: "swap_run buf j P k = Some buf' \<Longrightarrow> mset buf' = mset buf"
proof (induction k arbitrary: buf)
  case (Suc k)
  let ?s = "nat (j + int k)" and ?d = "P + k"
  from Suc.prems have "?s < length buf" "?d < length buf" "swap_run (buf[?d := buf ! ?s, ?s := buf ! ?d]) j P k = Some buf'"
    by (auto simp: Let_def idx_def upd_def split: Option.bind_splits if_splits)
  then show ?case using Suc.IH mset_swap [of ?s buf ?d] by (simp add: list_update_swap)
qed simp

interpretation swaps: slot_permutation swap_slots
  by unfold_locales (auto simp: swap_slots_def intro: swap_run_moves swap_run_mset)


section \<open>The whole expansion\<close>

context slot_move
begin

lemma expand_with_places:
  assumes bits: "off + length buf \<le> 8 * length bs" and nulls: "nulls = int (length buf) - int (popcount bs off (length buf))"
  shows "\<exists>buf'. expand_with move buf nulls bs off = Some (buf', length buf) \<and> length buf' = length buf \<and>
    (\<forall>i<length buf. bm_bit bs (off + i) \<longrightarrow> buf' ! i = buf ! popcount bs off i) \<and>
    (buf' = buf \<or> (\<exists>rdr j. expand_loop move rdr buf j = Some buf'))"
proof -
  let ?n = "length buf" and ?p = "\<lambda>i. bm_bit bs (off + i)"
  define runs where "runs = map (report_run False ?n) (stream_runs ?n ?p 0)"
  have runs: "are_set_runs ?p ?n runs" unfolding runs_def by (rule forward_runs)
  then have ap: "apart runs" and within: "\<And>run. run \<in> set runs \<Longrightarrow> 0 < sbr_Length run \<and> sbr_Pos run + sbr_Length run \<le> ?n"
    and bit: "\<And>i. i < ?n \<Longrightarrow> ?p i = list_ex (\<lambda>run. in_run run i) runs" by (auto simp: are_set_runs_def list_all_iff)
  have "runs_total runs = runs_rank runs ?n" using within by (intro runs_rank_beyond [symmetric]) auto
  then have total: "runs_total runs = popcount bs off ?n" using rank_count_bits [OF runs] by (simp add: popcount_count_bits)
  obtain rdr where rdr: "NewReverseSetBitRunReader bs off ?n = Some rdr" "runs_view True (rev runs) rdr"
    using Reset_runs [OF bits runs, of "\<lparr>sr_bitmap = [], sr_pos = 0, sr_length = 0, sr_remaining = 0, sr_curWord = 0,
      sr_curNumBits = 0, sr_reversed = True, sr_firstBit = 0\<rparr>"]
    by (auto simp: NewReverseSetBitRunReader_def newBaseSetBitRunReader_def)
  from expand_loop_places [OF rdr(2) ap within] obtain buf' where buf': "expand_loop move rdr buf (int (runs_total runs)) = Some buf'"
    "length buf' = ?n" "\<And>i. i < ?n \<Longrightarrow> ?p i \<Longrightarrow> buf' ! i = buf ! runs_rank runs i" using bit by blast
  show ?thesis
  proof (cases "popcount bs off ?n = 0")
    case True
    then show ?thesis using nulls count_bits_none [of ?p ?n] by (simp add: expand_with_def popcount_count_bits)
  next
    case False
    have "expand_with move buf nulls bs off = Some (buf', ?n)" using False nulls rdr(1) buf'(1) total by (simp add: expand_with_def)
    then show ?thesis using buf' rank_count_bits [OF runs] by (auto simp: popcount_count_bits)
  qed
qed

end

section \<open>Properties\<close>

text \<open>C36: Given the number of nulls of the bitmap range, both expansions return the length of the buffer and
  put into each slot whose validity bit is set the value that was decoded for it, which is the one at the
  number of valid slots before it, and never panic. The swapping one, as its comment says, leaves a
  permutation of the elements of the buffer, so that no two slots come to share a backing array.\<close>

theorem spacedExpand_places:
  assumes "off + length buf \<le> 8 * length bs" "nulls = int (length buf) - int (popcount bs off (length buf))"
  shows "(\<exists>buf'. spacedExpand buf nulls bs off = Some (buf', length buf) \<and> length buf' = length buf \<and>
      (\<forall>i<length buf. bm_bit bs (off + i) \<longrightarrow> buf' ! i = buf ! popcount bs off i)) \<and>
    (\<exists>buf'. spacedExpandSwap buf nulls bs off = Some (buf', length buf) \<and> mset buf' = mset buf \<and>
      (\<forall>i<length buf. bm_bit bs (off + i) \<longrightarrow> buf' ! i = buf ! popcount bs off i))"
proof -
  from swaps.expand_with_places [OF assms] obtain buf' where
    "spacedExpandSwap buf nulls bs off = Some (buf', length buf)"
    "\<forall>i<length buf. bm_bit bs (off + i) \<longrightarrow> buf' ! i = buf ! popcount bs off i"
    "buf' = buf \<or> (\<exists>rdr j. expand_loop swap_slots rdr buf j = Some buf')" by (auto simp: spacedExpandSwap_def)
  moreover from this have "mset buf' = mset buf" using swaps.expand_loop_mset by blast
  ultimately show ?thesis using copies.expand_with_places [OF assms] by (auto simp: spacedExpand_def)
qed

theorem spacedExpand_places_witness:
  "(\<exists>buf'. spacedExpand ''ab....'' 4 [0x48 :: byte] 2 = Some (buf', 6) \<and> buf' ! 1 = CHR ''a'' \<and> buf' ! 4 = CHR ''b'')"
proof -
  have p: "popcount [0x48 :: byte] 2 6 = 2" "popcount [0x48 :: byte] 2 1 = 0" "popcount [0x48 :: byte] 2 4 = 1"
    "bm_bit [0x48 :: byte] (2 + 1)" "bm_bit [0x48 :: byte] (2 + 4)" by code_simp+
  have len: "length ''ab....'' = 6" by simp
  from conjunct1 [OF spacedExpand_places [of 2 "''ab....''" "[0x48]" 4, unfolded len p]] obtain buf' where
    b: "spacedExpand ''ab....'' 4 [0x48] 2 = Some (buf', 6)"
      "\<forall>i<6. bm_bit [0x48] (2 + i) \<longrightarrow> buf' ! i = ''ab....'' ! popcount [0x48] 2 i" by auto
  have "buf' ! 1 = CHR ''a''" "buf' ! 4 = CHR ''b''" using b(2) [rule_format, of 1] b(2) [rule_format, of 4] p by simp_all
  with b(1) show ?thesis by blast
qed

end
