(* ===== verification/Plain_Decoder.thy ===== *)
theory Plain_Decoder
  imports Dictionary Spaced_Expand
begin

unbundle bit_operations_syntax

text \<open>
  The \<^verbatim>\<open>PLAIN\<close> decoder of \<^verbatim>\<open>parquet/internal/encoding/plain_encoding_types.go\<close>, with the base
  \<^verbatim>\<open>decoder\<close> of \<^verbatim>\<open>decoder.go\<close> and the views of a slice as bytes of \<^verbatim>\<open>types.go\<close>. A value of a type of
  fixed length (\<^verbatim>\<open>int32\<close>, \<^verbatim>\<open>int64\<close>, \<^verbatim>\<open>float32\<close>, \<^verbatim>\<open>float64\<close> or \<^verbatim>\<open>Int96\<close>) is the word of its bytes in memory,
  of 32, 64 or 96 bits: the decoder never looks into a value.
\<close>

section \<open>The source\<close>

definition requiredBytes :: "'a::len itself \<Rightarrow> nat \<Rightarrow> nat" where
  "requiredBytes T n = n * (LENGTH('a) div 8)"

definition getBytes :: "'a::len word list \<Rightarrow> byte list" where
  "getBytes vals = concat (map (bytes_of_word (LENGTH('a) div 8)) vals)"

definition fromBytes :: "byte list \<Rightarrow> 'a::len word list" where
  "fromBytes bs = map (\<lambda>i. word_of_bytes (take (LENGTH('a) div 8) (drop (i * (LENGTH('a) div 8)) bs)))
     [0..<length bs div (LENGTH('a) div 8)]"

definition copyFrom :: "'a::len word list \<Rightarrow> byte list \<Rightarrow> 'a word list" where
  "copyFrom dst bs = blit dst 0 (fromBytes bs)"

record decoder =
  dec_nvals :: nat
  dec_data :: "byte list"

definition decoder_SetData :: "'z decoder_scheme \<Rightarrow> nat \<Rightarrow> byte list \<Rightarrow> 'z decoder_scheme" where
  "decoder_SetData d nvals data = d\<lparr>dec_data := data, dec_nvals := nvals\<rparr>"

definition ValuesLeft :: "'z decoder_scheme \<Rightarrow> nat" where
  "ValuesLeft d = dec_nvals d"

record PlainDecoder = decoder +
  pd_bitSetReader :: "baseSetBitRunReader option"

definition MaxInt32 :: nat where
  "MaxInt32 = 2 ^ 31 - 1"

definition PlainDecoder_Discard :: "'a::len itself \<Rightarrow> PlainDecoder \<Rightarrow> nat \<Rightarrow> (PlainDecoder \<times> nat \<times> goerr option) option" where
  "PlainDecoder_Discard T dec n =
     (let n = min n (dec_nvals dec); nbytes = requiredBytes T n
      in if nbytes > length (dec_data dec) \<or> nbytes > MaxInt32
         then Some (dec, 0, Some (Errorf ''parquet: eof exception discard plain %s, nvals: %d, nbytes: %d, datalen: %d''))
         else do { data \<leftarrow> slice_from (dec_data dec) nbytes;
                   Some (dec\<lparr>dec_data := data, dec_nvals := dec_nvals dec - n\<rparr>, n, None) })"

definition PlainDecoder_Decode ::
  "PlainDecoder \<Rightarrow> 'a::len word list \<Rightarrow> (PlainDecoder \<times> 'a word list \<times> nat \<times> goerr option) option" where
  "PlainDecoder_Decode dec out =
     (let mx = min (length out) (dec_nvals dec); nbytes = requiredBytes TYPE('a) mx
      in if nbytes > length (dec_data dec) \<or> nbytes > MaxInt32
         then Some (dec, out, 0, Some (Errorf ''parquet: eof exception decode plain %s, nvals: %d, nbytes: %d, datalen: %d''))
         else do { dst \<leftarrow> slice out 0 mx;
                   src \<leftarrow> slice (dec_data dec) 0 nbytes;
                   data \<leftarrow> slice_from (dec_data dec) nbytes;
                   Some (dec\<lparr>dec_data := data, dec_nvals := dec_nvals dec - mx\<rparr>, blit out 0 (copyFrom dst src), mx, None) })"

definition decodeDense ::
  "PlainDecoder \<Rightarrow> 'a::len word list \<Rightarrow> int \<Rightarrow> (PlainDecoder \<times> 'a word list \<times> goerr option) option" where
  "decodeDense dec out toread =
     (if toread < 0 then None
      else do { dst \<leftarrow> slice out 0 (nat toread);
                (dec, dst, n, err) \<leftarrow> PlainDecoder_Decode dec dst;
                let out = blit out 0 dst;
                if err \<noteq> None then Some (dec, out, err)
                else if int n \<noteq> toread
                then Some (dec, out, Some (Errorf ''parquet: number of values / definition levels read did not match''))
                else Some (dec, out, None) })"

text \<open>\<open>reset_runs\<close> is the reverse reader of a call, made at the first use and reset afterwards.\<close>

definition reset_runs :: "PlainDecoder \<Rightarrow> byte list \<Rightarrow> nat \<Rightarrow> nat \<Rightarrow> baseSetBitRunReader option" where
  "reset_runs dec validBits validBitsOffset n =
     (case pd_bitSetReader dec of None \<Rightarrow> NewReverseSetBitRunReader validBits validBitsOffset n
      | Some rdr \<Rightarrow> SetBitRunReader_Reset rdr validBits validBitsOffset n)"

partial_function (option) dense_expand_loop ::
  "baseSetBitRunReader \<Rightarrow> 'a list \<Rightarrow> int \<Rightarrow> (baseSetBitRunReader \<times> 'a list) option" where
  "dense_expand_loop rdr out idxDecode =
     do { (rdr, run) \<leftarrow> SetBitRunReader_NextRun rdr;
          if sbr_Length run = 0 then Some (rdr, out)
          else do { out \<leftarrow> copy_run out (idxDecode - int (sbr_Length run)) run;
                    dense_expand_loop rdr out (idxDecode - int (sbr_Length run)) } }"

definition decodeSpacedDense ::
  "PlainDecoder \<Rightarrow> 'a::len word list \<Rightarrow> nat \<Rightarrow> byte list \<Rightarrow> nat \<Rightarrow> (PlainDecoder \<times> 'a word list \<times> nat \<times> goerr option) option" where
  "decodeSpacedDense dec out nullCount validBits validBitsOffset =
     do { let toread = int (length out) - int nullCount;
          (dec, out, err) \<leftarrow> decodeDense dec out toread;
          if err \<noteq> None then Some (dec, out, 0, err)
          else if nullCount = 0 then Some (dec, out, length out, None)
          else do { rdr \<leftarrow> reset_runs dec validBits validBitsOffset (length out);
                    (rdr, out) \<leftarrow> dense_expand_loop rdr out (int (length out) - int nullCount);
                    Some (dec\<lparr>pd_bitSetReader := Some rdr\<rparr>, out, length out, None) } }"

definition maxDirectDecodeRuns :: nat where
  "maxDirectDecodeRuns = 8"

text \<open>The loop that collects at most eight runs, from the last to the first: the reader, and the runs with the
  number of their values and whether one of them is not in its place, or \<open>None\<close> when there are too many.\<close>

partial_function (option) collect_runs ::
  "baseSetBitRunReader \<Rightarrow> int \<Rightarrow> SetBitRun list \<Rightarrow> int \<Rightarrow> bool \<Rightarrow> (baseSetBitRunReader \<times> (SetBitRun list \<times> int \<times> bool) option) option" where
  "collect_runs rdr toread validRuns decodedPos needsExpansion =
     do { (rdr, run) \<leftarrow> SetBitRunReader_NextRun rdr;
          if sbr_Length run = 0 then Some (rdr, Some (validRuns, decodedPos, needsExpansion))
          else if length validRuns = maxDirectDecodeRuns then Some (rdr, None)
          else let densePos = toread - decodedPos - int (sbr_Length run);
                   needsExpansion = (needsExpansion \<or> int (sbr_Pos run) \<noteq> densePos);
                   decodedPos = decodedPos + int (sbr_Length run)
            in if decodedPos \<ge> toread then Some (rdr, Some (validRuns @ [run], decodedPos, needsExpansion))
               else collect_runs rdr toread (validRuns @ [run]) decodedPos needsExpansion }"

text \<open>The loop that decodes the runs, from the last collected to the first.\<close>

fun decode_runs ::
  "PlainDecoder \<Rightarrow> 'a::len word list \<Rightarrow> SetBitRun list \<Rightarrow> (PlainDecoder \<times> 'a word list \<times> goerr option) option" where
  "decode_runs dec out [] = Some (dec, out, None)"
| "decode_runs dec out (run # runs) =
     do { dst \<leftarrow> slice out (sbr_Pos run) (sbr_Pos run + sbr_Length run);
          (dec, dst, n, err) \<leftarrow> PlainDecoder_Decode dec dst;
          let out = blit out (sbr_Pos run) dst;
          if err \<noteq> None then Some (dec, out, err)
          else if n \<noteq> sbr_Length run
          then Some (dec, out, Some (Errorf ''parquet: number of values / definition levels read did not match''))
          else decode_runs dec out runs }"

definition PlainDecoder_DecodeSpaced ::
  "PlainDecoder \<Rightarrow> 'a::len word list \<Rightarrow> nat \<Rightarrow> byte list \<Rightarrow> nat \<Rightarrow> (PlainDecoder \<times> 'a word list \<times> nat \<times> goerr option) option" where
  "PlainDecoder_DecodeSpaced dec out nullCount validBits validBitsOffset =
     (if nullCount = 0 then
        do { (dec, out, err) \<leftarrow> decodeDense dec out (int (length out));
             if err \<noteq> None then Some (dec, out, 0, err) else Some (dec, out, length out, None) }
      else let toread = int (length out) - int nullCount
        in if toread = 0 then Some (dec, out, length out, None)
           else do { rdr \<leftarrow> reset_runs dec validBits validBitsOffset (length out);
                     (rdr, collected) \<leftarrow> collect_runs rdr toread [] 0 False;
                     let dec = dec\<lparr>pd_bitSetReader := Some rdr\<rparr>;
                     (case collected of
                        None \<Rightarrow> decodeSpacedDense dec out nullCount validBits validBitsOffset
                      | Some (validRuns, decodedPos, needsExpansion) \<Rightarrow>
                          if decodedPos \<noteq> toread then decodeSpacedDense dec out nullCount validBits validBitsOffset
                          else if \<not> needsExpansion then
                            do { (dec, out, err) \<leftarrow> decodeDense dec out toread;
                                 if err \<noteq> None then Some (dec, out, 0, err) else Some (dec, out, length out, None) }
                          else do { (dec, out, err) \<leftarrow> decode_runs dec out (rev validRuns);
                                    if err \<noteq> None then Some (dec, out, 0, err) else Some (dec, out, length out, None) }) })"

section \<open>Values and their bytes\<close>

lemma word_of_bytes_bytes_of_word: "8 * n = LENGTH('a) \<Longrightarrow> word_of_bytes (bytes_of_word n w) = w" for w :: "'a::len word"
  by (rule bit_word_eqI) (simp add: bit_word_of_bytes bm_simps)

lemma length_getBytes [simp]: "length (getBytes vals) = length vals * (LENGTH('a) div 8)" for vals :: "'a::len word list"
  by (induction vals) (simp_all add: getBytes_def)

lemma getBytes_append [simp]: "getBytes (xs @ ys) = getBytes xs @ getBytes ys"
  by (simp add: getBytes_def)

lemma getBytes_Nil [simp]: "getBytes [] = []"
  by (simp add: getBytes_def)

lemma getBytes_take: "take (n * (LENGTH('a) div 8)) (getBytes vals) = getBytes (take n vals)" for vals :: "'a::len word list"
proof (cases "n \<le> length vals")
  case True
  have "getBytes vals = getBytes (take n vals) @ getBytes (drop n vals)" by (simp flip: getBytes_append)
  moreover have "length (getBytes (take n vals)) = n * (LENGTH('a) div 8)" using True by simp
  ultimately show ?thesis by (metis append_eq_conv_conj)
next
  case False
  then have "length (getBytes vals) \<le> n * (LENGTH('a) div 8)" by simp
  then show ?thesis using False by simp
qed

lemma getBytes_drop: "drop (n * (LENGTH('a) div 8)) (getBytes vals) = getBytes (drop n vals)" for vals :: "'a::len word list"
proof (cases "n \<le> length vals")
  case True
  have "getBytes vals = getBytes (take n vals) @ getBytes (drop n vals)" by (simp flip: getBytes_append)
  moreover have "length (getBytes (take n vals)) = n * (LENGTH('a) div 8)" using True by simp
  ultimately show ?thesis by (metis append_eq_conv_conj)
next
  case False
  then have "length (getBytes vals) \<le> n * (LENGTH('a) div 8)" by simp
  then show ?thesis using False by simp
qed

lemma getBytes_nth:
  "i < length vals \<Longrightarrow> take (LENGTH('a) div 8) (drop (i * (LENGTH('a) div 8)) (getBytes vals)) = bytes_of_word (LENGTH('a) div 8) (vals ! i)"
  for vals :: "'a::len word list"
  unfolding getBytes_drop using getBytes_take [of 1 "drop i vals"] by (simp add: take_Suc hd_drop_conv_nth) (simp add: getBytes_def)

lemma fromBytes_getBytes [simp]:
  assumes "8 dvd LENGTH('a::len)"
  shows "fromBytes (getBytes vals) = (vals :: 'a word list)"
proof -
  have "8 * (LENGTH('a) div 8) = LENGTH('a)" "0 < LENGTH('a)" using assms by simp_all
  then have "8 * (LENGTH('a) div 8) = LENGTH('a)" "0 < LENGTH('a) div 8" by linarith+
  then show ?thesis by (intro nth_equalityI) (simp_all add: fromBytes_def getBytes_nth word_of_bytes_bytes_of_word)
qed

section \<open>The values a decoder holds\<close>

text \<open>The decoder holds the values \<open>vals\<close>: its data begins with their bytes, which a page of at most
  \<^verbatim>\<open>MaxInt32\<close> bytes has, and its reader of runs, if it has one, reads from the back.\<close>

definition plain_holds :: "PlainDecoder \<Rightarrow> 'a::len word list \<Rightarrow> bool" where
  "plain_holds dec vals \<longleftrightarrow> 8 dvd LENGTH('a) \<and> dec_nvals dec = length vals \<and>
     (\<exists>rest. dec_data dec = getBytes vals @ rest) \<and> requiredBytes TYPE('a) (length vals) \<le> MaxInt32 \<and>
     (\<forall>rdr. pd_bitSetReader dec = Some rdr \<longrightarrow> sr_reversed rdr)"

definition after_values :: "'a::len itself \<Rightarrow> PlainDecoder \<Rightarrow> nat \<Rightarrow> PlainDecoder" where
  "after_values T dec n = dec\<lparr>dec_data := drop (requiredBytes T n) (dec_data dec), dec_nvals := dec_nvals dec - n\<rparr>"

lemma requiredBytes_mono: "m \<le> n \<Longrightarrow> requiredBytes T m \<le> requiredBytes T n"
  by (simp add: requiredBytes_def)

lemma plain_holds_after:
  assumes "plain_holds dec vals"
  shows "plain_holds (after_values TYPE('a) dec n) (drop n (vals :: 'a::len word list))"
proof -
  let ?s = "LENGTH('a) div 8"
  obtain rest where "dec_data dec = getBytes vals @ rest" using assms by (auto simp: plain_holds_def)
  then have "dec_data (after_values TYPE('a) dec n) = getBytes (drop n vals) @ drop (n * ?s - length vals * ?s) rest"
    by (simp add: after_values_def requiredBytes_def getBytes_drop)
  moreover have "requiredBytes TYPE('a) (length vals - n) \<le> MaxInt32"
    using assms requiredBytes_mono [of "length vals - n" "length vals" "TYPE('a)"] by (simp add: plain_holds_def)
  ultimately show ?thesis using assms by (auto simp: plain_holds_def after_values_def)
qed

lemma PlainDecode_ok:
  assumes "plain_holds dec vals" "n = min (length out) (length vals)"
  shows "PlainDecoder_Decode dec out = Some (after_values TYPE('a) dec n, blit out 0 (take n (vals :: 'a::len word list)), n, None)"
proof -
  from assms(1) obtain rest where rest: "dec_data dec = getBytes vals @ rest" "dec_nvals dec = length vals"
    "requiredBytes TYPE('a) (length vals) \<le> MaxInt32" "8 dvd LENGTH('a)" by (auto simp: plain_holds_def)
  have n: "n \<le> length vals" and n': "n \<le> length out" using assms(2) by simp_all
  have le: "n * (LENGTH('a) div 8) \<le> length vals * (LENGTH('a) div 8)" using n by simp
  have bound: "requiredBytes TYPE('a) n \<le> MaxInt32" using requiredBytes_mono [OF n] rest(3) by (rule order.trans)
  have "take (n * (LENGTH('a) div 8)) (dec_data dec) = getBytes (take n vals)" using rest(1) le by (simp add: getBytes_take)
  moreover have len: "n * (LENGTH('a) div 8) \<le> length (dec_data dec)"
    unfolding rest(1) length_append length_getBytes by (rule trans_le_add1 [OF le])
  moreover have "blit out 0 (blit (take n out) 0 (take n vals)) = blit out 0 (take n vals)"
    using assms(2) by (intro nth_equalityI) (auto simp: blit_def nth_append)
  ultimately show ?thesis
    using rest(2,4) bound len unfolding PlainDecoder_Decode_def Let_def assms(2) [symmetric] rest(2) requiredBytes_def
    by (simp add: n' copyFrom_def after_values_def requiredBytes_def rest(2))
qed

lemma PlainDiscard_ok:
  assumes "plain_holds dec (vals :: 'a::len word list)"
  shows "PlainDecoder_Discard TYPE('a) dec k = Some (after_values TYPE('a) dec (min k (length vals)), min k (length vals), None)"
proof -
  from assms obtain rest where rest: "dec_data dec = getBytes vals @ rest" "dec_nvals dec = length vals"
    "requiredBytes TYPE('a) (length vals) \<le> MaxInt32" by (auto simp: plain_holds_def)
  let ?n = "min k (length vals)"
  have n: "?n \<le> length vals" by simp
  have "?n * (LENGTH('a) div 8) \<le> length vals * (LENGTH('a) div 8)" using n by (rule mult_le_mono1)
  then have "requiredBytes TYPE('a) ?n \<le> length (dec_data dec)"
    unfolding rest(1) length_append length_getBytes requiredBytes_def by (rule trans_le_add1)
  moreover have "requiredBytes TYPE('a) ?n \<le> MaxInt32" using requiredBytes_mono [OF n] rest(3) by (rule order.trans)
  ultimately show ?thesis by (simp add: PlainDecoder_Discard_def Let_def rest(2) after_values_def)
qed

interpretation plain_values: value_decoder PlainDecoder_Decode plain_holds
proof
  fix vd and vs out :: "'a::len word list" assume h: "plain_holds vd vs" "length out \<le> length vs"
  then have "PlainDecoder_Decode vd out = Some (after_values TYPE('a) vd (length out), take (length out) vs, length out, None)"
    using PlainDecode_ok [OF h(1), of "length out" out] by (simp add: blit_def)
  then show "\<exists>vd'. PlainDecoder_Decode vd out = Some (vd', take (length out) vs, length out, None) \<and> plain_holds vd' (drop (length out) vs)"
    using plain_holds_after [OF h(1)] by blast
qed

section \<open>Decoding into spaced slots\<close>

lemma plain_holds_reader: "plain_holds dec vals \<Longrightarrow> sr_reversed rdr \<Longrightarrow> plain_holds (dec\<lparr>pd_bitSetReader := Some rdr\<rparr>) vals"
  by (simp add: plain_holds_def)

lemma reset_runs_ok:
  assumes "plain_holds dec vals" "off + n \<le> 8 * length bs" "are_set_runs (\<lambda>i. bm_bit bs (off + i)) n runs"
  shows "\<exists>rdr. reset_runs dec bs off n = Some rdr \<and> runs_view True (rev runs) rdr"
proof (cases "pd_bitSetReader dec")
  case None
  then show ?thesis
    using Reset_runs [OF assms(2,3), of "\<lparr>sr_bitmap = [], sr_pos = 0, sr_length = 0, sr_remaining = 0, sr_curWord = 0,
      sr_curNumBits = 0, sr_reversed = True, sr_firstBit = 0\<rparr>"]
    by (auto simp: reset_runs_def NewReverseSetBitRunReader_def newBaseSetBitRunReader_def)
next
  case (Some rdr)
  then have "sr_reversed rdr" using assms(1) by (simp add: plain_holds_def)
  then show ?thesis using Some Reset_runs [OF assms(2,3), of rdr] by (auto simp: reset_runs_def)
qed

lemma runs_view_reversed: "runs_view True runs rdr \<Longrightarrow> sr_reversed rdr"
  by (simp add: runs_view_def)

lemma decodeDense_ok:
  assumes "plain_holds dec vals" "k \<le> length out" "k \<le> length vals"
  shows "decodeDense dec out (int k) = Some (after_values TYPE('a) dec k, blit out 0 (take k (vals :: 'a::len word list)), None)"
proof -
  have "PlainDecoder_Decode dec (take k out) = Some (after_values TYPE('a) dec k, take k vals, k, None)"
    using PlainDecode_ok [OF assms(1), of k "take k out"] assms(2,3) by (simp add: blit_def)
  then show ?thesis using assms(2) by (simp add: decodeDense_def)
qed

text \<open>The loop of \<^verbatim>\<open>decodeSpacedDense\<close> goes on where \<^verbatim>\<open>spacedExpand\<close> stops, at the first run that is in its place;
  what is left to do there is to copy that run onto itself.\<close>

lemma dense_expand_loop_eq:
  assumes "runs_view True (rev runs) rdr" "apart runs"
    "\<And>run. run \<in> set runs \<Longrightarrow> 0 < sbr_Length run \<and> sbr_Pos run + sbr_Length run \<le> length buf"
  shows "\<exists>rdr' buf'. dense_expand_loop rdr buf (int (runs_total runs)) = Some (rdr', buf') \<and> sr_reversed rdr' \<and>
    expand_loop copy_run rdr buf (int (runs_total runs)) = Some buf'"
  using assms
proof (induction runs arbitrary: rdr buf rule: rev_induct)
  case Nil
  then obtain r where "SetBitRunReader_NextRun rdr = Some (r, \<lparr>sbr_Pos = 0, sbr_Length = 0\<rparr>)" "runs_view True [] r"
    using backward.at_end [of rdr] by auto
  then show ?case by (subst dense_expand_loop.simps, subst expand_loop.simps) (simp add: runs_view_reversed)
next
  case (snoc run runs)
  let ?j = "runs_total runs" and ?P = "sbr_Pos run" and ?n = "sbr_Length run"
  from snoc.prems(1) backward.next_run [of run "rev runs" rdr] obtain rdr' where
    rdr': "SetBitRunReader_NextRun rdr = Some (rdr', run)" "runs_view True (rev runs) rdr'" by auto
  have n: "0 < ?n" "?P + ?n \<le> length buf" using snoc.prems(3) [of run] by auto
  have ap: "apart runs" using snoc.prems(2) by (simp add: sorted_wrt_append)
  have "dense_expand_loop rdr buf (int (runs_total (runs @ [run]))) = do { buf \<leftarrow> copy_run buf (int ?j) run; dense_expand_loop rdr' buf (int ?j) }"
    using rdr'(1) n by (subst dense_expand_loop.simps) simp
  moreover have "expand_loop copy_run rdr buf (int (runs_total (runs @ [run]))) =
      (if ?j = ?P then Some buf else do { buf \<leftarrow> copy_run buf (int ?j) run; expand_loop copy_run rdr' buf (int ?j) })"
    using rdr'(1) n by (subst expand_loop.simps) (simp add: Let_def)
  ultimately have step: "dense_expand_loop rdr buf (int (runs_total (runs @ [run]))) = do { buf \<leftarrow> copy_run buf (int ?j) run; dense_expand_loop rdr' buf (int ?j) }"
    "expand_loop copy_run rdr buf (int (runs_total (runs @ [run]))) =
      (if ?j = ?P then Some buf else do { buf \<leftarrow> copy_run buf (int ?j) run; expand_loop copy_run rdr' buf (int ?j) })" by blast+
  show ?case
  proof (cases "?j = ?P")
    case True
    then have runs: "runs = []" using runs_total_less [OF snoc.prems(2)] by auto
    have "blit buf ?P (take ?n (drop ?P buf)) = buf" using n by (simp add: blit_def) (metis add.commute append_take_drop_id drop_drop)
    then have "copy_run buf (int ?j) run = Some buf" using n True by (simp add: copy_run_def)
    moreover obtain r where "SetBitRunReader_NextRun rdr' = Some (r, \<lparr>sbr_Pos = 0, sbr_Length = 0\<rparr>)" "runs_view True [] r"
      using backward.at_end [of rdr'] rdr'(2) runs by auto
    ultimately show ?thesis unfolding step using True by (subst dense_expand_loop.simps) (simp add: runs_view_reversed)
  next
    case False
    then have j: "?j < ?P" using runs_total_less [OF snoc.prems(2)] by (cases "runs = []") auto
    from copies.move [OF j n(2)] obtain buf1 where 1: "copy_run buf (int ?j) run = Some buf1" "length buf1 = length buf" by blast
    then show ?thesis unfolding step using False snoc.IH [OF rdr'(2) ap, of buf1] snoc.prems(3) by auto
  qed
qed

text \<open>What a spaced decoder does: the valid slots get the next values, in order.\<close>

definition fills_slots :: "(nat \<Rightarrow> bool) \<Rightarrow> 'a list \<Rightarrow> 'a list \<Rightarrow> 'a list \<Rightarrow> bool" where
  "fills_slots p vals out out' \<longleftrightarrow> length out' = length out \<and> (\<forall>i<length out. p i \<longrightarrow> out' ! i = vals ! count_bits p i)"

lemma total_count_bits:
  assumes "are_set_runs p n runs"
  shows "runs_total runs = count_bits p n"
proof -
  have "runs_total runs = runs_rank runs n" using assms by (intro runs_rank_beyond [symmetric]) (auto simp: are_set_runs_def list_all_iff)
  then show ?thesis using rank_count_bits [OF assms] by simp
qed

lemma decodeSpacedDense_ok:
  fixes vals out :: "'a::len word list" and p :: "nat \<Rightarrow> bool"
  assumes "plain_holds dec vals" "off + length out \<le> 8 * length bs" "p = (\<lambda>i. bm_bit bs (off + i))"
    "are_set_runs p (length out) runs" "nulls + count_bits p (length out) = length out" "count_bits p (length out) \<le> length vals"
  shows "\<exists>dec' out'. decodeSpacedDense dec out nulls bs off = Some (dec', out', length out, None) \<and>
    fills_slots p vals out out' \<and> plain_holds dec' (drop (count_bits p (length out)) vals)"
proof -
  let ?n = "length out" and ?k = "count_bits p (length out)"
  let ?dec = "after_values TYPE('a) dec ?k" and ?out = "blit out 0 (take ?k vals)"
  have k: "int ?n - int nulls = int ?k" "?k \<le> ?n" using assms(5) by simp_all
  note dense = decodeDense_ok [OF assms(1) k(2) assms(6)]
  have len: "length ?out = ?n" by simp
  have out: "?out ! i = vals ! i" if "i < ?k" for i using that k(2) assms(6) by (simp add: blit_def nth_append)
  note holds = plain_holds_after [OF assms(1), of ?k]
  show ?thesis
  proof (cases "nulls = 0")
    case True
    then have "count_bits p i = i" if "i < ?n" for i using that assms(5) count_bits_all [of p ?n] count_bits_all [of p i] by auto
    then have "fills_slots p vals out ?out" using out True assms(5) by (simp add: fills_slots_def)
    then show ?thesis using dense holds True k(1) by (simp add: decodeSpacedDense_def)
  next
    case False
    have runs: "apart runs" "\<And>run. run \<in> set runs \<Longrightarrow> 0 < sbr_Length run \<and> sbr_Pos run + sbr_Length run \<le> length ?out"
      "\<And>i. i < ?n \<Longrightarrow> p i = list_ex (\<lambda>run. in_run run i) runs" "runs_total runs = ?k"
      using assms(4) total_count_bits by (auto simp: are_set_runs_def list_all_iff)
    obtain rdr where rdr: "reset_runs ?dec bs off ?n = Some rdr" "runs_view True (rev runs) rdr"
      using reset_runs_ok [OF holds assms(2)] assms(3,4) by blast
    from dense_expand_loop_eq [OF rdr(2) runs(1,2)] obtain rdr' buf' where
      buf': "dense_expand_loop rdr ?out (int ?k) = Some (rdr', buf')" "sr_reversed rdr'" "expand_loop copy_run rdr ?out (int ?k) = Some buf'"
      unfolding runs(4) by blast
    from copies.expand_loop_places [OF rdr(2) runs(1,2)] buf'(3) have b: "length buf' = ?n"
      "\<And>i. i < ?n \<Longrightarrow> p i \<Longrightarrow> buf' ! i = ?out ! runs_rank runs i" using runs(3) by (auto simp: runs(4))
    have "count_bits p i < ?k" if "i < ?n" "p i" for i using that by (rule count_bits_less)
    then have "fills_slots p vals out buf'" using b rank_count_bits [OF assms(4)] out by (simp add: fills_slots_def)
    moreover have "decodeSpacedDense dec out nulls bs off = Some (?dec\<lparr>pd_bitSetReader := Some rdr'\<rparr>, buf', ?n, None)"
      using dense rdr(1) buf'(1) b(1) False len by (simp add: decodeSpacedDense_def k(1))
    ultimately show ?thesis using plain_holds_reader [OF holds buf'(2)] by blast
  qed
qed

text \<open>The runs that are in their place already hold the values that were decoded to the front.\<close>

definition in_place :: "SetBitRun list \<Rightarrow> bool" where
  "in_place runs \<longleftrightarrow> (\<forall>k<length runs. sbr_Pos (runs ! k) = runs_total (take k runs))"

lemma in_place_snoc: "in_place (runs @ [run]) \<longleftrightarrow> in_place runs \<and> sbr_Pos run = runs_total runs"
  by (auto simp: in_place_def nth_append less_Suc_eq)

lemma in_place_rank: "in_place runs \<Longrightarrow> apart runs \<Longrightarrow> list_ex (\<lambda>run. in_run run i) runs \<Longrightarrow> runs_rank runs i = i \<and> i < runs_total runs"
proof (induction runs rule: rev_induct)
  case (snoc run runs)
  have ap: "apart runs" "\<And>r. r \<in> set runs \<Longrightarrow> sbr_Pos r + sbr_Length r < sbr_Pos run" using snoc.prems(2) by (auto simp: sorted_wrt_append)
  show ?case
  proof (cases "in_run run i")
    case True
    have "runs_rank runs i = runs_total runs" using ap(2) True by (intro runs_rank_beyond) (fastforce simp: in_run_def)
    then show ?thesis using True snoc.prems(1) by (auto simp: in_place_snoc in_run_def)
  next
    case False
    then have "list_ex (\<lambda>run. in_run run i) runs" using snoc.prems(3) by simp
    then show ?thesis using snoc.IH snoc.prems(1) ap(1) by (auto simp: in_place_snoc)
  qed
qed simp

lemma collect_runs_ok:
  assumes "runs_view True (rev runs) rdr" "runs \<noteq> []" "\<And>run. run \<in> set runs \<Longrightarrow> 0 < sbr_Length run" "toread = d + int (runs_total runs)"
  shows "\<exists>rdr' res. collect_runs rdr toread acc d needs = Some (rdr', res) \<and> sr_reversed rdr' \<and>
    (res = None \<or> res = Some (acc @ rev runs, toread, needs \<or> \<not> in_place runs))"
  using assms
proof (induction runs arbitrary: rdr acc d needs rule: rev_induct)
  case (snoc run runs)
  let ?n = "sbr_Length run" and ?needs = "needs \<or> sbr_Pos run \<noteq> runs_total runs"
  from snoc.prems(1) backward.next_run [of run "rev runs" rdr] obtain rdr' where
    rdr': "SetBitRunReader_NextRun rdr = Some (rdr', run)" "runs_view True (rev runs) rdr'" by auto
  have n: "0 < ?n" using snoc.prems(3) by simp
  have pos: "toread - d - int ?n = int (runs_total runs)" using snoc.prems(4) by simp
  have step: "collect_runs rdr toread acc d needs =
    (if length acc = maxDirectDecodeRuns then Some (rdr', None)
     else if d + int ?n \<ge> toread then Some (rdr', Some (acc @ [run], d + int ?n, ?needs))
     else collect_runs rdr' toread (acc @ [run]) (d + int ?n) ?needs)"
    using rdr'(1) n pos by (subst collect_runs.simps) (simp add: Let_def)
  show ?case
  proof (cases "runs = []")
    case True
    then show ?thesis unfolding step using snoc.prems(4) runs_view_reversed [OF rdr'(2)] by (simp add: in_place_def)
  next
    case False
    then have "0 < runs_total runs" using snoc.prems(3) by (cases runs) (simp_all add: trans_less_add1)
    then have "\<not> d + int ?n \<ge> toread" using snoc.prems(4) by simp
    moreover have "toread = d + int ?n + int (runs_total runs)" using snoc.prems(4) by simp
    ultimately show ?thesis unfolding step
      using snoc.IH [OF rdr'(2) False, of "d + int ?n" "acc @ [run]" ?needs] snoc.prems(3) runs_view_reversed [OF rdr'(2)]
      by (auto simp: in_place_snoc)
  qed
qed simp

lemma runs_rank_before: "(\<And>run. run \<in> set runs \<Longrightarrow> i \<le> sbr_Pos run) \<Longrightarrow> runs_rank runs i = 0"
  by (induction runs) simp_all

lemma decode_runs_ok:
  fixes vals out :: "'a::len word list"
  assumes "plain_holds dec vals" "apart runs" "\<And>run. run \<in> set runs \<Longrightarrow> sbr_Pos run + sbr_Length run \<le> length out" "runs_total runs \<le> length vals"
  shows "\<exists>dec' out'. decode_runs dec out runs = Some (dec', out', None) \<and> plain_holds dec' (drop (runs_total runs) vals) \<and>
    length out' = length out \<and> (\<forall>i<length out. out' ! i = (if list_ex (\<lambda>run. in_run run i) runs then vals ! runs_rank runs i else out ! i))"
  using assms
proof (induction runs arbitrary: dec out vals)
  case (Cons run runs)
  let ?P = "sbr_Pos run" and ?n = "sbr_Length run"
  let ?out = "blit out ?P (take ?n vals)" and ?dec = "after_values TYPE('a) dec ?n"
  have n: "?P + ?n \<le> length out" "?n \<le> length vals" using Cons.prems(3) [of run] Cons.prems(4) by simp_all
  have len: "length ?out = length out" using n by simp
  have later: "?P + ?n < sbr_Pos r" if "r \<in> set runs" for r using Cons.prems(2) that by simp
  have "PlainDecoder_Decode dec (take ?n (drop ?P out)) = Some (?dec, take ?n vals, ?n, None)"
    using PlainDecode_ok [OF Cons.prems(1), of ?n "take ?n (drop ?P out)"] n by (simp add: blit_def)
  then have step: "decode_runs dec out (run # runs) = decode_runs ?dec ?out runs" using n by simp
  have "\<exists>dec' out'. decode_runs ?dec ?out runs = Some (dec', out', None) \<and> plain_holds dec' (drop (runs_total runs) (drop ?n vals)) \<and>
    length out' = length ?out \<and> (\<forall>i<length ?out. out' ! i = (if list_ex (\<lambda>run. in_run run i) runs then drop ?n vals ! runs_rank runs i else ?out ! i))"
    by (rule Cons.IH [OF plain_holds_after [OF Cons.prems(1)]]) (use Cons.prems n len in auto)
  moreover have "(if list_ex (\<lambda>run. in_run run i) runs then drop ?n vals ! runs_rank runs i else ?out ! i) =
    (if list_ex (\<lambda>run. in_run run i) (run # runs) then vals ! runs_rank (run # runs) i else out ! i)" if i: "i < length out" for i
  proof (cases "list_ex (\<lambda>run. in_run run i) runs")
    case True
    then obtain r where "r \<in> set runs" "in_run r i" by (auto simp: list_ex_iff)
    then have "?P + ?n < i" using later [of r] by (auto simp: in_run_def)
    then show ?thesis using True n by (simp add: add.commute)
  next
    case False
    have "runs_rank runs i = 0" if "in_run run i" using later that by (intro runs_rank_before) (fastforce simp: in_run_def)
    then show ?thesis using False n i nth_blit [of ?P "take ?n vals" out i] by (auto simp: in_run_def)
  qed
  ultimately show ?case unfolding step using n by (simp add: add.commute)
qed simp

lemma DecodeSpaced_ok:
  fixes vals out :: "'a::len word list" and p :: "nat \<Rightarrow> bool"
  assumes "plain_holds dec vals" "off + length out \<le> 8 * length bs" "p = (\<lambda>i. bm_bit bs (off + i))"
    "nulls + count_bits p (length out) = length out" "count_bits p (length out) \<le> length vals"
  shows "\<exists>dec' out'. PlainDecoder_DecodeSpaced dec out nulls bs off = Some (dec', out', length out, None) \<and>
    fills_slots p vals out out' \<and> plain_holds dec' (drop (count_bits p (length out)) vals)"
proof -
  let ?n = "length out" and ?k = "count_bits p (length out)"
  define runs where "runs = map (report_run False ?n) (stream_runs ?n p 0)"
  have are: "are_set_runs p ?n runs" unfolding runs_def by (rule forward_runs)
  then have runs: "apart runs" "\<And>run. run \<in> set runs \<Longrightarrow> 0 < sbr_Length run" "\<And>run. run \<in> set runs \<Longrightarrow> sbr_Pos run + sbr_Length run \<le> ?n"
    "\<And>i. i < ?n \<Longrightarrow> p i = list_ex (\<lambda>run. in_run run i) runs" "runs_total runs = ?k"
    using total_count_bits by (auto simp: are_set_runs_def list_all_iff)
  have k: "int ?n - int nulls = int ?k" "?k \<le> ?n" using assms(4) by simp_all
  have dense: "decodeDense dec out (int ?k) = Some (after_values TYPE('a) dec ?k, blit out 0 (take ?k vals), None)"
    if "plain_holds dec vals" for dec by (rule decodeDense_ok [OF that k(2) assms(5)])
  have front: "fills_slots p vals out (blit out 0 (take ?k vals))" if "\<And>i. i < ?n \<Longrightarrow> p i \<Longrightarrow> count_bits p i = i \<and> i < ?k"
    using that k(2) assms(5) by (auto simp: fills_slots_def nth_blit)
  consider "nulls = 0" | "nulls \<noteq> 0" "?k = 0" | "nulls \<noteq> 0" "?k \<noteq> 0" by blast
  then show ?thesis
  proof cases
    case 1
    then have "count_bits p i = i" if "i < ?n" for i using that assms(4) count_bits_all [of p ?n] count_bits_all [of p i] by auto
    then show ?thesis using 1 assms(4) dense [OF assms(1)] front plain_holds_after [OF assms(1), of ?k] by (simp add: PlainDecoder_DecodeSpaced_def)
  next
    case 2
    then show ?thesis using assms(1) k(1) count_bits_none [of p ?n] by (auto simp: PlainDecoder_DecodeSpaced_def fills_slots_def)
  next
    case 3
    obtain rdr where rdr: "reset_runs dec bs off ?n = Some rdr" "runs_view True (rev runs) rdr"
      using reset_runs_ok [OF assms(1,2)] assms(3) are by blast
    have "runs \<noteq> []" using 3 runs(5) by auto
    from collect_runs_ok [OF rdr(2) this runs(2), of "int ?k" 0 "[]" False] obtain rdr' res where
      c: "collect_runs rdr (int ?k) [] 0 False = Some (rdr', res)" "sr_reversed rdr'" "res = None \<or> res = Some (rev runs, int ?k, \<not> in_place runs)"
      using runs(5) by auto
    let ?dec = "dec\<lparr>pd_bitSetReader := Some rdr'\<rparr>"
    note holds = plain_holds_reader [OF assms(1) c(2)]
    consider "res = None" | "res = Some (rev runs, int ?k, False)" "in_place runs" | "res = Some (rev runs, int ?k, True)" using c(3) by auto
    then show ?thesis
    proof cases
      case 1
      then show ?thesis using decodeSpacedDense_ok [OF holds assms(2,3) are assms(4,5)] 3 rdr(1) c(1)
        by (simp add: PlainDecoder_DecodeSpaced_def k(1))
    next
      case 2
      then have "fills_slots p vals out (blit out 0 (take ?k vals))"
        using in_place_rank [OF 2(2) runs(1)] rank_count_bits [OF are] runs(4,5) by (intro front) force
      then show ?thesis using 2 3 rdr(1) c(1) dense [OF holds] plain_holds_after [OF holds, of ?k]
        by (simp add: PlainDecoder_DecodeSpaced_def k(1))
    next
      case 3
      from decode_runs_ok [OF holds runs(1,3)] obtain dec' out' where
        d: "decode_runs ?dec out runs = Some (dec', out', None)" "plain_holds dec' (drop ?k vals)" "length out' = ?n"
        "\<And>i. i < ?n \<Longrightarrow> out' ! i = (if list_ex (\<lambda>run. in_run run i) runs then vals ! runs_rank runs i else out ! i)"
        using runs(5) assms(5) by auto
      then have "fills_slots p vals out out'" using runs(4) rank_count_bits [OF are] by (simp add: fills_slots_def)
      then show ?thesis using d(1-3) 3 \<open>nulls \<noteq> 0\<close> \<open>?k \<noteq> 0\<close> rdr(1) c(1) by (simp add: PlainDecoder_DecodeSpaced_def k(1))
    qed
  qed
qed

section \<open>Properties\<close>

text \<open>C38: A decoder on the bytes of a list of values, of a type of 32, 64 or 96 bits, delivers them in order: \<^verbatim>\<open>Decode\<close> fills
  the slice as far as there are values, \<^verbatim>\<open>Discard\<close> skips them, and \<^verbatim>\<open>DecodeSpaced\<close>, given the number of nulls, puts them into the
  slots whose validity bit is set, whether it decodes run by run, in front, or in front and then moves the values; a decoder whose
  reader of runs was used before does the same. The decoder is left with the values that come after.\<close>

theorem PlainDecoder_delivers:
  fixes vals out :: "'a::len word list"
  assumes "plain_holds dec vals" "off + length out \<le> 8 * length bs" "nulls + popcount bs off (length out) = length out"
    "popcount bs off (length out) \<le> length vals"
  shows "\<exists>dec1 n1 dec2 n2 dec3 out3.
    PlainDecoder_Decode dec out = Some (dec1, take (length out) vals @ drop (length vals) out, n1, None) \<and>
      n1 = min (length out) (length vals) \<and> plain_holds dec1 (drop n1 vals) \<and>
    PlainDecoder_Discard TYPE('a) dec k = Some (dec2, n2, None) \<and> n2 = min k (length vals) \<and> plain_holds dec2 (drop n2 vals) \<and>
    PlainDecoder_DecodeSpaced dec out nulls bs off = Some (dec3, out3, length out, None) \<and> length out3 = length out \<and>
      (\<forall>i<length out. bm_bit bs (off + i) \<longrightarrow> out3 ! i = vals ! popcount bs off i) \<and> plain_holds dec3 (drop (popcount bs off (length out)) vals)"
proof -
  let ?n = "min (length out) (length vals)" and ?k = "min k (length vals)"
  have "blit out 0 (take ?n vals) = take (length out) vals @ drop (length vals) out"
    by (simp add: blit_def min_def not_le)
  then have 1: "PlainDecoder_Decode dec out = Some (after_values TYPE('a) dec ?n, take (length out) vals @ drop (length vals) out, ?n, None)"
    using PlainDecode_ok [OF assms(1) refl, of out] by simp
  have 2: "PlainDecoder_Discard TYPE('a) dec k = Some (after_values TYPE('a) dec ?k, ?k, None)" by (rule PlainDiscard_ok [OF assms(1)])
  from DecodeSpaced_ok [OF assms(1,2) refl] assms(3,4) obtain dec3 out3 where
    "PlainDecoder_DecodeSpaced dec out nulls bs off = Some (dec3, out3, length out, None)" "length out3 = length out"
    "\<forall>i<length out. bm_bit bs (off + i) \<longrightarrow> out3 ! i = vals ! popcount bs off i" "plain_holds dec3 (drop (popcount bs off (length out)) vals)"
    unfolding popcount_count_bits fills_slots_def by blast
  then show ?thesis using 1 2 plain_holds_after [OF assms(1)] by blast
qed

theorem PlainDecoder_delivers_witness:
  "\<exists>dec out. PlainDecoder_DecodeSpaced \<lparr>dec_nvals = 2, dec_data = [7, 0, 0, 0, 0, 1, 0, 0], pd_bitSetReader = None\<rparr>
     (replicate 4 (9 :: 32 word)) 2 [0x0A] 0 = Some (dec, out, 4, None) \<and> out ! 1 = 7 \<and> out ! 3 = 256"
proof -
  let ?d = "\<lparr>dec_nvals = 2, dec_data = [7, 0, 0, 0, 0, 1, 0, 0], pd_bitSetReader = None\<rparr>" and ?vals = "[7, 256 :: 32 word]"
  have "getBytes ?vals = [7, 0, 0, 0, 0, 1, 0, 0]" by code_simp
  then have 1: "plain_holds ?d ?vals" by (simp add: plain_holds_def requiredBytes_def MaxInt32_def)
  have 2: "2 + popcount [0x0A] 0 4 = 4" "popcount [0x0A] 0 4 \<le> 2" "bm_bit [0x0A] (0 + 1)" "bm_bit [0x0A] (0 + 3)"
    "popcount [0x0A] 0 1 = 0" "popcount [0x0A] 0 3 = 1" by code_simp+
  from PlainDecoder_delivers [OF 1, of 0 "replicate 4 9" "[0x0A]" 2 0] 2(1,2) obtain dec out where
    "PlainDecoder_DecodeSpaced ?d (replicate 4 9) 2 [0x0A] 0 = Some (dec, out, 4, None)"
    "\<forall>i<4. bm_bit [0x0A] (0 + i) \<longrightarrow> out ! i = ?vals ! popcount [0x0A] 0 i" by auto
  moreover from this(2) have "out ! 1 = ?vals ! popcount [0x0A] 0 1" "out ! 3 = ?vals ! popcount [0x0A] 0 3" using 2(3,4) by simp_all
  ultimately show ?thesis using 2(5,6) by simp
qed

text \<open>\<^verbatim>\<open>Decode\<close> and \<^verbatim>\<open>Discard\<close> of a page that is shorter than the number of its values says return an error and no value, and
  leave the decoder as it was.\<close>

lemma PlainDecoder_short_page:
  fixes out :: "'a::len word list"
  assumes "length (dec_data dec) < requiredBytes TYPE('a) (min (length out) (dec_nvals dec))"
  shows "(\<exists>e. PlainDecoder_Decode dec out = Some (dec, out, 0, Some e)) \<and>
    (\<exists>e. PlainDecoder_Discard TYPE('a) dec (length out) = Some (dec, 0, Some e))"
  using assms by (simp add: PlainDecoder_Decode_def PlainDecoder_Discard_def Let_def)

lemma PlainDecoder_short_page_example:
  "\<exists>e. PlainDecoder_Decode \<lparr>dec_nvals = 2, dec_data = [7, 0, 0, 0], pd_bitSetReader = None\<rparr> [0, 0 :: 32 word] =
    Some (\<lparr>dec_nvals = 2, dec_data = [7, 0, 0, 0], pd_bitSetReader = None\<rparr>, [0, 0], 0, Some e)"
  using PlainDecoder_short_page [of "\<lparr>dec_nvals = 2, dec_data = [7, 0, 0, 0], pd_bitSetReader = None\<rparr>" "[0, 0 :: 32 word]"]
  by (simp add: requiredBytes_def)

end
