(* ===== verification/Spaced_Compress.thy ===== *)
theory Spaced_Compress
  imports Spaced_Expand
begin

text \<open>
  \<^verbatim>\<open>spacedCompress\<close> of \<^verbatim>\<open>parquet/internal/encoding/encoder.go\<close>: the values of the slots whose validity bit is set, without
  gaps. The cases of its type switch differ in the type of the values only. The facts on the values of set bits are
  those that the \<^verbatim>\<open>PutSpaced\<close> methods share.
\<close>

section \<open>The source\<close>

partial_function (option) compress_loop :: "'a list \<Rightarrow> baseSetBitRunReader \<Rightarrow> 'a list \<Rightarrow> nat \<Rightarrow> ('a list \<times> nat) option" where
  "compress_loop s reader out nvalid =
     do { (reader, run) \<leftarrow> SetBitRunReader_NextRun reader;
          if sbr_Length run = 0 then Some (out, nvalid)
          else do { _ \<leftarrow> slice_from out nvalid;
                    vals \<leftarrow> slice s (sbr_Pos run) (sbr_Pos run + sbr_Length run);
                    compress_loop s reader (blit out nvalid vals) (nvalid + sbr_Length run) } }"

definition spacedCompress :: "'a list \<Rightarrow> 'a list \<Rightarrow> byte list \<Rightarrow> nat \<Rightarrow> ('a list \<times> nat) option" where
  "spacedCompress xs out validBits validBitsOffset =
     do { reader \<leftarrow> NewSetBitRunReader validBits validBitsOffset (length xs); compress_loop xs reader out 0 }"

section \<open>The values of set bits\<close>

definition valid_values :: "(nat \<Rightarrow> bool) \<Rightarrow> 'a list \<Rightarrow> 'a list" where
  "valid_values p xs = map ((!) xs) (filter p [0..<length xs])"

text \<open>The values of the runs, one run after the other.\<close>

abbreviation run_values_of :: "'a list \<Rightarrow> SetBitRun \<Rightarrow> 'a list" where
  "run_values_of xs run \<equiv> take (sbr_Length run) (drop (sbr_Pos run) xs)"

lemma set_runs_positions:
  assumes "are_set_runs p n runs"
  shows "concat (map (\<lambda>run. [sbr_Pos run..<sbr_Pos run + sbr_Length run]) runs) = filter p [0..<n]"
proof (rule sorted_distinct_set_unique)
  have "sorted_wrt (\<lambda>a b. sbr_Pos a + sbr_Length a < sbr_Pos b) runs" using assms by (simp add: are_set_runs_def)
  then have "sorted_wrt (<) (concat (map (\<lambda>run. [sbr_Pos run..<sbr_Pos run + sbr_Length run]) runs))"
  proof (induction runs)
    case (Cons run runs)
    then show ?case by (fastforce simp: sorted_wrt_append)
  qed simp
  then show "sorted (concat (map (\<lambda>run. [sbr_Pos run..<sbr_Pos run + sbr_Length run]) runs))"
    "distinct (concat (map (\<lambda>run. [sbr_Pos run..<sbr_Pos run + sbr_Length run]) runs))"
    by (simp_all add: strict_sorted_iff)
  show "set (concat (map (\<lambda>run. [sbr_Pos run..<sbr_Pos run + sbr_Length run]) runs)) = set (filter p [0..<n])"
    using assms by (fastforce simp: are_set_runs_def list_all_iff list_ex_iff in_run_def)
  show "sorted (filter p [0..<n])" "distinct (filter p [0..<n])" by (simp_all add: sorted_filter [where f = id, simplified])
qed

lemma set_runs_values:
  assumes "are_set_runs p (length xs) runs"
  shows "concat (map (run_values_of xs) runs) = valid_values p xs"
proof -
  have "run_values_of xs run = map ((!) xs) [sbr_Pos run..<sbr_Pos run + sbr_Length run]" if "run \<in> set runs" for run
    using that assms by (intro nth_equalityI) (auto simp: are_set_runs_def list_all_iff)
  then have "concat (map (run_values_of xs) runs) = concat (map (\<lambda>run. map ((!) xs) [sbr_Pos run..<sbr_Pos run + sbr_Length run]) runs)"
    by (intro arg_cong [where f = concat] map_cong) simp_all
  then show ?thesis using set_runs_positions [OF assms] by (simp add: valid_values_def map_concat comp_def flip: set_runs_positions [OF assms])
qed

lemma length_valid_values: "length (valid_values p xs) = count_bits p (length xs)"
  by (simp add: valid_values_def count_bits_def)

lemma valid_values_le: "length (valid_values p xs) \<le> length xs"
  unfolding valid_values_def using length_filter_le [of p "[0..<length xs]"] by simp

lemma valid_values_all: "(\<And>i. i < length xs \<Longrightarrow> p i) \<Longrightarrow> valid_values p xs = xs"
  by (simp add: valid_values_def map_nth filter_True)

text \<open>A reader made for a range, or reset to it, reports its runs.\<close>

lemma New_runs:
  assumes "off + n \<le> 8 * length bs" "are_set_runs (\<lambda>i. bm_bit bs (off + i)) n runs"
  shows "\<exists>r. NewSetBitRunReader bs off n = Some r \<and> runs_view False runs r"
  using Reset_runs [OF assms, of "\<lparr>sr_bitmap = [], sr_pos = 0, sr_length = 0, sr_remaining = 0, sr_curWord = 0, sr_curNumBits = 0,
    sr_reversed = False, sr_firstBit = 0\<rparr>"]
  by (auto simp: NewSetBitRunReader_def newBaseSetBitRunReader_def)

lemma set_runs_exist: "\<exists>runs. are_set_runs p n runs"
  using forward_runs by blast

lemma VisitSetBitRuns_eq:
  assumes "off + n \<le> 8 * length bs" "are_set_runs (\<lambda>i. bm_bit bs (off + i)) n runs"
  shows "VisitSetBitRuns (Some bs) off n f s = visit_runs f runs s"
proof -
  from New_runs [OF assms] obtain r where r: "NewSetBitRunReader bs off n = Some r" "runs_view False runs r" by blast
  have "VisitSetBitRuns (Some bs) off n f s = map_option snd (visit_runs_loop SetBitRunReader_NextRun f r s)"
    using r(1) by (cases "visit_runs_loop SetBitRunReader_NextRun f r s") (auto simp: VisitSetBitRuns_def)
  then show ?thesis using forward.visit_runs_loop_eq [OF r(2)] by simp
qed

section \<open>Compressing\<close>

lemma compress_loop_eq:
  assumes "runs_view False runs rdr" "list_all (\<lambda>run. 0 < sbr_Length run \<and> sbr_Pos run + sbr_Length run \<le> length s) runs"
    "k + length (concat (map (run_values_of s) runs)) \<le> length out"
  shows "compress_loop s rdr out k = Some (blit out k (concat (map (run_values_of s) runs)), k + length (concat (map (run_values_of s) runs)))"
  using assms
proof (induction runs arbitrary: rdr out k)
  case Nil
  from forward.at_end [OF Nil(1)] show ?case by (subst compress_loop.simps) auto
next
  case (Cons run runs)
  let ?v = "run_values_of s run" and ?vs = "concat (map (run_values_of s) runs)"
  from forward.next_run [OF Cons.prems(1)] obtain r' where r': "SetBitRunReader_NextRun rdr = Some (r', run)" "runs_view False runs r'" by blast
  have v: "length ?v = sbr_Length run" "0 < sbr_Length run" "sbr_Pos run + sbr_Length run \<le> length s" using Cons.prems(2) by auto
  have "compress_loop s rdr out k = compress_loop s r' (blit out k ?v) (k + sbr_Length run)"
    using r'(1) v Cons.prems(3) by (subst compress_loop.simps) simp
  also have "\<dots> = Some (blit (blit out k ?v) (k + sbr_Length run) ?vs, k + sbr_Length run + length ?vs)"
    by (rule Cons.IH [OF r'(2)]) (use Cons.prems(2,3) v in auto)
  also have "blit (blit out k ?v) (k + sbr_Length run) ?vs = blit out k (?v @ ?vs)"
    using Cons.prems(3) v by (intro nth_equalityI) (auto simp: nth_blit nth_append)
  finally show ?case using v by simp
qed

text \<open>\<^verbatim>\<open>spacedCompress\<close> ends, moves the values of the set bits, in order, to the front of the output and returns their number.\<close>

theorem spacedCompress_compresses:
  assumes "off + length xs \<le> 8 * length bs" "popcount bs off (length xs) \<le> length out"
  shows "\<exists>out'. spacedCompress xs out bs off = Some (out', popcount bs off (length xs)) \<and> length out' = length out \<and>
    take (popcount bs off (length xs)) out' = valid_values (\<lambda>i. bm_bit bs (off + i)) xs"
proof -
  let ?p = "\<lambda>i. bm_bit bs (off + i)"
  let ?vs = "valid_values ?p xs"
  obtain runs where runs: "are_set_runs ?p (length xs) runs" using set_runs_exist by blast
  obtain r where r: "NewSetBitRunReader bs off (length xs) = Some r" "runs_view False runs r" using New_runs [OF assms(1) runs] by blast
  have len: "length ?vs = popcount bs off (length xs)" by (simp add: length_valid_values popcount_count_bits)
  have "compress_loop xs r out 0 = Some (blit out 0 ?vs, length ?vs)"
    using compress_loop_eq [OF r(2), of xs 0 out] runs assms(2) len unfolding set_runs_values [OF runs] by (simp add: are_set_runs_def)
  then show ?thesis using r(1) assms(2) by (simp add: spacedCompress_def len blit_def)
qed

theorem spacedCompress_compresses_witness:
  "\<exists>out'. spacedCompress [10, 11, 12, 13 :: nat] [0, 0, 0, 0] [0x0D] 0 = Some (out', 3) \<and> take 3 out' = [10, 12, 13]"
proof -
  have "popcount [0x0D] 0 4 = 3" "valid_values (\<lambda>i. bm_bit [0x0D] (0 + i)) [10, 11, 12, 13 :: nat] = [10, 12, 13]" by code_simp+
  moreover have "length [10, 11, 12, 13 :: nat] = 4" "length [0, 0, 0, 0 :: nat] = 4" by simp_all
  ultimately show ?thesis using spacedCompress_compresses [of 0 "[10, 11, 12, 13 :: nat]" "[0x0D]" "[0, 0, 0, 0]"] by (simp only:) auto
qed

end
