(* ===== verification/Plain_Encoder.thy ===== *)
theory Plain_Encoder
  imports Buffer_Writers Plain_Decoder Spaced_Compress
begin

text \<open>
  The base \<^verbatim>\<open>encoder\<close> of \<^verbatim>\<open>parquet/internal/encoding/encoder.go\<close> and the \<^verbatim>\<open>PLAIN\<close> encoder of
  \<^verbatim>\<open>plain_encoding_types.go\<close>. The argument \<open>pool\<close> is the buffer that \<^verbatim>\<open>bufferPool.Get()\<close> returns when a writer needs one.
\<close>

section \<open>The source\<close>

record encoder =
  enc_sink :: PooledBufferWriter

definition newEncoderBase :: "Buffer \<Rightarrow> encoder" where
  "newEncoderBase pool = \<lparr>enc_sink = NewPooledBufferWriter pool 1024\<rparr>"

definition ReserveForWrite :: "Buffer \<Rightarrow> 'z encoder_scheme \<Rightarrow> nat \<Rightarrow> 'z encoder_scheme" where
  "ReserveForWrite pool e n = e\<lparr>enc_sink := PooledBufferWriter_Reserve pool (enc_sink e) (int n)\<rparr>"

definition encoder_EstimatedDataEncodedSize :: "'z encoder_scheme \<Rightarrow> ('z encoder_scheme \<times> int) option" where
  "encoder_EstimatedDataEncodedSize e = do { (w, n) \<leftarrow> PooledBufferWriter_Len (enc_sink e); Some (e\<lparr>enc_sink := w\<rparr>, n) }"

definition encoder_append :: "Buffer \<Rightarrow> 'z encoder_scheme \<Rightarrow> byte list \<Rightarrow> 'z encoder_scheme option" where
  "encoder_append pool e data = do { (w, _, _) \<leftarrow> PooledBufferWriter_Write pool (enc_sink e) data; Some (e\<lparr>enc_sink := w\<rparr>) }"

definition encoder_FlushValues :: "Buffer \<Rightarrow> 'z encoder_scheme \<Rightarrow> ('z encoder_scheme \<times> Buffer \<times> goerr option) option" where
  "encoder_FlushValues pool e = do { (w, buf) \<leftarrow> PooledBufferWriter_Finish pool (enc_sink e); Some (e\<lparr>enc_sink := w\<rparr>, buf, None) }"

definition encoder_Bytes :: "'z encoder_scheme \<Rightarrow> ('z encoder_scheme \<times> byte list) option" where
  "encoder_Bytes e = do { (w, bytes) \<leftarrow> PooledBufferWriter_Bytes (enc_sink e); Some (e\<lparr>enc_sink := w\<rparr>, bytes) }"

definition encoder_Reset :: "Buffer \<Rightarrow> 'z encoder_scheme \<Rightarrow> 'z encoder_scheme" where
  "encoder_Reset pool e = e\<lparr>enc_sink := PooledBufferWriter_Reset pool (enc_sink e) 0\<rparr>"

text \<open>On a little-endian machine the bytes of the slice are written as they are.\<close>

definition writeLE :: "Buffer \<Rightarrow> 'z encoder_scheme \<Rightarrow> 'a::len word list \<Rightarrow> 'z encoder_scheme option" where
  "writeLE pool enc xs = encoder_append pool enc (getBytes xs)"

record PlainEncoder = encoder +
  pe_bitSetReader :: "baseSetBitRunReader option"

definition NewPlainEncoder :: "Buffer \<Rightarrow> PlainEncoder" where
  "NewPlainEncoder pool = encoder.extend (newEncoderBase pool) \<lparr>pe_bitSetReader = None\<rparr>"

definition PlainEncoder_Put :: "Buffer \<Rightarrow> PlainEncoder \<Rightarrow> 'a::len word list \<Rightarrow> PlainEncoder option" where
  "PlainEncoder_Put pool enc xs = writeLE pool enc xs"

text \<open>The loop over the runs of the reader \<^verbatim>\<open>enc.bitSetReader\<close>.\<close>

partial_function (option) plain_put_runs ::
  "Buffer \<Rightarrow> 'a::len word list \<Rightarrow> baseSetBitRunReader \<Rightarrow> PlainEncoder \<Rightarrow> PlainEncoder option" where
  "plain_put_runs pool xs rdr enc =
     do { (rdr, run) \<leftarrow> SetBitRunReader_NextRun rdr;
          if sbr_Length run = 0 then Some (enc\<lparr>pe_bitSetReader := Some rdr\<rparr>)
          else do { vals \<leftarrow> slice xs (sbr_Pos run) (sbr_Pos run + sbr_Length run);
                    enc \<leftarrow> PlainEncoder_Put pool enc vals;
                    plain_put_runs pool xs rdr enc } }"

definition PlainEncoder_PutSpaced :: "Buffer \<Rightarrow> PlainEncoder \<Rightarrow> 'a::len word list \<Rightarrow> byte list \<Rightarrow> nat \<Rightarrow> PlainEncoder option" where
  "PlainEncoder_PutSpaced pool enc xs validBits validBitsOffset =
     do { let enc = ReserveForWrite pool enc (requiredBytes TYPE('a) (length xs));
          rdr \<leftarrow> (case pe_bitSetReader enc of None \<Rightarrow> NewSetBitRunReader validBits validBitsOffset (length xs)
                  | Some rdr \<Rightarrow> SetBitRunReader_Reset rdr validBits validBitsOffset (length xs));
          plain_put_runs pool xs rdr enc }"

section \<open>What was put\<close>

text \<open>The sink holds the bytes of the values, at no offset, and the reader of runs, if there is one, reads from the front.\<close>

definition plain_enc_view :: "PlainEncoder \<Rightarrow> 'a::len word list \<Rightarrow> bool" where
  "plain_enc_view enc vals \<longleftrightarrow> pw_view (enc_sink enc) (getBytes vals) \<and> pw_offset (enc_sink enc) = 0 \<and>
     (\<forall>rdr. pe_bitSetReader enc = Some rdr \<longrightarrow> \<not> sr_reversed rdr)"

lemma append_view:
  assumes "pw_view (enc_sink e) data" "pw_offset (enc_sink e) = 0" "length (data @ p) \<le> 2 ^ 62"
  shows "\<exists>w. encoder_append pool e p = Some (e\<lparr>enc_sink := w\<rparr>) \<and> pw_view w (data @ p) \<and> pw_offset w = 0"
proof -
  have "pw_pos (enc_sink e) = length data" using assms(1,2) by (auto simp: pw_view_def)
  then show ?thesis using Pooled_Write_view [OF assms(1), of p pool] assms(2,3) by (auto simp: encoder_append_def)
qed

lemma PlainPut_view:
  assumes "plain_enc_view enc vals" "requiredBytes TYPE('a) (length (vals @ xs)) \<le> 2 ^ 62"
  shows "\<exists>enc'. PlainEncoder_Put pool enc (xs :: 'a::len word list) = Some enc' \<and> plain_enc_view enc' (vals @ xs) \<and> pe_bitSetReader enc' = pe_bitSetReader enc"
  using append_view [of enc "getBytes vals" "getBytes xs" pool] assms
  by (auto simp: plain_enc_view_def PlainEncoder_Put_def writeLE_def requiredBytes_def algebra_simps)

lemma plain_put_runs_view:
  assumes "runs_view False runs rdr" "list_all (\<lambda>run. 0 < sbr_Length run \<and> sbr_Pos run + sbr_Length run \<le> length xs) runs"
    "plain_enc_view enc vals" "requiredBytes TYPE('a) (length (vals @ concat (map (run_values_of xs) runs))) \<le> 2 ^ 62"
  shows "\<exists>enc'. plain_put_runs pool (xs :: 'a::len word list) rdr enc = Some enc' \<and> plain_enc_view enc' (vals @ concat (map (run_values_of xs) runs))"
  using assms
proof (induction runs arbitrary: rdr enc vals)
  case Nil
  from forward.at_end [OF Nil(1)] obtain r' where
    "SetBitRunReader_NextRun rdr = Some (r', \<lparr>sbr_Pos = 0, sbr_Length = 0\<rparr>)" "runs_view False [] r'" by blast
  then show ?case using Nil(3) by (subst plain_put_runs.simps) (simp add: plain_enc_view_def runs_view_def)
next
  case (Cons run runs)
  from forward.next_run [OF Cons.prems(1)] obtain r' where
    r': "SetBitRunReader_NextRun rdr = Some (r', run)" "runs_view False runs r'" by blast
  let ?v = "run_values_of xs run"
  have v: "0 < sbr_Length run" "sbr_Pos run + sbr_Length run \<le> length xs" using Cons.prems(2) by auto
  have "requiredBytes TYPE('a) (length (vals @ ?v)) \<le> 2 ^ 62"
    by (rule order.trans [OF requiredBytes_mono Cons.prems(4)]) simp
  from PlainPut_view [OF Cons.prems(3) this, of pool] obtain enc1 where
    e: "PlainEncoder_Put pool enc ?v = Some enc1" "plain_enc_view enc1 (vals @ ?v)" by blast
  from Cons.IH [OF r'(2) _ e(2)] Cons.prems(2,4) obtain enc2 where
    "plain_put_runs pool xs r' enc1 = Some enc2" "plain_enc_view enc2 ((vals @ ?v) @ concat (map (run_values_of xs) runs))" by auto
  then show ?case using r'(1) v e(1) by (subst plain_put_runs.simps) simp
qed

lemma PlainPutSpaced_view:
  assumes "plain_enc_view enc vals" "off + length xs \<le> 8 * length bs"
    "requiredBytes TYPE('a) (length (vals @ xs)) \<le> 2 ^ 62"
  shows "\<exists>enc'. PlainEncoder_PutSpaced pool enc (xs :: 'a::len word list) bs off = Some enc' \<and>
    plain_enc_view enc' (vals @ valid_values (\<lambda>i. bm_bit bs (off + i)) xs)"
proof -
  let ?p = "\<lambda>i. bm_bit bs (off + i)" and ?n = "requiredBytes TYPE('a) (length xs)"
  obtain runs where runs: "are_set_runs ?p (length xs) runs" using set_runs_exist by blast
  let ?e = "ReserveForWrite pool enc ?n"
  have "pw_pos (enc_sink enc) = requiredBytes TYPE('a) (length vals)" using assms(1) by (auto simp: plain_enc_view_def pw_view_def requiredBytes_def)
  then have "pw_pos (enc_sink enc) + ?n \<le> 2 ^ 62" using assms(3) by (simp add: requiredBytes_def algebra_simps)
  then have "int (pw_pos (enc_sink enc) + ?n) \<le> int (2 ^ 62)" by (simp only: of_nat_le_iff)
  then have "int (pw_pos (enc_sink enc)) + int ?n \<le> 2 ^ 62" by simp
  then have e: "plain_enc_view ?e vals"
    using assms(1) Pooled_Reserve_view [of "enc_sink enc" "getBytes vals" "int ?n" pool] by (simp add: plain_enc_view_def ReserveForWrite_def)
  have "\<exists>rdr. (case pe_bitSetReader ?e of None \<Rightarrow> NewSetBitRunReader bs off (length xs)
      | Some rdr \<Rightarrow> SetBitRunReader_Reset rdr bs off (length xs)) = Some rdr \<and> runs_view False runs rdr"
    using New_runs [OF assms(2) runs] Reset_runs [OF assms(2) runs] e by (fastforce simp: plain_enc_view_def split: option.split)
  then obtain rdr where rdr: "(case pe_bitSetReader ?e of None \<Rightarrow> NewSetBitRunReader bs off (length xs)
      | Some rdr \<Rightarrow> SetBitRunReader_Reset rdr bs off (length xs)) = Some rdr" "runs_view False runs rdr" by blast
  have "requiredBytes TYPE('a) (length (vals @ valid_values ?p xs)) \<le> 2 ^ 62"
    by (rule order.trans [OF requiredBytes_mono assms(3)]) (use valid_values_le [of ?p xs] in simp)
  then show ?thesis using plain_put_runs_view [OF rdr(2) _ e, of xs pool] rdr(1) runs
    by (simp add: PlainEncoder_PutSpaced_def set_runs_values [OF runs] are_set_runs_def)
qed

lemma PlainFlush_view:
  assumes "plain_enc_view enc (vals :: 'a::len word list)" "mb_length pool = 0"
  shows "\<exists>enc' buf. encoder_FlushValues pool enc = Some (enc', buf, None) \<and> Buffer_Bytes buf = Some (getBytes vals) \<and>
    plain_enc_view enc' ([] :: 'b::len word list)"
proof -
  have v: "pw_view (enc_sink enc) (getBytes vals)" "pw_offset (enc_sink enc) = 0" using assms(1) by (simp_all add: plain_enc_view_def)
  from Pooled_Finish_view [OF v(1), of pool] v(2) obtain b where
    b: "PooledBufferWriter_Finish pool (enc_sink enc) = Some (PooledBufferWriter_Reset pool (enc_sink enc) 0, b)"
      "mb_length b = pw_pos (enc_sink enc)" "data_at (mb_buf b) 0 (getBytes vals)" by auto
  have "pw_pos (enc_sink enc) = length (getBytes vals)" using v by (auto simp: pw_view_def)
  then have "Buffer_Bytes b = Some (getBytes vals)" using b(2,3) Bytes_ok [of b] by (simp add: buffer_ok_def data_at_def)
  then show ?thesis using b(1) Pooled_Reset_view [of 0 pool "enc_sink enc"] assms by (simp add: encoder_FlushValues_def plain_enc_view_def)
qed

section \<open>Properties\<close>

text \<open>\<open>plain_calls enc vals\<close>: the encoder is the result of a sequence of calls, and \<open>vals\<close> are the values put since
  the last \<^verbatim>\<open>FlushValues\<close> or \<^verbatim>\<open>Reset\<close>; the values of a page have at most \<open>2 ^ 31 - 1\<close> bytes. Each call may get another buffer
  from the pool, whose buffers have length 0.\<close>

inductive plain_calls :: "PlainEncoder \<Rightarrow> 'a::len word list \<Rightarrow> bool" where
  new: "mb_length pool = 0 \<Longrightarrow> plain_calls (NewPlainEncoder pool) []"
| put: "plain_calls enc vals \<Longrightarrow> requiredBytes TYPE('a) (length (vals @ xs)) \<le> MaxInt32 \<Longrightarrow>
    PlainEncoder_Put pool enc xs = Some enc' \<Longrightarrow> plain_calls enc' (vals @ xs)" for xs :: "'a word list"
| put_spaced: "plain_calls enc vals \<Longrightarrow> requiredBytes TYPE('a) (length (vals @ xs)) \<le> MaxInt32 \<Longrightarrow> off + length xs \<le> 8 * length bs \<Longrightarrow>
    PlainEncoder_PutSpaced pool enc xs bs off = Some enc' \<Longrightarrow> plain_calls enc' (vals @ valid_values (\<lambda>i. bm_bit bs (off + i)) xs)" for xs :: "'a word list"
| flush: "plain_calls enc vals \<Longrightarrow> mb_length pool = 0 \<Longrightarrow> encoder_FlushValues pool enc = Some (enc', buf, None) \<Longrightarrow> plain_calls enc' []"
| reset: "plain_calls enc vals \<Longrightarrow> mb_length pool = 0 \<Longrightarrow> plain_calls (encoder_Reset pool enc) []"

lemma New_plain_view: "mb_length pool = 0 \<Longrightarrow> plain_enc_view (NewPlainEncoder pool) []"
  using New_Pooled_view [of 1024 pool] by (simp add: plain_enc_view_def NewPlainEncoder_def newEncoderBase_def encoder.defs)

lemma plain_calls_view:
  assumes "plain_calls enc (vals :: 'a::len word list)"
  shows "plain_enc_view enc vals \<and> requiredBytes TYPE('a) (length vals) \<le> MaxInt32"
  using assms
proof (induction rule: plain_calls.induct)
  case (new pool)
  then show ?case using New_plain_view by (simp add: requiredBytes_def)
next
  case (put xs enc vals pool enc')
  then show ?case using PlainPut_view [of enc vals xs pool] by (simp add: MaxInt32_def)
next
  case (put_spaced xs enc vals off bs pool enc')
  have "requiredBytes TYPE('a) (length (vals @ valid_values (\<lambda>i. bm_bit bs (off + i)) xs)) \<le> MaxInt32"
    by (rule order.trans [OF requiredBytes_mono put_spaced(2)]) (use valid_values_le [of _ xs] in simp)
  then show ?case using put_spaced PlainPutSpaced_view [of enc vals off xs bs pool] by (simp add: MaxInt32_def)
next
  case (flush enc vals pool enc' buf)
  then have "\<exists>enc1 buf1. encoder_FlushValues pool enc = Some (enc1, buf1, None) \<and> plain_enc_view enc1 ([] :: 'a word list)"
    using PlainFlush_view [of enc vals pool, where ?'b = 'a] by blast
  then show ?case using flush.hyps(3) by (auto simp: requiredBytes_def)
next
  case (reset enc vals pool)
  then show ?case using Pooled_Reset_view [of 0 pool "enc_sink enc"] by (simp add: plain_enc_view_def encoder_Reset_def requiredBytes_def)
qed

text \<open>C9: \<^verbatim>\<open>PLAIN\<close> round trip. After any sequence of \<^verbatim>\<open>Put\<close>, \<^verbatim>\<open>PutSpaced\<close>, \<^verbatim>\<open>FlushValues\<close> and \<^verbatim>\<open>Reset\<close>, \<^verbatim>\<open>FlushValues\<close> returns a buffer with the bytes of
  the values put since the last one of the latter two, those of \<^verbatim>\<open>PutSpaced\<close> without the slots that are null, and a decoder given
  these bytes by \<^verbatim>\<open>SetData\<close> delivers the values again; the next \<^verbatim>\<open>Put\<close> or \<^verbatim>\<open>PutSpaced\<close> does not panic.\<close>

theorem plain_round_trip:
  fixes vals xs :: "'a::len word list"
  assumes "plain_calls enc vals" "mb_length pool = 0" "8 dvd LENGTH('a)"
    "requiredBytes TYPE('a) (length (vals @ xs)) \<le> MaxInt32" "off + length xs \<le> 8 * length bs"
  shows "(\<exists>enc' buf page dec. encoder_FlushValues pool enc = Some (enc', buf, None) \<and> Buffer_Bytes buf = Some page \<and> page = getBytes vals \<and>
      PlainDecoder_Decode (decoder_SetData d (length vals) page) (replicate (length vals) 0) = Some (dec, vals, length vals, None)) \<and>
    PlainEncoder_Put pool enc xs \<noteq> None \<and> PlainEncoder_PutSpaced pool enc xs bs off \<noteq> None"
proof -
  have v: "plain_enc_view enc vals" and len: "requiredBytes TYPE('a) (length vals) \<le> MaxInt32"
    using plain_calls_view [OF assms(1)] by simp_all
  have bound: "requiredBytes TYPE('a) (length (vals @ xs)) \<le> 2 ^ 62" using assms(4) by (simp add: MaxInt32_def)
  let ?d = "decoder_SetData d (length vals) (getBytes vals)"
  have d: "dec_data ?d = getBytes vals" "dec_nvals ?d = length vals" by (simp_all add: decoder_SetData_def)
  have "PlainDecoder_Decode ?d (replicate (length vals) (0 :: 'a word)) =
    Some (?d\<lparr>dec_data := [], dec_nvals := 0\<rparr>, vals, length vals, None)"
    using len assms(3) by (simp add: PlainDecoder_Decode_def Let_def d requiredBytes_def copyFrom_def blit_def)
  then show ?thesis using PlainFlush_view [OF v assms(2), where ?'b = 'a] PlainPut_view [OF v bound, of pool] PlainPutSpaced_view [OF v assms(5) bound, of pool]
    by fastforce
qed

theorem plain_round_trip_witness:
  "\<exists>enc enc' buf dec. plain_calls enc [7, 256 :: 32 word] \<and> encoder_FlushValues NewResizableBuffer enc = Some (enc', buf, None) \<and>
    Buffer_Bytes buf = Some [7, 0, 0, 0, 0, 1, 0, 0] \<and>
    PlainDecoder_Decode (decoder_SetData \<lparr>dec_nvals = 0, dec_data = [], pd_bitSetReader = None\<rparr> 2 [7, 0, 0, 0, 0, 1, 0, 0]) [0, 0 :: 32 word] =
      Some (dec, [7, 256], 2, None)"
proof -
  let ?pool = NewResizableBuffer and ?d = "\<lparr>dec_nvals = 0, dec_data = [], pd_bitSetReader = None\<rparr>"
  have pool: "mb_length ?pool = 0" by (simp add: NewResizableBuffer_def)
  have bits: "valid_values (\<lambda>i. bm_bit [0x05] (0 + i)) [7, 9, 256 :: 32 word] = [7, 256]" by code_simp
  have bytes: "getBytes [7, 256 :: 32 word] = [7, 0, 0, 0, 0, 1, 0, 0]" by code_simp
  from PlainPutSpaced_view [OF New_plain_view [OF pool], of 0 "[7, 9, 256 :: 32 word]" "[0x05]" ?pool] obtain enc where
    enc: "PlainEncoder_PutSpaced ?pool (NewPlainEncoder ?pool) [7, 9, 256 :: 32 word] [0x05] 0 = Some enc"
    by (auto simp: requiredBytes_def)
  have calls: "plain_calls enc [7, 256 :: 32 word]"
    using put_spaced [OF new [OF pool] _ _ enc] bits by (simp add: requiredBytes_def MaxInt32_def)
  have 8: "8 dvd LENGTH(32)" "requiredBytes TYPE(32) (length ([7, 256 :: 32 word] @ [])) \<le> MaxInt32" "0 + length ([] :: 32 word list) \<le> 8 * length ([] :: byte list)"
    by (simp_all add: requiredBytes_def MaxInt32_def)
  have two: "length [7, 256 :: 32 word] = 2" "replicate 2 (0 :: 32 word) = [0, 0]" by (simp_all add: numeral_2_eq_2)
  from conjunct1 [OF plain_round_trip [OF calls pool 8, of ?d, unfolded bytes two]] calls show ?thesis by blast
qed

end
