(* ===== verification/Dict_Encoder.thy ===== *)
theory Dict_Encoder
  imports Rle_Codec Memo_Table Plain_Encoder
begin

unbundle bit_operations_syntax

text \<open>
  The dictionary encoder: \<^verbatim>\<open>dictEncoder\<close> of \<^verbatim>\<open>parquet/internal/encoding/encoder.go\<close> and \<^verbatim>\<open>typedDictEncoder\<close> of
  \<^verbatim>\<open>typed_encoder.go\<close>, over the memo table of \<open>Memo_Table\<close>, whose hash function and comparison are arguments. The
  indexes are in the memory of \<^verbatim>\<open>idxBuffer\<close>, of which \<^verbatim>\<open>idxValues\<close> is a view with a length and a capacity. The arrow array
  of \<^verbatim>\<open>PutDictionary\<close> is the list of its values, with the number of its nulls; one of another type, which the code casts first, is not modelled.
\<close>

section \<open>The source\<close>

definition HashTable_WriteOutSubset :: "'a::len word HashTable \<Rightarrow> nat \<Rightarrow> byte list \<Rightarrow> byte list option" where
  "HashTable_WriteOutSubset h start out =
     do { data \<leftarrow> VisitEntries h (\<lambda>e data.
            let i = e_memoIdx e - of_nat start in if sint i \<ge> 0 then upd data (nat (sint i)) (e_val e) else Some data) (fromBytes out);
          Some (blit out 0 (getBytes data)) }"

definition HashTable_WriteOut :: "'a::len word HashTable \<Rightarrow> byte list \<Rightarrow> byte list option" where
  "HashTable_WriteOut h out = HashTable_WriteOutSubset h 0 out"

definition WriteOutLE :: "'a::len word Table \<Rightarrow> byte list \<Rightarrow> byte list option" where
  "WriteOutLE t out = HashTable_WriteOut (t_tbl t) out"

definition WriteOutSubsetLE :: "'a::len word Table \<Rightarrow> nat \<Rightarrow> byte list \<Rightarrow> byte list option" where
  "WriteOutSubsetLE t start out = HashTable_WriteOutSubset (t_tbl t) start out"

record 'a dictEncoder = encoder +
  de_dictEncodedSize :: nat
  de_idxBuffer :: Buffer
  de_idxLen :: nat
  de_idxCap :: nat
  de_memo :: "'a Table"
  de_trackReferences :: bool
  de_referencedBitmap :: "byte list"
  de_referencedIndices :: "32 word list"
  de_rawDataSize :: nat
  de_preservedDict :: "'a list option"

definition idxValues :: "'a dictEncoder \<Rightarrow> 32 word list" where
  "idxValues d = take (de_idxLen d) (fromBytes (mb_buf (de_idxBuffer d)))"

text \<open>\<^verbatim>\<open>d.idxValues[:n]\<close> and \<^verbatim>\<open>d.idxValues[i] = v\<close>\<close>

definition reslice_idx :: "'a dictEncoder \<Rightarrow> nat \<Rightarrow> 'a dictEncoder option" where
  "reslice_idx d n = (if n \<le> de_idxCap d then Some (d\<lparr>de_idxLen := n\<rparr>) else None)"

definition store_idx :: "'a dictEncoder \<Rightarrow> nat \<Rightarrow> 32 word \<Rightarrow> 'a dictEncoder option" where
  "store_idx d i v =
     (if i < de_idxLen d
      then let buf = de_idxBuffer d in Some (d\<lparr>de_idxBuffer := buf\<lparr>mb_buf := blit (mb_buf buf) (4 * i) (bytes_of_word 4 v)\<rparr>\<rparr>)
      else None)"

definition newDictEncoderBase :: "Buffer \<Rightarrow> 'a Table \<Rightarrow> 'a dictEncoder" where
  "newDictEncoderBase pool memo =
     encoder.extend (newEncoderBase pool)
       \<lparr>de_dictEncodedSize = 0, de_idxBuffer = NewResizableBuffer, de_idxLen = 0, de_idxCap = 0, de_memo = memo, de_trackReferences = False,
        de_referencedBitmap = [], de_referencedIndices = [], de_rawDataSize = 0, de_preservedDict = None\<rparr>"

definition dictEncoder_Reset :: "Buffer \<Rightarrow> 'a::zero dictEncoder \<Rightarrow> 'a dictEncoder" where
  "dictEncoder_Reset pool d =
     (let d = encoder_Reset pool d
      in d\<lparr>de_dictEncodedSize := 0, de_idxLen := 0, de_idxBuffer := Buffer_ResizeNoShrink (de_idxBuffer d) 0, de_rawDataSize := 0,
           de_referencedBitmap := replicate (length (de_referencedBitmap d)) 0, de_referencedIndices := [],
           de_memo := Table_Reset (de_memo d), de_preservedDict := None\<rparr>)"

definition EnableDictionaryReferenceTracking :: "'a dictEncoder \<Rightarrow> 'a dictEncoder" where
  "EnableDictionaryReferenceTracking d = d\<lparr>de_trackReferences := True\<rparr>"

definition DictionaryIndexReferenced :: "'a dictEncoder \<Rightarrow> int \<Rightarrow> bool" where
  "DictionaryIndexReferenced d index =
     (if index < 0 \<or> nat (index div 8) \<ge> length (de_referencedBitmap d) then False
      else (de_referencedBitmap d ! nat (index div 8)) AND push_bit (nat (index mod 8)) 1 \<noteq> 0)"

definition recordDictionaryReference :: "'a dictEncoder \<Rightarrow> 32 word \<Rightarrow> 'a dictEncoder" where
  "recordDictionaryReference d index =
     (if \<not> de_trackReferences d \<or> sint index < 0 then d
      else let byteIndex = nat (sint index) div 8;
               bm = (if byteIndex \<ge> length (de_referencedBitmap d)
                     then de_referencedBitmap d @ replicate (byteIndex - length (de_referencedBitmap d) + 1) 0
                     else de_referencedBitmap d);
               mask = push_bit (nat (sint index) mod 8) 1; d = d\<lparr>de_referencedBitmap := bm\<rparr>
           in if (bm ! byteIndex) AND mask = 0
              then d\<lparr>de_referencedBitmap := bm[byteIndex := (bm ! byteIndex) OR mask], de_referencedIndices := de_referencedIndices d @ [index]\<rparr>
              else d)"

definition expandBuffer :: "'a dictEncoder \<Rightarrow> nat \<Rightarrow> 'a dictEncoder" where
  "expandBuffer d newCap =
     (if de_idxCap d \<ge> newCap then d
      else let buf = Buffer_ResizeNoShrink (de_idxBuffer d) (4 * unat (NextPowerOf2 (of_nat newCap)))
           in d\<lparr>de_idxBuffer := buf, de_idxCap := Buffer_Len buf div 4\<rparr>)"

definition NumEntries :: "'a dictEncoder \<Rightarrow> nat" where
  "NumEntries d = Table_Size (de_memo d)"

definition BitWidth :: "'a dictEncoder \<Rightarrow> nat" where
  "BitWidth d = (if NumEntries d = 0 then 0 else if NumEntries d = 1 then 1 else bits_len (of_nat (NumEntries d - 1) :: 32 word))"

definition addIndex :: "'a dictEncoder \<Rightarrow> int \<Rightarrow> 'a dictEncoder option" where
  "addIndex d i =
     do { let curLen = de_idxLen d;
          d \<leftarrow> reslice_idx (expandBuffer d (curLen + 1)) (curLen + 1);
          d \<leftarrow> store_idx d curLen (of_int i);
          Some (recordDictionaryReference d (of_int i)) }"

definition dictEncoder_EstimatedDataEncodedSize :: "'a dictEncoder \<Rightarrow> nat" where
  "dictEncoder_EstimatedDataEncodedSize d =
     1 + (MaxRLEBufferSize (BitWidth d) (de_idxLen d) + MinRLEBufferSize (BitWidth d))"

text \<open>\<^verbatim>\<open>WriteIndices\<close> with the output slice after the call; \<open>- 1\<close> and the error where the encoder fails.\<close>

definition WriteIndices :: "'a dictEncoder \<Rightarrow> byte list \<Rightarrow> ('a dictEncoder \<times> byte list \<times> int \<times> goerr option) option" where
  "WriteIndices d out =
     do { out \<leftarrow> upd out 0 (of_nat (BitWidth d));
          rest \<leftarrow> slice_from out 1;
          (enc, _, err) \<leftarrow> RleEncoder_PutBatchIndices WriterAtBuffer (NewRleEncoder rest (BitWidth d)) (idxValues d);
          if err \<noteq> None then Some (d, blit out 1 (bwr_wr (enc_w enc)), - 1, err)
          else do { (enc, nbytes) \<leftarrow> RleEncoder_Flush WriterAtBuffer enc;
                    Some (d\<lparr>de_idxLen := 0, de_rawDataSize := 0\<rparr>, blit out 1 (bwr_wr (enc_w enc)), int nbytes + 1, None) } }"

definition dictEncoder_FlushValues :: "Buffer \<Rightarrow> 'a dictEncoder \<Rightarrow> ('a dictEncoder \<times> Buffer option \<times> goerr option) option" where
  "dictEncoder_FlushValues pool d =
     do { let buf = Buffer_Reserve pool (dictEncoder_EstimatedDataEncodedSize d);
          (d, mem, sz, err) \<leftarrow> WriteIndices d (mb_buf buf);
          if err \<noteq> None then Some (d, None, err)
          else Some (d, Some (Buffer_ResizeNoShrink (buf\<lparr>mb_buf := mem\<rparr>) (nat sz)), None) }"

definition WriteDict :: "'a::len word dictEncoder \<Rightarrow> byte list \<Rightarrow> byte list option" where
  "WriteDict d out = WriteOutLE (de_memo d) out"

text \<open>The loop of \<^verbatim>\<open>Put\<close>; \<open>curPos\<close> counts the slots.\<close>

fun dict_put_loop ::
  "('a::len word \<Rightarrow> nat \<Rightarrow> u64) \<Rightarrow> ('a word \<Rightarrow> 'a word \<Rightarrow> bool) \<Rightarrow> nat \<Rightarrow> 'a word list \<Rightarrow> 'a word dictEncoder \<Rightarrow> 'a word dictEncoder option" where
  "dict_put_loop hash same curPos [] d = Some d"
| "dict_put_loop hash same curPos (val # vals) d =
     do { (memo, memoIdx, found) \<leftarrow> InsertOrGet hash same (de_memo d) val;
          let d = d\<lparr>de_memo := memo, de_dictEncodedSize := de_dictEncodedSize d + (if \<not> found then LENGTH('a) div 8 else 0)\<rparr>;
          d \<leftarrow> store_idx d curPos (of_int memoIdx);
          dict_put_loop hash same (curPos + 1) vals (recordDictionaryReference d (of_int memoIdx)) }"

definition typedDictEncoder_Put ::
  "('a::len word \<Rightarrow> nat \<Rightarrow> u64) \<Rightarrow> ('a word \<Rightarrow> 'a word \<Rightarrow> bool) \<Rightarrow> 'a word dictEncoder \<Rightarrow> 'a word list \<Rightarrow> 'a word dictEncoder option" where
  "typedDictEncoder_Put hash same enc vals =
     (if length vals = 0 then Some enc
      else do { let curPos = de_idxLen enc;
                enc \<leftarrow> reslice_idx (expandBuffer enc (curPos + length vals)) (curPos + length vals);
                enc \<leftarrow> dict_put_loop hash same curPos vals enc;
                Some (enc\<lparr>de_rawDataSize := de_rawDataSize enc + length vals * (LENGTH('a) div 8)\<rparr>) })"

definition typedDictEncoder_PutSpaced ::
  "('a::len word \<Rightarrow> nat \<Rightarrow> u64) \<Rightarrow> ('a word \<Rightarrow> 'a word \<Rightarrow> bool) \<Rightarrow> 'a word dictEncoder \<Rightarrow> 'a word list \<Rightarrow> byte list option \<Rightarrow> nat \<Rightarrow>
   'a word dictEncoder option" where
  "typedDictEncoder_PutSpaced hash same enc vals validBits validBitsOffset =
     map_option fst (VisitSetBitRuns validBits validBitsOffset (length vals)
       (\<lambda>pos len enc. do { v \<leftarrow> slice vals pos (pos + len); enc \<leftarrow> typedDictEncoder_Put hash same enc v; Some (enc, None) }) enc)"

text \<open>\<^verbatim>\<open>FallBackTo\<close> with the method \<^verbatim>\<open>Put\<close> of the other encoder, on a state of any type.\<close>

definition FallBackTo ::
  "('s \<Rightarrow> 'a list \<Rightarrow> 's option) \<Rightarrow> 'a::zero dictEncoder \<Rightarrow> 's \<Rightarrow> ('a dictEncoder \<times> 's \<times> goerr option) option" where
  "FallBackTo put enc target =
     do { dict \<leftarrow> Table_CopyValues (de_memo enc) (replicate (Table_Size (de_memo enc)) 0);
          vals \<leftarrow> those (map (dict_at dict) (idxValues enc));
          target \<leftarrow> put target vals;
          Some (enc\<lparr>de_idxLen := 0\<rparr>, target, None) }"

definition canPutDictionary :: "'a dictEncoder \<Rightarrow> nat \<Rightarrow> goerr option" where
  "canPutDictionary d nullN =
     (if nullN > 0 then Some (Errorf ''inserted dictionary cannot contain nulls'')
      else if NumEntries d > 0 then Some (Errorf ''can only call PutDictionary on an empty DictEncoder'')
      else None)"

fun insert_values ::
  "('a::len word \<Rightarrow> nat \<Rightarrow> u64) \<Rightarrow> ('a word \<Rightarrow> 'a word \<Rightarrow> bool) \<Rightarrow> 'a word list \<Rightarrow> 'a word Table \<Rightarrow> 'a word Table option" where
  "insert_values hash same [] t = Some t"
| "insert_values hash same (val # vals) t = do { (t, _, _) \<leftarrow> InsertOrGet hash same t val; insert_values hash same vals t }"

definition PutDictionary ::
  "('a::len word \<Rightarrow> nat \<Rightarrow> u64) \<Rightarrow> ('a word \<Rightarrow> 'a word \<Rightarrow> bool) \<Rightarrow> 'a word dictEncoder \<Rightarrow> 'a word list \<Rightarrow> nat \<Rightarrow>
   ('a word dictEncoder \<times> goerr option) option" where
  "PutDictionary hash same enc vals nullN =
     (case canPutDictionary enc nullN of
        Some err \<Rightarrow> Some (enc, Some err)
      | None \<Rightarrow>
          do { let enc = enc\<lparr>de_dictEncodedSize := de_dictEncodedSize enc + length vals * (LENGTH('a) div 8)\<rparr>;
               memo \<leftarrow> insert_values hash same vals (de_memo enc);
               Some (enc\<lparr>de_memo := memo, de_preservedDict := Some vals\<rparr>, None) })"

section \<open>The index buffer\<close>

lemma fromBytes_nth: "i < length (fromBytes bs :: 32 word list) \<Longrightarrow> fromBytes bs ! i = (word_of_bytes (take 4 (drop (4 * i) bs)) :: 32 word)"
  by (simp add: fromBytes_def mult.commute)

lemma length_fromBytes: "length (fromBytes bs :: 32 word list) = length bs div 4"
  by (simp add: fromBytes_def)

lemma fromBytes_append:
  assumes "4 * n \<le> length bs"
  shows "take n (fromBytes (bs @ t)) = (take n (fromBytes bs) :: 32 word list)"
proof (rule nth_equalityI)
  have n: "n \<le> length bs div 4" using assms by linarith
  then show "length (take n (fromBytes (bs @ t)) :: 32 word list) = length (take n (fromBytes bs) :: 32 word list)"
    by (simp add: length_fromBytes)
  fix i assume "i < length (take n (fromBytes (bs @ t)) :: 32 word list)"
  then have i: "i < n" "4 * i + 4 \<le> length bs" using assms by (auto simp: length_fromBytes)
  then have "i < length bs div 4" "i < length (bs @ t) div 4" by auto
  then show "(take n (fromBytes (bs @ t)) :: 32 word list) ! i = take n (fromBytes bs) ! i"
    using i by (simp add: fromBytes_nth length_fromBytes)
qed

lemma fromBytes_store:
  assumes "4 * i + 4 \<le> length bs"
  shows "fromBytes (blit bs (4 * i) (bytes_of_word 4 v)) = (fromBytes bs)[i := (v :: 32 word)]"
proof (rule nth_equalityI)
  let ?b = "blit bs (4 * i) (bytes_of_word 4 v)"
  have len: "length ?b = length bs" using assms by simp
  show "length (fromBytes ?b :: 32 word list) = length ((fromBytes bs)[i := v])" by (simp add: length_fromBytes len)
  fix j assume "j < length (fromBytes ?b :: 32 word list)"
  then have j: "j < length bs div 4" "4 * j + 4 \<le> length bs" using len by (auto simp: length_fromBytes)
  have "take 4 (drop (4 * j) ?b) = (if j = i then bytes_of_word 4 v else take 4 (drop (4 * j) bs))"
    using assms j(2) by (intro nth_equalityI) (auto simp: nth_blit)
  then show "(fromBytes ?b :: 32 word list) ! j = (fromBytes bs)[i := v] ! j"
    using j(1) assms len by (simp add: fromBytes_nth length_fromBytes nth_list_update word_of_bytes_bytes_of_word)
qed

definition idx_ok :: "'a dictEncoder \<Rightarrow> bool" where
  "idx_ok d \<longleftrightarrow> de_idxLen d \<le> de_idxCap d \<and> 4 * de_idxCap d \<le> length (mb_buf (de_idxBuffer d))"

lemma length_idxValues: "idx_ok d \<Longrightarrow> length (idxValues d) = de_idxLen d"
  by (auto simp: idx_ok_def idxValues_def length_fromBytes)

lemma expandBuffer_ok:
  assumes "idx_ok d" "n \<le> 2 ^ 60"
  shows "\<exists>buf cap. expandBuffer d n = d\<lparr>de_idxBuffer := buf, de_idxCap := cap\<rparr> \<and> n \<le> cap \<and> idx_ok (expandBuffer d n) \<and> idxValues (expandBuffer d n) = idxValues d"
proof (cases "n \<le> de_idxCap d")
  case True
  then show ?thesis using assms(1) by (intro exI [of _ "de_idxBuffer d"] exI [of _ "de_idxCap d"]) (simp add: expandBuffer_def)
next
  case False
  let ?c = "unat (NextPowerOf2 (of_nat n))" and ?b = "Buffer_ResizeNoShrink (de_idxBuffer d) (4 * unat (NextPowerOf2 (of_nat n)))"
  have c: "n < ?c" using assms(2) by (intro NextPowerOf2_greater) simp
  have e: "expandBuffer d n = d\<lparr>de_idxBuffer := ?b, de_idxCap := ?c\<rparr>" using False ResizeNoShrink_buf(2) [of "de_idxBuffer d"] by (simp add: expandBuffer_def Buffer_Len_def)
  have len: "4 * ?c \<le> length (mb_buf ?b)" using ResizeNoShrink_buf(1) [of "de_idxBuffer d" "4 * ?c"] Reserve_buf(2) [of "4 * ?c"] by simp
  obtain t where "mb_buf ?b = mb_buf (de_idxBuffer d) @ t" using ResizeNoShrink_buf(1) Reserve_prefix by metis
  then have "idxValues (d\<lparr>de_idxBuffer := ?b, de_idxCap := ?c\<rparr>) = idxValues d"
    using assms(1) by (simp add: idxValues_def idx_ok_def fromBytes_append)
  moreover have "idx_ok (d\<lparr>de_idxBuffer := ?b, de_idxCap := ?c\<rparr>)" using assms(1) False c len by (simp add: idx_ok_def)
  ultimately show ?thesis using c e by (intro exI [of _ ?b] exI [of _ ?c]) simp
qed

lemma store_idx_ok:
  assumes "idx_ok d" "i < de_idxLen d"
  shows "\<exists>buf. store_idx d i v = Some (d\<lparr>de_idxBuffer := buf\<rparr>) \<and> idx_ok (d\<lparr>de_idxBuffer := buf\<rparr>) \<and>
    idxValues (d\<lparr>de_idxBuffer := buf\<rparr>) = (idxValues d)[i := v]"
proof -
  let ?b = "de_idxBuffer d"
  have "4 * i + 4 \<le> length (mb_buf ?b)" using assms by (simp add: idx_ok_def)
  then show ?thesis using assms
    by (intro exI [of _ "?b\<lparr>mb_buf := blit (mb_buf ?b) (4 * i) (bytes_of_word 4 v)\<rparr>"])
      (simp add: store_idx_def Let_def idx_ok_def idxValues_def fromBytes_store take_update_swap)
qed

lemma reference_fields [simp]:
  "idxValues (recordDictionaryReference d i) = idxValues d" "idx_ok (recordDictionaryReference d i) = idx_ok d"
  "de_memo (recordDictionaryReference d i) = de_memo d" "de_idxLen (recordDictionaryReference d i) = de_idxLen d"
  "de_dictEncodedSize (recordDictionaryReference d i) = de_dictEncodedSize d"
  by (simp_all add: recordDictionaryReference_def idxValues_def idx_ok_def Let_def)

lemma idx_fields [simp]:
  "idxValues (d\<lparr>de_memo := m\<rparr>) = idxValues d" "idx_ok (d\<lparr>de_memo := m\<rparr>) = idx_ok d"
  "idxValues (d\<lparr>de_dictEncodedSize := k\<rparr>) = idxValues d" "idx_ok (d\<lparr>de_dictEncodedSize := k\<rparr>) = idx_ok d"
  "idxValues (d\<lparr>de_rawDataSize := k\<rparr>) = idxValues d" "idx_ok (d\<lparr>de_rawDataSize := k\<rparr>) = idx_ok d"
  by (simp_all add: idxValues_def idx_ok_def)

section \<open>What was put\<close>

text \<open>The indexes \<open>js\<close> into the dictionary \<open>ms\<close> stand for the values \<open>vals\<close>.\<close>

definition indexes :: "('a \<Rightarrow> nat \<Rightarrow> u64) \<Rightarrow> ('a \<Rightarrow> 'a \<Rightarrow> bool) \<Rightarrow> 'a list \<Rightarrow> nat list \<Rightarrow> 'a list \<Rightarrow> bool" where
  "indexes hash same ms js vals \<longleftrightarrow> list_all2 (\<lambda>j v. j < length ms \<and> key_eq hash same v (ms ! j)) js vals"

lemma indexes_extend: "indexes hash same ms js vals \<Longrightarrow> indexes hash same (ms @ ms') js vals"
  by (auto simp: indexes_def list_all2_conv_all_nth nth_append)

lemma indexes_append: "indexes hash same ms js vals \<Longrightarrow> indexes hash same ms js' vals' \<Longrightarrow> indexes hash same ms (js @ js') (vals @ vals')"
  by (simp add: indexes_def list_all2_appendI)

lemma indexes_length: "indexes hash same ms js vals \<Longrightarrow> length js = length vals"
  by (simp add: indexes_def list_all2_lengthD)

text \<open>The encoder has the dictionary \<open>ms\<close> and the indexes \<open>js\<close>.\<close>

definition dict_enc_view ::
  "('a::len word \<Rightarrow> nat \<Rightarrow> u64) \<Rightarrow> ('a word \<Rightarrow> 'a word \<Rightarrow> bool) \<Rightarrow> 'a word dictEncoder \<Rightarrow> 'a word list \<Rightarrow> nat list \<Rightarrow> bool" where
  "dict_enc_view hash same d ms js \<longleftrightarrow> memo_view hash same (de_memo d) (map Some ms) \<and> length ms < 2 ^ 31 \<and> idx_ok d \<and>
     idxValues d = map of_nat js \<and> list_all (\<lambda>j. j < length ms) js \<and> de_dictEncodedSize d = length ms * (LENGTH('a) div 8)"

context memo_key
begin

text \<open>The memo index of a value, inserted if it is new.\<close>

lemma InsertOrGet_index:
  assumes "memo_view hash same t (map Some ms)" "length ms < 2 ^ 31 - 1"
  shows "\<exists>t' j new. InsertOrGet hash same t v = Some (t', int j, \<not> new) \<and> memo_view hash same t' (map Some (ms @ (if new then [v] else []))) \<and>
    j < length (ms @ (if new then [v] else [])) \<and> key_eq hash same v ((ms @ (if new then [v] else [])) ! j)"
proof -
  have len: "length (map Some ms) < 2 ^ 31" using assms(2) by simp
  show ?thesis
  proof (cases "memo_index hash same (map Some ms) v")
    case None
    with InsertOrGet_ok [OF assms(1) len, of v] obtain t' where
      "InsertOrGet hash same t v = Some (t', int (length ms), False)" "memo_view hash same t' (map Some ms @ [Some v])" by auto
    then show ?thesis by (intro exI [of _ t'] exI [of _ "length ms"] exI [of _ True]) simp
  next
    case (Some j)
    then have "j < length ms" "key_eq hash same v (ms ! j)" by (auto simp: find_index_Some)
    then show ?thesis using InsertOrGet_ok [OF assms(1) len, of v] Some assms(1) by (intro exI [of _ t] exI [of _ j] exI [of _ False]) auto
  qed
qed

end

lemma fits_width_nat: "j < 2 ^ w \<Longrightarrow> w \<le> 31 \<Longrightarrow> fits_width w (of_nat j :: u64)"
  by (simp add: fits_width_def take_bit_of_nat take_bit_nat_eq_self)

text \<open>The page: the width and the encoded indexes.\<close>

definition index_page :: "nat list \<Rightarrow> byte list \<Rightarrow> bool" where
  "index_page js page \<longleftrightarrow> (\<exists>w s k. page = of_nat w # s \<and> w \<le> 31 \<and> (js = [] \<or> 0 < w \<and> encodes w s (map of_nat js @ replicate k 0)))"

text \<open>The keys of the typed encoders, which are words.\<close>

locale word_memo_key = memo_key hash same for hash :: "'b::len word \<Rightarrow> nat \<Rightarrow> u64" and same :: "'b word \<Rightarrow> 'b word \<Rightarrow> bool"
begin

lemma dict_put_loop_ok:
  assumes "memo_view hash same (de_memo d) (map Some ms)" "length ms + length vals < 2 ^ 31" "idx_ok d" "k + length vals = de_idxLen d"
    "de_dictEncodedSize d = length ms * (LENGTH('b) div 8)"
  shows "\<exists>d' ms' js. dict_put_loop hash same k vals d = Some d' \<and> memo_view hash same (de_memo d') (map Some (ms @ ms')) \<and>
    length ms' \<le> length vals \<and> idx_ok d' \<and> de_idxLen d' = de_idxLen d \<and> idxValues d' = take k (idxValues d) @ map of_nat js \<and>
    indexes hash same (ms @ ms') js vals \<and> de_dictEncodedSize d' = length (ms @ ms') * (LENGTH('b) div 8)"
  using assms
proof (induction vals arbitrary: d ms k)
  case Nil
  then show ?case using length_idxValues [of d] by (intro exI [of _ d] exI [of _ "[]"]) (simp add: indexes_def)
next
  case (Cons v vals)
  have "length ms < 2 ^ 31 - 1" using Cons.prems(2) by simp
  from InsertOrGet_index [OF Cons.prems(1) this, of v] obtain t' j new where
    1: "InsertOrGet hash same (de_memo d) v = Some (t', int j, \<not> new)"
      "memo_view hash same t' (map Some (ms @ (if new then [v] else [])))"
      "j < length (ms @ (if new then [v] else []))" "key_eq hash same v ((ms @ (if new then [v] else [])) ! j)" by blast
  define ms1 where "ms1 = ms @ (if new then [v] else [])"
  define d1 where "d1 = d\<lparr>de_memo := t', de_dictEncodedSize := de_dictEncodedSize d + (if new then LENGTH('b) div 8 else 0)\<rparr>"
  have d1: "idx_ok d1" "de_memo d1 = t'" "de_idxLen d1 = de_idxLen d" "idxValues d1 = idxValues d" "de_dictEncodedSize d1 = length ms1 * (LENGTH('b) div 8)"
    using Cons.prems(3,5) by (simp_all add: d1_def ms1_def)
  have k: "k < de_idxLen d1" using Cons.prems(4) d1(3) by simp
  from store_idx_ok [OF d1(1) k, of "of_nat j"] obtain buf where
    buf: "store_idx d1 k (of_nat j) = Some (d1\<lparr>de_idxBuffer := buf\<rparr>)" "idx_ok (d1\<lparr>de_idxBuffer := buf\<rparr>)"
      "idxValues (d1\<lparr>de_idxBuffer := buf\<rparr>) = (idxValues d)[k := of_nat j]" using d1(4) by auto
  let ?d2 = "recordDictionaryReference (d1\<lparr>de_idxBuffer := buf\<rparr>) (of_nat j)"
  have step: "dict_put_loop hash same k (v # vals) d = dict_put_loop hash same (k + 1) vals ?d2"
    using 1(1) buf(1) by (simp add: d1_def)
  have "\<exists>d' ms' js. dict_put_loop hash same (k + 1) vals ?d2 = Some d' \<and> memo_view hash same (de_memo d') (map Some (ms1 @ ms')) \<and>
    length ms' \<le> length vals \<and> idx_ok d' \<and> de_idxLen d' = de_idxLen ?d2 \<and> idxValues d' = take (k + 1) (idxValues ?d2) @ map of_nat js \<and>
    indexes hash same (ms1 @ ms') js vals \<and> de_dictEncodedSize d' = length (ms1 @ ms') * (LENGTH('b) div 8)"
    by (rule Cons.IH) (use 1(2) Cons.prems(2,4) buf(2) d1 in \<open>auto simp: ms1_def\<close>)
  then obtain d' ms' js where r: "dict_put_loop hash same (k + 1) vals ?d2 = Some d'" "memo_view hash same (de_memo d') (map Some (ms1 @ ms'))"
    "length ms' \<le> length vals" "idx_ok d'" "de_idxLen d' = de_idxLen ?d2" "idxValues d' = take (k + 1) (idxValues ?d2) @ map of_nat js"
    "indexes hash same (ms1 @ ms') js vals" "de_dictEncodedSize d' = length (ms1 @ ms') * (LENGTH('b) div 8)" by blast
  have "take (k + 1) (idxValues ?d2) = take k (idxValues d) @ [of_nat j]"
    using buf(3) k d1(3) length_idxValues [OF Cons.prems(3)] by (simp add: take_Suc_conv_app_nth)
  moreover have "indexes hash same (ms1 @ ms') (j # js) (v # vals)"
    using r(7) 1(3,4) unfolding ms1_def [symmetric] by (simp add: indexes_def nth_append)
  moreover have "ms1 @ ms' = ms @ ((if new then [v] else []) @ ms')" by (simp add: ms1_def)
  ultimately show ?case unfolding step using r(1-6,8) d1(3) by (intro exI [of _ d'] exI [of _ "(if new then [v] else []) @ ms'"] exI [of _ "j # js"]) auto
qed

lemma DictPut_ok:
  assumes "dict_enc_view hash same d ms js" "length ms + length vals < 2 ^ 31" "length js + length vals \<le> 2 ^ 60"
  shows "\<exists>d' ms' js'. typedDictEncoder_Put hash same d vals = Some d' \<and> length ms' \<le> length vals \<and>
    dict_enc_view hash same d' (ms @ ms') (js @ js') \<and> indexes hash same (ms @ ms') js' vals"
proof (cases "vals = []")
  case True
  then show ?thesis using assms(1)
    by (intro exI [of _ d] exI [of _ "[]"]) (simp add: typedDictEncoder_Put_def indexes_def)
next
  case False
  have v: "memo_view hash same (de_memo d) (map Some ms)" "idx_ok d" "idxValues d = map of_nat js" "list_all (\<lambda>j. j < length ms) js"
    "de_dictEncodedSize d = length ms * (LENGTH('b) div 8)" using assms(1) by (auto simp: dict_enc_view_def)
  have len: "de_idxLen d = length js" using length_idxValues [OF v(2)] v(3) by simp
  let ?n = "length js + length vals"
  from expandBuffer_ok [OF v(2) assms(3)] obtain buf cap where
    e: "expandBuffer d ?n = d\<lparr>de_idxBuffer := buf, de_idxCap := cap\<rparr>" "?n \<le> cap" "idx_ok (expandBuffer d ?n)" "idxValues (expandBuffer d ?n) = idxValues d" by blast
  define d1 where "d1 = (expandBuffer d ?n)\<lparr>de_idxLen := ?n\<rparr>"
  have d1: "idx_ok d1" "de_memo d1 = de_memo d" "de_idxLen d1 = ?n" "de_dictEncodedSize d1 = de_dictEncodedSize d"
    "reslice_idx (expandBuffer d ?n) ?n = Some d1"
    using e by (simp_all add: d1_def idx_ok_def reslice_idx_def)
  have pre: "take (length js) (idxValues d1) = map of_nat js"
    using e(1,4) v(3) len by (simp add: d1_def idxValues_def min_def)
  have "\<exists>d' ms' js'. dict_put_loop hash same (length js) vals d1 = Some d' \<and> memo_view hash same (de_memo d') (map Some (ms @ ms')) \<and>
    length ms' \<le> length vals \<and> idx_ok d' \<and> de_idxLen d' = de_idxLen d1 \<and> idxValues d' = take (length js) (idxValues d1) @ map of_nat js' \<and>
    indexes hash same (ms @ ms') js' vals \<and> de_dictEncodedSize d' = length (ms @ ms') * (LENGTH('b) div 8)"
    by (rule dict_put_loop_ok) (use v(1,5) assms(2) d1 in auto)
  then obtain d' ms' js' where r: "dict_put_loop hash same (length js) vals d1 = Some d'" "memo_view hash same (de_memo d') (map Some (ms @ ms'))"
    "length ms' \<le> length vals" "idx_ok d'" "idxValues d' = map of_nat (js @ js')" "indexes hash same (ms @ ms') js' vals"
    "de_dictEncodedSize d' = length (ms @ ms') * (LENGTH('b) div 8)" using pre by auto
  let ?d' = "d'\<lparr>de_rawDataSize := de_rawDataSize d' + length vals * (LENGTH('b) div 8)\<rparr>"
  have "typedDictEncoder_Put hash same d vals = Some ?d'" using False r(1) d1(5) len by (simp add: typedDictEncoder_Put_def)
  moreover have "list_all (\<lambda>j. j < length (ms @ ms')) (js @ js')"
    using v(4) r(6) by (auto simp: indexes_def list_all_iff list_all2_conv_all_nth in_set_conv_nth)
  moreover have "length (ms @ ms') < 2 ^ 31" using r(3) assms(2) by simp
  ultimately show ?thesis using r by (intro exI [of _ ?d'] exI [of _ ms'] exI [of _ js']) (simp add: dict_enc_view_def)
qed

lemma dict_put_runs_ok:
  assumes "dict_enc_view hash same d ms js" "list_all (\<lambda>run. 0 < sbr_Length run \<and> sbr_Pos run + sbr_Length run \<le> length xs) runs"
    "length ms + length (concat (map (run_values_of xs) runs)) < 2 ^ 31" "length js + length (concat (map (run_values_of xs) runs)) \<le> 2 ^ 60"
  shows "\<exists>d' ms' js'. visit_runs (\<lambda>pos len enc. do { v \<leftarrow> slice xs pos (pos + len); enc \<leftarrow> typedDictEncoder_Put hash same enc v; Some (enc, None) })
      runs d = Some (d', None) \<and> length ms' \<le> length (concat (map (run_values_of xs) runs)) \<and>
    dict_enc_view hash same d' (ms @ ms') (js @ js') \<and> indexes hash same (ms @ ms') js' (concat (map (run_values_of xs) runs))"
  using assms
proof (induction runs arbitrary: d ms js)
  case Nil
  then show ?case by (intro exI [of _ d] exI [of _ "[]"]) (simp add: indexes_def)
next
  case (Cons run runs)
  let ?v = "run_values_of xs run" and ?vs = "concat (map (run_values_of xs) runs)"
  from DictPut_ok [OF Cons.prems(1), of ?v] Cons.prems(3,4) obtain d1 ms1 js1 where
    1: "typedDictEncoder_Put hash same d ?v = Some d1" "length ms1 \<le> length ?v" "dict_enc_view hash same d1 (ms @ ms1) (js @ js1)"
      "indexes hash same (ms @ ms1) js1 ?v" by auto
  have "length js1 = length ?v" using indexes_length [OF 1(4)] .
  with Cons.IH [OF 1(3)] Cons.prems(2-4) 1(2) obtain d2 ms2 js2 where
    2: "visit_runs (\<lambda>pos len enc. do { v \<leftarrow> slice xs pos (pos + len); enc \<leftarrow> typedDictEncoder_Put hash same enc v; Some (enc, None) }) runs d1 = Some (d2, None)"
      "length ms2 \<le> length ?vs" "dict_enc_view hash same d2 ((ms @ ms1) @ ms2) ((js @ js1) @ js2)" "indexes hash same ((ms @ ms1) @ ms2) js2 ?vs" by auto
  have "indexes hash same ((ms @ ms1) @ ms2) (js1 @ js2) (?v @ ?vs)" by (intro indexes_append indexes_extend 1(4) 2(4))
  moreover have "length (ms1 @ ms2) \<le> length (?v @ ?vs)" using add_mono [OF 1(2) 2(2)] by (simp only: length_append)
  ultimately show ?case using Cons.prems(2) 1(1) 2(1,3) by (intro exI [of _ d2] exI [of _ "ms1 @ ms2"] exI [of _ "js1 @ js2"]) simp
qed

lemma DictPutSpaced_ok:
  assumes "dict_enc_view hash same d ms js" "length ms + length xs < 2 ^ 31" "length js + length xs \<le> 2 ^ 60" "off + length xs \<le> 8 * length bs"
  shows "\<exists>d' ms' js'. typedDictEncoder_PutSpaced hash same d xs (Some bs) off = Some d' \<and> length ms' \<le> length xs \<and>
    dict_enc_view hash same d' (ms @ ms') (js @ js') \<and> indexes hash same (ms @ ms') js' (valid_values (\<lambda>i. bm_bit bs (off + i)) xs)"
proof -
  let ?p = "\<lambda>i. bm_bit bs (off + i)"
  obtain runs where runs: "are_set_runs ?p (length xs) runs" using set_runs_exist by blast
  have "\<exists>d' ms' js'. visit_runs (\<lambda>pos len enc. do { v \<leftarrow> slice xs pos (pos + len); enc \<leftarrow> typedDictEncoder_Put hash same enc v; Some (enc, None) })
      runs d = Some (d', None) \<and> length ms' \<le> length (concat (map (run_values_of xs) runs)) \<and>
    dict_enc_view hash same d' (ms @ ms') (js @ js') \<and> indexes hash same (ms @ ms') js' (concat (map (run_values_of xs) runs))"
    by (rule dict_put_runs_ok [OF assms(1)])
      (use runs valid_values_le [of ?p xs] assms(2,3) in \<open>simp_all add: set_runs_values [OF runs] are_set_runs_def\<close>)
  then obtain d' ms' js' where
    "visit_runs (\<lambda>pos len enc. do { v \<leftarrow> slice xs pos (pos + len); enc \<leftarrow> typedDictEncoder_Put hash same enc v; Some (enc, None) }) runs d = Some (d', None)"
    "length ms' \<le> length (valid_values ?p xs)" "dict_enc_view hash same d' (ms @ ms') (js @ js')" "indexes hash same (ms @ ms') js' (valid_values ?p xs)"
    unfolding set_runs_values [OF runs] by blast
  then show ?thesis unfolding typedDictEncoder_PutSpaced_def VisitSetBitRuns_eq [OF assms(4) runs]
    using valid_values_le [of ?p xs] by (intro exI [of _ d'] exI [of _ ms'] exI [of _ js']) simp
qed

lemma NumEntries_eq: "dict_enc_view hash same d ms js \<Longrightarrow> NumEntries d = length ms"
  using memo_size(1) [of "de_memo d" "map Some ms"] by (simp add: dict_enc_view_def NumEntries_def)

lemma BitWidth_ok:
  assumes "dict_enc_view hash same d ms js" "js \<noteq> []"
  shows "0 < BitWidth d \<and> BitWidth d \<le> 31 \<and> list_all (\<lambda>j. j < 2 ^ BitWidth d) js"
proof -
  let ?n = "length ms"
  have n: "?n < 2 ^ 31" "list_all (\<lambda>j. j < ?n) js" using assms(1) by (auto simp: dict_enc_view_def)
  then have pos: "0 < ?n" using assms(2) by (cases js) auto
  show ?thesis
  proof (cases "?n = 1")
    case True
    then show ?thesis using n(2) by (auto simp: BitWidth_def NumEntries_eq [OF assms(1)] list_all_iff)
  next
    case False
    let ?w = "of_nat (?n - 1) :: 32 word"
    have w: "unat ?w = ?n - 1" using n(1) by (simp add: unsigned_of_nat take_bit_nat_eq_self)
    have b: "BitWidth d = bits_len ?w" using False pos by (simp add: BitWidth_def NumEntries_eq [OF assms(1)])
    have "bits_len ?w \<le> 31" unfolding bits_len_le_iff w using n(1) by simp
    moreover have "\<not> bits_len ?w \<le> 0" unfolding bits_len_le_iff w power_0 using False pos by linarith
    moreover have "?n - 1 < 2 ^ bits_len ?w" using unat_less_exp_bits_len [of ?w] w by simp
    ultimately show ?thesis using n(2) unfolding b by (fastforce simp: list_all_iff)
  qed
qed

lemma WriteIndices_ok:
  assumes view: "dict_enc_view hash same d ms js" and room: "1 + MaxRLEBufferSize (BitWidth d) (length js) \<le> length out"
  shows "\<exists>out' n. WriteIndices d out = Some (d\<lparr>de_idxLen := 0, de_rawDataSize := 0\<rparr>, out', int n, None) \<and> length out' = length out \<and>
    n \<le> length out \<and> index_page js (take n out')"
proof -
  have v: "idxValues d = map of_nat js" "list_all (\<lambda>j. j < length ms) js" "length ms < 2 ^ 31" using view by (auto simp: dict_enc_view_def)
  let ?w = "BitWidth d" and ?vs = "map of_nat js :: u64 list"
  have w31: "?w \<le> 31"
  proof (cases "js = []")
    case True
    have "bits_len (of_nat (length ms - 1) :: 32 word) \<le> 31"
      unfolding bits_len_le_iff using v(3) by (simp add: unsigned_of_nat take_bit_nat_eq_self)
    then show ?thesis by (simp add: BitWidth_def NumEntries_eq [OF view])
  qed (use BitWidth_ok [OF view] in blast)
  obtain b rest where out: "out = b # rest" using room by (cases out) auto
  let ?n = "length rest"
  have n: "MaxRLEBufferSize ?w (length js) \<le> ?n" using room out by simp
  have "(scast (of_nat j :: 32 word) :: u64) = of_nat j" if "j \<in> set js" for j
    using that v(2,3) by (intro scast_memo_idx) (auto simp: list_all_iff)
  then have sc: "map scast (map of_nat js :: 32 word list) = ?vs" by simp
  have fit: "list_all (\<lambda>x. fits_width ?w (scast x :: u64)) (map of_nat js :: 32 word list)"
  proof (cases "js = []")
    case False
    then have "list_all (\<lambda>j. j < 2 ^ ?w) js" using BitWidth_ok [OF view] by blast
    then have "list_all (fits_width ?w) ?vs" using w31 fits_width_nat by (auto simp: list_all_iff)
    then show ?thesis unfolding sc [symmetric] by (simp add: list_all_iff)
  qed simp
  have inv: "buffer_writer.enc_inv ?n ?w (NewRleEncoder rest ?w) []" by (rule buffer_writer.New_inv) (use w31 in simp_all)
  from PutBatchIndices_returns [OF inv fit, unfolded sc] n obtain r where
    r: "RleEncoder_PutBatchIndices WriterAtBuffer (NewRleEncoder rest ?w) (map of_nat js) = Some (r, length js, None)" "buffer_writer.enc_inv ?n ?w r ?vs"
    by auto
  from Flush_encodes [OF r(2)] n obtain r' len k where
    f: "RleEncoder_Flush WriterAtBuffer r = Some (r', len)" "len \<le> ?n" "len \<le> length (bwr_wr (enc_w r'))"
      "encodes ?w (take len (bwr_wr (enc_w r'))) (?vs @ replicate k 0)" by auto
  let ?out = "blit (of_nat ?w # rest) 1 (bwr_wr (enc_w r'))"
  have "WriteIndices d out = Some (d\<lparr>de_idxLen := 0, de_rawDataSize := 0\<rparr>, ?out, int len + 1, None)"
    unfolding WriteIndices_def out v(1) using r(1) f(1) by simp
  moreover have "take (len + 1) ?out = of_nat ?w # take len (bwr_wr (enc_w r'))" using f(2,3) by (simp add: blit_def min_def)
  moreover have "index_page js (of_nat ?w # take len (bwr_wr (enc_w r')))"
  proof -
    have "js = [] \<or> 0 < ?w \<and> encodes ?w (take len (bwr_wr (enc_w r'))) (?vs @ replicate k 0)"
      using f(4) BitWidth_ok [OF view] by (cases "js = []") auto
    then show ?thesis unfolding index_page_def using w31 by blast
  qed
  ultimately show ?thesis using f(2) out by (intro exI [of _ ?out] exI [of _ "len + 1"]) simp
qed

lemma DictFlush_ok:
  assumes view: "dict_enc_view hash same d ms js"
  shows "\<exists>d' buf page. dictEncoder_FlushValues pool d = Some (d', Some buf, None) \<and> Buffer_Bytes buf = Some page \<and> index_page js page \<and>
    dict_enc_view hash same d' ms []"
proof -
  have len: "de_idxLen d = length js" using view length_idxValues [of d] by (simp add: dict_enc_view_def)
  let ?b = "Buffer_Reserve pool (dictEncoder_EstimatedDataEncodedSize d)"
  have "1 + MaxRLEBufferSize (BitWidth d) (length js) \<le> length (mb_buf ?b)"
    using Reserve_buf(2) [of "dictEncoder_EstimatedDataEncodedSize d" pool] by (simp add: dictEncoder_EstimatedDataEncodedSize_def len)
  from WriteIndices_ok [OF view this] obtain out n where
    o: "WriteIndices d (mb_buf ?b) = Some (d\<lparr>de_idxLen := 0, de_rawDataSize := 0\<rparr>, out, int n, None)" "length out = length (mb_buf ?b)"
      "n \<le> length (mb_buf ?b)" "index_page js (take n out)" by blast
  let ?buf = "Buffer_ResizeNoShrink (?b\<lparr>mb_buf := out\<rparr>) n"
  have "mb_buf ?buf = out" "mb_length ?buf = n" using o(2,3) by (simp_all add: ResizeNoShrink_buf Buffer_Reserve_def)
  then have "Buffer_Bytes ?buf = Some (take n out)" using Bytes_ok [of ?buf] o(2,3) by (simp add: buffer_ok_def)
  moreover have "dict_enc_view hash same (d\<lparr>de_idxLen := 0, de_rawDataSize := 0\<rparr>) ms []"
    using view by (simp add: dict_enc_view_def idx_ok_def idxValues_def)
  ultimately show ?thesis using o(1,4) by (simp add: dictEncoder_FlushValues_def)
qed

lemma WriteDict_ok:
  assumes view: "dict_enc_view hash same d ms js" and T: "8 dvd LENGTH('b)"
  shows "WriteDict d (replicate (de_dictEncodedSize d) 0) = Some (getBytes ms)"
proof -
  let ?s = "LENGTH('b) div 8" and ?out = "replicate (de_dictEncodedSize d) (0 :: byte)"
  have v: "memo_view hash same (de_memo d) (map Some ms)" "de_dictEncodedSize d = length ms * ?s" using view by (auto simp: dict_enc_view_def)
  have s: "0 < ?s" using T by (metis dvd_div_eq_0_iff len_gt_0 neq0_conv)
  have len: "length (fromBytes ?out :: 'b word list) = length ms" using s by (simp add: fromBytes_def v(2))
  then have "\<exists>out'. Table_CopyValuesSubset (de_memo d) 0 (fromBytes ?out) = Some out' \<and> length out' = length ms \<and> (\<forall>j<length ms. out' ! j = ms ! j)"
    using CopyValuesSubset_ok [OF v(1), of 0 "fromBytes ?out"] by simp
  then have "Table_CopyValuesSubset (de_memo d) 0 (fromBytes ?out) = Some ms" by (metis nth_equalityI)
  moreover have "blit ?out 0 (getBytes ms) = getBytes ms" by (simp add: blit_def v(2))
  ultimately show ?thesis
    by (simp add: WriteDict_def WriteOutLE_def HashTable_WriteOut_def HashTable_WriteOutSubset_def Table_CopyValuesSubset_def HashTable_CopyValuesSubset_def)
qed

lemma New_dict_view: "dict_enc_view hash same (newDictEncoderBase pool (NewMemoTable 0)) [] []"
  using NewMemoTable_view [of 0]
  by (simp add: dict_enc_view_def newDictEncoderBase_def newEncoderBase_def encoder.defs idx_ok_def idxValues_def)

lemma DictReset_ok:
  assumes "dict_enc_view hash same d ms js"
  shows "dict_enc_view hash same (dictEncoder_Reset pool d) [] []"
  using assms Reset_view ResizeNoShrink_buf(1) [of "de_idxBuffer d" 0] Reserve_buf(3) [of "de_idxBuffer d" 0]
  by (simp add: dict_enc_view_def dictEncoder_Reset_def Let_def idx_ok_def idxValues_def encoder_Reset_def)

end

interpretation dict_int: word_memo_key hash_signed same_int
  by unfold_locales

interpretation dict_float32: word_memo_key hash_float32 same_float32
  by unfold_locales

interpretation dict_float64: word_memo_key hash_float64 same_float64
  by unfold_locales

end
