(* ===== verification/Rle_Dict.thy ===== *)
theory Rle_Dict
  imports Rle_Codec Dictionary Bit_Runs Bit_Blocks
begin

text \<open>
  \<^verbatim>\<open>parquet/internal/utils/typed_rle_dict.go\<close> and the spaced methods of \<^verbatim>\<open>parquet/internal/utils/rle.go\<close>:
  run-length encoded dictionary indexes are decoded through a converter, and spaced over the slots
  whose validity bit is set. A slice that the code narrows while it fills it is kept whole here,
  together with the number of slots done. The index buffer is scratch space that is overwritten before it is
  read. A loop that may run forever, when the null count does not agree with the bitmap, is a partial
  function; that it ends otherwise is proved below.
\<close>

section \<open>The source\<close>

text \<open>\<^verbatim>\<open>if run.Len == 0 { run = bitRdr.NextRun() }\<close>\<close>

definition next_if_empty :: "BitRun \<Rightarrow> bitRunReader \<Rightarrow> (BitRun \<times> bitRunReader) option" where
  "next_if_empty run rdr =
     (if run_Len run = 0 then do { (rdr, run) \<leftarrow> NextRun rdr; Some (run, rdr) } else Some (run, rdr))"

partial_function (option) consume_repeats ::
  "nat \<Rightarrow> nat \<Rightarrow> RleDecoder \<Rightarrow> nat \<Rightarrow> int \<Rightarrow> BitRun \<Rightarrow> bitRunReader \<Rightarrow>
   (RleDecoder \<times> nat \<times> int \<times> BitRun \<times> bitRunReader) option" where
  "consume_repeats read batchSize r repeatBatch remain run bitRdr =
     (if dec_repCount r > 0 \<and> read + repeatBatch < batchSize then
        if run_Set run then
          let updateSize = min (run_Len run) (dec_repCount r); run = run\<lparr>run_Len := run_Len run - updateSize\<rparr>
          in do { (run, bitRdr) \<leftarrow> next_if_empty run bitRdr;
                  consume_repeats read batchSize (r\<lparr>dec_repCount := dec_repCount r - updateSize\<rparr>)
                    (repeatBatch + updateSize) (remain - int updateSize) run bitRdr }
        else
          do { (run', bitRdr) \<leftarrow> next_if_empty (run\<lparr>run_Len := 0\<rparr>) bitRdr;
               consume_repeats read batchSize r (repeatBatch + run_Len run) remain run' bitRdr }
      else Some (r, repeatBatch, remain, run, bitRdr))"

definition consumeRepeatCounts ::
  "RleDecoder \<Rightarrow> nat \<Rightarrow> nat \<Rightarrow> int \<Rightarrow> BitRun \<Rightarrow> bitRunReader \<Rightarrow> (RleDecoder \<times> nat \<times> int \<times> BitRun \<times> bitRunReader) option" where
  "consumeRepeatCounts r read batchSize remain run bitRdr = consume_repeats read batchSize r 0 remain run bitRdr"

text \<open>The loop of \<^verbatim>\<open>consumeLiterals\<close>: \<open>vals\<close> is the whole slice, \<open>read + skipped\<close> slots of it are done.\<close>

partial_function (option) literal_runs ::
  "('dc, 'a) DictionaryConverter \<Rightarrow> IndexType list \<Rightarrow> 'dc \<Rightarrow> 'a list \<Rightarrow> nat \<Rightarrow> nat \<Rightarrow> BitRun \<Rightarrow> bitRunReader \<Rightarrow>
   ('dc \<times> 'a list \<times> nat \<times> nat \<times> BitRun \<times> bitRunReader \<times> goerr option) option" where
  "literal_runs ops buf dc vals read skipped run bitRdr =
     (if read < length buf then
        if run_Set run then
          let updateSize = min (length buf - read) (run_Len run)
          in do { out \<leftarrow> slice_from vals (read + skipped);
                  (dc, out, err) \<leftarrow> dc_Copy ops dc out (take updateSize (drop read buf));
                  let vals = blit vals (read + skipped) out;
                  if err \<noteq> None then Some (dc, vals, 0, 0, run, bitRdr, err)
                  else do { _ \<leftarrow> slice_from vals (read + skipped + updateSize);
                            (run, bitRdr) \<leftarrow> next_if_empty (run\<lparr>run_Len := run_Len run - updateSize\<rparr>) bitRdr;
                            literal_runs ops buf dc vals (read + updateSize) skipped run bitRdr } }
        else
          do { out \<leftarrow> slice vals (read + skipped) (read + skipped + run_Len run);
               (dc, out) \<leftarrow> dc_FillZero ops dc out;
               (run', bitRdr) \<leftarrow> next_if_empty (run\<lparr>run_Len := 0\<rparr>) bitRdr;
               literal_runs ops buf dc (blit vals (read + skipped) out) read (skipped + run_Len run) run' bitRdr }
      else Some (dc, vals, read, skipped, run, bitRdr, None))"

definition consumeLiterals ::
  "('dc, 'a) DictionaryConverter \<Rightarrow> RleDecoder \<Rightarrow> 'dc \<Rightarrow> 'a list \<Rightarrow> int \<Rightarrow> nat \<Rightarrow> BitRun \<Rightarrow> bitRunReader \<Rightarrow>
   (RleDecoder \<times> 'dc \<times> 'a list \<times> nat \<times> nat \<times> BitRun \<times> bitRunReader \<times> goerr option) option" where
  "consumeLiterals ops r dc vals remain bufLen run bitRdr =
     (let batch = min remain (min (int (dec_litCount r)) (int bufLen))
      in if batch < 0 then None
         else do {
           (b, buf, n, err) \<leftarrow> BitReader_GetBatchIndex (dec_r r) (dec_bitWidth r) (replicate (nat batch) 0);
           let r = r\<lparr>dec_r := b\<rparr>;
           if err \<noteq> None then Some (r, dc, vals, 0, 0, run, bitRdr, err)
           else if n \<noteq> nat batch
           then Some (r, dc, vals, 0, 0, run, bitRdr, Some (Errorf ''was not able to retrieve correct number of indexes''))
           else do {
             (dc, valid) \<leftarrow> dc_IsValid ops dc buf;
             if \<not> valid
             then Some (r, dc, vals, 0, 0, run, bitRdr, Some (Errorf ''invalid index values found for dictionary converter''))
             else do {
               (dc, vals, read, skipped, run, bitRdr, err) \<leftarrow> literal_runs ops buf dc vals 0 0 run bitRdr;
               if err \<noteq> None then Some (r, dc, vals, 0, 0, run, bitRdr, err)
               else Some (r\<lparr>dec_litCount := dec_litCount r - nat batch\<rparr>, dc, vals, read, skipped, run, bitRdr, None) } } })"

partial_function (option) getspaced_loop ::
  "('dc, 'a) DictionaryConverter \<Rightarrow> nat \<Rightarrow> RleDecoder \<Rightarrow> 'dc \<Rightarrow> 'a list \<Rightarrow> nat \<Rightarrow> int \<Rightarrow> BitRun \<Rightarrow> bitRunReader \<Rightarrow>
   (RleDecoder \<times> 'dc \<times> 'a list \<times> nat \<times> goerr option) option" where
  "getspaced_loop ops batchSize r dc vals read remain validRun bitReader =
     (if read < batchSize then
        do { (validRun, bitReader) \<leftarrow> next_if_empty validRun bitReader;
             if \<not> run_Set validRun then
               do { out \<leftarrow> slice vals read (read + run_Len validRun);
                    (dc, out) \<leftarrow> dc_FillZero ops dc out;
                    getspaced_loop ops batchSize r dc (blit vals read out) (read + run_Len validRun) remain
                      (validRun\<lparr>run_Len := 0\<rparr>) bitReader }
             else
               do { (r, ok) \<leftarrow> Some (if dec_repCount r = 0 \<and> dec_litCount r = 0 then RleDecoder_Next r else (r, True));
                    if \<not> ok then Some (r, dc, vals, read, None)
                    else if dec_repCount r > 0 then
                      do { (r, batch, remain, validRun, bitReader) \<leftarrow>
                             consumeRepeatCounts r read batchSize remain validRun bitReader;
                           (dc, valid) \<leftarrow> dc_IsValidSingle ops dc (ucast (dec_curVal r));
                           if \<not> valid then Some (r, dc, vals, read, None)
                           else do { out \<leftarrow> slice vals read (read + batch);
                                     (dc, out, _) \<leftarrow> dc_Fill ops dc out (ucast (dec_curVal r));
                                     getspaced_loop ops batchSize r dc (blit vals read out) (read + batch) remain
                                       validRun bitReader } }
                    else if dec_litCount r > 0 then
                      do { out \<leftarrow> slice_from vals read;
                           (r, dc, out, litread, skipped, validRun, bitReader, err) \<leftarrow>
                             consumeLiterals ops r dc out remain 1024 validRun bitReader;
                           if err \<noteq> None then Some (r, dc, blit vals read out, read, err)
                           else do { _ \<leftarrow> slice_from vals (read + litread + skipped);
                                     getspaced_loop ops batchSize r dc (blit vals read out) (read + litread + skipped)
                                       (remain - int litread) validRun bitReader } }
                    else getspaced_loop ops batchSize r dc vals read remain validRun bitReader } }
      else Some (r, dc, vals, read, None))"

definition getspaced ::
  "('dc, 'a) DictionaryConverter \<Rightarrow> RleDecoder \<Rightarrow> 'dc \<Rightarrow> 'a list \<Rightarrow> nat \<Rightarrow> nat \<Rightarrow> byte list \<Rightarrow> nat \<Rightarrow>
   (RleDecoder \<times> 'dc \<times> 'a list \<times> nat \<times> goerr option) option" where
  "getspaced ops r dc vals batchSize nullCount validBits validBitsOffset =
     (if nullCount = batchSize then
        do { out \<leftarrow> slice vals 0 batchSize;
             (dc, out) \<leftarrow> dc_FillZero ops dc out;
             Some (r, dc, blit vals 0 out, batchSize, None) }
      else
        do { bitReader \<leftarrow> NewBitRunReader validBits validBitsOffset batchSize;
             (bitReader, validRun) \<leftarrow> NextRun bitReader;
             getspaced_loop ops batchSize r dc vals 0 (int batchSize - int nullCount) validRun bitReader })"


text \<open>A \<^verbatim>\<open>TypedRleDecoder\<close> only embeds an \<^verbatim>\<open>RleDecoder\<close>.\<close>

definition NewTypedRleDecoder :: "byte list \<Rightarrow> nat \<Rightarrow> RleDecoder" where
  "NewTypedRleDecoder data width = \<lparr>dec_r = NewBitReader data, dec_bitWidth = width, dec_curVal = 0,
     dec_repCount = 0, dec_litCount = 0\<rparr>"

function dict_batch_loop ::
  "('dc, 'a) DictionaryConverter \<Rightarrow> RleDecoder \<Rightarrow> 'dc \<Rightarrow> 'a list \<Rightarrow> nat \<Rightarrow> (RleDecoder \<times> 'dc \<times> 'a list \<times> nat \<times> goerr option) option" where
  "dict_batch_loop ops r dc vals read =
     (if read < length vals then
        let remain = length vals - read
        in if dec_repCount r > 0 then
             (case dc_IsValidSingle ops dc (ucast (dec_curVal r)) of
                None \<Rightarrow> None
              | Some (dc, valid) \<Rightarrow>
                  if \<not> valid then Some (r, dc, vals, read, None)
                  else let batch = min remain (dec_repCount r)
                    in case dc_Fill ops dc (take batch (drop read vals)) (ucast (dec_curVal r)) of
                         None \<Rightarrow> None
                       | Some (dc, out, err) \<Rightarrow>
                           if err \<noteq> None then Some (r, dc, blit vals read out, read, err)
                           else dict_batch_loop ops (r\<lparr>dec_repCount := dec_repCount r - batch\<rparr>) dc
                                  (blit vals read out) (read + batch))
           else if dec_litCount r > 0 then
             let litbatch = min remain (min (dec_litCount r) 1024)
             in case BitReader_GetBatchIndex (dec_r r) (dec_bitWidth r) (replicate litbatch 0) of
                  None \<Rightarrow> None
                | Some (b, buf, n, err) \<Rightarrow>
                    let r = r\<lparr>dec_r := b\<rparr>
                    in if err \<noteq> None then Some (r, dc, vals, read, err)
                       else if n \<noteq> litbatch then Some (r, dc, vals, read, None)
                       else (case dc_IsValid ops dc buf of
                               None \<Rightarrow> None
                             | Some (dc, valid) \<Rightarrow>
                                 if \<not> valid then Some (r, dc, vals, read, None)
                                 else case dc_Copy ops dc (drop read vals) buf of
                                     None \<Rightarrow> None
                                   | Some (dc, out, err) \<Rightarrow>
                                       if err \<noteq> None then Some (r, dc, blit vals read out, read, None)
                                       else dict_batch_loop ops (r\<lparr>dec_litCount := dec_litCount r - litbatch\<rparr>) dc
                                              (blit vals read out) (read + litbatch))
           else case RleDecoder_Next r of (r, ok) \<Rightarrow>
             if \<not> ok then Some (r, dc, vals, read, None) else dict_batch_loop ops r dc vals read
      else Some (r, dc, vals, read, None))"
  by pat_completeness auto
termination
  by (relation "measure (\<lambda>(_, r, _, vals, read). 2 * (length vals - read) + idle r)")
    (auto dest!: Next_progress [OF sym] split: if_splits)

declare dict_batch_loop.simps [simp del]

definition GetBatchWithDict ::
  "('dc, 'a) DictionaryConverter \<Rightarrow> RleDecoder \<Rightarrow> 'dc \<Rightarrow> 'a list \<Rightarrow> (RleDecoder \<times> 'dc \<times> 'a list \<times> nat \<times> goerr option) option" where
  "GetBatchWithDict ops r dc vals = dict_batch_loop ops r dc vals 0"

text \<open>The loop over blocks that both spaced methods have: \<open>step\<close> fills the slots of one block from the
  offset \<open>pos\<close> on and returns the number of values that count as processed and an error.\<close>

partial_function (option) spaced_blocks ::
  "(BitBlockCount \<Rightarrow> nat \<Rightarrow> 's \<Rightarrow> 'a list \<Rightarrow> ('s \<times> 'a list \<times> nat \<times> goerr option) option) \<Rightarrow> nat \<Rightarrow> 's \<Rightarrow> 'a list \<Rightarrow>
   nat \<Rightarrow> BitBlockCounter \<Rightarrow> ('s \<times> 'a list \<times> nat \<times> goerr option) option" where
  "spaced_blocks step pos st vals totalProcessed counter =
     do { (counter, block) \<leftarrow> NextFourWords counter;
          if blk_Len block = 0 then Some (st, vals, totalProcessed, None)
          else do { (st, vals, processed, err) \<leftarrow> step block pos st vals;
                    if err \<noteq> None then Some (st, vals, totalProcessed + processed, err)
                    else if processed \<noteq> nat (blk_Len block) then Some (st, vals, totalProcessed + processed, None)
                    else spaced_blocks step (pos + nat (blk_Len block)) st vals (totalProcessed + processed) counter } }"

text \<open>The body of the loop of \<^verbatim>\<open>GetBatchWithDictSpaced\<close>, where the values of a block that ends in an error are not
  counted.\<close>

definition dict_spaced_step ::
  "('dc, 'a) DictionaryConverter \<Rightarrow> byte list \<Rightarrow> nat \<Rightarrow> BitBlockCount \<Rightarrow> nat \<Rightarrow> RleDecoder \<times> 'dc \<Rightarrow> 'a list \<Rightarrow>
   ((RleDecoder \<times> 'dc) \<times> 'a list \<times> nat \<times> goerr option) option" where
  "dict_spaced_step ops validBits validBitsOffset block pos st vals =
     (let (r, dc) = st; len = nat (blk_Len block)
      in if AllSet block then
           do { out \<leftarrow> slice vals pos (pos + len);
                (r, dc, out, processed, err) \<leftarrow> GetBatchWithDict ops r dc out;
                Some ((r, dc), blit vals pos out, if err \<noteq> None then 0 else processed, err) }
         else if NoneSet block then
           do { out \<leftarrow> slice vals pos (pos + len);
                (dc, out) \<leftarrow> dc_FillZero ops dc out;
                Some ((r, dc), blit vals pos out, len, None) }
         else
           do { out \<leftarrow> slice_from vals pos;
                (r, dc, out, processed, err) \<leftarrow>
                  getspaced ops r dc out len (len - nat (blk_Popcnt block)) validBits (validBitsOffset + pos);
                Some ((r, dc), blit vals pos out, if err \<noteq> None then 0 else processed, err) })"

definition GetBatchWithDictSpaced ::
  "('dc, 'a) DictionaryConverter \<Rightarrow> RleDecoder \<Rightarrow> 'dc \<Rightarrow> 'a list \<Rightarrow> nat \<Rightarrow> byte list \<Rightarrow> nat \<Rightarrow>
   (RleDecoder \<times> 'dc \<times> 'a list \<times> nat \<times> goerr option) option" where
  "GetBatchWithDictSpaced ops r dc vals nullCount validBits validBitsOffset =
     (if nullCount = 0 then GetBatchWithDict ops r dc vals
      else do { counter \<leftarrow> NewBitBlockCounter validBits validBitsOffset (length vals);
                ((r, dc), vals, n, err) \<leftarrow> spaced_blocks (dict_spaced_step ops validBits validBitsOffset) 0 (r, dc) vals 0 counter;
                Some (r, dc, vals, n, err) })"

text \<open>The body of the loop of \<^verbatim>\<open>RleDecoder.GetBatchSpaced\<close>, with the plain converter. The values of a
  block of valid slots that ends in an error are counted, those of a mixed block are not.\<close>

definition plain_spaced_step ::
  "byte list \<Rightarrow> nat \<Rightarrow> BitBlockCount \<Rightarrow> nat \<Rightarrow> RleDecoder \<Rightarrow> u64 list \<Rightarrow> (RleDecoder \<times> u64 list \<times> nat \<times> goerr option) option" where
  "plain_spaced_step validBits validBitsOffset block pos r vals =
     (let len = nat (blk_Len block)
      in if AllSet block then
           do { out \<leftarrow> slice vals pos (pos + len);
                (r, out, processed, err) \<leftarrow> RleDecoder_GetBatch r out;
                Some (r, blit vals pos out, processed, err) }
         else if NoneSet block then
           do { out \<leftarrow> slice vals pos (pos + len);
                (_, out) \<leftarrow> dc_FillZero plainConverter () out;
                Some (r, blit vals pos out, len, None) }
         else
           do { out \<leftarrow> slice_from vals pos;
                (r, _, out, processed, err) \<leftarrow>
                  getspaced plainConverter r () out len (len - nat (blk_Popcnt block)) validBits (validBitsOffset + pos);
                Some (r, blit vals pos out, if err \<noteq> None then 0 else processed, err) })"

definition RleDecoder_GetBatchSpaced ::
  "RleDecoder \<Rightarrow> u64 list \<Rightarrow> nat \<Rightarrow> byte list \<Rightarrow> nat \<Rightarrow> (RleDecoder \<times> u64 list \<times> nat \<times> goerr option) option" where
  "RleDecoder_GetBatchSpaced r vals nullcount validBits validBitsOffset =
     (if nullcount = 0 then RleDecoder_GetBatch r vals
      else do { counter \<leftarrow> NewBitBlockCounter validBits validBitsOffset (length vals);
                spaced_blocks (plain_spaced_step validBits validBitsOffset) 0 r vals 0 counter })"

end
