(* ===== verification/Rle_Spaced.thy ===== *)
theory Rle_Spaced
  imports Rle_Dict
begin

text \<open>
  What the decoders of \<open>Rle_Dict\<close> deliver: through any converter that keeps its contract, each slot whose
  validity bit is set receives the dictionary value of its index, and the loops end.
\<close>

section \<open>Filling valid slots\<close>

text \<open>\<open>spaced_fill p a b F vals vals'\<close>: of the slots from \<open>a\<close> to \<open>b\<close>, those where \<open>p\<close> holds have received \<open>F\<close>;
  the slots outside are as they were.\<close>

definition spaced_fill :: "(nat \<Rightarrow> bool) \<Rightarrow> nat \<Rightarrow> nat \<Rightarrow> (nat \<Rightarrow> 'a) \<Rightarrow> 'a list \<Rightarrow> 'a list \<Rightarrow> bool" where
  "spaced_fill p a b F vals vals' \<longleftrightarrow> length vals' = length vals \<and> (\<forall>i. a \<le> i \<and> i < b \<and> p i \<longrightarrow> vals' ! i = F i) \<and>
     (\<forall>i<length vals. i < a \<or> b \<le> i \<longrightarrow> vals' ! i = vals ! i)"

lemma spaced_fill_refl [simp]: "spaced_fill p a a F vals vals"
  by (auto simp: spaced_fill_def)

lemma spaced_fill_length: "spaced_fill p a b F vals vals' \<Longrightarrow> length vals' = length vals"
  by (simp add: spaced_fill_def)

lemma spaced_fill_trans:
  assumes "spaced_fill p a b F vals vals1" "spaced_fill p b c F vals1 vals2" "a \<le> b" "b \<le> c" "c \<le> length vals"
  shows "spaced_fill p a c F vals vals2"
  unfolding spaced_fill_def
proof (intro conjI allI impI)
  show "length vals2 = length vals" using assms(1,2) by (simp add: spaced_fill_def)
next
  fix i assume i: "a \<le> i \<and> i < c \<and> p i"
  show "vals2 ! i = F i"
  proof (cases "i < b")
    case True
    then have "vals2 ! i = vals1 ! i" using assms(1,2,4,5) by (simp add: spaced_fill_def)
    then show ?thesis using assms(1) i True by (simp add: spaced_fill_def)
  qed (use assms(2) i in \<open>simp add: spaced_fill_def\<close>)
next
  fix i assume "i < length vals" "i < a \<or> c \<le> i"
  then show "vals2 ! i = vals ! i" using assms by (auto simp: spaced_fill_def)
qed

lemma spaced_fill_cong:
  "spaced_fill p a b F vals vals' \<Longrightarrow> (\<And>i. a \<le> i \<Longrightarrow> i < b \<Longrightarrow> p i \<Longrightarrow> F i = G i) \<Longrightarrow> spaced_fill p a b G vals vals'"
  by (simp add: spaced_fill_def)

text \<open>A part of the slice is filled and put back.\<close>

lemma spaced_fill_blit:
  assumes "spaced_fill (\<lambda>i. p (a + i)) 0 k (\<lambda>i. F (a + i)) (take m (drop a vals)) out" "k \<le> m" "a + m \<le> length vals"
  shows "spaced_fill p a (a + k) F vals (blit vals a out)"
proof -
  have len: "length out = m" using assms by (simp add: spaced_fill_def)
  have nth: "blit vals a out ! i = (if a \<le> i \<and> i < a + m then out ! (i - a) else vals ! i)" if "i < length vals" for i
    using that len assms(3) by (simp add: nth_blit)
  show ?thesis
    unfolding spaced_fill_def
  proof (intro conjI allI impI)
    show "length (blit vals a out) = length vals" using assms(3) by simp
  next
    fix i assume i: "a \<le> i \<and> i < a + k \<and> p i"
    then obtain j where j: "i = a + j" "j < k" "p (a + j)" using le_Suc_ex by force
    then have "out ! j = F (a + j)" using assms(1) by (simp add: spaced_fill_def)
    then show "blit vals a out ! i = F i" using j assms(2,3) nth [of i] by simp
  next
    fix i assume i: "i < length vals" "i < a \<or> a + k \<le> i"
    have "out ! (i - a) = vals ! i" if "a \<le> i" "i < a + m"
    proof -
      have "i - a < length (take m (drop a vals))" "k \<le> i - a" using that i assms(3) by auto
      then have "out ! (i - a) = take m (drop a vals) ! (i - a)" using assms(1) unfolding spaced_fill_def by blast
      then show ?thesis using that assms(3) by simp
    qed
    then show "blit vals a out ! i = vals ! i" using nth [OF i(1)] by simp
  qed
qed

lemma spaced_fill_slice:
  assumes "length out = k" "\<And>i. i < k \<Longrightarrow> p (a + i) \<Longrightarrow> out ! i = F (a + i)" "a + k \<le> length vals"
  shows "spaced_fill p a (a + k) F vals (blit vals a out)"
  by (rule spaced_fill_blit [of _ _ k _ k]) (use assms in \<open>auto simp: spaced_fill_def\<close>)

section \<open>The runs ahead\<close>

text \<open>At position \<open>pos\<close> of \<open>n\<close> bits \<open>p\<close>: the rest of the current run, and the reader behind it.\<close>

definition ahead :: "(nat \<Rightarrow> bool) \<Rightarrow> nat \<Rightarrow> nat \<Rightarrow> BitRun \<Rightarrow> bitRunReader \<Rightarrow> bool" where
  "ahead p n pos run rdr \<longleftrightarrow> pos + run_Len run \<le> n \<and> (\<forall>i<run_Len run. p (pos + i) = run_Set run) \<and>
     run_view (\<lambda>i. p (pos + run_Len run + i)) (n - (pos + run_Len run)) rdr"

lemma ahead_advance:
  "ahead p n pos run rdr \<Longrightarrow> k \<le> run_Len run \<Longrightarrow> ahead p n (pos + k) (run\<lparr>run_Len := run_Len run - k\<rparr>) rdr"
  by (auto simp: ahead_def add.assoc)

lemma ahead_shift: "m \<le> n \<Longrightarrow> ahead (\<lambda>i. p (m + i)) (n - m) j run rdr \<longleftrightarrow> ahead p n (m + j) run rdr"
  by (auto simp: ahead_def add.assoc)

lemma next_if_empty_ok:
  assumes "ahead p n pos run rdr"
  shows "\<exists>run' rdr'. next_if_empty run rdr = Some (run', rdr') \<and> ahead p n pos run' rdr' \<and> (pos < n \<longrightarrow> 0 < run_Len run')"
proof (cases "run_Len run = 0")
  case False
  then show ?thesis using assms by (simp add: next_if_empty_def)
next
  case True
  let ?p = "\<lambda>i. p (pos + i)"
  have v: "run_view ?p (n - pos) rdr" "pos \<le> n" using assms True by (simp_all add: ahead_def)
  show ?thesis
  proof (cases "pos < n")
    case False
    then show ?thesis using v True runs.at_end [of ?p rdr] by (auto simp: next_if_empty_def ahead_def)
  next
    case less: True
    define k where "k = run_from ?p 0 (n - pos) (?p 0)"
    have k: "0 < k" "k \<le> n - pos" using runs.next_run_progress [of "n - pos" ?p] less by (auto simp: k_def)
    from runs.next_run [OF v(1)] less obtain rdr' where
      r: "NextRun rdr = Some (rdr', \<lparr>run_Len = k, run_Set = ?p 0\<rparr>)" "run_view (\<lambda>i. ?p (k + i)) (n - pos - k) rdr'"
      unfolding k_def by auto
    have "\<forall>i<k. ?p i = ?p 0" using run_from_bit [of 0 _ ?p "n - pos" "?p 0"] by (simp add: k_def)
    then have "ahead p n pos \<lparr>run_Len = k, run_Set = ?p 0\<rparr> rdr'" using r(2) k less by (auto simp: ahead_def add.assoc)
    then show ?thesis using r(1) k True by (simp add: next_if_empty_def)
  qed
qed

lemma ahead_count:
  assumes "ahead p n pos run rdr" "k \<le> run_Len run"
  shows "count_bits p (pos + k) = count_bits p pos + (if run_Set run then k else 0)"
  by (rule count_bits_const) (use assms in \<open>auto simp: ahead_def\<close>)

lemma consume_repeats_ok:
  assumes "ahead p n (read + rb) run rdr" "read + rb < n \<longrightarrow> 0 < run_Len run"
  shows "\<exists>k rb' run' rdr'. consume_repeats read n r rb remain run rdr =
      Some (r\<lparr>dec_repCount := dec_repCount r - k\<rparr>, rb', remain - int k, run', rdr') \<and> k \<le> dec_repCount r \<and> rb \<le> rb' \<and>
    count_bits p (read + rb') = count_bits p (read + rb) + k \<and> read + rb' \<le> n \<and> ahead p n (read + rb') run' rdr' \<and>
    (0 < dec_repCount r \<and> read + rb < n \<longrightarrow> rb < rb' \<and> (run_Set run \<longrightarrow> 0 < k))"
  using assms
proof (induction "n - (read + rb)" arbitrary: r rb remain run rdr rule: less_induct)
  case less
  note a = less.prems(1)
  show ?case
  proof (cases "0 < dec_repCount r \<and> read + rb < n")
    case False
    then show ?thesis
      using a by (intro exI [of _ 0] exI [of _ rb] exI [of _ run] exI [of _ rdr]) (subst consume_repeats.simps, auto simp: ahead_def)
  next
    case True
    define m where "m = (if run_Set run then min (run_Len run) (dec_repCount r) else run_Len run)"
    define u where "u = (if run_Set run then m else 0)"
    define r1 where "r1 = r\<lparr>dec_repCount := dec_repCount r - u\<rparr>"
    have m: "0 < m" "m \<le> run_Len run" "u \<le> dec_repCount r" "run_Set run \<Longrightarrow> 0 < u"
      using True less.prems(2) by (auto simp: m_def u_def)
    from next_if_empty_ok [OF ahead_advance [OF a m(2)]] obtain run1 rdr1 where
      1: "next_if_empty (run\<lparr>run_Len := run_Len run - m\<rparr>) rdr = Some (run1, rdr1)" "ahead p n (read + (rb + m)) run1 rdr1"
        "read + (rb + m) < n \<longrightarrow> 0 < run_Len run1" by (auto simp: add.assoc)
    have step: "consume_repeats read n r rb remain run rdr = consume_repeats read n r1 (rb + m) (remain - int u) run1 rdr1"
      using True 1(1) by (subst consume_repeats.simps) (auto simp: m_def u_def r1_def Let_def)
    have le: "n - (read + (rb + m)) < n - (read + rb)" using m(1) True by linarith
    have cnt: "count_bits p (read + (rb + m)) = count_bits p (read + rb) + u"
      using ahead_count [OF a m(2)] by (simp add: u_def add.assoc)
    from less.hyps [OF le 1(2,3), of r1 "remain - int u"] obtain k rb' run' rdr' where
      2: "consume_repeats read n r1 (rb + m) (remain - int u) run1 rdr1 =
          Some (r1\<lparr>dec_repCount := dec_repCount r1 - k\<rparr>, rb', remain - int u - int k, run', rdr')" "k \<le> dec_repCount r1" "rb + m \<le> rb'"
        "count_bits p (read + rb') = count_bits p (read + (rb + m)) + k" "read + rb' \<le> n" "ahead p n (read + rb') run' rdr'" by blast
    show ?thesis
      by (intro exI [of _ "u + k"] exI [of _ rb'] exI [of _ run'] exI [of _ rdr'])
        (use 2 step m cnt in \<open>auto simp: r1_def\<close>)
  qed
qed


lemma spaced_fill_copy:
  assumes "\<And>i. i < length xs \<Longrightarrow> xs ! i = F (a + i)" "a + length xs \<le> length vals"
  shows "spaced_fill p a (a + length xs) F vals (blit vals a (blit (drop a vals) 0 xs))"
  by (rule spaced_fill_blit [where m = "length vals - a"]) (use assms in \<open>auto simp: spaced_fill_def nth_blit\<close>)

text \<open>The state of the loop of \<^verbatim>\<open>getspaced\<close> at slot \<open>pos\<close>: \<open>V\<close> are all values of the batch, as many of
  them are gone as there are valid slots before \<open>pos\<close>.\<close>

definition spaced_at ::
  "((IndexType \<Rightarrow> 'a option) \<Rightarrow> IndexType set \<Rightarrow> 'dc \<Rightarrow> bool) \<Rightarrow> (IndexType \<Rightarrow> 'a option) \<Rightarrow> nat \<Rightarrow> byte list \<Rightarrow> bool list \<Rightarrow>
   u64 list \<Rightarrow> (nat \<Rightarrow> bool) \<Rightarrow> nat \<Rightarrow> RleDecoder \<Rightarrow> 'dc \<Rightarrow> nat \<Rightarrow> BitRun \<Rightarrow> bitRunReader \<Rightarrow> bool" where
  "spaced_at conv L w s rest V p n r dc pos run rdr \<longleftrightarrow> decodes w s rest r (drop (count_bits p pos) V) \<and> (\<exists>K. conv L K dc) \<and>
     ahead p n pos run rdr"

text \<open>The values of the batch: there are enough, and each is an index of the dictionary.\<close>

definition valid_batch :: "(IndexType \<Rightarrow> 'a option) \<Rightarrow> u64 list \<Rightarrow> nat \<Rightarrow> bool" where
  "valid_batch L V c \<longleftrightarrow> c \<le> length V \<and> (\<forall>j<c. L (ucast (V ! j)) \<noteq> None)"

abbreviation "remaining p n pos \<equiv> int (count_bits p n) - int (count_bits p pos)"

context dictionary_converter
begin

text \<open>One round of the loop of \<^verbatim>\<open>consumeLiterals\<close>.\<close>

lemma literal_run_step:
  assumes c: "conv L K dc" and K: "set buf \<subseteq> K" and a: "ahead p n (read + sk) run rdr" "0 < run_Len run"
    and cnt: "count_bits p (read + sk) = read" and buf: "read < length buf" and len: "n \<le> length vals"
  shows "\<exists>dc' vals' read' sk' run' rdr'. literal_runs ops buf dc vals read sk run rdr = literal_runs ops buf dc' vals' read' sk' run' rdr' \<and>
    conv L K dc' \<and> read + sk < read' + sk' \<and> read' \<le> length buf \<and> count_bits p (read' + sk') = read' \<and>
    ahead p n (read' + sk') run' rdr' \<and> (read' + sk' < n \<longrightarrow> 0 < run_Len run') \<and>
    spaced_fill p (read + sk) (read' + sk') (\<lambda>i. the (L (buf ! count_bits p i))) vals vals'"
proof (cases "run_Set run")
  case set: True
  define u where "u = min (length buf - read) (run_Len run)"
  have u: "0 < u" "u \<le> run_Len run" "u \<le> length buf - read" using buf a(2) by (auto simp: u_def)
  have room: "u \<le> length vals - (read + sk)" "read + sk + u \<le> length vals" using a(1) len u(2) by (auto simp: ahead_def)
  from next_if_empty_ok [OF ahead_advance [OF a(1) u(2)]] obtain run1 rdr1 where
    1: "next_if_empty (run\<lparr>run_Len := run_Len run - u\<rparr>) rdr = Some (run1, rdr1)" "ahead p n (read + sk + u) run1 rdr1"
      "read + sk + u < n \<longrightarrow> 0 < run_Len run1" by auto
  let ?xs = "take u (drop read buf)" and ?F = "\<lambda>i. the (L (buf ! count_bits p i))"
  have "set ?xs \<subseteq> K" using K by (meson set_drop_subset set_take_subset subset_trans)
  from Copy [OF c this, of "drop (read + sk) vals"] room u(3) obtain dc1 where
    dc1: "dc_Copy ops dc (drop (read + sk) vals) ?xs = Some (dc1, blit (drop (read + sk) vals) 0 (map (the \<circ> L) ?xs), None)" "conv L K dc1"
    by auto
  define vals1 where "vals1 = blit vals (read + sk) (blit (drop (read + sk) vals) 0 (map (the \<circ> L) ?xs))"
  have "map (the \<circ> L) ?xs ! i = ?F (read + sk + i)" if "i < u" for i
    using that u(2,3) ahead_count [OF a(1), of i] set cnt by (simp add: add.assoc)
  then have f: "spaced_fill p (read + sk) (read + sk + u) ?F vals vals1"
    unfolding vals1_def using spaced_fill_copy [of "map (the \<circ> L) ?xs" ?F "read + sk" vals p] u room by simp
  have "literal_runs ops buf dc vals read sk run rdr = literal_runs ops buf dc1 vals1 (read + u) sk run1 rdr1"
    using buf set dc1(1) 1(1) room spaced_fill_length [OF f]
    by (subst literal_runs.simps) (simp add: Let_def u_def vals1_def)
  moreover have "count_bits p (read + sk + u) = read + u" using ahead_count [OF a(1) u(2)] cnt set by simp
  ultimately show ?thesis
    using dc1(2) f 1(2,3) u(1,3) buf
    by (intro exI [of _ dc1] exI [of _ vals1] exI [of _ "read + u"] exI [of _ sk] exI [of _ run1] exI [of _ rdr1]) (simp add: add.commute add.left_commute)
next
  case False
  let ?u = "run_Len run" let ?o = "take ?u (drop (read + sk) vals)"
  have room: "read + sk + ?u \<le> length vals" using a(1) len by (simp add: ahead_def)
  from next_if_empty_ok [OF ahead_advance [OF a(1) order.refl]] obtain run1 rdr1 where
    1: "next_if_empty (run\<lparr>run_Len := 0\<rparr>) rdr = Some (run1, rdr1)" "ahead p n (read + sk + ?u) run1 rdr1"
      "read + sk + ?u < n \<longrightarrow> 0 < run_Len run1" by auto
  have "?o \<noteq> []" using a(2) room by auto
  from FillZero [OF c this] room obtain dc1 out where
    dc1: "dc_FillZero ops dc ?o = Some (dc1, out)" "length out = ?u" "conv L K dc1" by auto
  have "spaced_fill p (read + sk) (read + sk + ?u) F vals (blit vals (read + sk) out)" for F
    by (rule spaced_fill_slice [OF dc1(2)]) (use a(1) False room in \<open>auto simp: ahead_def\<close>)
  moreover have "literal_runs ops buf dc vals read sk run rdr = literal_runs ops buf dc1 (blit vals (read + sk) out) read (sk + ?u) run1 rdr1"
    using buf False dc1(1) 1(1) room by (subst literal_runs.simps) (simp add: slice_def)
  moreover have "count_bits p (read + sk + ?u) = read" using ahead_count [OF a(1) order.refl] cnt False by simp
  ultimately show ?thesis
    using dc1(3) 1(2,3) a(2) buf
    by (intro exI [of _ dc1] exI [of _ "blit vals (read + sk) out"] exI [of _ read] exI [of _ "sk + ?u"] exI [of _ run1] exI [of _ rdr1])
      (simp add: add.assoc)
qed

lemma literal_runs_ok:
  assumes "conv L K dc" "set buf \<subseteq> K" "ahead p n (read + sk) run rdr" "read + sk < n \<longrightarrow> 0 < run_Len run"
    "count_bits p (read + sk) = read" "read \<le> length buf" "length buf \<le> count_bits p n" "n \<le> length vals"
  shows "\<exists>dc' vals' sk' run' rdr'. literal_runs ops buf dc vals read sk run rdr = Some (dc', vals', length buf, sk', run', rdr', None) \<and>
    conv L K dc' \<and> read + sk \<le> length buf + sk' \<and> length buf + sk' \<le> n \<and> count_bits p (length buf + sk') = length buf \<and>
    spaced_fill p (read + sk) (length buf + sk') (\<lambda>i. the (L (buf ! count_bits p i))) vals vals' \<and>
    ahead p n (length buf + sk') run' rdr'"
  using assms
proof (induction "n - (read + sk)" arbitrary: dc vals read sk run rdr rule: less_induct)
  case less
  let ?F = "\<lambda>i. the (L (buf ! count_bits p i))"
  show ?case
  proof (cases "read < length buf")
    case False
    then have "read = length buf" "read + sk \<le> n" using less.prems(3,6) by (simp_all add: ahead_def)
    then show ?thesis using less.prems(1,3,5) by (subst literal_runs.simps) auto
  next
    case True
    then have lt: "read + sk < n" using less.prems(5,7) count_bits_mono [of n "read + sk" p] by force
    then have "0 < run_Len run" using less.prems(4) by blast
    from literal_run_step [OF less.prems(1-3) this less.prems(5) True less.prems(8)] obtain dc1 vals1 read1 sk1 run1 rdr1 where
      1: "literal_runs ops buf dc vals read sk run rdr = literal_runs ops buf dc1 vals1 read1 sk1 run1 rdr1" "conv L K dc1"
        "read + sk < read1 + sk1" "read1 \<le> length buf" "count_bits p (read1 + sk1) = read1" "ahead p n (read1 + sk1) run1 rdr1"
        "read1 + sk1 < n \<longrightarrow> 0 < run_Len run1" "spaced_fill p (read + sk) (read1 + sk1) ?F vals vals1" by blast
    have "n - (read1 + sk1) < n - (read + sk)" "n \<le> length vals1" using 1(3) lt spaced_fill_length [OF 1(8)] less.prems(8) by auto
    from less.hyps [OF this(1) 1(2) less.prems(2) 1(6,7,5,4) less.prems(7) this(2)] obtain dc' vals' sk' run' rdr' where
      2: "literal_runs ops buf dc1 vals1 read1 sk1 run1 rdr1 = Some (dc', vals', length buf, sk', run', rdr', None)"
        "conv L K dc'" "read1 + sk1 \<le> length buf + sk'" "length buf + sk' \<le> n" "count_bits p (length buf + sk') = length buf"
        "spaced_fill p (read1 + sk1) (length buf + sk') ?F vals1 vals'" "ahead p n (length buf + sk') run' rdr'" by blast
    have "spaced_fill p (read + sk) (length buf + sk') ?F vals vals'"
      by (rule spaced_fill_trans [OF 1(8) 2(6)]) (use 1(3) 2(3,4) less.prems(8) in auto)
    with 1(1,3) 2 show ?thesis by auto
  qed
qed

lemma consumeLiterals_ok:
  assumes d: "decodes w s rest r vs" "dec_repCount r = 0" "0 < dec_litCount r" and w: "0 < w" "w \<le> 32" and c: "conv L K dc"
    and a: "ahead p n 0 run rdr" "0 < run_Len run" and pc: "0 < count_bits p n" and len: "n \<le> length vals" and cap: "0 < cap"
    and valid: "\<And>j. j < count_bits p n \<Longrightarrow> L (ucast (vs ! j)) \<noteq> None"
  shows "\<exists>k r' K' dc' vals' sk run' rdr'. consumeLiterals ops r dc vals (int (count_bits p n)) cap run rdr =
      Some (r', dc', vals', k, sk, run', rdr', None) \<and> 0 < k \<and> k \<le> length vs \<and> decodes w s rest r' (drop k vs) \<and> conv L K' dc' \<and>
    k + sk \<le> n \<and> count_bits p (k + sk) = k \<and> spaced_fill p 0 (k + sk) (\<lambda>i. the (L (ucast (vs ! count_bits p i)))) vals vals' \<and>
    ahead p n (k + sk) run' rdr'"
proof -
  define k where "k = min (count_bits p n) (min (dec_litCount r) cap)"
  have k: "0 < k" "k \<le> dec_litCount r" "k \<le> count_bits p n" using d(3) pc cap by (auto simp: k_def)
  have int_k: "min (int (count_bits p n)) (min (int (dec_litCount r)) (int cap)) = int k" by (simp add: k_def)
  from decodes_lit [OF d(1,2) k(1,2) w(1)] obtain q where
    1: "reading s q (dec_r r)" "q + w * k \<le> 8 * length s" "k \<le> length vs" "take k vs = map (\<lambda>i. value_at s (q + w * i) w) [0..<k]"
      "\<And>b. reading s (q + w * k) b \<Longrightarrow> decodes w s rest (r\<lparr>dec_r := b, dec_litCount := dec_litCount r - k\<rparr>) (drop k vs)" by blast
  define buf :: "IndexType list" where "buf = map ucast (take k vs)"
  have "buf = map (\<lambda>i. value_at s (q + w * i) w) [0..<k]"
    unfolding buf_def 1(4) map_map comp_def using w(2) by (simp add: ucast_value_at)
  with GetBatchIndex_ok [OF 1(1) w(2), of "replicate k 0"] 1(2) obtain b where
    b: "BitReader_GetBatchIndex (dec_r r) w (replicate k 0) = Some (b, buf, k, None)" "reading s (q + w * k) b" by auto
  have bw: "dec_bitWidth r = w" using d(1) by (simp add: decodes_def)
  have buf: "length buf = k" "\<And>j. j < k \<Longrightarrow> buf ! j = ucast (vs ! j)" using 1(3) by (auto simp: buf_def)
  have ne: "buf \<noteq> []" using buf(1) k(1) by auto
  have all: "\<forall>i\<in>set buf. L i \<noteq> None" using valid buf k(3) by (auto simp: in_set_conv_nth)
  from IsValid [OF c ne] all obtain dc1 where dc1: "dc_IsValid ops dc buf = Some (dc1, True)" "conv L (K \<union> set buf) dc1" by auto
  from literal_runs_ok [OF dc1(2) _ _ _ _ _ _ len, of buf p 0 0 run rdr] a buf(1) k(3) obtain dc' vals' sk run' rdr' where
    2: "literal_runs ops buf dc1 vals 0 0 run rdr = Some (dc', vals', k, sk, run', rdr', None)" "conv L (K \<union> set buf) dc'"
      "k + sk \<le> n" "count_bits p (k + sk) = k" "spaced_fill p 0 (k + sk) (\<lambda>i. the (L (buf ! count_bits p i))) vals vals'"
      "ahead p n (k + sk) run' rdr'" by auto
  have "spaced_fill p 0 (k + sk) (\<lambda>i. the (L (ucast (vs ! count_bits p i)))) vals vals'"
    using 2(5) by (rule spaced_fill_cong) (use buf(2) count_bits_less [of _ "k + sk" p] 2(4) in simp)
  moreover have "consumeLiterals ops r dc vals (int (count_bits p n)) cap run rdr =
      Some (r\<lparr>dec_r := b, dec_litCount := dec_litCount r - k\<rparr>, dc', vals', k, sk, run', rdr', None)"
    using b(1) bw dc1(1) 2(1) by (simp add: consumeLiterals_def int_k Let_def)
  ultimately show ?thesis using 1(3,5) b(2) k(1) 2 by blast
qed

text \<open>One round of the loop of \<^verbatim>\<open>getspaced\<close>, by what is ahead: null slots, a repeated run, literals.\<close>

lemma getspaced_null:
  assumes st: "spaced_at conv L w s rest V p n r dc pos run rdr" and run: "0 < run_Len run" "\<not> run_Set run" and len: "n \<le> length vals"
  shows "\<exists>dc' vals' run'. getspaced_loop ops n r dc vals pos (remaining p n pos) run rdr =
      getspaced_loop ops n r dc' vals' (pos + run_Len run) (remaining p n (pos + run_Len run)) run' rdr \<and>
    spaced_at conv L w s rest V p n r dc' (pos + run_Len run) run' rdr \<and> spaced_fill p pos (pos + run_Len run) F vals vals'"
proof -
  from st obtain K where 1: "decodes w s rest r (drop (count_bits p pos) V)" "conv L K dc" "ahead p n pos run rdr"
    by (auto simp: spaced_at_def)
  let ?u = "run_Len run" let ?o = "take ?u (drop pos vals)"
  have room: "pos + ?u \<le> n" "pos + ?u \<le> length vals" using 1(3) len by (auto simp: ahead_def)
  have cnt: "count_bits p (pos + ?u) = count_bits p pos" using ahead_count [OF 1(3) order.refl] run(2) by simp
  have "?o \<noteq> []" using run room by auto
  from FillZero [OF 1(2) this] room obtain dc1 out where
    dc1: "dc_FillZero ops dc ?o = Some (dc1, out)" "length out = ?u" "conv L K dc1" by auto
  have "spaced_fill p pos (pos + ?u) F vals (blit vals pos out)"
    by (rule spaced_fill_slice [OF dc1(2)]) (use 1(3) run room in \<open>auto simp: ahead_def\<close>)
  moreover have "getspaced_loop ops n r dc vals pos (remaining p n pos) run rdr =
      getspaced_loop ops n r dc1 (blit vals pos out) (pos + ?u) (remaining p n (pos + ?u)) (run\<lparr>run_Len := 0\<rparr>) rdr"
    using run room dc1(1) by (subst getspaced_loop.simps) (simp add: next_if_empty_def slice_def cnt)
  moreover have "ahead p n (pos + ?u) (run\<lparr>run_Len := 0\<rparr>) rdr" using ahead_advance [OF 1(3) order.refl] by simp
  ultimately show ?thesis using 1(1) dc1(3) cnt unfolding spaced_at_def by (metis (no_types))
qed

lemma getspaced_rep:
  assumes st: "spaced_at conv L w s rest V p n r dc pos run rdr" and run: "0 < run_Len run" "run_Set run" and len: "n \<le> length vals"
    and rep: "0 < dec_repCount r" and V: "valid_batch L V (count_bits p n)"
  shows "\<exists>k r' dc' vals' run' rdr'. getspaced_loop ops n r dc vals pos (remaining p n pos) run rdr =
      getspaced_loop ops n r' dc' vals' (pos + k) (remaining p n (pos + k)) run' rdr' \<and> 0 < k \<and> pos + k \<le> n \<and>
    spaced_at conv L w s rest V p n r' dc' (pos + k) run' rdr' \<and>
    spaced_fill p pos (pos + k) (\<lambda>i. the (L (ucast (V ! count_bits p i)))) vals vals'"
proof -
  from st obtain K where 1: "decodes w s rest r (drop (count_bits p pos) V)" "conv L K dc" "ahead p n pos run rdr"
    by (auto simp: spaced_at_def)
  have lt: "pos < n" using run 1(3) by (auto simp: ahead_def)
  from consume_repeats_ok [of p n pos 0 run rdr r "remaining p n pos"] 1(3) run rep lt obtain c k run' rdr' where
    2: "consumeRepeatCounts r pos n (remaining p n pos) run rdr =
        Some (r\<lparr>dec_repCount := dec_repCount r - c\<rparr>, k, remaining p n pos - int c, run', rdr')" "c \<le> dec_repCount r"
      "count_bits p (pos + k) = count_bits p pos + c" "pos + k \<le> n" "ahead p n (pos + k) run' rdr'" "0 < k" "0 < c"
    unfolding consumeRepeatCounts_def by auto
  note d = decodes_rep [OF 1(1) rep 2(2)]
  let ?v = "ucast (dec_curVal r) :: IndexType"
  have cur: "V ! (count_bits p pos + j) = dec_curVal r" if "j < c" for j
    using arg_cong [OF d(2), of "\<lambda>xs. xs ! j"] that d(3) by simp
  have "count_bits p pos + c \<le> count_bits p n" using count_bits_mono [OF 2(4), of p] 2(3) by simp
  then have "L (ucast (V ! (count_bits p pos + 0))) \<noteq> None" using V 2(7) unfolding valid_batch_def by (metis add_strict_left_mono le_trans less_le_trans)
  then have Lv: "L ?v \<noteq> None" using cur [OF 2(7)] by simp
  from IsValidSingle [OF 1(2), of ?v] Lv obtain dc1 where dc1: "dc_IsValidSingle ops dc ?v = Some (dc1, True)" "conv L (insert ?v K) dc1" by auto
  let ?o = "take k (drop pos vals)"
  have o: "?o \<noteq> []" "length ?o = k" using 2(4,6) len by auto
  from Fill [OF dc1(2) _ o(1), of ?v] o(2) obtain dc2 where
    dc2: "dc_Fill ops dc1 ?o ?v = Some (dc2, replicate k (the (L ?v)), None)" "conv L (insert ?v K) dc2" by auto
  have "spaced_fill p pos (pos + k) (\<lambda>i. the (L (ucast (V ! count_bits p i)))) vals (blit vals pos (replicate k (the (L ?v))))"
  proof (rule spaced_fill_slice)
    fix i assume i: "i < k" "p (pos + i)"
    have "count_bits p pos \<le> count_bits p (pos + i)" "count_bits p (pos + i) < count_bits p (pos + k)"
      using i count_bits_less [of "pos + i" "pos + k" p] count_bits_mono [of pos "pos + i" p] by auto
    then have "V ! count_bits p (pos + i) = dec_curVal r" using cur [of "count_bits p (pos + i) - count_bits p pos"] 2(3) by simp
    then show "replicate k (the (L ?v)) ! i = the (L (ucast (V ! count_bits p (pos + i))))" using i(1) by simp
  qed (use 2(4) len in auto)
  moreover have "getspaced_loop ops n r dc vals pos (remaining p n pos) run rdr =
      getspaced_loop ops n (r\<lparr>dec_repCount := dec_repCount r - c\<rparr>) dc2 (blit vals pos (replicate k (the (L ?v)))) (pos + k)
        (remaining p n (pos + k)) run' rdr'"
    using lt run rep 2(1,3,4) dc1(1) dc2(1) len by (subst getspaced_loop.simps) (simp add: next_if_empty_def slice_def diff_diff_eq)
  moreover have "spaced_at conv L w s rest V p n (r\<lparr>dec_repCount := dec_repCount r - c\<rparr>) dc2 (pos + k) run' rdr'"
    unfolding spaced_at_def using d(1) dc2(2) 2(3,5) by (auto simp: add.commute)
  ultimately show ?thesis using 2(4,6) by blast
qed

lemma getspaced_lit:
  assumes st: "spaced_at conv L w s rest V p n r dc pos run rdr" and run: "0 < run_Len run" "run_Set run" and len: "n \<le> length vals"
    and lit: "dec_repCount r = 0" "0 < dec_litCount r" and V: "valid_batch L V (count_bits p n)" and w: "0 < w" "w \<le> 32"
  shows "\<exists>k r' dc' vals' run' rdr'. getspaced_loop ops n r dc vals pos (remaining p n pos) run rdr =
      getspaced_loop ops n r' dc' vals' (pos + k) (remaining p n (pos + k)) run' rdr' \<and> 0 < k \<and> pos + k \<le> n \<and>
    spaced_at conv L w s rest V p n r' dc' (pos + k) run' rdr' \<and>
    spaced_fill p pos (pos + k) (\<lambda>i. the (L (ucast (V ! count_bits p i)))) vals vals'"
proof -
  from st obtain K where 1: "decodes w s rest r (drop (count_bits p pos) V)" "conv L K dc" "ahead p n pos run rdr"
    by (auto simp: spaced_at_def)
  have lt: "pos < n" using run 1(3) by (auto simp: ahead_def)
  let ?q = "\<lambda>i. p (pos + i)" and ?m = "n - pos" and ?c = "count_bits p pos"
  have cq: "count_bits ?q j = count_bits p (pos + j) - ?c" for j by (rule count_bits_shift)
  have add: "?c + count_bits ?q j = count_bits p (pos + j)" for j by (simp add: count_bits_add)
  have rem: "remaining p n pos = int (count_bits ?q ?m)" using add [of ?m] lt by simp
  have "p (pos + 0)" using 1(3) run unfolding ahead_def by blast
  then have pc: "0 < count_bits ?q ?m" using count_bits_less [of 0 ?m ?q] lt by simp
  have le: "?c + count_bits ?q ?m = count_bits p n" using add [of ?m] lt by simp
  have dropV: "drop ?c V ! j = V ! (?c + j)" for j using V le by (simp add: valid_batch_def)
  have "L (ucast (drop ?c V ! j)) \<noteq> None" if "j < count_bits ?q ?m" for j
    using V that le unfolding valid_batch_def dropV by simp
  moreover have "ahead ?q ?m 0 run rdr" using 1(3) lt ahead_shift [of pos n p 0] by simp
  moreover have "?m \<le> length (drop pos vals)" using len by simp
  ultimately obtain k r' K' dc' out sk run' rdr' where
    2: "consumeLiterals ops r dc (drop pos vals) (remaining p n pos) 1024 run rdr = Some (r', dc', out, k, sk, run', rdr', None)"
      "0 < k" "decodes w s rest r' (drop k (drop ?c V))" "conv L K' dc'" "k + sk \<le> ?m" "count_bits ?q (k + sk) = k"
      "spaced_fill ?q 0 (k + sk) (\<lambda>i. the (L (ucast (drop ?c V ! count_bits ?q i)))) (drop pos vals) out" "ahead ?q ?m (k + sk) run' rdr'"
    using consumeLiterals_ok [OF 1(1) lit w 1(2) _ run(1) pc, of rdr "drop pos vals" 1024] unfolding rem by fastforce
  have c': "count_bits p (pos + (k + sk)) = ?c + k" using add [of "k + sk"] 2(6) by simp
  have "spaced_fill ?q 0 (k + sk) (\<lambda>i. the (L (ucast (V ! count_bits p (pos + i))))) (drop pos vals) out"
    using 2(7) by (rule spaced_fill_cong) (simp only: dropV add)
  then have "spaced_fill p pos (pos + (k + sk)) (\<lambda>i. the (L (ucast (V ! count_bits p i)))) vals (blit vals pos out)"
    using spaced_fill_blit [of p pos "k + sk" "\<lambda>i. the (L (ucast (V ! count_bits p i)))" "length vals - pos" vals out] 2(5) lt len by simp
  moreover have "getspaced_loop ops n r dc vals pos (remaining p n pos) run rdr =
      getspaced_loop ops n r' dc' (blit vals pos out) (pos + (k + sk)) (remaining p n (pos + (k + sk))) run' rdr'"
    using lt run lit 2(1,5) c' len by (subst getspaced_loop.simps) (simp add: next_if_empty_def diff_diff_eq add.assoc)
  moreover have "spaced_at conv L w s rest V p n r' dc' (pos + (k + sk)) run' rdr'"
    unfolding spaced_at_def using 2(3,4,8) c' lt ahead_shift [of pos n p "k + sk"] by (auto simp: add.commute)
  ultimately show ?thesis using 2(2,5) lt by (intro exI [of _ "k + sk"] exI [of _ r'] exI [of _ dc'] exI [of _ "blit vals pos out"] exI) auto
qed

text \<open>Without a run at hand the loop first asks for the next one.\<close>

lemma getspaced_next:
  assumes "pos < n" "0 < run_Len run" "run_Set run" "dec_repCount r = 0" "dec_litCount r = 0" "RleDecoder_Next r = (r', True)" "idle r' = 0"
  shows "getspaced_loop ops n r dc vals pos rem run rdr = getspaced_loop ops n r' dc vals pos rem run rdr"
proof -
  have "(dec_repCount r' = 0 \<and> dec_litCount r' = 0) = False" using assms(7) by (simp split: if_splits)
  then show ?thesis
    using assms(1-6) by (subst (1 2) getspaced_loop.simps) (simp add: next_if_empty_def del: de_Morgan_conj)
qed

lemma getspaced_next_run:
  assumes "pos < n" "next_if_empty run rdr = Some (run', rdr')" "0 < run_Len run'"
  shows "getspaced_loop ops n r dc vals pos rem run rdr = getspaced_loop ops n r dc vals pos rem run' rdr'"
proof -
  have "next_if_empty run' rdr' = Some (run', rdr')" using assms(3) by (simp add: next_if_empty_def)
  then show ?thesis using assms(1,2) by (subst (1 2) getspaced_loop.simps) simp
qed

lemma getspaced_round:
  assumes st: "spaced_at conv L w s rest V p n r dc pos run rdr" and lt: "pos < n" and len: "n \<le> length vals"
    and V: "valid_batch L V (count_bits p n)" and w: "0 < w" "w \<le> 32"
  shows "\<exists>k r' dc' vals' run' rdr'. getspaced_loop ops n r dc vals pos (remaining p n pos) run rdr =
      getspaced_loop ops n r' dc' vals' (pos + k) (remaining p n (pos + k)) run' rdr' \<and> 0 < k \<and> pos + k \<le> n \<and>
    spaced_at conv L w s rest V p n r' dc' (pos + k) run' rdr' \<and>
    spaced_fill p pos (pos + k) (\<lambda>i. the (L (ucast (V ! count_bits p i)))) vals vals'"
proof -
  from next_if_empty_ok st lt obtain run1 rdr1 where
    1: "next_if_empty run rdr = Some (run1, rdr1)" "ahead p n pos run1 rdr1" "0 < run_Len run1" unfolding spaced_at_def by blast
  note eq = getspaced_next_run [OF lt 1(1,3)]
  have st1: "spaced_at conv L w s rest V p n r dc pos run1 rdr1" using st 1(2) by (simp add: spaced_at_def)
  show ?thesis
  proof (cases "run_Set run1")
    case False
    have "pos + run_Len run1 \<le> n" using 1(2) by (simp add: ahead_def)
    then show ?thesis using getspaced_null [OF st1 1(3) False len] 1(3) unfolding eq by blast
  next
    case True
    consider "0 < dec_repCount r" | "dec_repCount r = 0" "0 < dec_litCount r" | "dec_repCount r = 0" "dec_litCount r = 0" by blast
    then show ?thesis
    proof cases
      case 1
      then show ?thesis using getspaced_rep [OF st1 \<open>0 < run_Len run1\<close> True len _ V] unfolding eq by blast
    next
      case 2
      then show ?thesis using getspaced_lit [OF st1 1(3) True len 2 V w] unfolding eq by blast
    next
      case 3
      have "p (pos + 0)" using 1(2,3) True unfolding ahead_def by blast
      then have "count_bits p pos < count_bits p n" using count_bits_less [of pos n p] lt by simp
      then have "drop (count_bits p pos) V \<noteq> []" using V by (simp add: valid_batch_def)
      from decodes_next [OF _ 3 this w(1)] st w(2) obtain r' where
        r': "RleDecoder_Next r = (r', True)" "decodes w s rest r' (drop (count_bits p pos) V)" "idle r' = 0"
        by (auto simp: spaced_at_def)
      have st2: "spaced_at conv L w s rest V p n r' dc pos run1 rdr1" using st1 r'(2) by (simp add: spaced_at_def)
      have eq2: "getspaced_loop ops n r dc vals pos x run rdr = getspaced_loop ops n r' dc vals pos x run1 rdr1" for x
        unfolding eq by (rule getspaced_next [OF lt 1(3) True 3 r'(1,3)])
      show ?thesis
      proof (cases "0 < dec_repCount r'")
        case rep: True
        then show ?thesis using getspaced_rep [OF st2 1(3) True len rep V] unfolding eq2 by blast
      next
        case False
        then have lit: "dec_repCount r' = 0" "0 < dec_litCount r'" using r'(3) by (auto split: if_splits)
        then show ?thesis using getspaced_lit [OF st2 1(3) True len lit V w] unfolding eq2 by blast
      qed
    qed
  qed
qed

lemma getspaced_loop_ok:
  assumes "spaced_at conv L w s rest V p n r dc pos run rdr" "pos \<le> n" "n \<le> length vals"
    and V: "valid_batch L V (count_bits p n)" and w: "0 < w" "w \<le> 32"
  shows "\<exists>r' K dc' vals'. getspaced_loop ops n r dc vals pos (remaining p n pos) run rdr = Some (r', dc', vals', n, None) \<and>
    decodes w s rest r' (drop (count_bits p n) V) \<and> conv L K dc' \<and>
    spaced_fill p pos n (\<lambda>i. the (L (ucast (V ! count_bits p i)))) vals vals'"
  using assms(1-3)
proof (induction "n - pos" arbitrary: r dc vals pos run rdr rule: less_induct)
  case less
  show ?case
  proof (cases "pos < n")
    case False
    then have "pos = n" using less.prems(2) by simp
    then show ?thesis using less.prems(1) by (subst getspaced_loop.simps) (auto simp: spaced_at_def)
  next
    case True
    from getspaced_round [OF less.prems(1) True less.prems(3) V w] obtain k r1 dc1 vals1 run1 rdr1 where
      1: "getspaced_loop ops n r dc vals pos (remaining p n pos) run rdr =
          getspaced_loop ops n r1 dc1 vals1 (pos + k) (remaining p n (pos + k)) run1 rdr1" "0 < k" "pos + k \<le> n"
        "spaced_at conv L w s rest V p n r1 dc1 (pos + k) run1 rdr1"
        "spaced_fill p pos (pos + k) (\<lambda>i. the (L (ucast (V ! count_bits p i)))) vals vals1" by blast
    have "n - (pos + k) < n - pos" "n \<le> length vals1" using 1(2) True spaced_fill_length [OF 1(5)] less.prems(3) by auto
    from less.hyps [OF this(1) 1(4,3) this(2)] obtain r' K dc' vals' where
      2: "getspaced_loop ops n r1 dc1 vals1 (pos + k) (remaining p n (pos + k)) run1 rdr1 = Some (r', dc', vals', n, None)"
        "decodes w s rest r' (drop (count_bits p n) V)" "conv L K dc'"
        "spaced_fill p (pos + k) n (\<lambda>i. the (L (ucast (V ! count_bits p i)))) vals1 vals'" by blast
    have "spaced_fill p pos n (\<lambda>i. the (L (ucast (V ! count_bits p i)))) vals vals'"
      by (rule spaced_fill_trans [OF 1(5) 2(4)]) (use 1(3) less.prems(3) in auto)
    with 1(1) 2 show ?thesis by auto
  qed
qed

lemma getspaced_ok:
  assumes d: "decodes w s rest r V" and c: "conv L K dc" and bits: "off + n \<le> 8 * length bs" and n: "0 < n" "n \<le> length vals"
    and V: "valid_batch L V (count_bits (\<lambda>i. bm_bit bs (off + i)) n)" and w: "0 < w" "w \<le> 32"
    and nulls: "nulls + count_bits (\<lambda>i. bm_bit bs (off + i)) n = n"
  shows "\<exists>r' K dc' vals'. getspaced ops r dc vals n nulls bs off = Some (r', dc', vals', n, None) \<and>
    decodes w s rest r' (drop (count_bits (\<lambda>i. bm_bit bs (off + i)) n) V) \<and> conv L K dc' \<and>
    spaced_fill (\<lambda>i. bm_bit bs (off + i)) 0 n (\<lambda>i. the (L (ucast (V ! count_bits (\<lambda>i. bm_bit bs (off + i)) i)))) vals vals'"
proof (cases "nulls = n")
  case True
  let ?p = "\<lambda>i. bm_bit bs (off + i)" and ?o = "take n vals"
  have none: "\<forall>i<n. \<not> ?p i" "count_bits ?p n = 0" using nulls True count_bits_none [of ?p n] by auto
  have "?o \<noteq> []" using n by auto
  from FillZero [OF c this] n obtain dc1 out where dc1: "dc_FillZero ops dc ?o = Some (dc1, out)" "length out = n" "conv L K dc1" by auto
  have "spaced_fill ?p 0 (0 + n) F vals (blit vals 0 out)" for F
    by (rule spaced_fill_slice [OF dc1(2)]) (use none n in auto)
  then show ?thesis using True dc1 d n none(2) by (auto simp: getspaced_def slice_def)
next
  case False
  let ?p = "\<lambda>i. bm_bit bs (off + i)"
  from NewBitRunReader_view [OF bits] obtain b where b: "NewBitRunReader bs off n = Some b" "run_view ?p n b" by blast
  have "ahead ?p n 0 \<lparr>run_Len = 0, run_Set = False\<rparr> b" using b(2) by (simp add: ahead_def)
  from next_if_empty_ok [OF this] obtain run rdr where
    1: "NextRun b = Some (rdr, run)" "ahead ?p n 0 run rdr" by (auto simp: next_if_empty_def split: Option.bind_splits)
  have "spaced_at conv L w s rest V ?p n r dc 0 run rdr" unfolding spaced_at_def using d c 1(2) by auto
  moreover have "int n - int nulls = remaining ?p n 0" using nulls by simp
  ultimately show ?thesis
    using getspaced_loop_ok [of L w s rest V ?p n r dc 0 run rdr vals] n(2) V w False b(1) 1(1) by (simp add: getspaced_def)
qed

end

text \<open>\<^verbatim>\<open>GetBatchWithDict\<close>: \<open>n\<close> values are wanted; where nothing follows the runs, there may be fewer.\<close>

definition looked :: "(IndexType \<Rightarrow> 'a option) \<Rightarrow> u64 list \<Rightarrow> 'a list" where
  "looked L vs = map (\<lambda>v. the (L (ucast v))) vs"

lemma looked_simps [simp]:
  "length (looked L vs) = length vs" "drop k (looked L vs) = looked L (drop k vs)" "take k (looked L vs) = looked L (take k vs)"
  "looked L (replicate k v) = replicate k (the (L (ucast v)))" "looked L [] = []"
  by (simp_all add: looked_def drop_map take_map)

context dictionary_converter
begin

lemma dict_batch_rep:
  assumes d: "decodes w s rest d vs" and c: "conv L K dc" and rep: "0 < dec_repCount d" and n: "0 < n" "read + n = length out"
    and valid: "\<And>j. j < min n (length vs) \<Longrightarrow> L (ucast (vs ! j)) \<noteq> None" and k: "k = min n (dec_repCount d)"
  shows "\<exists>K' dc'. dict_batch_loop ops d dc out read =
      dict_batch_loop ops (d\<lparr>dec_repCount := dec_repCount d - k\<rparr>) dc' (blit out read (looked L (take k vs))) (read + k) \<and> conv L K' dc'"
proof -
  note r = decodes_rep [OF d rep, of k]
  have k': "0 < k" "k \<le> n" "k \<le> dec_repCount d" using rep n k by auto
  have cur: "vs ! 0 = dec_curVal d" using arg_cong [OF r(2), of "\<lambda>xs. xs ! 0"] k' r(3) by simp
  let ?v = "ucast (dec_curVal d) :: IndexType"
  have "0 < min n (length vs)" using k' r(3) by linarith
  then have "L ?v \<noteq> None" using valid [of 0] cur by metis
  with IsValidSingle [OF c, of ?v] obtain dc1 where dc1: "dc_IsValidSingle ops dc ?v = Some (dc1, True)" "conv L (insert ?v K) dc1" by auto
  have o: "take k (drop read out) \<noteq> []" "length (take k (drop read out)) = k" using k' n by auto
  from Fill [OF dc1(2) _ o(1), of ?v] o(2) obtain dc2 where
    dc2: "dc_Fill ops dc1 (take k (drop read out)) ?v = Some (dc2, replicate k (the (L ?v)), None)" "conv L (insert ?v K) dc2" by auto
  have "length out - read = n" using n by simp
  then have "dict_batch_loop ops d dc out read =
      dict_batch_loop ops (d\<lparr>dec_repCount := dec_repCount d - k\<rparr>) dc2 (blit out read (looked L (take k vs))) (read + k)"
    using n rep dc1(1) dc2(1) r(2) k' by (subst dict_batch_loop.simps) (simp add: Let_def flip: k)
  with dc2(2) show ?thesis by blast
qed

lemma dict_batch_lit:
  assumes d: "decodes w s rest d vs" and c: "conv L K dc" and lit: "dec_repCount d = 0" "0 < dec_litCount d"
    and n: "0 < n" "read + n = length out" and w: "0 < w" "w \<le> 32"
    and valid: "\<And>j. j < min n (length vs) \<Longrightarrow> L (ucast (vs ! j)) \<noteq> None" and k: "k = min n (min (dec_litCount d) 1024)"
  shows "\<exists>b K' dc'. dict_batch_loop ops d dc out read =
      dict_batch_loop ops (d\<lparr>dec_r := b, dec_litCount := dec_litCount d - k\<rparr>) dc' (blit out read (looked L (take k vs))) (read + k) \<and>
    conv L K' dc' \<and> k \<le> length vs \<and> decodes w s rest (d\<lparr>dec_r := b, dec_litCount := dec_litCount d - k\<rparr>) (drop k vs)"
proof -
  have k': "0 < k" "k \<le> n" "k \<le> dec_litCount d" using lit n k by auto
  from decodes_lit [OF d lit(1) k'(1,3) w(1)] obtain q where
    1: "reading s q (dec_r d)" "q + w * k \<le> 8 * length s" "k \<le> length vs" "take k vs = map (\<lambda>i. value_at s (q + w * i) w) [0..<k]"
      "\<And>b. reading s (q + w * k) b \<Longrightarrow> decodes w s rest (d\<lparr>dec_r := b, dec_litCount := dec_litCount d - k\<rparr>) (drop k vs)" by blast
  define buf :: "IndexType list" where "buf = map ucast (take k vs)"
  have "buf = map (\<lambda>i. value_at s (q + w * i) w) [0..<k]"
    unfolding buf_def 1(4) map_map comp_def using w(2) by (simp add: ucast_value_at)
  with GetBatchIndex_ok [OF 1(1) w(2), of "replicate k 0"] 1(2) obtain b where
    b: "BitReader_GetBatchIndex (dec_r d) w (replicate k 0) = Some (b, buf, k, None)" "reading s (q + w * k) b" by auto
  have bw: "dec_bitWidth d = w" using d by (simp add: decodes_def)
  have buf: "length buf = k" "\<And>j. j < k \<Longrightarrow> buf ! j = ucast (vs ! j)" using 1(3) by (auto simp: buf_def)
  have ne: "buf \<noteq> []" using buf(1) k'(1) by auto
  have all: "\<forall>i\<in>set buf. L i \<noteq> None" using valid buf k'(2) 1(3) by (auto simp: in_set_conv_nth)
  from IsValid [OF c ne] all obtain dc1 where dc1: "dc_IsValid ops dc buf = Some (dc1, True)" "conv L (K \<union> set buf) dc1" by auto
  have "length buf \<le> length (drop read out)" using buf(1) k'(2) n by simp
  from Copy [OF dc1(2) _ this] obtain dc2 where
    dc2: "dc_Copy ops dc1 (drop read out) buf = Some (dc2, blit (drop read out) 0 (map (the \<circ> L) buf), None)" "conv L (K \<union> set buf) dc2" by auto
  have lk: "map (the \<circ> L) buf = looked L (take k vs)" by (simp add: buf_def looked_def)
  have bl: "blit out read (blit (drop read out) 0 xs) = blit out read xs" if "length xs = k" for xs
    using that k'(2) n by (simp add: blit_def add.commute)
  have "length out - read = n" using n by simp
  then have "dict_batch_loop ops d dc out read =
      dict_batch_loop ops (d\<lparr>dec_r := b, dec_litCount := dec_litCount d - k\<rparr>) dc2 (blit out read (looked L (take k vs))) (read + k)"
    using n lit bw b(1) dc1(1) dc2(1) 1(3) by (subst dict_batch_loop.simps) (simp add: Let_def lk bl flip: k)
  with dc2(2) 1(3,5) b(2) show ?thesis by blast
qed

lemma dict_batch_loop_ok:
  assumes "decodes w s rest d vs" "n \<le> length vs \<or> rest = []" "conv L K dc" "read + n = length out"
    "\<And>j. j < min n (length vs) \<Longrightarrow> L (ucast (vs ! j)) \<noteq> None" and w: "0 < w" "w \<le> 32"
  shows "\<exists>d' K' dc'. dict_batch_loop ops d dc out read =
      Some (d', dc', take read out @ looked L (take n vs) @ drop (read + length vs) out, read + min n (length vs), None) \<and> conv L K' dc' \<and>
    (n \<le> length vs \<longrightarrow> decodes w s rest d' (drop n vs))"
  using assms(1-5)
proof (induction "2 * n + idle d" arbitrary: d vs n K dc out read rule: less_induct)
  case less
  note d = less.prems(1)
  have w64: "w \<le> 64" using w(2) by simp
  have deliver: ?case if step: "dict_batch_loop ops d dc out read = dict_batch_loop ops d1 dc1 (blit out read (looked L (take k vs))) (read + k)"
    and dec: "decodes w s rest d1 (drop k vs)" "conv L K1 dc1" "0 < k" "k \<le> n" "k \<le> length vs" for d1 dc1 K1 k
  proof -
    have b: "take (read + k) (blit out read (looked L (take k vs))) @ looked L (take (n - k) (drop k vs)) @
        drop (read + k + length (drop k vs)) (blit out read (looked L (take k vs))) =
      take read out @ looked L (take n vs) @ drop (read + length vs) out"
      using blit_deliver [of k n "looked L vs" read out] dec less.prems(4) by simp
    have "2 * (n - k) + idle d1 < 2 * n + idle d" "n - k \<le> length (drop k vs) \<or> rest = []"
      "read + k + (n - k) = length (blit out read (looked L (take k vs)))"
      using dec(3-5) less.prems(2,4) by auto
    from less.hyps [OF this(1) dec(1) this(2) dec(2) this(3)] less.prems(5) dec(4,5)
    show ?thesis unfolding step b [symmetric] using deliver_count [OF dec(4,5)] by fastforce
  qed
  consider "n = 0" | (rep) "0 < n" "0 < dec_repCount d" | (lit) "0 < n" "dec_repCount d = 0" "0 < dec_litCount d"
    | (run) "0 < n" "dec_repCount d = 0" "dec_litCount d = 0" by blast
  then show ?case
  proof cases
    case 1
    then show ?thesis using less.prems by (subst dict_batch_loop.simps) auto
  next
    case rep
    define k where "k = min n (dec_repCount d)"
    have k: "0 < k" "k \<le> n" "k \<le> dec_repCount d" using rep by (auto simp: k_def)
    from dict_batch_rep [OF d less.prems(3) rep(2,1) less.prems(4,5) k_def] obtain K' dc' where
      "dict_batch_loop ops d dc out read =
        dict_batch_loop ops (d\<lparr>dec_repCount := dec_repCount d - k\<rparr>) dc' (blit out read (looked L (take k vs))) (read + k)" "conv L K' dc'"
      by blast
    from deliver [OF this(1) decodes_rep(1) [OF d rep(2) k(3)] this(2) k(1,2) decodes_rep(3) [OF d rep(2) k(3)]] show ?thesis .
  next
    case lit
    define k where "k = min n (min (dec_litCount d) 1024)"
    have k: "0 < k" "k \<le> n" using lit by (auto simp: k_def)
    from dict_batch_lit [OF d less.prems(3) lit(2,3,1) less.prems(4) w less.prems(5) k_def] obtain b K' dc' where
      "dict_batch_loop ops d dc out read =
        dict_batch_loop ops (d\<lparr>dec_r := b, dec_litCount := dec_litCount d - k\<rparr>) dc' (blit out read (looked L (take k vs))) (read + k)"
      "conv L K' dc'" "k \<le> length vs" "decodes w s rest (d\<lparr>dec_r := b, dec_litCount := dec_litCount d - k\<rparr>) (drop k vs)"
      by blast
    from deliver [OF this(1,4,2) k this(3)] show ?thesis .
  next
    case run
    show ?thesis
    proof (cases "vs = []")
      case True
      then show ?thesis using decodes_end [of w s d] d less.prems run by (subst dict_batch_loop.simps) auto
    next
      case False
      from decodes_next [OF d run(2,3) False w(1) w64] obtain d' where
        d': "RleDecoder_Next d = (d', True)" "decodes w s rest d' vs" "idle d' = 0" by blast
      have "dict_batch_loop ops d dc out read = dict_batch_loop ops d' dc out read"
        using run d'(1) less.prems(4) by (subst dict_batch_loop.simps) simp
      moreover have "2 * n + idle d' < 2 * n + idle d" using d'(3) run by simp
      ultimately show ?thesis using less.hyps [OF _ d'(2) less.prems(2-5)] by simp
    qed
  qed
qed

lemma GetBatchWithDict_ok:
  assumes "decodes w s rest d vs" "length out \<le> length vs \<or> rest = []" "conv L K dc" "0 < w" "w \<le> 32"
    "\<And>j. j < min (length out) (length vs) \<Longrightarrow> L (ucast (vs ! j)) \<noteq> None"
  shows "\<exists>d' K' dc'. GetBatchWithDict ops d dc out =
      Some (d', dc', looked L (take (length out) vs) @ drop (length vs) out, min (length out) (length vs), None) \<and> conv L K' dc' \<and>
    (length out \<le> length vs \<longrightarrow> decodes w s rest d' (drop (length out) vs))"
  using dict_batch_loop_ok [OF assms(1-3) _ assms(6,4,5), of 0 out] by (simp add: GetBatchWithDict_def)

end

section \<open>Blocks of slots\<close>

lemma spaced_blocks_ok:
  assumes step: "\<And>pos k st vals. at pos st \<Longrightarrow> 0 < k \<Longrightarrow> pos + k \<le> n \<Longrightarrow> length vals = n \<Longrightarrow>
      \<exists>st' vals'. step \<lparr>blk_Len = int k, blk_Popcnt = int (count_bits (\<lambda>i. p (pos + i)) k)\<rparr> pos st vals = Some (st', vals', k, None) \<and>
        at (pos + k) st' \<and> spaced_fill p pos (pos + k) F vals vals'"
    and "at pos st" "block_view (\<lambda>i. p (pos + i)) (n - pos) counter" "pos \<le> n" "length vals = n"
  shows "\<exists>st' vals'. spaced_blocks step pos st vals pos counter = Some (st', vals', n, None) \<and> at n st' \<and> spaced_fill p pos n F vals vals'"
  using assms(2-5)
proof (induction "n - pos" arbitrary: pos st counter vals rule: less_induct)
  case less
  from four_words.next_block [OF less.prems(2)] obtain c k where
    c: "NextFourWords counter = Some (c, \<lparr>blk_Len = int k, blk_Popcnt = int (count_bits (\<lambda>i. p (pos + i)) k)\<rparr>)"
    "k \<le> n - pos" "0 < n - pos \<longrightarrow> 0 < k" "block_view (\<lambda>i. p (pos + (k + i))) (n - pos - k) c"
    by (elim exE conjE) (rule that)
  show ?case
  proof (cases "pos < n")
    case False
    then have "pos = n" "k = 0" using less.prems(3) c(2) by auto
    then show ?thesis using less.prems(1) c(1) by (subst spaced_blocks.simps) auto
  next
    case True
    then have k: "0 < k" "pos + k \<le> n" using c(2,3) by auto
    from step [OF less.prems(1) k less.prems(4)] obtain st1 vals1 where
      1: "step \<lparr>blk_Len = int k, blk_Popcnt = int (count_bits (\<lambda>i. p (pos + i)) k)\<rparr> pos st vals = Some (st1, vals1, k, None)"
        "at (pos + k) st1" "spaced_fill p pos (pos + k) F vals vals1" by blast
    have "n - (pos + k) < n - pos" "block_view (\<lambda>i. p (pos + k + i)) (n - (pos + k)) c" "length vals1 = n"
      using True k(1) c(4) spaced_fill_length [OF 1(3)] less.prems(4) by (auto simp: add.assoc)
    from less.hyps [OF this(1) 1(2) this(2) k(2) this(3)] obtain st' vals' where
      2: "spaced_blocks step (pos + k) st1 vals1 (pos + k) c = Some (st', vals', n, None)" "at n st'" "spaced_fill p (pos + k) n F vals1 vals'"
      by blast
    have "spaced_fill p pos n F vals vals'" by (rule spaced_fill_trans [OF 1(3) 2(3)]) (use k less.prems(4) in auto)
    moreover have "spaced_blocks step pos st vals pos counter = Some (st', vals', n, None)"
      using c(1) k(1) 1(1) 2(1) by (subst spaced_blocks.simps) simp
    ultimately show ?thesis using 2(2) by blast
  qed
qed

text \<open>A block of only valid slots takes the next values as they are.\<close>

lemma spaced_fill_dense:
  assumes "count_bits (\<lambda>i. p (pos + i)) k = k" "length out = k" "pos + k \<le> length vals" "count_bits p pos + k \<le> length V"
    "\<And>i. i < k \<Longrightarrow> out ! i = g (drop (count_bits p pos) V ! i)"
  shows "spaced_fill p pos (pos + k) (\<lambda>i. g (V ! count_bits p i)) vals (blit vals pos out)"
proof (rule spaced_fill_slice [OF assms(2) _ assms(3)])
  fix i assume i: "i < k"
  have all: "\<forall>i<k. p (pos + i)" using assms(1) by (simp add: count_bits_all)
  then have "count_bits (\<lambda>i. p (pos + i)) i = i" using i by (simp add: count_bits_all)
  then have "count_bits p (pos + i) = count_bits p pos + i" by (simp add: count_bits_add)
  then show "out ! i = g (V ! count_bits p (pos + i))" using assms(4,5) i by simp
qed

lemma spaced_fill_shift:
  assumes "spaced_fill (\<lambda>i. p (pos + i)) 0 k (\<lambda>i. g (drop (count_bits p pos) V ! count_bits (\<lambda>i. p (pos + i)) i)) (drop pos vals) out"
    "pos + k \<le> length vals" "count_bits p pos \<le> length V"
  shows "spaced_fill p pos (pos + k) (\<lambda>i. g (V ! count_bits p i)) vals (blit vals pos out)"
proof -
  have "drop (count_bits p pos) V ! count_bits (\<lambda>i. p (pos + i)) i = V ! count_bits p (pos + i)" for i
    using assms(3) by (simp add: count_bits_add)
  then show ?thesis
    using spaced_fill_blit [of p pos k "\<lambda>i. g (V ! count_bits p i)" "length vals - pos" vals out] assms(1,2) by simp
qed

context dictionary_converter
begin

lemma dict_spaced_step_ok:
  assumes bits: "off + n \<le> 8 * length bs" and p: "p = (\<lambda>i. bm_bit bs (off + i))" and V: "valid_batch L V (count_bits p n)"
    and w: "0 < w" "w \<le> 32" and st: "decodes w s rest r (drop (count_bits p pos) V)" "conv L K dc"
    and k: "0 < k" "pos + k \<le> n" and len: "length vals = n"
  shows "\<exists>r' K' dc' vals'. dict_spaced_step ops bs off \<lparr>blk_Len = int k, blk_Popcnt = int (count_bits (\<lambda>i. p (pos + i)) k)\<rparr> pos (r, dc) vals =
      Some ((r', dc'), vals', k, None) \<and> decodes w s rest r' (drop (count_bits p (pos + k)) V) \<and> conv L K' dc' \<and>
    spaced_fill p pos (pos + k) (\<lambda>i. the (L (ucast (V ! count_bits p i)))) vals vals'"
proof -
  let ?q = "\<lambda>i. p (pos + i)" and ?W = "drop (count_bits p pos) V"
  define c where "c = count_bits ?q k"
  have ck: "count_bits p (pos + k) = count_bits p pos + c" by (simp add: c_def count_bits_add)
  have dr: "drop c ?W = drop (count_bits p (pos + k)) V" unfolding ck by (simp add: add.commute)
  have cn: "count_bits p pos + c \<le> length V" "count_bits p pos + c \<le> count_bits p n" "count_bits p pos \<le> length V"
    using count_bits_mono [OF k(2), of p] V ck by (auto simp: valid_batch_def)
  have valid: "L (ucast (?W ! j)) \<noteq> None" if "j < c" for j using V cn that by (simp add: valid_batch_def)
  have room: "pos + k \<le> length vals" "length (take k (drop pos vals)) = k" using k len by auto
  have bits': "off + pos + k \<le> 8 * length bs" using bits k(2) by simp
  have q: "?q = (\<lambda>i. bm_bit bs (off + pos + i))" by (simp add: p add.assoc)
  consider (all) "c = k" | (none) "c = 0" "c \<noteq> k" | (mixed) "c \<noteq> 0" "c \<noteq> k" by blast
  then show ?thesis
  proof cases
    case all
    have "length ?W = length V - count_bits p pos" "k \<le> length ?W" using cn(1) all by auto
    from GetBatchWithDict_ok [OF st(1) _ st(2) w, of "take k (drop pos vals)"] this(2) room(2) valid all obtain r' K' dc' where
      1: "GetBatchWithDict ops r dc (take k (drop pos vals)) = Some (r', dc', looked L (take k ?W), k, None)" "conv L K' dc'"
        "decodes w s rest r' (drop k ?W)" by auto
    have "spaced_fill p pos (pos + k) (\<lambda>i. the (L (ucast (V ! count_bits p i)))) vals (blit vals pos (looked L (take k ?W)))"
      by (rule spaced_fill_dense [where g = "\<lambda>v. the (L (ucast v))"]) (use all cn(1) room in \<open>auto simp: c_def [symmetric] looked_def\<close>)
    then show ?thesis
      using 1 all room dr unfolding c_def [symmetric] by (auto simp: dict_spaced_step_def AllSet_def slice_def)
  next
    case none
    have "take k (drop pos vals) \<noteq> []" using room(2) k(1) by auto
    from FillZero [OF st(2) this] room(2) obtain dc1 out where
      1: "dc_FillZero ops dc (take k (drop pos vals)) = Some (dc1, out)" "length out = k" "conv L K dc1" by auto
    have "\<forall>i<k. \<not> ?q i" using none(1) count_bits_none [of ?q k] by (simp add: c_def)
    then have "spaced_fill p pos (pos + k) F vals (blit vals pos out)" for F
      using room by (intro spaced_fill_slice [OF 1(2)]) auto
    then show ?thesis
      using 1 none room ck st(1) unfolding c_def [symmetric] by (auto simp: dict_spaced_step_def AllSet_def NoneSet_def slice_def)
  next
    case mixed
    have "c \<le> k" by (simp add: c_def count_bits_le)
    have "valid_batch L ?W (count_bits ?q k)" using valid cn(1) by (auto simp: valid_batch_def c_def)
    moreover have "k \<le> length (drop pos vals)" using room(1) by simp
    ultimately obtain r' K' dc' out where
      1: "getspaced ops r dc (drop pos vals) k (k - c) bs (off + pos) = Some (r', dc', out, k, None)" "conv L K' dc'"
        "decodes w s rest r' (drop c ?W)"
        "spaced_fill ?q 0 k (\<lambda>i. the (L (ucast (?W ! count_bits ?q i)))) (drop pos vals) out"
      using getspaced_ok [OF st bits' k(1) _ _ w, of "drop pos vals" "k - c", folded q] \<open>c \<le> k\<close> by (auto simp: c_def)
    have "spaced_fill p pos (pos + k) (\<lambda>i. the (L (ucast (V ! count_bits p i)))) vals (blit vals pos out)"
      by (rule spaced_fill_shift [where g = "\<lambda>v. the (L (ucast v))", OF 1(4) room(1) cn(3)])
    then show ?thesis
      using 1 mixed room dr unfolding c_def [symmetric] by (auto simp: dict_spaced_step_def AllSet_def NoneSet_def)
  qed
qed

lemma GetBatchWithDictSpaced_ok:
  assumes d: "decodes w s rest r V" and c: "conv L K dc" and bits: "off + length vals \<le> 8 * length bs"
    and p: "p = (\<lambda>i. bm_bit bs (off + i))" and V: "valid_batch L V (count_bits p (length vals))"
    and w: "0 < w" "w \<le> 32" and nulls: "nulls + count_bits p (length vals) = length vals"
  shows "\<exists>r' K' dc' vals'. GetBatchWithDictSpaced ops r dc vals nulls bs off = Some (r', dc', vals', length vals, None) \<and>
    decodes w s rest r' (drop (count_bits p (length vals)) V) \<and> conv L K' dc' \<and>
    spaced_fill p 0 (length vals) (\<lambda>i. the (L (ucast (V ! count_bits p i)))) vals vals'"
proof (cases "nulls = 0")
  case True
  let ?n = "length vals"
  have all: "count_bits p ?n = ?n" and le: "?n \<le> length V" using nulls True V by (auto simp: valid_batch_def)
  from GetBatchWithDict_ok [OF d _ c w, of vals] V le all obtain r' K' dc' where
    1: "GetBatchWithDict ops r dc vals = Some (r', dc', looked L (take ?n V), ?n, None)" "conv L K' dc'" "decodes w s rest r' (drop ?n V)"
    by (auto simp: valid_batch_def)
  have "spaced_fill p 0 (0 + ?n) (\<lambda>i. the (L (ucast (V ! count_bits p i)))) vals (blit vals 0 (looked L (take ?n V)))"
    by (rule spaced_fill_dense [where g = "\<lambda>v. the (L (ucast v))"]) (use all le in \<open>auto simp: looked_def\<close>)
  then show ?thesis using 1 True all le by (auto simp: GetBatchWithDictSpaced_def blit_def)
next
  case False
  let ?n = "length vals"
  let ?at = "\<lambda>pos (r, dc). decodes w s rest r (drop (count_bits p pos) V) \<and> (\<exists>K. conv L K dc)"
  from NewBitBlockCounter_view [OF bits] obtain b where b: "NewBitBlockCounter bs off ?n = Some b" "block_view p ?n b"
    unfolding p by blast
  have "\<exists>st' vals'. spaced_blocks (dict_spaced_step ops bs off) 0 (r, dc) vals 0 b = Some (st', vals', ?n, None) \<and> ?at ?n st' \<and>
      spaced_fill p 0 ?n (\<lambda>i. the (L (ucast (V ! count_bits p i)))) vals vals'"
  proof (rule spaced_blocks_ok [where p = p])
    fix pos k st and vals1 :: "'a list"
    assume a: "?at pos st" "0 < k" "pos + k \<le> ?n" "length vals1 = ?n"
    obtain r1 dc1 where st: "st = (r1, dc1)" by force
    with a(1) obtain K1 where "decodes w s rest r1 (drop (count_bits p pos) V)" "conv L K1 dc1" by auto
    from dict_spaced_step_ok [OF bits p V w this a(2-4)] show "\<exists>st' vals'.
        dict_spaced_step ops bs off \<lparr>blk_Len = int k, blk_Popcnt = int (count_bits (\<lambda>i. p (pos + i)) k)\<rparr> pos st vals1 = Some (st', vals', k, None) \<and>
        ?at (pos + k) st' \<and> spaced_fill p pos (pos + k) (\<lambda>i. the (L (ucast (V ! count_bits p i)))) vals1 vals'"
      unfolding st by fastforce
  qed (use d c b(2) in auto)
  then show ?thesis using False b(1) by (fastforce simp: GetBatchWithDictSpaced_def)
qed

end

section \<open>The plain converter\<close>

lemma decodes_fits:
  assumes "decodes w s rest d vs"
  shows "list_all (fits_width w) vs"
proof -
  from assms obtain lits runs where
    1: "list_all (run_ok w) runs" "list_all (fits_width w) lits" "0 < dec_repCount d \<longrightarrow> fits_width w (dec_curVal d)"
      "vs = replicate (dec_repCount d) (dec_curVal d) @ lits @ runs_values runs" unfolding decodes_def by (elim conjE exE) (rule that)
  have "list_all (fits_width w) (run_values x)" if "run_ok w x" for x using that by (cases x) (auto simp: list_all_iff)
  then have "list_all (fits_width w) (runs_values runs)" using 1(1) by (auto simp: runs_values_def list_all_iff)
  then show ?thesis using 1(2-4) by (auto simp: list_all_iff)
qed

text \<open>An index below \<open>2 ^ 31\<close> survives the way through \<^verbatim>\<open>int32\<close>.\<close>

lemma index_round_trip:
  fixes v :: u64
  assumes "fits_width w v" "w \<le> 31"
  shows "scast (ucast v :: IndexType) = v"
proof (rule bit_word_eqI)
  fix i assume i: "i < LENGTH(64)"
  have high: "\<not> bit v j" if "w \<le> j" for j using fits_width_bit [OF assms(1)] that by (metis linorder_not_less)
  show "bit (scast (ucast v :: IndexType) :: u64) i = bit v i"
  proof (cases "i < 31")
    case True
    then show ?thesis by (simp add: bit_signed_iff bit_unsigned_iff min_def)
  next
    case False
    then show ?thesis using i high [of i] high [of 31] assms(2) by (simp add: bit_signed_iff bit_unsigned_iff min_def)
  qed
qed

lemma plain_spaced_step_ok:
  assumes bits: "off + n \<le> 8 * length bs" and p: "p = (\<lambda>i. bm_bit bs (off + i))" and V: "count_bits p n \<le> length V" "list_all (fits_width w) V"
    and w: "0 < w" "w \<le> 31" and st: "decodes w s rest r (drop (count_bits p pos) V)" and k: "0 < k" "pos + k \<le> n" and len: "length vals = n"
  shows "\<exists>r' vals'. plain_spaced_step bs off \<lparr>blk_Len = int k, blk_Popcnt = int (count_bits (\<lambda>i. p (pos + i)) k)\<rparr> pos r vals =
      Some (r', vals', k, None) \<and> decodes w s rest r' (drop (count_bits p (pos + k)) V) \<and>
    spaced_fill p pos (pos + k) (\<lambda>i. V ! count_bits p i) vals vals'"
proof (cases "count_bits (\<lambda>i. p (pos + i)) k = k")
  case True
  let ?W = "drop (count_bits p pos) V"
  have ck: "count_bits p (pos + k) = count_bits p pos + k" using True by (simp add: count_bits_add)
  have cn: "count_bits p pos + k \<le> length V" using count_bits_mono [OF k(2), of p] V(1) ck by simp
  have room: "pos + k \<le> length vals" "length (take k (drop pos vals)) = k" using k len by auto
  have "k \<le> length ?W" using cn by simp
  with RleGetBatch_ok [OF st _ w(1), of "take k (drop pos vals)"] w(2) room(2) obtain r' where
    1: "RleDecoder_GetBatch r (take k (drop pos vals)) = Some (r', take k ?W, k, None)" "decodes w s rest r' (drop k ?W)" by auto
  have "spaced_fill p pos (pos + k) (\<lambda>i. V ! count_bits p i) vals (blit vals pos (take k ?W))"
    by (rule spaced_fill_dense [where g = "\<lambda>v. v"]) (use True cn room in auto)
  moreover have "drop k ?W = drop (count_bits p (pos + k)) V" unfolding ck by (simp add: add.commute)
  ultimately show ?thesis using 1 True room by (auto simp: plain_spaced_step_def AllSet_def slice_def)
next
  case False
  let ?L = "\<lambda>i :: IndexType. Some (scast i :: u64)"
  have pv: "plain_view ?L {} ()" by (simp add: plain_view_def)
  have "valid_batch ?L V (count_bits p n)" using V(1) by (simp add: valid_batch_def)
  from plain.dict_spaced_step_ok [OF bits p this w(1) _ st pv k len] w(2) obtain r' dc' vals' where
    1: "dict_spaced_step plainConverter bs off \<lparr>blk_Len = int k, blk_Popcnt = int (count_bits (\<lambda>i. p (pos + i)) k)\<rparr> pos (r, ()) vals =
        Some ((r', dc'), vals', k, None)" "decodes w s rest r' (drop (count_bits p (pos + k)) V)"
      "spaced_fill p pos (pos + k) (\<lambda>i. scast (ucast (V ! count_bits p i) :: IndexType)) vals vals'" by auto
  have "spaced_fill p pos (pos + k) (\<lambda>i. V ! count_bits p i) vals vals'"
  proof (rule spaced_fill_cong [OF 1(3)])
    fix i assume "i < pos + k" "p i"
    then have "count_bits p i < length V" using count_bits_less [of i n p] k(2) V(1) by simp
    then show "scast (ucast (V ! count_bits p i) :: IndexType) = V ! count_bits p i"
      using V(2) w(2) by (intro index_round_trip [of w]) (simp_all add: list_all_length)
  qed
  moreover have "plain_spaced_step bs off \<lparr>blk_Len = int k, blk_Popcnt = int (count_bits (\<lambda>i. p (pos + i)) k)\<rparr> pos r vals = Some (r', vals', k, None)"
    using 1(1) False by (auto simp: plain_spaced_step_def dict_spaced_step_def AllSet_def Let_def split: Option.bind_splits if_splits)
  ultimately show ?thesis using 1(2) by blast
qed

lemma GetBatchSpaced_ok:
  assumes d: "decodes w s rest r V" and bits: "off + length vals \<le> 8 * length bs"
    and p: "p = (\<lambda>i. bm_bit bs (off + i))" and V: "count_bits p (length vals) \<le> length V"
    and w: "0 < w" "w \<le> 31" and nulls: "nulls + count_bits p (length vals) = length vals"
  shows "\<exists>r' vals'. RleDecoder_GetBatchSpaced r vals nulls bs off = Some (r', vals', length vals, None) \<and>
    decodes w s rest r' (drop (count_bits p (length vals)) V) \<and> spaced_fill p 0 (length vals) (\<lambda>i. V ! count_bits p i) vals vals'"
proof (cases "nulls = 0")
  case True
  let ?n = "length vals"
  have all: "count_bits p ?n = ?n" and le: "?n \<le> length V" using nulls True V by auto
  from RleGetBatch_ok [OF d _ w(1), of vals] w(2) le obtain r' where
    1: "RleDecoder_GetBatch r vals = Some (r', take ?n V, ?n, None)" "decodes w s rest r' (drop ?n V)" by auto
  have "spaced_fill p 0 (0 + ?n) (\<lambda>i. V ! count_bits p i) vals (blit vals 0 (take ?n V))"
    by (rule spaced_fill_dense [where g = "\<lambda>v. v"]) (use all le in auto)
  then show ?thesis using 1 True all le by (auto simp: RleDecoder_GetBatchSpaced_def blit_def)
next
  case False
  from NewBitBlockCounter_view [OF bits] obtain b where b: "NewBitBlockCounter bs off (length vals) = Some b" "block_view p (length vals) b"
    unfolding p by blast
  have "\<exists>r' vals'. spaced_blocks (plain_spaced_step bs off) 0 r vals 0 b = Some (r', vals', length vals, None) \<and>
      decodes w s rest r' (drop (count_bits p (length vals)) V) \<and> spaced_fill p 0 (length vals) (\<lambda>i. V ! count_bits p i) vals vals'"
    by (rule spaced_blocks_ok [where p = p and at = "\<lambda>pos r. decodes w s rest r (drop (count_bits p pos) V)"])
      (use plain_spaced_step_ok [OF bits p V decodes_fits [OF d] w] d b(2) in auto)
  then show ?thesis using False b(1) by (simp add: RleDecoder_GetBatchSpaced_def)
qed

section \<open>Properties\<close>

text \<open>C37: Given the number of nulls of the bitmap range, \<^verbatim>\<open>RleDecoder.GetBatchSpaced\<close> ends, returns the number of slots
  and puts the encoded values, in order, into the slots whose validity bit is set, for any encoding of width 1 to 31.\<close>

theorem GetBatchSpaced_decodes:
  assumes "encodes w s V" "0 < w" "w \<le> 31" "off + length vals \<le> 8 * length bs"
    "nulls + popcount bs off (length vals) = length vals" "popcount bs off (length vals) \<le> length V"
  shows "\<exists>r' vals'. RleDecoder_GetBatchSpaced (NewRleDecoder s w) vals nulls bs off = Some (r', vals', length vals, None) \<and>
    length vals' = length vals \<and> (\<forall>i<length vals. bm_bit bs (off + i) \<longrightarrow> vals' ! i = V ! popcount bs off i)"
proof -
  let ?p = "\<lambda>i. bm_bit bs (off + i)"
  from GetBatchSpaced_ok [OF encodes_New [OF assms(1)] assms(4) refl _ assms(2,3)] assms(5,6) obtain r' vals' where
    "RleDecoder_GetBatchSpaced (NewRleDecoder s w) vals nulls bs off = Some (r', vals', length vals, None)"
    "spaced_fill ?p 0 (length vals) (\<lambda>i. V ! count_bits ?p i) vals vals'" unfolding popcount_count_bits by blast
  then show ?thesis unfolding popcount_count_bits spaced_fill_def by auto
qed

theorem GetBatchSpaced_decodes_witness:
  "\<exists>r' vals'. RleDecoder_GetBatchSpaced (NewRleDecoder [8, 5] 3) (replicate 5 0) 2 [0x0B] 0 = Some (r', vals', 5, None) \<and>
    length vals' = 5 \<and> vals' ! 3 = 5"
proof -
  have 1: "2 + popcount [0x0B] 0 5 = 5" "popcount [0x0B] 0 5 \<le> length [5, 5, 5, 5 :: u64]" "bm_bit [0x0B] (0 + 3)" "popcount [0x0B] 0 3 = 2" by code_simp+
  have 2: "0 + length (replicate 5 (0 :: u64)) \<le> 8 * length [0x0B :: byte]" by simp
  have 3: "2 + popcount [0x0B] 0 (length (replicate 5 (0 :: u64))) = length (replicate 5 (0 :: u64))"
    "popcount [0x0B] 0 (length (replicate 5 (0 :: u64))) \<le> length [5, 5, 5, 5 :: u64]" using 1(1,2) by simp_all
  from GetBatchSpaced_decodes [OF encodes_example _ _ 2 3] obtain r' vals' where
    "RleDecoder_GetBatchSpaced (NewRleDecoder [8, 5] 3) (replicate 5 0) 2 [0x0B] 0 = Some (r', vals', 5, None)" "length vals' = 5"
    "\<forall>i<5. bm_bit [0x0B] (0 + i) \<longrightarrow> vals' ! i = [5, 5, 5, 5] ! popcount [0x0B] 0 i" by auto
  moreover from this(3) have "vals' ! 3 = [5, 5, 5, 5] ! popcount [0x0B] 0 3" using 1(3) by simp
  ultimately show ?thesis using 1(4) by simp
qed

end
