(* ===== verification/Dict_Decoder.thy ===== *)
theory Dict_Decoder
  imports Rle_Spaced Plain_Decoder
begin

text \<open>
  The dictionary decoder: \<^verbatim>\<open>dictDecoder\<close> of \<^verbatim>\<open>parquet/internal/encoding/decoder.go\<close> and \<^verbatim>\<open>typedDictDecoder\<close> of
  \<^verbatim>\<open>typed_encoder.go\<close>. The decoder of the dictionary is any \<^verbatim>\<open>Decoder[T]\<close>, the method \<^verbatim>\<open>Decode\<close> on a state of any type. The
  dictionary and the index decoder are nil until \<^verbatim>\<open>SetDict\<close> and \<^verbatim>\<open>SetData\<close>; a call through nil panics. The builder of
  \<^verbatim>\<open>DecodeIndices\<close> is its method \<^verbatim>\<open>AppendIndices\<close> on a state of any type. The scratch slices are overwritten before they are read.
  \<^verbatim>\<open>nvals\<close> is a natural number: of \<^verbatim>\<open>DecodeIndicesSpaced\<close> are modelled the calls with at most \<^verbatim>\<open>nvals\<close> values among the slots.
\<close>

section \<open>The source\<close>

datatype parquet_Type = Boolean_type | Int32_type | Int64_type | Int96_type | Float_type | Double_type | ByteArray_type | FixedLenByteArray_type

record ('vd, 'a) dictDecoder = decoder +
  dd_physicalType :: parquet_Type
  dd_dictValueDecoder :: "('vd, 'a) dictConverter option"
  dd_idxDecoder :: "RleDecoder option"

definition newDictDecoder :: "parquet_Type \<Rightarrow> ('vd, 'a) dictDecoder" where
  "newDictDecoder t = \<lparr>dec_nvals = 0, dec_data = [], dd_physicalType = t, dd_dictValueDecoder = None, dd_idxDecoder = None\<rparr>"

text \<open>\<open>zero\<close>, \<open>valuesLeft\<close> and \<open>dictType\<close> are the zero value, \<^verbatim>\<open>dict.ValuesLeft()\<close> and \<^verbatim>\<open>dict.Type()\<close>.\<close>

definition SetDict :: "'a \<Rightarrow> ('vd, 'a) dictDecoder \<Rightarrow> 'vd \<Rightarrow> nat \<Rightarrow> parquet_Type \<Rightarrow> ('vd, 'a) dictDecoder option" where
  "SetDict zero d dict valuesLeft dictType =
     (if dictType \<noteq> dd_physicalType d then None
      else Some (d\<lparr>dd_dictValueDecoder := Some (NewDictConverter zero dict valuesLeft)\<rparr>))"

definition resetIndexDecoder :: "('vd, 'a) dictDecoder \<Rightarrow> byte list \<Rightarrow> nat \<Rightarrow> ('vd, 'a) dictDecoder" where
  "resetIndexDecoder d data width =
     (case dd_idxDecoder d of
        None \<Rightarrow> d\<lparr>dd_idxDecoder := Some (NewRleDecoder data width)\<rparr>
      | Some r \<Rightarrow> d\<lparr>dd_idxDecoder := Some (RleDecoder_Reset r data width)\<rparr>)"

definition dictDecoder_SetData :: "('vd, 'a) dictDecoder \<Rightarrow> nat \<Rightarrow> byte list \<Rightarrow> ('vd, 'a) dictDecoder \<times> goerr option" where
  "dictDecoder_SetData d nvals data =
     (let d = d\<lparr>dec_nvals := nvals\<rparr>
      in case data of
           [] \<Rightarrow> (resetIndexDecoder d [] 0, None)
         | width # rest \<Rightarrow>
             if unat width \<ge> 64 then (d, Some (Errorf ''parquet: invalid or corrupted bit width''))
             else (resetIndexDecoder d rest (unat width), None))"

text \<open>The operations of a converter behind an interface that may be nil.\<close>

definition nilable :: "('dc, 'a) DictionaryConverter \<Rightarrow> ('dc option, 'a) DictionaryConverter" where
  "nilable ops =
     \<lparr>dc_Copy = (\<lambda>dc out ixs. do { dc \<leftarrow> dc; (dc, r) \<leftarrow> dc_Copy ops dc out ixs; Some (Some dc, r) }),
      dc_Fill = (\<lambda>dc out i. do { dc \<leftarrow> dc; (dc, r) \<leftarrow> dc_Fill ops dc out i; Some (Some dc, r) }),
      dc_FillZero = (\<lambda>dc out. do { dc \<leftarrow> dc; (dc, r) \<leftarrow> dc_FillZero ops dc out; Some (Some dc, r) }),
      dc_IsValid = (\<lambda>dc ixs. do { dc \<leftarrow> dc; (dc, r) \<leftarrow> dc_IsValid ops dc ixs; Some (Some dc, r) }),
      dc_IsValidSingle = (\<lambda>dc i. do { dc \<leftarrow> dc; (dc, r) \<leftarrow> dc_IsValidSingle ops dc i; Some (Some dc, r) })\<rparr>"

definition dictDecoder_discard :: "('vd, 'a) dictDecoder \<Rightarrow> nat \<Rightarrow> (('vd, 'a) dictDecoder \<times> nat) option" where
  "dictDecoder_discard d n =
     do { r \<leftarrow> dd_idxDecoder d;
          let (r, n) = RleDecoder_Discard r n;
          Some (d\<lparr>dd_idxDecoder := Some r, dec_nvals := dec_nvals d - n\<rparr>, n) }"

definition dictDecoder_decode ::
  "('vd, 'a) Decode \<Rightarrow> ('vd, 'a) dictDecoder \<Rightarrow> 'a list \<Rightarrow> (('vd, 'a) dictDecoder \<times> 'a list \<times> nat \<times> goerr option) option" where
  "dictDecoder_decode Decode d out =
     do { r \<leftarrow> dd_idxDecoder d;
          (r, dc, out, n, err) \<leftarrow> GetBatchWithDict (nilable (dictConverter_ops Decode)) r (dd_dictValueDecoder d) out;
          Some (d\<lparr>dd_idxDecoder := Some r, dd_dictValueDecoder := dc, dec_nvals := dec_nvals d - n\<rparr>, out, n, err) }"

definition dictDecoder_decodeSpaced ::
  "('vd, 'a) Decode \<Rightarrow> ('vd, 'a) dictDecoder \<Rightarrow> 'a list \<Rightarrow> nat \<Rightarrow> byte list \<Rightarrow> nat \<Rightarrow>
   (('vd, 'a) dictDecoder \<times> 'a list \<times> nat \<times> goerr option) option" where
  "dictDecoder_decodeSpaced Decode d out nullCount validBits validBitsOffset =
     do { r \<leftarrow> dd_idxDecoder d;
          (r, dc, out, n, err) \<leftarrow>
            GetBatchWithDictSpaced (nilable (dictConverter_ops Decode)) r (dd_dictValueDecoder d) out nullCount validBits validBitsOffset;
          Some (d\<lparr>dd_idxDecoder := Some r, dd_dictValueDecoder := dc, dec_nvals := dec_nvals d - n\<rparr>, out, n, err) }"

definition typedDictDecoder_Discard :: "('vd, 'a) dictDecoder \<Rightarrow> nat \<Rightarrow> (('vd, 'a) dictDecoder \<times> nat \<times> goerr option) option" where
  "typedDictDecoder_Discard d n =
     do { let n = min n (dec_nvals d);
          (d, discarded) \<leftarrow> dictDecoder_discard d n;
          if n \<noteq> discarded then Some (d, discarded, Some (Errorf ''parquet: dict eof exception'')) else Some (d, n, None) }"

definition typedDictDecoder_Decode ::
  "('vd, 'a) Decode \<Rightarrow> ('vd, 'a) dictDecoder \<Rightarrow> 'a list \<Rightarrow> (('vd, 'a) dictDecoder \<times> 'a list \<times> nat \<times> goerr option) option" where
  "typedDictDecoder_Decode Decode d out =
     do { let vals = min (length out) (dec_nvals d);
          (d, part, decoded, err) \<leftarrow> dictDecoder_decode Decode d (take vals out);
          let out = blit out 0 part;
          if err \<noteq> None then Some (d, out, decoded, err)
          else if vals \<noteq> decoded then Some (d, out, decoded, Some (Errorf ''parquet: dict eof exception''))
          else Some (d, out, vals, None) }"

definition typedDictDecoder_DecodeSpaced ::
  "('vd, 'a) Decode \<Rightarrow> ('vd, 'a) dictDecoder \<Rightarrow> 'a list \<Rightarrow> nat \<Rightarrow> byte list \<Rightarrow> nat \<Rightarrow>
   (('vd, 'a) dictDecoder \<times> 'a list \<times> nat \<times> goerr option) option" where
  "typedDictDecoder_DecodeSpaced Decode d out nullCount validBits validBitsOffset =
     do { let vals = min (length out) (dec_nvals d);
          (d, part, decoded, err) \<leftarrow> dictDecoder_decodeSpaced Decode d (take vals out) nullCount validBits validBitsOffset;
          let out = blit out 0 part;
          if err \<noteq> None then Some (d, out, decoded, err)
          else if vals \<noteq> decoded then Some (d, out, decoded, Some (Errorf ''parquet: dict eof exception''))
          else Some (d, out, vals, None) }"

text \<open>\<open>appendIndices\<close> is \<^verbatim>\<open>AppendIndices\<close> of the builder, with the indexes and, where there may be nulls, the validity of each.\<close>

definition DecodeIndices ::
  "('b \<Rightarrow> int list \<Rightarrow> bool list option \<Rightarrow> 'b option) \<Rightarrow> ('vd, 'a) dictDecoder \<Rightarrow> nat \<Rightarrow> 'b \<Rightarrow>
   (('vd, 'a) dictDecoder \<times> 'b \<times> nat \<times> goerr option) option" where
  "DecodeIndices appendIndices d numValues bldr =
     do { let n = min numValues (dec_nvals d);
          r \<leftarrow> dd_idxDecoder d;
          (r, scratch, n, err) \<leftarrow> RleDecoder_GetBatch r (replicate n 0);
          bldr \<leftarrow> appendIndices bldr (map sint (take n scratch)) None;
          Some (d\<lparr>dd_idxDecoder := Some r, dec_nvals := dec_nvals d - n\<rparr>, bldr, n, err) }"

definition valid_flags :: "byte list \<Rightarrow> nat \<Rightarrow> nat \<Rightarrow> bool list option" where
  "valid_flags validBits off n =
     VisitBitBlocks (Some validBits) off n (\<lambda>pos flags. upd flags pos True) (\<lambda>flags. Some flags) (replicate n False)"

definition DecodeIndicesSpaced ::
  "('b \<Rightarrow> int list \<Rightarrow> bool list option \<Rightarrow> 'b option) \<Rightarrow> ('vd, 'a) dictDecoder \<Rightarrow> nat \<Rightarrow> nat \<Rightarrow> byte list \<Rightarrow> nat \<Rightarrow> 'b \<Rightarrow>
   (('vd, 'a) dictDecoder \<times> 'b \<times> nat \<times> goerr option) option" where
  "DecodeIndicesSpaced appendIndices d numValues nullCount validBits off bldr =
     do { r \<leftarrow> dd_idxDecoder d;
          (r, scratch, n, err) \<leftarrow> RleDecoder_GetBatchSpaced r (replicate numValues 0) nullCount validBits off;
          let d = d\<lparr>dd_idxDecoder := Some r\<rparr>;
          if err \<noteq> None then Some (d, bldr, n, err)
          else do { flags \<leftarrow> valid_flags validBits off n;
                    bldr \<leftarrow> appendIndices bldr (map sint (take n scratch)) (Some flags);
                    Some (d\<lparr>dec_nvals := dec_nvals d - (n - nullCount)\<rparr>, bldr, n, None) } }"

section \<open>Slots without a value\<close>

lemma GetBatchWithDict_Nil: "GetBatchWithDict ops r dc [] = Some (r, dc, [], 0, None)"
  unfolding GetBatchWithDict_def by (subst dict_batch_loop.simps) simp

context dictionary_converter
begin

lemma GetBatchWithDictSpaced_nulls:
  assumes c: "conv L K dc" and bits: "off + length vals \<le> 8 * length bs" and none: "\<And>i. i < length vals \<Longrightarrow> \<not> bm_bit bs (off + i)"
  shows "\<exists>K' dc' vals'. GetBatchWithDictSpaced ops r dc vals (length vals) bs off = Some (r, dc', vals', length vals, None) \<and>
    conv L K' dc' \<and> length vals' = length vals"
proof (cases "vals = []")
  case True
  then show ?thesis using c by (auto simp: GetBatchWithDictSpaced_def GetBatchWithDict_Nil)
next
  case False
  let ?p = "\<lambda>i. bm_bit bs (off + i)" and ?n = "length vals"
  let ?at = "\<lambda>pos :: nat. \<lambda>(r', dc). r' = r \<and> (\<exists>K. conv L K dc)"
  from NewBitBlockCounter_view [OF bits] obtain b where b: "NewBitBlockCounter bs off ?n = Some b" "block_view ?p ?n b" by blast
  have "\<exists>st' vals'. spaced_blocks (dict_spaced_step ops bs off) 0 (r, dc) vals 0 b = Some (st', vals', ?n, None) \<and> ?at ?n st' \<and>
      spaced_fill ?p 0 ?n (\<lambda>i. undefined) vals vals'"
  proof (rule spaced_blocks_ok [where p = ?p])
    fix pos k st and vals1 :: "'a list"
    assume a: "?at pos st" "0 < k" "pos + k \<le> ?n" "length vals1 = ?n"
    then obtain dc1 K1 where st: "st = (r, dc1)" "conv L K1 dc1" by auto
    have none': "\<not> ?p (pos + i)" if "i < k" for i using none [of "pos + i"] a(3) that by simp
    then have z: "count_bits (\<lambda>i. ?p (pos + i)) k = 0" by (simp add: count_bits_def)
    have "take k (drop pos vals1) \<noteq> []" "length (take k (drop pos vals1)) = k" using a(2-4) by auto
    then obtain dc2 out where f: "dc_FillZero ops dc1 (take k (drop pos vals1)) = Some (dc2, out)" "length out = k" "conv L K1 dc2"
      using FillZero [OF st(2), of "take k (drop pos vals1)"] by auto
    have "dict_spaced_step ops bs off \<lparr>blk_Len = int k, blk_Popcnt = int (count_bits (\<lambda>i. ?p (pos + i)) k)\<rparr> pos st vals1 =
        Some ((r, dc2), blit vals1 pos out, k, None)"
      using a(2-4) z f(1) by (simp add: dict_spaced_step_def st(1) AllSet_def NoneSet_def)
    moreover have "spaced_fill ?p pos (pos + k) (\<lambda>i. undefined) vals1 (blit vals1 pos out)"
      by (rule spaced_fill_slice [OF f(2)]) (use none' a(3,4) in auto)
    ultimately show "\<exists>st' vals'.
        dict_spaced_step ops bs off \<lparr>blk_Len = int k, blk_Popcnt = int (count_bits (\<lambda>i. ?p (pos + i)) k)\<rparr> pos st vals1 = Some (st', vals', k, None) \<and>
        ?at (pos + k) st' \<and> spaced_fill ?p pos (pos + k) (\<lambda>i. undefined) vals1 vals'"
      using f(3) by auto
  qed (use c b(2) in auto)
  then obtain dc' K' vals' where "spaced_blocks (dict_spaced_step ops bs off) 0 (r, dc) vals 0 b = Some ((r, dc'), vals', ?n, None)"
    "conv L K' dc'" "length vals' = ?n" by (auto simp: spaced_fill_def)
  then show ?thesis using False b(1) by (simp add: GetBatchWithDictSpaced_def) blast
qed

end

section \<open>Decoding through a dictionary\<close>

sublocale value_decoder \<subseteq> nil: dictionary_converter "nilable (dictConverter_ops Decode)" "\<lambda>L K dc. \<exists>c. dc = Some c \<and> dict_view holds L K c"
proof
  fix L :: "IndexType \<Rightarrow> 'a option" and K dc and ixs :: "IndexType list" and i and out :: "'a list"
  assume "\<exists>c. dc = Some c \<and> dict_view holds L K c"
  then obtain c where c: "dc = Some c" "dict_view holds L K c" by blast
  show "\<exists>c. dc = Some c \<and> dict_view holds L K' c" if "K' \<subseteq> K" for K' using c dict.conv_mono [OF c(2) that] by blast
  show "\<exists>dc'. dc_IsValid (nilable (dictConverter_ops Decode)) dc ixs = Some (dc', \<forall>i\<in>set ixs. L i \<noteq> None) \<and>
      (\<exists>c. dc' = Some c \<and> dict_view holds L (if \<forall>i\<in>set ixs. L i \<noteq> None then K \<union> set ixs else K) c)" if "ixs \<noteq> []"
  proof -
    from dict.IsValid [OF c(2) that] obtain c' where "dc_IsValid (dictConverter_ops Decode) c ixs = Some (c', \<forall>i\<in>set ixs. L i \<noteq> None)"
      "dict_view holds L (if \<forall>i\<in>set ixs. L i \<noteq> None then K \<union> set ixs else K) c'" by blast
    then show ?thesis by (intro exI [of _ "Some c'"]) (simp add: nilable_def c(1))
  qed
  show "\<exists>dc'. dc_IsValidSingle (nilable (dictConverter_ops Decode)) dc i = Some (dc', L i \<noteq> None) \<and>
      (\<exists>c. dc' = Some c \<and> dict_view holds L (if L i \<noteq> None then insert i K else K) c)"
    using dict.IsValidSingle [OF c(2), of i] by (auto simp: nilable_def c(1))
  show "\<exists>dc'. dc_Copy (nilable (dictConverter_ops Decode)) dc out ixs = Some (dc', blit out 0 (map (the \<circ> L) ixs), None) \<and>
      (\<exists>c. dc' = Some c \<and> dict_view holds L K c)" if "set ixs \<subseteq> K" "length ixs \<le> length out"
    using dict.Copy [OF c(2) that] by (auto simp: nilable_def c(1))
  show "\<exists>dc'. dc_Fill (nilable (dictConverter_ops Decode)) dc out i = Some (dc', replicate (length out) (the (L i)), None) \<and>
      (\<exists>c. dc' = Some c \<and> dict_view holds L K c)" if "i \<in> K" "out \<noteq> []"
    using dict.Fill [OF c(2) that] by (auto simp: nilable_def c(1))
  show "\<exists>dc' out'. dc_FillZero (nilable (dictConverter_ops Decode)) dc out = Some (dc', out') \<and> length out' = length out \<and>
      (\<exists>c. dc' = Some c \<and> dict_view holds L K c)" if "out \<noteq> []"
    using dict.FillZero [OF c(2) that] by (auto simp: nilable_def c(1))
qed

text \<open>Indexes that begin with \<open>js\<close> are left to the index decoder.\<close>

definition index_view :: "nat list \<Rightarrow> RleDecoder \<Rightarrow> bool" where
  "index_view js r \<longleftrightarrow> length (br_raw (dec_r r)) = 8 \<and>
     (js \<noteq> [] \<longrightarrow> (\<exists>w s pad. 0 < w \<and> w \<le> 31 \<and> decodes w s [] r (map of_nat js @ pad)))"

text \<open>The decoder has the dictionary \<open>D\<close>, and indexes that begin with \<open>js\<close> are left to decode.\<close>

definition dict_dec_view :: "('vd \<Rightarrow> 'a list \<Rightarrow> bool) \<Rightarrow> 'a list \<Rightarrow> nat list \<Rightarrow> ('vd, 'a) dictDecoder \<Rightarrow> bool" where
  "dict_dec_view holds D js d \<longleftrightarrow> length D < 2 ^ 31 \<and> list_all (\<lambda>j. j < length D) js \<and>
     (\<exists>c K. dd_dictValueDecoder d = Some c \<and> dict_view holds (dict_at D) K c) \<and> (\<exists>r. dd_idxDecoder d = Some r \<and> index_view js r)"

lemma decodes_raw: "decodes w s rest r vs \<Longrightarrow> length (br_raw (dec_r r)) = 8"
  by (auto simp: decodes_def reading_def)

lemma dict_at_index:
  assumes "j < length D" "length D < 2 ^ 31"
  shows "dict_at D (ucast (of_nat j :: u64)) = Some (D ! j)"
proof -
  have "(ucast (of_nat j :: u64) :: IndexType) = of_nat j" by (rule bit_word_eqI) (simp add: bit_simps)
  moreover have "sint (of_nat j :: IndexType) = int j"
    using assms by (simp add: signed_of_nat signed_take_bit_int_eq_self)
  ultimately show ?thesis using assms(1) by (simp add: dict_at_def)
qed

lemma index_view_drop:
  assumes "decodes w s [] r (drop n (map of_nat js @ pad))" "0 < w" "w \<le> 31" "n \<le> length js"
  shows "index_view (drop n js) r"
proof -
  have "drop n (map of_nat js @ pad) = map of_nat (drop n js) @ pad" using assms(4) by (simp add: drop_map)
  then show ?thesis unfolding index_view_def using assms(1-3) decodes_raw [OF assms(1)] by metis
qed

lemma index_view_decodes:
  assumes "index_view js r" "js \<noteq> []"
  obtains w s pad where "0 < w" "w \<le> 31" "decodes w s [] r (map of_nat js @ pad)"
  using assms unfolding index_view_def by blast

lemma dict_dec_viewE:
  assumes "dict_dec_view holds D js d"
  obtains c K r where "length D < 2 ^ 31" "list_all (\<lambda>j. j < length D) js" "dd_dictValueDecoder d = Some c" "dict_view holds (dict_at D) K c"
    "dd_idxDecoder d = Some r" "index_view js r"
  using assms unfolding dict_dec_view_def by blast

lemma dict_dec_viewI:
  assumes "length D < 2 ^ 31" "list_all (\<lambda>j. j < length D) js" "dd_dictValueDecoder d = Some c" "dict_view holds (dict_at D) K c"
    "dd_idxDecoder d = Some r" "index_view (drop n js) r"
  shows "dict_dec_view holds D (drop n js) d"
proof -
  have "list_all (\<lambda>j. j < length D) (drop n js)" using assms(2) by (auto simp: list_all_iff dest: in_set_dropD)
  then show ?thesis unfolding dict_dec_view_def using assms by blast
qed

text \<open>The values the indexes stand for.\<close>

lemma dict_at_indexes:
  assumes "length D < 2 ^ 31" "list_all (\<lambda>j. j < length D) js" "j < length js"
  shows "dict_at D (ucast ((map of_nat js @ pad) ! j :: u64)) = Some (D ! (js ! j))"
  using assms by (simp add: nth_append dict_at_index list_all_length)

context value_decoder
begin

lemma dict_batch:
  assumes D: "length D < 2 ^ 31" "list_all (\<lambda>j. j < length D) js" and c: "dict_view holds (dict_at D) K c" and r: "index_view js r"
    and out: "length out \<le> length js"
  shows "\<exists>r' c' K'. GetBatchWithDict (nilable (dictConverter_ops Decode)) r (Some c) out =
      Some (r', Some c', map ((!) D) (take (length out) js), length out, None) \<and>
    dict_view holds (dict_at D) K' c' \<and> index_view (drop (length out) js) r'"
proof (cases "out = []")
  case True
  then show ?thesis using c r by (auto simp: GetBatchWithDict_Nil)
next
  case False
  let ?n = "length out"
  from False out have "js \<noteq> []" by auto
  with r obtain w s pad where w: "0 < w" "w \<le> 31" "decodes w s [] r (map of_nat js @ pad)" by (rule index_view_decodes)
  let ?V = "map of_nat js @ pad :: u64 list"
  have at: "dict_at D (ucast (?V ! j)) = Some (D ! (js ! j))" if "j < ?n" for j using that out by (intro dict_at_indexes [OF D]) simp
  have "\<exists>r' K' dc'. GetBatchWithDict (nilable (dictConverter_ops Decode)) r (Some c) out =
      Some (r', dc', looked (dict_at D) (take ?n ?V) @ drop (length ?V) out, min ?n (length ?V), None) \<and> (\<exists>c. dc' = Some c \<and> dict_view holds (dict_at D) K' c) \<and>
      (?n \<le> length ?V \<longrightarrow> decodes w s [] r' (drop ?n ?V))"
    by (rule nil.GetBatchWithDict_ok [where K = K, OF w(3)]) (use w(1,2) c at in auto)
  then obtain r' K' c' where r': "GetBatchWithDict (nilable (dictConverter_ops Decode)) r (Some c) out =
      Some (r', Some c', looked (dict_at D) (take ?n ?V) @ drop (length ?V) out, min ?n (length ?V), None)" "dict_view holds (dict_at D) K' c'"
      "?n \<le> length ?V \<longrightarrow> decodes w s [] r' (drop ?n ?V)" by blast
  have le: "?n \<le> length ?V" using out by simp
  have "looked (dict_at D) (take ?n ?V) = map ((!) D) (take ?n js)"
    using D out by (intro nth_equalityI) (simp_all add: looked_def dict_at_index list_all_length)
  moreover have "drop (length ?V) out = []" "min ?n (length ?V) = ?n" using le by simp_all
  moreover have "index_view (drop ?n js) r'" by (rule index_view_drop [OF _ w(1,2) out]) (use r'(3) le in blast)
  ultimately show ?thesis using r'(1,2) by auto
qed

lemma DictDecode_ok:
  assumes view: "dict_dec_view holds D js d" and n: "n = min (length out) (dec_nvals d)" "n \<le> length js"
  shows "\<exists>d'. typedDictDecoder_Decode Decode d out = Some (d', blit out 0 (map ((!) D) (take n js)), n, None) \<and>
    dict_dec_view holds D (drop n js) d' \<and> dec_nvals d' = dec_nvals d - n"
proof -
  from view obtain c K r where 1: "length D < 2 ^ 31" "list_all (\<lambda>j. j < length D) js" "dd_dictValueDecoder d = Some c" "dict_view holds (dict_at D) K c"
    "dd_idxDecoder d = Some r" "index_view js r" by (rule dict_dec_viewE)
  have len: "length (take n out) = n" using n(1) by simp
  from dict_batch [OF 1(1,2,4,6), of "take n out"] n(2) len obtain r' c' K' where
    r': "GetBatchWithDict (nilable (dictConverter_ops Decode)) r (Some c) (take n out) = Some (r', Some c', map ((!) D) (take n js), n, None)"
    "dict_view holds (dict_at D) K' c'" "index_view (drop n js) r'" by auto
  let ?d' = "d\<lparr>dd_idxDecoder := Some r', dd_dictValueDecoder := Some c', dec_nvals := dec_nvals d - n\<rparr>"
  have "typedDictDecoder_Decode Decode d out = Some (?d', blit out 0 (map ((!) D) (take n js)), n, None)"
    unfolding typedDictDecoder_Decode_def dictDecoder_decode_def Let_def n(1) [symmetric] using 1(3,5) r'(1) by simp
  moreover have "dict_dec_view holds D (drop n js) ?d'" by (rule dict_dec_viewI [OF 1(1,2) _ r'(2) _ r'(3)]) simp_all
  ultimately show ?thesis by (intro exI [of _ ?d']) simp
qed

lemma dict_batch_spaced:
  assumes D: "length D < 2 ^ 31" "list_all (\<lambda>j. j < length D) js" and c: "dict_view holds (dict_at D) K c" and r: "index_view js r"
    and bits: "off + length out \<le> 8 * length bs" and p: "p = (\<lambda>i. bm_bit bs (off + i))"
    and k: "count_bits p (length out) \<le> length js" "nulls + count_bits p (length out) = length out"
  shows "\<exists>r' c' K' out'. GetBatchWithDictSpaced (nilable (dictConverter_ops Decode)) r (Some c) out nulls bs off = Some (r', Some c', out', length out, None) \<and>
    dict_view holds (dict_at D) K' c' \<and> length out' = length out \<and> (\<forall>i<length out. p i \<longrightarrow> out' ! i = D ! (js ! count_bits p i)) \<and>
    index_view (drop (count_bits p (length out)) js) r'"
proof (cases "count_bits p (length out) = 0")
  case True
  then have none: "\<not> p i" if "i < length out" for i using that count_bits_none [of p "length out"] by simp
  then have none': "\<not> bm_bit bs (off + i)" if "i < length out" for i using that by (simp add: p)
  have nulls: "nulls = length out" using True k(2) by simp
  have "\<exists>K' dc' out'. GetBatchWithDictSpaced (nilable (dictConverter_ops Decode)) r (Some c) out (length out) bs off = Some (r, dc', out', length out, None) \<and>
      (\<exists>c. dc' = Some c \<and> dict_view holds (dict_at D) K' c) \<and> length out' = length out"
    by (rule nil.GetBatchWithDictSpaced_nulls [where K = K]) (use c bits none' in auto)
  then show ?thesis using r none True unfolding nulls by auto
next
  case False
  let ?n = "length out" and ?k = "count_bits p (length out)"
  from False k(1) have "js \<noteq> []" by auto
  with r obtain w s pad where w: "0 < w" "w \<le> 31" "decodes w s [] r (map of_nat js @ pad)" by (rule index_view_decodes)
  let ?V = "map of_nat js @ pad :: u64 list"
  have at: "dict_at D (ucast (?V ! j)) = Some (D ! (js ! j))" if "j < ?k" for j using that k(1) by (intro dict_at_indexes [OF D]) simp
  have V: "valid_batch (dict_at D) ?V ?k" using at k(1) by (simp add: valid_batch_def)
  have "\<exists>r' K' dc' out'. GetBatchWithDictSpaced (nilable (dictConverter_ops Decode)) r (Some c) out nulls bs off = Some (r', dc', out', ?n, None) \<and>
      decodes w s [] r' (drop ?k ?V) \<and> (\<exists>c. dc' = Some c \<and> dict_view holds (dict_at D) K' c) \<and>
      spaced_fill p 0 ?n (\<lambda>i. the (dict_at D (ucast (?V ! count_bits p i)))) out out'"
    by (rule nil.GetBatchWithDictSpaced_ok [where K = K, OF w(3) _ bits p V w(1) _ k(2)]) (use w(2) c in auto)
  then obtain r' K' c' out' where r': "GetBatchWithDictSpaced (nilable (dictConverter_ops Decode)) r (Some c) out nulls bs off = Some (r', Some c', out', ?n, None)"
    "decodes w s [] r' (drop ?k ?V)" "dict_view holds (dict_at D) K' c'" "spaced_fill p 0 ?n (\<lambda>i. the (dict_at D (ucast (?V ! count_bits p i)))) out out'" by blast
  have "out' ! i = D ! (js ! count_bits p i)" if "i < ?n" "p i" for i
    using r'(4) that at [OF count_bits_less [of i ?n p]] by (simp add: spaced_fill_def)
  moreover have "length out' = ?n" using r'(4) by (simp add: spaced_fill_def)
  moreover have "index_view (drop ?k js) r'" by (rule index_view_drop [OF r'(2) w(1,2) k(1)])
  ultimately show ?thesis using r'(1,3) by blast
qed

lemma DictDecodeSpaced_ok:
  assumes view: "dict_dec_view holds D js d" and n: "length out \<le> dec_nvals d" and bits: "off + length out \<le> 8 * length bs"
    and p: "p = (\<lambda>i. bm_bit bs (off + i))" and k: "count_bits p (length out) \<le> length js" "nulls + count_bits p (length out) = length out"
  shows "\<exists>d' out'. typedDictDecoder_DecodeSpaced Decode d out nulls bs off = Some (d', out', length out, None) \<and> length out' = length out \<and>
    (\<forall>i<length out. p i \<longrightarrow> out' ! i = D ! (js ! count_bits p i)) \<and>
    dict_dec_view holds D (drop (count_bits p (length out)) js) d' \<and> dec_nvals d' = dec_nvals d - length out"
proof -
  let ?n = "length out" and ?k = "count_bits p (length out)"
  from view obtain c K r where 1: "length D < 2 ^ 31" "list_all (\<lambda>j. j < length D) js" "dd_dictValueDecoder d = Some c" "dict_view holds (dict_at D) K c"
    "dd_idxDecoder d = Some r" "index_view js r" by (rule dict_dec_viewE)
  from dict_batch_spaced [OF 1(1,2,4,6) bits p k] obtain r' c' K' out' where
    r': "GetBatchWithDictSpaced (nilable (dictConverter_ops Decode)) r (Some c) out nulls bs off = Some (r', Some c', out', ?n, None)"
    "dict_view holds (dict_at D) K' c'" "length out' = ?n" "\<forall>i<?n. p i \<longrightarrow> out' ! i = D ! (js ! count_bits p i)" "index_view (drop ?k js) r'" by blast
  let ?d' = "d\<lparr>dd_idxDecoder := Some r', dd_dictValueDecoder := Some c', dec_nvals := dec_nvals d - ?n\<rparr>"
  have "min ?n (dec_nvals d) = ?n" using n by simp
  then have "typedDictDecoder_DecodeSpaced Decode d out nulls bs off = Some (?d', out', ?n, None)"
    unfolding typedDictDecoder_DecodeSpaced_def dictDecoder_decodeSpaced_def Let_def using 1(3,5) r'(1,3) by (simp add: blit_def)
  moreover have "dict_dec_view holds D (drop ?k js) ?d'" by (rule dict_dec_viewI [OF 1(1,2) _ r'(2) _ r'(5)]) simp_all
  ultimately show ?thesis using r'(3,4) by (intro exI [of _ ?d'] exI [of _ out']) simp
qed

lemma DictDiscard_ok:
  assumes view: "dict_dec_view holds D js d" and n: "n = min m (dec_nvals d)" "n \<le> length js" "js \<noteq> []"
  shows "\<exists>d'. typedDictDecoder_Discard d m = Some (d', n, None) \<and> dict_dec_view holds D (drop n js) d' \<and> dec_nvals d' = dec_nvals d - n"
proof -
  from view obtain c K r where 1: "length D < 2 ^ 31" "list_all (\<lambda>j. j < length D) js" "dd_dictValueDecoder d = Some c" "dict_view holds (dict_at D) K c"
    "dd_idxDecoder d = Some r" "index_view js r" by (rule dict_dec_viewE)
  from 1(6) n(3) obtain w s pad where w: "0 < w" "w \<le> 31" "decodes w s [] r (map of_nat js @ pad)" by (rule index_view_decodes)
  from RleDiscard_ok [OF w(3) _ w(1), of n] w(2) n(2) obtain r' where
    r': "RleDecoder_Discard r n = (r', n)" "decodes w s [] r' (drop n (map of_nat js @ pad))" by auto
  let ?d' = "d\<lparr>dd_idxDecoder := Some r', dec_nvals := dec_nvals d - n\<rparr>"
  have "typedDictDecoder_Discard d m = Some (?d', n, None)"
    unfolding typedDictDecoder_Discard_def dictDecoder_discard_def Let_def n(1) [symmetric] using 1(5) r'(1) by simp
  moreover have "dict_dec_view holds D (drop n js) ?d'"
    by (rule dict_dec_viewI [OF 1(1,2) _ 1(4) _ index_view_drop [OF r'(2) w(1,2) n(2)]]) (simp_all add: 1(3))
  ultimately show ?thesis by (intro exI [of _ ?d']) simp
qed

end

end
