(* ===== verification/Dict_Codec.thy ===== *)
theory Dict_Codec
  imports Dict_Encoder Dict_Decoder
begin

text \<open>
  The dictionary encoding end to end: the pages that \<^verbatim>\<open>typedDictEncoder\<close> flushes and the dictionary page it writes at the end,
  read back by \<^verbatim>\<open>typedDictDecoder\<close> with the \<^verbatim>\<open>PlainDecoder\<close> of the dictionary page. The column writer of the library writes the
  pages as they fill and the dictionary page when the column chunk is closed, so a page may be older than entries of the dictionary.
\<close>

section \<open>Setting the dictionary and a page\<close>

lemma nth_valid_values:
  assumes "p i" "i < length xs"
  shows "valid_values p xs ! count_bits p i = xs ! i"
proof -
  have "[0..<length xs] = [0..<i] @ i # [Suc i..<length xs]" using assms(2) upt_add_eq_append [of 0 i "length xs - i"] by (simp add: upt_conv_Cons)
  then show ?thesis using assms(1) by (simp add: valid_values_def count_bits_def nth_append)
qed

text \<open>The decoder has the dictionary \<open>D\<close> and is ready for a page.\<close>

definition dict_ready :: "('vd \<Rightarrow> 'a list \<Rightarrow> bool) \<Rightarrow> 'a list \<Rightarrow> ('vd, 'a) dictDecoder \<Rightarrow> bool" where
  "dict_ready holds D d \<longleftrightarrow> length D < 2 ^ 31 \<and> (\<exists>c K. dd_dictValueDecoder d = Some c \<and> dict_view holds (dict_at D) K c) \<and>
     (\<forall>r. dd_idxDecoder d = Some r \<longrightarrow> length (br_raw (dec_r r)) = 8)"

lemma dict_view_ready: "dict_dec_view holds D js d \<Longrightarrow> dict_ready holds D d"
  by (auto simp: dict_dec_view_def dict_ready_def index_view_def)

lemma index_view_page:
  assumes "js = [] \<or> 0 < w \<and> encodes w s (map of_nat js @ replicate k 0)" "w \<le> 31"
  shows "index_view js (NewRleDecoder s w)" "length (br_raw (dec_r r)) = 8 \<Longrightarrow> index_view js (RleDecoder_Reset r s w)"
  using assms encodes_New [of w s "map of_nat js @ replicate k 0"] encodes_Reset [of w s "map of_nat js @ replicate k 0" r]
  unfolding index_view_def by (auto simp: NewRleDecoder_def NewBitReader_def RleDecoder_Reset_def BitReader_Reset_def)

lemma SetData_page:
  assumes d: "dict_ready holds D d" and js: "index_page js page" "list_all (\<lambda>j. j < length D) js"
  shows "\<exists>d'. dictDecoder_SetData d n page = (d', None) \<and> dict_dec_view holds D js d' \<and> dec_nvals d' = n"
proof -
  from d obtain c K where c: "length D < 2 ^ 31" "dd_dictValueDecoder d = Some c" "dict_view holds (dict_at D) K c"
    and raw: "dd_idxDecoder d = Some r \<Longrightarrow> length (br_raw (dec_r r)) = 8" for r unfolding dict_ready_def by blast
  from js(1) obtain w s k where w: "page = of_nat w # s" "w \<le> 31" "js = [] \<or> 0 < w \<and> encodes w s (map of_nat js @ replicate k 0)"
    unfolding index_page_def by blast
  have uw: "unat (of_nat w :: byte) = w" using w(2) by (simp add: unsigned_of_nat take_bit_nat_eq_self)
  define r where "r = (case dd_idxDecoder d of None \<Rightarrow> NewRleDecoder s w | Some r \<Rightarrow> RleDecoder_Reset r s w)"
  have "index_view js r" using index_view_page [OF w(3,2)] raw by (auto simp: r_def split: option.split)
  moreover have "dictDecoder_SetData d n page = (d\<lparr>dec_nvals := n, dd_idxDecoder := Some r\<rparr>, None)"
    using w(2) by (simp add: dictDecoder_SetData_def w(1) uw resetIndexDecoder_def r_def split: option.split)
  ultimately show ?thesis using c js(2)
    by (intro exI [of _ "d\<lparr>dec_nvals := n, dd_idxDecoder := Some r\<rparr>"]) (auto simp: dict_dec_view_def)
qed

lemma SetDict_ready:
  assumes "plain_holds vd (D :: 'a::len word list)" "length D < 2 ^ 31" "dd_idxDecoder d = None"
  shows "\<exists>d'. SetDict zero d vd (length D) (dd_physicalType d) = Some d' \<and> dict_ready plain_holds D d'"
proof -
  let ?d' = "d\<lparr>dd_dictValueDecoder := Some (NewDictConverter zero vd (length D))\<rparr>"
  have "dict_ready plain_holds D ?d'"
    using assms(2,3) plain_values.NewDictConverter_view [OF assms(1), of zero] by (auto simp: dict_ready_def)
  then show ?thesis by (intro exI [of _ ?d']) (simp add: SetDict_def)
qed

section \<open>Reading the pages back\<close>

text \<open>A reader gives the pages, each with its number of values, to one decoder and decodes each in one call.\<close>

fun decode_pages ::
  "('vd, 'a) Decode \<Rightarrow> 'a \<Rightarrow> ('vd, 'a) dictDecoder \<Rightarrow> (byte list \<times> nat) list \<Rightarrow> (('vd, 'a) dictDecoder \<times> ('a list \<times> nat \<times> goerr option) list) option" where
  "decode_pages Decode zero d [] = Some (d, [])"
| "decode_pages Decode zero d ((page, n) # pages) =
     (case dictDecoder_SetData d n page of
        (d, Some err) \<Rightarrow> Some (d, [([], 0, Some err)])
      | (d, None) \<Rightarrow> do { (d, out) \<leftarrow> typedDictDecoder_Decode Decode d (replicate n zero); (d, outs) \<leftarrow> decode_pages Decode zero d pages; Some (d, out # outs) })"

context value_decoder
begin

lemma decode_page:
  assumes "dict_ready holds D d" "index_page js page" "list_all (\<lambda>j. j < length D) js" "n = length js" "length out = n"
  shows "\<exists>d1 d2. dictDecoder_SetData d n page = (d1, None) \<and>
    typedDictDecoder_Decode Decode d1 out = Some (d2, map ((!) D) js, n, None) \<and> dict_ready holds D d2"
proof -
  from SetData_page [OF assms(1-3), of n] obtain d1 where
    d1: "dictDecoder_SetData d n page = (d1, None)" "dict_dec_view holds D js d1" "dec_nvals d1 = n" by blast
  from DictDecode_ok [OF d1(2), of n out] d1(3) assms(4,5) obtain d2 where
    "typedDictDecoder_Decode Decode d1 out = Some (d2, blit out 0 (map ((!) D) (take n js)), n, None)" "dict_dec_view holds D (drop n js) d2"
    by auto
  with d1(1) dict_view_ready [OF this(2)] assms(4,5) show ?thesis by (auto simp: blit_def)
qed

lemma decode_pages_ok:
  assumes "dict_ready holds D d" "list_all2 (\<lambda>(page, n) js. index_page js page \<and> list_all (\<lambda>j. j < length D) js \<and> n = length js) pages jss"
  shows "\<exists>d'. decode_pages Decode zero d pages = Some (d', map (\<lambda>js. (map ((!) D) js, length js, None)) jss) \<and> dict_ready holds D d'"
  using assms(2,1)
proof (induction pages jss arbitrary: d rule: list_all2_induct)
  case (Cons pn pages js jss)
  obtain page n where pn: "pn = (page, n)" "index_page js page" "list_all (\<lambda>j. j < length D) js" "n = length js" using Cons.hyps(1) by (cases pn) simp
  from decode_page [OF Cons.prems pn(2-4), of "replicate n zero"] obtain d1 d2 where
    d: "dictDecoder_SetData d n page = (d1, None)" "typedDictDecoder_Decode Decode d1 (replicate n zero) = Some (d2, map ((!) D) js, n, None)"
      "dict_ready holds D d2" by auto
  from Cons.IH [OF d(3)] d(1,2) show ?case by (auto simp: pn(1) pn(4) [symmetric])
qed simp

end

section \<open>The calls of an encoder\<close>

text \<open>An encoder reached from a new one: the pages it flushed, each with the values put since the page before, the values put since the
  last page, and the number of slots given to it. Each call may get another buffer from the pool.\<close>

inductive dict_calls ::
  "('a::len word \<Rightarrow> nat \<Rightarrow> u64) \<Rightarrow> ('a word \<Rightarrow> 'a word \<Rightarrow> bool) \<Rightarrow> 'a word dictEncoder \<Rightarrow> (byte list \<times> 'a word list) list \<Rightarrow>
   'a word list \<Rightarrow> nat \<Rightarrow> bool" for hash same where
  dict_new: "dict_calls hash same (newDictEncoderBase pool (NewMemoTable 0)) [] [] 0"
| dict_put: "dict_calls hash same d pages vals n \<Longrightarrow> n + length xs < 2 ^ 31 \<Longrightarrow> typedDictEncoder_Put hash same d xs = Some d' \<Longrightarrow>
    dict_calls hash same d' pages (vals @ xs) (n + length xs)"
| dict_put_spaced: "dict_calls hash same d pages vals n \<Longrightarrow> n + length xs < 2 ^ 31 \<Longrightarrow> off + length xs \<le> 8 * length bs \<Longrightarrow>
    typedDictEncoder_PutSpaced hash same d xs (Some bs) off = Some d' \<Longrightarrow>
    dict_calls hash same d' pages (vals @ valid_values (\<lambda>i. bm_bit bs (off + i)) xs) (n + length xs)"
| dict_flush: "dict_calls hash same d pages vals n \<Longrightarrow> dictEncoder_FlushValues pool d = Some (d', Some buf, None) \<Longrightarrow> Buffer_Bytes buf = Some page \<Longrightarrow>
    dict_calls hash same d' (pages @ [(page, vals)]) [] n"
| dict_reset: "dict_calls hash same d pages vals n \<Longrightarrow> dict_calls hash same (dictEncoder_Reset pool d) [] [] 0"

text \<open>The pages hold indexes of their values in the dictionary \<open>ms\<close>.\<close>

definition pages_hold :: "('a \<Rightarrow> nat \<Rightarrow> u64) \<Rightarrow> ('a \<Rightarrow> 'a \<Rightarrow> bool) \<Rightarrow> 'a list \<Rightarrow> (byte list \<times> 'a list) list \<Rightarrow> bool" where
  "pages_hold hash same ms pages \<longleftrightarrow> list_all (\<lambda>(page, vs). \<exists>js. index_page js page \<and> indexes hash same ms js vs) pages"

lemma pages_hold_extend: "pages_hold hash same ms pages \<Longrightarrow> pages_hold hash same (ms @ ms') pages"
  by (auto simp: pages_hold_def list_all_iff dest!: bspec intro: indexes_extend)

lemma indexes_bound: "indexes hash same ms js vs \<Longrightarrow> list_all (\<lambda>j. j < length ms) js"
  by (auto simp: indexes_def list_all_length list_all2_conv_all_nth)

lemma pages_hold_indexes:
  assumes "pages_hold hash same ms pages"
  obtains jss where "list_all2 (\<lambda>(page, vs) js. index_page js page \<and> indexes hash same ms js vs) pages jss"
proof -
  have "\<exists>jss. list_all2 (\<lambda>(page, vs) js. index_page js page \<and> indexes hash same ms js vs) pages jss"
    using assms by (induction pages) (auto simp: pages_hold_def list_all2_Cons1)
  then show ?thesis using that by blast
qed

lemma indexes_values: "indexes hash same ms js vs \<Longrightarrow> list_all2 (key_eq hash same) vs (map ((!) ms) js)"
  by (auto simp: indexes_def list_all2_conv_all_nth)

definition dict_calls_ok :: "('a::len word \<Rightarrow> nat \<Rightarrow> u64) \<Rightarrow> ('a word \<Rightarrow> 'a word \<Rightarrow> bool) \<Rightarrow> 'a word dictEncoder \<Rightarrow> 'a word list \<Rightarrow>
    (byte list \<times> 'a word list) list \<Rightarrow> 'a word list \<Rightarrow> nat \<Rightarrow> bool" where
  "dict_calls_ok hash same d ms pages vals n \<longleftrightarrow> pages_hold hash same ms pages \<and> length ms \<le> n \<and> n < 2 ^ 31 \<and>
     (\<exists>js. length js \<le> n \<and> dict_enc_view hash same d ms js \<and> indexes hash same ms js vals)"

context word_memo_key
begin

lemma calls_put:
  assumes "dict_calls_ok hash same d ms pages vals n" "n + length xs < 2 ^ 31"
  shows "\<exists>d' ms'. typedDictEncoder_Put hash same d xs = Some d' \<and> dict_calls_ok hash same d' (ms @ ms') pages (vals @ xs) (n + length xs)"
proof -
  from assms(1) obtain js where js: "length js \<le> n" "dict_enc_view hash same d ms js" "indexes hash same ms js vals"
    and ok: "pages_hold hash same ms pages" "length ms \<le> n" unfolding dict_calls_ok_def by blast
  from DictPut_ok [OF js(2), of xs] js(1) ok(2) assms(2) obtain d' ms' js' where
    d': "typedDictEncoder_Put hash same d xs = Some d'" "length ms' \<le> length xs" "dict_enc_view hash same d' (ms @ ms') (js @ js')"
      "indexes hash same (ms @ ms') js' xs" by auto
  have "length (js @ js') \<le> n + length xs" "length (ms @ ms') \<le> n + length xs" using js(1) ok(2) d'(2) indexes_length [OF d'(4)] by simp_all
  with d'(3) indexes_append [OF indexes_extend [OF js(3)] d'(4)] assms(2) pages_hold_extend [OF ok(1)]
  have "dict_calls_ok hash same d' (ms @ ms') pages (vals @ xs) (n + length xs)" unfolding dict_calls_ok_def by blast
  with d'(1) show ?thesis by blast
qed

lemma calls_put_spaced:
  assumes "dict_calls_ok hash same d ms pages vals n" "n + length xs < 2 ^ 31" "off + length xs \<le> 8 * length bs"
  shows "\<exists>d' ms'. typedDictEncoder_PutSpaced hash same d xs (Some bs) off = Some d' \<and>
    dict_calls_ok hash same d' (ms @ ms') pages (vals @ valid_values (\<lambda>i. bm_bit bs (off + i)) xs) (n + length xs)"
proof -
  from assms(1) obtain js where js: "length js \<le> n" "dict_enc_view hash same d ms js" "indexes hash same ms js vals"
    and ok: "pages_hold hash same ms pages" "length ms \<le> n" unfolding dict_calls_ok_def by blast
  let ?vs = "valid_values (\<lambda>i. bm_bit bs (off + i)) xs"
  from DictPutSpaced_ok [OF js(2) _ _ assms(3)] js(1) ok(2) assms(2) obtain d' ms' js' where
    d': "typedDictEncoder_PutSpaced hash same d xs (Some bs) off = Some d'" "length ms' \<le> length xs" "dict_enc_view hash same d' (ms @ ms') (js @ js')"
      "indexes hash same (ms @ ms') js' ?vs" by auto
  have "length ?vs \<le> length xs" by (rule valid_values_le)
  then have "length (js @ js') \<le> n + length xs" "length (ms @ ms') \<le> n + length xs" using js(1) ok(2) d'(2) indexes_length [OF d'(4)] by simp_all
  with d'(3) indexes_append [OF indexes_extend [OF js(3)] d'(4)] assms(2) pages_hold_extend [OF ok(1)]
  have "dict_calls_ok hash same d' (ms @ ms') pages (vals @ ?vs) (n + length xs)" unfolding dict_calls_ok_def by blast
  with d'(1) show ?thesis by blast
qed

lemma calls_flush:
  assumes "dict_calls_ok hash same d ms pages vals n"
  shows "\<exists>d' buf page. dictEncoder_FlushValues pool d = Some (d', Some buf, None) \<and> Buffer_Bytes buf = Some page \<and>
    dict_calls_ok hash same d' ms (pages @ [(page, vals)]) [] n"
proof -
  from assms obtain js where js: "dict_enc_view hash same d ms js" "indexes hash same ms js vals"
    and ok: "pages_hold hash same ms pages" "length ms \<le> n" "n < 2 ^ 31" unfolding dict_calls_ok_def by blast
  from DictFlush_ok [OF js(1), of pool] obtain d' buf page where
    d': "dictEncoder_FlushValues pool d = Some (d', Some buf, None)" "Buffer_Bytes buf = Some page" "index_page js page" "dict_enc_view hash same d' ms []" by blast
  have "pages_hold hash same ms (pages @ [(page, vals)])" using ok(1) d'(3) js(2) by (auto simp: pages_hold_def)
  with d'(4) ok(2,3) have "dict_calls_ok hash same d' ms (pages @ [(page, vals)]) [] n"
    unfolding dict_calls_ok_def by (auto simp: indexes_def intro!: exI [of _ "[]"])
  with d'(1,2) show ?thesis by blast
qed

lemma dict_calls_view:
  assumes "dict_calls hash same d pages vals n"
  shows "\<exists>ms. dict_calls_ok hash same d ms pages vals n"
  using assms
proof induction
  case (dict_new pool)
  have "dict_calls_ok hash same (newDictEncoderBase pool (NewMemoTable 0)) [] [] [] 0"
    unfolding dict_calls_ok_def using New_dict_view [of pool] by (auto simp: pages_hold_def indexes_def)
  then show ?case by blast
next
  case (dict_put d pages vals n xs d')
  then show ?case using calls_put [of d _ pages vals n xs] by fastforce
next
  case (dict_put_spaced d pages vals n xs off bs d')
  then show ?case using calls_put_spaced [of d _ pages vals n xs off bs] by fastforce
next
  case (dict_flush d pages vals n pool d' buf page)
  then show ?case using calls_flush [of d _ pages vals n pool] by fastforce
next
  case (dict_reset d pages vals n pool)
  then obtain ms js where "dict_enc_view hash same d ms js" unfolding dict_calls_ok_def by blast
  then have "dict_calls_ok hash same (dictEncoder_Reset pool d) [] [] [] 0"
    unfolding dict_calls_ok_def using DictReset_ok by (auto simp: pages_hold_def indexes_def)
  then show ?case by blast
qed

text \<open>A decoder given the dictionary page is ready for the pages.\<close>

lemma written_dict:
  assumes "dict_calls_ok hash same d ms pages vals n" and T: "8 dvd LENGTH('b)" "requiredBytes TYPE('b) (NumEntries d) \<le> Plain_Decoder.MaxInt32"
    and pd: "pd_bitSetReader pd = None"
  obtains dictPage dec where "WriteDict d (replicate (de_dictEncodedSize d) 0) = Some dictPage"
    "SetDict 0 (newDictDecoder t) (decoder_SetData pd (NumEntries d) dictPage) (NumEntries d) t = Some dec" "dict_ready plain_holds ms dec"
proof -
  from assms(1) obtain js where js: "dict_enc_view hash same d ms js" and ms: "length ms < 2 ^ 31" unfolding dict_calls_ok_def by auto
  have num: "NumEntries d = length ms" by (rule NumEntries_eq [OF js])
  have "plain_holds (decoder_SetData pd (length ms) (getBytes ms)) ms" using T pd by (simp add: plain_holds_def decoder_SetData_def num)
  from SetDict_ready [OF this ms, of "newDictDecoder t" 0] WriteDict_ok [OF js T(1)] show ?thesis
    using that unfolding num by (auto simp: newDictDecoder_def)
qed

text \<open>What the decoder reads back is what was put, up to the equality of the memo table.\<close>

lemma written_pages_decode:
  assumes calls: "dict_calls_ok hash same d ms pages vals n" and T: "8 dvd LENGTH('b)" "requiredBytes TYPE('b) (NumEntries d) \<le> Plain_Decoder.MaxInt32"
    and pd: "pd_bitSetReader pd = None"
  shows "\<exists>dictPage dec dec' outs. WriteDict d (replicate (de_dictEncodedSize d) 0) = Some dictPage \<and>
    SetDict 0 (newDictDecoder t) (decoder_SetData pd (NumEntries d) dictPage) (NumEntries d) t = Some dec \<and>
    decode_pages PlainDecoder_Decode 0 dec (map (\<lambda>(page, vs). (page, length vs)) pages) = Some (dec', outs) \<and>
    list_all2 (\<lambda>(page, vs) (out, k, err). k = length vs \<and> err = None \<and> list_all2 (key_eq hash same) vs out) pages outs"
proof -
  from calls T pd obtain dictPage dec where dec: "WriteDict d (replicate (de_dictEncodedSize d) 0) = Some dictPage"
    "SetDict 0 (newDictDecoder t) (decoder_SetData pd (NumEntries d) dictPage) (NumEntries d) t = Some dec" "dict_ready plain_holds ms dec"
    by (rule written_dict)
  from calls have "pages_hold hash same ms pages" unfolding dict_calls_ok_def by blast
  then obtain jss where jss: "list_all2 (\<lambda>(page, vs) js. index_page js page \<and> indexes hash same ms js vs) pages jss"
    by (rule pages_hold_indexes)
  then have "list_all2 (\<lambda>(page, n) js. index_page js page \<and> list_all (\<lambda>j. j < length ms) js \<and> n = length js)
      (map (\<lambda>(page, vs). (page, length vs)) pages) jss"
    by (auto simp: list_all2_map1 elim!: list_all2_mono dest: indexes_bound indexes_length)
  from plain_values.decode_pages_ok [OF dec(3) this, of 0] obtain dec' where
    dec': "decode_pages PlainDecoder_Decode 0 dec (map (\<lambda>(page, vs). (page, length vs)) pages) =
      Some (dec', map (\<lambda>js. (map ((!) ms) js, length js, None)) jss)" by blast
  have "list_all2 (\<lambda>(page, vs) (out, k, err). k = length vs \<and> err = None \<and> list_all2 (key_eq hash same) vs out) pages
      (map (\<lambda>js. (map ((!) ms) js, length js, None :: goerr option)) jss)"
    using jss by (auto simp: list_all2_map2 elim!: list_all2_mono dest: indexes_values indexes_length)
  with dec(1,2) dec' show ?thesis by blast
qed

lemma dict_calls_total:
  assumes "dict_calls hash same d pages vals n" "n + length xs < 2 ^ 31" "off + length xs \<le> 8 * length bs"
  shows "typedDictEncoder_Put hash same d xs \<noteq> None" "typedDictEncoder_PutSpaced hash same d xs (Some bs) off \<noteq> None"
    "\<exists>d' buf page. dictEncoder_FlushValues pool d = Some (d', Some buf, None) \<and> Buffer_Bytes buf = Some page"
proof -
  from dict_calls_view [OF assms(1)] obtain ms where ok: "dict_calls_ok hash same d ms pages vals n" by blast
  show "typedDictEncoder_Put hash same d xs \<noteq> None" using calls_put [OF ok assms(2)] by auto
  show "typedDictEncoder_PutSpaced hash same d xs (Some bs) off \<noteq> None" using calls_put_spaced [OF ok assms(2,3)] by auto
  show "\<exists>d' buf page. dictEncoder_FlushValues pool d = Some (d', Some buf, None) \<and> Buffer_Bytes buf = Some page"
    using calls_flush [OF ok, of pool] by blast
qed

lemma dict_calls_more:
  assumes "dict_calls hash same d pages vals n" "n + length xs < 2 ^ 31" "off + length xs \<le> 8 * length bs"
  shows "\<exists>d'. dict_calls hash same d' pages (vals @ xs) (n + length xs)"
    "\<exists>d'. dict_calls hash same d' pages (vals @ valid_values (\<lambda>i. bm_bit bs (off + i)) xs) (n + length xs)"
    "\<exists>d' page. dict_calls hash same d' (pages @ [(page, vals)]) [] n"
  using dict_calls_total [OF assms] dict_put [OF assms(1,2)] dict_put_spaced [OF assms] dict_flush [OF assms(1)] by blast+

end

section \<open>Properties\<close>



text \<open>Nulls survive the dictionary encoding. Where the values \<open>xs\<close> were put with a validity bitmap (\<^verbatim>\<open>PutSpaced\<close>) and flushed as a page of
  their own, \<^verbatim>\<open>DecodeSpaced\<close> with that bitmap and the number of its nulls fills the slots of the output: every valid slot again holds
  the value of \<open>xs\<close> there, and the call returns the number of slots and no error.\<close>

theorem dict_spaced_round_trip:
  fixes xs :: "'a::len word list"
  assumes "dict_calls hash_signed same_int d pages vals n" "8 dvd LENGTH('a)" "requiredBytes TYPE('a) (NumEntries d) \<le> Plain_Decoder.MaxInt32"
    "pd_bitSetReader pd = None" "(page, valid_values (\<lambda>i. bm_bit bs (off + i)) xs) \<in> set pages" "off + length xs \<le> 8 * length bs"
    "nulls + count_bits (\<lambda>i. bm_bit bs (off + i)) (length xs) = length xs" "length out = length xs"
  shows "\<exists>dictPage dec dec1 dec' out'. WriteDict d (replicate (de_dictEncodedSize d) 0) = Some dictPage \<and>
    SetDict 0 (newDictDecoder t) (decoder_SetData pd (NumEntries d) dictPage) (NumEntries d) t = Some dec \<and>
    dictDecoder_SetData dec (length xs) page = (dec1, None) \<and>
    typedDictDecoder_DecodeSpaced PlainDecoder_Decode dec1 out nulls bs off = Some (dec', out', length xs, None) \<and>
    length out' = length xs \<and> (\<forall>i<length xs. bm_bit bs (off + i) \<longrightarrow> out' ! i = xs ! i)"
proof -
  let ?p = "\<lambda>i. bm_bit bs (off + i)" and ?n = "length xs"
  from dict_int.dict_calls_view [OF assms(1)] obtain ms where ok: "dict_calls_ok hash_signed same_int d ms pages vals n" by blast
  from ok assms(2-4) obtain dictPage dec where dec: "WriteDict d (replicate (de_dictEncodedSize d) 0) = Some dictPage"
    "SetDict 0 (newDictDecoder t) (decoder_SetData pd (NumEntries d) dictPage) (NumEntries d) t = Some dec" "dict_ready plain_holds ms dec"
    by (rule dict_int.written_dict)
  from ok assms(5) obtain js where js: "index_page js page" "indexes hash_signed same_int ms js (valid_values ?p xs)"
    by (auto simp: dict_calls_ok_def pages_hold_def list_all_iff)
  from SetData_page [OF dec(3) js(1) indexes_bound [OF js(2)], of ?n] obtain dec1 where
    dec1: "dictDecoder_SetData dec ?n page = (dec1, None)" "dict_dec_view plain_holds ms js dec1" "dec_nvals dec1 = ?n" by blast
  have k: "count_bits ?p (length out) \<le> length js" using indexes_length [OF js(2)] assms(8) by (simp add: length_valid_values)
  from plain_values.DictDecodeSpaced_ok [OF dec1(2) _ _ refl k, of nulls] dec1(3) assms(6-8) obtain dec' out' where
    out': "typedDictDecoder_DecodeSpaced PlainDecoder_Decode dec1 out nulls bs off = Some (dec', out', ?n, None)" "length out' = ?n"
      "\<forall>i<?n. ?p i \<longrightarrow> out' ! i = ms ! (js ! count_bits ?p i)" by auto
  have "out' ! i = xs ! i" if "i < ?n" "?p i" for i
  proof -
    have "count_bits ?p i < length (valid_values ?p xs)" using that by (simp add: length_valid_values count_bits_less)
    then have "ms ! (js ! count_bits ?p i) = valid_values ?p xs ! count_bits ?p i"
      using js(2) by (simp add: indexes_def list_all2_conv_all_nth key_eq_def same_int_def)
    then show ?thesis using out'(3) that nth_valid_values [of ?p i xs] by simp
  qed
  with dec(1,2) dec1(1) out'(1,2) show ?thesis by blast
qed

theorem dict_spaced_round_trip_witness:
  "\<exists>d page dictPage dec dec1 dec' out'. dict_calls hash_signed same_int d [(page, [9, 7 :: 32 word])] [] 3 \<and>
    WriteDict d (replicate (de_dictEncodedSize d) 0) = Some dictPage \<and>
    SetDict 0 (newDictDecoder Int32_type) (decoder_SetData \<lparr>dec_nvals = 0, dec_data = [], pd_bitSetReader = None\<rparr> (NumEntries d) dictPage) (NumEntries d) Int32_type = Some dec \<and>
    dictDecoder_SetData dec 3 page = (dec1, None) \<and>
    typedDictDecoder_DecodeSpaced PlainDecoder_Decode dec1 [0, 0, 0] 1 [0x05] 0 = Some (dec', out', 3, None) \<and>
    out' ! 0 = (9 :: 32 word) \<and> out' ! 2 = 7"
proof -
  let ?calls = "dict_calls hash_signed same_int" and ?pd = "\<lparr>dec_nvals = 0, dec_data = [], pd_bitSetReader = None\<rparr>"
  have bits: "valid_values (\<lambda>i. bm_bit [0x05] (0 + i)) [9, 1, 7 :: 32 word] = [9, 7]"
    "1 + count_bits (\<lambda>i. bm_bit [0x05] (0 + i)) (length [9, 1, 7 :: 32 word]) = length [9, 1, 7 :: 32 word]" by code_simp+
  from dict_int.dict_calls_more(2) [OF dict_new, of "[9, 1, 7 :: 32 word]" 0 "[0x05]", unfolded bits(1)] obtain d1 where
    1: "?calls d1 [] [9, 7 :: 32 word] 3" by (auto simp: numeral_3_eq_3)
  from dict_int.dict_calls_more(3) [OF 1, of "[]" 0 "[]"] obtain d page where
    2: "?calls d [(page, [9, 7 :: 32 word])] [] 3" by auto
  from dict_int.dict_calls_view [OF 2] obtain ms where "dict_calls_ok hash_signed same_int d ms [(page, [9, 7])] [] 3" by blast
  then have "NumEntries d \<le> 3" by (auto simp: dict_calls_ok_def dict_int.NumEntries_eq)
  then have n: "requiredBytes TYPE(32) (NumEntries d) \<le> Plain_Decoder.MaxInt32" by (simp add: requiredBytes_def Plain_Decoder.MaxInt32_def)
  have h: "8 dvd LENGTH(32)" "pd_bitSetReader ?pd = None" "(page, valid_values (\<lambda>i. bm_bit [0x05] (0 + i)) [9, 1, 7 :: 32 word]) \<in> set [(page, [9, 7])]"
    "0 + length [9, 1, 7 :: 32 word] \<le> 8 * length [0x05 :: byte]" "length [0, 0, 0 :: 32 word] = length [9, 1, 7 :: 32 word]"
    unfolding bits(1) by simp_all
  have three: "length [9, 1, 7 :: 32 word] = 3" "bm_bit [0x05] (0 + 0)" "bm_bit [0x05] (0 + 2)" by (simp, code_simp, code_simp)
  from dict_spaced_round_trip [OF 2 h(1) n h(2-4) bits(2) h(5), of Int32_type] obtain dictPage dec dec1 dec' out' where
    "WriteDict d (replicate (de_dictEncodedSize d) 0) = Some dictPage"
    "SetDict 0 (newDictDecoder Int32_type) (decoder_SetData ?pd (NumEntries d) dictPage) (NumEntries d) Int32_type = Some dec"
    "dictDecoder_SetData dec 3 page = (dec1, None)"
    "typedDictDecoder_DecodeSpaced PlainDecoder_Decode dec1 [0, 0, 0 :: 32 word] 1 [0x05] 0 = Some (dec', out', 3, None)"
    and out': "\<forall>i<3. bm_bit [0x05] (0 + i) \<longrightarrow> out' ! i = [9, 1, 7] ! i" unfolding three(1) by blast
  moreover have "out' ! 0 = 9" "out' ! 2 = 7" using out' [rule_format, of 0] out' [rule_format, of 2] three(2,3) by simp_all
  ultimately show ?thesis using 2 by blast
qed

end
