(* ===== verification/Dict_Indices.thy ===== *)
theory Dict_Indices
  imports Dict_Encoder
begin

text \<open>
  \<^verbatim>\<open>PutIndices\<close> of the dictionary encoder (\<^verbatim>\<open>parquet/internal/encoding/encoder.go\<close>): indexes into a dictionary the encoder was given before
  (\<^verbatim>\<open>PutDictionary\<close>), from an Arrow array of any integer type. An array is the integers of its values buffer from the start of the
  buffer on, its validity bitmap, offset, length and number of nulls.
\<close>

section \<open>The source\<close>

text \<open>The integer arrays that \<^verbatim>\<open>PutIndices\<close> takes, by the type of their values, and any other array.\<close>

datatype index_values =
  INT8 "8 word list" | UINT8 "8 word list" | INT16 "16 word list" | UINT16 "16 word list"
| INT32 "32 word list" | UINT32 "32 word list" | INT64 "64 word list" | UINT64 "64 word list" | OTHER_TYPE

record index_array =
  ia_values :: index_values
  ia_nullBitmap :: "byte list option"
  ia_offset :: nat
  ia_len :: nat
  ia_nullN :: nat

definition maxDictionaryIndex :: nat where
  "maxDictionaryIndex = 2 ^ 31 - 1"

definition invalidDictionaryIndex :: goerr where
  "invalidDictionaryIndex = Errorf ''dictionary index %v out of bounds for dictionary of length %d''"

text \<open>The loop of the visitor over the \<open>n\<close> values from \<open>pos\<close> on, with the number of the next slot as part of the state. \<open>val\<close>
  reads a value as an integer, signed or unsigned.\<close>

fun put_index_run ::
  "('v \<Rightarrow> int) \<Rightarrow> nat \<Rightarrow> 'v list \<Rightarrow> nat \<Rightarrow> nat \<Rightarrow> 'a dictEncoder \<times> nat \<Rightarrow> (('a dictEncoder \<times> nat) \<times> goerr option) option" where
  "put_index_run val dictSize vals pos 0 s = Some (s, None)"
| "put_index_run val dictSize vals pos (Suc n) (d, curPos) =
     do { v \<leftarrow> idx vals pos;
          let index = val v;
          if index < 0 \<or> index \<ge> int dictSize \<or> index > int maxDictionaryIndex then Some ((d, curPos), Some invalidDictionaryIndex)
          else do { d \<leftarrow> store_idx d curPos (of_int index);
                    put_index_run val dictSize vals (pos + 1) n (recordDictionaryReference d (of_int index), curPos + 1) } }"

definition put_indices_of ::
  "('v \<Rightarrow> int) \<Rightarrow> 'a dictEncoder \<Rightarrow> index_array \<Rightarrow> 'v list \<Rightarrow> nat \<Rightarrow> ('a dictEncoder \<times> goerr option) option" where
  "put_indices_of val d data vals start =
     do { ((d, _), err) \<leftarrow> VisitSetBitRuns (ia_nullBitmap data) (ia_offset data) (ia_len data)
            (\<lambda>pos len. put_index_run val (NumEntries d) vals pos len) (d, start);
          Some (d, err) }"

definition putSignedDictionaryIndices ::
  "'a dictEncoder \<Rightarrow> index_array \<Rightarrow> 'v::len word list \<Rightarrow> nat \<Rightarrow> ('a dictEncoder \<times> goerr option) option" where
  "putSignedDictionaryIndices = put_indices_of sint"

definition putUnsignedDictionaryIndices ::
  "'a dictEncoder \<Rightarrow> index_array \<Rightarrow> 'v::len word list \<Rightarrow> nat \<Rightarrow> ('a dictEncoder \<times> goerr option) option" where
  "putUnsignedDictionaryIndices = put_indices_of uint"

text \<open>\<^verbatim>\<open>referencedBitmap[index>>3] &^= 1 << (index&7)\<close> for a list of indexes.\<close>

fun clear_references :: "byte list \<Rightarrow> 32 word list \<Rightarrow> byte list option" where
  "clear_references bm [] = Some bm"
| "clear_references bm (i # is') =
     (if sint i < 0 then None
      else do { b \<leftarrow> idx bm (nat (sint i) div 8);
                bm \<leftarrow> upd bm (nat (sint i) div 8) (b AND NOT (push_bit (nat (sint i) mod 8) 1));
                clear_references bm is' })"

definition rollbackDictionaryReferences :: "'a dictEncoder \<Rightarrow> nat \<Rightarrow> nat \<Rightarrow> 'a dictEncoder option" where
  "rollbackDictionaryReferences d start bitmapLen =
     do { added \<leftarrow> slice_from (de_referencedIndices d) start;
          bm \<leftarrow> clear_references (de_referencedBitmap d) added;
          refs \<leftarrow> slice (de_referencedIndices d) 0 start;
          bm \<leftarrow> slice bm 0 bitmapLen;
          Some (d\<lparr>de_referencedIndices := refs, de_referencedBitmap := bm\<rparr>) }"

definition put_index_values :: "'a dictEncoder \<Rightarrow> index_array \<Rightarrow> nat \<Rightarrow> ('a dictEncoder \<times> goerr option) option" where
  "put_index_values d data curPos =
     (let off = ia_offset data
      in case ia_values data of
           INT8 vs \<Rightarrow> do { vs \<leftarrow> slice_from vs off; putSignedDictionaryIndices d data vs curPos }
         | UINT8 vs \<Rightarrow> do { vs \<leftarrow> slice_from vs off; putUnsignedDictionaryIndices d data vs curPos }
         | INT16 vs \<Rightarrow> do { vs \<leftarrow> slice_from vs off; putSignedDictionaryIndices d data vs curPos }
         | UINT16 vs \<Rightarrow> do { vs \<leftarrow> slice_from vs off; putUnsignedDictionaryIndices d data vs curPos }
         | INT32 vs \<Rightarrow> do { vs \<leftarrow> slice_from vs off; putSignedDictionaryIndices d data vs curPos }
         | UINT32 vs \<Rightarrow> do { vs \<leftarrow> slice_from vs off; putUnsignedDictionaryIndices d data vs curPos }
         | INT64 vs \<Rightarrow> do { vs \<leftarrow> slice_from vs off; putSignedDictionaryIndices d data vs curPos }
         | UINT64 vs \<Rightarrow> do { vs \<leftarrow> slice_from vs off; putUnsignedDictionaryIndices d data vs curPos }
         | OTHER_TYPE \<Rightarrow> Some (d, None))"

definition PutIndices :: "'a dictEncoder \<Rightarrow> index_array \<Rightarrow> ('a dictEncoder \<times> goerr option) option" where
  "PutIndices d data =
     (if ia_values data = OTHER_TYPE then Some (d, Some (Errorf ''passed non-integer array to PutIndices''))
      else do { let curPos = de_idxLen d;
                let newLen = int (ia_len data) - int (ia_nullN data) + int curPos;
                d \<leftarrow> (if newLen < 0 then None else reslice_idx (expandBuffer d (nat newLen)) (nat newLen));
                let referenceStart = length (de_referencedIndices d);
                let bitmapLen = length (de_referencedBitmap d);
                (d, err) \<leftarrow> put_index_values d data curPos;
                if err \<noteq> None
                then do { d \<leftarrow> reslice_idx d curPos;
                          d \<leftarrow> rollbackDictionaryReferences d referenceStart bitmapLen;
                          Some (d, err) }
                else Some (d, None) })"

section \<open>The valid values of an array\<close>

fun index_ints :: "index_values \<Rightarrow> int list" where
  "index_ints (INT8 vs) = map sint vs"
| "index_ints (UINT8 vs) = map uint vs"
| "index_ints (INT16 vs) = map sint vs"
| "index_ints (UINT16 vs) = map uint vs"
| "index_ints (INT32 vs) = map sint vs"
| "index_ints (UINT32 vs) = map uint vs"
| "index_ints (INT64 vs) = map sint vs"
| "index_ints (UINT64 vs) = map uint vs"
| "index_ints OTHER_TYPE = []"

definition array_indexes :: "index_array \<Rightarrow> int list" where
  "array_indexes data =
     (let xs = take (ia_len data) (drop (ia_offset data) (index_ints (ia_values data)))
      in case ia_nullBitmap data of None \<Rightarrow> xs | Some bs \<Rightarrow> valid_values (\<lambda>i. bm_bit bs (ia_offset data + i)) xs)"

definition array_ok :: "index_array \<Rightarrow> bool" where
  "array_ok data \<longleftrightarrow> ia_values data \<noteq> OTHER_TYPE \<and> ia_offset data + ia_len data \<le> length (index_ints (ia_values data)) \<and>
     (case ia_nullBitmap data of
        None \<Rightarrow> ia_nullN data = 0
      | Some bs \<Rightarrow> ia_offset data + ia_len data \<le> 8 * length bs \<and>
          ia_nullN data + popcount bs (ia_offset data) (ia_len data) = ia_len data)"

definition index_ok :: "nat \<Rightarrow> int \<Rightarrow> bool" where
  "index_ok dictSize i \<longleftrightarrow> 0 \<le> i \<and> i < int dictSize \<and> i \<le> int maxDictionaryIndex"

text \<open>The loop of the visitor over a list of integers.\<close>

fun put_ints :: "nat \<Rightarrow> int list \<Rightarrow> 'a dictEncoder \<times> nat \<Rightarrow> (('a dictEncoder \<times> nat) \<times> goerr option) option" where
  "put_ints dictSize [] s = Some (s, None)"
| "put_ints dictSize (i # ints) (d, c) =
     (if index_ok dictSize i then do { d \<leftarrow> store_idx d c (of_int i); put_ints dictSize ints (recordDictionaryReference d (of_int i), c + 1) }
      else Some ((d, c), Some invalidDictionaryIndex))"

lemma put_index_run_ints:
  "pos + n \<le> length vals \<Longrightarrow> put_index_run val dictSize vals pos n s = put_ints dictSize (map val (take n (drop pos vals))) s"
proof (induction val dictSize vals pos n s rule: put_index_run.induct)
  case (2 val dictSize vals pos n d c)
  then have "take (Suc n) (drop pos vals) = vals ! pos # take n (drop (Suc pos) vals)"
    by (simp add: Cons_nth_drop_Suc [symmetric])
  then show ?case using 2 by (auto simp: idx_def index_ok_def split: Option.bind_splits)
qed simp

lemma put_ints_append:
  "put_ints dictSize (xs @ ys) s =
    (case put_ints dictSize xs s of None \<Rightarrow> None | Some (s', Some e) \<Rightarrow> Some (s', Some e) | Some (s', None) \<Rightarrow> put_ints dictSize ys s')"
  by (induction dictSize xs s rule: put_ints.induct) (auto split: Option.bind_split)

lemma visit_runs_ints:
  assumes "list_all (\<lambda>run. sbr_Pos run + sbr_Length run \<le> length vals) runs"
  shows "visit_runs (put_index_run val dictSize vals) runs s = put_ints dictSize (map val (concat (map (run_values_of vals) runs))) s"
  using assms by (induction runs arbitrary: s) (auto simp: put_index_run_ints put_ints_append split: option.split)

lemma bind_state: "do { ((d, c), err) \<leftarrow> r; Some (d, err) } = map_option (\<lambda>((d, c), err). (d, err)) r"
  by (cases r) auto

lemma put_indices_of_ints:
  assumes "off + n \<le> length vs" "case bitmap of None \<Rightarrow> True | Some bs \<Rightarrow> off + n \<le> 8 * length bs"
    "ia_nullBitmap data = bitmap" "ia_offset data = off" "ia_len data = n"
  shows "put_indices_of val d data (drop off vs) start = map_option (\<lambda>((d, _), err). (d, err))
    (put_ints (NumEntries d) (let xs = take n (drop off (map val vs)) in case bitmap of None \<Rightarrow> xs | Some bs \<Rightarrow> valid_values (\<lambda>i. bm_bit bs (off + i)) xs) (d, start))"
proof -
  have "VisitSetBitRuns bitmap off n (put_index_run val (NumEntries d) (drop off vs)) (d, start) =
    put_ints (NumEntries d) (let xs = take n (drop off (map val vs)) in case bitmap of None \<Rightarrow> xs | Some bs \<Rightarrow> valid_values (\<lambda>i. bm_bit bs (off + i)) xs) (d, start)"
  proof (cases bitmap)
    case None
    then show ?thesis using assms(1) by (simp add: VisitSetBitRuns_def put_index_run_ints take_map drop_map)
  next
    case (Some bs)
    let ?p = "\<lambda>i. bm_bit bs (off + i)" and ?xs = "take n (drop off vs)"
    have n: "length ?xs = n" using assms(1) by simp
    obtain runs where runs: "are_set_runs ?p n runs" using set_runs_exist by blast
    then have in_range: "list_all (\<lambda>run. sbr_Pos run + sbr_Length run \<le> length (drop off vs)) runs"
      using assms(1) by (auto simp: are_set_runs_def list_all_iff)
    have eq: "map (run_values_of (drop off vs)) runs = map (run_values_of ?xs) runs"
      using runs by (auto simp: are_set_runs_def list_all_iff take_drop min_def)
    have "concat (map (run_values_of ?xs) runs) = valid_values ?p ?xs" by (rule set_runs_values) (simp only: n runs)
    then have "map val (concat (map (run_values_of (drop off vs)) runs)) = map val (valid_values ?p ?xs)" by (simp only: eq)
    moreover have "map val (valid_values ?p ?xs) = valid_values ?p (take n (drop off (map val vs)))"
      using assms(1) by (auto simp: valid_values_def)
    moreover have b: "off + n \<le> 8 * length bs" using assms(2) Some by simp
    ultimately show ?thesis unfolding Some VisitSetBitRuns_eq [OF b runs] visit_runs_ints [OF in_range] by simp
  qed
  then show ?thesis unfolding put_indices_of_def assms(3-5) bind_state by simp
qed

lemma put_index_values_ints:
  assumes "array_ok data"
  shows "put_index_values d data start = map_option (\<lambda>((d, _), err). (d, err)) (put_ints (NumEntries d) (array_indexes data) (d, start))"
proof -
  have bm: "case ia_nullBitmap data of None \<Rightarrow> True | Some bs \<Rightarrow> ia_offset data + ia_len data \<le> 8 * length bs"
    using assms by (auto simp: array_ok_def split: option.splits)
  note put = put_indices_of_ints [OF _ bm refl refl refl]
  show ?thesis using assms
    by (cases "ia_values data")
      (simp_all add: array_ok_def put_index_values_def slice_from_def putSignedDictionaryIndices_def putUnsignedDictionaryIndices_def put array_indexes_def Let_def)
qed

section \<open>References\<close>

text \<open>From \<open>d\<close> to \<open>d'\<close> references were added, each once and none that was there; \<open>new\<close> are the new ones.\<close>

definition refs_grow :: "'a dictEncoder \<Rightarrow> 'a dictEncoder \<Rightarrow> 32 word list \<Rightarrow> bool" where
  "refs_grow d d' new \<longleftrightarrow> de_referencedIndices d' = de_referencedIndices d @ new \<and> length (de_referencedBitmap d) \<le> length (de_referencedBitmap d') \<and>
     list_all (\<lambda>j. 0 \<le> sint j \<and> \<not> bm_bit (de_referencedBitmap d) (nat (sint j)) \<and> nat (sint j) < 8 * length (de_referencedBitmap d')) new \<and>
     (\<forall>i. bm_bit (de_referencedBitmap d') i \<longleftrightarrow> bm_bit (de_referencedBitmap d) i \<or> i \<in> (\<lambda>j. nat (sint j)) ` set new)"

lemma refs_grow_refl: "de_referencedIndices d' = de_referencedIndices d \<Longrightarrow> de_referencedBitmap d' = de_referencedBitmap d \<Longrightarrow> refs_grow d d' []"
  by (simp add: refs_grow_def)

lemma refs_grow_trans: "refs_grow a b xs \<Longrightarrow> refs_grow b c ys \<Longrightarrow> refs_grow a c (xs @ ys)"
  by (fastforce simp: refs_grow_def list_all_iff)

lemma byte_mask_0: "(b :: byte) AND push_bit k 1 = 0 \<longleftrightarrow> \<not> bit b k" if "k < 8"
  using that by (simp add: and_exp_eq_0 push_bit_eq_mult)

lemma nat_eq_div_mod8: "j = n \<longleftrightarrow> j div 8 = n div 8 \<and> j mod 8 = n mod 8" for j n :: nat
  by (metis div_mult_mod_eq)

lemma bm_or_mask: "n div 8 < length bs \<Longrightarrow> bm_bit (bs[n div 8 := bs ! (n div 8) OR push_bit (n mod 8) 1]) j \<longleftrightarrow> bm_bit bs j \<or> j = n"
  by (auto simp: bm_bit_def bit_simps nth_list_update nat_eq_div_mod8 [of j n])

lemma bm_and_not_mask:
  "n div 8 < length bs \<Longrightarrow> bm_bit (bs[n div 8 := bs ! (n div 8) AND NOT (push_bit (n mod 8) 1)]) j \<longleftrightarrow> bm_bit bs j \<and> j \<noteq> n"
  by (auto simp: bm_bit_def bit_simps nth_list_update nat_eq_div_mod8 [of j n])

lemma record_grow:
  assumes "0 \<le> sint i"
  shows "\<exists>new bm refs. recordDictionaryReference d i = d\<lparr>de_referencedBitmap := bm, de_referencedIndices := refs\<rparr> \<and>
    refs_grow d (recordDictionaryReference d i) new \<and>
    (de_trackReferences d \<longrightarrow> (\<forall>j. bm_bit bm j \<longleftrightarrow> bm_bit (de_referencedBitmap d) j \<or> j = nat (sint i)))"
proof (cases "de_trackReferences d")
  case False
  then show ?thesis by (intro exI [of _ "[]"] exI [of _ "de_referencedBitmap d"] exI [of _ "de_referencedIndices d"])
    (simp add: recordDictionaryReference_def refs_grow_refl)
next
  case True
  let ?n = "nat (sint i)" and ?bm0 = "de_referencedBitmap d"
  define bm where "bm = (if ?n div 8 \<ge> length ?bm0 then ?bm0 @ replicate (?n div 8 - length ?bm0 + 1) 0 else ?bm0)"
  have len: "?n div 8 < length bm" "length ?bm0 \<le> length bm" by (auto simp: bm_def)
  have bits: "bm_bit bm j = bm_bit ?bm0 j" for j by (auto simp: bm_def bm_bit_append bm_bit_replicate bm_bit_beyond simp del: replicate_Suc)
  have mask: "(bm ! (?n div 8)) AND push_bit (?n mod 8) 1 = 0 \<longleftrightarrow> \<not> bm_bit ?bm0 ?n"
    unfolding bits [symmetric] using len(1) byte_mask_0 [of "?n mod 8" "bm ! (?n div 8)"] by (simp add: bm_bit_def)
  show ?thesis
  proof (cases "bm_bit ?bm0 ?n")
    case False
    let ?bm' = "bm[?n div 8 := bm ! (?n div 8) OR push_bit (?n mod 8) 1]" and ?refs = "de_referencedIndices d @ [i]"
    have eq: "recordDictionaryReference d i = d\<lparr>de_referencedBitmap := ?bm', de_referencedIndices := ?refs\<rparr>"
      using True assms False mask by (simp add: recordDictionaryReference_def Let_def flip: bm_def)
    have set: "bm_bit ?bm' j \<longleftrightarrow> bm_bit ?bm0 j \<or> j = ?n" for j
      using bm_or_mask [OF len(1)] bits by simp
    show ?thesis
      by (intro exI [of _ "[i]"] exI [of _ ?bm'] exI [of _ ?refs])
        (use False len set assms in \<open>auto simp: eq refs_grow_def div8_less_iff\<close>)
  next
    case in_bm: True
    then have "recordDictionaryReference d i = d\<lparr>de_referencedBitmap := bm, de_referencedIndices := de_referencedIndices d\<rparr>"
      using True assms mask by (simp add: recordDictionaryReference_def Let_def flip: bm_def)
    then show ?thesis
      by (intro exI [of _ "[]"] exI [of _ bm] exI [of _ "de_referencedIndices d"]) (use in_bm len bits in \<open>auto simp: refs_grow_def\<close>)
  qed
qed

lemma clear_references_ok:
  assumes "list_all (\<lambda>j. 0 \<le> sint j \<and> nat (sint j) < 8 * length bm) js"
  shows "\<exists>bm'. clear_references bm js = Some bm' \<and> length bm' = length bm \<and> (\<forall>i. bm_bit bm' i \<longleftrightarrow> bm_bit bm i \<and> i \<notin> (\<lambda>j. nat (sint j)) ` set js)"
  using assms
proof (induction js arbitrary: bm)
  case (Cons j js)
  let ?n = "nat (sint j)"
  let ?bm = "bm[?n div 8 := bm ! (?n div 8) AND NOT (push_bit (?n mod 8) 1)]"
  have n: "0 \<le> sint j" "?n div 8 < length bm" using Cons.prems by (simp_all add: div8_less_iff)
  from Cons.IH [of ?bm] Cons.prems obtain bm' where
    bm': "clear_references ?bm js = Some bm'" "length bm' = length bm" "\<forall>i. bm_bit bm' i \<longleftrightarrow> bm_bit ?bm i \<and> i \<notin> (\<lambda>j. nat (sint j)) ` set js" by auto
  then show ?case using n bm_and_not_mask [OF n(2)] by (simp add: idx_def upd_def)
qed simp

lemma rollback_ok:
  assumes "refs_grow d d' new"
  shows "rollbackDictionaryReferences d' (length (de_referencedIndices d)) (length (de_referencedBitmap d)) =
    Some (d'\<lparr>de_referencedIndices := de_referencedIndices d, de_referencedBitmap := de_referencedBitmap d\<rparr>)"
proof -
  have g: "de_referencedIndices d' = de_referencedIndices d @ new" "length (de_referencedBitmap d) \<le> length (de_referencedBitmap d')"
    "list_all (\<lambda>j. 0 \<le> sint j \<and> \<not> bm_bit (de_referencedBitmap d) (nat (sint j)) \<and> nat (sint j) < 8 * length (de_referencedBitmap d')) new"
    "bm_bit (de_referencedBitmap d') i \<longleftrightarrow> bm_bit (de_referencedBitmap d) i \<or> i \<in> (\<lambda>j. nat (sint j)) ` set new" for i
    using assms unfolding refs_grow_def by blast+
  from clear_references_ok [of "de_referencedBitmap d'" new] g(3) obtain bm where
    bm: "clear_references (de_referencedBitmap d') new = Some bm" "length bm = length (de_referencedBitmap d')"
      "\<And>i. bm_bit bm i \<longleftrightarrow> bm_bit (de_referencedBitmap d') i \<and> i \<notin> (\<lambda>j. nat (sint j)) ` set new" by (auto simp: list_all_iff)
  have "bm_bit bm i = bm_bit (de_referencedBitmap d) i" for i unfolding bm(3) g(4) using g(3) by (auto simp: list_all_iff)
  then have "take (length (de_referencedBitmap d)) bm = de_referencedBitmap d"
    using bm(2) g(2) by (intro bm_eqI) (simp_all add: bm_simps)
  then show ?thesis using bm(1,2) g(1,2) by (simp add: rollbackDictionaryReferences_def slice_from_def slice_def)
qed

section \<open>The loop\<close>

text \<open>What the loop may change, and that it keeps the slots before \<open>c\<close>.\<close>

definition put_frame :: "nat \<Rightarrow> 'a dictEncoder \<Rightarrow> 'a dictEncoder \<Rightarrow> bool" where
  "put_frame c d d' \<longleftrightarrow> (\<exists>buf bm refs. d' = d\<lparr>de_idxBuffer := buf, de_referencedBitmap := bm, de_referencedIndices := refs\<rparr>) \<and>
     idx_ok d' \<and> take c (idxValues d') = take c (idxValues d) \<and> (\<exists>new. refs_grow d d' new)"

lemma put_frameI:
  assumes "d' = d\<lparr>de_idxBuffer := buf, de_referencedBitmap := bm, de_referencedIndices := refs\<rparr>" "idx_ok d'"
    "take c (idxValues d') = take c (idxValues d)" "refs_grow d d' new"
  shows "put_frame c d d'"
  unfolding put_frame_def using assms by blast

lemma put_frame_refl:
  assumes "idx_ok d"
  shows "put_frame c d d"
proof -
  have "d = d\<lparr>de_idxBuffer := de_idxBuffer d, de_referencedBitmap := de_referencedBitmap d, de_referencedIndices := de_referencedIndices d\<rparr>" by simp
  then show ?thesis unfolding put_frame_def using assms refs_grow_refl [of d d] by blast
qed

lemma put_frame_trans:
  assumes "put_frame c a b" "put_frame c' b d" "c \<le> c'"
  shows "put_frame c a d"
proof -
  from assms(1) obtain buf bm refs new where 1: "b = a\<lparr>de_idxBuffer := buf, de_referencedBitmap := bm, de_referencedIndices := refs\<rparr>"
    "take c (idxValues b) = take c (idxValues a)" "refs_grow a b new" unfolding put_frame_def by blast
  from assms(2) obtain buf' bm' refs' new' where 2: "d = b\<lparr>de_idxBuffer := buf', de_referencedBitmap := bm', de_referencedIndices := refs'\<rparr>"
    "idx_ok d" "take c' (idxValues d) = take c' (idxValues b)" "refs_grow b d new'" unfolding put_frame_def by blast
  have "take c (take c' (idxValues d)) = take c (take c' (idxValues b))" by (simp only: 2(3))
  then have "take c (idxValues d) = take c (idxValues a)" using 1(2) assms(3) by (simp add: min_def)
  moreover have "d = a\<lparr>de_idxBuffer := buf', de_referencedBitmap := bm', de_referencedIndices := refs'\<rparr>" by (simp add: 1(1) 2(1))
  ultimately show ?thesis unfolding put_frame_def using 2(2) refs_grow_trans [OF 1(3) 2(4)] by blast
qed

lemma put_frame_same:
  assumes "put_frame c d d'"
  shows "idx_ok d'" "de_idxLen d' = de_idxLen d" "de_trackReferences d' = de_trackReferences d" "de_memo d' = de_memo d"
proof -
  from assms obtain buf bm refs where "d' = d\<lparr>de_idxBuffer := buf, de_referencedBitmap := bm, de_referencedIndices := refs\<rparr>" "idx_ok d'"
    unfolding put_frame_def by blast
  then show "idx_ok d'" "de_idxLen d' = de_idxLen d" "de_trackReferences d' = de_trackReferences d" "de_memo d' = de_memo d" by simp_all
qed

lemma blit_Cons:
  assumes "c < length xs"
  shows "blit (xs[c := y]) (Suc c) ys = blit xs c (y # ys)"
proof -
  have "length xs - c = Suc (length xs - Suc c)" using assms by simp
  then show ?thesis using assms by (simp add: blit_def take_Suc_conv_app_nth list_update_append)
qed

lemma put_one:
  assumes "idx_ok d" "c < de_idxLen d" "index_ok dictSize i"
  shows "\<exists>d1 d2. store_idx d c (of_int i) = Some d1 \<and> d2 = recordDictionaryReference d1 (of_int i) \<and> put_frame c d d2 \<and>
    idxValues d2 = (idxValues d)[c := of_int i] \<and>
    (de_trackReferences d \<longrightarrow> (\<forall>j. bm_bit (de_referencedBitmap d2) j \<longleftrightarrow> bm_bit (de_referencedBitmap d) j \<or> int j = i))"
proof -
  have i: "sint (of_int i :: 32 word) = i" "0 \<le> i"
    using assms(3) by (simp_all add: index_ok_def maxDictionaryIndex_def signed_of_int signed_take_bit_int_eq_self)
  from store_idx_ok [OF assms(1,2), of "of_int i"] obtain buf where
    d1: "store_idx d c (of_int i) = Some (d\<lparr>de_idxBuffer := buf\<rparr>)" "idx_ok (d\<lparr>de_idxBuffer := buf\<rparr>)"
      "idxValues (d\<lparr>de_idxBuffer := buf\<rparr>) = (idxValues d)[c := of_int i]" by blast
  let ?d1 = "d\<lparr>de_idxBuffer := buf\<rparr>"
  from record_grow [of "of_int i" ?d1] i obtain new bm refs where
    r: "recordDictionaryReference ?d1 (of_int i) = ?d1\<lparr>de_referencedBitmap := bm, de_referencedIndices := refs\<rparr>"
      "refs_grow ?d1 (recordDictionaryReference ?d1 (of_int i)) new"
      "de_trackReferences ?d1 \<longrightarrow> (\<forall>j. bm_bit bm j \<longleftrightarrow> bm_bit (de_referencedBitmap ?d1) j \<or> j = nat i)" by auto
  have nat_i: "j = nat i \<longleftrightarrow> int j = i" for j using i(2) by auto
  let ?d2 = "d\<lparr>de_idxBuffer := buf, de_referencedBitmap := bm, de_referencedIndices := refs\<rparr>"
  have d2: "recordDictionaryReference ?d1 (of_int i) = ?d2" using r(1) by simp
  have idx: "idx_ok ?d2" "idxValues ?d2 = (idxValues d)[c := of_int i]" using d1(2,3) by (simp_all add: idx_ok_def idxValues_def)
  have "refs_grow d ?d2 new" using r(2) unfolding d2 by (simp add: refs_grow_def)
  then have "put_frame c d ?d2" by (rule put_frameI [OF refl idx(1), rotated]) (simp add: idx(2))
  moreover have "de_trackReferences d \<longrightarrow> (\<forall>j. bm_bit bm j \<longleftrightarrow> bm_bit (de_referencedBitmap d) j \<or> int j = i)"
    using r(3) unfolding nat_i by simp
  ultimately show ?thesis using d1(1) idx(2) unfolding d2 [symmetric] by (intro exI [of _ ?d1] exI [of _ "recordDictionaryReference ?d1 (of_int i)"]) (simp add: r(1))
qed

text \<open>The loop stores all the indexes, or stops at the first that is out of bounds.\<close>

lemma put_ints_all:
  assumes "idx_ok d" "c + length ints \<le> de_idxLen d" "list_all (index_ok dictSize) ints"
  shows "\<exists>d'. put_ints dictSize ints (d, c) = Some ((d', c + length ints), None) \<and> put_frame c d d' \<and>
      idxValues d' = blit (idxValues d) c (map of_int ints) \<and>
      (de_trackReferences d \<longrightarrow> (\<forall>j. bm_bit (de_referencedBitmap d') j \<longleftrightarrow> bm_bit (de_referencedBitmap d) j \<or> int j \<in> set ints))"
  using assms
proof (induction ints arbitrary: d c)
  case Nil
  then show ?case using put_frame_refl [of d c] by (simp add: blit_def)
next
  case (Cons i ints)
  from Cons.prems(3) have i: "index_ok dictSize i" and rest: "list_all (index_ok dictSize) ints" by simp_all
  have c: "c < de_idxLen d" using Cons.prems(2) by simp
  from put_one [OF Cons.prems(1) c i] obtain d1 d2 where
    1: "store_idx d c (of_int i) = Some d1" "d2 = recordDictionaryReference d1 (of_int i)" and f: "put_frame c d d2"
      "idxValues d2 = (idxValues d)[c := of_int i]"
      "de_trackReferences d \<longrightarrow> (\<forall>j. bm_bit (de_referencedBitmap d2) j \<longleftrightarrow> bm_bit (de_referencedBitmap d) j \<or> int j = i)" by blast
  note same = put_frame_same [OF f(1)]
  have "c + 1 + length ints \<le> de_idxLen d2" using Cons.prems(2) same(2) by simp
  from Cons.IH [OF same(1) this rest] obtain d' where
    d': "put_ints dictSize ints (d2, c + 1) = Some ((d', c + 1 + length ints), None)" "put_frame (c + 1) d2 d'"
      "idxValues d' = blit (idxValues d2) (c + 1) (map of_int ints)"
      "de_trackReferences d2 \<longrightarrow> (\<forall>j. bm_bit (de_referencedBitmap d') j \<longleftrightarrow> bm_bit (de_referencedBitmap d2) j \<or> int j \<in> set ints)" by blast
  have "put_ints dictSize (i # ints) (d, c) = Some ((d', c + length (i # ints)), None)" using i 1 d'(1) by simp
  moreover have "put_frame c d d'" by (rule put_frame_trans [OF f(1) d'(2)]) simp
  moreover have "idxValues d' = blit (idxValues d) c (map of_int (i # ints))"
    using blit_Cons [of c "idxValues d"] c by (simp add: d'(3) f(2) length_idxValues [OF Cons.prems(1)])
  moreover have "de_trackReferences d \<longrightarrow> (\<forall>j. bm_bit (de_referencedBitmap d') j \<longleftrightarrow> bm_bit (de_referencedBitmap d) j \<or> int j \<in> set (i # ints))"
    using d'(4) f(3) same(3) by simp
  ultimately show ?case by blast
qed

lemma put_ints_bad:
  assumes "idx_ok d" "c + length ints \<le> de_idxLen d" "\<not> list_all (index_ok dictSize) ints"
  shows "\<exists>d' c'. put_ints dictSize ints (d, c) = Some ((d', c'), Some invalidDictionaryIndex) \<and> put_frame c d d'"
  using assms
proof (induction ints arbitrary: d c)
  case (Cons i ints)
  show ?case
  proof (cases "index_ok dictSize i")
    case False
    then have "put_ints dictSize (i # ints) (d, c) = Some ((d, c), Some invalidDictionaryIndex)" by simp
    then show ?thesis using put_frame_refl [OF Cons.prems(1)] by blast
  next
    case True
    then have rest: "\<not> list_all (index_ok dictSize) ints" using Cons.prems(3) by simp
    have c: "c < de_idxLen d" using Cons.prems(2) by simp
    from put_one [OF Cons.prems(1) c True] obtain d1 d2 where
      1: "store_idx d c (of_int i) = Some d1" "d2 = recordDictionaryReference d1 (of_int i)" and f: "put_frame c d d2" by blast
    note same = put_frame_same [OF f(1)]
    have "c + 1 + length ints \<le> de_idxLen d2" using Cons.prems(2) same(2) by simp
    from Cons.IH [OF same(1) this rest] obtain d' c' where
      d': "put_ints dictSize ints (d2, c + 1) = Some ((d', c'), Some invalidDictionaryIndex)" "put_frame (c + 1) d2 d'" by blast
    have "put_ints dictSize (i # ints) (d, c) = Some ((d', c'), Some invalidDictionaryIndex)" using True 1 d'(1) by simp
    moreover have "put_frame c d d'" by (rule put_frame_trans [OF f d'(2)]) simp
    ultimately show ?thesis by blast
  qed
qed simp

lemma array_count: "array_ok data \<Longrightarrow> ia_nullN data + length (array_indexes data) = ia_len data"
  by (auto simp: array_ok_def array_indexes_def Let_def length_valid_values popcount_count_bits split: option.splits)

lemma referenced_bit: "DictionaryIndexReferenced d i \<longleftrightarrow> 0 \<le> i \<and> bm_bit (de_referencedBitmap d) (nat i)"
proof (cases "0 \<le> i")
  case True
  have nat: "nat (i div 8) = nat i div 8" "nat (i mod 8) = nat i mod 8" by (simp_all add: nat_div_distrib nat_mod_distrib True)
  have mask: "(b :: byte) AND push_bit (nat i mod 8) 1 \<noteq> 0 \<longleftrightarrow> bit b (nat i mod 8)" for b using byte_mask_0 [of "nat i mod 8" b] by simp
  have "(if i < 0 \<or> L \<le> k then False else b) \<longleftrightarrow> 0 \<le> i \<and> k < L \<and> b" for L k :: nat and b using True by auto
  then show ?thesis unfolding DictionaryIndexReferenced_def bm_bit_def nat mask by blast
qed (simp add: DictionaryIndexReferenced_def)

text \<open>The slots made for the new indexes.\<close>

lemma new_slots:
  assumes "idx_ok d" "de_idxLen d + n \<le> 2 ^ 60"
  obtains buf cap where "reslice_idx (expandBuffer d (de_idxLen d + n)) (de_idxLen d + n) =
      Some (d\<lparr>de_idxBuffer := buf, de_idxCap := cap, de_idxLen := de_idxLen d + n\<rparr>)"
    "idx_ok (d\<lparr>de_idxBuffer := buf, de_idxCap := cap, de_idxLen := de_idxLen d + n\<rparr>)"
    "take (de_idxLen d) (idxValues (d\<lparr>de_idxBuffer := buf, de_idxCap := cap, de_idxLen := de_idxLen d + n\<rparr>)) = idxValues d"
proof -
  from expandBuffer_ok [OF assms] obtain buf cap where
    e: "expandBuffer d (de_idxLen d + n) = d\<lparr>de_idxBuffer := buf, de_idxCap := cap\<rparr>" "de_idxLen d + n \<le> cap"
      "idx_ok (expandBuffer d (de_idxLen d + n))" "idxValues (expandBuffer d (de_idxLen d + n)) = idxValues d" by blast
  have "idx_ok (d\<lparr>de_idxBuffer := buf, de_idxCap := cap, de_idxLen := de_idxLen d + n\<rparr>)" using e(2,3) unfolding e(1) by (simp add: idx_ok_def)
  moreover have "take (de_idxLen d) (idxValues (d\<lparr>de_idxBuffer := buf, de_idxCap := cap, de_idxLen := de_idxLen d + n\<rparr>)) = idxValues d"
    using e(4) unfolding e(1) by (simp add: idxValues_def min_def)
  ultimately show ?thesis using e(1,2) by (intro that [of cap buf]) (simp_all add: reslice_idx_def)
qed

section \<open>Properties\<close>

text \<open>C8: \<^verbatim>\<open>PutIndices\<close> is all or nothing. For an array of any of the eight integer types whose null count agrees with its bitmap, the call
  returns. If the values of the valid slots all lie in the dictionary, exactly these are appended to the indexes of the page, in order,
  the dictionary is as it was, and the indexes it references are the ones referenced before and these (where references are tracked).
  Otherwise it reports an invalid index and leaves the indexes, the list of references and their bitmap as they were, however many of
  the values were stored and recorded before the invalid one.\<close>

theorem PutIndices_all_or_nothing:
  assumes "idx_ok d" "array_ok data" "de_idxLen d + ia_len data \<le> 2 ^ 60"
  shows "if list_all (index_ok (NumEntries d)) (array_indexes data)
    then \<exists>d'. PutIndices d data = Some (d', None) \<and> idx_ok d' \<and> idxValues d' = idxValues d @ map of_int (array_indexes data) \<and> de_memo d' = de_memo d \<and>
      (de_trackReferences d \<longrightarrow> (\<forall>i. DictionaryIndexReferenced d' i \<longleftrightarrow> DictionaryIndexReferenced d i \<or> i \<in> set (array_indexes data)))
    else \<exists>d' buf cap. PutIndices d data = Some (d', Some invalidDictionaryIndex) \<and> d' = d\<lparr>de_idxBuffer := buf, de_idxCap := cap\<rparr> \<and>
      idx_ok d' \<and> idxValues d' = idxValues d"
proof -
  let ?is = "array_indexes data" and ?c = "de_idxLen d"
  have n: "ia_nullN data + length ?is = ia_len data" by (rule array_count [OF assms(2)])
  define m where "m = ?c + length ?is"
  have newLen: "int (ia_len data) - int (ia_nullN data) + int ?c = int m" using n by (simp add: m_def)
  have bound: "?c + length ?is \<le> 2 ^ 60" using assms(3) n by simp
  from new_slots [OF assms(1) bound] obtain buf cap where "reslice_idx (expandBuffer d m) m = Some (d\<lparr>de_idxBuffer := buf, de_idxCap := cap, de_idxLen := m\<rparr>)"
    "idx_ok (d\<lparr>de_idxBuffer := buf, de_idxCap := cap, de_idxLen := m\<rparr>)"
    "take ?c (idxValues (d\<lparr>de_idxBuffer := buf, de_idxCap := cap, de_idxLen := m\<rparr>)) = idxValues d" unfolding m_def by blast
  moreover define d2 where "d2 = d\<lparr>de_idxBuffer := buf, de_idxCap := cap, de_idxLen := m\<rparr>"
  ultimately have d2: "reslice_idx (expandBuffer d m) m = Some d2" "idx_ok d2" "take ?c (idxValues d2) = idxValues d" by simp_all
  have len: "de_idxLen d2 = ?c + length ?is" "NumEntries d2 = NumEntries d" by (simp_all add: d2_def m_def NumEntries_def)
  have run: "PutIndices d data = (case put_ints (NumEntries d) ?is (d2, ?c) of None \<Rightarrow> None
      | Some ((d', _), None) \<Rightarrow> Some (d', None)
      | Some ((d', _), Some e) \<Rightarrow> do { d' \<leftarrow> reslice_idx d' ?c;
          d' \<leftarrow> rollbackDictionaryReferences d' (length (de_referencedIndices d2)) (length (de_referencedBitmap d2)); Some (d', Some e) })"
    using assms(2) d2(1) unfolding PutIndices_def Let_def newLen nat_int array_ok_def
    by (simp add: put_index_values_ints [OF assms(2)] len(2) split: option.split)
  have fits: "?c + length ?is \<le> de_idxLen d2" by (simp add: len(1))
  show ?thesis
  proof (cases "list_all (index_ok (NumEntries d)) ?is")
    case True
    from put_ints_all [OF d2(2) fits True] obtain d' where
      d': "put_ints (NumEntries d) ?is (d2, ?c) = Some ((d', ?c + length ?is), None)" "put_frame ?c d2 d'"
        "idxValues d' = blit (idxValues d2) ?c (map of_int ?is)"
        "de_trackReferences d2 \<longrightarrow> (\<forall>j. bm_bit (de_referencedBitmap d') j \<longleftrightarrow> bm_bit (de_referencedBitmap d2) j \<or> int j \<in> set ?is)" by blast
    have "idxValues d' = idxValues d @ map of_int ?is"
      using d2(2,3) len(1) by (simp add: d'(3) blit_def length_idxValues)
    moreover have "idx_ok d'" "de_memo d' = de_memo d" using put_frame_same [OF d'(2)] by (simp_all add: d2_def)
    moreover have "\<forall>i\<in>set ?is. 0 \<le> i" using True by (simp add: list_all_iff index_ok_def)
    then have "de_trackReferences d \<longrightarrow> (\<forall>i. DictionaryIndexReferenced d' i \<longleftrightarrow> DictionaryIndexReferenced d i \<or> i \<in> set ?is)"
      using d'(4) by (auto simp: referenced_bit d2_def)
    ultimately show ?thesis using True d'(1) run by simp
  next
    case False
    from put_ints_bad [OF d2(2) fits False] obtain d' c' where
      d': "put_ints (NumEntries d) ?is (d2, ?c) = Some ((d', c'), Some invalidDictionaryIndex)" "put_frame ?c d2 d'" by blast
    from d'(2) obtain buf' bm refs new where
      f: "d' = d2\<lparr>de_idxBuffer := buf', de_referencedBitmap := bm, de_referencedIndices := refs\<rparr>" "idx_ok d'"
        "take ?c (idxValues d') = take ?c (idxValues d2)" "refs_grow d2 d' new" unfolding put_frame_def by blast
    let ?d = "d\<lparr>de_idxBuffer := buf', de_idxCap := cap\<rparr>"
    have cap: "?c \<le> cap" using d2(2) by (simp add: idx_ok_def d2_def m_def)
    then have r: "reslice_idx d' ?c = Some (d'\<lparr>de_idxLen := ?c\<rparr>)" by (simp add: reslice_idx_def f(1) d2_def)
    have "refs_grow d2 (d'\<lparr>de_idxLen := ?c\<rparr>) new" using f(4) by (simp add: refs_grow_def)
    from rollback_ok [OF this] have "PutIndices d data = Some (?d, Some invalidDictionaryIndex)"
      using d'(1) r run by (simp add: f(1) d2_def)
    moreover have "idx_ok ?d" "idxValues ?d = idxValues d"
      using f(2,3) d2(3) cap by (simp_all add: f(1) d2_def m_def idx_ok_def idxValues_def min_def)
    ultimately show ?thesis using False by auto
  qed
qed

theorem PutIndices_all_or_nothing_witness:
  "\<exists>d d1 d2. typedDictEncoder_Put hash_signed same_int (newDictEncoderBase NewResizableBuffer (NewMemoTable 0)) [5 :: 32 word] = Some d \<and>
    PutIndices d \<lparr>ia_values = INT8 [7, 0, 9, 0], ia_nullBitmap = Some [0x0A], ia_offset = 1, ia_len = 3, ia_nullN = 1\<rparr> = Some (d1, None) \<and>
    idxValues d1 = idxValues d @ [0, 0] \<and>
    PutIndices d \<lparr>ia_values = INT8 [0, 255], ia_nullBitmap = None, ia_offset = 0, ia_len = 2, ia_nullN = 0\<rparr> = Some (d2, Some invalidDictionaryIndex) \<and>
    idxValues d2 = idxValues d"
proof -
  let ?good = "\<lparr>ia_values = INT8 [7, 0, 9, 0], ia_nullBitmap = Some [0x0A], ia_offset = 1, ia_len = 3, ia_nullN = 1\<rparr>"
    and ?bad = "\<lparr>ia_values = INT8 [0, 255], ia_nullBitmap = None, ia_offset = 0, ia_len = 2, ia_nullN = 0\<rparr>"
  have ok: "array_ok ?good" "array_ok ?bad" by code_simp+
  have ints: "array_indexes ?good = [0, 0]" "array_indexes ?bad = [0, -1]" by code_simp+
  from dict_int.DictPut_ok [OF dict_int.New_dict_view, of "[5 :: 32 word]" NewResizableBuffer] obtain d ms js where
    d: "typedDictEncoder_Put hash_signed same_int (newDictEncoderBase NewResizableBuffer (NewMemoTable 0)) [5 :: 32 word] = Some d"
      "dict_enc_view hash_signed same_int d ms js" "indexes hash_signed same_int ms js [5]" by auto
  have n: "0 < NumEntries d" using d(3) unfolding dict_int.NumEntries_eq [OF d(2)] by (auto simp: indexes_def list_all2_Cons2)
  have idx: "idx_ok d" using d(2) by (simp add: dict_enc_view_def)
  have "de_idxLen d = length js" using d(2) length_idxValues [OF idx] by (simp add: dict_enc_view_def)
  then have len: "de_idxLen d + ia_len ?good \<le> 2 ^ 60" "de_idxLen d + ia_len ?bad \<le> 2 ^ 60" using indexes_length [OF d(3)] by simp_all
  have "list_all (index_ok (NumEntries d)) [0, 0]" "\<not> list_all (index_ok (NumEntries d)) [0, -1]"
    using n by (simp_all add: index_ok_def)
  with PutIndices_all_or_nothing [OF idx ok(1) len(1)] PutIndices_all_or_nothing [OF idx ok(2) len(2)]
  have "\<exists>d1. PutIndices d ?good = Some (d1, None) \<and> idxValues d1 = idxValues d @ [0, 0]"
    "\<exists>d2. PutIndices d ?bad = Some (d2, Some invalidDictionaryIndex) \<and> idxValues d2 = idxValues d" unfolding ints by auto
  with d(1) show ?thesis by blast
qed

end
