(* ===== verification/Spec2Isabelle.thy ===== *)
theory Spec2Isabelle
  imports Bitmap_Ops Levels Dict_Codec Dict_Indices
begin

text \<open>
  A verification development of the bit-level core of arrow-go, the Go implementation of Apache Arrow and
  Parquet: bitmaps, bit packing, the run-length codec, levels, the plain and the dictionary encoding of values of
  fixed length, and the buffers and hash tables they rest on. File names below are relative to \<^verbatim>\<open>src/\<close>.

  \<^bold>\<open>How the parts interact.\<close> A validity bitmap says which slots of a column have a value. The bitmap functions
  of \<^verbatim>\<open>arrow/bitutil\<close> copy, combine and compare such bitmaps at any bit offset; the counters and run readers of
  \<^verbatim>\<open>internal/bitutils\<close> visit them in blocks and runs. A Parquet page holds levels and values. Levels, and the indexes
  of a dictionary page, are encoded by the hybrid of run-length encoding and bit packing of
  \<^verbatim>\<open>parquet/internal/utils/rle.go\<close>, over the bit writer and reader. Values are written as they are (plain) or, through
  a memo table of \<^verbatim>\<open>internal/hashing\<close>, as indexes of a dictionary that is itself a plain page. \<^verbatim>\<open>PutSpaced\<close> and
  \<^verbatim>\<open>DecodeSpaced\<close> leave out the slots that are null and put them back. Encoders write to growing buffers of
  \<^verbatim>\<open>arrow/memory\<close>.

  \<^bold>\<open>Conventions.\<close> An operation of the code is a definition of its name, with the type in front where several types
  have the method; a struct is a record, whose fields carry a short prefix. A method that changes its receiver returns
  it. A panic (index or slice bounds, nil) is \<open>None\<close>, a Go \<^verbatim>\<open>error\<close> a value of \<open>goerr\<close>. Bytes and machine integers
  are words, the counters of the run-length codec are integers with the wrap-around of \<^verbatim>\<open>int32\<close> written out, lengths
  and offsets are natural numbers. A value of a generic type is the word of its bits; what the code does with it
  (hash, compare) is an argument. An interface is a record of operations with its contract as a locale. Callbacks are
  functions on a state of any type. What \<^verbatim>\<open>bufferPool.Get()\<close> returns is the argument \<open>pool\<close>. The pure Go and
  little-endian build on a 64-bit machine is the one modelled.

  \<^bold>\<open>Bitmaps.\<close>

  \<^item> \<open>Prelude\<close>: slices with their bounds checks, the bits of a byte sequence (\<open>bm_bit\<close>), little-endian words, and
    \<^verbatim>\<open>math/bits\<close>.
  \<^item> \<open>Bitutil\<close>, \<open>Checked_Math\<close>, \<open>Min_Max\<close>: \<^verbatim>\<open>arrow/bitutil/bitutil.go\<close>, \<^verbatim>\<open>internal/utils/math.go\<close> and \<^verbatim>\<open>min_max.go\<close>. Counting
    and setting ranges of bits is exact and keeps the other bits; the overflow flags of \<^verbatim>\<open>Add\<close> and \<^verbatim>\<open>Mul\<close> are exact.
  \<^item> \<open>Bitmaps\<close>, \<open>Bitmap_Words\<close>, \<open>Bitmap_Transfer\<close>, \<open>Bitmap_Ops\<close>: \<^verbatim>\<open>arrow/bitutil/bitmaps.go\<close>. The bit and word readers and
    writers, \<^verbatim>\<open>CopyBitmap\<close>, \<^verbatim>\<open>InvertBitmap\<close>, \<^verbatim>\<open>AppendBitmap\<close>, the five operations of \<^verbatim>\<open>BitmapOp\<close> by the aligned and the unaligned
    way, and \<^verbatim>\<open>BitmapEquals\<close>: each result is given bit by bit, with the other bits of the destination kept. The locale
    \<open>bit_op\<close> there is the contract of an operation on bytes and words.
  \<^item> \<open>Bit_Blocks\<close>, \<open>Bit_Runs\<close>, \<open>Set_Bit_Runs\<close>: \<^verbatim>\<open>internal/bitutils\<close>. Blocks have exact counts, runs are maximal and end at the
    end of the range, and visitors call back for the right positions in order up to the first error. The locales
    \<open>bit_blocks\<close>, \<open>bit_runs\<close> and \<open>set_bit_runs\<close> are the contracts of a counter and a reader.

  \<^bold>\<open>Bit packing and runs.\<close>

  \<^item> \<open>Bit_Packing\<close>: the unrolled unpackers of \<^verbatim>\<open>bit_packing_default.go\<close> as lists of their statements, equal to a
    reference definition on the bit stream.
  \<^item> \<open>Bit_Writer\<close>, \<open>Bit_Reader\<close>, \<open>Bit_Reader_Batch\<close>, \<open>Bit_Reader_Bools\<close>, \<open>Bit_Codec\<close>: \<^verbatim>\<open>bit_writer.go\<close> and \<^verbatim>\<open>bit_reader.go\<close>. The
    locale \<open>writer_at\<close> is the contract of \<^verbatim>\<open>WriterAtWithLen\<close>, of which the fixed buffer and the pooled writer are
    instances. Round trips of packed values and of variable-length integers.
  \<^item> \<open>Rle_Encoder\<close>, \<open>Rle_Encoder_Batch\<close>, \<open>Rle_Decoder\<close>, \<open>Rle_Codec\<close>: \<^verbatim>\<open>rle.go\<close>. An encoding is a list of runs; \<open>decodes\<close> relates a
    decoder in any position to the values it has left, \<open>encoder_calls\<close> and \<open>decoder_calls\<close> are the states that calls reach.
    The round trip, the size bound, that the batch methods return, and what \<^verbatim>\<open>GetBatch\<close>, \<^verbatim>\<open>Discard\<close> and \<^verbatim>\<open>GetBatchBitmap\<close> do
    in the middle of a run. Three theorems there are single instances, at width 0 or 1, of defects of the code: a counter
    that overflows, a truncated run, and a stale byte.
  \<^item> \<open>Levels\<close>: \<^verbatim>\<open>parquet/internal/encoding/levels.go\<close>. Round trips of both encodings, the errors of a short block, and that
    \<^verbatim>\<open>LevelEncodingMaxBufferSize\<close> is enough: all levels come back from that many bytes.

  \<^bold>\<open>Values.\<close>

  \<^item> \<open>Spaced_Expand\<close>, \<open>Spaced_Compress\<close>: \<^verbatim>\<open>spacedExpand\<close>, \<^verbatim>\<open>spacedExpandSwap\<close> and \<^verbatim>\<open>spacedCompress\<close>. The locales \<open>slot_move\<close> and
    \<open>slot_permutation\<close> are the contracts of moving a run. \<open>valid_values\<close> are the values of the set bits.
  \<^item> \<open>Dictionary\<close>, \<open>Rle_Dict\<close>, \<open>Rle_Spaced\<close>: \<^verbatim>\<open>dictionary.go\<close>, \<^verbatim>\<open>typed_rle_dict.go\<close> and the converter of \<^verbatim>\<open>typed_encoder.go\<close>. The
    locale \<open>dictionary_converter\<close> is the contract of the interface, \<open>value_decoder\<close> that of the decoder of a dictionary.
  \<^item> \<open>Memo_Table\<close>: the hash table with open addressing and the memo table of \<^verbatim>\<open>xxh3_memo_table_types.go\<close> refine the list of
    the values inserted, for every key type (\<open>memo_key\<close>). Two keys are the same where hash and comparison agree, which is
    shown to be equality of the bits, except that all floats that are not a number are one key.
  \<^item> \<open>Memory_Buffer\<close>, \<open>Buffer_Writers\<close>: \<^verbatim>\<open>arrow/memory/buffer.go\<close> with the Go allocator, and the two writers of
    \<^verbatim>\<open>parquet/internal/encoding/types.go\<close>. The memory between length and capacity is kept beside the slice. Two instances
    of defects: \<^verbatim>\<open>BufferWriter.Reset\<close> keeps a buffer it released, and \<^verbatim>\<open>Seek\<close> does not ignore an unknown \<^verbatim>\<open>whence\<close>.
  \<^item> \<open>Plain_Encoder\<close>, \<open>Plain_Decoder\<close>: \<^verbatim>\<open>plain_encoding_types.go\<close> and the base encoder and decoder, with the round trip.
  \<^item> \<open>Dict_Encoder\<close>, \<open>Dict_Decoder\<close>, \<open>Dict_Codec\<close>, \<open>Dict_Indices\<close>: \<^verbatim>\<open>dictEncoder\<close> and \<^verbatim>\<open>dictDecoder\<close> of \<^verbatim>\<open>encoder.go\<close> and \<^verbatim>\<open>decoder.go\<close> and
    their typed versions. \<open>dict_calls\<close> are the states that calls of the encoder reach with the pages they flushed; the last
    dictionary decodes them all. \<^verbatim>\<open>PutIndices\<close> appends the whole array or nothing.

  \<^bold>\<open>Loops and bounds.\<close> Loops with a decreasing measure are recursive functions; those that may run forever on some state
  (probing a full table, reading runs, batches of a codec) are partial functions with the value \<open>None\<close> for a loop that does not end,
  and the theorems show that they return. No fuel is used. Theorems bound sizes where the code does: fewer
  than 2^31 values in one encoder, since its counters are \<^verbatim>\<open>int32\<close>, literal runs below 2^31 values, dictionary indexes below
  2^31, pages of plain values of at most 2^31 - 1 bytes (the decoder refuses more), and lengths below 2^60, far from the overflow of \<^verbatim>\<open>int\<close>.

  \<^bold>\<open>Not modelled.\<close> Assembly kernels, for which the Go functions stand; buffers that share memory with others
  (\<^verbatim>\<open>SliceBuffer\<close>, \<^verbatim>\<open>NewBufferBytes\<close>) and the other allocators; memo tables of byte strings, which use a third-party hash and an
  array builder; the boolean, byte array, delta and byte stream split encodings; arrow arrays, compute kernels, scalars, IPC,
  Flight and CSV; Parquet files, schemas and metadata, which rest on input and output, compression packages and generated
  Thrift and Flatbuffers code.
\<close>

end
